(* ===== verification/Prelude.thy ===== *)
theory Prelude
  imports Complex_Main "HOL-Library.Word" "HOL-Library.Multiset" "HOL-Library.Sublist"
begin

unbundle bit_operations_syntax

text \<open>
  Shared vocabulary of the development: the lemma collections the component theories add
  to, the sorted containers of the code base (a \<open>base::flat_map\<close> is an association list
  sorted by key, a \<open>base::flat_set\<close> a strictly sorted list; iterators are positions in
  these lists), the binary searches over them, and C++'s truncating integer remainder.
  The interface of the containers is stated as two locales, which are interpreted on the
  list representation at the end of the theory.
\<close>

named_theorems flat_simps
named_theorems flat_intros

subsection \<open>C++ integer arithmetic\<close>

text \<open>\<open>a / b\<close> and \<open>a % b\<close> of C++ truncate towards zero.\<close>

definition cdiv :: "int \<Rightarrow> int \<Rightarrow> int" where
  "cdiv a b = sgn a * sgn b * (\<bar>a\<bar> div \<bar>b\<bar>)"

definition cmod :: "int \<Rightarrow> int \<Rightarrow> int" where
  "cmod a b = sgn a * (\<bar>a\<bar> mod \<bar>b\<bar>)"

lemma cmod_nonneg: "0 \<le> a \<Longrightarrow> 0 < b \<Longrightarrow> cmod a b = a mod b"
  by (cases "a = 0") (simp_all add: cmod_def)

lemma cdiv_nonneg: "0 \<le> a \<Longrightarrow> 0 < b \<Longrightarrow> cdiv a b = a div b"
  by (cases "a = 0") (simp_all add: cdiv_def)

lemma cmod_minus_one: "1 < b \<Longrightarrow> cmod (-1) b = -1"
  by (simp add: cmod_def)

subsection \<open>Positions in sorted lists\<close>

text \<open>
  \<open>lower_pos k f xs\<close> is the position std's \<open>lower_bound\<close> returns on a list whose
  projection \<open>f\<close> is sorted: the number of leading elements with \<open>f x < k\<close>;
  \<open>upper_pos\<close> is \<open>upper_bound\<close>. The end iterator is the length.
\<close>

definition lower_pos :: "'b::linorder \<Rightarrow> ('a \<Rightarrow> 'b) \<Rightarrow> 'a list \<Rightarrow> nat" where
  "lower_pos k f xs = length (takeWhile (\<lambda>x. f x < k) xs)"

definition upper_pos :: "'b::linorder \<Rightarrow> ('a \<Rightarrow> 'b) \<Rightarrow> 'a list \<Rightarrow> nat" where
  "upper_pos k f xs = length (takeWhile (\<lambda>x. f x \<le> k) xs)"

lemma lower_pos_le: "lower_pos k f xs \<le> length xs"
  by (simp add: lower_pos_def length_takeWhile_le)

lemma upper_pos_le: "upper_pos k f xs \<le> length xs"
  by (simp add: upper_pos_def length_takeWhile_le)

lemma takeWhile_nth_P: "i < length (takeWhile P xs) \<Longrightarrow> P (xs ! i)"
proof -
  assume i: "i < length (takeWhile P xs)"
  have "takeWhile P xs ! i \<in> set (takeWhile P xs)" by (rule nth_mem) (rule i)
  then have "P (takeWhile P xs ! i)" by (blast dest: set_takeWhileD)
  then show "P (xs ! i)" by (simp only: takeWhile_nth[OF i])
qed

lemma lower_pos_less: "i < lower_pos k f xs \<Longrightarrow> f (xs ! i) < k"
  unfolding lower_pos_def by (rule takeWhile_nth_P)

lemma upper_pos_less: "i < upper_pos k f xs \<Longrightarrow> f (xs ! i) \<le> k"
  unfolding upper_pos_def by (rule takeWhile_nth_P)

lemma lower_pos_at: "lower_pos k f xs < length xs \<Longrightarrow> k \<le> f (xs ! lower_pos k f xs)"
  unfolding lower_pos_def using nth_length_takeWhile[of "\<lambda>x. f x < k" xs] by simp

lemma upper_pos_at: "upper_pos k f xs < length xs \<Longrightarrow> k < f (xs ! upper_pos k f xs)"
  unfolding upper_pos_def using nth_length_takeWhile[of "\<lambda>x. f x \<le> k" xs] by simp

lemma lower_pos_after:
  assumes "sorted (map f xs)" "lower_pos k f xs \<le> i" "i < length xs"
  shows "k \<le> f (xs ! i)"
proof -
  have "k \<le> f (xs ! lower_pos k f xs)" using assms by (simp add: lower_pos_at)
  also have "\<dots> \<le> f (xs ! i)"
    using assms sorted_nth_mono[of "map f xs" "lower_pos k f xs" i] by simp
  finally show ?thesis .
qed

lemma upper_pos_after:
  assumes "sorted (map f xs)" "upper_pos k f xs \<le> i" "i < length xs"
  shows "k < f (xs ! i)"
proof -
  have "k < f (xs ! upper_pos k f xs)" using assms by (simp add: upper_pos_at)
  also have "\<dots> \<le> f (xs ! i)"
    using assms sorted_nth_mono[of "map f xs" "upper_pos k f xs" i] by simp
  finally show ?thesis .
qed

subsection \<open>Sorted sets\<close>

type_synonym 'a flat_set = "'a list"

fun fs_insert :: "'a::linorder \<Rightarrow> 'a flat_set \<Rightarrow> 'a flat_set" where
  "fs_insert x [] = [x]"
| "fs_insert x (y # ys) =
     (if x < y then x # y # ys else if x = y then y # ys else y # fs_insert x ys)"

definition fs_merge :: "'a::linorder list \<Rightarrow> 'a flat_set \<Rightarrow> 'a flat_set" where
  "fs_merge xs s = fold fs_insert xs s"

definition fs_of_list :: "'a::linorder list \<Rightarrow> 'a flat_set" where
  "fs_of_list xs = fs_merge xs []"

definition fs_remove :: "'a::linorder \<Rightarrow> 'a flat_set \<Rightarrow> 'a flat_set" where
  "fs_remove x s = filter (\<lambda>y. y \<noteq> x) s"

lemma set_fs_insert [simp]: "set (fs_insert x s) = insert x (set s)"
  by (induction s) auto

lemma sorted_fs_insert: "sorted_wrt (<) s \<Longrightarrow> sorted_wrt (<) (fs_insert x s)"
  by (induction s) auto

lemma set_fs_merge [simp]: "set (fs_merge xs s) = set xs \<union> set s"
  unfolding fs_merge_def by (induction xs arbitrary: s) auto

lemma sorted_fs_merge: "sorted_wrt (<) s \<Longrightarrow> sorted_wrt (<) (fs_merge xs s)"
  unfolding fs_merge_def by (induction xs arbitrary: s) (auto simp: sorted_fs_insert)

lemma fs_merge_Nil [simp]: "fs_merge [] s = s"
  by (simp add: fs_merge_def)

lemma set_fs_of_list [simp]: "set (fs_of_list xs) = set xs"
  by (simp add: fs_of_list_def)

lemma sorted_fs_of_list [simp]: "sorted_wrt (<) (fs_of_list xs)"
  by (simp add: fs_of_list_def sorted_fs_merge)

lemma set_fs_remove [simp]: "set (fs_remove x s) = set s - {x}"
  by (auto simp: fs_remove_def)

lemma sorted_fs_remove: "sorted_wrt (<) s \<Longrightarrow> sorted_wrt (<) (fs_remove x s)"
  by (simp add: fs_remove_def sorted_wrt_filter)

lemma sorted_distinct_ids: "sorted_wrt (<) (s :: 'a::linorder list) \<Longrightarrow> distinct s"
  using strict_sorted_iff by blast

lemma sorted_le_last: "sorted_wrt (<) (s :: 'a::linorder list) \<Longrightarrow> x \<in> set s \<Longrightarrow> x \<le> last s"
  by (induction s) (auto intro: less_imp_le)

lemma sorted_hd_le: "sorted_wrt (<) (s :: 'a::linorder list) \<Longrightarrow> x \<in> set s \<Longrightarrow> hd s \<le> x"
  by (cases s) auto

lemma sorted_set_unique:
  fixes s t :: "'a::linorder list"
  assumes "sorted_wrt (<) s" "sorted_wrt (<) t" "set s = set t"
  shows "s = t"
  using assms strict_sorted_equal by blast

lemma length_flat_card: "sorted_wrt (<) (s :: 'a::linorder list) \<Longrightarrow> length s = card (set s)"
  by (simp add: distinct_card sorted_distinct_ids)

subsection \<open>Sorted maps\<close>

type_synonym ('k, 'v) flat_map = "('k \<times> 'v) list"

definition fm_lookup :: "('k, 'v) flat_map \<Rightarrow> 'k \<Rightarrow> 'v option" where
  "fm_lookup m k = map_of m k"

text \<open>\<open>emplace\<close> leaves an existing entry as it is.\<close>

fun fm_emplace :: "'k::linorder \<Rightarrow> 'v \<Rightarrow> ('k, 'v) flat_map \<Rightarrow> ('k, 'v) flat_map" where
  "fm_emplace k v [] = [(k, v)]"
| "fm_emplace k v ((l, w) # m) =
     (if k < l then (k, v) # (l, w) # m else if k = l then (l, w) # m
      else (l, w) # fm_emplace k v m)"

definition fm_erase :: "'k \<Rightarrow> ('k, 'v) flat_map \<Rightarrow> ('k, 'v) flat_map" where
  "fm_erase k m = filter (\<lambda>e. fst e \<noteq> k) m"

text \<open>\<open>m[k] = v\<close>.\<close>

definition fm_set :: "'k::linorder \<Rightarrow> 'v \<Rightarrow> ('k, 'v) flat_map \<Rightarrow> ('k, 'v) flat_map" where
  "fm_set k v m = fm_emplace k v (fm_erase k m)"

abbreviation fm_sorted :: "('k::linorder, 'v) flat_map \<Rightarrow> bool" where
  "fm_sorted m \<equiv> sorted_wrt (<) (map fst m)"

lemma keys_fm_emplace [simp]: "fst ` set (fm_emplace k v m) = insert k (fst ` set m)"
  by (induction m rule: fm_emplace.induct) auto

lemma sorted_fm_emplace: "fm_sorted m \<Longrightarrow> fm_sorted (fm_emplace k v m)"
proof (induction k v m rule: fm_emplace.induct)
  case (2 k v l w m)
  have "fst ` set (fm_emplace k v m) = insert k (fst ` set m)" by simp
  with 2 show ?case by (auto 4 3 simp del: keys_fm_emplace)
qed simp

lemma fm_lookup_emplace:
  "fm_sorted m \<Longrightarrow> fm_lookup (fm_emplace k v m) j =
     (if j = k then (case fm_lookup m k of None \<Rightarrow> Some v | Some w \<Rightarrow> Some w)
      else fm_lookup m j)"
proof (induction k v m rule: fm_emplace.induct)
  case (1 k v)
  then show ?case by (simp add: fm_lookup_def)
next
  case (2 k v l w m)
  have "k < l \<Longrightarrow> map_of m k = None"
    using 2(2) by (auto simp: map_of_eq_None_iff)
  with 2 show ?case by (auto simp: fm_lookup_def)
qed

lemma fm_lookup_None: "fm_lookup m k = None \<longleftrightarrow> k \<notin> fst ` set m"
  by (simp add: fm_lookup_def map_of_eq_None_iff)

lemma fm_emplace_old: "fm_sorted m \<Longrightarrow> k \<in> fst ` set m \<Longrightarrow> fm_emplace k v m = m"
  by (induction k v m rule: fm_emplace.induct) auto

lemma fm_emplace_last:
  "\<forall>l \<in> fst ` set m. l < k \<Longrightarrow> fm_emplace k v m = m @ [(k, v)]"
  by (induction k v m rule: fm_emplace.induct) auto

lemma mset_fm_emplace:
  "k \<notin> fst ` set m \<Longrightarrow> mset (fm_emplace k v m) = add_mset (k, v) (mset m)"
  by (induction k v m rule: fm_emplace.induct) auto

lemma sorted_fm_erase: "fm_sorted m \<Longrightarrow> fm_sorted (fm_erase k m)"
  by (induction m) (auto simp: fm_erase_def)

lemma fm_lookup_erase: "fm_lookup (fm_erase k m) j = (if j = k then None else fm_lookup m j)"
  by (induction m) (auto simp: fm_erase_def fm_lookup_def)

lemma fm_lookup_set:
  "fm_sorted m \<Longrightarrow> fm_lookup (fm_set k v m) j = (if j = k then Some v else fm_lookup m j)"
  by (simp add: fm_set_def fm_lookup_emplace sorted_fm_erase fm_lookup_erase)

lemma sorted_fm_set: "fm_sorted m \<Longrightarrow> fm_sorted (fm_set k v m)"
  by (simp add: fm_set_def sorted_fm_emplace sorted_fm_erase)

lemma fm_lookup_empty [simp]: "fm_lookup [] k = None"
  by (simp add: fm_lookup_def)

subsection \<open>The interfaces the code relies on\<close>

locale ordered_map =
  fixes empty_map :: "'m"
    and emplace :: "'k::linorder \<Rightarrow> 'v \<Rightarrow> 'm \<Rightarrow> 'm"
    and erase :: "'k \<Rightarrow> 'm \<Rightarrow> 'm"
    and find :: "'m \<Rightarrow> 'k \<Rightarrow> 'v option"
    and keys :: "'m \<Rightarrow> 'k list"
    and invar :: "'m \<Rightarrow> bool"
  assumes find_empty: "find empty_map k = None"
    and find_emplace: "invar m \<Longrightarrow> find (emplace k v m) j =
      (if j = k then (case find m k of None \<Rightarrow> Some v | Some w \<Rightarrow> Some w) else find m j)"
    and find_erase: "invar m \<Longrightarrow> find (erase k m) j = (if j = k then None else find m j)"
    and keys_find: "invar m \<Longrightarrow> k \<in> set (keys m) \<longleftrightarrow> find m k \<noteq> None"
    and keys_sorted: "invar m \<Longrightarrow> sorted_wrt (<) (keys m)"
    and invar_empty: "invar empty_map"
    and invar_emplace: "invar m \<Longrightarrow> invar (emplace k v m)"
    and invar_erase: "invar m \<Longrightarrow> invar (erase k m)"
begin

lemma emplace_keeps: "invar m \<Longrightarrow> find m k = Some w \<Longrightarrow> find (emplace k v m) k = Some w"
  by (simp add: find_emplace)

lemma emplace_new: "invar m \<Longrightarrow> find m k = None \<Longrightarrow> find (emplace k v m) k = Some v"
  by (simp add: find_emplace)

lemma emplace_keys: "invar m \<Longrightarrow> set (keys (emplace k v m)) = insert k (set (keys m))"
  by (auto simp: keys_find invar_emplace find_emplace split: option.splits if_splits)

lemma emplace_length_new:
  assumes "invar m" "find m k = None"
  shows "length (keys (emplace k v m)) = Suc (length (keys m))"
proof -
  have d: "distinct (keys m)" "distinct (keys (emplace k v m))"
    using assms by (auto intro!: sorted_distinct_ids keys_sorted invar_emplace)
  have "k \<notin> set (keys m)" using assms by (simp add: keys_find)
  then show ?thesis
    using assms by (simp add: distinct_card[OF d(1), symmetric] distinct_card[OF d(2), symmetric]
        emplace_keys)
qed

end

locale ordered_set =
  fixes empty_set :: "'s"
    and insert_elem :: "'a::linorder \<Rightarrow> 's \<Rightarrow> 's"
    and remove_elem :: "'a \<Rightarrow> 's \<Rightarrow> 's"
    and elems :: "'s \<Rightarrow> 'a list"
    and invar :: "'s \<Rightarrow> bool"
  assumes elems_empty: "elems empty_set = []"
    and elems_insert: "invar s \<Longrightarrow> set (elems (insert_elem x s)) = insert x (set (elems s))"
    and elems_remove: "invar s \<Longrightarrow> set (elems (remove_elem x s)) = set (elems s) - {x}"
    and elems_sorted: "invar s \<Longrightarrow> sorted_wrt (<) (elems s)"
    and invar_empty: "invar empty_set"
    and invar_insert: "invar s \<Longrightarrow> invar (insert_elem x s)"
    and invar_remove: "invar s \<Longrightarrow> invar (remove_elem x s)"
begin

lemma remove_insert:
  assumes "invar s" "x \<notin> set (elems s)"
  shows "elems (remove_elem x (insert_elem x s)) = elems s"
  by (rule sorted_set_unique)
    (use assms in \<open>auto simp: elems_sorted elems_remove elems_insert invar_insert invar_remove\<close>)

lemma insert_length:
  assumes "invar s"
  shows "length (elems (insert_elem x s)) =
    (if x \<in> set (elems s) then length (elems s) else Suc (length (elems s)))"
  using assms by (auto simp: length_flat_card elems_sorted invar_insert elems_insert insert_absorb)

end

interpretation fm: ordered_map "[]" fm_emplace fm_erase fm_lookup "map fst" fm_sorted
proof unfold_locales
  show "fm_sorted m \<Longrightarrow> k \<in> set (map fst m) \<longleftrightarrow> fm_lookup m k \<noteq> None"
    for k :: 'a and m :: "('a, 'b) flat_map"
    by (simp add: fm_lookup_None)
qed (simp_all add: fm_lookup_emplace fm_lookup_erase sorted_fm_emplace sorted_fm_erase)

interpretation fs: ordered_set "[]" fs_insert fs_remove "\<lambda>s. s" "sorted_wrt (<)"
  by unfold_locales (simp_all add: sorted_fs_insert sorted_fs_remove)

end
