(* ===== verification/PtsWaiter.thy ===== *)
theory PtsWaiter
  imports Prelude
begin

text \<open>
  The ordering of incoming updates: \<open>data/data_pts_waiter.{h,cpp}\<close>. A \<open>PtsWaiter\<close> owns
  the "pts" counter of one update sequence. An update that leaves a gap is put in a queue
  keyed by its pts and a running number; when the gap closes the queue is applied in order.
  The calls to the owning \<open>Api::Updates\<close> object (timers, applying an update) are recorded
  in the field \<open>pw_effects\<close>, in the order they are made. The type variables \<open>'u\<close> and
  \<open>'us\<close> are \<open>MTPUpdate\<close> and \<open>MTPUpdates\<close>, which the waiter stores and hands over only.
\<close>

type_synonym channel = "nat option"

datatype pts_queue = SkippedUpdate | SkippedUpdates

text \<open>
  \<open>None\<close> as an applied value is the default-constructed update that \<open>operator[]\<close> of the
  map yields for a missing key.
\<close>

datatype ('u, 'us) pts_effect =
    StartTimer channel int
  | ApplyUpdate "'u option"
  | ApplyUpdates "'us option"

record ('u, 'us) pts_waiter =
  pw_queue :: "(64 word, pts_queue) flat_map"
  pw_updateQueue :: "(64 word, 'u) flat_map"
  pw_updatesQueue :: "(64 word, 'us) flat_map"
  pw_good :: int
  pw_last :: int
  pw_count :: int
  pw_level :: int
  pw_requesting :: bool
  pw_waitingForSkipped :: bool
  pw_waitingForShortPoll :: bool
  pw_skippedKey :: "32 word"
  pw_effects :: "('u, 'us) pts_effect list"

definition new_pts_waiter :: "('u, 'us) pts_waiter" where
  "new_pts_waiter = \<lparr>pw_queue = [], pw_updateQueue = [], pw_updatesQueue = [],
     pw_good = 0, pw_last = 0, pw_count = 0, pw_level = 0, pw_requesting = False,
     pw_waitingForSkipped = False, pw_waitingForShortPoll = False,
     pw_skippedKey = 0, pw_effects = []\<rparr>"

definition kWaitForSkippedTimeout :: int where
  "kWaitForSkippedTimeout = 1000"

definition emit :: "('u, 'us) pts_effect \<Rightarrow> ('u, 'us) pts_waiter \<Rightarrow> ('u, 'us) pts_waiter" where
  "emit e s = s\<lparr>pw_effects := pw_effects s @ [e]\<rparr>"

definition clearSkippedUpdates :: "('u, 'us) pts_waiter \<Rightarrow> ('u, 'us) pts_waiter" where
  "clearSkippedUpdates s =
     s\<lparr>pw_queue := [], pw_updateQueue := [], pw_updatesQueue := [], pw_level := 0\<rparr>"

definition pts_init :: "int \<Rightarrow> ('u, 'us) pts_waiter \<Rightarrow> ('u, 'us) pts_waiter" where
  "pts_init pts s = clearSkippedUpdates (s\<lparr>pw_good := pts, pw_last := pts, pw_count := pts\<rparr>)"

definition pts_inited :: "('u, 'us) pts_waiter \<Rightarrow> bool" where
  "pts_inited s \<longleftrightarrow> pw_good s > 0"

definition setRequesting :: "bool \<Rightarrow> ('u, 'us) pts_waiter \<Rightarrow> ('u, 'us) pts_waiter" where
  "setRequesting isRequesting s =
     (let s1 = s\<lparr>pw_requesting := isRequesting\<rparr>
      in if isRequesting then clearSkippedUpdates s1 else s1)"

definition checkForWaiting :: "channel \<Rightarrow> ('u, 'us) pts_waiter \<Rightarrow> ('u, 'us) pts_waiter" where
  "checkForWaiting ch s =
     (if \<not> pw_waitingForSkipped s \<and> \<not> pw_waitingForShortPoll s
      then emit (StartTimer ch (-1)) s else s)"

definition setWaitingForSkipped ::
    "channel \<Rightarrow> int \<Rightarrow> ('u, 'us) pts_waiter \<Rightarrow> ('u, 'us) pts_waiter" where
  "setWaitingForSkipped ch ms s =
     (if ms \<ge> 0 then (emit (StartTimer ch ms) s)\<lparr>pw_waitingForSkipped := True\<rparr>
      else checkForWaiting ch (s\<lparr>pw_waitingForSkipped := False\<rparr>))"

definition setWaitingForShortPoll ::
    "channel \<Rightarrow> int \<Rightarrow> ('u, 'us) pts_waiter \<Rightarrow> ('u, 'us) pts_waiter" where
  "setWaitingForShortPoll ch ms s =
     (if ms \<ge> 0 then (emit (StartTimer ch ms) s)\<lparr>pw_waitingForShortPoll := True\<rparr>
      else checkForWaiting ch (s\<lparr>pw_waitingForShortPoll := False\<rparr>))"

text \<open>\<open>uint64(uint32(pts)) << 32 | key\<close>\<close>

definition pts_key_of :: "int \<Rightarrow> 32 word \<Rightarrow> 64 word" where
  "pts_key_of pts k = push_bit 32 (ucast (word_of_int pts :: 32 word)) OR ucast k"

definition ptsKey ::
    "pts_queue \<Rightarrow> int \<Rightarrow> ('u, 'us) pts_waiter \<Rightarrow> 64 word \<times> ('u, 'us) pts_waiter" where
  "ptsKey q pts s =
     (let n = pw_skippedKey s + 1; key = pts_key_of pts n
      in (key, s\<lparr>pw_skippedKey := n, pw_queue := fm_emplace key q (pw_queue s)\<rparr>))"

fun apply_entry ::
    "64 word \<times> pts_queue \<Rightarrow> ('u, 'us) pts_waiter \<Rightarrow> ('u, 'us) pts_waiter" where
  "apply_entry (key, SkippedUpdate) s = emit (ApplyUpdate (fm_lookup (pw_updateQueue s) key)) s"
| "apply_entry (key, SkippedUpdates) s = emit (ApplyUpdates (fm_lookup (pw_updatesQueue s) key)) s"

definition applySkippedUpdates :: "channel \<Rightarrow> ('u, 'us) pts_waiter \<Rightarrow> ('u, 'us) pts_waiter" where
  "applySkippedUpdates ch s =
     (if \<not> pw_waitingForSkipped s then s
      else let s1 = setWaitingForSkipped ch (-1) s in
        if pw_queue s1 = [] then s1
        else let s2 = s1\<lparr>pw_level := pw_level s1 + 1\<rparr>;
                 s3 = fold apply_entry (pw_queue s2) s2;
                 s4 = s3\<lparr>pw_level := pw_level s3 - 1\<rparr>
             in clearSkippedUpdates s4)"

definition pts_check ::
    "channel \<Rightarrow> int \<Rightarrow> int \<Rightarrow> ('u, 'us) pts_waiter \<Rightarrow> bool \<times> ('u, 'us) pts_waiter" where
  "pts_check ch pts cnt s =
     (if \<not> pts_inited s then (True, pts_init pts s)
      else let s1 = s\<lparr>pw_last := max (pw_last s) pts, pw_count := pw_count s + cnt\<rparr> in
        if pw_last s1 = pw_count s1 then (True, s1\<lparr>pw_good := pw_last s1\<rparr>)
        else if pw_last s1 < pw_count s1 then (cnt = 0, setWaitingForSkipped ch 1 s1)
        else (cnt = 0, setWaitingForSkipped ch kWaitForSkippedTimeout s1))"

definition updatedMany :: "channel \<Rightarrow> int \<Rightarrow> int \<Rightarrow> 'us \<Rightarrow> ('u, 'us) pts_waiter
    \<Rightarrow> bool \<times> ('u, 'us) pts_waiter" where
  "updatedMany ch pts cnt updates s =
     (if pw_requesting s \<or> pw_level s \<noteq> 0 then (True, s)
      else if pts \<le> pw_good s \<and> cnt > 0 then (False, s)
      else case pts_check ch pts cnt s of
        (True, s1) \<Rightarrow> (True, s1)
      | (False, s1) \<Rightarrow> (case ptsKey SkippedUpdates pts s1 of
          (key, s2) \<Rightarrow> (False, s2\<lparr>pw_updatesQueue := fm_emplace key updates (pw_updatesQueue s2)\<rparr>)))"

definition updatedOne :: "channel \<Rightarrow> int \<Rightarrow> int \<Rightarrow> 'u \<Rightarrow> ('u, 'us) pts_waiter
    \<Rightarrow> bool \<times> ('u, 'us) pts_waiter" where
  "updatedOne ch pts cnt update s =
     (if pw_requesting s \<or> pw_level s \<noteq> 0 then (True, s)
      else if pts \<le> pw_good s \<and> cnt > 0 then (False, s)
      else case pts_check ch pts cnt s of
        (True, s1) \<Rightarrow> (True, s1)
      | (False, s1) \<Rightarrow> (case ptsKey SkippedUpdate pts s1 of
          (key, s2) \<Rightarrow> (False, s2\<lparr>pw_updateQueue := fm_emplace key update (pw_updateQueue s2)\<rparr>)))"

definition updatedNone :: "channel \<Rightarrow> int \<Rightarrow> int \<Rightarrow> ('u, 'us) pts_waiter
    \<Rightarrow> bool \<times> ('u, 'us) pts_waiter" where
  "updatedNone ch pts cnt s =
     (if pw_requesting s \<or> pw_level s \<noteq> 0 then (True, s)
      else if pts \<le> pw_good s \<and> cnt > 0 then (False, s)
      else pts_check ch pts cnt s)"

definition updateAndApplyMany :: "channel \<Rightarrow> int \<Rightarrow> int \<Rightarrow> 'us \<Rightarrow> ('u, 'us) pts_waiter
    \<Rightarrow> bool \<times> ('u, 'us) pts_waiter" where
  "updateAndApplyMany ch pts cnt updates s =
     (case updatedMany ch pts cnt updates s of
        (False, s1) \<Rightarrow> (False, s1)
      | (True, s1) \<Rightarrow>
          if \<not> pw_waitingForSkipped s1 \<or> pw_queue s1 = []
          then (True, emit (ApplyUpdates (Some updates)) s1)
          else (case ptsKey SkippedUpdates pts s1 of (key, s2) \<Rightarrow>
            (True, applySkippedUpdates ch
              (s2\<lparr>pw_updatesQueue := fm_emplace key updates (pw_updatesQueue s2)\<rparr>))))"

definition updateAndApplyOne :: "channel \<Rightarrow> int \<Rightarrow> int \<Rightarrow> 'u \<Rightarrow> ('u, 'us) pts_waiter
    \<Rightarrow> bool \<times> ('u, 'us) pts_waiter" where
  "updateAndApplyOne ch pts cnt update s =
     (case updatedOne ch pts cnt update s of
        (False, s1) \<Rightarrow> (False, s1)
      | (True, s1) \<Rightarrow>
          if \<not> pw_waitingForSkipped s1 \<or> pw_queue s1 = []
          then (True, emit (ApplyUpdate (Some update)) s1)
          else (case ptsKey SkippedUpdate pts s1 of (key, s2) \<Rightarrow>
            (True, applySkippedUpdates ch
              (s2\<lparr>pw_updateQueue := fm_emplace key update (pw_updateQueue s2)\<rparr>))))"

definition updateAndApplyNone :: "channel \<Rightarrow> int \<Rightarrow> int \<Rightarrow> ('u, 'us) pts_waiter
    \<Rightarrow> bool \<times> ('u, 'us) pts_waiter" where
  "updateAndApplyNone ch pts cnt s =
     (case updatedNone ch pts cnt s of
        (False, s1) \<Rightarrow> (False, s1)
      | (True, s1) \<Rightarrow> (True, applySkippedUpdates ch s1))"

lemmas pts_defs = updateAndApplyMany_def updateAndApplyOne_def updateAndApplyNone_def
  updatedMany_def updatedOne_def updatedNone_def pts_check_def applySkippedUpdates_def
  ptsKey_def setWaitingForSkipped_def setWaitingForShortPoll_def checkForWaiting_def
  setRequesting_def pts_init_def clearSkippedUpdates_def emit_def pts_inited_def

subsection \<open>The state invariant\<close>

definition entry_backed ::
    "(64 word, 'u) flat_map \<Rightarrow> (64 word, 'us) flat_map \<Rightarrow> 64 word \<times> pts_queue \<Rightarrow> bool" where
  "entry_backed uq usq e \<longleftrightarrow>
     (if snd e = SkippedUpdate then fm_lookup uq (fst e) \<noteq> None
      else fm_lookup usq (fst e) \<noteq> None)"

definition effects_real :: "('u, 'us) pts_effect list \<Rightarrow> bool" where
  "effects_real es \<longleftrightarrow> (\<forall>e \<in> set es. e \<noteq> ApplyUpdate None \<and> e \<noteq> ApplyUpdates None)"

definition pts_wf :: "('u, 'us) pts_waiter \<Rightarrow> bool" where
  "pts_wf s \<longleftrightarrow> fm_sorted (pw_queue s) \<and> fm_sorted (pw_updateQueue s)
     \<and> fm_sorted (pw_updatesQueue s)
     \<and> (\<forall>e \<in> set (pw_queue s). entry_backed (pw_updateQueue s) (pw_updatesQueue s) e)
     \<and> effects_real (pw_effects s) \<and> pw_good s \<le> pw_last s \<and> pw_level s = 0"

lemma effects_real_simps [simp]:
  "effects_real []"
  "effects_real (es @ fs) \<longleftrightarrow> effects_real es \<and> effects_real fs"
  "effects_real (StartTimer ch ms # es) \<longleftrightarrow> effects_real es"
  "effects_real (ApplyUpdate u # es) \<longleftrightarrow> u \<noteq> None \<and> effects_real es"
  "effects_real (ApplyUpdates us # es) \<longleftrightarrow> us \<noteq> None \<and> effects_real es"
  by (auto simp: effects_real_def)

lemma pts_wf_new [simp]: "pts_wf new_pts_waiter"
  by (simp add: pts_wf_def new_pts_waiter_def)

lemma pts_wf_clear:
  "effects_real (pw_effects s) \<Longrightarrow> pw_good s \<le> pw_last s \<Longrightarrow> pts_wf (clearSkippedUpdates s)"
  by (simp add: pts_wf_def clearSkippedUpdates_def)

lemma pts_wf_setWaiting [simp]:
  "pts_wf (setWaitingForSkipped ch ms s) \<longleftrightarrow> pts_wf s"
  "pts_wf (setWaitingForShortPoll ch ms s) \<longleftrightarrow> pts_wf s"
  by (simp_all add: setWaitingForSkipped_def setWaitingForShortPoll_def checkForWaiting_def
      emit_def pts_wf_def)

lemma fold_apply_entry_frame:
  "\<exists>es'. fold apply_entry es s = s\<lparr>pw_effects := es'\<rparr>"
proof (induction es arbitrary: s)
  case Nil
  have "s = s\<lparr>pw_effects := pw_effects s\<rparr>" by simp
  then show ?case by (metis fold_simps(1))
next
  case (Cons e es)
  obtain k q where e: "e = (k, q)" by (cases e)
  obtain f where "apply_entry e s = s\<lparr>pw_effects := f\<rparr>" by (cases q) (auto simp: e emit_def)
  with Cons[of "apply_entry e s"] show ?case by auto
qed

lemma effects_real_fold:
  "effects_real (pw_effects s) \<Longrightarrow>
   (\<forall>e \<in> set es. entry_backed (pw_updateQueue s) (pw_updatesQueue s) e) \<Longrightarrow>
   effects_real (pw_effects (fold apply_entry es s))"
proof (induction es arbitrary: s)
  case (Cons e es)
  obtain k q where e: "e = (k, q)" by (cases e)
  from Cons.prems show ?case
    by (cases q) (auto simp: e emit_def entry_backed_def intro!: Cons.IH)
qed simp

lemma pts_wf_apply:
  assumes "pts_wf s"
  shows "pts_wf (applySkippedUpdates ch s)"
proof -
  define s1 where "s1 = setWaitingForSkipped ch (-1) s"
  define s2 where "s2 = s1\<lparr>pw_level := pw_level s1 + 1\<rparr>"
  have wf1: "pts_wf s1" using assms by (simp add: s1_def)
  obtain es where es: "fold apply_entry (pw_queue s2) s2 = s2\<lparr>pw_effects := es\<rparr>"
    using fold_apply_entry_frame by blast
  have "effects_real (pw_effects (fold apply_entry (pw_queue s2) s2))"
    using wf1 by (intro effects_real_fold) (simp_all add: s2_def pts_wf_def)
  with wf1 have "pts_wf (clearSkippedUpdates ((fold apply_entry (pw_queue s2) s2)
      \<lparr>pw_level := pw_level (fold apply_entry (pw_queue s2) s2) - 1\<rparr>))"
    unfolding es by (intro pts_wf_clear) (simp_all add: s2_def pts_wf_def)
  with assms wf1 show ?thesis
    by (simp add: applySkippedUpdates_def Let_def flip: s1_def s2_def)
qed

lemma pts_wf_init: "pts_wf s \<Longrightarrow> pts_wf (pts_init pts s)"
  by (simp add: pts_init_def pts_wf_def clearSkippedUpdates_def)

lemma pts_wf_check: "pts_wf s \<Longrightarrow> pts_wf (snd (pts_check ch pts cnt s))"
proof -
  assume wf: "pts_wf s"
  let ?s1 = "s\<lparr>pw_last := max (pw_last s) pts, pw_count := pw_count s + cnt\<rparr>"
  have "pts_wf ?s1" "pts_wf (?s1\<lparr>pw_good := pw_last ?s1\<rparr>)" using wf by (auto simp: pts_wf_def)
  with wf show ?thesis by (auto simp: pts_check_def Let_def pts_wf_init)
qed

lemma set_fm_emplace_subset: "set (fm_emplace k v m) \<subseteq> insert (k, v) (set m)"
  by (induction k v m rule: fm_emplace.induct) auto

lemma ptsKey_eq:
  "ptsKey q pts s = (key, s1) \<Longrightarrow>
   key = pts_key_of pts (pw_skippedKey s + 1) \<and>
   s1 = s\<lparr>pw_skippedKey := pw_skippedKey s + 1, pw_queue := fm_emplace key q (pw_queue s)\<rparr>"
  by (auto simp: ptsKey_def Let_def)

lemma pts_wf_store:
  assumes "pts_wf s"
  shows "ptsKey SkippedUpdate pts s = (key, s1) \<Longrightarrow>
      pts_wf (s1\<lparr>pw_updateQueue := fm_emplace key u (pw_updateQueue s1)\<rparr>)"
    and "ptsKey SkippedUpdates pts s = (key, s1) \<Longrightarrow>
      pts_wf (s1\<lparr>pw_updatesQueue := fm_emplace key us (pw_updatesQueue s1)\<rparr>)"
  using assms set_fm_emplace_subset[of key SkippedUpdate "pw_queue s"]
    set_fm_emplace_subset[of key SkippedUpdates "pw_queue s"]
  by (auto dest!: ptsKey_eq simp: pts_wf_def entry_backed_def sorted_fm_emplace fm_lookup_emplace
      split: option.splits if_splits; force)+

lemma pts_wf_updated:
  assumes "pts_wf s"
  shows "pts_wf (snd (updatedMany ch pts cnt us s))"
    and "pts_wf (snd (updatedOne ch pts cnt u s))"
    and "pts_wf (snd (updatedNone ch pts cnt s))"
  using assms pts_wf_check[OF assms, of ch pts cnt]
  by (auto simp: updatedMany_def updatedOne_def updatedNone_def pts_wf_store
      split: prod.splits bool.splits)

lemma pts_wf_emit_apply:
  "pts_wf (emit (ApplyUpdate (Some u)) s) \<longleftrightarrow> pts_wf s"
  "pts_wf (emit (ApplyUpdates (Some us)) s) \<longleftrightarrow> pts_wf s"
  by (simp_all add: emit_def pts_wf_def)

lemma pts_wf_updateAndApplyMany:
  assumes "pts_wf s"
  shows "pts_wf (snd (updateAndApplyMany ch pts cnt us s))"
proof -
  obtain b s1 where u: "updatedMany ch pts cnt us s = (b, s1)" by force
  obtain key s2 where k: "ptsKey SkippedUpdates pts s1 = (key, s2)" by force
  have "pts_wf s1" using pts_wf_updated(1)[OF assms, of ch pts cnt us] u by simp
  with pts_wf_store(2)[OF this k] show ?thesis
    by (cases b) (simp_all add: updateAndApplyMany_def u k pts_wf_emit_apply pts_wf_apply)
qed

lemma pts_wf_updateAndApplyOne:
  assumes "pts_wf s"
  shows "pts_wf (snd (updateAndApplyOne ch pts cnt u s))"
proof -
  obtain b s1 where u: "updatedOne ch pts cnt u s = (b, s1)" by force
  obtain key s2 where k: "ptsKey SkippedUpdate pts s1 = (key, s2)" by force
  have "pts_wf s1" using pts_wf_updated(2)[OF assms, of ch pts cnt u] u by simp
  with pts_wf_store(1)[OF this k] show ?thesis
    by (cases b) (simp_all add: updateAndApplyOne_def u k pts_wf_emit_apply pts_wf_apply)
qed

lemma pts_wf_updateAndApplyNone:
  "pts_wf s \<Longrightarrow> pts_wf (snd (updateAndApplyNone ch pts cnt s))"
  using pts_wf_updated(3)[of s ch pts cnt]
  by (auto simp: updateAndApplyNone_def pts_wf_apply split: prod.splits bool.splits)

lemmas pts_wf_updateAndApply = pts_wf_updateAndApplyMany pts_wf_updateAndApplyOne
  pts_wf_updateAndApplyNone

subsection \<open>Reachable states\<close>

text \<open>One rule per public operation; the caller chooses operations and arguments freely.\<close>

inductive pts_step :: "('u, 'us) pts_waiter \<Rightarrow> ('u, 'us) pts_waiter \<Rightarrow> bool" where
  step_init: "pts_step s (pts_init pts s)"
| step_requesting: "pts_step s (setRequesting b s)"
| step_skipped: "pts_step s (setWaitingForSkipped ch ms s)"
| step_short_poll: "pts_step s (setWaitingForShortPoll ch ms s)"
| step_apply_skipped: "pts_step s (applySkippedUpdates ch s)"
| step_clear: "pts_step s (clearSkippedUpdates s)"
| step_updated_many: "pts_step s (snd (updatedMany ch pts cnt us s))"
| step_updated_one: "pts_step s (snd (updatedOne ch pts cnt u s))"
| step_updated_none: "pts_step s (snd (updatedNone ch pts cnt s))"
| step_apply_many: "pts_step s (snd (updateAndApplyMany ch pts cnt us s))"
| step_apply_one: "pts_step s (snd (updateAndApplyOne ch pts cnt u s))"
| step_apply_none: "pts_step s (snd (updateAndApplyNone ch pts cnt s))"

inductive pts_reachable :: "('u, 'us) pts_waiter \<Rightarrow> bool" where
  reach_new: "pts_reachable new_pts_waiter"
| reach_step: "pts_reachable s \<Longrightarrow> pts_step s t \<Longrightarrow> pts_reachable t"

lemma pts_step_wf: "pts_step s t \<Longrightarrow> pts_wf s \<Longrightarrow> pts_wf t"
proof (induction rule: pts_step.induct)
  case (step_requesting s b)
  then show ?case by (simp add: setRequesting_def Let_def pts_wf_def clearSkippedUpdates_def)
next
  case (step_clear s)
  then show ?case by (simp add: pts_wf_def clearSkippedUpdates_def)
qed (simp_all add: pts_wf_init pts_wf_apply pts_wf_updated pts_wf_updateAndApply)

lemma pts_reachable_wf: "pts_reachable s \<Longrightarrow> pts_wf s"
  by (induction rule: pts_reachable.induct) (simp_all add: pts_step_wf)

subsection \<open>The queue is applied in the order of pts\<close>

text \<open>
  A segment is an update with its pts and pts count; \<open>seg_chain g xs\<close> says that the
  segments continue each other without a gap from \<open>g\<close> on.
\<close>

type_synonym 'u segment = "int \<times> int \<times> 'u"

fun seg_chain :: "int \<Rightarrow> 'u segment list \<Rightarrow> bool" where
  "seg_chain g [] \<longleftrightarrow> True"
| "seg_chain g ((p, c, u) # xs) \<longleftrightarrow> c > 0 \<and> p = g + c \<and> seg_chain p xs"

abbreviation seg_pts :: "'u segment \<Rightarrow> int" where "seg_pts x \<equiv> fst x"
abbreviation seg_cnt :: "'u segment \<Rightarrow> int" where "seg_cnt x \<equiv> fst (snd x)"
abbreviation seg_upd :: "'u segment \<Rightarrow> 'u" where "seg_upd x \<equiv> snd (snd x)"

definition deliver :: "channel \<Rightarrow> 'u segment list \<Rightarrow> ('u, 'us) pts_waiter \<Rightarrow> ('u, 'us) pts_waiter" where
  "deliver ch xs s = fold (\<lambda>(p, c, u) t. snd (updateAndApplyOne ch p c u t)) xs s"

fun applied_one :: "('u, 'us) pts_effect list \<Rightarrow> 'u list" where
  "applied_one [] = []"
| "applied_one (ApplyUpdate (Some u) # es) = u # applied_one es"
| "applied_one (e # es) = applied_one es"

lemma applied_one_append [simp]: "applied_one (es @ fs) = applied_one es @ applied_one fs"
  by (induction es rule: applied_one.induct) auto

lemma seg_chain_lb: "seg_chain g xs \<Longrightarrow> x \<in> set xs \<Longrightarrow> g + seg_cnt x \<le> seg_pts x \<and> seg_cnt x > 0"
  by (induction g xs rule: seg_chain.induct) force+

lemma seg_chain_sorted: "seg_chain g xs \<Longrightarrow> sorted_wrt (<) (map fst xs)"
proof (induction g xs rule: seg_chain.induct)
  case (2 g p c u xs)
  then have "p < seg_pts x" if "x \<in> set xs" for x
    using seg_chain_lb[of p xs x] that by auto
  with 2 show ?case by auto
qed simp

lemma seg_chain_append:
  "seg_chain g (xs @ ys) \<longleftrightarrow> seg_chain g xs \<and> seg_chain (if xs = [] then g else seg_pts (last xs)) ys"
  by (induction g xs rule: seg_chain.induct) auto

text \<open>
  A non-empty part \<open>ps\<close> of a chain reaches as far as its counts add up to exactly when it is
  a prefix of the chain.
\<close>

lemma subseq_ConsE:
  assumes "subseq ps (x # xs)"
  obtains (skip) "subseq ps xs" | (take) ys where "ps = x # ys" "subseq ys xs"
  using assms by (cases ps) (auto split: if_splits)

lemma part_sum_le:
  "seg_chain g xs \<Longrightarrow> subseq ps xs \<Longrightarrow> ps \<noteq> [] \<Longrightarrow> g + sum_list (map seg_cnt ps) \<le> seg_pts (last ps)"
proof (induction g xs arbitrary: ps rule: seg_chain.induct)
  case (2 g p c u xs)
  from 2(3) show ?case
  proof (cases rule: subseq_ConsE)
    case skip
    with 2 show ?thesis by force
  next
    case (take ys)
    with 2 show ?thesis by (cases "ys = []") force+
  qed
qed simp

lemma part_prefix_iff:
  "seg_chain g xs \<Longrightarrow> subseq ps xs \<Longrightarrow> ps \<noteq> [] \<Longrightarrow>
   seg_pts (last ps) = g + sum_list (map seg_cnt ps) \<longleftrightarrow> prefix ps xs"
proof (induction g xs arbitrary: ps rule: seg_chain.induct)
  case (2 g p c u xs)
  from 2(3) show ?case
  proof (cases rule: subseq_ConsE)
    case skip
    with 2 have c: "c > 0" "p = g + c" "seg_chain p xs" by auto
    have "p + sum_list (map seg_cnt ps) \<le> seg_pts (last ps)"
      using part_sum_le[OF c(3) skip 2(4)] .
    moreover have "\<not> prefix ps ((p, c, u) # xs)"
    proof
      assume "prefix ps ((p, c, u) # xs)"
      with 2(4) have "(p, c, u) \<in> set ps" by (cases ps) auto
      then have "(p, c, u) \<in> set xs" using skip by (blast dest: list_emb_set)
      then show False using seg_chain_lb[OF c(3)] by force
    qed
    ultimately show ?thesis using c by auto
  next
    case (take ys)
    from 2 have c: "p = g + c" "seg_chain p xs" by auto
    show ?thesis
    proof (cases "ys = []")
      case False
      have "seg_pts (last ys) = p + sum_list (map seg_cnt ys) \<longleftrightarrow> prefix ys xs"
        by (rule "2.IH"[OF c(2) take(2) False])
      then show ?thesis using take False c by (simp add: add.assoc)
    qed (use take c in simp)
  qed
qed simp

subsection \<open>Keys\<close>

lemma uint_pts_key_of:
  assumes "0 \<le> pts" "pts < 2 ^ 32"
  shows "uint (pts_key_of pts k) = pts * 2 ^ 32 + uint k"
proof -
  have p: "uint (word_of_int pts :: 32 word) = pts" using assms by (simp add: uint_word_of_int)
  have "uint (push_bit 32 (ucast (word_of_int pts :: 32 word) :: 64 word)) = pts * 2 ^ 32"
  proof -
    have "uint (ucast (word_of_int pts :: 32 word) :: 64 word) = pts"
      using assms by (simp add: unsigned_ucast_eq p take_bit_eq_mod)
    then have "uint (push_bit 32 (ucast (word_of_int pts :: 32 word) :: 64 word))
        = take_bit 64 (push_bit 32 pts)"
      by (simp only: unsigned_push_bit_eq) simp
    then show ?thesis using assms by (simp add: push_bit_eq_mult take_bit_eq_mod)
  qed
  moreover have "uint (ucast k :: 64 word) = uint k"
    by (simp add: unsigned_ucast_eq take_bit_int_eq_self order_less_trans[OF uint_bounded])
  moreover have "(pts * 2 ^ 32) OR uint k = pts * 2 ^ 32 + uint k"
  proof -
    have "uint k = take_bit 32 (uint k)"
      using uint_bounded[of k] by (simp add: take_bit_int_eq_self)
    then have "push_bit 32 pts AND uint k = push_bit 32 pts AND take_bit 32 (uint k)" by simp
    also have "\<dots> = 0" by (auto simp: bit_eq_iff bit_simps)
    finally show ?thesis using disjunctive_add_eq_or[of "push_bit 32 pts" "uint k"]
      by (simp add: push_bit_eq_mult)
  qed
  ultimately show ?thesis by (simp add: pts_key_of_def unsigned_or_eq)
qed

lemma pts_key_of_div: "0 \<le> pts \<Longrightarrow> pts < 2 ^ 32 \<Longrightarrow> uint (pts_key_of pts k) div 2 ^ 32 = pts"
  using uint_bounded[of k] by (simp add: uint_pts_key_of)

subsection \<open>Delivery in any order\<close>

lemma fm_emplace_map:
  "fm_emplace k (f x) (map (\<lambda>(l, y). (l, f y)) m) = map (\<lambda>(l, y). (l, f y)) (fm_emplace k x m)"
  by (induction k x m rule: fm_emplace.induct) auto

lemma fm_lookup_map:
  "fm_lookup (map (\<lambda>(l, y). (l, f y)) m) k = map_option f (fm_lookup m k)"
  unfolding fm_lookup_def by (induction m) auto

lemma fm_lookup_mem: "fm_sorted m \<Longrightarrow> (k, x) \<in> set m \<Longrightarrow> fm_lookup m k = Some x"
  unfolding fm_lookup_def by (auto dest: sorted_distinct_ids intro: map_of_is_SomeI)

lemma sorted_last_Max: "sorted xs \<Longrightarrow> xs \<noteq> [] \<Longrightarrow> last xs = Max (set (xs :: int list))"
  by (induction xs) (auto simp: Max_insert2 max_def Max_ge_iff dest: last_in_set)

lemma subseq_of_sorted:
  fixes f :: "'a \<Rightarrow> int"
  shows "sorted_wrt (<) (map f xs) \<Longrightarrow> sorted_wrt (<) (map f ys) \<Longrightarrow> set ys \<subseteq> set xs \<Longrightarrow> subseq ys xs"
proof (induction xs arbitrary: ys)
  case (Cons x xs)
  show ?case
  proof (cases ys)
    case (Cons y ys')
    show ?thesis
    proof (cases "y = x")
      case True
      have "x \<notin> set ys'" using Cons.prems(2) Cons True by auto
      with Cons.prems Cons True have "set ys' \<subseteq> set xs" by auto
      with Cons.IH[of ys'] Cons.prems Cons True show ?thesis by simp
    next
      case False
      have "x \<notin> set ys" using Cons.prems Cons False by fastforce
      with Cons.prems have "set ys \<subseteq> set xs" by auto
      with Cons.IH[of ys] Cons.prems have "subseq ys xs" by simp
      then show ?thesis by (rule list_emb_Cons)
    qed
  qed simp
qed simp

lemma subseq_subset: "subseq ys xs \<Longrightarrow> set ys \<subseteq> set xs"
  by (induction rule: list_emb.induct) auto

lemma subseq_sorted_wrt: "subseq ys xs \<Longrightarrow> sorted_wrt P xs \<Longrightarrow> sorted_wrt P ys"
  by (induction rule: list_emb.induct) (auto dest: subseq_subset)

abbreviation as_queue :: "(64 word \<times> 'u segment) list \<Rightarrow> (64 word, pts_queue) flat_map" where
  "as_queue pend \<equiv> map (\<lambda>(k, x). (k, SkippedUpdate)) pend"

abbreviation as_updates :: "(64 word \<times> 'u segment) list \<Rightarrow> (64 word, 'u) flat_map" where
  "as_updates pend \<equiv> map (\<lambda>(k, x). (k, seg_upd x)) pend"

text \<open>
  \<open>seg_state g rest pend s\<close>: everything up to \<open>g\<close> is applied, \<open>rest\<close> continues from there,
  and the part \<open>pend\<close> of it has arrived and waits in the queue.
\<close>

definition pend_ok :: "'u segment list \<Rightarrow> (64 word \<times> 'u segment) list \<Rightarrow> bool" where
  "pend_ok rest pend \<longleftrightarrow> subseq (map snd pend) rest \<and> fm_sorted pend
     \<and> (\<forall>e \<in> set pend. uint (fst e) div 2 ^ 32 = seg_pts (snd e))"

definition seg_state :: "int \<Rightarrow> 'u segment list \<Rightarrow> (64 word \<times> 'u segment) list
    \<Rightarrow> ('u, 'us) pts_waiter \<Rightarrow> bool" where
  "seg_state g rest pend s \<longleftrightarrow> 0 < g \<and> seg_chain g rest \<and> (\<forall>x \<in> set rest. seg_pts x < 2 ^ 31)
     \<and> pend_ok rest pend \<and> pw_queue s = as_queue pend \<and> pw_updateQueue s = as_updates pend
     \<and> pw_good s = g \<and> pw_count s = g + sum_list (map (seg_cnt \<circ> snd) pend)
     \<and> pw_last s = (if pend = [] then g else seg_pts (snd (last pend)))
     \<and> pw_level s = 0 \<and> \<not> pw_requesting s \<and> (pw_waitingForSkipped s \<longleftrightarrow> pend \<noteq> [])
     \<and> (pend \<noteq> [] \<longrightarrow> \<not> prefix (map snd pend) rest)"

lemma pend_ok_insert:
  assumes ok: "pend_ok rest pend" and ch: "seg_chain g rest" "0 < g"
    and x: "x \<in> set rest" "x \<notin> snd ` set pend" "seg_pts x < 2 ^ 31"
    and key: "key = pts_key_of (seg_pts x) k"
  shows "pend_ok rest (fm_emplace key x pend)"
    and "mset (fm_emplace key x pend) = add_mset (key, x) (mset pend)"
    and "seg_pts (snd (last (fm_emplace key x pend)))
      = max (if pend = [] then g else seg_pts (snd (last pend))) (seg_pts x)"
proof -
  let ?pe = "fm_emplace key x pend" and ?f = "\<lambda>e. seg_pts (snd e)"
  have xpos: "g < seg_pts x" using seg_chain_lb[OF ch(1) x(1)] by auto
  have div: "uint key div 2 ^ 32 = seg_pts x"
    using xpos x(3) ch(2) by (simp only: key) (rule pts_key_of_div; simp)
  have srest: "sorted_wrt (<) (map seg_pts rest)" by (rule seg_chain_sorted[OF ch(1)])
  then have "inj_on seg_pts (set rest)" using sorted_distinct_ids distinct_map by blast
  then have inj: "y = x" if "y \<in> set rest" "seg_pts y = seg_pts x" for y
    using that(2,1) x(1) by (rule inj_onD)
  have subs: "subseq (map snd pend) rest" and pdiv: "\<And>e. e \<in> set pend \<Longrightarrow> uint (fst e) div 2 ^ 32 = ?f e"
    and psrt: "fm_sorted pend"
    using ok by (auto simp: pend_ok_def)
  have sub: "snd ` set pend \<subseteq> set rest" using subseq_subset[OF subs] by simp
  have spend: "sorted_wrt (<) (map ?f pend)"
    using subseq_sorted_wrt[OF subs, of "\<lambda>a b. seg_pts a < seg_pts b"] srest
    by (simp add: sorted_wrt_map)
  have kn: "key \<notin> fst ` set pend"
  proof
    assume "key \<in> fst ` set pend"
    then obtain y where y: "(key, y) \<in> set pend" by auto
    with pdiv[of "(key, y)"] div have "seg_pts y = seg_pts x" by simp
    moreover have "y \<in> set rest" using sub y by force
    ultimately have "y = x" by (intro inj)
    with y x(2) show False by force
  qed
  show m: "mset ?pe = add_mset (key, x) (mset pend)" by (rule mset_fm_emplace[OF kn])
  then have set_pe: "set ?pe = insert (key, x) (set pend)"
    by (simp flip: set_mset_mset)
  have srt: "fm_sorted ?pe" by (rule sorted_fm_emplace[OF psrt])
  have divs: "uint (fst e) div 2 ^ 32 = ?f e" if "e \<in> set ?pe" for e
    by (cases "e = (key, x)") (use that pdiv[of e] div set_pe in simp_all)
  have "sorted (map ?f ?pe)"
  proof -
    have "sorted_wrt (\<lambda>e d. uint (fst e) div 2 ^ 32 \<le> uint (fst d) div 2 ^ 32) ?pe"
      using srt unfolding sorted_wrt_map
      by (rule sorted_wrt_mono_rel[rotated])
        (auto simp: word_less_def intro!: zdiv_mono1)
    then have "sorted_wrt (\<lambda>e d. ?f e \<le> ?f d) ?pe"
      by (rule sorted_wrt_mono_rel[rotated]) (simp only: divs)
    then show ?thesis by (simp add: sorted_wrt_map)
  qed
  moreover have "distinct (map ?f ?pe)"
  proof -
    have "seg_pts x \<notin> ?f ` set pend" using inj sub x(2) by force
    then have "distinct (seg_pts x # map ?f pend)"
      using sorted_distinct_ids[OF spend] by simp
    moreover have "mset (map ?f ?pe) = mset (seg_pts x # map ?f pend)"
      by (simp add: m)
    ultimately show ?thesis using mset_eq_imp_distinct_iff by blast
  qed
  ultimately have ss: "sorted_wrt (<) (map ?f ?pe)" by (simp add: strict_sorted_iff)
  have "subseq (map snd ?pe) rest"
    by (rule subseq_of_sorted[of seg_pts])
      (use srest ss sub x(1) in \<open>auto simp: comp_def set_pe\<close>)
  with srt divs show "pend_ok rest ?pe" by (simp add: pend_ok_def)
  have ne: "?pe \<noteq> []" using set_pe by auto
  have "?f (last ?pe) = Max (?f ` set ?pe)"
    using sorted_last_Max[of "map ?f ?pe"] ss ne by (simp add: last_map strict_sorted_iff)
  also have "\<dots> = Max (insert (seg_pts x) (?f ` set pend))" by (simp add: set_pe)
  also have "\<dots> = max (if pend = [] then g else ?f (last pend)) (seg_pts x)"
  proof (cases "pend = []")
    case False
    then have "?f (last pend) = Max (?f ` set pend)"
      using sorted_last_Max[of "map ?f pend"] spend by (simp add: last_map strict_sorted_iff)
    with False show ?thesis by (simp add: max.commute)
  qed (use xpos in simp)
  finally show "?f (last ?pe) = max (if pend = [] then g else ?f (last pend)) (seg_pts x)" .
qed

lemma fold_apply_updates:
  "(\<And>k x. (k, x) \<in> set pend \<Longrightarrow> fm_lookup (pw_updateQueue s) k = Some (seg_upd x)) \<Longrightarrow>
   fold apply_entry (as_queue pend) s =
     s\<lparr>pw_effects := pw_effects s @ map (\<lambda>(k, x). ApplyUpdate (Some (seg_upd x))) pend\<rparr>"
proof (induction pend arbitrary: s)
  case (Cons e pend)
  obtain k x where e: "e = (k, x)" by (cases e)
  let ?s1 = "emit (ApplyUpdate (Some (seg_upd x))) s"
  have "fm_lookup (pw_updateQueue s) k = Some (seg_upd x)" using Cons.prems[of k x] by (simp add: e)
  then have "fold apply_entry (as_queue (e # pend)) s = fold apply_entry (as_queue pend) ?s1"
    by (simp add: e)
  also have "\<dots> = ?s1\<lparr>pw_effects := pw_effects ?s1 @
      map (\<lambda>(k, x). ApplyUpdate (Some (seg_upd x))) pend\<rparr>"
    by (rule Cons.IH) (use Cons.prems in \<open>auto simp: e emit_def\<close>)
  finally show ?case by (simp add: e emit_def)
qed simp

lemma applied_one_updates [simp]:
  "applied_one (map (\<lambda>(k, x). ApplyUpdate (Some (seg_upd x))) pend) = map (seg_upd \<circ> snd) pend"
  by (induction pend) auto

lemma applySkipped_seg_state:
  assumes "pw_queue s = as_queue pe" "pw_updateQueue s = as_updates pe" "fm_sorted pe" "pe \<noteq> []"
    "pw_waitingForSkipped s"
  shows "\<exists>es. applySkippedUpdates ch s = clearSkippedUpdates
      (s\<lparr>pw_waitingForSkipped := False, pw_effects := es\<rparr>)
    \<and> applied_one es = applied_one (pw_effects s) @ map (seg_upd \<circ> snd) pe"
proof -
  define s2 where "s2 = (setWaitingForSkipped ch (-1) s)\<lparr>pw_level := pw_level s + 1\<rparr>"
  define e0 where "e0 = pw_effects s @ (if pw_waitingForShortPoll s then [] else [StartTimer ch (-1)])"
  have s2: "s2 = s\<lparr>pw_waitingForSkipped := False, pw_level := pw_level s + 1, pw_effects := e0\<rparr>"
    by (cases s) (simp add: s2_def e0_def setWaitingForSkipped_def checkForWaiting_def emit_def)
  have e0: "applied_one e0 = applied_one (pw_effects s)" by (simp add: e0_def)
  have "fold apply_entry (as_queue pe) s2 =
      s2\<lparr>pw_effects := pw_effects s2 @ map (\<lambda>(k, x). ApplyUpdate (Some (seg_upd x))) pe\<rparr>"
    by (rule fold_apply_updates) (simp add: s2 assms fm_lookup_map fm_lookup_mem)
  moreover have "pw_queue (setWaitingForSkipped ch (-1) s) = as_queue pe"
    "pw_level (setWaitingForSkipped ch (-1) s) = pw_level s"
    using assms by (simp_all add: setWaitingForSkipped_def checkForWaiting_def emit_def)
  ultimately have "applySkippedUpdates ch s = clearSkippedUpdates (s\<lparr>pw_waitingForSkipped := False,
      pw_effects := e0 @ map (\<lambda>(k, x). ApplyUpdate (Some (seg_upd x))) pe\<rparr>)"
    using assms
    by (simp add: applySkippedUpdates_def Let_def s2_def[symmetric])
      (simp add: s2 clearSkippedUpdates_def assms)
  then show ?thesis using e0 by auto
qed

lemma sum_fm_emplace:
  fixes f :: "'k::linorder \<times> 'v \<Rightarrow> int"
  assumes "mset (fm_emplace k x pend) = add_mset (k, x) (mset pend)"
  shows "sum_list (map f (fm_emplace k x pend)) = f (k, x) + sum_list (map f pend)"
proof -
  have "mset (map f (fm_emplace k x pend)) = mset (map f ((k, x) # pend))" by (simp add: assms)
  then have "sum_mset (mset (map f (fm_emplace k x pend))) = sum_mset (mset (map f ((k, x) # pend)))"
    by (rule arg_cong)
  then show ?thesis by (simp only: sum_mset_sum_list) simp
qed

lemma deliver_step:
  assumes st: "seg_state g rest pend s"
    and x: "(p, c, u) \<in> set rest" "(p, c, u) \<notin> snd ` set pend"
  shows "\<exists>dn rest' pend'. rest = dn @ rest'
      \<and> seg_state (if dn = [] then g else seg_pts (last dn)) rest' pend'
          (snd (updateAndApplyOne ch p c u s))
      \<and> applied_one (pw_effects (snd (updateAndApplyOne ch p c u s)))
          = applied_one (pw_effects s) @ map seg_upd dn
      \<and> set dn \<union> snd ` set pend' = insert (p, c, u) (snd ` set pend)"
proof -
  let ?x = "(p, c, u)" let ?n = "pw_skippedKey s + 1" let ?key = "pts_key_of p ?n"
  let ?pe = "fm_emplace ?key ?x pend"
  note d = st[unfolded seg_state_def]
  have ch': "seg_chain g rest" "0 < g" and ok: "pend_ok rest pend" using d by auto
  have p: "g + c \<le> p" "c > 0" using seg_chain_lb[OF ch'(1) x(1)] by auto
  have pb: "seg_pts ?x < 2 ^ 31" using d x(1) by blast
  note pe = pend_ok_insert[OF ok ch' x pb, of ?key ?n, simplified fst_conv, OF refl]
  have set_pe: "snd ` set ?pe = insert ?x (snd ` set pend)"
    using pe(2) by (metis image_insert set_mset_add_mset_insert set_mset_mset snd_conv)
  have last: "max (pw_last s) p = seg_pts (snd (last ?pe))" using d pe(3) by simp
  have cnt: "pw_count s + c = g + sum_list (map (seg_cnt \<circ> snd) ?pe)"
    using d sum_fm_emplace[OF pe(2), of "seg_cnt \<circ> snd"] by simp
  have ne: "?pe \<noteq> []" using set_pe by auto
  have sub: "subseq (map snd ?pe) rest" using pe(1) by (simp add: pend_ok_def)
  have le: "pw_count s + c \<le> max (pw_last s) p"
    using part_sum_le[OF ch'(1) sub] ne by (simp add: last cnt last_map)
  have eq: "max (pw_last s) p = pw_count s + c \<longleftrightarrow> prefix (map snd ?pe) rest"
    using part_prefix_iff[OF ch'(1) sub] ne by (simp add: last cnt last_map)
  have init: "pts_inited s" "\<not> p \<le> pw_good s" "\<not> (pw_requesting s \<or> pw_level s \<noteq> 0)"
    using d p by (auto simp: pts_inited_def)
  show ?thesis
  proof (cases "prefix (map snd ?pe) rest")
    case False
    define s1 where "s1 = setWaitingForSkipped ch kWaitForSkippedTimeout
        (s\<lparr>pw_last := max (pw_last s) p, pw_count := pw_count s + c\<rparr>)"
    have chk: "pts_check ch p c s = (False, s1)"
      using False eq le init p
      by (simp add: pts_check_def s1_def Let_def not_less[symmetric] del: max_less_iff_conj)
    have "snd (updateAndApplyOne ch p c u s) = s1\<lparr>pw_skippedKey := ?n,
        pw_queue := as_queue ?pe, pw_updateQueue := as_updates ?pe\<rparr>"
      using init d fm_emplace_map[of ?key seg_upd ?x pend] fm_emplace_map[of ?key "\<lambda>_. SkippedUpdate" ?x pend]
      by (simp add: updateAndApplyOne_def updatedOne_def chk ptsKey_def Let_def s1_def
          setWaitingForSkipped_def kWaitForSkippedTimeout_def emit_def)
    moreover have "seg_state g rest ?pe (s1\<lparr>pw_skippedKey := ?n,
        pw_queue := as_queue ?pe, pw_updateQueue := as_updates ?pe\<rparr>)"
      using d pe(1) ne last cnt False
      by (simp add: seg_state_def s1_def setWaitingForSkipped_def kWaitForSkippedTimeout_def emit_def)
    moreover have "applied_one (pw_effects s1) = applied_one (pw_effects s)"
      by (simp add: s1_def setWaitingForSkipped_def kWaitForSkippedTimeout_def emit_def)
    ultimately show ?thesis using set_pe by (intro exI[of _ "[]"] exI[of _ rest] exI[of _ ?pe]) simp
  next
    case True
    then obtain rest' where rest: "rest = map snd ?pe @ rest'" by (auto simp: prefix_def)
    let ?t = "snd (updateAndApplyOne ch p c u s)"
    define s1 where "s1 = s\<lparr>pw_last := max (pw_last s) p, pw_count := pw_count s + c,
        pw_good := max (pw_last s) p\<rparr>"
    have chk: "updatedOne ch p c u s = (True, s1)"
      using True eq init by (simp add: updatedOne_def pts_check_def s1_def Let_def)
    have good: "seg_pts (last (map snd ?pe)) = max (pw_last s) p" using last ne by (simp add: last_map)
    have g': "0 < max (pw_last s) p" using p d by (simp add: less_max_iff_disj)
    have chain: "seg_chain (max (pw_last s) p) rest'"
      using ch'(1) ne good by (simp add: rest seg_chain_append split: if_splits)
    have small: "\<forall>x \<in> set rest'. seg_pts x < 2 ^ 31" using d by (simp add: rest)
    have "seg_state (max (pw_last s) p) rest' [] ?t
        \<and> applied_one (pw_effects ?t) = applied_one (pw_effects s) @ map (seg_upd \<circ> snd) ?pe"
    proof (cases "pend = []")
      case [simp]: True
      show ?thesis
        using d eq True[unfolded \<open>pend = []\<close>] \<open>prefix (map snd ?pe) rest\<close> chain small g'
        by (simp add: updateAndApplyOne_def chk seg_state_def s1_def emit_def pend_ok_def)
    next
      case False
      define s2 where "s2 = s1\<lparr>pw_skippedKey := ?n, pw_queue := as_queue ?pe, pw_updateQueue := as_updates ?pe\<rparr>"
      have t: "?t = applySkippedUpdates ch s2"
        using d False fm_emplace_map[of ?key seg_upd ?x pend] fm_emplace_map[of ?key "\<lambda>_. SkippedUpdate" ?x pend]
        by (simp add: updateAndApplyOne_def chk s1_def s2_def ptsKey_def Let_def)
      obtain es where es: "?t = clearSkippedUpdates (s2\<lparr>pw_waitingForSkipped := False, pw_effects := es\<rparr>)"
        "applied_one es = applied_one (pw_effects s2) @ map (seg_upd \<circ> snd) ?pe"
        using applySkipped_seg_state[of s2 ?pe ch] d False ne pe(1)
        by (auto simp: t s2_def s1_def pend_ok_def)
      then show ?thesis
        using d eq \<open>prefix (map snd ?pe) rest\<close> chain small g'
        by (simp add: seg_state_def s2_def s1_def clearSkippedUpdates_def pend_ok_def)
    qed
    then show ?thesis
      using ne set_pe good rest
      by (intro exI[of _ "map snd ?pe"] exI[of _ rest'] exI[of _ "[]"]) (simp add: image_image)
  qed
qed

lemma rest_after_step:
  "R' = R - D \<Longrightarrow> insert x Y = R - P \<Longrightarrow> x \<notin> Y \<Longrightarrow> D \<union> P' = insert x P \<Longrightarrow> Y = R' - P'"
  by auto

lemma deliver_all:
  "seg_state g rest pend s \<Longrightarrow> distinct ys \<Longrightarrow> set ys = set rest - snd ` set pend \<Longrightarrow>
   \<exists>t. deliver ch ys s = t \<and> seg_state (if rest = [] then g else seg_pts (last rest)) [] [] t
     \<and> applied_one (pw_effects t) = applied_one (pw_effects s) @ map seg_upd rest"
proof (induction ys arbitrary: g rest pend s)
  case Nil
  note d = Nil.prems(1)[unfolded seg_state_def]
  have sub: "subseq (map snd pend) rest" using d by (simp add: pend_ok_def)
  have "sorted_wrt (<) (map fst rest)" using d seg_chain_sorted by blast
  then have "subseq rest (map snd pend)"
    using Nil.prems(3) subseq_sorted_wrt[OF sub, of "\<lambda>a b. seg_pts a < seg_pts b"]
    by (intro subseq_of_sorted[of fst]) (auto simp: sorted_wrt_map)
  with sub have "map snd pend = rest" by (rule subseq_order.antisym)
  with d have "pend = []" "rest = []" by auto
  with Nil show ?case by (simp add: deliver_def)
next
  case (Cons x ys)
  obtain p c u where x: "x = (p, c, u)" by (cases x)
  let ?s1 = "snd (updateAndApplyOne ch p c u s)"
  have mem: "(p, c, u) \<in> set rest" "(p, c, u) \<notin> snd ` set pend" using Cons.prems(3) by (auto simp: x)
  from deliver_step[OF Cons.prems(1) mem, of ch] obtain dn rest' pend' where step: "rest = dn @ rest'"
    "seg_state (if dn = [] then g else seg_pts (last dn)) rest' pend' ?s1"
    "applied_one (pw_effects ?s1) = applied_one (pw_effects s) @ map seg_upd dn"
    "set dn \<union> snd ` set pend' = insert x (snd ` set pend)"
    unfolding x by (elim exE conjE)
  have "sorted_wrt (<) (map fst rest)"
    using Cons.prems(1) seg_chain_sorted unfolding seg_state_def by blast
  then have "distinct (map fst rest)" by (rule sorted_distinct_ids)
  then have "distinct rest" by (simp add: distinct_map)
  then have "set dn \<inter> set rest' = {}" by (simp add: step(1))
  then have r1: "set rest' = set rest - set dn" by (auto simp: step(1))
  have r2: "insert x (set ys) = set rest - snd ` set pend" "x \<notin> set ys"
    using Cons.prems(2,3) by simp_all
  have "set ys = set rest' - snd ` set pend'" by (rule rest_after_step[OF r1 r2 step(4)])
  with Cons.IH[OF step(2)] Cons.prems(2) obtain t where t: "deliver ch ys ?s1 = t"
    "seg_state (if rest' = [] then (if dn = [] then g else seg_pts (last dn)) else seg_pts (last rest')) [] [] t"
    "applied_one (pw_effects t) = applied_one (pw_effects ?s1) @ map seg_upd rest'"
    by auto
  have "deliver ch (x # ys) s = t" using t(1) by (simp add: deliver_def x)
  then show ?case using t(2,3) step(1,3) by (auto split: if_splits)
qed

definition pts_idle :: "int \<Rightarrow> ('u, 'us) pts_waiter \<Rightarrow> bool" where
  "pts_idle g s \<longleftrightarrow> 0 < g \<and> pw_good s = g \<and> pw_last s = g \<and> pw_count s = g
     \<and> pw_queue s = [] \<and> pw_updateQueue s = [] \<and> pw_level s = 0
     \<and> \<not> pw_requesting s \<and> \<not> pw_waitingForSkipped s"

lemma pts_idle_seg_state:
  "pts_idle g s \<Longrightarrow> seg_chain g xs \<Longrightarrow> \<forall>x \<in> set xs. seg_pts x < 2 ^ 31 \<Longrightarrow> seg_state g xs [] s"
  by (simp add: pts_idle_def seg_state_def pend_ok_def)

subsection \<open>Progress of the counter, and calls from inside an applied update\<close>

lemma pts_good_apply: "pw_good (applySkippedUpdates ch s) = pw_good s"
proof -
  define s1 where "s1 = setWaitingForSkipped ch (-1) s"
  define s2 where "s2 = s1\<lparr>pw_level := pw_level s1 + 1\<rparr>"
  obtain es where "fold apply_entry (pw_queue s2) s2 = s2\<lparr>pw_effects := es\<rparr>"
    using fold_apply_entry_frame by blast
  moreover have "pw_good s1 = pw_good s"
    by (simp add: s1_def setWaitingForSkipped_def checkForWaiting_def emit_def)
  ultimately show ?thesis
    by (simp add: applySkippedUpdates_def Let_def clearSkippedUpdates_def flip: s1_def s2_def)
      (simp add: s2_def)
qed

lemma pts_good_check:
  "pts_inited s \<Longrightarrow> pw_good s \<le> pw_last s \<Longrightarrow> pw_good s \<le> pw_good (snd (pts_check ch pts cnt s))"
  by (auto simp: pts_check_def Let_def setWaitingForSkipped_def checkForWaiting_def emit_def
      kWaitForSkippedTimeout_def)

lemma pts_good_updated:
  assumes "pts_inited s" "pw_good s \<le> pw_last s"
  shows "pw_good s \<le> pw_good (snd (updatedMany ch pts cnt us s))"
    and "pw_good s \<le> pw_good (snd (updatedOne ch pts cnt u s))"
    and "pw_good s \<le> pw_good (snd (updatedNone ch pts cnt s))"
  using pts_good_check[OF assms, of ch pts cnt]
  by (auto simp: updatedMany_def updatedOne_def updatedNone_def ptsKey_def Let_def
      split: prod.splits bool.splits)

lemma pts_good_updateAndApply:
  assumes "pts_inited s" "pw_good s \<le> pw_last s"
  shows "pw_good s \<le> pw_good (snd (updateAndApplyMany ch pts cnt us s))"
    and "pw_good s \<le> pw_good (snd (updateAndApplyOne ch pts cnt u s))"
    and "pw_good s \<le> pw_good (snd (updateAndApplyNone ch pts cnt s))"
  using pts_good_updated(1)[OF assms, of ch pts cnt us] pts_good_updated(2)[OF assms, of ch pts cnt u]
    pts_good_updated(3)[OF assms, of ch pts cnt]
  by (auto simp: updateAndApplyMany_def updateAndApplyOne_def updateAndApplyNone_def
      pts_good_apply ptsKey_def Let_def emit_def split: prod.splits bool.splits)

subsection \<open>Properties\<close>

text \<open>
  C6: updates that continue each other without a gap from the current pts on may arrive in
  any order. However they arrive, the waiter hands each of them over exactly once and in the
  order of their pts, ends with the pts of the last one, with an empty queue and not waiting.
\<close>

theorem pts_delivery_any_order:
  assumes "pts_idle g s" "seg_chain g xs" "\<forall>x \<in> set xs. fst x < 2 ^ 31" "mset ys = mset xs"
  shows "applied_one (pw_effects (deliver ch ys s)) = applied_one (pw_effects s) @ map (snd \<circ> snd) xs
    \<and> pw_good (deliver ch ys s) = (if xs = [] then g else fst (last xs))
    \<and> pw_queue (deliver ch ys s) = [] \<and> \<not> pw_waitingForSkipped (deliver ch ys s)"
proof -
  have "distinct (map fst xs)" by (rule sorted_distinct_ids[OF seg_chain_sorted[OF assms(2)]])
  then have "distinct ys" using assms(4) by (metis distinct_map mset_eq_imp_distinct_iff)
  moreover have "set ys = set xs - snd ` set []" using mset_eq_setD[OF assms(4)] by simp
  ultimately show ?thesis
    using deliver_all[OF pts_idle_seg_state[OF assms(1-3)], of ys ch]
    by (auto simp: seg_state_def comp_def)
qed

theorem pts_delivery_any_order_witness:
  "applied_one (pw_effects (deliver None [(17, 2, ''c''), (12, 2, ''a''), (15, 3, ''b'')]
     (pts_init 10 (new_pts_waiter :: (string, unit) pts_waiter)))) = [''a'', ''b'', ''c'']"
proof -
  let ?xs = "[(12, 2, ''a''), (15, 3, ''b''), (17, 2, ''c'')] :: string segment list"
  let ?s = "pts_init 10 (new_pts_waiter :: (string, unit) pts_waiter)"
  have idle: "pts_idle 10 ?s"
    by (simp add: pts_idle_def pts_init_def clearSkippedUpdates_def new_pts_waiter_def)
  have "applied_one (pw_effects ?s) = []"
    by (simp add: pts_init_def clearSkippedUpdates_def new_pts_waiter_def)
  with pts_delivery_any_order[OF idle, of ?xs "[(17, 2, ''c''), (12, 2, ''a''), (15, 3, ''b'')]" None]
  show ?thesis by simp
qed

text \<open>
  in every state any sequence of calls can reach, the three maps are sorted, each queue
  entry has the update it announces, no default-constructed update was ever handed over, and
  the nesting level is back at zero.
\<close>

theorem pts_reachable_invariant:
  assumes "pts_reachable s"
  shows "pts_wf s"
  using assms by (rule pts_reachable_wf)

theorem pts_reachable_invariant_witness:
  "pts_wf (snd (updatedOne None 30 2 ''u'' (pts_init 10 (new_pts_waiter :: (string, unit) pts_waiter))))"
  by (rule pts_reachable_invariant, rule reach_step[OF reach_step[OF reach_new step_init] step_updated_one])

text \<open>
  while skipped updates are being applied, a call that comes from inside an applied update
  is accepted at once: the state of the waiter does not change and the update is handed over
  directly, so the loop over the queue is not disturbed.
\<close>

theorem pts_reentrant_calls:
  assumes "pw_level s \<noteq> 0" "\<not> pw_waitingForSkipped s"
  shows "updatedMany ch pts cnt us s = (True, s) \<and> updatedOne ch pts cnt u s = (True, s)
    \<and> updatedNone ch pts cnt s = (True, s)
    \<and> updateAndApplyMany ch pts cnt us s = (True, emit (ApplyUpdates (Some us)) s)
    \<and> updateAndApplyOne ch pts cnt u s = (True, emit (ApplyUpdate (Some u)) s)
    \<and> updateAndApplyNone ch pts cnt s = (True, s) \<and> applySkippedUpdates ch s = s"
  using assms by (simp add: updatedMany_def updatedOne_def updatedNone_def updateAndApplyMany_def
      updateAndApplyOne_def updateAndApplyNone_def applySkippedUpdates_def)

theorem pts_reentrant_calls_witness:
  "updatedOne None 3 1 ''u'' ((new_pts_waiter :: (string, unit) pts_waiter)\<lparr>pw_level := 1\<rparr>)
     = (True, new_pts_waiter\<lparr>pw_level := 1\<rparr>)"
  using pts_reentrant_calls[of "(new_pts_waiter :: (string, unit) pts_waiter)\<lparr>pw_level := 1\<rparr>"]
  by (simp add: new_pts_waiter_def)

text \<open>
  once initialised, the accepted pts never moves backwards, whatever pts and counts the
  server sends.
\<close>

theorem pts_good_monotone:
  assumes "pts_reachable s" "pts_inited s"
  shows "pw_good s \<le> pw_good (snd (updateAndApplyMany ch pts cnt us s))
    \<and> pw_good s \<le> pw_good (snd (updateAndApplyOne ch pts cnt u s))
    \<and> pw_good s \<le> pw_good (snd (updateAndApplyNone ch pts cnt s))"
proof -
  have "pw_good s \<le> pw_last s" using pts_reachable_wf[OF assms(1)] by (simp add: pts_wf_def)
  with assms(2) show ?thesis by (simp add: pts_good_updateAndApply)
qed

theorem pts_good_monotone_witness:
  "10 \<le> pw_good (snd (updateAndApplyOne None 5 (-3) ''u''
     (pts_init 10 (new_pts_waiter :: (string, unit) pts_waiter))))"
proof -
  let ?s = "pts_init 10 (new_pts_waiter :: (string, unit) pts_waiter)"
  have "pts_reachable ?s" by (rule reach_step[OF reach_new step_init])
  moreover have "pts_inited ?s" "pw_good ?s = 10"
    by (simp_all add: pts_inited_def pts_init_def clearSkippedUpdates_def)
  ultimately show ?thesis using pts_good_monotone[of ?s] by metis
qed

end
