(* ===== verification/PeerIds.thy ===== *)
theory PeerIds
  imports Prelude
begin

text \<open>
  The ids of peers and of messages, from \<open>data/data_peer_id.{h,cpp}\<close> and
  \<open>data/data_msg_id.h\<close>. A peer id is one unsigned 64-bit integer: the bare id of a user, of a
  chat or of a channel in the low 48 bits and the type above them; it is a \<open>64 word\<close> here.
  A \<open>ChatIdType<Shift>\<close> is its bare id, and \<open>Shift\<close> an argument. A message id is a signed
  64-bit integer divided into ranges for server, client and story messages; the code only
  adds and compares ids far from the ends of \<open>int64\<close>, so it is an \<open>int\<close>.
\<close>

type_synonym bare_id = "64 word"
type_synonym peer_id = "64 word"

subsection \<open>Peer ids\<close>

definition kReservedBit :: bare_id where
  "kReservedBit = 0x80"

definition kUserShift :: bare_id where
  "kUserShift = 0"

definition kChatShift :: bare_id where
  "kChatShift = 1"

definition kChannelShift :: bare_id where
  "kChannelShift = 2"

definition kFakeChatShift :: bare_id where
  "kFakeChatShift = 0x7F"

definition kChatTypeMask :: bare_id where
  "kChatTypeMask = 0xFFFFFFFFFFFF"

definition peer_from :: "bare_id \<Rightarrow> bare_id \<Rightarrow> peer_id" where
  "peer_from shift bare = bare OR push_bit 48 shift"

definition peer_is :: "bare_id \<Rightarrow> peer_id \<Rightarrow> bool" where
  "peer_is shift v \<longleftrightarrow> drop_bit 48 v AND 0xFF = shift"

definition peer_to :: "bare_id \<Rightarrow> peer_id \<Rightarrow> bare_id" where
  "peer_to shift v = (if peer_is shift v then v AND kChatTypeMask else 0)"

definition peerIsUser :: "peer_id \<Rightarrow> bool" where
  "peerIsUser = peer_is kUserShift"

definition peerIsChat :: "peer_id \<Rightarrow> bool" where
  "peerIsChat = peer_is kChatShift"

definition peerIsChannel :: "peer_id \<Rightarrow> bool" where
  "peerIsChannel = peer_is kChannelShift"

definition peerFromUser :: "bare_id \<Rightarrow> peer_id" where
  "peerFromUser = peer_from kUserShift"

definition peerFromChat :: "bare_id \<Rightarrow> peer_id" where
  "peerFromChat = peer_from kChatShift"

definition peerFromChannel :: "bare_id \<Rightarrow> peer_id" where
  "peerFromChannel = peer_from kChannelShift"

definition peerToUser :: "peer_id \<Rightarrow> bare_id" where
  "peerToUser = peer_to kUserShift"

definition peerToChat :: "peer_id \<Rightarrow> bare_id" where
  "peerToChat = peer_to kChatShift"

definition peerToChannel :: "peer_id \<Rightarrow> bare_id" where
  "peerToChannel = peer_to kChannelShift"

definition peerToBareMTPInt :: "peer_id \<Rightarrow> bare_id" where
  "peerToBareMTPInt v = v AND kChatTypeMask"

text \<open>The peer of the API schema: a constructor with the bare id.\<close>

datatype mtp_peer = MTP_peerUser bare_id | MTP_peerChat bare_id | MTP_peerChannel bare_id

fun peerFromMTP :: "mtp_peer \<Rightarrow> peer_id" where
  "peerFromMTP (MTP_peerUser i) = peerFromUser i"
| "peerFromMTP (MTP_peerChat i) = peerFromChat i"
| "peerFromMTP (MTP_peerChannel i) = peerFromChannel i"

definition peerToMTP :: "peer_id \<Rightarrow> mtp_peer" where
  "peerToMTP v =
     (if peerIsUser v then MTP_peerUser (peerToBareMTPInt v)
      else if peerIsChat v then MTP_peerChat (peerToBareMTPInt v)
      else if peerIsChannel v then MTP_peerChannel (peerToBareMTPInt v)
      else MTP_peerUser 0)"

text \<open>The stored form, with the reserved bit set; without it the number is in the old format.\<close>

definition DeserializePeerId :: "64 word \<Rightarrow> peer_id" where
  "DeserializePeerId serialized =
     (let flag = push_bit 48 kReservedBit;
          legacy = (serialized AND push_bit 48 kReservedBit = 0);
          PeerIdMask = 0xFFFFFFFF;
          PeerIdTypeMask = 0xF00000000
      in if \<not> legacy then serialized AND NOT flag
         else if serialized AND PeerIdTypeMask = 0 then peerFromUser (serialized AND PeerIdMask)
         else if serialized AND PeerIdTypeMask = 0x100000000 then peerFromChat (serialized AND PeerIdMask)
         else if serialized AND PeerIdTypeMask = 0x200000000 then peerFromChannel (serialized AND PeerIdMask)
         else if serialized AND PeerIdTypeMask = 0xF00000000
           then peer_from kFakeChatShift (serialized AND PeerIdMask)
         else 0)"

text \<open>\<open>Expects\<close> aborts the program: no result.\<close>

definition SerializePeerId :: "peer_id \<Rightarrow> 64 word option" where
  "SerializePeerId v =
     (if v AND push_bit 48 kReservedBit \<noteq> 0 then None else Some (v OR push_bit 48 kReservedBit))"

subsection \<open>Message ids\<close>

type_synonym msg_id = int

definition StartClientMsgId :: msg_id where
  "StartClientMsgId = 1 - 2 ^ 58"

definition ClientMsgIds :: int where
  "ClientMsgIds = 2 ^ 31"

definition EndClientMsgId :: msg_id where
  "EndClientMsgId = StartClientMsgId + ClientMsgIds"

definition StartStoryMsgId :: msg_id where
  "StartStoryMsgId = EndClientMsgId + 1"

definition ServerMaxStoryId :: int where
  "ServerMaxStoryId = 2 ^ 30"

definition StoryMsgIds :: int where
  "StoryMsgIds = ServerMaxStoryId"

definition EndStoryMsgId :: msg_id where
  "EndStoryMsgId = StartStoryMsgId + StoryMsgIds"

definition ServerMaxMsgId :: msg_id where
  "ServerMaxMsgId = 2 ^ 56"

definition ScheduledMaxMsgId :: msg_id where
  "ScheduledMaxMsgId = ServerMaxMsgId + 2 ^ 32"

definition ShortcutMaxMsgId :: msg_id where
  "ShortcutMaxMsgId = ScheduledMaxMsgId + 2 ^ 32"

definition ShowAtUnreadMsgId :: msg_id where
  "ShowAtUnreadMsgId = 0"

definition SpecialMsgIdShift :: int where
  "SpecialMsgIdShift = EndStoryMsgId"

definition ShowAtTheEndMsgId :: msg_id where
  "ShowAtTheEndMsgId = SpecialMsgIdShift + 1"

definition SwitchAtTopMsgId :: msg_id where
  "SwitchAtTopMsgId = SpecialMsgIdShift + 2"

definition ShowAndStartBotMsgId :: msg_id where
  "ShowAndStartBotMsgId = SpecialMsgIdShift + 4"

definition ShowForChooseMessagesMsgId :: msg_id where
  "ShowForChooseMessagesMsgId = SpecialMsgIdShift + 6"

definition IsClientMsgId :: "msg_id \<Rightarrow> bool" where
  "IsClientMsgId i \<longleftrightarrow> i \<ge> StartClientMsgId \<and> i < EndClientMsgId"

definition ClientMsgIndex :: "msg_id \<Rightarrow> int option" where
  "ClientMsgIndex i = (if IsClientMsgId i then Some (i - StartClientMsgId) else None)"

definition ClientMsgByIndex :: "int \<Rightarrow> msg_id option" where
  "ClientMsgByIndex index = (if index \<ge> 0 then Some (StartClientMsgId + index) else None)"

definition IsStoryMsgId :: "msg_id \<Rightarrow> bool" where
  "IsStoryMsgId i \<longleftrightarrow> i \<ge> StartStoryMsgId \<and> i < EndStoryMsgId"

definition StoryIdFromMsgId :: "msg_id \<Rightarrow> int option" where
  "StoryIdFromMsgId i = (if IsStoryMsgId i then Some (i - StartStoryMsgId) else None)"

definition StoryIdToMsgId :: "int \<Rightarrow> msg_id option" where
  "StoryIdToMsgId i = (if i \<ge> 0 then Some (StartStoryMsgId + i) else None)"

definition IsServerMsgId :: "msg_id \<Rightarrow> bool" where
  "IsServerMsgId i \<longleftrightarrow> i > 0 \<and> i < ServerMaxMsgId"

lemmas msg_id_ranges = StartClientMsgId_def ClientMsgIds_def EndClientMsgId_def StartStoryMsgId_def
  ServerMaxStoryId_def StoryMsgIds_def EndStoryMsgId_def ServerMaxMsgId_def SpecialMsgIdShift_def
  ShowAtUnreadMsgId_def ShowAtTheEndMsgId_def SwitchAtTopMsgId_def ShowAndStartBotMsgId_def
  ShowForChooseMessagesMsgId_def ScheduledMaxMsgId_def ShortcutMaxMsgId_def
  IsClientMsgId_def IsStoryMsgId_def IsServerMsgId_def

text \<open>A message with its peer, and a message of a session; ordered by the peer first.\<close>

datatype full_msg_id = FullMsgId (fm_peer: peer_id) (fm_msg: msg_id)

text \<open>\<open>operator<=>\<close>, the default one: the members in the order of their declaration.\<close>

fun full_msg_id_before :: "full_msg_id \<Rightarrow> full_msg_id \<Rightarrow> bool" where
  "full_msg_id_before (FullMsgId peer msg) (FullMsgId peer' msg') \<longleftrightarrow>
     peer < peer' \<or> peer = peer' \<and> msg < msg'"

instantiation full_msg_id :: linorder
begin

definition less_full_msg_id :: "full_msg_id \<Rightarrow> full_msg_id \<Rightarrow> bool" where
  "less_full_msg_id = full_msg_id_before"

definition less_eq_full_msg_id :: "full_msg_id \<Rightarrow> full_msg_id \<Rightarrow> bool" where
  "less_eq_full_msg_id a b \<longleftrightarrow> a = b \<or> full_msg_id_before a b"

instance
proof
  fix x y z :: full_msg_id
  show "(x < y) = (x \<le> y \<and> \<not> y \<le> x)" "x \<le> x" "x \<le> y \<or> y \<le> x"
    by (cases x; cases y; auto simp: less_full_msg_id_def less_eq_full_msg_id_def)+
  show "x \<le> y \<Longrightarrow> y \<le> z \<Longrightarrow> x \<le> z" "x \<le> y \<Longrightarrow> y \<le> x \<Longrightarrow> x = y"
    by (cases x; cases y; cases z; auto simp: less_full_msg_id_def less_eq_full_msg_id_def)+
qed

end

subsection \<open>Bits of peer ids\<close>

lemma masks:
  "kChatTypeMask = (mask 48 :: 64 word)" "(0xFF :: 64 word) = mask 8" "(0xFFFFFFFF :: 64 word) = mask 32"
  "(0xF00000000 :: 64 word) = push_bit 32 (mask 4)" "(0x100000000 :: 64 word) = push_bit 32 1"
  "(0x200000000 :: 64 word) = push_bit 32 2"
  by (simp_all add: kChatTypeMask_def push_bit_eq_mult mask_eq_exp_minus_1)

lemma bit_kReservedBit: "bit kReservedBit n \<longleftrightarrow> n = 7"
proof -
  have "kReservedBit = 2 ^ 7" by (simp add: kReservedBit_def)
  then show ?thesis using bit_exp_iff[where 'a = "64 word", of 7 n] by (auto simp: possible_bit_word)
qed

abbreviation reserved :: "64 word" where
  "reserved \<equiv> push_bit 48 kReservedBit"

lemma bit_reserved: "bit reserved n \<longleftrightarrow> n = 55"
  by (auto simp: bit_push_bit_iff bit_kReservedBit)

lemma and_reserved: "v AND reserved = 0 \<longleftrightarrow> \<not> bit (v :: 64 word) 55"
proof
  assume "v AND reserved = 0"
  then have "\<not> bit (v AND reserved) 55" by simp
  then show "\<not> bit v 55" by (simp add: bit_and_iff bit_reserved)
next
  assume "\<not> bit v 55"
  then show "v AND reserved = 0"
    by (intro bit_word_eqI) (auto simp: bit_and_iff bit_reserved)
qed

lemma small_bits:
  assumes "(b :: 64 word) < 2 ^ k" "k < 64" "bit b n"
  shows "n < k"
proof (rule ccontr)
  assume "\<not> n < k"
  have "(0 :: 64 word) < 2 ^ k" using assms(1,2) by (auto simp: word_greater_zero_iff)
  then have "uint b < 2 ^ k" using assms(1) by (simp add: word_less_def uint_2p)
  also have "(2 :: int) ^ k \<le> 2 ^ n" using \<open>\<not> n < k\<close> by simp
  finally have "uint b div 2 ^ n = 0" by simp
  moreover have "bit (uint b) n" using assms(3) bit_imp_le_length[OF assms(3)] by (simp add: bit_uint_iff)
  ultimately show False by (simp add: bit_iff_odd)
qed

lemma peer_from_bits:
  assumes "(b :: 64 word) < 2 ^ 48" "s < 2 ^ 16"
  shows "peer_from s b AND mask 48 = b" and "drop_bit 48 (peer_from s b) = s"
proof -
  show "peer_from s b AND mask 48 = b"
    using small_bits[OF assms(1)]
    by (intro bit_word_eqI) (auto simp: peer_from_def bit_simps)
  show "drop_bit 48 (peer_from s b) = s"
    using small_bits[OF assms(1)] small_bits[OF assms(2)]
    by (intro bit_word_eqI) (fastforce simp: peer_from_def bit_simps)
qed

lemma peer_from_spec:
  assumes "(b :: 64 word) < 2 ^ 48" "s < 2 ^ 8"
  shows "peer_is t (peer_from s b) \<longleftrightarrow> t = s" and "peer_to s (peer_from s b) = b"
proof -
  have s16: "s < 2 ^ 16" using assms(2) by (rule less_trans) simp
  have "s AND mask 8 = s" using small_bits[OF assms(2)] by (intro bit_word_eqI) (auto simp: bit_simps)
  then have ty: "peer_is u (peer_from s b) \<longleftrightarrow> u = s" for u
    using peer_from_bits(2)[OF assms(1) s16] by (auto simp: peer_is_def masks)
  show "peer_to s (peer_from s b) = b"
    using peer_from_bits(1)[OF assms(1) s16] ty by (simp add: peer_to_def masks)
  show "peer_is t (peer_from s b) \<longleftrightarrow> t = s" by (rule ty)
qed

lemma legacy_bits:
  assumes "(b :: 64 word) < 2 ^ 32" "t < 2 ^ 4"
  defines "v \<equiv> b OR push_bit 32 t"
  shows "v AND reserved = 0" "v AND push_bit 32 (mask 4) = push_bit 32 t" "v AND mask 32 = b"
proof -
  have b: "bit b n \<Longrightarrow> n < 32" and t: "bit t n \<Longrightarrow> n < 4" for n
    using small_bits[OF assms(1)] small_bits[OF assms(2)] by simp_all
  show "v AND reserved = 0"
    unfolding and_reserved v_def using b[of 55] t[of 23] by (auto simp: bit_simps)
  show "v AND push_bit 32 (mask 4) = push_bit 32 t"
    by (rule bit_word_eqI) (auto simp: v_def bit_simps dest: b t)
  show "v AND mask 32 = b"
    by (rule bit_word_eqI) (auto simp: v_def bit_simps dest: b t)
qed

subsection \<open>Properties\<close>

text \<open>
  C25: a stored peer id is read back as it was written; only an id with the reserved bit set
  cannot be written. An id stored in the old format, a type in the bits above the lower 32,
  is read as the peer of that type.
\<close>

theorem peer_id_stored:
  "(case SerializePeerId v of None \<Rightarrow> bit v 55 | Some s \<Rightarrow> \<not> bit v 55 \<and> DeserializePeerId s = v)
   \<and> DeserializePeerId (ucast (b :: 32 word)) = peerFromUser (ucast b)
   \<and> DeserializePeerId (ucast b OR 0x100000000) = peerFromChat (ucast b)
   \<and> DeserializePeerId (ucast b OR 0x200000000) = peerFromChannel (ucast b)
   \<and> DeserializePeerId (ucast b OR 0xF00000000) = peer_from kFakeChatShift (ucast b)"
proof -
  have "case SerializePeerId v of None \<Rightarrow> bit v 55 | Some s \<Rightarrow> \<not> bit v 55 \<and> DeserializePeerId s = v"
  proof (cases "bit v 55")
    case True
    then show ?thesis by (simp add: SerializePeerId_def masks and_reserved)
  next
    case False
    have "(v OR reserved) AND reserved \<noteq> 0" unfolding and_reserved by (simp only: bit_or_iff bit_reserved simp_thms)
    moreover have "(v OR reserved) AND NOT reserved = v"
      using False by (intro bit_word_eqI) (auto simp: bit_and_iff bit_or_iff bit_not_iff bit_reserved)
    ultimately show ?thesis
      using False by (simp add: SerializePeerId_def DeserializePeerId_def masks and_reserved)
  qed
  moreover have b: "(ucast b :: 64 word) < 2 ^ 32" 
    using uint_lt2p[of b] by (simp add: word_less_def unsigned_ucast_eq take_bit_int_eq_self)
  have L: "(ucast b OR push_bit 32 t) AND reserved = 0 \<and> (ucast b OR push_bit 32 t) AND 0xF00000000 = push_bit 32 t
      \<and> (ucast b OR push_bit 32 t) AND 0xFFFFFFFF = ucast b" if "t < 2 ^ 4" for t :: "64 word"
    unfolding masks(3,4) using legacy_bits[OF b that] by blast
  have "DeserializePeerId (ucast b) = peerFromUser (ucast b)"
    using L[of 0] by (simp add: DeserializePeerId_def)
  moreover have "DeserializePeerId (ucast b OR 0x100000000) = peerFromChat (ucast b)"
    using L[of 1] by (simp add: DeserializePeerId_def)
  moreover have "DeserializePeerId (ucast b OR 0x200000000) = peerFromChannel (ucast b)"
    using L[of 2] by (simp add: DeserializePeerId_def)
  moreover have "DeserializePeerId (ucast b OR 0xF00000000) = peer_from kFakeChatShift (ucast b)"
    using L[of 15] by (simp add: DeserializePeerId_def)
  ultimately show ?thesis by blast
qed

text \<open>
  C39: the bare ids of users, chats and channels fit in 48 bits, and then the peer of one type
  is of that type only, gives the id back, and survives the conversion to the API's peer.
\<close>

theorem peer_id_types:
  assumes "b < 2 ^ 48"
  shows "peerIsUser (peerFromUser b) \<and> \<not> peerIsChat (peerFromUser b) \<and> \<not> peerIsChannel (peerFromUser b)
    \<and> peerIsChat (peerFromChat b) \<and> \<not> peerIsUser (peerFromChat b) \<and> \<not> peerIsChannel (peerFromChat b)
    \<and> peerIsChannel (peerFromChannel b) \<and> \<not> peerIsUser (peerFromChannel b)
    \<and> \<not> peerIsChat (peerFromChannel b)
    \<and> peerToUser (peerFromUser b) = b \<and> peerToChat (peerFromChat b) = b
    \<and> peerToChannel (peerFromChannel b) = b
    \<and> (\<forall>p. p \<in> {MTP_peerUser b, MTP_peerChat b, MTP_peerChannel b} \<longrightarrow> peerToMTP (peerFromMTP p) = p)"
proof -
  have s: "kUserShift < 2 ^ 8" "kChatShift < 2 ^ 8" "kChannelShift < 2 ^ 8"
    "kUserShift < 2 ^ 16" "kChatShift < 2 ^ 16" "kChannelShift < 2 ^ 16"
    "kUserShift \<noteq> kChatShift" "kUserShift \<noteq> kChannelShift" "kChatShift \<noteq> kChannelShift"
    by (simp_all add: kUserShift_def kChatShift_def kChannelShift_def)
  note ty = peer_from_spec(1)[OF assms s(1)] peer_from_spec(1)[OF assms s(2)] peer_from_spec(1)[OF assms s(3)]
  note bare = peer_from_spec(2)[OF assms s(1)] peer_from_spec(2)[OF assms s(2)] peer_from_spec(2)[OF assms s(3)]
  note mtp = peer_from_bits(1)[OF assms s(4)] peer_from_bits(1)[OF assms s(5)] peer_from_bits(1)[OF assms s(6)]
  show ?thesis
    using s(7-9) by (auto simp: peerIsUser_def peerIsChat_def peerIsChannel_def peerFromUser_def
        peerFromChat_def peerFromChannel_def peerToUser_def peerToChat_def peerToChannel_def
        peerToMTP_def peerToBareMTPInt_def masks(1) ty bare mtp)
qed

theorem peer_id_types_witness:
  "peerToMTP (peerFromMTP (MTP_peerChannel 1234567890)) = MTP_peerChannel 1234567890"
  using peer_id_types[of 1234567890] by simp

text \<open>
  no message id is of two of the kinds server, client and story; the special ids are of
  none; a client message and a story get the id whose index they are read back from.
\<close>

theorem msg_id_classes:
  "\<not> (IsServerMsgId i \<and> IsClientMsgId i) \<and> \<not> (IsServerMsgId i \<and> IsStoryMsgId i)
   \<and> \<not> (IsClientMsgId i \<and> IsStoryMsgId i)
   \<and> (\<forall>s \<in> {ShowAtUnreadMsgId, ShowAtTheEndMsgId, SwitchAtTopMsgId, ShowAndStartBotMsgId,
         ShowForChooseMessagesMsgId, ServerMaxMsgId}.
        \<not> IsServerMsgId s \<and> \<not> IsClientMsgId s \<and> \<not> IsStoryMsgId s)
   \<and> (0 \<le> k \<and> k < ClientMsgIds \<longrightarrow> Option.bind (ClientMsgByIndex k) ClientMsgIndex = Some k)
   \<and> (0 \<le> k \<and> k < ServerMaxStoryId \<longrightarrow> Option.bind (StoryIdToMsgId k) StoryIdFromMsgId = Some k)"
  by (auto simp: msg_id_ranges ClientMsgByIndex_def ClientMsgIndex_def StoryIdToMsgId_def
      StoryIdFromMsgId_def)

theorem msg_id_classes_witness:
  "Option.bind (ClientMsgByIndex 7) ClientMsgIndex = Some 7"
  using msg_id_classes[of 0 7] by (simp add: msg_id_ranges)

end
