(* ===== verification/Lastseen.thy ===== *)
theory Lastseen
  imports Prelude
begin

text \<open>
  When a user was last online: \<open>Data::LastseenStatus\<close> of \<open>data/data_lastseen_status.h\<close>, one
  32-bit number made of a 30-bit value and two flags. The value is a time counted from the start
  of the service, or one of four special values below \<open>kSpecialValueSkip\<close>. The fields of the
  struct are the parts of the record; assigning to the 30-bit field keeps the low 30 bits.
  Times (\<open>TimeId\<close>) are \<open>int\<close>.
\<close>

definition kLifeStartDate :: int where
  "kLifeStartDate = 1375315200"

definition kLongAgoValue :: "32 word" where
  "kLongAgoValue = 0"

definition kRecentlyValue :: "32 word" where
  "kRecentlyValue = 1"

definition kWithinWeekValue :: "32 word" where
  "kWithinWeekValue = 2"

definition kWithinMonthValue :: "32 word" where
  "kWithinMonthValue = 3"

definition kSpecialValueSkip :: "32 word" where
  "kSpecialValueSkip = 4"

record lastseen =
  ls_value :: "32 word"
  ls_available :: bool
  ls_hiddenByMe :: bool

definition LastseenStatus :: "32 word \<Rightarrow> bool \<Rightarrow> bool \<Rightarrow> lastseen" where
  "LastseenStatus v available hiddenByMe =
     \<lparr>ls_value = v AND 0x3FFFFFFF, ls_available = available, ls_hiddenByMe = hiddenByMe\<rparr>"

definition default_lastseen :: lastseen where
  "default_lastseen = \<lparr>ls_value = 0, ls_available = False, ls_hiddenByMe = False\<rparr>"

definition Recently :: "bool \<Rightarrow> lastseen" where
  "Recently byMe = LastseenStatus kRecentlyValue False byMe"

definition WithinWeek :: "bool \<Rightarrow> lastseen" where
  "WithinWeek byMe = LastseenStatus kWithinWeekValue False byMe"

definition WithinMonth :: "bool \<Rightarrow> lastseen" where
  "WithinMonth byMe = LastseenStatus kWithinMonthValue False byMe"

definition LongAgo :: "bool \<Rightarrow> lastseen" where
  "LongAgo byMe = LastseenStatus kLongAgoValue False byMe"

text \<open>
  The sum with the unsigned \<open>kSpecialValueSkip\<close> is unsigned, so the comparison is one of
  unsigned 32-bit numbers.
\<close>

definition OnlineTill :: "int \<Rightarrow> bool \<Rightarrow> bool \<Rightarrow> lastseen" where
  "OnlineTill till local hiddenByMe =
     (if (word_of_int till :: 32 word) \<ge> word_of_int kLifeStartDate + kSpecialValueSkip
      then LastseenStatus (word_of_int (till - kLifeStartDate)) (\<not> local) hiddenByMe
      else LongAgo hiddenByMe)"

definition isHidden :: "lastseen \<Rightarrow> bool" where
  "isHidden s \<longleftrightarrow> \<not> ls_available s"

definition isRecently :: "lastseen \<Rightarrow> bool" where
  "isRecently s \<longleftrightarrow> \<not> ls_available s \<and> ls_value s = kRecentlyValue"

definition isWithinWeek :: "lastseen \<Rightarrow> bool" where
  "isWithinWeek s \<longleftrightarrow> \<not> ls_available s \<and> ls_value s = kWithinWeekValue"

definition isWithinMonth :: "lastseen \<Rightarrow> bool" where
  "isWithinMonth s \<longleftrightarrow> \<not> ls_available s \<and> ls_value s = kWithinMonthValue"

definition isLongAgo :: "lastseen \<Rightarrow> bool" where
  "isLongAgo s \<longleftrightarrow> \<not> ls_available s \<and> ls_value s = kLongAgoValue"

definition isHiddenByMe :: "lastseen \<Rightarrow> bool" where
  "isHiddenByMe = ls_hiddenByMe"

definition isOnline :: "lastseen \<Rightarrow> int \<Rightarrow> bool" where
  "isOnline s now \<longleftrightarrow> ls_value s \<ge> kSpecialValueSkip \<and> kLifeStartDate + uint (ls_value s) > now"

definition isLocalOnlineValue :: "lastseen \<Rightarrow> bool" where
  "isLocalOnlineValue s \<longleftrightarrow> \<not> ls_available s \<and> ls_value s \<ge> kSpecialValueSkip"

definition onlineTill :: "lastseen \<Rightarrow> int" where
  "onlineTill s =
     (if ls_value s \<ge> kSpecialValueSkip then kLifeStartDate + uint (ls_value s) else 0)"

definition lastseen_valid :: "lastseen \<Rightarrow> bool" where
  "lastseen_valid s \<longleftrightarrow> \<not> ls_available s \<or> ls_value s \<ge> kSpecialValueSkip"

definition serialize :: "lastseen \<Rightarrow> 32 word" where
  "serialize s = (ls_value s AND 0x3FFFFFFF)
     OR push_bit 30 (of_bool (ls_available s)) OR push_bit 31 (of_bool (ls_hiddenByMe s))"

definition FromSerialized :: "32 word \<Rightarrow> lastseen" where
  "FromSerialized v =
     (let result = \<lparr>ls_value = v AND 0x3FFFFFFF, ls_available = (drop_bit 30 v AND 1 = 1),
                    ls_hiddenByMe = (drop_bit 31 v AND 1 = 1)\<rparr>
      in if lastseen_valid result then result else default_lastseen)"

text \<open>The format of older versions: \<open>-value\<close> of an \<open>int32\<close>, negated in 32 bits.\<close>

definition FromLegacy :: "int \<Rightarrow> lastseen" where
  "FromLegacy v =
     (if v = -2 then Recently False
      else if v = -3 then WithinWeek False
      else if v = -4 then WithinMonth False
      else if v < -30 then OnlineTill (- v) True False
      else if v > 0 then OnlineTill v False False
      else default_lastseen)"

subsection \<open>Values a status can hold\<close>

text \<open>A 30-bit field holds 30 bits.\<close>

definition lastseen_fits :: "lastseen \<Rightarrow> bool" where
  "lastseen_fits s \<longleftrightarrow> ls_value s AND 0x3FFFFFFF = ls_value s"

lemma low30: "(0x3FFFFFFF :: 32 word) = mask 30"
  by (simp add: mask_eq_exp_minus_1)

lemma drop_bit_one: "drop_bit n w AND 1 = (1 :: 32 word) \<longleftrightarrow> bit w n"
  by (auto simp: and_one_eq mod2_eq_if bit_iff_odd_drop_bit)

lemma serialize_bits:
  assumes "lastseen_fits s"
  shows "serialize s AND 0x3FFFFFFF = ls_value s"
    and "bit (serialize s) 30 = ls_available s" and "bit (serialize s) 31 = ls_hiddenByMe s"
proof -
  have f: "bit (ls_value s) n \<longrightarrow> n < 30" for n
    using assms unfolding lastseen_fits_def low30 by (metis bit_and_iff bit_mask_iff)
  show "serialize s AND 0x3FFFFFFF = ls_value s"
    unfolding low30 serialize_def using f by (intro bit_word_eqI) (auto simp: bit_simps)
  show "bit (serialize s) 30 = ls_available s" "bit (serialize s) 31 = ls_hiddenByMe s"
    unfolding low30 serialize_def using f by (auto simp: bit_simps)
qed

lemma LastseenStatus_fits: "lastseen_fits (LastseenStatus v a h)"
  by (simp add: lastseen_fits_def LastseenStatus_def and.assoc)

lemma word_low30:
  assumes "0 \<le> v" "v < 2 ^ 30"
  shows "(word_of_int v :: 32 word) AND 0x3FFFFFFF = word_of_int v" and "uint (word_of_int v :: 32 word) = v"
proof -
  have "v mod 2 ^ 30 = v" "v mod 2 ^ 32 = v" using assms by simp_all
  then show "uint (word_of_int v :: 32 word) = v" by (simp add: uint_word_of_int)
  have "(word_of_int v :: 32 word) AND mask 30 = word_of_int (v AND mask 30)"
    by (rule bit_word_eqI) (simp add: bit_simps)
  also have "v AND mask 30 = v" using assms by (simp flip: take_bit_eq_mask add: take_bit_int_eq_self)
  finally show "(word_of_int v :: 32 word) AND 0x3FFFFFFF = word_of_int v" unfolding low30 .
qed

lemma OnlineTill_known:
  assumes "kLifeStartDate + 4 \<le> till" "till < 2 ^ 31"
  shows "ls_value (OnlineTill till local h) = word_of_int (till - kLifeStartDate)"
    and "uint (ls_value (OnlineTill till local h)) = till - kLifeStartDate"
    and "ls_available (OnlineTill till local h) = (\<not> local)" and "ls_hiddenByMe (OnlineTill till local h) = h"
    and "kSpecialValueSkip \<le> ls_value (OnlineTill till local h)"
proof -
  have r: "0 \<le> till - kLifeStartDate" "till - kLifeStartDate < 2 ^ 30"
    using assms by (simp_all add: kLifeStartDate_def)
  have "uint (word_of_int till :: 32 word) = till"
    using assms by (simp add: uint_word_of_int kLifeStartDate_def)
  moreover have "uint (word_of_int kLifeStartDate + kSpecialValueSkip :: 32 word) = kLifeStartDate + 4"
    by (simp add: kLifeStartDate_def kSpecialValueSkip_def)
  ultimately have "(word_of_int till :: 32 word) \<ge> word_of_int kLifeStartDate + kSpecialValueSkip"
    using assms(1) by (simp add: word_le_def)
  then have eq: "OnlineTill till local h = LastseenStatus (word_of_int (till - kLifeStartDate)) (\<not> local) h"
    by (simp add: OnlineTill_def)
  show v: "ls_value (OnlineTill till local h) = word_of_int (till - kLifeStartDate)"
    unfolding eq LastseenStatus_def using word_low30(1)[OF r] by simp
  show "ls_available (OnlineTill till local h) = (\<not> local)" "ls_hiddenByMe (OnlineTill till local h) = h"
    by (simp_all add: eq LastseenStatus_def)
  show u: "uint (ls_value (OnlineTill till local h)) = till - kLifeStartDate"
    unfolding v using word_low30(2)[OF r] .
  show "kSpecialValueSkip \<le> ls_value (OnlineTill till local h)"
    using assms(1) unfolding word_le_def u by (simp add: kSpecialValueSkip_def)
qed

lemma OnlineTill_long_ago:
  assumes "0 \<le> till" "till < kLifeStartDate + 4"
  shows "OnlineTill till local h = LongAgo h"
proof -
  have "uint (word_of_int till :: 32 word) = till"
    using assms by (simp add: uint_word_of_int kLifeStartDate_def)
  moreover have "uint (word_of_int kLifeStartDate + kSpecialValueSkip :: 32 word) = kLifeStartDate + 4"
    by (simp add: kLifeStartDate_def kSpecialValueSkip_def)
  ultimately show ?thesis using assms(2) by (simp add: OnlineTill_def word_le_def)
qed

text \<open>A negative time is a large unsigned one: it counts as online until the end of time.\<close>

lemma OnlineTill_negative: "onlineTill (OnlineTill (-1) False False) = 2 ^ 31 - 1"
  by (simp add: OnlineTill_def onlineTill_def LastseenStatus_def kLifeStartDate_def kSpecialValueSkip_def)

subsection \<open>Properties\<close>

text \<open>
  a status is read back from its stored number as it was written, and whatever number is
  read, the status is a valid one whose value fits the field.
\<close>

theorem lastseen_stored:
  assumes "lastseen_fits s" "lastseen_valid s"
  shows "FromSerialized (serialize s) = s \<and> lastseen_fits (FromSerialized v) \<and> lastseen_valid (FromSerialized v)"
proof -
  have "lastseen_fits (FromSerialized v) \<and> lastseen_valid (FromSerialized v)"
    by (simp add: FromSerialized_def Let_def lastseen_fits_def default_lastseen_def lastseen_valid_def and.assoc)
  moreover have "\<lparr>ls_value = serialize s AND 0x3FFFFFFF, ls_available = bit (serialize s) 30,
      ls_hiddenByMe = bit (serialize s) 31\<rparr> = s"
    using serialize_bits[OF assms(1)] by simp
  ultimately show ?thesis
    using assms(2) by (simp only: FromSerialized_def Let_def drop_bit_one if_True simp_thms)
qed

theorem lastseen_stored_witness: "FromSerialized (serialize (OnlineTill 1700000000 True True)) = OnlineTill 1700000000 True True"
proof -
  have "lastseen_fits (OnlineTill 1700000000 True True)"
    by (simp add: OnlineTill_def LastseenStatus_fits LongAgo_def)
  moreover have "lastseen_valid (OnlineTill 1700000000 True True)"
    using OnlineTill_known(5)[of 1700000000 True True] by (simp add: lastseen_valid_def kLifeStartDate_def)
  ultimately show ?thesis by (rule lastseen_stored[THEN conjunct1])
qed

text \<open>
  a time from the start of the service on is kept exactly: the user is online before it and
  not from it on, and the two flags are kept; an earlier one counts as long ago; a time the old
  format stored as a negative number is a local one.
\<close>

theorem lastseen_online_till:
  assumes "0 \<le> till" "till < 2 ^ 31"
  shows "if kLifeStartDate + 4 \<le> till
    then onlineTill (OnlineTill till local h) = till
      \<and> (isOnline (OnlineTill till local h) now \<longleftrightarrow> now < till)
      \<and> (isHidden (OnlineTill till local h) \<longleftrightarrow> local)
      \<and> (isLocalOnlineValue (OnlineTill till local h) \<longleftrightarrow> local)
      \<and> (isHiddenByMe (OnlineTill till local h) \<longleftrightarrow> h)
      \<and> FromLegacy till = OnlineTill till False False \<and> FromLegacy (- till) = OnlineTill till True False
    else isLongAgo (OnlineTill till local h) \<and> onlineTill (OnlineTill till local h) = 0
      \<and> \<not> isOnline (OnlineTill till local h) now"
proof (cases "kLifeStartDate + 4 \<le> till")
  case True
  note K = OnlineTill_known[OF True assms(2), of local h]
  have "FromLegacy till = OnlineTill till False False \<and> FromLegacy (- till) = OnlineTill till True False"
    using True by (simp add: FromLegacy_def kLifeStartDate_def)
  then show ?thesis using True K(2-5)
    by (simp add: onlineTill_def isOnline_def isHidden_def isLocalOnlineValue_def isHiddenByMe_def)
next
  case False
  then show ?thesis using OnlineTill_long_ago[of till local h] assms(1)
    by (simp add: LongAgo_def isLongAgo_def LastseenStatus_def onlineTill_def isOnline_def
        kLongAgoValue_def kSpecialValueSkip_def)
qed

theorem lastseen_online_till_witness: "onlineTill (OnlineTill 1700000000 False False) = 1700000000"
  using lastseen_online_till[of 1700000000 False False 0] by (simp add: kLifeStartDate_def)

end
