(* ===== verification/Drafts.thy ===== *)
theory Drafts
  imports PeerIds
begin

text \<open>
  The drafts of a chat: their keys and comparison (\<open>data/data_drafts.{h,cpp}\<close>) and the state a
  \<open>History\<close> keeps for them (\<open>history/history.cpp\<close>): the map of drafts, the topics whose draft
  is being saved to the server, the times before which a draft from the server is out of date,
  and the forward drafts. What the code tells the rest of the program is recorded in
  \<open>hs_effects\<close>. The forum topics that exist, the texts' entities and whether a character is a
  space come from elsewhere and are arguments.
\<close>

subsection \<open>Keys\<close>

type_synonym draft_key = int

definition kLocalDraftIndex :: int where
  "kLocalDraftIndex = -1"

definition kCloudDraftIndex :: int where
  "kCloudDraftIndex = -2"

definition kScheduledDraftIndex :: int where
  "kScheduledDraftIndex = -3"

definition kEditDraftShift :: int where
  "kEditDraftShift = ServerMaxMsgId"

definition kCloudDraftShift :: int where
  "kCloudDraftShift = 2 * ServerMaxMsgId"

definition kShortcutDraftShift :: int where
  "kShortcutDraftShift = 3 * ServerMaxMsgId"

definition kEditDraftShiftOld :: int where
  "kEditDraftShiftOld = 0x3FFFFFFF"

definition key_None :: draft_key where
  "key_None = 0"

definition key_Local :: "msg_id \<Rightarrow> draft_key" where
  "key_Local topicRootId =
     (if topicRootId < 0 \<or> topicRootId \<ge> ServerMaxMsgId then key_None
      else if topicRootId \<noteq> 0 then topicRootId else kLocalDraftIndex)"

definition key_LocalEdit :: "msg_id \<Rightarrow> draft_key" where
  "key_LocalEdit topicRootId =
     (if topicRootId < 0 \<or> topicRootId \<ge> ServerMaxMsgId then key_None
      else (if topicRootId \<noteq> 0 then topicRootId else kLocalDraftIndex) + kEditDraftShift)"

definition key_Cloud :: "msg_id \<Rightarrow> draft_key" where
  "key_Cloud topicRootId =
     (if topicRootId < 0 \<or> topicRootId \<ge> ServerMaxMsgId then key_None
      else if topicRootId \<noteq> 0 then kCloudDraftShift + topicRootId else kCloudDraftIndex)"

definition key_Scheduled :: draft_key where
  "key_Scheduled = kScheduledDraftIndex"

definition key_ScheduledEdit :: draft_key where
  "key_ScheduledEdit = kScheduledDraftIndex + kEditDraftShift"

definition key_Shortcut :: "int \<Rightarrow> draft_key" where
  "key_Shortcut shortcutId =
     (if shortcutId < 0 \<or> shortcutId \<ge> ServerMaxMsgId then key_None
      else kShortcutDraftShift + shortcutId)"

definition key_ShortcutEdit :: "int \<Rightarrow> draft_key" where
  "key_ShortcutEdit shortcutId =
     (if shortcutId < 0 \<or> shortcutId \<ge> ServerMaxMsgId then key_None
      else kShortcutDraftShift + kEditDraftShift + shortcutId)"

definition key_FromSerialized :: "int \<Rightarrow> draft_key" where
  "key_FromSerialized v = v"

definition key_serialize :: "draft_key \<Rightarrow> int" where
  "key_serialize k = k"

definition key_FromSerializedOld :: "int \<Rightarrow> draft_key" where
  "key_FromSerializedOld v =
     (if v = 0 then key_None
      else if v = kLocalDraftIndex + kEditDraftShiftOld then key_LocalEdit 0
      else if v = kScheduledDraftIndex + kEditDraftShiftOld then key_ScheduledEdit
      else if v > 0 \<and> v < 0x40000000 then key_Local v
      else if v > kEditDraftShiftOld \<and> v < kEditDraftShiftOld + 0x4000000
        then key_LocalEdit (v - kEditDraftShiftOld)
      else key_None)"

definition key_isLocal :: "draft_key \<Rightarrow> bool" where
  "key_isLocal k \<longleftrightarrow> k = kLocalDraftIndex \<or> (k > 0 \<and> k < ServerMaxMsgId)"

definition key_isCloud :: "draft_key \<Rightarrow> bool" where
  "key_isCloud k \<longleftrightarrow> k = kCloudDraftIndex
     \<or> (k > kCloudDraftShift \<and> k < kCloudDraftShift + ServerMaxMsgId)"

definition key_topicRootId :: "draft_key \<Rightarrow> msg_id" where
  "key_topicRootId k =
     (if k > kCloudDraftShift \<and> k < kCloudDraftShift + ServerMaxMsgId then k - kCloudDraftShift
      else if k > kEditDraftShift \<and> k < kEditDraftShift + ServerMaxMsgId then k - kEditDraftShift
      else if k > 0 \<and> k < ServerMaxMsgId then k
      else 0)"

subsection \<open>Drafts\<close>

type_synonym qstring = "16 word list"

record 't text_with_tags =
  tt_text :: qstring
  tt_tags :: "'t list"

record full_story_id =
  fs_peer :: peer_id
  fs_story :: int

record 'e full_reply_to =
  rt_messageId :: full_msg_id
  rt_quote :: "qstring \<times> 'e list"
  rt_storyId :: full_story_id
  rt_topicRootId :: msg_id
  rt_quoteOffset :: int

record message_cursor =
  mc_position :: int
  mc_anchor :: int
  mc_scroll :: int

record web_page_draft =
  wd_id :: "64 word"
  wd_url :: qstring
  wd_forceLargeMedia :: bool
  wd_forceSmallMedia :: bool
  wd_invert :: bool
  wd_manual :: bool
  wd_removed :: bool

record ('t, 'e) draft =
  dr_date :: int
  dr_text :: "'t text_with_tags"
  dr_reply :: "'e full_reply_to"
  dr_cursor :: message_cursor
  dr_webpage :: web_page_draft
  dr_saveRequestId :: int

definition empty_reply :: "'e full_reply_to" where
  "empty_reply = \<lparr>rt_messageId = FullMsgId 0 0, rt_quote = ([], []),
     rt_storyId = \<lparr>fs_peer = 0, fs_story = 0\<rparr>, rt_topicRootId = 0, rt_quoteOffset = 0\<rparr>"

definition empty_web_page :: web_page_draft where
  "empty_web_page = \<lparr>wd_id = 0, wd_url = [], wd_forceLargeMedia = False, wd_forceSmallMedia = False,
     wd_invert = False, wd_manual = False, wd_removed = False\<rparr>"

text \<open>The default cursor scrolls to \<open>Ui::kQFixedMax\<close>, a constant of the UI library.\<close>

definition empty_cursor :: "int \<Rightarrow> message_cursor" where
  "empty_cursor qFixedMax = \<lparr>mc_position = 0, mc_anchor = 0, mc_scroll = qFixedMax\<rparr>"

definition new_draft :: "'t text_with_tags \<Rightarrow> 'e full_reply_to \<Rightarrow> message_cursor \<Rightarrow> web_page_draft
    \<Rightarrow> int \<Rightarrow> ('t, 'e) draft" where
  "new_draft txt reply cursor webpage saveRequestId =
     \<lparr>dr_date = 0, dr_text = txt, dr_reply = reply, dr_cursor = cursor, dr_webpage = webpage,
      dr_saveRequestId = saveRequestId\<rparr>"

text \<open>The other constructor takes text and cursor from the input field; it drops the last argument.\<close>

definition new_draft_from_field :: "'t text_with_tags \<Rightarrow> message_cursor \<Rightarrow> 'e full_reply_to
    \<Rightarrow> web_page_draft \<Rightarrow> int \<Rightarrow> ('t, 'e) draft" where
  "new_draft_from_field fieldText fieldCursor reply webpage saveRequestId =
     \<lparr>dr_date = 0, dr_text = fieldText, dr_reply = reply, dr_cursor = fieldCursor, dr_webpage = webpage,
      dr_saveRequestId = 0\<rparr>"

fun DraftStringIsEmpty :: "(16 word \<Rightarrow> bool) \<Rightarrow> qstring \<Rightarrow> bool" where
  "DraftStringIsEmpty isSpace [] = True"
| "DraftStringIsEmpty isSpace (ch # s) = (if \<not> isSpace ch then False else DraftStringIsEmpty isSpace s)"

definition DraftIsNull :: "(16 word \<Rightarrow> bool) \<Rightarrow> ('t, 'e) draft option \<Rightarrow> bool" where
  "DraftIsNull isSpace d =
     (case d of None \<Rightarrow> True
      | Some dr \<Rightarrow> fm_msg (rt_messageId (dr_reply dr)) = 0 \<and> DraftStringIsEmpty isSpace (tt_text (dr_text dr)))"

definition DraftsAreEqual :: "(16 word \<Rightarrow> bool) \<Rightarrow> ('t, 'e) draft option \<Rightarrow> ('t, 'e) draft option \<Rightarrow> bool" where
  "DraftsAreEqual isSpace a b =
     (if DraftIsNull isSpace a then DraftIsNull isSpace b
      else if DraftIsNull isSpace b then False
      else dr_text (the a) = dr_text (the b) \<and> dr_reply (the a) = dr_reply (the b)
        \<and> dr_webpage (the a) = dr_webpage (the b))"

subsection \<open>The drafts of a history\<close>

datatype history_effect =
    ClearCloudDraftText msg_id
  | UpdateSortPosition msg_id
  | UpdateChatListEntry msg_id
  | HistoryCloudDraftUpdated
  | TopicCloudDraftUpdated msg_id
  | ForwardDraftUpdated msg_id
  | SupportCloudDraftChanged
  | WriteDrafts
  | SaveDraftToCloudDelayed

record 'o forward_draft =
  fd_ids :: "full_msg_id list"
  fd_options :: 'o

record ('t, 'e, 'o) history_drafts =
  hs_drafts :: "(draft_key, ('t, 'e) draft) flat_map"
  hs_acceptAfter :: "(msg_id, int) flat_map"
  hs_saving :: "(msg_id, int) flat_map"
  hs_forward :: "(msg_id, 'o forward_draft) flat_map"
  hs_effects :: "history_effect list"

definition emit :: "history_effect list \<Rightarrow> ('t, 'e, 'o) history_drafts \<Rightarrow> ('t, 'e, 'o) history_drafts" where
  "emit es h = h\<lparr>hs_effects := hs_effects h @ es\<rparr>"

text \<open>The history itself for topic 0, else the forum topic if it exists.\<close>

definition threadFor :: "(msg_id \<Rightarrow> bool) \<Rightarrow> msg_id \<Rightarrow> bool" where
  "threadFor topics topicRootId \<longleftrightarrow> (topicRootId \<noteq> 0 \<longrightarrow> topics topicRootId)"

definition history_draft :: "draft_key \<Rightarrow> ('t, 'e, 'o) history_drafts \<Rightarrow> ('t, 'e) draft option" where
  "history_draft key h = (if key = 0 then None else fm_lookup (hs_drafts h) key)"

definition setDraft :: "(msg_id \<Rightarrow> bool) \<Rightarrow> draft_key \<Rightarrow> ('t, 'e) draft option
    \<Rightarrow> ('t, 'e, 'o) history_drafts \<Rightarrow> ('t, 'e, 'o) history_drafts" where
  "setDraft topics key d h =
     (if key = 0 then h
      else let topic = key_topicRootId key;
               cloudThread = (key_isCloud key \<and> threadFor topics topic);
               h1 = (if cloudThread then emit [ClearCloudDraftText topic] h else h)
           in case d of
                Some dr \<Rightarrow> h1\<lparr>hs_drafts := fm_set key dr (hs_drafts h1)\<rparr>
              | None \<Rightarrow> let h2 = h1\<lparr>hs_drafts := fm_erase key (hs_drafts h1)\<rparr>
                  in if fm_lookup (hs_drafts h1) key \<noteq> None \<and> cloudThread
                     then emit [UpdateSortPosition topic] h2 else h2)"

definition setDraftsMap :: "(draft_key, ('t, 'e) draft) flat_map
    \<Rightarrow> ('t, 'e, 'o) history_drafts \<Rightarrow> ('t, 'e, 'o) history_drafts" where
  "setDraftsMap m h = h\<lparr>hs_drafts := fold (\<lambda>(key, d) n. fm_set key d n) (hs_drafts h) m\<rparr>"

definition clearDraft :: "(msg_id \<Rightarrow> bool) \<Rightarrow> draft_key
    \<Rightarrow> ('t, 'e, 'o) history_drafts \<Rightarrow> ('t, 'e, 'o) history_drafts" where
  "clearDraft topics key = setDraft topics key None"

definition clearDrafts :: "(msg_id \<Rightarrow> bool) \<Rightarrow> ('t, 'e, 'o) history_drafts \<Rightarrow> ('t, 'e, 'o) history_drafts" where
  "clearDrafts topics h =
     fold (\<lambda>(key, d) n. if key_isCloud key \<and> threadFor topics (key_topicRootId key)
         then emit [ClearCloudDraftText (key_topicRootId key), UpdateSortPosition (key_topicRootId key)] n
         else n)
       (hs_drafts h) (h\<lparr>hs_drafts := []\<rparr>)"

definition localDraft :: "msg_id \<Rightarrow> ('t, 'e, 'o) history_drafts \<Rightarrow> ('t, 'e) draft option" where
  "localDraft topicRootId = history_draft (key_Local topicRootId)"

definition localEditDraft :: "msg_id \<Rightarrow> ('t, 'e, 'o) history_drafts \<Rightarrow> ('t, 'e) draft option" where
  "localEditDraft topicRootId = history_draft (key_LocalEdit topicRootId)"

definition cloudDraft :: "msg_id \<Rightarrow> ('t, 'e, 'o) history_drafts \<Rightarrow> ('t, 'e) draft option" where
  "cloudDraft topicRootId = history_draft (key_Cloud topicRootId)"

definition setLocalDraft :: "(msg_id \<Rightarrow> bool) \<Rightarrow> ('t, 'e) draft
    \<Rightarrow> ('t, 'e, 'o) history_drafts \<Rightarrow> ('t, 'e, 'o) history_drafts" where
  "setLocalDraft topics d = setDraft topics (key_Local (rt_topicRootId (dr_reply d))) (Some d)"

definition setLocalEditDraft :: "(msg_id \<Rightarrow> bool) \<Rightarrow> ('t, 'e) draft
    \<Rightarrow> ('t, 'e, 'o) history_drafts \<Rightarrow> ('t, 'e, 'o) history_drafts" where
  "setLocalEditDraft topics d = setDraft topics (key_LocalEdit (rt_topicRootId (dr_reply d))) (Some d)"

definition setCloudDraft :: "(msg_id \<Rightarrow> bool) \<Rightarrow> ('t, 'e) draft
    \<Rightarrow> ('t, 'e, 'o) history_drafts \<Rightarrow> ('t, 'e, 'o) history_drafts" where
  "setCloudDraft topics d = setDraft topics (key_Cloud (rt_topicRootId (dr_reply d))) (Some d)"

text \<open>Writing through a pointer into the map of drafts.\<close>

definition modify_draft :: "draft_key \<Rightarrow> (('t, 'e) draft \<Rightarrow> ('t, 'e) draft)
    \<Rightarrow> ('t, 'e, 'o) history_drafts \<Rightarrow> ('t, 'e, 'o) history_drafts" where
  "modify_draft key f h =
     (case fm_lookup (hs_drafts h) key of None \<Rightarrow> h
      | Some d \<Rightarrow> h\<lparr>hs_drafts := fm_set key (f d) (hs_drafts h)\<rparr>)"

definition copy_draft :: "('t, 'e) draft \<Rightarrow> ('t, 'e) draft \<Rightarrow> ('t, 'e) draft" where
  "copy_draft from d = d\<lparr>dr_text := dr_text from, dr_reply := dr_reply from,
     dr_cursor := dr_cursor from, dr_webpage := dr_webpage from\<rparr>"

definition set_draft_topic :: "msg_id \<Rightarrow> ('t, 'e) draft \<Rightarrow> ('t, 'e) draft" where
  "set_draft_topic topicRootId d = d\<lparr>dr_reply := (dr_reply d)\<lparr>rt_topicRootId := topicRootId\<rparr>\<rparr>"

text \<open>The local draft of another chat (a group that became a supergroup) moves to this one.\<close>

definition takeLocalDraft :: "(msg_id \<Rightarrow> bool) \<Rightarrow> ('t, 'e, 'o) history_drafts \<times> ('t, 'e, 'o) history_drafts
    \<Rightarrow> ('t, 'e, 'o) history_drafts \<times> ('t, 'e, 'o) history_drafts" where
  "takeLocalDraft topics hs =
     (let h = fst hs; from = snd hs
      in case fm_lookup (hs_drafts from) (key_Local 0) of None \<Rightarrow> (h, from)
         | Some d \<Rightarrow>
             (if tt_text (dr_text d) \<noteq> [] \<and> fm_lookup (hs_drafts h) (key_Local 0) = None
              then setLocalDraft topics (d\<lparr>dr_reply := empty_reply\<rparr>) h else h,
              emit [SaveDraftToCloudDelayed] (clearDraft topics (key_Local 0) from)))"

definition createLocalDraftFromCloud :: "(msg_id \<Rightarrow> bool) \<Rightarrow> (16 word \<Rightarrow> bool) \<Rightarrow> msg_id
    \<Rightarrow> ('t, 'e, 'o) history_drafts \<Rightarrow> ('t, 'e, 'o) history_drafts" where
  "createLocalDraftFromCloud topics isSpace topicRootId h =
     (case cloudDraft topicRootId h of
        None \<Rightarrow> clearDraft topics (key_Local topicRootId) h
      | Some d \<Rightarrow>
          if DraftIsNull isSpace (Some d) \<or> dr_date d = 0 then h
          else let h1 = modify_draft (key_Cloud topicRootId) (set_draft_topic topicRootId) h;
                   dr = set_draft_topic topicRootId d;
                   existing = localDraft topicRootId h1
               in if DraftIsNull isSpace existing \<or> dr_date (the existing) = 0
                     \<or> dr_date dr \<ge> dr_date (the existing)
                  then let h2 = (if existing = None
                         then setLocalDraft topics (new_draft (dr_text dr) (dr_reply dr) (dr_cursor dr) (dr_webpage dr) 0) h1
                         else modify_draft (key_Local topicRootId) (copy_draft dr) h1)
                       in modify_draft (key_Local topicRootId) (\<lambda>e. e\<lparr>dr_date := dr_date dr\<rparr>) h2
                  else h1)"

text \<open>
  \<open>None\<close> is the dereference of a null pointer. The draft is given by value: the code skips the
  copy when it is the cloud draft itself, and then the copy would change nothing.
\<close>

definition createCloudDraft :: "(msg_id \<Rightarrow> bool) \<Rightarrow> (16 word \<Rightarrow> bool) \<Rightarrow> int \<Rightarrow> int \<Rightarrow> msg_id
    \<Rightarrow> ('t, 'e) draft option \<Rightarrow> ('t, 'e, 'o) history_drafts \<Rightarrow> ('t, 'e, 'o) history_drafts option" where
  "createCloudDraft topics isSpace qFixedMax now topicRootId fromDraft h =
     (let key = key_Cloud topicRootId;
          h1 = (if DraftIsNull isSpace fromDraft
            then modify_draft key (\<lambda>d. d\<lparr>dr_date := 0\<rparr>)
              (setCloudDraft topics (new_draft \<lparr>tt_text = [], tt_tags = []\<rparr>
                 (empty_reply\<lparr>rt_topicRootId := topicRootId\<rparr>) (empty_cursor qFixedMax) empty_web_page 0) h)
            else let from = the fromDraft;
                     h2 = (if cloudDraft topicRootId h = None
                       then setCloudDraft topics (new_draft (dr_text from)
                         ((dr_reply from)\<lparr>rt_topicRootId := topicRootId\<rparr>) (dr_cursor from) (dr_webpage from) 0) h
                       else modify_draft key (copy_draft from) h)
                 in modify_draft key (\<lambda>d. set_draft_topic topicRootId (d\<lparr>dr_date := now\<rparr>)) h2)
      in if cloudDraft topicRootId h1 = None then None
         else Some (if threadFor topics topicRootId
           then emit [ClearCloudDraftText topicRootId, UpdateSortPosition topicRootId] h1 else h1))"

definition kSkipCloudDraftsFor :: int where
  "kSkipCloudDraftsFor = 2"

definition skipCloudDraftUpdate :: "msg_id \<Rightarrow> int \<Rightarrow> ('t, 'e, 'o) history_drafts \<Rightarrow> bool" where
  "skipCloudDraftUpdate topicRootId date h \<longleftrightarrow>
     fm_lookup (hs_saving h) topicRootId \<noteq> None
     \<or> (case fm_lookup (hs_acceptAfter h) topicRootId of None \<Rightarrow> False | Some after \<Rightarrow> date < after)"

definition startSavingCloudDraft :: "msg_id \<Rightarrow> ('t, 'e, 'o) history_drafts \<Rightarrow> ('t, 'e, 'o) history_drafts" where
  "startSavingCloudDraft topicRootId h =
     h\<lparr>hs_saving := fm_set topicRootId
       ((case fm_lookup (hs_saving h) topicRootId of None \<Rightarrow> 0 | Some n \<Rightarrow> n) + 1) (hs_saving h)\<rparr>"

definition finishSavingCloudDraft :: "msg_id \<Rightarrow> int \<Rightarrow> ('t, 'e, 'o) history_drafts
    \<Rightarrow> ('t, 'e, 'o) history_drafts" where
  "finishSavingCloudDraft topicRootId savedAt h =
     (let saving = (case fm_lookup (hs_saving h) topicRootId of None \<Rightarrow> hs_saving h
            | Some n \<Rightarrow> if n - 1 \<le> 0 then fm_erase topicRootId (hs_saving h)
                else fm_set topicRootId (n - 1) (hs_saving h));
          after = (case fm_lookup (hs_acceptAfter h) topicRootId of None \<Rightarrow> 0 | Some a \<Rightarrow> a)
      in h\<lparr>hs_saving := saving,
           hs_acceptAfter := fm_set topicRootId (max after (savedAt + kSkipCloudDraftsFor)) (hs_acceptAfter h)\<rparr>)"

definition applyCloudDraft :: "(msg_id \<Rightarrow> bool) \<Rightarrow> (16 word \<Rightarrow> bool) \<Rightarrow> bool \<Rightarrow> msg_id
    \<Rightarrow> ('t, 'e, 'o) history_drafts \<Rightarrow> ('t, 'e, 'o) history_drafts" where
  "applyCloudDraft topics isSpace supportMode topicRootId h =
     (if topicRootId = 0 \<and> supportMode then emit [UpdateChatListEntry 0, SupportCloudDraftChanged] h
      else let h1 = createLocalDraftFromCloud topics isSpace topicRootId h
           in if threadFor topics topicRootId
              then emit [UpdateSortPosition topicRootId,
                if topicRootId = 0 then HistoryCloudDraftUpdated else TopicCloudDraftUpdated topicRootId] h1
              else h1)"

definition draftSavedToCloud :: "(msg_id \<Rightarrow> bool) \<Rightarrow> msg_id
    \<Rightarrow> ('t, 'e, 'o) history_drafts \<Rightarrow> ('t, 'e, 'o) history_drafts" where
  "draftSavedToCloud topics topicRootId h =
     emit [WriteDrafts] (if threadFor topics topicRootId then emit [UpdateChatListEntry topicRootId] h else h)"

definition forwardDraft :: "'o \<Rightarrow> msg_id \<Rightarrow> ('t, 'e, 'o) history_drafts \<Rightarrow> 'o forward_draft" where
  "forwardDraft preserveInfo topicRootId h =
     (case fm_lookup (hs_forward h) topicRootId of
        None \<Rightarrow> \<lparr>fd_ids = [], fd_options = preserveInfo\<rparr> | Some d \<Rightarrow> d)"

text \<open>\<open>now\<close> is default-constructed when there is no entry.\<close>

definition setForwardDraft :: "(msg_id \<Rightarrow> bool) \<Rightarrow> 'o \<Rightarrow> msg_id \<Rightarrow> 'o forward_draft
    \<Rightarrow> ('t, 'e, 'o) history_drafts \<Rightarrow> ('t, 'e, 'o) history_drafts" where
  "setForwardDraft topics preserveInfo topicRootId d h =
     (let changed = (if fd_ids d = [] then fm_lookup (hs_forward h) topicRootId \<noteq> None
            else forwardDraft preserveInfo topicRootId h \<noteq> d);
          h1 = h\<lparr>hs_forward := (if fd_ids d = [] then fm_erase topicRootId (hs_forward h)
            else fm_set topicRootId d (hs_forward h))\<rparr>
      in if changed \<and> threadFor topics topicRootId then emit [ForwardDraftUpdated topicRootId] h1 else h1)"

text \<open>
  The items of a forward draft that still exist: \<open>exists\<close> says which ids \<open>idsToItems\<close> finds;
  the items are given by their ids.
\<close>

definition resolveForwardDraft :: "(msg_id \<Rightarrow> bool) \<Rightarrow> 'o \<Rightarrow> (full_msg_id \<Rightarrow> bool) \<Rightarrow> msg_id
    \<Rightarrow> ('t, 'e, 'o) history_drafts \<Rightarrow> 'o forward_draft \<times> ('t, 'e, 'o) history_drafts" where
  "resolveForwardDraft topics preserveInfo exists topicRootId h =
     (let d = forwardDraft preserveInfo topicRootId h;
          result = d\<lparr>fd_ids := filter exists (fd_ids d)\<rparr>
      in (result, if length (fd_ids result) \<noteq> length (fd_ids d)
            then setForwardDraft topics preserveInfo topicRootId result h else h))"

subsection \<open>Drafts from the server\<close>

record mtp_web_page =
  mw_failed :: bool
  mw_id :: "64 word"
  mw_url :: qstring
  mw_forceLargeMedia :: bool
  mw_forceSmallMedia :: bool
  mw_manual :: bool

record ('t, 'e) mtp_draft =
  md_date :: int
  md_text :: "'t text_with_tags"
  md_reply :: "'e full_reply_to option"
  md_invert_media :: bool
  md_no_webpage :: bool
  md_media :: "mtp_web_page option"

definition draft_webpage :: "('t, 'e) mtp_draft \<Rightarrow> web_page_draft" where
  "draft_webpage d =
     (let w = empty_web_page\<lparr>wd_invert := md_invert_media d, wd_removed := md_no_webpage d\<rparr>
      in case md_media d of None \<Rightarrow> w
         | Some p \<Rightarrow> if mw_failed p then w
             else w\<lparr>wd_forceLargeMedia := mw_forceLargeMedia p, wd_forceSmallMedia := mw_forceSmallMedia p,
                    wd_manual := mw_manual p, wd_url := mw_url p, wd_id := mw_id p\<rparr>)"

definition ApplyPeerCloudDraft :: "(msg_id \<Rightarrow> bool) \<Rightarrow> (16 word \<Rightarrow> bool) \<Rightarrow> int \<Rightarrow> bool \<Rightarrow> msg_id
    \<Rightarrow> ('t, 'e) mtp_draft \<Rightarrow> ('t, 'e, 'o) history_drafts \<Rightarrow> ('t, 'e, 'o) history_drafts" where
  "ApplyPeerCloudDraft topics isSpace qFixedMax supportMode topicRootId d h =
     (if skipCloudDraftUpdate topicRootId (md_date d) h then h
      else let replyTo = (case md_reply d of None \<Rightarrow> empty_reply | Some r \<Rightarrow> r)\<lparr>rt_topicRootId := topicRootId\<rparr>;
               cloud = (new_draft (md_text d) replyTo
                 \<lparr>mc_position = qFixedMax, mc_anchor = qFixedMax, mc_scroll = qFixedMax\<rparr>
                 (draft_webpage d) 0)\<lparr>dr_date := md_date d\<rparr>
           in applyCloudDraft topics isSpace supportMode topicRootId (setCloudDraft topics cloud h))"

definition ClearPeerCloudDraft :: "(msg_id \<Rightarrow> bool) \<Rightarrow> (16 word \<Rightarrow> bool) \<Rightarrow> bool \<Rightarrow> msg_id \<Rightarrow> int
    \<Rightarrow> ('t, 'e, 'o) history_drafts \<Rightarrow> ('t, 'e, 'o) history_drafts" where
  "ClearPeerCloudDraft topics isSpace supportMode topicRootId date h =
     (if skipCloudDraftUpdate topicRootId date h then h
      else applyCloudDraft topics isSpace supportMode topicRootId
        (clearDraft topics (key_Cloud topicRootId) h))"

subsection \<open>What the keys stand for\<close>

datatype draft_slot =
    SlotLocal msg_id
  | SlotLocalEdit msg_id
  | SlotCloud msg_id
  | SlotScheduled
  | SlotScheduledEdit
  | SlotShortcut int
  | SlotShortcutEdit int

fun slot_key :: "draft_slot \<Rightarrow> draft_key" where
  "slot_key (SlotLocal t) = key_Local t"
| "slot_key (SlotLocalEdit t) = key_LocalEdit t"
| "slot_key (SlotCloud t) = key_Cloud t"
| "slot_key SlotScheduled = key_Scheduled"
| "slot_key SlotScheduledEdit = key_ScheduledEdit"
| "slot_key (SlotShortcut s) = key_Shortcut s"
| "slot_key (SlotShortcutEdit s) = key_ShortcutEdit s"

text \<open>Topics up to three below the largest server id, shortcuts of any \<open>int32\<close>.\<close>

fun slot_ok :: "draft_slot \<Rightarrow> bool" where
  "slot_ok (SlotLocal t) \<longleftrightarrow> 0 \<le> t \<and> t < ServerMaxMsgId - 3"
| "slot_ok (SlotLocalEdit t) \<longleftrightarrow> 0 \<le> t \<and> t < ServerMaxMsgId - 3"
| "slot_ok (SlotCloud t) \<longleftrightarrow> 0 \<le> t \<and> t < ServerMaxMsgId - 3"
| "slot_ok SlotScheduled \<longleftrightarrow> True"
| "slot_ok SlotScheduledEdit \<longleftrightarrow> True"
| "slot_ok (SlotShortcut s) \<longleftrightarrow> 0 \<le> s \<and> s < 2 ^ 31"
| "slot_ok (SlotShortcutEdit s) \<longleftrightarrow> 0 \<le> s \<and> s < 2 ^ 31"

lemmas key_defs = key_None_def key_Local_def key_LocalEdit_def key_Cloud_def key_Scheduled_def
  key_ScheduledEdit_def key_Shortcut_def key_ShortcutEdit_def kLocalDraftIndex_def kCloudDraftIndex_def
  kScheduledDraftIndex_def kEditDraftShift_def kCloudDraftShift_def kShortcutDraftShift_def
  ServerMaxMsgId_def

lemma slot_key_inj: "slot_ok s \<Longrightarrow> slot_ok u \<Longrightarrow> slot_key s = slot_key u \<Longrightarrow> s = u"
  by (cases s; cases u) (auto simp: key_defs split: if_splits)

lemma slot_key_not_none: "slot_ok s \<Longrightarrow> slot_key s \<noteq> 0"
  by (cases s) (auto simp: key_defs)

lemma slot_key_isCloud: "slot_ok s \<Longrightarrow> key_isCloud (slot_key s) \<longleftrightarrow> (\<exists>t. s = SlotCloud t)"
  by (cases s) (auto simp: key_defs key_isCloud_def)

lemma slot_key_isLocal:
  "slot_ok s \<Longrightarrow> key_isLocal (slot_key s) \<longleftrightarrow>
     (\<exists>t. s = SlotLocal t) \<or> s = SlotLocalEdit 0 \<or> s = SlotScheduledEdit"
  by (cases s) (auto simp: key_defs key_isLocal_def)

lemma slot_key_topic:
  "slot_ok s \<Longrightarrow> (case s of SlotLocal t \<Rightarrow> key_topicRootId (slot_key s) = t
     | SlotCloud t \<Rightarrow> key_topicRootId (slot_key s) = t
     | SlotLocalEdit t \<Rightarrow> key_topicRootId (slot_key s) = (if t = 0 then ServerMaxMsgId - 1 else t)
     | _ \<Rightarrow> True)"
  by (cases s) (auto simp: key_defs key_topicRootId_def)

lemma local_cloud_keys:
  "0 \<le> t \<Longrightarrow> t < ServerMaxMsgId \<Longrightarrow> key_Local t \<noteq> 0 \<and> key_Cloud t \<noteq> 0 \<and> key_Local t \<noteq> key_Cloud t"
  by (auto simp: key_defs)

subsection \<open>The map of drafts\<close>

definition drafts_ok :: "('t, 'e, 'o) history_drafts \<Rightarrow> bool" where
  "drafts_ok h \<longleftrightarrow> fm_sorted (hs_drafts h)"

lemma emit_simps [simp]:
  "hs_drafts (emit es h) = hs_drafts h" "hs_acceptAfter (emit es h) = hs_acceptAfter h"
  "hs_saving (emit es h) = hs_saving h" "hs_forward (emit es h) = hs_forward h"
  by (simp_all add: emit_def)

lemma setDraft_map:
  "hs_drafts (setDraft topics key d h) =
     (if key = 0 then hs_drafts h
      else case d of Some dr \<Rightarrow> fm_set key dr (hs_drafts h) | None \<Rightarrow> fm_erase key (hs_drafts h))"
  by (simp add: setDraft_def Let_def split: option.split)

lemma setDraft_lookup:
  assumes "drafts_ok h"
  shows "history_draft k (setDraft topics key d h) = (if k = key \<and> k \<noteq> 0 then d else history_draft k h)"
    and "drafts_ok (setDraft topics key d h)"
  using assms
  by (auto simp: history_draft_def setDraft_map drafts_ok_def fm_lookup_set fm_lookup_erase
      sorted_fm_set sorted_fm_erase split: option.splits)

lemma modify_draft_lookup:
  assumes "drafts_ok h"
  shows "history_draft k (modify_draft key f h)
      = (if k = key then map_option f (history_draft k h) else history_draft k h)"
    and "drafts_ok (modify_draft key f h)"
  using assms
  by (auto simp: history_draft_def modify_draft_def drafts_ok_def fm_lookup_set sorted_fm_set
      split: option.splits)

lemma history_draft_emit [simp]: "history_draft k (emit es h) = history_draft k h"
  by (simp add: history_draft_def)

lemma drafts_ok_emit [simp]: "drafts_ok (emit es h) = drafts_ok h"
  by (simp add: drafts_ok_def)

text \<open>What the local draft becomes when the cloud draft is \<open>c\<close>.\<close>

definition merged_local :: "(16 word \<Rightarrow> bool) \<Rightarrow> ('t, 'e) draft \<Rightarrow> ('t, 'e) draft option
    \<Rightarrow> ('t, 'e) draft option" where
  "merged_local isSpace c existing =
     (if DraftIsNull isSpace (Some c) \<or> dr_date c = 0 then existing
      else if DraftIsNull isSpace existing \<or> dr_date (the existing) = 0 \<or> dr_date c \<ge> dr_date (the existing)
      then Some (c\<lparr>dr_saveRequestId := (case existing of None \<Rightarrow> 0 | Some e \<Rightarrow> dr_saveRequestId e)\<rparr>)
      else existing)"

lemma copy_draft_date: "(copy_draft c e)\<lparr>dr_date := dr_date c\<rparr> = c\<lparr>dr_saveRequestId := dr_saveRequestId e\<rparr>"
  by (simp add: copy_draft_def)

lemma new_draft_date:
  "(new_draft (dr_text c) (dr_reply c) (dr_cursor c) (dr_webpage c) 0)\<lparr>dr_date := dr_date c\<rparr>
     = c\<lparr>dr_saveRequestId := 0\<rparr>"
  by (simp add: new_draft_def)

lemma set_draft_topic_same: "rt_topicRootId (dr_reply c) = t \<Longrightarrow> set_draft_topic t c = c"
  by (simp add: set_draft_topic_def)

lemma createLocalDraftFromCloud_lookup:
  fixes topics :: "msg_id \<Rightarrow> bool" and isSpace :: "16 word \<Rightarrow> bool"
  assumes ok: "drafts_ok h" and t: "0 \<le> t" "t < ServerMaxMsgId"
    and c: "cloudDraft t h = Some c" "rt_topicRootId (dr_reply c) = t"
  defines "h' \<equiv> createLocalDraftFromCloud topics isSpace t h"
  shows "history_draft k h' = (if k = key_Local t then merged_local isSpace c (localDraft t h) else history_draft k h)"
    and "drafts_ok h'"
proof -
  note keys = local_cloud_keys[OF t]
  have c': "history_draft (key_Cloud t) h = Some c" using c(1) by (simp add: cloudDraft_def)
  have "(history_draft k h' = (if k = key_Local t then merged_local isSpace c (localDraft t h) else history_draft k h))
    \<and> drafts_ok h'"
  proof (cases "DraftIsNull isSpace (Some c) \<or> dr_date c = 0")
    case True
    then show ?thesis using ok c(1)
      by (simp add: h'_def createLocalDraftFromCloud_def merged_local_def localDraft_def)
  next
    case False
    define h1 where "h1 = modify_draft (key_Cloud t) (set_draft_topic t) h"
    have h1: "history_draft k h1 = history_draft k h" "drafts_ok h1" for k
      using modify_draft_lookup[OF ok] c' set_draft_topic_same[OF c(2)] by (auto simp: h1_def)
    have ex: "localDraft t h1 = localDraft t h" by (simp add: localDraft_def h1)
    show ?thesis
    proof (cases "DraftIsNull isSpace (localDraft t h) \<or> dr_date (the (localDraft t h)) = 0
        \<or> dr_date c \<ge> dr_date (the (localDraft t h))")
      case old: False
      then have "h' = h1" using False c(1) set_draft_topic_same[OF c(2)] ex
        by (simp add: h'_def createLocalDraftFromCloud_def Let_def h1_def)
      then show ?thesis using old False h1 by (simp add: merged_local_def localDraft_def)
    next
      case new: True
      define h2 where "h2 = (if localDraft t h = None
        then setLocalDraft topics (new_draft (dr_text c) (dr_reply c) (dr_cursor c) (dr_webpage c) 0) h1
        else modify_draft (key_Local t) (copy_draft c) h1)"
      have eq: "h' = modify_draft (key_Local t) (\<lambda>e. e\<lparr>dr_date := dr_date c\<rparr>) h2"
        using False new c(1) set_draft_topic_same[OF c(2)] ex
        by (simp add: h'_def createLocalDraftFromCloud_def Let_def h1_def h2_def)
      have m: "merged_local isSpace c (localDraft t h)
          = Some (c\<lparr>dr_saveRequestId := (case localDraft t h of None \<Rightarrow> 0 | Some e \<Rightarrow> dr_saveRequestId e)\<rparr>)"
        using False new by (simp add: merged_local_def)
      show ?thesis
      proof (cases "localDraft t h")
        case None
        then have h2': "h2 = setDraft topics (key_Local t)
            (Some (new_draft (dr_text c) (dr_reply c) (dr_cursor c) (dr_webpage c) 0)) h1"
          using c(2) by (simp add: h2_def setLocalDraft_def new_draft_def)
        have "drafts_ok h2" unfolding h2' by (rule setDraft_lookup(2)[OF h1(2)])
        then show ?thesis
          unfolding eq using keys None
          by (simp add: modify_draft_lookup h2' setDraft_lookup h1 m[unfolded None] new_draft_date)
      next
        case (Some e)
        then have h2': "h2 = modify_draft (key_Local t) (copy_draft c) h1" by (simp add: h2_def)
        have "drafts_ok h2" unfolding h2' by (rule modify_draft_lookup(2)[OF h1(2)])
        then show ?thesis
          unfolding eq using keys Some Some[unfolded localDraft_def]
          by (simp add: modify_draft_lookup h2' h1 m[unfolded Some] copy_draft_date)
      qed
    qed
  qed
  then show "history_draft k h' = (if k = key_Local t then merged_local isSpace c (localDraft t h) else history_draft k h)"
    and "drafts_ok h'" by blast+
qed

text \<open>The draft that \<open>ApplyPeerCloudDraft\<close> makes of a draft of the server.\<close>

definition server_draft :: "int \<Rightarrow> msg_id \<Rightarrow> ('t, 'e) mtp_draft \<Rightarrow> ('t, 'e) draft" where
  "server_draft qFixedMax t d = \<lparr>dr_date = md_date d, dr_text = md_text d,
     dr_reply = (case md_reply d of None \<Rightarrow> empty_reply | Some r \<Rightarrow> r)\<lparr>rt_topicRootId := t\<rparr>,
     dr_cursor = \<lparr>mc_position = qFixedMax, mc_anchor = qFixedMax, mc_scroll = qFixedMax\<rparr>,
     dr_webpage = draft_webpage d, dr_saveRequestId = 0\<rparr>"

lemma ApplyPeerCloudDraft_lookup:
  fixes topics :: "msg_id \<Rightarrow> bool" and isSpace :: "16 word \<Rightarrow> bool" and qFixedMax :: int
  assumes ok: "drafts_ok h" and t: "0 \<le> t" "t < ServerMaxMsgId"
    and acc: "\<not> skipCloudDraftUpdate t (md_date d) h" "t \<noteq> 0 \<or> \<not> supportMode"
  defines "h' \<equiv> ApplyPeerCloudDraft topics isSpace qFixedMax supportMode t d h"
  shows "history_draft k h' = (if k = key_Cloud t then Some (server_draft qFixedMax t d)
      else if k = key_Local t then merged_local isSpace (server_draft qFixedMax t d) (localDraft t h)
      else history_draft k h)"
    and "drafts_ok h'"
proof -
  note keys = local_cloud_keys[OF t]
  let ?c = "server_draft qFixedMax t d"
  define h1 where "h1 = setDraft topics (key_Cloud t) (Some ?c) h"
  have ok1: "drafts_ok h1" unfolding h1_def by (rule setDraft_lookup(2)[OF ok])
  have look: "history_draft k h1 = (if k = key_Cloud t then Some ?c else history_draft k h)" for k
    using keys by (auto simp: h1_def setDraft_lookup[OF ok])
  have "setCloudDraft topics ?c h = h1" by (simp add: setCloudDraft_def h1_def server_draft_def)
  then have eq: "h' = applyCloudDraft topics isSpace supportMode t h1"
    using acc(1) by (simp add: h'_def ApplyPeerCloudDraft_def Let_def server_draft_def new_draft_def)
  have c: "cloudDraft t h1 = Some ?c" "rt_topicRootId (dr_reply ?c) = t"
    by (simp_all add: cloudDraft_def look server_draft_def)
  note L = createLocalDraftFromCloud_lookup[OF ok1 t c, where topics = topics and isSpace = isSpace]
  have loc: "localDraft t h1 = localDraft t h" using keys by (simp add: localDraft_def look)
  show "history_draft k h' = (if k = key_Cloud t then Some ?c
      else if k = key_Local t then merged_local isSpace ?c (localDraft t h) else history_draft k h)"
    and "drafts_ok h'"
    using acc(2) keys L loc unfolding eq by (auto simp: applyCloudDraft_def Let_def look)
qed

subsection \<open>Saving drafts to the server\<close>

text \<open>The requests that save drafts, as they start and finish in time.\<close>

datatype saving_event = SavingStarted msg_id | SavingFinished msg_id int

fun saving_step :: "saving_event \<Rightarrow> ('t, 'e, 'o) history_drafts \<Rightarrow> ('t, 'e, 'o) history_drafts" where
  "saving_step (SavingStarted t) = startSavingCloudDraft t"
| "saving_step (SavingFinished t savedAt) = finishSavingCloudDraft t savedAt"

definition new_history_drafts :: "('t, 'e, 'o) history_drafts" where
  "new_history_drafts = \<lparr>hs_drafts = [], hs_acceptAfter = [], hs_saving = [], hs_forward = [], hs_effects = []\<rparr>"

text \<open>The requests of a topic that are under way after a sequence of events.\<close>

fun in_flight :: "msg_id \<Rightarrow> saving_event list \<Rightarrow> nat \<Rightarrow> nat" where
  "in_flight t [] n = n"
| "in_flight t (SavingStarted u # es) n = in_flight t es (if u = t then Suc n else n)"
| "in_flight t (SavingFinished u s # es) n = in_flight t es (if u = t then n - 1 else n)"

definition saved_times :: "msg_id \<Rightarrow> saving_event list \<Rightarrow> int list" where
  "saved_times t es = concat (map (\<lambda>e. case e of SavingFinished u s \<Rightarrow> if u = t then [s] else [] | _ \<Rightarrow> []) es)"

definition count_of :: "nat \<Rightarrow> int option" where
  "count_of n = (if n = 0 then None else Some (int n))"

definition after_of :: "int option \<Rightarrow> int list \<Rightarrow> int option" where
  "after_of a ss = (if ss = [] then a
     else Some (fold (\<lambda>s m. max m (s + kSkipCloudDraftsFor)) ss (case a of None \<Rightarrow> 0 | Some x \<Rightarrow> x)))"

lemma saved_times_simps [simp]:
  "saved_times t [] = []"
  "saved_times t (SavingStarted u # es) = saved_times t es"
  "saved_times t (SavingFinished u s # es) = (if u = t then s # saved_times t es else saved_times t es)"
  by (simp_all add: saved_times_def)

lemma after_of_Nil [simp]: "after_of a [] = a"
  by (simp add: after_of_def)

lemma after_of_Cons: "after_of (after_of a [s]) ss = after_of a (s # ss)"
  by (simp add: after_of_def)

lemma saving_run:
  "fm_sorted (hs_saving h) \<Longrightarrow> fm_sorted (hs_acceptAfter h) \<Longrightarrow> fm_lookup (hs_saving h) t = count_of n \<Longrightarrow>
   fm_lookup (hs_saving (fold saving_step es h)) t = count_of (in_flight t es n)
   \<and> fm_lookup (hs_acceptAfter (fold saving_step es h)) t
      = after_of (fm_lookup (hs_acceptAfter h) t) (saved_times t es)"
proof (induction es arbitrary: h n)
  case Nil
  then show ?case by simp
next
  case (Cons e es)
  show ?case
  proof (cases e)
    case (SavingStarted u)
    let ?h = "startSavingCloudDraft u h"
    have "fm_sorted (hs_saving ?h)" "fm_sorted (hs_acceptAfter ?h)"
      using Cons.prems by (simp_all add: startSavingCloudDraft_def sorted_fm_set)
    moreover have "fm_lookup (hs_saving ?h) t = count_of (if u = t then Suc n else n)"
      using Cons.prems by (auto simp: startSavingCloudDraft_def fm_lookup_set count_of_def)
    ultimately show ?thesis
      using Cons.IH[of ?h] by (simp add: SavingStarted startSavingCloudDraft_def)
  next
    case (SavingFinished u s)
    let ?h = "finishSavingCloudDraft u s h"
    have "fm_sorted (hs_saving ?h)" "fm_sorted (hs_acceptAfter ?h)"
      using Cons.prems
      by (auto simp: finishSavingCloudDraft_def Let_def sorted_fm_set sorted_fm_erase split: option.split)
    moreover have "fm_lookup (hs_saving ?h) t = count_of (if u = t then n - 1 else n)"
      using Cons.prems
      by (auto simp: finishSavingCloudDraft_def Let_def fm_lookup_set fm_lookup_erase count_of_def
          split: option.split)
    moreover have "fm_lookup (hs_acceptAfter ?h) t = (if u = t
        then after_of (fm_lookup (hs_acceptAfter h) t) [s] else fm_lookup (hs_acceptAfter h) t)"
      using Cons.prems by (simp add: finishSavingCloudDraft_def Let_def fm_lookup_set after_of_def)
    ultimately show ?thesis
      using Cons.IH[of ?h "if u = t then n - 1 else n"]
      by (simp add: SavingFinished after_of_Cons)
  qed
qed

lemma fold_max_less:
  fixes d a :: int
  shows "d < fold (\<lambda>s m. max m (s + k)) ss a \<longleftrightarrow> d < a \<or> (\<exists>s \<in> set ss. d < s + k)"
proof (induction ss arbitrary: a)
  case (Cons s ss)
  show ?case using Cons.IH[of "max a (s + k)"] by (auto simp: less_max_iff_disj)
qed simp

subsection \<open>Properties\<close>

text \<open>
  the keys of the local drafts, edits, cloud drafts, scheduled drafts and shortcuts of all
  topics are different numbers, none of them the empty key; a key tells whether it is a cloud
  draft and, but for the edit draft of the chat itself, which topic it is of. It tells local drafts
  except that it takes the edit drafts of the chat and of the scheduled section for local drafts.
\<close>

theorem draft_keys_distinct:
  "inj_on slot_key {s. slot_ok s} \<and> (\<forall>s. slot_ok s \<longrightarrow> slot_key s \<noteq> key_None
     \<and> key_FromSerialized (key_serialize (slot_key s)) = slot_key s
     \<and> (key_isCloud (slot_key s) \<longleftrightarrow> (\<exists>t. s = SlotCloud t))
     \<and> (key_isLocal (slot_key s) \<longleftrightarrow> (\<exists>t. s = SlotLocal t) \<or> s = SlotLocalEdit 0 \<or> s = SlotScheduledEdit)
     \<and> (case s of SlotLocal t \<Rightarrow> key_topicRootId (slot_key s) = t
        | SlotCloud t \<Rightarrow> key_topicRootId (slot_key s) = t
        | SlotLocalEdit t \<Rightarrow> key_topicRootId (slot_key s) = (if t = 0 then ServerMaxMsgId - 1 else t)
        | _ \<Rightarrow> True))"
  using slot_key_not_none slot_key_isCloud slot_key_isLocal slot_key_topic
  by (auto simp: inj_on_def slot_key_inj key_None_def key_FromSerialized_def key_serialize_def)

theorem draft_keys_distinct_witness: "key_isLocal (key_LocalEdit 0)"
proof -
  have "slot_ok (SlotLocalEdit 0)" by (simp add: ServerMaxMsgId_def)
  then have "key_isLocal (slot_key (SlotLocalEdit 0))" using draft_keys_distinct by blast
  then show ?thesis by simp
qed

text \<open>
  C20: a draft from the server that is not skipped becomes the cloud draft of its topic; the
  local draft becomes a copy of it, unless the server's draft is empty or undated, or the local
  one is neither empty nor undated nor older; no other draft changes.
\<close>

theorem cloud_draft_applied:
  assumes "drafts_ok h" "0 \<le> t" "t < ServerMaxMsgId"
    "\<not> skipCloudDraftUpdate t (md_date d) h" "t \<noteq> 0 \<or> \<not> supportMode"
  shows "let h' = ApplyPeerCloudDraft topics isSpace qFixedMax supportMode t d h;
             c = server_draft qFixedMax t d; old = localDraft t h
    in cloudDraft t h' = Some c
      \<and> localDraft t h' = (if \<not> DraftIsNull isSpace (Some c) \<and> dr_date c \<noteq> 0
          \<and> (DraftIsNull isSpace old \<or> dr_date (the old) = 0 \<or> dr_date (the old) \<le> dr_date c)
        then Some (c\<lparr>dr_saveRequestId := (case old of None \<Rightarrow> 0 | Some e \<Rightarrow> dr_saveRequestId e)\<rparr>) else old)
      \<and> (\<forall>k. k \<noteq> key_Cloud t \<and> k \<noteq> key_Local t \<longrightarrow> history_draft k h' = history_draft k h)
      \<and> drafts_ok h'"
  using local_cloud_keys[OF assms(2,3)] ApplyPeerCloudDraft_lookup[OF assms]
  by (auto simp: Let_def cloudDraft_def localDraft_def merged_local_def)

theorem cloud_draft_applied_witness:
  "cloudDraft 5 (ApplyPeerCloudDraft (\<lambda>t. t = 5) (\<lambda>c. c = 32) 100 False 5
      \<lparr>md_date = 7, md_text = \<lparr>tt_text = [65], tt_tags = []\<rparr>, md_reply = None,
       md_invert_media = False, md_no_webpage = False, md_media = None\<rparr>
      (new_history_drafts :: (unit, unit, unit) history_drafts))
    = Some (server_draft 100 5 \<lparr>md_date = 7, md_text = \<lparr>tt_text = [65], tt_tags = []\<rparr>, md_reply = None,
       md_invert_media = False, md_no_webpage = False, md_media = None\<rparr>)"
proof -
  have "drafts_ok (new_history_drafts :: (unit, unit, unit) history_drafts)"
    "\<not> skipCloudDraftUpdate 5 7 (new_history_drafts :: (unit, unit, unit) history_drafts)"
    by (simp_all add: drafts_ok_def new_history_drafts_def skipCloudDraftUpdate_def)
  then show ?thesis
    using cloud_draft_applied[of "new_history_drafts :: (unit, unit, unit) history_drafts" 5 "\<lparr>md_date = 7, md_text = \<lparr>tt_text = [65], tt_tags = []\<rparr>,
      md_reply = None, md_invert_media = False, md_no_webpage = False, md_media = None\<rparr>" False]
    by (simp add: Let_def ServerMaxMsgId_def)
qed

text \<open>
  C30: an update of a topic's draft is skipped exactly while a request that saves the draft is
  under way, and if it is dated before two seconds after the time some request saved it at
  (or has a negative date once one was saved). So once every request has finished, an update
  dated two seconds after the last of them is accepted.
\<close>

theorem saving_draft_skips_updates:
  "skipCloudDraftUpdate t date (fold saving_step es (new_history_drafts :: ('t, 'e, 'o) history_drafts))
     \<longleftrightarrow> in_flight t es 0 > 0
       \<or> saved_times t es \<noteq> [] \<and> (date < 0 \<or> (\<exists>s \<in> set (saved_times t es). date < s + kSkipCloudDraftsFor))"
proof -
  have "fm_lookup (hs_saving (fold saving_step es (new_history_drafts :: ('t, 'e, 'o) history_drafts))) t
      = count_of (in_flight t es 0)
    \<and> fm_lookup (hs_acceptAfter (fold saving_step es (new_history_drafts :: ('t, 'e, 'o) history_drafts))) t
      = after_of None (saved_times t es)"
    using saving_run[of "new_history_drafts :: ('t, 'e, 'o) history_drafts" t 0 es]
    by (simp add: new_history_drafts_def count_of_def)
  then show ?thesis
    using fold_max_less[of date kSkipCloudDraftsFor "saved_times t es" 0]
    by (simp add: skipCloudDraftUpdate_def count_of_def after_of_def)
qed

end
