(* ===== verification/Slices.thy ===== *)
theory Slices
  imports Prelude
begin

text \<open>
  Lists of loaded slices: a slice is a range in which every message id is known, with the
  ids in it; a list of slices is kept sorted by the start of the range. The code has this
  algorithm twice, as \<open>Storage::SparseIdsList\<close> (message ids) and as \<open>Data::MessagesList\<close>
  (message positions); here it is written once over any linear order, from
  \<open>storage/storage_sparse_ids_list.cpp\<close>, and both components use it.
  Iterators into the slices are positions in the list.
\<close>

record 'a slice =
  sl_messages :: "'a flat_set"
  sl_from :: 'a
  sl_till :: 'a

text \<open>The range a slice covers is \<open>[sl_from, sl_till]\<close>, both ends included.\<close>

definition slice_merge :: "'a::linorder list \<Rightarrow> 'a \<times> 'a \<Rightarrow> 'a slice \<Rightarrow> 'a slice" where
  "slice_merge moreMessages moreRange s =
     s\<lparr>sl_messages := fs_merge moreMessages (sl_messages s),
       sl_from := min (sl_from s) (fst moreRange),
       sl_till := max (sl_till s) (snd moreRange)\<rparr>"

text \<open>What an operation tells its subscribers: the slice it touched and the count.\<close>

record 'a slice_update =
  su_messages :: "'a flat_set option"
  su_range :: "'a \<times> 'a"
  su_count :: "int option"

definition uniteAndAdd :: "nat \<Rightarrow> nat \<Rightarrow> 'a::linorder list \<Rightarrow> 'a \<times> 'a \<Rightarrow> 'a slice list
    \<Rightarrow> 'a slice list \<times> 'a slice \<times> int" where
  "uniteAndAdd uniteFrom uniteTill messages noSkipRange slices =
     (let first = slices ! uniteFrom;
          was = int (length (sl_messages first));
          merged = slice_merge messages noSkipRange first;
          rest = take (uniteTill - (uniteFrom + 1)) (drop (uniteFrom + 1) slices);
          united = fold (\<lambda>it s. slice_merge (sl_messages it) (sl_from it, sl_till it) s) rest merged
      in (take uniteFrom slices @ [united] @ drop uniteTill slices,
          united, int (length (sl_messages united)) - was))"

text \<open>\<open>emplace\<close> into the set of slices, which are compared by the start of their range.\<close>

fun slice_emplace :: "'a::linorder slice \<Rightarrow> 'a slice list \<Rightarrow> 'a slice list \<times> 'a slice" where
  "slice_emplace s [] = ([s], s)"
| "slice_emplace s (t # ts) =
     (if sl_from s < sl_from t then (s # t # ts, s)
      else if sl_from t < sl_from s
      then (let r = slice_emplace s ts in (t # fst r, snd r))
      else (t # ts, t))"

text \<open>The slices the new range touches, from the first to before the last position.\<close>

definition unite_from :: "'a::linorder \<times> 'a \<Rightarrow> 'a slice list \<Rightarrow> nat" where
  "unite_from noSkipRange slices = lower_pos (fst noSkipRange) sl_till slices"

definition unite_till :: "'a::linorder \<times> 'a \<Rightarrow> 'a slice list \<Rightarrow> nat" where
  "unite_till noSkipRange slices = upper_pos (snd noSkipRange) sl_from slices"

definition addRangeItems :: "'a::linorder list \<Rightarrow> 'a \<times> 'a \<Rightarrow> 'a slice list
    \<Rightarrow> 'a slice list \<times> 'a slice \<times> int" where
  "addRangeItems messages noSkipRange slices =
     (if unite_from noSkipRange slices < unite_till noSkipRange slices
      then uniteAndAdd (unite_from noSkipRange slices) (unite_till noSkipRange slices)
             messages noSkipRange slices
      else let r = slice_emplace \<lparr>sl_messages = fs_of_list messages,
             sl_from = fst noSkipRange, sl_till = snd noSkipRange\<rparr> slices
           in (fst r, snd r, int (length (sl_messages (snd r)))))"

text \<open>The slice that holds a position, if one does.\<close>

definition find_slice :: "'a::linorder \<Rightarrow> 'a slice list \<Rightarrow> nat option" where
  "find_slice x slices =
     (let i = lower_pos x sl_till slices
      in if i < length slices \<and> sl_from (slices ! i) \<le> x then Some i else None)"

definition slices_remove :: "'a::linorder \<Rightarrow> 'a slice list \<Rightarrow> 'a slice list" where
  "slices_remove x slices =
     (case find_slice x slices of None \<Rightarrow> slices
      | Some i \<Rightarrow> slices[i := (slices ! i)\<lparr>sl_messages := fs_remove x (sl_messages (slices ! i))\<rparr>])"

definition slices_invalidate_bottom :: "'a::linorder \<Rightarrow> 'a slice list \<Rightarrow> 'a slice list" where
  "slices_invalidate_bottom maxId slices =
     (if slices \<noteq> [] \<and> sl_till (last slices) = maxId
      then butlast slices @ [(last slices)\<lparr>sl_till :=
             (if sl_messages (last slices) = [] then sl_from (last slices)
              else last (sl_messages (last slices)))\<rparr>]
      else slices)"

text \<open>
  \<open>size() >= count\<close> compares an unsigned size with an \<open>int\<close>: a negative count becomes a
  huge unsigned number.
\<close>

definition size_reaches :: "nat \<Rightarrow> int \<Rightarrow> bool" where
  "size_reaches n c \<longleftrightarrow> 0 \<le> c \<and> c \<le> int n"

record 'a slice_query =
  q_around :: 'a
  q_limitBefore :: int
  q_limitAfter :: int

record 'a slice_result =
  r_count :: "int option"
  r_skippedBefore :: "int option"
  r_skippedAfter :: "int option"
  r_ids :: "'a flat_set"

text \<open>
  \<open>position - before\<close> and \<open>position + equalOrAfter\<close> as positions in the ids of the slice;
  \<open>lo\<close> and \<open>hi\<close> are the ends of the full range.
\<close>

definition queryFromSlice :: "'a::linorder \<Rightarrow> 'a \<Rightarrow> int option \<Rightarrow> 'a slice_query \<Rightarrow> 'a slice
    \<Rightarrow> 'a slice_result" where
  "queryFromSlice lo hi cnt query s =
     (let position = int (lower_pos (q_around query) (\<lambda>x. x) (sl_messages s));
          haveBefore = position;
          haveEqualOrAfter = int (length (sl_messages s)) - position;
          before = min haveBefore (q_limitBefore query);
          equalOrAfter = min haveEqualOrAfter (q_limitAfter query + 1);
          ids = take (nat (before + equalOrAfter)) (drop (nat (position - before)) (sl_messages s));
          sb = (if sl_from s = lo then Some (haveBefore - before) else None);
          sa = (if sl_till s = hi then Some (haveEqualOrAfter - equalOrAfter) else None)
      in case cnt of
           None \<Rightarrow> \<lparr>r_count = None, r_skippedBefore = sb, r_skippedAfter = sa, r_ids = ids\<rparr>
         | Some c \<Rightarrow>
             (case (sb, sa) of
                (None, Some a) \<Rightarrow> \<lparr>r_count = Some c, r_skippedBefore = Some (c - a - int (length ids)),
                                   r_skippedAfter = Some a, r_ids = ids\<rparr>
              | (Some b, None) \<Rightarrow> \<lparr>r_count = Some c, r_skippedBefore = Some b,
                                   r_skippedAfter = Some (c - b - int (length ids)), r_ids = ids\<rparr>
              | _ \<Rightarrow> \<lparr>r_count = Some c, r_skippedBefore = sb, r_skippedAfter = sa, r_ids = ids\<rparr>))"

subsection \<open>The invariant: sorted, disjoint, every id in the range of its slice\<close>

definition slice_ok :: "'a::linorder slice \<Rightarrow> bool" where
  "slice_ok s \<longleftrightarrow> sl_from s \<le> sl_till s \<and> sorted_wrt (<) (sl_messages s)
     \<and> (\<forall>x \<in> set (sl_messages s). sl_from s \<le> x \<and> x \<le> sl_till s)"

definition slices_ok :: "'a::linorder slice list \<Rightarrow> bool" where
  "slices_ok ss \<longleftrightarrow> (\<forall>s \<in> set ss. slice_ok s) \<and> sorted_wrt (\<lambda>s t. sl_till s < sl_from t) ss"

definition slice_ids :: "'a slice list \<Rightarrow> 'a set" where
  "slice_ids ss = (\<Union>s \<in> set ss. set (sl_messages s))"

definition covered :: "'a::linorder slice list \<Rightarrow> 'a set" where
  "covered ss = (\<Union>s \<in> set ss. {sl_from s .. sl_till s})"

lemma slice_ids_simps [simp]:
  "slice_ids [] = {}"
  "slice_ids (s # ss) = set (sl_messages s) \<union> slice_ids ss"
  "slice_ids (ss @ ts) = slice_ids ss \<union> slice_ids ts"
  by (auto simp: slice_ids_def)

lemma covered_simps [simp]:
  "covered [] = {}"
  "covered (s # ss) = {sl_from s .. sl_till s} \<union> covered ss"
  "covered (ss @ ts) = covered ss \<union> covered ts"
  by (auto simp: covered_def)

lemma slices_ok_simps [simp]:
  "slices_ok []"
  "slices_ok (s # ss) \<longleftrightarrow> slice_ok s \<and> slices_ok ss \<and> (\<forall>t \<in> set ss. sl_till s < sl_from t)"
  by (auto simp: slices_ok_def)

lemma slices_ok_append:
  "slices_ok (ss @ ts) \<longleftrightarrow> slices_ok ss \<and> slices_ok ts
     \<and> (\<forall>s \<in> set ss. \<forall>t \<in> set ts. sl_till s < sl_from t)"
  by (auto simp: slices_ok_def sorted_wrt_append)

lemma slices_ok_slice: "slices_ok ss \<Longrightarrow> s \<in> set ss \<Longrightarrow> slice_ok s"
  by (simp add: slices_ok_def)

lemma slice_ok_range: "slice_ok s \<Longrightarrow> sl_from s \<le> sl_till s"
  by (simp add: slice_ok_def)

lemma slices_ok_sorted_till: "slices_ok ss \<Longrightarrow> sorted (map sl_till ss)"
proof (induction ss)
  case (Cons a ss)
  have "sl_till a \<le> sl_till t" if "t \<in> set ss" for t
  proof -
    have "sl_till a < sl_from t" "sl_from t \<le> sl_till t"
      using Cons.prems that by (auto dest: slices_ok_slice slice_ok_range)
    then show ?thesis by simp
  qed
  with Cons show ?case by simp
qed simp

lemma slices_ok_sorted_from: "slices_ok ss \<Longrightarrow> sorted (map sl_from ss)"
proof (induction ss)
  case (Cons a ss)
  have "sl_from a \<le> sl_from t" if "t \<in> set ss" for t
  proof -
    have "sl_from a \<le> sl_till a" "sl_till a < sl_from t"
      using Cons.prems that by (auto dest: slice_ok_range)
    then show ?thesis by simp
  qed
  with Cons show ?case by simp
qed simp

subsection \<open>Adding a range\<close>

abbreviation merge_slice :: "'a::linorder slice \<Rightarrow> 'a slice \<Rightarrow> 'a slice" where
  "merge_slice it s \<equiv> slice_merge (sl_messages it) (sl_from it, sl_till it) s"

lemma slice_merge_ok:
  "slice_ok s \<Longrightarrow> fst r \<le> snd r \<Longrightarrow> set ms \<subseteq> {fst r .. snd r} \<Longrightarrow> slice_ok (slice_merge ms r s)"
  by (fastforce simp: slice_ok_def slice_merge_def sorted_fs_merge min_le_iff_disj le_max_iff_disj)

lemma interval_union:
  fixes a b c d :: "'a::linorder"
  shows "c \<le> b \<Longrightarrow> a \<le> d \<Longrightarrow> {min a c .. max b d} = {a .. b} \<union> {c .. d}"
  by (auto simp: min_def max_def not_le)

text \<open>Merging the slices that touch \<open>[f, t]\<close> one by one into the first of them.\<close>

lemma fold_merge_slices:
  "slice_ok acc \<Longrightarrow> sl_from acc \<le> f \<Longrightarrow> t \<le> sl_till acc \<Longrightarrow> f \<le> t \<Longrightarrow>
   (\<forall>s \<in> set rest. slice_ok s \<and> sl_from s \<le> t \<and> f \<le> sl_till s) \<Longrightarrow>
   (let u = fold merge_slice rest acc in
      slice_ok u \<and> sl_from u \<le> f \<and> t \<le> sl_till u
      \<and> set (sl_messages u) = set (sl_messages acc) \<union> slice_ids rest
      \<and> {sl_from u .. sl_till u} = {sl_from acc .. sl_till acc} \<union> covered rest
      \<and> sl_from u \<in> insert (sl_from acc) (sl_from ` set rest)
      \<and> sl_till u \<in> insert (sl_till acc) (sl_till ` set rest))"
proof (induction rest arbitrary: acc)
  case (Cons s rest)
  let ?a = "merge_slice s acc"
  have s: "slice_ok s" "sl_from s \<le> t" "f \<le> sl_till s" using Cons.prems by auto
  have ok: "slice_ok ?a" using Cons.prems s
    by (intro slice_merge_ok) (auto simp: slice_ok_def)
  have ft: "sl_from ?a \<le> f" "t \<le> sl_till ?a" using Cons.prems(2,3)
    by (auto simp: slice_merge_def min_le_iff_disj le_max_iff_disj)
  have "{sl_from ?a .. sl_till ?a} = {sl_from acc .. sl_till acc} \<union> {sl_from s .. sl_till s}"
    using interval_union[of "sl_from s" "sl_till acc" "sl_from acc" "sl_till s"] s Cons.prems
    by (auto simp: slice_merge_def)
  moreover have "sl_from ?a \<in> {sl_from acc, sl_from s}" "sl_till ?a \<in> {sl_till acc, sl_till s}"
    by (auto simp: slice_merge_def min_def max_def)
  moreover have "set (sl_messages ?a) = set (sl_messages acc) \<union> set (sl_messages s)"
    by (auto simp: slice_merge_def)
  ultimately show ?case
    using Cons.IH[OF ok ft Cons.prems(4)] Cons.prems(5) by (auto simp: Let_def)
qed (auto simp: slice_merge_def)

lemma slice_emplace_gap:
  "(\<forall>a \<in> set A. sl_from a < sl_from s) \<Longrightarrow> (\<forall>c \<in> set C. sl_from s < sl_from c) \<Longrightarrow>
   slice_emplace s (A @ C) = (A @ [s] @ C, s)"
proof (induction A)
  case Nil
  then show ?case by (cases C) auto
next
  case (Cons a A)
  then have "\<not> sl_from s < sl_from a" by auto
  with Cons show ?case by (simp add: Let_def)
qed

text \<open>The slices before, at and after the positions the two binary searches find.\<close>

lemma slices_split:
  assumes ok: "slices_ok ss" and ft: "f \<le> t"
  shows "s \<in> set (take (unite_from (f, t) ss) ss) \<Longrightarrow> sl_till s < f"
    and "s \<in> set (drop (unite_from (f, t) ss) ss) \<Longrightarrow> f \<le> sl_till s"
    and "s \<in> set (take (unite_till (f, t) ss) ss) \<Longrightarrow> sl_from s \<le> t"
    and "s \<in> set (drop (unite_till (f, t) ss) ss) \<Longrightarrow> t < sl_from s"
    and "unite_from (f, t) ss \<le> unite_till (f, t) ss"
proof -
  let ?i = "unite_from (f, t) ss" and ?j = "unite_till (f, t) ss"
  have le: "?i \<le> length ss" "?j \<le> length ss"
    by (simp_all add: unite_from_def unite_till_def lower_pos_le upper_pos_le)
  show 1: "s \<in> set (take ?i ss) \<Longrightarrow> sl_till s < f" for s
    using le by (auto simp: in_set_conv_nth unite_from_def dest: lower_pos_less)
  show "s \<in> set (drop ?i ss) \<Longrightarrow> f \<le> sl_till s"
    using le lower_pos_after[OF slices_ok_sorted_till[OF ok], of f]
    by (auto simp: in_set_conv_nth unite_from_def)
  show "s \<in> set (take ?j ss) \<Longrightarrow> sl_from s \<le> t"
    using le by (auto simp: in_set_conv_nth unite_till_def dest: upper_pos_less)
  show 4: "s \<in> set (drop ?j ss) \<Longrightarrow> t < sl_from s" for s
    using le upper_pos_after[OF slices_ok_sorted_from[OF ok], of t]
    by (auto simp: in_set_conv_nth unite_till_def)
  show "?i \<le> ?j"
  proof (rule ccontr)
    assume "\<not> ?i \<le> ?j"
    then have "ss ! ?j \<in> set (take ?i ss)"
      using le by (auto simp: in_set_conv_nth intro!: exI[of _ ?j])
    moreover have "ss ! ?j \<in> set (drop ?j ss)"
      using le \<open>\<not> ?i \<le> ?j\<close> by (auto simp: in_set_conv_nth intro!: exI[of _ 0])
    ultimately have "sl_till (ss ! ?j) < f" "t < sl_from (ss ! ?j)" using 1 4 by auto
    moreover have "slice_ok (ss ! ?j)" using ok \<open>\<not> ?i \<le> ?j\<close> le by (auto simp: slices_ok_def)
    ultimately show False using ft by (auto simp: slice_ok_def)
  qed
qed

text \<open>
  The effect of adding a range: the list stays well formed, its ids and its covered positions
  are the old ones and the new ones, and the slice reported to the subscribers holds the
  whole range.
\<close>

lemma addRangeItems_spec:
  assumes ok: "slices_ok ss" and ft: "f \<le> t" and ms: "set ms \<subseteq> {f .. t}"
    and eq: "addRangeItems ms (f, t) ss = (ss', u, n)"
  shows "slices_ok ss'" and "slice_ids ss' = slice_ids ss \<union> set ms"
    and "covered ss' = covered ss \<union> {f .. t}"
    and "u \<in> set ss'" and "sl_from u \<le> f" and "t \<le> sl_till u" and "set ms \<subseteq> set (sl_messages u)"
proof -
  let ?i = "unite_from (f, t) ss" and ?j = "unite_till (f, t) ss"
  let ?A = "take ?i ss" and ?C = "drop ?j ss"
  note split = slices_split[OF ok ft]
  have "slices_ok ss' \<and> slice_ids ss' = slice_ids ss \<union> set ms \<and> covered ss' = covered ss \<union> {f .. t}
      \<and> u \<in> set ss' \<and> sl_from u \<le> f \<and> t \<le> sl_till u \<and> set ms \<subseteq> set (sl_messages u)"
  proof (cases "?i < ?j")
    case False
    then have "?i = ?j" using split(5) by simp
    then have ss: "ss = ?A @ ?C" by simp
    let ?new = "\<lparr>sl_messages = fs_of_list ms, sl_from = f, sl_till = t\<rparr>"
    have A: "sl_from a < f" if "a \<in> set ?A" for a
    proof -
      have "slice_ok a" using ok that by (auto dest: slices_ok_slice in_set_takeD)
      with split(1)[OF that] show ?thesis by (auto simp: slice_ok_def)
    qed
    have C: "f < sl_from c" if "c \<in> set ?C" for c using split(4)[OF that] ft by simp
    have "slice_emplace ?new (?A @ ?C) = (?A @ [?new] @ ?C, ?new)"
      by (rule slice_emplace_gap) (use A C in auto)
    then have "slice_emplace ?new ss = (?A @ [?new] @ ?C, ?new)"
      using ss by metis
    then have res: "ss' = ?A @ [?new] @ ?C" "u = ?new"
      using eq False by (auto simp: addRangeItems_def Let_def)
    have "slices_ok (?A @ ?C)" using ok ss by simp
    moreover have "slice_ok ?new" using ft ms by (auto simp: slice_ok_def)
    ultimately have "slices_ok ss'"
      using split(1,4) by (auto simp: res slices_ok_append)
    moreover have "slice_ids ss' = slice_ids (?A @ ?C) \<union> set ms"
      "covered ss' = covered (?A @ ?C) \<union> {f .. t}"
      unfolding res(1) by (simp_all only: slice_ids_simps covered_simps) auto
    ultimately show ?thesis using res ss by simp
  next
    case True
    have jl: "?j \<le> length ss" by (simp add: unite_till_def upper_pos_le)
    let ?first = "ss ! ?i" let ?rest = "take (?j - (?i + 1)) (drop (?i + 1) ss)"
    let ?B = "drop ?i (take ?j ss)" let ?m = "slice_merge ms (f, t) ?first"
    have AB: "take ?j ss = ?A @ ?B" using True by (metis append_take_drop_id less_imp_le min.absorb1 take_take)
    have ss: "ss = ?A @ ?B @ ?C" using AB by (metis append.assoc append_take_drop_id)
    have B: "?B = ?first # ?rest"
      using True jl by (simp add: drop_take Cons_nth_drop_Suc[symmetric] take_Cons' )
    have touch: "slice_ok s \<and> sl_from s \<le> t \<and> f \<le> sl_till s" if s: "s \<in> set ?B" for s
    proof -
      have "s \<in> set (drop ?i ss)" using s by (auto simp: drop_take dest: in_set_takeD)
      moreover have "s \<in> set (take ?j ss)" using s by (rule in_set_dropD)
      ultimately show ?thesis using split(2,3) ok by (auto dest: slices_ok_slice in_set_takeD)
    qed
    have first: "slice_ok ?first" "sl_from ?first \<le> t" "f \<le> sl_till ?first"
      using touch[of ?first] B by simp_all
    have m_ok: "slice_ok ?m" using first(1) ft ms by (intro slice_merge_ok) auto
    have m_ft: "sl_from ?m \<le> f" "t \<le> sl_till ?m" by (simp_all add: slice_merge_def)
    have m_int: "{sl_from ?m .. sl_till ?m} = {f .. t} \<union> {sl_from ?first .. sl_till ?first}"
      using interval_union[of "sl_from ?first" t f "sl_till ?first"] first
      by (auto simp: slice_merge_def min.commute max.commute)
    have res: "ss' = ?A @ [u] @ ?C" "u = fold merge_slice ?rest ?m"
      using eq True by (auto simp: addRangeItems_def uniteAndAdd_def Let_def)
    have u: "slice_ok u" "sl_from u \<le> f" "t \<le> sl_till u"
      "set (sl_messages u) = set (sl_messages ?m) \<union> slice_ids ?rest"
      "{sl_from u .. sl_till u} = {sl_from ?m .. sl_till ?m} \<union> covered ?rest"
      "sl_from u \<in> insert (sl_from ?m) (sl_from ` set ?rest)"
      "sl_till u \<in> insert (sl_till ?m) (sl_till ` set ?rest)"
      using fold_merge_slices[OF m_ok m_ft ft, of ?rest] touch B
      by (simp_all add: res(2) Let_def)
    have fromB: "sl_from u \<in> insert f (sl_from ` set ?B)" and tillB: "sl_till u \<in> insert t (sl_till ` set ?B)"
      using u(6,7) by (auto simp: B slice_merge_def min_def max_def)
    have okABC: "slices_ok (?A @ ?B @ ?C)" using ok ss by simp
    have sepA: "sl_till a < sl_from u" if "a \<in> set ?A" for a
      using fromB split(1)[OF that] okABC that by (auto simp: slices_ok_append)
    have sepC: "sl_till u < sl_from c" if "c \<in> set ?C" for c
      using tillB split(4)[OF that] okABC that by (auto simp: slices_ok_append)
    have sepAC: "sl_till a < sl_from c" if "a \<in> set ?A" "c \<in> set ?C" for a c
      using okABC that by (auto simp: slices_ok_append)
    have "slices_ok ss'"
      using okABC u(1) sepA sepC sepAC by (auto simp: res(1) slices_ok_append)
    moreover have "slice_ids ss' = slice_ids (?A @ ?B @ ?C) \<union> set ms"
      using u(4) by (auto simp: res(1) B slice_merge_def)
    moreover have "covered ss' = covered (?A @ ?B @ ?C) \<union> {f .. t}"
      using u(5) m_int by (auto simp: res(1) B)
    moreover have "set ms \<subseteq> set (sl_messages u)" using u(4) by (auto simp: slice_merge_def)
    ultimately show ?thesis using u ss by (simp add: res(1))
  qed
  then show "slices_ok ss'" and "slice_ids ss' = slice_ids ss \<union> set ms"
    and "covered ss' = covered ss \<union> {f .. t}"
    and "u \<in> set ss'" and "sl_from u \<le> f" and "t \<le> sl_till u" and "set ms \<subseteq> set (sl_messages u)"
    by auto
qed

subsection \<open>Finding, removing, invalidating\<close>

lemma find_slice_Some:
  "find_slice x ss = Some i \<Longrightarrow> i < length ss \<and> sl_from (ss ! i) \<le> x \<and> x \<le> sl_till (ss ! i)"
  using lower_pos_at[of x sl_till ss] by (auto simp: find_slice_def Let_def split: if_splits)

lemma slices_unique:
  assumes "slices_ok ss" "i < length ss" "j < length ss"
    "sl_from (ss ! i) \<le> x" "x \<le> sl_till (ss ! i)" "sl_from (ss ! j) \<le> x" "x \<le> sl_till (ss ! j)"
  shows "i = j"
proof (rule ccontr)
  assume "i \<noteq> j"
  have "sorted_wrt (\<lambda>s t. sl_till s < sl_from t) ss" using assms(1) by (simp add: slices_ok_def)
  then have "sl_till (ss ! a) < sl_from (ss ! b)" if "a < b" "b < length ss" for a b
    using that by (rule sorted_wrt_nth_less)
  from this[of i j] this[of j i] show False using assms \<open>i \<noteq> j\<close> by (cases "i < j") auto
qed

lemma find_slice_at:
  assumes "slices_ok ss" "i < length ss" "sl_from (ss ! i) \<le> x" "x \<le> sl_till (ss ! i)"
  shows "find_slice x ss = Some i"
proof -
  let ?p = "lower_pos x sl_till ss"
  have "?p \<le> i"
  proof (rule ccontr)
    assume "\<not> ?p \<le> i"
    then have "i < ?p" by simp
    then have "sl_till (ss ! i) < x" by (rule lower_pos_less)
    with assms(4) show False by simp
  qed
  then have p: "?p < length ss" using assms(2) by simp
  have "sl_from (ss ! ?p) \<le> sl_from (ss ! i)"
    using sorted_nth_mono[OF slices_ok_sorted_from[OF assms(1)] \<open>?p \<le> i\<close>] assms(2) p by simp
  then have "sl_from (ss ! ?p) \<le> x" using assms(3) by simp
  moreover have "x \<le> sl_till (ss ! ?p)" by (rule lower_pos_at[OF p])
  ultimately show ?thesis
    using p slices_unique[OF assms(1) p assms(2)] assms(3,4) by (simp add: find_slice_def Let_def)
qed

lemma find_slice_None: "slices_ok ss \<Longrightarrow> find_slice x ss = None \<longleftrightarrow> x \<notin> covered ss"
proof
  assume ok: "slices_ok ss" and none: "find_slice x ss = None"
  show "x \<notin> covered ss"
  proof
    assume "x \<in> covered ss"
    then obtain i where "i < length ss" "sl_from (ss ! i) \<le> x" "x \<le> sl_till (ss ! i)"
      by (auto simp: covered_def in_set_conv_nth)
    from find_slice_at[OF ok this] none show False by simp
  qed
next
  assume "x \<notin> covered ss"
  then have "i < length ss \<Longrightarrow> sl_from (ss ! i) \<le> x \<Longrightarrow> \<not> x \<le> sl_till (ss ! i)" for i
    by (auto simp: covered_def)
  then show "find_slice x ss = None"
    by (cases "find_slice x ss") (auto dest: find_slice_Some)
qed

lemma slice_ids_covered: "slices_ok ss \<Longrightarrow> slice_ids ss \<subseteq> covered ss"
  by (force simp: slices_ok_def slice_ok_def slice_ids_def covered_def)

lemma find_slice_ids:
  assumes "slices_ok ss" "find_slice x ss = Some i"
  shows "x \<in> slice_ids ss \<longleftrightarrow> x \<in> set (sl_messages (ss ! i))"
proof
  assume "x \<in> slice_ids ss"
  then obtain s where "s \<in> set ss" "x \<in> set (sl_messages s)" by (auto simp: slice_ids_def)
  then obtain j where j: "j < length ss" "x \<in> set (sl_messages (ss ! j))"
    by (metis in_set_conv_nth)
  with assms(1) have "sl_from (ss ! j) \<le> x \<and> x \<le> sl_till (ss ! j)"
    by (auto simp: slices_ok_def slice_ok_def)
  with find_slice_at[OF assms(1) j(1)] assms(2) have "j = i" by simp
  with j(2) show "x \<in> set (sl_messages (ss ! i))" by simp
next
  show "x \<in> set (sl_messages (ss ! i)) \<Longrightarrow> x \<in> slice_ids ss"
    using find_slice_Some[OF assms(2)] by (auto simp: slice_ids_def)
qed

lemma slices_update_messages:
  assumes "slices_ok ss" "i < length ss" "sorted_wrt (<) ms"
    "set ms \<subseteq> {sl_from (ss ! i) .. sl_till (ss ! i)}"
  shows "slices_ok (ss[i := (ss ! i)\<lparr>sl_messages := ms\<rparr>])"
    and "covered (ss[i := (ss ! i)\<lparr>sl_messages := ms\<rparr>]) = covered ss"
proof -
  have split: "ss = take i ss @ ss ! i # drop (Suc i) ss" using assms(2) by (rule id_take_nth_drop)
  have upd: "ss[i := (ss ! i)\<lparr>sl_messages := ms\<rparr>]
      = take i ss @ (ss ! i)\<lparr>sl_messages := ms\<rparr> # drop (Suc i) ss"
    using assms(2) by (rule upd_conv_take_nth_drop)
  have ok: "slices_ok (take i ss @ ss ! i # drop (Suc i) ss)" using assms(1) split by simp
  then show "slices_ok (ss[i := (ss ! i)\<lparr>sl_messages := ms\<rparr>])"
    using assms(3,4) unfolding upd by (auto simp: slices_ok_append slice_ok_def)
  have "covered (take i ss @ ss ! i # drop (Suc i) ss) = covered (ss[i := (ss ! i)\<lparr>sl_messages := ms\<rparr>])"
    unfolding upd by simp
  then show "covered (ss[i := (ss ! i)\<lparr>sl_messages := ms\<rparr>]) = covered ss" using split by simp
qed

lemma slices_ok_disjoint:
  assumes "slices_ok (A @ s # C)" "y \<in> slice_ids A \<union> slice_ids C"
  shows "\<not> (sl_from s \<le> y \<and> y \<le> sl_till s)"
proof -
  obtain t where t: "t \<in> set A \<or> t \<in> set C" "y \<in> set (sl_messages t)"
    using assms(2) by (auto simp: slice_ids_def)
  have "slice_ok t" using assms(1) t(1) by (auto simp: slices_ok_append slices_ok_slice)
  then have "sl_from t \<le> y" "y \<le> sl_till t" using t(2) by (auto simp: slice_ok_def)
  moreover have "sl_till t < sl_from s \<or> sl_till s < sl_from t"
    using assms(1) t(1) by (auto simp: slices_ok_append)
  ultimately show ?thesis by auto
qed

lemma slices_remove_spec:
  assumes ok: "slices_ok ss"
  shows "slices_ok (slices_remove x ss)" and "slice_ids (slices_remove x ss) = slice_ids ss - {x}"
    and "covered (slices_remove x ss) = covered ss"
proof -
  have "slices_ok (slices_remove x ss) \<and> slice_ids (slices_remove x ss) = slice_ids ss - {x}
    \<and> covered (slices_remove x ss) = covered ss"
  proof (cases "find_slice x ss")
    case None
    then have "x \<notin> slice_ids ss" using find_slice_None[OF ok] slice_ids_covered[OF ok] by auto
    with None ok show ?thesis by (simp add: slices_remove_def)
  next
    case (Some i)
    have i: "i < length ss" using find_slice_Some[OF Some] by simp
    have oki: "slice_ok (ss ! i)" using ok i by (auto simp: slices_ok_def)
    then have ms: "sorted_wrt (<) (fs_remove x (sl_messages (ss ! i)))"
      "set (fs_remove x (sl_messages (ss ! i))) \<subseteq> {sl_from (ss ! i) .. sl_till (ss ! i)}"
      by (auto simp: slice_ok_def sorted_fs_remove)
    have split: "ss = take i ss @ ss ! i # drop (Suc i) ss" using i by (rule id_take_nth_drop)
    have ok': "slices_ok (take i ss @ ss ! i # drop (Suc i) ss)" using ok split by simp
    have others: "x \<notin> slice_ids (take i ss) \<union> slice_ids (drop (Suc i) ss)"
      using slices_ok_disjoint[OF ok', of x] find_slice_Some[OF Some] by blast
    have "slice_ids (take i ss @ ss ! i # drop (Suc i) ss) - {x}
        = slice_ids (take i ss @ (ss ! i)\<lparr>sl_messages := fs_remove x (sl_messages (ss ! i))\<rparr> # drop (Suc i) ss)"
      using others by auto
    then have "slice_ids ss - {x} = slice_ids (slices_remove x ss)"
      using split i by (simp add: slices_remove_def Some upd_conv_take_nth_drop)
    then show ?thesis
      using slices_update_messages[OF ok i ms] by (simp add: slices_remove_def Some)
  qed
  then show "slices_ok (slices_remove x ss)" and "slice_ids (slices_remove x ss) = slice_ids ss - {x}"
    and "covered (slices_remove x ss) = covered ss" by auto
qed

lemma slices_invalidate_bottom_spec:
  assumes ok: "slices_ok ss"
  shows "slices_ok (slices_invalidate_bottom hi ss)"
    and "slice_ids (slices_invalidate_bottom hi ss) = slice_ids ss"
    and "covered (slices_invalidate_bottom hi ss) \<subseteq> covered ss"
proof -
  have "slices_ok (slices_invalidate_bottom hi ss) \<and> slice_ids (slices_invalidate_bottom hi ss) = slice_ids ss
    \<and> covered (slices_invalidate_bottom hi ss) \<subseteq> covered ss"
  proof (cases "ss \<noteq> [] \<and> sl_till (last ss) = hi")
    case True
    let ?l = "last ss"
    let ?n = "?l\<lparr>sl_till := (if sl_messages ?l = [] then sl_from ?l else last (sl_messages ?l))\<rparr>"
    have split: "ss = butlast ss @ [?l]" using True by simp
    then have ok': "slices_ok (butlast ss @ [?l])" using ok by simp
    then have l: "slice_ok ?l" by (simp add: slices_ok_append)
    have n: "slice_ok ?n" "sl_till ?n \<le> sl_till ?l"
    proof -
      have "x \<le> last (sl_messages ?l)" if "x \<in> set (sl_messages ?l)" for x
        using l that by (intro sorted_le_last) (simp_all add: slice_ok_def)
      then show "slice_ok ?n" "sl_till ?n \<le> sl_till ?l" using l by (auto simp: slice_ok_def)
    qed
    have eq: "slices_invalidate_bottom hi ss = butlast ss @ [?n]"
      using True by (simp add: slices_invalidate_bottom_def)
    have "slices_ok (butlast ss @ [?n])"
      using ok' n by (simp add: slices_ok_append)
    moreover have "slice_ids (butlast ss @ [?n]) = slice_ids (butlast ss @ [?l])" by simp
    moreover have "covered (butlast ss @ [?n]) \<subseteq> covered (butlast ss @ [?l])"
      using n(2) by (auto split: if_splits)
    ultimately show ?thesis using eq split by simp
  next
    case False
    then have "slices_invalidate_bottom hi ss = ss"
      unfolding slices_invalidate_bottom_def by (rule if_not_P)
    then show ?thesis using ok by simp
  qed
  then show "slices_ok (slices_invalidate_bottom hi ss)"
    and "slice_ids (slices_invalidate_bottom hi ss) = slice_ids ss"
    and "covered (slices_invalidate_bottom hi ss) \<subseteq> covered ss" by auto
qed

subsection \<open>Querying a slice\<close>

definition ids_before :: "'a::linorder \<Rightarrow> 'a slice \<Rightarrow> 'a list" where
  "ids_before a s = takeWhile (\<lambda>x. x < a) (sl_messages s)"

definition ids_from :: "'a::linorder \<Rightarrow> 'a slice \<Rightarrow> 'a list" where
  "ids_from a s = dropWhile (\<lambda>x. x < a) (sl_messages s)"

lemma ids_split: "sl_messages s = ids_before a s @ ids_from a s"
  by (simp add: ids_before_def ids_from_def)

lemma lower_pos_ids: "lower_pos a (\<lambda>x. x) (sl_messages s) = length (ids_before a s)"
  by (simp add: lower_pos_def ids_before_def)

lemma queryFromSlice_ids:
  assumes "0 \<le> q_limitBefore q" "0 \<le> q_limitAfter q"
  shows "r_ids (queryFromSlice lo hi cnt q s) =
    drop (length (ids_before (q_around q) s) - nat (q_limitBefore q)) (ids_before (q_around q) s)
    @ take (nat (q_limitAfter q) + 1) (ids_from (q_around q) s)"
proof -
  let ?L = "ids_before (q_around q) s" and ?R = "ids_from (q_around q) s"
  define b where "b = min (length ?L) (nat (q_limitBefore q))"
  define e where "e = min (length ?R) (nat (q_limitAfter q) + 1)"
  have b: "min (int (length ?L)) (q_limitBefore q) = int b" using assms by (simp add: b_def of_nat_min)
  have e: "min (int (length (sl_messages s)) - int (length ?L)) (q_limitAfter q + 1) = int e"
    using assms by (subst ids_split[of s "q_around q"]) (auto simp: e_def min_def)
  have "r_ids (queryFromSlice lo hi cnt q s) =
      take (nat (int b + int e)) (drop (nat (int (length ?L) - int b)) (sl_messages s))"
    by (simp add: queryFromSlice_def Let_def lower_pos_ids b e split: option.split)
  also have "\<dots> = take (b + e) (drop (length ?L - b) (?L @ ?R))"
    by (simp add: ids_split[of s "q_around q", symmetric] nat_diff_distrib nat_add_distrib b_def)
  also have "\<dots> = drop (length ?L - b) ?L @ take e ?R"
    by (simp add: b_def)
  also have "drop (length ?L - b) ?L = drop (length ?L - nat (q_limitBefore q)) ?L"
    by (simp add: b_def min_def)
  also have "take e ?R = take (nat (q_limitAfter q) + 1) ?R"
    by (simp add: e_def min_def)
  finally show ?thesis .
qed

text \<open>What the query says about the ids it leaves out, when no total count is known.\<close>

lemma queryFromSlice_skipped:
  fixes s :: "'a::linorder slice" and lo hi :: 'a and cnt :: "int option"
  assumes "0 \<le> q_limitBefore q" "0 \<le> q_limitAfter q"
  defines "r \<equiv> queryFromSlice lo hi cnt q s"
  shows "sl_from s = lo \<Longrightarrow> r_skippedBefore r =
      Some (int (length (ids_before (q_around q) s) - nat (q_limitBefore q)))"
    and "sl_till s = hi \<Longrightarrow> r_skippedAfter r =
      Some (int (length (ids_from (q_around q) s) - (nat (q_limitAfter q) + 1)))"
    and "sl_from s \<noteq> lo \<Longrightarrow> sl_till s \<noteq> hi \<Longrightarrow> r_skippedBefore r = None \<and> r_skippedAfter r = None"
    and "r_count r = cnt"
proof -
  have len: "length (sl_messages s) = length (ids_before (q_around q) s) + length (ids_from (q_around q) s)"
    by (subst ids_split[of s "q_around q"]) simp
  have bb: "int n - min (int n) (q_limitBefore q) = int (n - nat (q_limitBefore q))" for n :: nat
    using assms(1) by auto
  have aa: "int n - min (int n) (q_limitAfter q + 1) = int (n - (nat (q_limitAfter q) + 1))" for n :: nat
    using assms(2) by auto
  show "sl_from s = lo \<Longrightarrow> r_skippedBefore r =
      Some (int (length (ids_before (q_around q) s) - nat (q_limitBefore q)))"
    by (simp add: r_def queryFromSlice_def Let_def lower_pos_ids bb split: option.split)
  show "sl_till s = hi \<Longrightarrow> r_skippedAfter r =
      Some (int (length (ids_from (q_around q) s) - (nat (q_limitAfter q) + 1)))"
    by (simp add: r_def queryFromSlice_def Let_def lower_pos_ids len aa split: option.split)
  show "sl_from s \<noteq> lo \<Longrightarrow> sl_till s \<noteq> hi \<Longrightarrow> r_skippedBefore r = None \<and> r_skippedAfter r = None"
    by (simp add: r_def queryFromSlice_def Let_def split: option.split)
  show "r_count r = cnt"
    by (simp add: r_def queryFromSlice_def Let_def split: option.split)
qed

text \<open>If one side is known and the total count too, the other side is what remains.\<close>

lemma queryFromSlice_complete:
  assumes "r_count (queryFromSlice lo hi (Some c) q s) = Some c"
    and "(sl_from s = lo) \<noteq> (sl_till s = hi)"
  shows "\<exists>b a. r_skippedBefore (queryFromSlice lo hi (Some c) q s) = Some b
    \<and> r_skippedAfter (queryFromSlice lo hi (Some c) q s) = Some a
    \<and> b + int (length (r_ids (queryFromSlice lo hi (Some c) q s))) + a = c"
  using assms(2) by (cases "sl_from s = lo") (simp_all add: queryFromSlice_def Let_def)

lemma sorted_window:
  fixes A W B :: "'a::linorder list"
  assumes "sorted_wrt (<) (A @ W @ B)" "x \<in> set W" "z \<in> set W" "x \<le> y" "y \<le> z"
    and "y \<in> set (A @ W @ B)"
  shows "y \<in> set W"
proof -
  have "y \<notin> set A" using assms(1,2,4) by (auto simp: sorted_wrt_append dest!: bspec)
  moreover have "y \<notin> set B" using assms(1,3,5) by (auto simp: sorted_wrt_append dest!: bspec)
  ultimately show ?thesis using assms(6) by simp
qed

text \<open>The ids of a query are a window without holes of the ids of its slice.\<close>

lemma query_window:
  assumes ok: "slice_ok s" and lim: "0 \<le> q_limitBefore q" "0 \<le> q_limitAfter q"
    and xyz: "x \<in> set (r_ids (queryFromSlice lo hi cnt q s))"
      "z \<in> set (r_ids (queryFromSlice lo hi cnt q s))" "y \<in> set (sl_messages s)" "x \<le> y" "y \<le> z"
  shows "y \<in> set (r_ids (queryFromSlice lo hi cnt q s))"
proof -
  let ?L = "ids_before (q_around q) s" and ?R = "ids_from (q_around q) s"
  let ?l = "drop (length ?L - nat (q_limitBefore q)) ?L" and ?r = "take (nat (q_limitAfter q) + 1) ?R"
  let ?a = "take (length ?L - nat (q_limitBefore q)) ?L" and ?b = "drop (nat (q_limitAfter q) + 1) ?R"
  have w: "r_ids (queryFromSlice lo hi cnt q s) = ?l @ ?r" by (rule queryFromSlice_ids[OF lim])
  have ms: "sl_messages s = ?a @ (?l @ ?r) @ ?b" by (subst ids_split[of s "q_around q"]) simp
  have srt: "sorted_wrt (<) (?a @ (?l @ ?r) @ ?b)" using ok unfolding slice_ok_def ms[symmetric] by simp
  have "y \<in> set (?a @ (?l @ ?r) @ ?b)" using xyz(3) ms by simp
  with srt xyz(1,2,4,5) show ?thesis unfolding w by (rule sorted_window)
qed

text \<open>How many ids a query returns on either side of the position it is around.\<close>

lemma query_bounds:
  fixes s :: "'a::linorder slice" and lo hi :: 'a and cnt :: "int option" and q :: "'a slice_query"
  assumes ok: "slice_ok s" and lim: "0 \<le> q_limitBefore q" "0 \<le> q_limitAfter q"
  defines "ids \<equiv> r_ids (queryFromSlice lo hi cnt q s)"
  shows "set ids \<subseteq> set (sl_messages s)" and "sorted_wrt (<) ids"
    and "int (length (filter (\<lambda>x. x < q_around q) ids)) \<le> q_limitBefore q"
    and "int (length (filter (\<lambda>x. q_around q \<le> x) ids)) \<le> q_limitAfter q + 1"
    and "q_around q \<in> set (sl_messages s) \<Longrightarrow> q_around q \<in> set ids"
proof -
  let ?a = "q_around q"
  let ?L = "ids_before ?a s" and ?R = "ids_from ?a s"
  let ?d = "length ?L - nat (q_limitBefore q)" and ?n = "nat (q_limitAfter q) + 1"
  have w: "ids = drop ?d ?L @ take ?n ?R"
    unfolding ids_def by (rule queryFromSlice_ids[OF lim])
  have srt: "sorted_wrt (<) (sl_messages s)" using ok by (simp add: slice_ok_def)
  have L: "\<forall>x \<in> set ?L. x < ?a" by (auto simp: ids_before_def dest: set_takeWhileD)
  have R: "\<forall>x \<in> set ?R. ?a \<le> x"
  proof (cases ?R)
    case (Cons y ys)
    have "?a \<le> y" using dropWhile_eq_Cons_conv[THEN iffD1, OF Cons[unfolded ids_from_def]] by (simp add: not_less)
    moreover have "sorted_wrt (<) (?L @ y # ys)" using srt ids_split[of s ?a] Cons by simp
    ultimately show ?thesis using Cons by (auto simp: sorted_wrt_append)
  qed simp
  have Lt: "\<forall>x \<in> set (drop ?d ?L). x < ?a" and Rt: "\<forall>x \<in> set (take ?n ?R). ?a \<le> x"
    using L R by (auto dest: in_set_dropD in_set_takeD)
  have f1: "filter (\<lambda>x. x < ?a) ids = drop ?d ?L" and f2: "filter (\<lambda>x. ?a \<le> x) ids = take ?n ?R"
    unfolding w filter_append using Lt Rt by (simp_all add: filter_id_conv filter_empty_conv not_less not_le)
  show "set ids \<subseteq> set (sl_messages s)"
    unfolding w ids_split[of s ?a] by (auto dest: in_set_dropD in_set_takeD)
  have "sorted_wrt (<) (?L @ ?R)" using srt ids_split[of s ?a] by simp
  then show "sorted_wrt (<) ids" unfolding w
    by (auto simp: sorted_wrt_append sorted_wrt_drop sorted_wrt_take dest: in_set_dropD in_set_takeD)
  show "int (length (filter (\<lambda>x. x < ?a) ids)) \<le> q_limitBefore q" unfolding f1 using lim by simp
  show "int (length (filter (\<lambda>x. ?a \<le> x) ids)) \<le> q_limitAfter q + 1" unfolding f2 using lim by simp
  show "?a \<in> set ids" if a: "?a \<in> set (sl_messages s)"
  proof -
    have "?a \<in> set ?L \<union> set ?R" using a ids_split[of s ?a] by (metis set_append)
    then have aR: "?a \<in> set ?R" using L by auto
    then obtain y ys where ys: "?R = y # ys" by (cases ?R) auto
    have "sorted_wrt (<) (y # ys)" using \<open>sorted_wrt (<) (?L @ ?R)\<close> ys by (simp add: sorted_wrt_append)
    then have "y = ?a" using aR R ys by fastforce
    then show ?thesis unfolding w ys by simp
  qed
qed

subsection \<open>The interface of a store of slices\<close>

text \<open>
  What the users of \<open>SparseIdsList\<close> and of \<open>MessagesList\<close> rely on: pages of ids are added
  and single ids removed, and the known ids are what was added and not removed.
\<close>

locale slice_store =
  fixes slices_of :: "'s \<Rightarrow> 'a::linorder slice list"
    and add_page :: "'a list \<Rightarrow> 'a \<times> 'a \<Rightarrow> int option \<Rightarrow> 's \<Rightarrow> 's"
    and remove_one :: "'a \<Rightarrow> 's \<Rightarrow> 's"
    and valid :: "'s \<Rightarrow> bool"
    and lo hi :: 'a
  assumes valid_slices: "valid s \<Longrightarrow> slices_ok (slices_of s)"
    and add_valid: "valid s \<Longrightarrow> lo \<le> f \<Longrightarrow> f \<le> t \<Longrightarrow> t \<le> hi \<Longrightarrow> set ms \<subseteq> {f .. t} \<Longrightarrow>
      valid (add_page ms (f, t) c s)"
    and add_ids: "valid s \<Longrightarrow> lo \<le> f \<Longrightarrow> f \<le> t \<Longrightarrow> t \<le> hi \<Longrightarrow> set ms \<subseteq> {f .. t} \<Longrightarrow>
      slice_ids (slices_of (add_page ms (f, t) c s)) = slice_ids (slices_of s) \<union> set ms"
    and remove_valid: "valid s \<Longrightarrow> valid (remove_one x s)"
    and remove_ids: "valid s \<Longrightarrow>
      slice_ids (slices_of (remove_one x s)) = slice_ids (slices_of s) - {x}"
begin

definition page_ok :: "'a list \<times> ('a \<times> 'a) \<times> int option \<Rightarrow> bool" where
  "page_ok p \<longleftrightarrow> lo \<le> fst (fst (snd p)) \<and> fst (fst (snd p)) \<le> snd (fst (snd p))
     \<and> snd (fst (snd p)) \<le> hi \<and> set (fst p) \<subseteq> {fst (fst (snd p)) .. snd (fst (snd p))}"

definition add_pages :: "('a list \<times> ('a \<times> 'a) \<times> int option) list \<Rightarrow> 's \<Rightarrow> 's" where
  "add_pages ps s = fold (\<lambda>(ms, r, c) t. add_page ms r c t) ps s"

lemma add_pages_spec:
  "valid s \<Longrightarrow> \<forall>p \<in> set ps. page_ok p \<Longrightarrow>
   valid (add_pages ps s)
   \<and> slice_ids (slices_of (add_pages ps s)) = slice_ids (slices_of s) \<union> (\<Union>p \<in> set ps. set (fst p))"
proof (induction ps arbitrary: s)
  case (Cons p ps)
  obtain ms f t c where p: "p = (ms, (f, t), c)" by (metis prod.collapse)
  have pg: "lo \<le> f" "f \<le> t" "t \<le> hi" "set ms \<subseteq> {f .. t}" using Cons.prems(2) by (auto simp: p page_ok_def)
  have "add_pages (p # ps) s = add_pages ps (add_page ms (f, t) c s)" by (simp add: add_pages_def p)
  with Cons.IH[OF add_valid[OF Cons.prems(1) pg]] add_ids[OF Cons.prems(1) pg] Cons.prems(2) show ?case
    by (auto simp: p)
qed (simp add: add_pages_def)

lemma add_pages_any_order:
  "valid s \<Longrightarrow> \<forall>p \<in> set ps. page_ok p \<Longrightarrow> mset qs = mset ps \<Longrightarrow>
   slice_ids (slices_of (add_pages qs s)) = slice_ids (slices_of (add_pages ps s))"
  using add_pages_spec[of s ps] add_pages_spec[of s qs] mset_eq_setD[of qs ps] by simp

end

end
