(* ===== verification/SliceBuilder.thy ===== *)
theory SliceBuilder
  imports Slices
begin

text \<open>
  The builder that turns what a store of slices knows and fires into the window of ids a viewer
  shows: \<open>MessagesSliceBuilder\<close> of \<open>data/data_messages.{h,cpp}\<close> and
  \<open>SparseIdsSliceBuilder\<close> of \<open>data/data_sparse_ids.{h,cpp}\<close> are the same code over
  message positions and over message ids, so it is written once over any linear order. What
  differs is in \<open>slice_config\<close>: which key means no key, the id sent with a request for the
  count, the ids that can be in a window, the ends of the full range. The requests the builder
  fires are recorded in \<open>b_requests\<close>. \<open>_range\<close>, which the code sets and never reads,
  is left out.
\<close>

record 'a slice_config =
  cf_null :: "'a \<Rightarrow> bool"
  cf_none :: 'a
  cf_possible :: "'a \<Rightarrow> bool"
  cf_lo :: 'a
  cf_hi :: 'a

datatype LoadDirection = Around | Before | After

record 'a slice_builder =
  b_key :: 'a
  b_ids :: "'a flat_set"
  b_fullCount :: "int option"
  b_skippedBefore :: "int option"
  b_skippedAfter :: "int option"
  b_limitBefore :: int
  b_limitAfter :: int
  b_requests :: "('a \<times> LoadDirection) list"

definition new_builder :: "'a \<Rightarrow> int \<Rightarrow> int \<Rightarrow> 'a slice_builder" where
  "new_builder key limitBefore limitAfter =
     \<lparr>b_key = key, b_ids = [], b_fullCount = None, b_skippedBefore = None, b_skippedAfter = None,
      b_limitBefore = limitBefore, b_limitAfter = limitAfter, b_requests = []\<rparr>"

definition fire_request :: "'a \<times> LoadDirection \<Rightarrow> 'a slice_builder \<Rightarrow> 'a slice_builder" where
  "fire_request r b = b\<lparr>b_requests := b_requests b @ [r]\<rparr>"

definition requestMessages :: "LoadDirection \<Rightarrow> 'a slice_builder \<Rightarrow> 'a slice_builder" where
  "requestMessages direction b =
     fire_request (if b_ids b = [] then (b_key b, Around)
       else if direction = Before then (hd (b_ids b), Before)
       else (last (b_ids b), After)) b"

definition requestMessagesCount :: "'a slice_config \<Rightarrow> 'a slice_builder \<Rightarrow> 'a slice_builder" where
  "requestMessagesCount cf = fire_request (cf_none cf, Around)"

definition may_be_more :: "int option \<Rightarrow> bool" where
  "may_be_more skipped \<longleftrightarrow> (case skipped of None \<Rightarrow> True | Some k \<Rightarrow> k > 0)"

definition slice_front :: "int \<Rightarrow> 'a slice_builder \<Rightarrow> 'a slice_builder \<times> bool" where
  "slice_front removeFromBegin b =
     (if removeFromBegin > 0
      then (b\<lparr>b_ids := drop (nat removeFromBegin) (b_ids b),
              b_skippedBefore := map_option (\<lambda>k. k + removeFromBegin) (b_skippedBefore b)\<rparr>, False)
      else if removeFromBegin < 0 \<and> may_be_more (b_skippedBefore b)
      then (requestMessages Before b, True) else (b, False))"

definition slice_back :: "int \<Rightarrow> 'a slice_builder \<Rightarrow> 'a slice_builder \<times> bool" where
  "slice_back removeFromEnd b =
     (if removeFromEnd > 0
      then (b\<lparr>b_ids := take (length (b_ids b) - nat removeFromEnd) (b_ids b),
              b_skippedAfter := map_option (\<lambda>k. k + removeFromEnd) (b_skippedAfter b)\<rparr>, False)
      else if removeFromEnd < 0 \<and> may_be_more (b_skippedAfter b)
      then (requestMessages After b, True) else (b, False))"

definition sliceToLimits :: "'a::linorder slice_config \<Rightarrow> 'a slice_builder \<Rightarrow> 'a slice_builder" where
  "sliceToLimits cf b =
     (if cf_null cf (b_key b)
      then (if b_fullCount b = None then requestMessagesCount cf b else b)
      else let around = int (lower_pos (b_key b) (\<lambda>x. x) (b_ids b));
               removeFromBegin = around - b_limitBefore b;
               removeFromEnd = int (length (b_ids b)) - around - b_limitAfter b - 1;
               f = slice_front removeFromBegin b;
               e = slice_back removeFromEnd (fst f)
           in if b_fullCount b = None \<and> \<not> (snd f \<or> snd e)
              then requestMessagesCount cf (fst e) else fst e)"

definition fillSkippedAndSliceToLimits :: "'a::linorder slice_config \<Rightarrow> 'a slice_builder \<Rightarrow> 'a slice_builder" where
  "fillSkippedAndSliceToLimits cf b =
     (let n = int (length (b_ids b));
          b1 = (case (b_fullCount b, b_skippedBefore b, b_skippedAfter b) of
              (Some c, Some k, None) \<Rightarrow> b\<lparr>b_skippedAfter := Some (c - k - n)\<rparr>
            | (Some c, None, Some k) \<Rightarrow> b\<lparr>b_skippedBefore := Some (c - k - n)\<rparr>
            | _ \<Rightarrow> b)
      in sliceToLimits cf b1)"

definition adjustSkippedBefore :: "'a::linorder \<Rightarrow> int \<Rightarrow> 'a slice_builder \<Rightarrow> 'a slice_builder" where
  "adjustSkippedBefore oldId oldSkippedBefore b =
     b\<lparr>b_skippedBefore := Some (max (oldSkippedBefore - int (lower_pos oldId (\<lambda>x. x) (b_ids b))) 0)\<rparr>"

definition adjustSkippedAfter :: "'a::linorder \<Rightarrow> int \<Rightarrow> 'a slice_builder \<Rightarrow> 'a slice_builder" where
  "adjustSkippedAfter oldId oldSkippedAfter b =
     b\<lparr>b_skippedAfter := Some (max (oldSkippedAfter
         - (int (length (b_ids b)) - int (lower_pos oldId (\<lambda>x. x) (b_ids b)) - 1)) 0)\<rparr>"

definition merge_front :: "'a::linorder slice_config \<Rightarrow> 'a list \<Rightarrow> 'a flat_set \<Rightarrow> int option
    \<Rightarrow> 'a slice_builder \<Rightarrow> 'a slice_builder" where
  "merge_front cf wasIds messageIds skippedBefore b =
     (case skippedBefore of
        Some k \<Rightarrow> adjustSkippedBefore (hd messageIds) k b
      | None \<Rightarrow> (case b_skippedBefore b of
            Some k \<Rightarrow> if wasIds \<noteq> [] \<and> cf_possible cf (hd wasIds)
              then adjustSkippedBefore (hd wasIds) k b else b\<lparr>b_skippedBefore := None\<rparr>
          | None \<Rightarrow> b\<lparr>b_skippedBefore := None\<rparr>))"

definition merge_back :: "'a::linorder slice_config \<Rightarrow> 'a list \<Rightarrow> 'a flat_set \<Rightarrow> int option
    \<Rightarrow> 'a slice_builder \<Rightarrow> 'a slice_builder" where
  "merge_back cf wasIds messageIds skippedAfter b =
     (case skippedAfter of
        Some k \<Rightarrow> adjustSkippedAfter (last messageIds) k b
      | None \<Rightarrow> (case b_skippedAfter b of
            Some k \<Rightarrow> if wasIds \<noteq> [] \<and> cf_possible cf (last wasIds)
              then adjustSkippedAfter (last wasIds) k b else b\<lparr>b_skippedAfter := None\<rparr>
          | None \<Rightarrow> b\<lparr>b_skippedAfter := None\<rparr>))"

definition mergeSliceData :: "'a::linorder slice_config \<Rightarrow> int option \<Rightarrow> 'a flat_set \<Rightarrow> int option
    \<Rightarrow> int option \<Rightarrow> 'a slice_builder \<Rightarrow> 'a slice_builder" where
  "mergeSliceData cf cnt messageIds skippedBefore skippedAfter b =
     (if messageIds = [] then
        let b1 = (case cnt of
            Some c \<Rightarrow> if b_fullCount b \<noteq> Some c
              then (if size_reaches (length (b_ids b)) c
                    then b\<lparr>b_fullCount := Some (int (length (b_ids b))),
                           b_skippedBefore := Some 0, b_skippedAfter := Some 0\<rparr>
                    else b\<lparr>b_fullCount := Some c\<rparr>)
              else b
          | None \<Rightarrow> b)
        in fillSkippedAndSliceToLimits cf b1
      else
        let b1 = (if cnt \<noteq> None then b\<lparr>b_fullCount := cnt\<rparr> else b);
            b2 = b1\<lparr>b_ids := fs_merge messageIds (b_ids b1)\<rparr>;
            b3 = merge_front cf (b_ids b) messageIds skippedBefore b2;
            b4 = merge_back cf (b_ids b) messageIds skippedAfter b3
        in fillSkippedAndSliceToLimits cf b4)"

definition applyInitial :: "'a::linorder slice_config \<Rightarrow> 'a slice_result \<Rightarrow> 'a slice_builder \<Rightarrow> 'a slice_builder" where
  "applyInitial cf r b = mergeSliceData cf (r_count r) (r_ids r) (r_skippedBefore r) (r_skippedAfter r) b"

definition ranges_intersect :: "'a::linorder \<times> 'a \<Rightarrow> 'a \<times> 'a \<Rightarrow> bool" where
  "ranges_intersect range1 range2 \<longleftrightarrow> fst range1 \<le> snd range2 \<and> fst range2 \<le> snd range1"

definition applyUpdate :: "'a::linorder slice_config \<Rightarrow> 'a slice_update \<Rightarrow> 'a slice_builder
    \<Rightarrow> bool \<times> 'a slice_builder" where
  "applyUpdate cf update b =
     (let front = (if b_ids b = [] then b_key b else hd (b_ids b));
          back = (if b_ids b = [] then b_key b else last (b_ids b));
          needMergeMessages = (su_messages update \<noteq> None \<and> ranges_intersect (su_range update) (front, back))
      in if \<not> needMergeMessages \<and> su_count update = None then (False, b)
         else let skippedBefore = (if fst (su_range update) = cf_lo cf then Some 0 else None);
                  skippedAfter = (if snd (su_range update) = cf_hi cf then Some 0 else None)
         in (True, mergeSliceData cf (su_count update)
               (if needMergeMessages then the (su_messages update) else []) skippedBefore skippedAfter b))"

text \<open>Removal of one id, as \<open>MessagesSliceBuilder\<close> has it.\<close>

definition positive :: "int option \<Rightarrow> bool" where
  "positive k \<longleftrightarrow> (case k of None \<Rightarrow> False | Some x \<Rightarrow> x > 0)"

definition builder_removeOne :: "'a::linorder \<Rightarrow> 'a slice_builder \<Rightarrow> bool \<times> 'a slice_builder" where
  "builder_removeOne messageId b =
     (let changed = positive (b_fullCount b);
          b1 = (if changed then b\<lparr>b_fullCount := map_option (\<lambda>c. c - 1) (b_fullCount b)\<rparr> else b)
      in if messageId \<in> set (b_ids b1)
         then (True, b1\<lparr>b_ids := fs_remove messageId (b_ids b1)\<rparr>)
         else if b_ids b1 \<noteq> [] then
           (if hd (b_ids b1) > messageId \<and> positive (b_skippedBefore b1)
            then (True, b1\<lparr>b_skippedBefore := map_option (\<lambda>c. c - 1) (b_skippedBefore b1)\<rparr>)
            else if last (b_ids b1) < messageId \<and> positive (b_skippedAfter b1)
            then (True, b1\<lparr>b_skippedAfter := map_option (\<lambda>c. c - 1) (b_skippedAfter b1)\<rparr>)
            else (changed, b1))
         else (changed, b1))"

definition builder_removeAll :: "'a slice_builder \<Rightarrow> 'a slice_builder" where
  "builder_removeAll b =
     b\<lparr>b_ids := [], b_fullCount := Some 0, b_skippedBefore := Some 0, b_skippedAfter := Some 0\<rparr>"

definition builder_invalidated :: "'a::linorder slice_config \<Rightarrow> 'a slice_builder \<Rightarrow> 'a slice_builder" where
  "builder_invalidated cf b =
     sliceToLimits cf (b\<lparr>b_fullCount := None, b_skippedBefore := None, b_skippedAfter := None, b_ids := []\<rparr>)"

definition builder_bottomInvalidated :: "'a::linorder slice_config \<Rightarrow> 'a slice_builder \<Rightarrow> 'a slice_builder" where
  "builder_bottomInvalidated cf b = sliceToLimits cf (b\<lparr>b_fullCount := None, b_skippedAfter := None\<rparr>)"

subsection \<open>What a builder may say about the ids that exist\<close>

text \<open>
  \<open>W\<close> stands for all the ids that exist, in order. A builder is right about them when its ids
  are a contiguous part of \<open>W\<close> at the place of its key and each of the three counts it knows
  is the true one.
\<close>

definition splits :: "'a::linorder list \<Rightarrow> 'a slice_builder \<Rightarrow> 'a list \<Rightarrow> 'a list \<Rightarrow> bool" where
  "splits W b A B \<longleftrightarrow> W = A @ b_ids b @ B
     \<and> (\<forall>x \<in> set A. x < b_key b) \<and> (\<forall>x \<in> set B. b_key b \<le> x)
     \<and> b_skippedBefore b \<in> {None, Some (int (length A))}
     \<and> b_skippedAfter b \<in> {None, Some (int (length B))}"

definition sees :: "'a::linorder list \<Rightarrow> 'a slice_builder \<Rightarrow> bool" where
  "sees W b \<longleftrightarrow> sorted_wrt (<) W \<and> (\<exists>A B. splits W b A B)
     \<and> b_fullCount b \<in> {None, Some (int (length W))}"

text \<open>The ids a viewer with this key and these limits should show.\<close>

definition visible :: "'a::linorder \<Rightarrow> int \<Rightarrow> int \<Rightarrow> 'a list \<Rightarrow> 'a list" where
  "visible key limitBefore limitAfter W =
     (let L = filter (\<lambda>x. x < key) W; R = filter (\<lambda>x. key \<le> x) W
      in drop (length L - nat limitBefore) L @ take (nat limitAfter + 1) R)"

lemma takeWhile_none: "\<forall>x \<in> set xs. \<not> P x \<Longrightarrow> takeWhile P xs = []"
  by (cases xs) auto

lemma filter_split_at:
  assumes "sorted_wrt (<) (xs :: 'a::linorder list)"
  shows "filter (\<lambda>x. x < k) xs = take (lower_pos k (\<lambda>x. x) xs) xs
    \<and> filter (\<lambda>x. k \<le> x) xs = drop (lower_pos k (\<lambda>x. x) xs) xs"
  using assms
proof (induction xs)
  case (Cons x xs)
  show ?case
  proof (cases "x < k")
    case True
    with Cons show ?thesis by (auto simp: lower_pos_def)
  next
    case False
    then have "\<forall>y \<in> set xs. \<not> y < k \<and> k \<le> y" using Cons.prems by auto
    with False show ?thesis by (simp add: lower_pos_def takeWhile_none filter_empty_conv filter_id_conv not_less)
  qed
qed simp

lemmas filter_less_take = filter_split_at[THEN conjunct1]
lemmas filter_ge_drop = filter_split_at[THEN conjunct2]

lemma lower_pos_drop:
  "n \<le> lower_pos k f xs \<Longrightarrow> lower_pos k f (drop n xs) = lower_pos k f xs - n"
proof (induction n arbitrary: xs)
  case (Suc n)
  then show ?case by (cases xs) (auto simp: lower_pos_def split: if_splits)
qed simp

lemma lower_pos_take:
  "lower_pos k f xs \<le> n \<Longrightarrow> lower_pos k f (take n xs) = lower_pos k f xs"
proof (induction n arbitrary: xs)
  case 0
  then show ?case by (simp add: lower_pos_def)
next
  case (Suc n)
  then show ?case by (cases xs) (auto simp: lower_pos_def split: if_splits)
qed

lemma splits_fire [simp]:
  "splits W (fire_request r b) A B \<longleftrightarrow> splits W b A B"
  by (simp add: splits_def fire_request_def)

lemma requestMessages_simps [simp]:
  "splits W (requestMessages d b) A B \<longleftrightarrow> splits W b A B"
  "b_key (requestMessages d b) = b_key b" "b_ids (requestMessages d b) = b_ids b"
  "b_fullCount (requestMessages d b) = b_fullCount b"
  "b_requests (requestMessages d b) \<noteq> b_requests b"
  "length (b_requests (requestMessages d b)) = Suc (length (b_requests b))"
  by (simp_all add: requestMessages_def) (simp_all add: fire_request_def)

lemma requestMessagesCount_simps [simp]:
  "splits W (requestMessagesCount cf b) A B \<longleftrightarrow> splits W b A B"
  "b_key (requestMessagesCount cf b) = b_key b" "b_ids (requestMessagesCount cf b) = b_ids b"
  "b_fullCount (requestMessagesCount cf b) = b_fullCount b"
  "length (b_requests (requestMessagesCount cf b)) = Suc (length (b_requests b))"
  by (simp_all add: requestMessagesCount_def) (simp_all add: fire_request_def)

lemma slice_front_split:
  fixes n :: int
  assumes s: "splits W b A B" "sorted_wrt (<) W" and n: "n \<le> int (lower_pos (b_key b) (\<lambda>x. x) (b_ids b))"
  shows "splits W (fst (slice_front n b)) (A @ take (nat n) (b_ids b)) B"
    and "b_ids (fst (slice_front n b)) = drop (nat n) (b_ids b)"
    and "b_key (fst (slice_front n b)) = b_key b"
    and "b_fullCount (fst (slice_front n b)) = b_fullCount b"
    and "n < 0 \<Longrightarrow> \<not> snd (slice_front n b) \<Longrightarrow> A = []"
    and "length (b_requests (fst (slice_front n b))) = length (b_requests b) + of_bool (snd (slice_front n b))"
proof -
  have low: "x < b_key b" if "x \<in> set (take (nat n) (b_ids b))" for x
    using that n lower_pos_less[of _ "b_key b" "\<lambda>x. x" "b_ids b"] by (auto simp: in_set_conv_nth)
  have le: "nat n \<le> length (b_ids b)" using n lower_pos_le[of "b_key b" "\<lambda>x. x" "b_ids b"] by linarith
  show "splits W (fst (slice_front n b)) (A @ take (nat n) (b_ids b)) B"
    using s low le by (auto simp: slice_front_def splits_def fire_request_def requestMessages_def)
  show "n < 0 \<Longrightarrow> \<not> snd (slice_front n b) \<Longrightarrow> A = []"
    using s(1) by (auto simp: slice_front_def splits_def may_be_more_def split: if_splits option.splits)
qed (auto simp: slice_front_def)

lemma slice_back_split:
  fixes n :: int
  assumes s: "splits W b A B" "sorted_wrt (<) W"
    and n: "n \<le> int (length (b_ids b)) - int (lower_pos (b_key b) (\<lambda>x. x) (b_ids b))"
  shows "splits W (fst (slice_back n b)) A (drop (length (b_ids b) - nat n) (b_ids b) @ B)"
    and "b_ids (fst (slice_back n b)) = take (length (b_ids b) - nat n) (b_ids b)"
    and "b_key (fst (slice_back n b)) = b_key b"
    and "b_fullCount (fst (slice_back n b)) = b_fullCount b"
    and "n < 0 \<Longrightarrow> \<not> snd (slice_back n b) \<Longrightarrow> B = []"
    and "length (b_requests (fst (slice_back n b))) = length (b_requests b) + of_bool (snd (slice_back n b))"
proof -
  have srt: "sorted_wrt (<) (b_ids b)" using s by (auto simp: splits_def sorted_wrt_append)
  have high: "b_key b \<le> x" if "x \<in> set (drop (length (b_ids b) - nat n) (b_ids b))" for x
  proof (cases "n > 0")
    case True
    then have "lower_pos (b_key b) (\<lambda>x. x) (b_ids b) \<le> length (b_ids b) - nat n" using n by linarith
    moreover have "sorted (map (\<lambda>x. x) (b_ids b))" using srt by (simp add: strict_sorted_iff)
    ultimately show ?thesis
      using that lower_pos_after[of "\<lambda>x. x" "b_ids b" "b_key b"] by (fastforce simp: in_set_conv_nth)
  qed (use that in simp)
  have le: "nat n \<le> length (b_ids b)" using n by linarith
  show "splits W (fst (slice_back n b)) A (drop (length (b_ids b) - nat n) (b_ids b) @ B)"
    using s high le
    by (auto simp: slice_back_def splits_def fire_request_def requestMessages_def) 
  show "n < 0 \<Longrightarrow> \<not> snd (slice_back n b) \<Longrightarrow> B = []"
    using s(1) by (auto simp: slice_back_def splits_def may_be_more_def split: if_splits option.splits)
qed (auto simp: slice_back_def)

text \<open>
  Cutting to the limits: the builder stays right, and if it asks for nothing more, it knows
  the count and shows exactly what should be visible.
\<close>

lemma visible_split:
  assumes srt: "sorted_wrt (<) (A @ ids @ B)" and A: "\<forall>x \<in> set A. x < k" and B: "\<forall>x \<in> set B. k \<le> x"
    and lim: "0 \<le> lb" "0 \<le> la"
    and p: "p = lower_pos k (\<lambda>x. x) ids" "int p \<le> lb" "int (length ids) - int p \<le> la + 1"
    and fullA: "int p < lb \<Longrightarrow> A = []" and fullB: "int (length ids) - int p < la + 1 \<Longrightarrow> B = []"
  shows "ids = visible k lb la (A @ ids @ B)"
proof -
  have sids: "sorted_wrt (<) ids" using srt by (simp add: sorted_wrt_append)
  have ple: "p \<le> length ids" by (simp add: p(1) lower_pos_le)
  have fA: "filter (\<lambda>x. x < k) A = A" "filter (\<lambda>x. k \<le> x) A = []"
    using A by (auto simp: filter_id_conv filter_empty_conv not_le)
  have fB: "filter (\<lambda>x. x < k) B = []" "filter (\<lambda>x. k \<le> x) B = B"
    using B by (auto simp: filter_id_conv filter_empty_conv not_less)
  have L: "filter (\<lambda>x. x < k) (A @ ids @ B) = A @ take p ids"
    using fA fB filter_less_take[OF sids, of k] by (simp add: p(1))
  have R: "filter (\<lambda>x. k \<le> x) (A @ ids @ B) = drop p ids @ B"
    using fA fB filter_ge_drop[OF sids, of k] by (simp add: p(1))
  have dL: "drop (length (A @ take p ids) - nat lb) (A @ take p ids) = take p ids"
  proof (cases "int p < lb")
    case True
    then show ?thesis using fullA ple by simp
  next
    case False
    then have "nat lb = p" using p(2) by simp
    then show ?thesis using ple by simp
  qed
  have dR: "take (nat la + 1) (drop p ids @ B) = drop p ids"
  proof (cases "int (length ids) - int p < la + 1")
    case True
    then show ?thesis using fullB ple by simp
  next
    case False
    then have "nat la + 1 = length ids - p" using p(3) lim(2) ple by linarith
    then show ?thesis using ple by simp
  qed
  show ?thesis unfolding visible_def Let_def L R dL dR by simp
qed

lemma seesI:
  "sorted_wrt (<) W \<Longrightarrow> splits W b A B \<Longrightarrow> b_fullCount b \<in> {None, Some (int (length W))} \<Longrightarrow> sees W b"
  by (auto simp: sees_def)

lemma seesE:
  assumes "sees W b"
  obtains A B where "sorted_wrt (<) W" "splits W b A B" "b_fullCount b \<in> {None, Some (int (length W))}"
  using assms by (auto simp: sees_def)

lemma sliceToLimits_sees:
  assumes s: "sees W b" and lim: "0 \<le> b_limitBefore b" "0 \<le> b_limitAfter b"
  shows "sees W (sliceToLimits cf b)"
    and "\<not> cf_null cf (b_key b) \<Longrightarrow> b_requests (sliceToLimits cf b) = b_requests b \<Longrightarrow>
      b_ids (sliceToLimits cf b) = visible (b_key b) (b_limitBefore b) (b_limitAfter b) W
      \<and> b_fullCount (sliceToLimits cf b) = Some (int (length W))"
proof -
  obtain A B where sp: "splits W b A B" and srt: "sorted_wrt (<) W"
    and cnt: "b_fullCount b \<in> {None, Some (int (length W))}" using s by (auto simp: sees_def)
  let ?k = "b_key b"
  define p where "p = lower_pos ?k (\<lambda>x. x) (b_ids b)"
  define n where "n = int p - b_limitBefore b"
  define m where "m = int (length (b_ids b)) - int p - b_limitAfter b - 1"
  define f where "f = slice_front n b"
  define e where "e = slice_back m (fst f)"
  have ple: "p \<le> length (b_ids b)" by (simp add: p_def lower_pos_le)
  have np: "n \<le> int (lower_pos ?k (\<lambda>x. x) (b_ids b))" using lim by (simp add: n_def p_def)
  note F = slice_front_split[OF sp srt np, folded f_def]
  have pf: "lower_pos ?k (\<lambda>x. x) (b_ids (fst f)) = p - nat n"
    unfolding F(2) using np by (subst lower_pos_drop) (simp_all add: p_def)
  have len: "int (length (b_ids (fst f))) - int (p - nat n) = int (length (b_ids b)) - int p"
    using ple np by (simp add: F(2) p_def of_nat_diff)
  have mp: "m \<le> int (length (b_ids (fst f))) - int (lower_pos (b_key (fst f)) (\<lambda>x. x) (b_ids (fst f)))"
    unfolding F(3) pf len using lim by (simp add: m_def)
  note E = slice_back_split[OF F(1) srt mp, folded e_def]
  have key: "b_key (fst e) = ?k" using E(3) F(3) by simp
  have fc: "b_fullCount (fst e) = b_fullCount b" using E(4) F(4) by simp
  have eq: "sliceToLimits cf b = (if cf_null cf ?k then (if b_fullCount b = None then requestMessagesCount cf b else b)
      else if b_fullCount b = None \<and> \<not> (snd f \<or> snd e) then requestMessagesCount cf (fst e) else fst e)"
    by (simp add: sliceToLimits_def Let_def f_def e_def n_def m_def p_def)
  obtain A' B' where sp': "splits W (fst e) A' B'" and A': "A' = A @ take (nat n) (b_ids b)"
    and B': "B' = drop (length (b_ids (fst f)) - nat m) (b_ids (fst f)) @ B" using E(1) by auto
  show "sees W (sliceToLimits cf b)"
    using seesI[OF srt sp cnt] seesI[OF srt, of "fst e"] seesI[OF srt, of "requestMessagesCount cf b" A B]
      seesI[OF srt, of "requestMessagesCount cf (fst e)" A' B'] sp sp' cnt fc
    unfolding eq by (simp split: if_splits)
  assume k: "\<not> cf_null cf ?k" and same: "b_requests (sliceToLimits cf b) = b_requests b"
  have "length (b_requests (sliceToLimits cf b)) = length (b_requests b)" using same by simp
  then have no: "\<not> snd f" "\<not> snd e" "b_fullCount b \<noteq> None"
    using k E(6) F(6) unfolding eq by (auto split: if_splits)
  have res: "sliceToLimits cf b = fst e" using k no unfolding eq by auto
  let ?ids = "b_ids (fst e)"
  have lpe: "lower_pos ?k (\<lambda>x. x) ?ids = p - nat n"
  proof -
    have "p - nat n \<le> length (b_ids (fst f)) - nat m"
      using mp lower_pos_le[of ?k "\<lambda>x. x" "b_ids (fst f)"] unfolding F(3) pf by linarith
    then show ?thesis unfolding E(2) by (subst lower_pos_take) (simp_all add: pf)
  qed
  have lene: "length ?ids = length (b_ids (fst f)) - nat m" by (simp add: E(2))
  have W: "W = A' @ ?ids @ B'" using sp' by (simp add: splits_def)
  have An: "int (p - nat n) < b_limitBefore b \<Longrightarrow> A' = []"
  proof -
    assume "int (p - nat n) < b_limitBefore b"
    then have "n < 0" using np by (cases "n < 0") (auto simp: n_def p_def of_nat_diff)
    then show "A' = []" using F(5) no(1) by (simp add: A')
  qed
  have Bn: "int (length ?ids) - int (p - nat n) < b_limitAfter b + 1 \<Longrightarrow> B' = []"
  proof -
    assume a: "int (length ?ids) - int (p - nat n) < b_limitAfter b + 1"
    have "m < 0"
    proof (rule ccontr)
      assume "\<not> m < 0"
      then have "int (length ?ids) = int (length (b_ids (fst f))) - m" using mp by (simp add: lene of_nat_diff)
      with a len show False by (simp add: m_def)
    qed
    then show "B' = []" using E(5) no(2) by (simp add: B')
  qed
  have "?ids = visible ?k (b_limitBefore b) (b_limitAfter b) (A' @ ?ids @ B')"
  proof (rule visible_split[OF _ _ _ lim lpe[symmetric]])
    show "sorted_wrt (<) (A' @ ?ids @ B')" using srt W by simp
    show "\<forall>x \<in> set A'. x < ?k" "\<forall>x \<in> set B'. ?k \<le> x" using sp' key by (auto simp: splits_def)
    show "int (p - nat n) \<le> b_limitBefore b" using lim by (simp add: n_def)
    show "int (length ?ids) - int (p - nat n) \<le> b_limitAfter b + 1"
      using len mp lim by (cases "0 \<le> m") (auto simp: lene of_nat_diff m_def)
  qed (use An Bn in auto)
  then show "b_ids (sliceToLimits cf b) = visible ?k (b_limitBefore b) (b_limitAfter b) W
      \<and> b_fullCount (sliceToLimits cf b) = Some (int (length W))"
    using W fc no(3) cnt unfolding res by auto
qed

subsection \<open>Merging what the store knows\<close>

lemma pos_in_window:
  assumes srt: "sorted_wrt (<) (A @ M @ B)" and x: "x \<in> set M" and W: "A @ M @ B = P @ x # Q"
  shows "length P = length A + lower_pos x (\<lambda>x. x) M"
proof -
  obtain M1 M2 where M: "M = M1 @ x # M2" using x by (auto dest: split_list)
  have d: "distinct (A @ M1 @ x # M2 @ B)" using srt M by (simp add: strict_sorted_iff)
  have "\<forall>y \<in> set M1. y < x" using srt by (auto simp: M sorted_wrt_append)
  then have lp: "lower_pos x (\<lambda>x. x) M = length M1" by (simp add: M lower_pos_def takeWhile_append2)
  have "(A @ M1) @ x # (M2 @ B) = P @ x # Q" using W M by simp
  moreover have "x \<notin> set (A @ M1)" "x \<notin> set (M2 @ B)" using d by auto
  ultimately have "A @ M1 = P" using append_Cons_eq_iff[of x "A @ M1" "M2 @ B" P Q] by blast
  then show ?thesis using lp by auto
qed

lemma adjustSkippedBefore_split:
  assumes srt: "sorted_wrt (<) W" and w: "W = A @ b_ids b @ B"
    and u: "W = P @ ids @ Q" "ids \<noteq> []" "set ids \<subseteq> set (b_ids b)"
  shows "adjustSkippedBefore (hd ids) (int (length P)) b = b\<lparr>b_skippedBefore := Some (int (length A))\<rparr>"
proof -
  have mem: "hd ids \<in> set (b_ids b)" using u by auto
  have "A @ b_ids b @ B = P @ hd ids # (tl ids @ Q)" using u w by simp
  from pos_in_window[OF srt[unfolded w] mem this] have
    "length P = length A + lower_pos (hd ids) (\<lambda>x. x) (b_ids b)" .
  then show ?thesis by (simp add: adjustSkippedBefore_def)
qed

lemma adjustSkippedAfter_split:
  assumes srt: "sorted_wrt (<) W" and w: "W = A @ b_ids b @ B"
    and u: "W = P @ ids @ Q" "ids \<noteq> []" "set ids \<subseteq> set (b_ids b)"
  shows "adjustSkippedAfter (last ids) (int (length Q)) b = b\<lparr>b_skippedAfter := Some (int (length B))\<rparr>"
proof -
  have mem: "last ids \<in> set (b_ids b)" using u(2,3) last_in_set by blast
  have "P @ ids @ Q = P @ (butlast ids @ [last ids]) @ Q" using u(2) by simp
  then have "A @ b_ids b @ B = (P @ butlast ids) @ last ids # Q" using u(1) w by (metis append.assoc append_Cons append_Nil)
  from pos_in_window[OF srt[unfolded w] mem this] have
    p: "length P + (length ids - 1) = length A + lower_pos (last ids) (\<lambda>x. x) (b_ids b)" by simp
  have "length P + length ids + length Q = length A + length (b_ids b) + length B"
    using arg_cong[OF trans[OF u(1)[symmetric] w], of length] by simp
  moreover have "0 < length ids" using u(2) by simp
  ultimately have "int (length Q) - (int (length (b_ids b)) - int (lower_pos (last ids) (\<lambda>x. x) (b_ids b)) - 1)
      = int (length B)" using p by linarith
  then show ?thesis by (simp add: adjustSkippedAfter_def)
qed

lemma fillSkipped_split:
  assumes s: "sees W b"
  obtains b1 where "sees W b1" "b_key b1 = b_key b" "b_limitBefore b1 = b_limitBefore b"
    "b_limitAfter b1 = b_limitAfter b" "b_requests b1 = b_requests b"
    "fillSkippedAndSliceToLimits cf b = sliceToLimits cf b1"
proof -
  obtain A B where AB: "sorted_wrt (<) W" "splits W b A B" "b_fullCount b \<in> {None, Some (int (length W))}"
    using s by (rule seesE)
  define b1 where "b1 = (case (b_fullCount b, b_skippedBefore b, b_skippedAfter b) of
              (Some c, Some k, None) \<Rightarrow> b\<lparr>b_skippedAfter := Some (c - k - int (length (b_ids b)))\<rparr>
            | (Some c, None, Some k) \<Rightarrow> b\<lparr>b_skippedBefore := Some (c - k - int (length (b_ids b)))\<rparr>
            | _ \<Rightarrow> b)"
  have "splits W b1 A B" using AB(2,3) by (auto simp: b1_def splits_def split: option.splits)
  moreover have "b_fullCount b1 = b_fullCount b" by (auto simp: b1_def split: option.splits)
  ultimately have "sees W b1" using AB by (auto intro: seesI)
  moreover have "b_key b1 = b_key b" "b_limitBefore b1 = b_limitBefore b"
    "b_limitAfter b1 = b_limitAfter b" "b_requests b1 = b_requests b"
    by (simp_all add: b1_def split: option.splits)
  moreover have "fillSkippedAndSliceToLimits cf b = sliceToLimits cf b1"
    by (simp add: fillSkippedAndSliceToLimits_def b1_def Let_def)
  ultimately show ?thesis by (rule that)
qed

text \<open>What a page of ids merged into a builder has to be: a part of all ids, contiguous with its own.\<close>

definition page_fits :: "'a::linorder list \<Rightarrow> 'a flat_set \<Rightarrow> int option \<Rightarrow> int option \<Rightarrow> 'a slice_builder \<Rightarrow> bool" where
  "page_fits W U skippedBefore skippedAfter b \<longleftrightarrow> (\<exists>P Q A B. W = P @ U @ Q
     \<and> W = A @ fs_merge U (b_ids b) @ B
     \<and> (\<forall>x \<in> set A. x < b_key b) \<and> (\<forall>x \<in> set B. b_key b \<le> x)
     \<and> skippedBefore \<in> {None, Some (int (length P))} \<and> skippedAfter \<in> {None, Some (int (length Q))})"

lemma merge_ends_split:
  assumes srt: "sorted_wrt (<) W" and s: "splits W b A0 B0" and U: "U \<noteq> []"
    and fit: "W = P @ U @ Q" "W = A @ fs_merge U (b_ids b) @ B"
      "\<forall>x \<in> set A. x < b_key b" "\<forall>x \<in> set B. b_key b \<le> x"
      "sb \<in> {None, Some (int (length P))}" "sa \<in> {None, Some (int (length Q))}"
  shows "splits W (merge_back cf (b_ids b) U sa (merge_front cf (b_ids b) U sb
    (b\<lparr>b_fullCount := fc, b_ids := fs_merge U (b_ids b)\<rparr>))) A B"
proof -
  let ?b2 = "b\<lparr>b_fullCount := fc, b_ids := fs_merge U (b_ids b)\<rparr>"
  have W2: "W = A @ b_ids ?b2 @ B" using fit(2) by simp
  have W0: "W = A0 @ b_ids b @ B0" using s by (simp add: splits_def)
  have sub: "set U \<subseteq> set (b_ids ?b2)" "set (b_ids b) \<subseteq> set (b_ids ?b2)" by simp_all
  have skb: "b_skippedBefore b \<in> {None, Some (int (length A0))}" and ska: "b_skippedAfter b \<in> {None, Some (int (length B0))}"
    using s by (simp_all add: splits_def)
  define b3 where "b3 = merge_front cf (b_ids b) U sb ?b2"
  have "b3 = ?b2\<lparr>b_skippedBefore := Some (int (length A))\<rparr> \<or> b3 = ?b2\<lparr>b_skippedBefore := None\<rparr>"
    using fit(5) skb adjustSkippedBefore_split[OF srt W2 fit(1) U sub(1)]
      adjustSkippedBefore_split[OF srt W2 W0 _ sub(2)]
    by (auto simp: b3_def merge_front_def)
  then have b3: "b_ids b3 = fs_merge U (b_ids b)" "b_key b3 = b_key b" "b_skippedAfter b3 = b_skippedAfter b"
    "b_skippedBefore b3 \<in> {None, Some (int (length A))}" by auto
  have W3: "W = A @ b_ids b3 @ B" using W2 b3(1) by simp
  have sub3: "set U \<subseteq> set (b_ids b3)" "set (b_ids b) \<subseteq> set (b_ids b3)" by (simp_all add: b3(1))
  define b4 where "b4 = merge_back cf (b_ids b) U sa b3"
  have "b4 = b3\<lparr>b_skippedAfter := Some (int (length B))\<rparr> \<or> b4 = b3\<lparr>b_skippedAfter := None\<rparr>"
    using fit(6) ska adjustSkippedAfter_split[OF srt W3 fit(1) U sub3(1)]
      adjustSkippedAfter_split[OF srt W3 W0 _ sub3(2)] b3(3)
    by (auto simp: b4_def merge_back_def)
  then have "splits W b4 A B" using W3 b3 fit(3,4) by (auto simp: splits_def)
  then show ?thesis by (simp add: b4_def b3_def)
qed

lemma splits_key: "splits W b A B \<Longrightarrow> b_key c = b_key b \<Longrightarrow> b_ids c = b_ids b
    \<Longrightarrow> b_skippedBefore c = b_skippedBefore b \<Longrightarrow> b_skippedAfter c = b_skippedAfter b \<Longrightarrow> splits W c A B"
  by (simp add: splits_def)

lemma whole_window:
  "W = A @ ids @ B \<Longrightarrow> length W \<le> length ids \<Longrightarrow> A = [] \<and> B = []"
  by (simp add: le_add_same_cancel2)

text \<open>A merge is a cut to the limits of a builder that is right about the ids.\<close>

lemma mergeSliceData_split:
  assumes s: "sees W b" and c: "cnt \<in> {None, Some (int (length W))}"
    and fit: "U \<noteq> [] \<Longrightarrow> page_fits W U sb sa b"
  obtains b1 where "sees W b1" "b_key b1 = b_key b" "b_limitBefore b1 = b_limitBefore b"
    "b_limitAfter b1 = b_limitAfter b" "b_requests b1 = b_requests b"
    "mergeSliceData cf cnt U sb sa b = sliceToLimits cf b1"
proof -
  obtain A B where AB: "sorted_wrt (<) W" "splits W b A B" "b_fullCount b \<in> {None, Some (int (length W))}"
    using s by (rule seesE)
  have "\<exists>b0. sees W b0 \<and> b_key b0 = b_key b \<and> b_limitBefore b0 = b_limitBefore b
    \<and> b_limitAfter b0 = b_limitAfter b \<and> b_requests b0 = b_requests b
    \<and> mergeSliceData cf cnt U sb sa b = fillSkippedAndSliceToLimits cf b0"
  proof (cases "U = []")
    case True
    define b0 where "b0 = (case cnt of
            Some c \<Rightarrow> if b_fullCount b \<noteq> Some c
              then (if size_reaches (length (b_ids b)) c
                    then b\<lparr>b_fullCount := Some (int (length (b_ids b))),
                           b_skippedBefore := Some 0, b_skippedAfter := Some 0\<rparr>
                    else b\<lparr>b_fullCount := Some c\<rparr>)
              else b
          | None \<Rightarrow> b)"
    have W: "W = A @ b_ids b @ B" using AB(2) by (simp add: splits_def)
    have all: "A = [] \<and> B = []" if "size_reaches (length (b_ids b)) (int (length W))"
      using that whole_window[OF W] by (simp add: size_reaches_def)
    have "splits W b0 A B \<and> b_fullCount b0 \<in> {None, Some (int (length W))}"
    proof (cases "cnt = Some (int (length W)) \<and> size_reaches (length (b_ids b)) (int (length W))")
      case True
      then show ?thesis using all AB(2,3) by (auto simp: b0_def splits_def)
    next
      case False
      then show ?thesis using AB(2,3) c by (auto simp: b0_def splits_def)
    qed
    then have "sees W b0" using AB(1) by (auto intro: seesI)
    moreover have "b_key b0 = b_key b" "b_limitBefore b0 = b_limitBefore b"
      "b_limitAfter b0 = b_limitAfter b" "b_requests b0 = b_requests b"
      by (simp_all add: b0_def split: option.splits)
    ultimately show ?thesis using True
      by (intro exI[of _ b0]) (simp add: mergeSliceData_def Let_def b0_def)
  next
    case False
    obtain P Q A' B' where f: "W = P @ U @ Q" "W = A' @ fs_merge U (b_ids b) @ B'"
      "\<forall>x \<in> set A'. x < b_key b" "\<forall>x \<in> set B'. b_key b \<le> x"
      "sb \<in> {None, Some (int (length P))}" "sa \<in> {None, Some (int (length Q))}"
      using fit[OF False] unfolding page_fits_def by blast
    define fc where "fc = (if cnt \<noteq> None then cnt else b_fullCount b)"
    define b2 where "b2 = b\<lparr>b_fullCount := fc, b_ids := fs_merge U (b_ids b)\<rparr>"
    define b0 where "b0 = merge_back cf (b_ids b) U sa (merge_front cf (b_ids b) U sb b2)"
    have sp: "splits W b0 A' B'"
      unfolding b0_def b2_def by (rule merge_ends_split[OF AB(1,2) False f])
    have keep: "b_key b0 = b_key b \<and> b_limitBefore b0 = b_limitBefore b
      \<and> b_limitAfter b0 = b_limitAfter b \<and> b_requests b0 = b_requests b \<and> b_fullCount b0 = fc"
      by (auto simp: b0_def b2_def merge_front_def merge_back_def adjustSkippedBefore_def
          adjustSkippedAfter_def split: option.splits)
    have "sees W b0" using AB(1,3) sp keep c by (auto intro!: seesI simp: fc_def)
    moreover have "(if cnt \<noteq> None then b\<lparr>b_fullCount := cnt\<rparr> else b) = b\<lparr>b_fullCount := fc\<rparr>"
      by (simp add: fc_def)
    then have "mergeSliceData cf cnt U sb sa b = fillSkippedAndSliceToLimits cf b0"
      using False by (simp add: mergeSliceData_def Let_def b0_def b2_def)
    ultimately show ?thesis using keep by (intro exI[of _ b0]) simp
  qed
  then obtain b0 where b0: "sees W b0" "b_key b0 = b_key b" "b_limitBefore b0 = b_limitBefore b"
    "b_limitAfter b0 = b_limitAfter b" "b_requests b0 = b_requests b"
    "mergeSliceData cf cnt U sb sa b = fillSkippedAndSliceToLimits cf b0" by blast
  from fillSkipped_split[OF b0(1), of cf] obtain b1 where "sees W b1" "b_key b1 = b_key b0"
    "b_limitBefore b1 = b_limitBefore b0" "b_limitAfter b1 = b_limitAfter b0" "b_requests b1 = b_requests b0"
    "fillSkippedAndSliceToLimits cf b0 = sliceToLimits cf b1" by metis
  then show ?thesis using b0 that by simp
qed

text \<open>
  What a builder that is right, and shows everything visible unless it asked for more, is called
  here: the state every operation leaves.
\<close>

definition settled :: "'a::linorder slice_config \<Rightarrow> 'a list \<Rightarrow> 'a slice_builder \<Rightarrow> 'a slice_builder \<Rightarrow> bool" where
  "settled cf W old b \<longleftrightarrow> sees W b \<and> b_key b = b_key old
     \<and> b_limitBefore b = b_limitBefore old \<and> b_limitAfter b = b_limitAfter old
     \<and> (cf_null cf (b_key b) \<or> b_requests b \<noteq> b_requests old
        \<or> b_ids b = visible (b_key b) (b_limitBefore b) (b_limitAfter b) W
          \<and> b_fullCount b = Some (int (length W)))"

lemma sliceToLimits_keeps [simp]:
  "b_key (sliceToLimits cf b) = b_key b" "b_limitBefore (sliceToLimits cf b) = b_limitBefore b"
  "b_limitAfter (sliceToLimits cf b) = b_limitAfter b"
  by (simp_all add: sliceToLimits_def Let_def slice_front_def slice_back_def requestMessages_def
      requestMessagesCount_def fire_request_def)

lemma sliceToLimits_settled:
  "sees W b \<Longrightarrow> 0 \<le> b_limitBefore b \<Longrightarrow> 0 \<le> b_limitAfter b \<Longrightarrow> settled cf W b (sliceToLimits cf b)"
  using sliceToLimits_sees[of W b cf] by (auto simp: settled_def)

lemma mergeSliceData_settled:
  assumes "sees W b" "0 \<le> b_limitBefore b" "0 \<le> b_limitAfter b" "cnt \<in> {None, Some (int (length W))}"
    "U \<noteq> [] \<Longrightarrow> page_fits W U sb sa b"
  shows "settled cf W b (mergeSliceData cf cnt U sb sa b)"
proof -
  obtain b1 where b1: "sees W b1" "b_key b1 = b_key b" "b_limitBefore b1 = b_limitBefore b"
    "b_limitAfter b1 = b_limitAfter b" "b_requests b1 = b_requests b"
    "mergeSliceData cf cnt U sb sa b = sliceToLimits cf b1"
    using mergeSliceData_split[OF assms(1,4,5)] by metis
  have "settled cf W b1 (sliceToLimits cf b1)" using b1 assms(2,3) by (intro sliceToLimits_settled) simp_all
  then show ?thesis using b1 by (simp add: settled_def)
qed

subsection \<open>The operations on a builder that is right\<close>

lemma sorted_part:
  fixes W :: "'a::linorder list"
  assumes "sorted_wrt (<) W"
  shows "W = filter (\<lambda>x. x < f) W @ filter (\<lambda>x. f \<le> x \<and> x \<le> t) W @ filter (\<lambda>x. f \<le> x \<and> t < x) W"
proof (rule sorted_set_unique[OF assms])
  show "sorted_wrt (<) (filter (\<lambda>x. x < f) W @ filter (\<lambda>x. f \<le> x \<and> x \<le> t) W @ filter (\<lambda>x. f \<le> x \<and> t < x) W)"
    using assms by (fastforce simp: sorted_wrt_append sorted_wrt_filter)
qed auto

lemma sorted_part_unique:
  fixes W :: "'a::linorder list"
  assumes "sorted_wrt (<) W" "sorted_wrt (<) M" "set M = {x \<in> set W. f \<le> x \<and> x \<le> t}"
  shows "M = filter (\<lambda>x. f \<le> x \<and> x \<le> t) W"
  using assms by (intro sorted_set_unique) (auto simp: sorted_wrt_filter)

lemma splits_ids:
  assumes "sorted_wrt (<) W" "splits W b A B"
  shows "sorted_wrt (<) (b_ids b)"
    and "b_ids b \<noteq> [] \<Longrightarrow> x \<in> set W \<Longrightarrow> hd (b_ids b) \<le> x \<Longrightarrow> x \<le> last (b_ids b) \<Longrightarrow> x \<in> set (b_ids b)"
    and "b_ids b \<noteq> [] \<Longrightarrow> x \<in> set W \<Longrightarrow> x < hd (b_ids b) \<Longrightarrow> x \<in> set A"
    and "b_ids b \<noteq> [] \<Longrightarrow> x \<in> set W \<Longrightarrow> last (b_ids b) < x \<Longrightarrow> x \<in> set B"
proof -
  have W: "W = A @ b_ids b @ B" using assms(2) by (simp add: splits_def)
  have s: "sorted_wrt (<) (A @ b_ids b @ B)" using assms(1) W by simp
  show srt: "sorted_wrt (<) (b_ids b)" using s by (simp add: sorted_wrt_append)
  have AB: "y < z" if "y \<in> set A" "z \<in> set (b_ids b)" for y z
    using s that by (auto simp: sorted_wrt_append)
  have BB: "z < y" if "y \<in> set B" "z \<in> set (b_ids b)" for y z
    using s that by (auto simp: sorted_wrt_append)
  have ends: "hd (b_ids b) \<in> set (b_ids b)" "last (b_ids b) \<in> set (b_ids b)" if "b_ids b \<noteq> []"
    using that by simp_all
  have hl: "hd (b_ids b) \<le> z \<and> z \<le> last (b_ids b)" if "z \<in> set (b_ids b)" for z
    using that srt by (simp add: sorted_hd_le sorted_le_last)
  have mem: "x \<in> set W \<Longrightarrow> x \<in> set A \<or> x \<in> set (b_ids b) \<or> x \<in> set B" using W by auto
  show "b_ids b \<noteq> [] \<Longrightarrow> x \<in> set W \<Longrightarrow> hd (b_ids b) \<le> x \<Longrightarrow> x \<le> last (b_ids b) \<Longrightarrow> x \<in> set (b_ids b)"
    by (metis AB BB ends leD mem)
  show "b_ids b \<noteq> [] \<Longrightarrow> x \<in> set W \<Longrightarrow> x < hd (b_ids b) \<Longrightarrow> x \<in> set A"
    by (metis BB ends(1) hl leD less_asym mem)
  show "b_ids b \<noteq> [] \<Longrightarrow> x \<in> set W \<Longrightarrow> last (b_ids b) < x \<Longrightarrow> x \<in> set B"
    by (metis AB ends(2) hl leD less_asym mem)
qed

text \<open>An update that tells the truth: all ids that exist in its range, and the true count.\<close>

definition true_update :: "'a::linorder slice_config \<Rightarrow> 'a list \<Rightarrow> 'a slice_update \<Rightarrow> bool" where
  "true_update cf W u \<longleftrightarrow> su_count u \<in> {None, Some (int (length W))}
     \<and> (\<forall>ms. su_messages u = Some ms \<longrightarrow> fst (su_range u) \<le> snd (su_range u)
          \<and> ms = filter (\<lambda>x. fst (su_range u) \<le> x \<and> x \<le> snd (su_range u)) W)
     \<and> set W \<subseteq> {cf_lo cf .. cf_hi cf}"

lemma update_fits:
  assumes s: "sees W b" and u: "true_update cf W u" "su_messages u = Some ms"
    and meet: "ranges_intersect (su_range u) (if b_ids b = [] then b_key b else hd (b_ids b),
      if b_ids b = [] then b_key b else last (b_ids b))"
    and sb: "sb = (if fst (su_range u) = cf_lo cf then Some 0 else None)"
    and sa: "sa = (if snd (su_range u) = cf_hi cf then Some 0 else None)"
  shows "page_fits W ms sb sa b"
proof -
  obtain A B where AB: "sorted_wrt (<) W" "splits W b A B" using s by (rule seesE)
  define f where "f = fst (su_range u)"
  define t where "t = snd (su_range u)"
  have ft: "f \<le> t" and ms: "ms = filter (\<lambda>x. f \<le> x \<and> x \<le> t) W" and full: "set W \<subseteq> {cf_lo cf .. cf_hi cf}"
    using u by (auto simp: true_update_def f_def t_def)
  define f' where "f' = (if b_ids b = [] then f else min f (hd (b_ids b)))"
  define t' where "t' = (if b_ids b = [] then t else max t (last (b_ids b)))"
  have W: "W = A @ b_ids b @ B" and A: "\<forall>x \<in> set A. x < b_key b" and B: "\<forall>x \<in> set B. b_key b \<le> x"
    using AB(2) by (simp_all add: splits_def)
  note ids = splits_ids[OF AB]
  have hl: "hd (b_ids b) \<le> x \<and> x \<le> last (b_ids b)" if "x \<in> set (b_ids b)" for x
    using that ids(1) by (simp add: sorted_hd_le sorted_le_last)
  have sub: "set (b_ids b) \<subseteq> set W" using W by auto
  have "set (fs_merge ms (b_ids b)) = {x \<in> set W. f' \<le> x \<and> x \<le> t'}"
  proof (cases "b_ids b = []")
    case True
    then show ?thesis by (auto simp: ms f'_def t'_def)
  next
    case False
    have m: "f \<le> last (b_ids b)" "hd (b_ids b) \<le> t" using meet False by (simp_all add: ranges_intersect_def f_def t_def)
    have "hd (b_ids b) \<le> last (b_ids b)" using hl[of "hd (b_ids b)"] False by simp
    then have int: "f' \<le> x \<and> x \<le> t' \<longleftrightarrow> f \<le> x \<and> x \<le> t \<or> hd (b_ids b) \<le> x \<and> x \<le> last (b_ids b)" for x
      using m ft False by (auto simp: f'_def t'_def min_le_iff_disj le_max_iff_disj)
    show ?thesis using ids(2)[OF False] hl sub by (auto simp: ms int)
  qed
  then have mg: "fs_merge ms (b_ids b) = filter (\<lambda>x. f' \<le> x \<and> x \<le> t') W"
    by (intro sorted_part_unique[OF AB(1)]) (simp_all add: sorted_fs_merge ids(1))
  have low: "x < b_key b" if "x \<in> set W" "x < f'" for x
  proof (cases "b_ids b = []")
    case True
    then show ?thesis using that meet by (auto simp: f'_def f_def ranges_intersect_def)
  next
    case False
    then have "x \<in> set A" using that ids(3) by (simp add: f'_def)
    then show ?thesis using A by simp
  qed
  have high: "b_key b \<le> x" if "x \<in> set W" "t' < x" for x
  proof (cases "b_ids b = []")
    case True
    then show ?thesis using that meet by (auto simp: t'_def t_def ranges_intersect_def)
  next
    case False
    then have "x \<in> set B" using that ids(4) by (simp add: t'_def)
    then show ?thesis using B by simp
  qed
  have in_full: "\<not> x < cf_lo cf \<and> \<not> cf_hi cf < x" if "x \<in> set W" for x
    using full that by (auto simp: not_less)
  have sb': "sb \<in> {None, Some (int (length (filter (\<lambda>x. x < f) W)))}"
    using in_full by (auto simp: sb f_def filter_empty_conv)
  have sa': "sa \<in> {None, Some (int (length (filter (\<lambda>x. f \<le> x \<and> t < x) W)))}"
    using in_full by (auto simp: sa t_def filter_empty_conv)
  show ?thesis
    unfolding page_fits_def
  proof (intro exI conjI)
    show "W = filter (\<lambda>x. x < f) W @ ms @ filter (\<lambda>x. f \<le> x \<and> t < x) W"
      unfolding ms by (rule sorted_part[OF AB(1)])
    show "W = filter (\<lambda>x. x < f') W @ fs_merge ms (b_ids b) @ filter (\<lambda>x. f' \<le> x \<and> t' < x) W"
      unfolding mg by (rule sorted_part[OF AB(1)])
  qed (use low high sb' sa' in auto)
qed

lemma applyUpdate_settled:
  assumes s: "sees W b" and lim: "0 \<le> b_limitBefore b" "0 \<le> b_limitAfter b"
    and u: "true_update cf W u"
  shows "if fst (applyUpdate cf u b) then settled cf W b (snd (applyUpdate cf u b))
    else snd (applyUpdate cf u b) = b"
proof -
  let ?sb = "if fst (su_range u) = cf_lo cf then Some 0 else None"
  let ?sa = "if snd (su_range u) = cf_hi cf then Some 0 else None"
  let ?meet = "ranges_intersect (su_range u) (if b_ids b = [] then b_key b else hd (b_ids b),
      if b_ids b = [] then b_key b else last (b_ids b))"
  let ?ms = "if su_messages u \<noteq> None \<and> ?meet then the (su_messages u) else []"
  have c: "su_count u \<in> {None, Some (int (length W))}" using u by (simp add: true_update_def)
  have "?ms \<noteq> [] \<Longrightarrow> page_fits W ?ms ?sb ?sa b"
    using update_fits[OF s u] by (auto split: if_splits)
  from mergeSliceData_settled[OF s lim c this, of cf] show ?thesis
    by (simp add: applyUpdate_def Let_def)
qed

text \<open>A slice that knows everything there is in its range, and what it answers to a query.\<close>

definition slice_true :: "'a::linorder list \<Rightarrow> 'a slice \<Rightarrow> bool" where
  "slice_true W s \<longleftrightarrow> sl_from s \<le> sl_till s
     \<and> sl_messages s = filter (\<lambda>x. sl_from s \<le> x \<and> x \<le> sl_till s) W"

lemma ids_before_from:
  assumes "sorted_wrt (<) (sl_messages s)"
  shows "x \<in> set (ids_before a s) \<Longrightarrow> x < a" and "x \<in> set (ids_from a s) \<Longrightarrow> a \<le> x"
proof -
  show "x \<in> set (ids_before a s) \<Longrightarrow> x < a" by (auto simp: ids_before_def dest: set_takeWhileD)
  have "ids_from a s = drop (lower_pos a (\<lambda>x. x) (sl_messages s)) (sl_messages s)"
    by (simp add: ids_from_def lower_pos_def dropWhile_eq_drop)
  then have "ids_from a s = filter (\<lambda>x. a \<le> x) (sl_messages s)"
    using filter_ge_drop[OF assms, of a] by simp
  then show "x \<in> set (ids_from a s) \<Longrightarrow> a \<le> x" by simp
qed

lemma query_fits:
  assumes srt: "sorted_wrt (<) W" and full: "set W \<subseteq> {lo .. hi}" and s: "slice_true W s"
    and key: "sl_from s \<le> k" "k \<le> sl_till s" and lim: "0 \<le> lb" "0 \<le> la"
    and c: "cnt \<in> {None, Some (int (length W))}"
  defines "r \<equiv> queryFromSlice lo hi cnt \<lparr>q_around = k, q_limitBefore = lb, q_limitAfter = la\<rparr> s"
  shows "r_count r = cnt" and "page_fits W (r_ids r) (r_skippedBefore r) (r_skippedAfter r) (new_builder k lb la)"
proof -
  let ?q = "\<lparr>q_around = k, q_limitBefore = lb, q_limitAfter = la\<rparr>"
  let ?L = "ids_before k s" and ?R = "ids_from k s"
  let ?d = "length ?L - nat lb" and ?n = "nat la + 1"
  let ?F = "filter (\<lambda>x. x < sl_from s) W" and ?G = "filter (\<lambda>x. sl_from s \<le> x \<and> sl_till s < x) W"
  let ?P = "?F @ take ?d ?L" and ?Q = "drop ?n ?R @ ?G"
  have lim': "0 \<le> q_limitBefore ?q" "0 \<le> q_limitAfter ?q" using lim by simp_all
  have ms: "sl_messages s = filter (\<lambda>x. sl_from s \<le> x \<and> x \<le> sl_till s) W" using s by (simp add: slice_true_def)
  have sms: "sorted_wrt (<) (sl_messages s)" unfolding ms using srt by (rule sorted_wrt_filter)
  have ids: "r_ids r = drop ?d ?L @ take ?n ?R"
    unfolding r_def using queryFromSlice_ids[OF lim'] by simp
  have "W = ?F @ sl_messages s @ ?G" unfolding ms by (rule sorted_part[OF srt])
  also have "sl_messages s = ?L @ ?R" by (rule ids_split)
  finally have "W = ?F @ (?L @ ?R) @ ?G" .
  moreover have "?P @ r_ids r @ ?Q = ?F @ ((take ?d ?L @ drop ?d ?L) @ (take ?n ?R @ drop ?n ?R)) @ ?G"
    unfolding ids by (simp only: append.assoc)
  ultimately have W: "W = ?P @ r_ids r @ ?Q" by (simp only: append_take_drop_id)
  have len: "int (length W) = int (length ?P) + int (length (r_ids r)) + int (length ?Q)"
    by (subst W) (simp only: length_append of_nat_add add.assoc)
  have inW: "lo \<le> x \<and> x \<le> hi" if "x \<in> set W" for x using full that by auto
  have skb: "r_skippedBefore r = Some (int (length ?P))" if "sl_from s = lo"
  proof -
    have "?F = []" using inW that by (auto simp: filter_empty_conv not_less)
    then show ?thesis unfolding r_def using queryFromSlice_skipped(1)[OF lim' that] by simp
  qed
  have ska: "r_skippedAfter r = Some (int (length ?Q))" if "sl_till s = hi"
  proof -
    have "?G = []" using inW that by (auto simp: filter_empty_conv not_less)
    then show ?thesis unfolding r_def using queryFromSlice_skipped(2)[OF lim' that] by simp
  qed
  have other: "r_skippedBefore r \<in> {None, Some (c - a - int (length (r_ids r)))}"
    if "sl_from s \<noteq> lo" "r_skippedAfter r = Some a" "cnt = Some c" for a c
    using that by (auto simp: r_def queryFromSlice_def Let_def split: if_splits)
  have other': "r_skippedAfter r \<in> {None, Some (c - a - int (length (r_ids r)))}"
    if "sl_till s \<noteq> hi" "r_skippedBefore r = Some a" "cnt = Some c" for a c
    using that by (auto simp: r_def queryFromSlice_def Let_def split: if_splits)
  have none: "r_skippedBefore r = None" if "sl_from s \<noteq> lo" "cnt = None \<or> sl_till s \<noteq> hi"
    using that by (auto simp: r_def queryFromSlice_def Let_def split: option.splits)
  have none': "r_skippedAfter r = None" if "sl_till s \<noteq> hi" "cnt = None \<or> sl_from s \<noteq> lo"
    using that by (auto simp: r_def queryFromSlice_def Let_def split: option.splits)
  show "r_count r = cnt" unfolding r_def by (rule queryFromSlice_skipped(4)[OF lim'])
  have b: "r_skippedBefore r \<in> {None, Some (int (length ?P))}"
  proof (cases "sl_from s = lo")
    case False
    then show ?thesis
      using none other[OF _ ska] c len by (cases "cnt = None \<or> sl_till s \<noteq> hi") auto
  qed (use skb in simp)
  have a: "r_skippedAfter r \<in> {None, Some (int (length ?Q))}"
  proof (cases "sl_till s = hi")
    case False
    then show ?thesis
      using none' other'[OF _ skb] c len by (cases "cnt = None \<or> sl_from s \<noteq> lo") auto
  qed (use ska in simp)
  have low: "\<forall>x \<in> set ?P. x < k" using key(1) ids_before_from(1)[OF sms, of _ k] by (auto dest: in_set_takeD)
  have high: "\<forall>x \<in> set ?Q. k \<le> x" using key(2) ids_before_from(2)[OF sms, of _ k] by (auto dest: in_set_dropD)
  have "sorted_wrt (<) (?P @ r_ids r @ ?Q)" using srt W by simp
  then have "sorted_wrt (<) (r_ids r)" by (simp only: sorted_wrt_append)
  then have "fs_merge (r_ids r) [] = r_ids r" by (intro sorted_set_unique) (simp_all add: sorted_fs_merge)
  then show "page_fits W (r_ids r) (r_skippedBefore r) (r_skippedAfter r) (new_builder k lb la)"
    unfolding page_fits_def using W low high a b
    by (intro exI[of _ ?P] exI[of _ ?Q] conjI) (simp_all only: new_builder_def slice_builder.simps)
qed

lemma new_builder_sees:
  assumes "sorted_wrt (<) W"
  shows "sees W (new_builder k lb la)"
proof -
  have "filter (\<lambda>x. x < k) W @ filter (\<lambda>x. k \<le> x) W = W"
    unfolding filter_less_take[OF assms] filter_ge_drop[OF assms] by (rule append_take_drop_id)
  then have "splits W (new_builder k lb la) (filter (\<lambda>x. x < k) W) (filter (\<lambda>x. k \<le> x) W)"
    by (simp add: splits_def new_builder_def)
  with assms show ?thesis by (rule seesI) (simp add: new_builder_def)
qed

lemma applyInitial_settled:
  assumes srt: "sorted_wrt (<) W" and full: "set W \<subseteq> {cf_lo cf .. cf_hi cf}" and s: "slice_true W s"
    and key: "sl_from s \<le> k" "k \<le> sl_till s" and lim: "0 \<le> lb" "0 \<le> la"
    and c: "cnt \<in> {None, Some (int (length W))}"
  shows "settled cf W (new_builder k lb la) (applyInitial cf
    (queryFromSlice (cf_lo cf) (cf_hi cf) cnt \<lparr>q_around = k, q_limitBefore = lb, q_limitAfter = la\<rparr> s)
    (new_builder k lb la))"
  unfolding applyInitial_def
  using query_fits[OF srt full s key lim c]
  by (intro mergeSliceData_settled new_builder_sees) (use srt lim c in \<open>simp_all add: new_builder_def\<close>)

text \<open>Removing an id that exists.\<close>

lemma fs_remove_append: "fs_remove m (A @ B) = fs_remove m A @ fs_remove m B"
  by (simp add: fs_remove_def)

lemma fs_remove_other: "m \<notin> set A \<Longrightarrow> fs_remove m A = A"
  by (auto simp: fs_remove_def filter_id_conv)

lemma length_fs_remove:
  "sorted_wrt (<) (W :: 'a::linorder list) \<Longrightarrow> m \<in> set W \<Longrightarrow> int (length (fs_remove m W)) = int (length W) - 1"
  using card_gt_0_iff[of "set W"] by (auto simp: length_flat_card sorted_fs_remove of_nat_diff)

lemma removeOne_sees:
  assumes s: "sees W b" and m: "m \<in> set W" and ids: "b_ids b \<noteq> []"
  shows "sees (fs_remove m W) (snd (builder_removeOne m b))"
proof -
  obtain A B where AB: "sorted_wrt (<) W" "splits W b A B" "b_fullCount b \<in> {None, Some (int (length W))}"
    using s by (rule seesE)
  have W: "W = A @ b_ids b @ B" and k: "\<forall>x \<in> set A. x < b_key b" "\<forall>x \<in> set B. b_key b \<le> x"
    and sk: "b_skippedBefore b \<in> {None, Some (int (length A))}" "b_skippedAfter b \<in> {None, Some (int (length B))}"
    using AB(2) by (simp_all add: splits_def)
  have srt: "sorted_wrt (<) A" "sorted_wrt (<) B" and AI: "\<forall>x \<in> set A. \<forall>y \<in> set (b_ids b). x < y"
    and BI: "\<forall>x \<in> set B. \<forall>y \<in> set (b_ids b). y < x" and AB': "\<forall>x \<in> set A. \<forall>y \<in> set B. x < y"
    using AB(1) W by (auto simp: sorted_wrt_append)
  have rW: "fs_remove m W = fs_remove m A @ fs_remove m (b_ids b) @ fs_remove m B"
    unfolding W by (simp add: fs_remove_append)
  let ?b1 = "if positive (b_fullCount b) then b\<lparr>b_fullCount := map_option (\<lambda>c. c - 1) (b_fullCount b)\<rparr> else b"
  have lenW: "0 < length W" using m by (cases W) auto
  have fc: "b_fullCount ?b1 \<in> {None, Some (int (length (fs_remove m W)))}"
    using AB(3) lenW length_fs_remove[OF AB(1) m] by (auto simp: positive_def)
  have fc': "b_fullCount (snd (builder_removeOne m b)) = b_fullCount ?b1"
    by (simp add: builder_removeOne_def Let_def)
  have srt': "sorted_wrt (<) (fs_remove m W)" using AB(1) by (rule sorted_fs_remove)
  have ends: "hd (b_ids b) \<in> set (b_ids b)" "last (b_ids b) \<in> set (b_ids b)" using ids by simp_all
  have "splits (fs_remove m W) (snd (builder_removeOne m b)) (fs_remove m A) (fs_remove m B)"
  proof (cases "m \<in> set (b_ids b)")
    case True
    then have "m \<notin> set A" "m \<notin> set B" using AI BI by auto
    then have "fs_remove m A = A" "fs_remove m B = B" by (simp_all add: fs_remove_other)
    then show ?thesis using True k sk rW by (simp add: builder_removeOne_def Let_def splits_def)
  next
    case False
    then consider "m \<in> set A" | "m \<in> set B" using m W by auto
    then show ?thesis
    proof cases
      case 1
      then have mB: "m \<notin> set B" and h: "m < hd (b_ids b)" "\<not> last (b_ids b) < m"
        using AB' AI ends 1 by (blast, blast, meson less_asym)
      moreover have "0 < length A" using 1 by (cases A) auto
      moreover have "int (length (fs_remove m A)) = int (length A) - 1" using length_fs_remove[OF srt(1) 1] .
      ultimately show ?thesis
        using False ids k sk rW
        by (auto simp: builder_removeOne_def Let_def splits_def fs_remove_other positive_def)
    next
      case 2
      then have mA: "m \<notin> set A" and h: "last (b_ids b) < m" "\<not> m < hd (b_ids b)"
        using AB' BI ends 2 by (blast, blast, meson less_asym)
      moreover have "0 < length B" using 2 by (cases B) auto
      moreover have "int (length (fs_remove m B)) = int (length B) - 1" using length_fs_remove[OF srt(2) 2] .
      ultimately show ?thesis
        using False ids k sk rW
        by (auto simp: builder_removeOne_def Let_def splits_def fs_remove_other positive_def)
    qed
  qed
  then show ?thesis using srt' fc fc' by (auto intro: seesI)
qed

subsection \<open>Stores that know the truth\<close>

text \<open>
  For well-formed slices, knowing everything in their ranges is one equation between the known
  ids and the covered positions.
\<close>

lemma slices_true_iff:
  assumes ok: "slices_ok ss" and srt: "sorted_wrt (<) W"
  shows "(\<forall>s \<in> set ss. slice_true W s) \<longleftrightarrow> slice_ids ss = set W \<inter> covered ss"
proof
  assume t: "\<forall>s \<in> set ss. slice_true W s"
  then have "set (sl_messages s) = set W \<inter> {sl_from s .. sl_till s}" if "s \<in> set ss" for s
    using that by (auto simp: slice_true_def)
  then show "slice_ids ss = set W \<inter> covered ss" unfolding slice_ids_def covered_def by blast
next
  assume eq: "slice_ids ss = set W \<inter> covered ss"
  show "\<forall>s \<in> set ss. slice_true W s"
  proof
    fix s assume s: "s \<in> set ss"
    then obtain i where i: "i < length ss" "s = ss ! i" by (auto simp: in_set_conv_nth)
    have sok: "slice_ok s" using ok s by (simp add: slices_ok_def)
    have "x \<in> set (sl_messages s)" if x: "x \<in> set W" "sl_from s \<le> x" "x \<le> sl_till s" for x
    proof -
      have "x \<in> covered ss" using x(2,3) s by (auto simp: covered_def)
      then have "x \<in> slice_ids ss" using x(1) eq by simp
      then show ?thesis using find_slice_ids[OF ok find_slice_at[OF ok i(1)]] x(2,3) i(2) by simp
    qed
    moreover have "set (sl_messages s) \<subseteq> slice_ids ss" using s by (auto simp: slice_ids_def)
    ultimately have "set (sl_messages s) = {x \<in> set W. sl_from s \<le> x \<and> x \<le> sl_till s}"
      using sok eq by (auto simp: slice_ok_def)
    then show "slice_true W s"
      using sok sorted_part_unique[OF srt] by (simp add: slice_true_def slice_ok_def)
  qed
qed

lemma fold_merge_empty:
  "\<forall>s \<in> set rest. sl_messages s = [] \<Longrightarrow> sl_messages (fold merge_slice rest acc) = sl_messages acc"
proof (induction rest arbitrary: acc)
  case (Cons s rest)
  have "\<forall>x \<in> set rest. sl_messages x = []" using Cons.prems by simp
  note IH = Cons.IH[OF this, of "merge_slice s acc"]
  have "sl_messages (merge_slice s acc) = sl_messages acc"
    using Cons.prems by (simp add: slice_merge_def)
  then show ?case using IH by (simp only: fold_simps)
qed simp

text \<open>Adding one id that is not known counts one new id, if the slices it runs into are empty.\<close>

lemma addRangeItems_one:
  assumes ok: "slices_ok ss" and m: "m \<le> t" "m \<notin> slice_ids ss"
    and later: "\<forall>s \<in> set ss. m < sl_from s \<and> sl_from s \<le> t \<longrightarrow> sl_messages s = []"
  shows "snd (snd (addRangeItems [m] (m, t) ss)) = 1"
proof -
  let ?i = "unite_from (m, t) ss" and ?j = "unite_till (m, t) ss"
  have jl: "?j \<le> length ss" by (simp add: unite_till_def upper_pos_le)
  note split = slices_split[OF ok m(1)]
  show ?thesis
  proof (cases "?i < ?j")
    case True
    let ?first = "ss ! ?i" and ?rest = "take (?j - (?i + 1)) (drop (?i + 1) ss)"
    have fm: "?first \<in> set ss" using True jl by simp
    have fok: "slice_ok ?first" using ok fm by (simp add: slices_ok_def)
    have mt: "m \<le> sl_till ?first" using True jl unfolding unite_from_def by (auto intro!: lower_pos_at)
    have "sl_messages s = []" if s: "s \<in> set ?rest" for s
    proof -
      have sd: "s \<in> set (drop (Suc ?i) ss)" using s by (auto dest: in_set_takeD)
      have "sl_till ?first < sl_from s"
      proof -
        have "ss = take ?i ss @ ?first # drop (Suc ?i) ss" using True jl by (intro id_take_nth_drop) simp
        then have "slices_ok (take ?i ss @ ?first # drop (Suc ?i) ss)" using ok by simp
        then show ?thesis using sd by (simp add: slices_ok_append)
      qed
      moreover have "sl_from s \<le> t"
      proof (rule split(3))
        have "?rest = drop (?i + 1) (take ?j ss)" by (simp add: drop_take)
        then show "s \<in> set (take ?j ss)" using s by (auto dest: in_set_dropD)
      qed
      moreover have "s \<in> set ss" using sd by (rule in_set_dropD)
      ultimately show ?thesis using later mt by auto
    qed
    then have "sl_messages (fold merge_slice ?rest (slice_merge [m] (m, t) ?first)) = fs_insert m (sl_messages ?first)"
      using fold_merge_empty[of ?rest] by (simp add: slice_merge_def fs_merge_def)
    moreover have "length (fs_insert m (sl_messages ?first)) = Suc (length (sl_messages ?first))"
      using fs.insert_length[of "sl_messages ?first" m] fok m(2) fm by (auto simp: slice_ok_def slice_ids_def)
    ultimately show ?thesis using True by (simp add: addRangeItems_def uniteAndAdd_def Let_def)
  next
    case False
    then have ij: "?i = ?j" using split(5) by simp
    let ?new = "\<lparr>sl_messages = fs_of_list [m], sl_from = m, sl_till = t\<rparr>"
    have "sl_from a < m" if "a \<in> set (take ?i ss)" for a
      using split(1)[OF that] ok that by (force dest: in_set_takeD slices_ok_slice slice_ok_range)
    moreover have "m < sl_from c" if "c \<in> set (drop ?i ss)" for c
      using split(4)[of c] that m(1) by (fastforce simp: ij)
    ultimately have "slice_emplace ?new (take ?i ss @ drop ?i ss) = (take ?i ss @ [?new] @ drop ?i ss, ?new)"
      by (intro slice_emplace_gap) auto
    then show ?thesis using False by (simp add: addRangeItems_def Let_def fs_of_list_def fs_merge_def)
  qed
qed

text \<open>Lowering the end of the last slice to its last id loses nothing.\<close>

lemma invalidate_bottom_true:
  assumes ok: "slices_ok ss" and t: "slice_ids ss = set W \<inter> covered ss"
  shows "slice_ids (slices_invalidate_bottom hi ss) = set W \<inter> covered (slices_invalidate_bottom hi ss)"
proof -
  note spec = slices_invalidate_bottom_spec[OF ok, of hi]
  have "slice_ids ss \<subseteq> covered (slices_invalidate_bottom hi ss)"
    using slice_ids_covered[OF spec(1)] spec(2) by simp
  then show ?thesis using spec(2,3) t by blast
qed

end
