(* ===== verification/SparseIdsList.thy ===== *)
theory SparseIdsList
  imports Slices PeerIds
begin

text \<open>
  \<open>Storage::SparseIdsList\<close> (\<open>storage/storage_sparse_ids_list.{h,cpp}\<close>): the ids of the
  shared media of a chat that were loaded so far, as slices of \<open>MsgId\<close> (a signed 64-bit
  integer, here an \<open>int\<close>), with the total count when the server told it. The updates the list
  sends to its subscribers are recorded in \<open>sp_fired\<close>.
\<close>

record sparse_list =
  sp_count :: "int option"
  sp_slices :: "int slice list"
  sp_fired :: "int slice_update list"

definition new_sparse_list :: sparse_list where
  "new_sparse_list = \<lparr>sp_count = None, sp_slices = [], sp_fired = []\<rparr>"

definition sparse_addRangeItemsAndCountNew :: "int list \<Rightarrow> int \<times> int \<Rightarrow> int slice list
    \<Rightarrow> int slice list \<times> int slice option \<times> int" where
  "sparse_addRangeItemsAndCountNew messages noSkipRange slices =
     (if fst noSkipRange = snd noSkipRange \<and> messages = [] then (slices, None, 0)
      else let r = addRangeItems messages noSkipRange slices
           in (fst r, Some (fst (snd r)), snd (snd r)))"

definition full_slice_range :: "int slice \<Rightarrow> bool" where
  "full_slice_range s \<longleftrightarrow> sl_from s = 0 \<and> sl_till s = ServerMaxMsgId"

definition sparse_addRange :: "int list \<Rightarrow> int \<times> int \<Rightarrow> int option \<Rightarrow> bool
    \<Rightarrow> sparse_list \<Rightarrow> sparse_list" where
  "sparse_addRange messages noSkipRange cnt incrementCount s =
     (let r = sparse_addRangeItemsAndCountNew messages noSkipRange (sp_slices s);
          slices1 = fst r; upd = fst (snd r); added = snd (snd r);
          count1 = (case cnt of Some c \<Rightarrow> Some c
            | None \<Rightarrow> (case sp_count s of
                Some c \<Rightarrow> if incrementCount \<and> added > 0 then Some (c + added) else Some c
              | None \<Rightarrow> None));
          slices2 = (if length slices1 = 1
            \<and> (case count1 of Some c \<Rightarrow> size_reaches (length (sl_messages (hd slices1))) c
                            | None \<Rightarrow> False)
            then [(hd slices1)\<lparr>sl_from := 0, sl_till := ServerMaxMsgId\<rparr>] else slices1);
          count2 = (if length slices2 = 1 \<and> full_slice_range (hd slices2)
            then Some (int (length (sl_messages (hd slices2)))) else count1);
          count3 = (case (count2, upd) of
              (Some c, Some u) \<Rightarrow> Some (max c (int (length (sl_messages u))))
            | _ \<Rightarrow> count2);
          update = \<lparr>su_messages = map_option sl_messages upd,
            su_range = (case upd of Some u \<Rightarrow> (sl_from u, sl_till u) | None \<Rightarrow> (0, 0)),
            su_count = count3\<rparr>
      in \<lparr>sp_count = count3, sp_slices = slices2, sp_fired = sp_fired s @ [update]\<rparr>)"

definition sparse_addNew :: "int \<Rightarrow> sparse_list \<Rightarrow> sparse_list" where
  "sparse_addNew messageId = sparse_addRange [messageId] (messageId, ServerMaxMsgId) None True"

definition sparse_addExisting :: "int \<Rightarrow> int \<times> int \<Rightarrow> sparse_list \<Rightarrow> sparse_list" where
  "sparse_addExisting messageId noSkipRange = sparse_addRange [messageId] noSkipRange None False"

definition sparse_addSlice :: "int list \<Rightarrow> int \<times> int \<Rightarrow> int option \<Rightarrow> sparse_list \<Rightarrow> sparse_list" where
  "sparse_addSlice messageIds noSkipRange cnt = sparse_addRange messageIds noSkipRange cnt False"

definition sparse_removeOne :: "int \<Rightarrow> sparse_list \<Rightarrow> sparse_list" where
  "sparse_removeOne messageId s =
     s\<lparr>sp_slices := slices_remove messageId (sp_slices s),
       sp_count := map_option (\<lambda>c. c - 1) (sp_count s)\<rparr>"

definition sparse_removeAll :: "sparse_list \<Rightarrow> sparse_list" where
  "sparse_removeAll s =
     s\<lparr>sp_slices := [\<lparr>sl_messages = [], sl_from = 0, sl_till = ServerMaxMsgId\<rparr>],
       sp_count := Some 0\<rparr>"

definition sparse_invalidateBottom :: "sparse_list \<Rightarrow> sparse_list" where
  "sparse_invalidateBottom s =
     s\<lparr>sp_slices := slices_invalidate_bottom ServerMaxMsgId (sp_slices s), sp_count := None\<rparr>"

definition empty_result :: "'a slice_result" where
  "empty_result = \<lparr>r_count = None, r_skippedBefore = None, r_skippedAfter = None, r_ids = []\<rparr>"

definition sparse_snapshot :: "int slice_query \<Rightarrow> sparse_list \<Rightarrow> int slice_result" where
  "sparse_snapshot query s =
     (case (if q_around query \<noteq> 0 then find_slice (q_around query) (sp_slices s) else None) of
        Some i \<Rightarrow> queryFromSlice 0 ServerMaxMsgId (sp_count s) query (sp_slices s ! i)
      | None \<Rightarrow> empty_result\<lparr>r_count := sp_count s\<rparr>)"

text \<open>\<open>query\<close> sends the snapshot only when it says something.\<close>

definition sparse_query :: "int slice_query \<Rightarrow> sparse_list \<Rightarrow> int slice_result option" where
  "sparse_query query s =
     (let now = sparse_snapshot query s
      in if r_ids now \<noteq> [] \<or> r_count now \<noteq> None then Some now else None)"

definition sparse_empty :: "sparse_list \<Rightarrow> bool" where
  "sparse_empty s \<longleftrightarrow> (\<forall>sl \<in> set (sp_slices s). sl_messages sl = [])"

subsection \<open>The invariant\<close>

definition sparse_ok :: "sparse_list \<Rightarrow> bool" where
  "sparse_ok s \<longleftrightarrow> slices_ok (sp_slices s) \<and> covered (sp_slices s) \<subseteq> {0 .. ServerMaxMsgId}"

lemma sparse_addRange_slices:
  fixes ms f t cnt inc s
  defines "ss \<equiv> (if f = t \<and> ms = [] then sp_slices s else fst (addRangeItems ms (f, t) (sp_slices s)))"
  shows "sp_slices (sparse_addRange ms (f, t) cnt inc s) = ss
    \<or> (\<exists>sl. ss = [sl] \<and> sp_slices (sparse_addRange ms (f, t) cnt inc s)
          = [sl\<lparr>sl_from := 0, sl_till := ServerMaxMsgId\<rparr>])"
  by (auto simp: sparse_addRange_def sparse_addRangeItemsAndCountNew_def Let_def ss_def length_Suc_conv)

lemma widen_slice:
  assumes "slices_ok [sl]" "covered [sl] \<subseteq> {0 .. ServerMaxMsgId}"
  shows "slices_ok [sl\<lparr>sl_from := 0, sl_till := ServerMaxMsgId\<rparr>]"
proof -
  have "slice_ok sl" using assms(1) by simp
  then have "set (sl_messages sl) \<subseteq> {sl_from sl .. sl_till sl}" by (auto simp: slice_ok_def)
  then have "set (sl_messages sl) \<subseteq> {0 .. ServerMaxMsgId}" using assms(2) by auto
  with \<open>slice_ok sl\<close> show ?thesis by (auto simp: slice_ok_def ServerMaxMsgId_def)
qed

lemma sparse_addRange_spec:
  fixes cnt :: "int option" and inc :: bool
  assumes ok: "sparse_ok s" and r: "0 \<le> f" "f \<le> t" "t \<le> ServerMaxMsgId" and ms: "set ms \<subseteq> {f .. t}"
  defines "s' \<equiv> sparse_addRange ms (f, t) cnt inc s"
  shows "sparse_ok s'" and "slice_ids (sp_slices s') = slice_ids (sp_slices s) \<union> set ms"
    and "covered (sp_slices s) \<subseteq> covered (sp_slices s')"
    and "f \<noteq> t \<or> ms \<noteq> [] \<Longrightarrow> {f .. t} \<subseteq> covered (sp_slices s')"
    and "covered (sp_slices s') \<subseteq> covered (sp_slices s) \<union> {f .. t}
      \<or> covered (sp_slices s') = {0 .. ServerMaxMsgId}"
proof -
  let ?triv = "f = t \<and> ms = []"
  let ?ss = "if ?triv then sp_slices s else fst (addRangeItems ms (f, t) (sp_slices s))"
  have sok: "slices_ok (sp_slices s)" and cov: "covered (sp_slices s) \<subseteq> {0 .. ServerMaxMsgId}"
    using ok by (auto simp: sparse_ok_def)
  obtain ss' u n where eq: "addRangeItems ms (f, t) (sp_slices s) = (ss', u, n)"
    by (cases "addRangeItems ms (f, t) (sp_slices s)")
  note spec = addRangeItems_spec[OF sok r(2) ms eq]
  have ss: "slices_ok ?ss" "slice_ids ?ss = slice_ids (sp_slices s) \<union> set ms"
    "covered ?ss = covered (sp_slices s) \<union> (if ?triv then {} else {f .. t})"
    using spec sok by (simp_all add: eq)
  then have covss: "covered ?ss \<subseteq> {0 .. ServerMaxMsgId}" using cov r by auto
  have "(slices_ok (sp_slices s') \<and> covered (sp_slices s') \<subseteq> {0 .. ServerMaxMsgId})
      \<and> slice_ids (sp_slices s') = slice_ids ?ss
      \<and> (sp_slices s' = ?ss \<or> covered (sp_slices s') = {0 .. ServerMaxMsgId})"
    using sparse_addRange_slices[of ms f t cnt inc s]
  proof (elim disjE exE conjE)
    assume "sp_slices (sparse_addRange ms (f, t) cnt inc s) = ?ss"
    then show ?thesis using ss covss by (simp add: s'_def)
  next
    fix sl assume sl: "?ss = [sl]" and eq': "sp_slices (sparse_addRange ms (f, t) cnt inc s)
        = [sl\<lparr>sl_from := 0, sl_till := ServerMaxMsgId\<rparr>]"
    have "slices_ok [sl\<lparr>sl_from := 0, sl_till := ServerMaxMsgId\<rparr>]"
      by (rule widen_slice) (use ss(1) covss in \<open>simp_all only: sl\<close>)
    then show ?thesis using sl eq' by (simp add: s'_def)
  qed
  then have res: "slices_ok (sp_slices s')" "covered (sp_slices s') \<subseteq> {0 .. ServerMaxMsgId}"
    "slice_ids (sp_slices s') = slice_ids ?ss"
    "sp_slices s' = ?ss \<or> covered (sp_slices s') = {0 .. ServerMaxMsgId}" by auto
  show "sparse_ok s'" using res by (simp add: sparse_ok_def)
  show "slice_ids (sp_slices s') = slice_ids (sp_slices s) \<union> set ms" using res(3) ss(2) by simp
  have cov': "covered ?ss \<subseteq> covered (sp_slices s) \<union> {f .. t}" "covered (sp_slices s) \<subseteq> covered ?ss"
    using ss(3) by (simp_all split: if_splits)
  have cov3: "{f .. t} \<subseteq> covered ?ss" if "\<not> ?triv"
  proof -
    have "covered ?ss = covered (sp_slices s) \<union> {f .. t}" using ss(3) by (simp only: that if_False)
    then show ?thesis by (simp only: Un_upper2)
  qed
  show "covered (sp_slices s) \<subseteq> covered (sp_slices s')"
    using res(4) cov'(2) cov by (elim disjE) (simp_all only:)
  show "{f .. t} \<subseteq> covered (sp_slices s')" if "f \<noteq> t \<or> ms \<noteq> []"
  proof -
    have "\<not> ?triv" using that by blast
    moreover have "{f .. t} \<subseteq> {0 .. ServerMaxMsgId}" using r by simp
    ultimately show ?thesis using res(4) cov3 by (elim disjE) (simp_all only: simp_thms)
  qed
  show "covered (sp_slices s') \<subseteq> covered (sp_slices s) \<union> {f .. t}
      \<or> covered (sp_slices s') = {0 .. ServerMaxMsgId}"
    using res(4) cov'(1) by (elim disjE) (simp_all only: simp_thms)
qed

lemma sparse_removeOne_ok: "sparse_ok s \<Longrightarrow> sparse_ok (sparse_removeOne x s)"
  by (simp add: sparse_ok_def sparse_removeOne_def slices_remove_spec)

lemma sparse_removeAll_ok: "sparse_ok (sparse_removeAll s)"
  by (simp add: sparse_ok_def sparse_removeAll_def slice_ok_def ServerMaxMsgId_def)

lemma sparse_invalidateBottom_ok: "sparse_ok s \<Longrightarrow> sparse_ok (sparse_invalidateBottom s)"
  using slices_invalidate_bottom_spec[of "sp_slices s" ServerMaxMsgId]
  by (auto simp: sparse_ok_def sparse_invalidateBottom_def)

lemma sparse_new_ok [simp]: "sparse_ok new_sparse_list"
  by (simp add: sparse_ok_def new_sparse_list_def)

lemma sparse_removeOne_ids:
  "sparse_ok s \<Longrightarrow> slice_ids (sp_slices (sparse_removeOne x s)) = slice_ids (sp_slices s) - {x}"
  by (simp add: sparse_ok_def sparse_removeOne_def slices_remove_spec)

interpretation sparse: slice_store sp_slices sparse_addSlice sparse_removeOne sparse_ok 0 ServerMaxMsgId
  by unfold_locales
    (simp_all add: sparse_addSlice_def sparse_addRange_spec sparse_removeOne_ok
      sparse_removeOne_ids sparse_ok_def[THEN iffD1])

text \<open>The public operations with the arguments the callers may use.\<close>

inductive sparse_step :: "sparse_list \<Rightarrow> sparse_list \<Rightarrow> bool" where
  sparse_step_new: "0 \<le> x \<Longrightarrow> x \<le> ServerMaxMsgId \<Longrightarrow> sparse_step s (sparse_addNew x s)"
| sparse_step_existing: "0 \<le> f \<Longrightarrow> f \<le> x \<Longrightarrow> x \<le> t \<Longrightarrow> t \<le> ServerMaxMsgId \<Longrightarrow>
    sparse_step s (sparse_addExisting x (f, t) s)"
| sparse_step_slice: "0 \<le> f \<Longrightarrow> f \<le> t \<Longrightarrow> t \<le> ServerMaxMsgId \<Longrightarrow> set ms \<subseteq> {f .. t} \<Longrightarrow>
    sparse_step s (sparse_addSlice ms (f, t) c s)"
| sparse_step_remove: "sparse_step s (sparse_removeOne x s)"
| sparse_step_remove_all: "sparse_step s (sparse_removeAll s)"
| sparse_step_invalidate: "sparse_step s (sparse_invalidateBottom s)"

inductive sparse_reachable :: "sparse_list \<Rightarrow> bool" where
  sparse_start: "sparse_reachable new_sparse_list"
| sparse_next: "sparse_reachable s \<Longrightarrow> sparse_step s t \<Longrightarrow> sparse_reachable t"

lemma sparse_step_ok: "sparse_step s t \<Longrightarrow> sparse_ok s \<Longrightarrow> sparse_ok t"
  by (induction rule: sparse_step.induct)
    (simp_all add: sparse_addNew_def sparse_addExisting_def sparse_addSlice_def sparse_addRange_spec
      sparse_removeOne_ok sparse_removeAll_ok sparse_invalidateBottom_ok)

lemma sparse_reachable_ok: "sparse_reachable s \<Longrightarrow> sparse_ok s"
  by (induction rule: sparse_reachable.induct) (auto intro: sparse_step_ok)

subsection \<open>The count of a list that gets a new message\<close>

lemma addRangeItems_last:
  assumes ok: "slices_ok ss" and x: "x \<le> hi" "x \<notin> slice_ids ss"
    and before: "\<forall>sl \<in> set (butlast ss). sl_till sl < x"
  shows "snd (snd (addRangeItems [x] (x, hi) ss)) = 1
    \<and> (length (fst (addRangeItems [x] (x, hi) ss)) = Suc (length ss)
       \<or> length (fst (addRangeItems [x] (x, hi) ss)) = length ss \<and> ss \<noteq> [] \<and> x \<le> sl_till (last ss))"
proof -
  let ?i = "unite_from (x, hi) ss" and ?j = "unite_till (x, hi) ss"
  have jl: "?j \<le> length ss" by (simp add: unite_till_def upper_pos_le)
  show ?thesis
  proof (cases "?i < ?j")
    case True
    then have ss: "ss \<noteq> []" using jl by auto
    have "length ss - 1 \<le> ?i"
    proof (rule ccontr)
      assume "\<not> length ss - 1 \<le> ?i"
      then have "?i < length (butlast ss)" by simp
      then have "ss ! ?i \<in> set (butlast ss)" by (metis nth_butlast nth_mem)
      then have "sl_till (ss ! ?i) < x" using before by simp
      moreover have "x \<le> sl_till (ss ! ?i)"
        using True jl unfolding unite_from_def by (auto intro!: lower_pos_at)
      ultimately show False by simp
    qed
    then have ij: "?i = length ss - 1" "?j = Suc ?i" using True jl by auto
    have mem: "ss ! ?i \<in> set ss" using True jl by simp
    then have "slice_ok (ss ! ?i)" using ok by (simp add: slices_ok_def)
    moreover have "x \<notin> set (sl_messages (ss ! ?i))" using x(2) mem by (auto simp: slice_ids_def)
    ultimately have "length (fs_insert x (sl_messages (ss ! ?i))) = Suc (length (sl_messages (ss ! ?i)))"
      using fs.insert_length[of "sl_messages (ss ! ?i)" x] by (simp add: slice_ok_def)
    moreover have "x \<le> sl_till (last ss)"
      using ij ss True jl lower_pos_at[of x sl_till ss] by (simp add: unite_from_def last_conv_nth)
    ultimately show ?thesis
      using True ij ss jl by (simp add: addRangeItems_def uniteAndAdd_def Let_def slice_merge_def fs_merge_def)
  next
    case False
    have ij: "?i = ?j" using False slices_split(5)[OF ok x(1)] by simp
    let ?new = "\<lparr>sl_messages = fs_of_list [x], sl_from = x, sl_till = hi\<rparr>"
    have "sl_from a < x" if "a \<in> set (take ?i ss)" for a
      using slices_split(1)[OF ok x(1) that] ok that
      by (force dest: in_set_takeD slices_ok_slice slice_ok_range)
    moreover have "x < sl_from c" if "c \<in> set (drop ?i ss)" for c
      using slices_split(4)[OF ok x(1)] that x(1) by (fastforce simp: ij)
    ultimately have "slice_emplace ?new (take ?i ss @ drop ?i ss) = (take ?i ss @ [?new] @ drop ?i ss, ?new)"
      by (intro slice_emplace_gap) auto
    then have "slice_emplace ?new ss = (take ?i ss @ ?new # drop ?i ss, ?new)" by simp
    moreover have "min (length ss) ?i + (length ss - ?i) = length ss" using ij jl by simp
    ultimately show ?thesis using False
      by (simp add: addRangeItems_def Let_def fs_of_list_def fs_merge_def)
  qed
qed

lemma single_slice_length:
  "slices_ok [sl] \<Longrightarrow> int (length (sl_messages sl)) = int (card (slice_ids [sl]))"
  by (simp add: slice_ok_def length_flat_card)

lemma finite_slice_ids: "finite (slice_ids ss)"
  by (simp add: slice_ids_def)

lemma sparse_addNew_count:
  assumes ok: "sparse_ok s" and x: "0 < x" "x \<le> ServerMaxMsgId" "x \<notin> slice_ids (sp_slices s)"
    and before: "\<forall>sl \<in> set (butlast (sp_slices s)). sl_till sl < x"
    and lst: "sp_slices s \<noteq> [] \<Longrightarrow> sl_till (last (sp_slices s)) < x
      \<or> sl_till (last (sp_slices s)) = ServerMaxMsgId"
    and c: "sp_count s = Some c" "int (card (slice_ids (sp_slices s))) \<le> c"
    and full: "\<And>sl. sp_slices s = [sl] \<Longrightarrow> full_slice_range sl
      \<Longrightarrow> c = int (card (slice_ids (sp_slices s)))"
  shows "sp_count (sparse_addNew x s) = Some (c + 1)"
proof -
  have sok: "slices_ok (sp_slices s)" and cov: "covered (sp_slices s) \<subseteq> {0 .. ServerMaxMsgId}"
    using ok by (simp_all add: sparse_ok_def)
  obtain ss u n where eq: "addRangeItems [x] (x, ServerMaxMsgId) (sp_slices s) = (ss, u, n)"
    by (cases "addRangeItems [x] (x, ServerMaxMsgId) (sp_slices s)")
  have n: "n = 1" "length ss = Suc (length (sp_slices s))
      \<or> length ss = length (sp_slices s) \<and> sp_slices s \<noteq> [] \<and> x \<le> sl_till (last (sp_slices s))"
    using addRangeItems_last[OF sok x(2,3) before] by (simp_all add: eq)
  have spec: "slices_ok ss" "slice_ids ss = insert x (slice_ids (sp_slices s))" "u \<in> set ss"
    "covered ss = covered (sp_slices s) \<union> {x .. ServerMaxMsgId}"
    using addRangeItems_spec[OF sok x(2) _ eq] x by auto
  have card: "card (slice_ids ss) = Suc (card (slice_ids (sp_slices s)))"
    using x(3) finite_slice_ids[of "sp_slices s"] by (simp add: spec(2))
  have le: "int (length (sl_messages sl)) \<le> c + 1" if "sl \<in> set ss" for sl
  proof -
    have "card (set (sl_messages sl)) \<le> card (slice_ids ss)"
      using that by (intro card_mono finite_slice_ids) (auto simp: slice_ids_def)
    then show ?thesis using c(2) card that spec(1)
      by (simp add: length_flat_card slices_ok_def slice_ok_def)
  qed
  have single: "int (length (sl_messages sl)) = c + 1" if sl: "ss = [sl]" "full_slice_range sl" for sl
  proof -
    have "0 \<in> covered (sp_slices s)"
    proof -
      have "0 \<in> covered ss" using sl by (simp add: full_slice_range_def ServerMaxMsgId_def)
      then show ?thesis using spec(4) x(1) by simp
    qed
    then obtain sl0 where sl0: "sp_slices s = [sl0]" using n(2) sl(1) by (cases "sp_slices s") auto
    then have "sl_from sl0 = 0" using \<open>0 \<in> covered (sp_slices s)\<close> cov by auto
    moreover have "sl_till sl0 = ServerMaxMsgId" using lst n(2) sl(1) sl0 by auto
    ultimately have "c = int (card (slice_ids (sp_slices s)))" by (intro full[OF sl0]) (simp add: full_slice_range_def)
    then show ?thesis using card single_slice_length[of sl] spec(1) sl(1) by simp
  qed
  have leu: "int (length (sl_messages u)) \<le> c + 1" using le[OF spec(3)] .
  show ?thesis
  proof (cases "\<exists>sl. ss = [sl]")
    case False
    then have "length ss \<noteq> 1" by (auto simp: length_Suc_conv)
    then show ?thesis using leu
      by (simp add: sparse_addNew_def sparse_addRange_def sparse_addRangeItemsAndCountNew_def Let_def eq n(1) c(1))
  next
    case True
    then obtain sl where sl: "ss = [sl]" ..
    have u: "u = sl" using spec(3) sl by simp
    show ?thesis
      using le[of sl] single[OF sl]
      by (auto simp: sparse_addNew_def sparse_addRange_def sparse_addRangeItemsAndCountNew_def Let_def
          eq n(1) c(1) sl u size_reaches_def full_slice_range_def)
  qed
qed

lemma sparse_snapshot_at:
  assumes "sparse_ok s" "q_around q \<noteq> 0" "q_around q \<in> covered (sp_slices s)"
  obtains i where "i < length (sp_slices s)" "slice_ok (sp_slices s ! i)"
    "find_slice (q_around q) (sp_slices s) = Some i"
    "sparse_snapshot q s = queryFromSlice 0 ServerMaxMsgId (sp_count s) q (sp_slices s ! i)"
proof -
  have ok: "slices_ok (sp_slices s)" using assms(1) by (simp add: sparse_ok_def)
  obtain i where i: "find_slice (q_around q) (sp_slices s) = Some i"
    using assms(3) find_slice_None[OF ok, of "q_around q"] by fastforce
  then show ?thesis
    using that[of i] find_slice_Some[OF i] ok assms(2) by (simp add: sparse_snapshot_def slices_ok_def)
qed

lemma slices_between:
  assumes ok: "slices_ok ss" and i: "i < length ss" and y: "y \<in> slice_ids ss"
    and xz: "x \<in> set (sl_messages (ss ! i))" "z \<in> set (sl_messages (ss ! i))" "x \<le> y" "y \<le> z"
  shows "y \<in> set (sl_messages (ss ! i))"
proof -
  have "slice_ok (ss ! i)" using ok i by (simp add: slices_ok_def)
  then have "sl_from (ss ! i) \<le> y" "y \<le> sl_till (ss ! i)" using xz by (auto simp: slice_ok_def)
  from find_slice_ids[OF ok find_slice_at[OF ok i this]] y show ?thesis by simp
qed

subsection \<open>Properties\<close>

text \<open>
  C35: whatever sequence of updates a list went through, its slices are sorted and disjoint,
  every id lies in the range of its slice, and no range leaves \<open>[0, ServerMaxMsgId]\<close>.
\<close>

theorem sparse_invariant:
  assumes "sparse_reachable s"
  shows "slices_ok (sp_slices s) \<and> covered (sp_slices s) \<subseteq> {0 .. ServerMaxMsgId}
    \<and> (sparse_empty s \<longleftrightarrow> slice_ids (sp_slices s) = {})"
  using sparse_reachable_ok[OF assms] by (auto simp: sparse_ok_def sparse_empty_def slice_ids_def)

theorem sparse_invariant_witness:
  "slices_ok (sp_slices (sparse_invalidateBottom (sparse_removeAll (sparse_addNew 5 new_sparse_list))))"
proof -
  have "sparse_reachable (sparse_addNew 5 new_sparse_list)"
    by (rule sparse_next[OF sparse_start sparse_step_new]) (simp_all add: ServerMaxMsgId_def)
  then have "sparse_reachable (sparse_invalidateBottom (sparse_removeAll (sparse_addNew 5 new_sparse_list)))"
    by (intro sparse_next[OF sparse_next[OF _ sparse_step_remove_all] sparse_step_invalidate])
  from sparse_invariant[OF this] show ?thesis by simp
qed

text \<open>
  C12: pages of the history may be loaded in any order and may overlap: the ids known
  afterwards are those known before and all ids of the pages.
\<close>

theorem sparse_pages_any_order:
  assumes "sparse_ok s" "mset qs = mset ps"
    "\<forall>(ms, (f, t), c) \<in> set ps. 0 \<le> f \<and> f \<le> t \<and> t \<le> ServerMaxMsgId \<and> set ms \<subseteq> {f .. t}"
  shows "sparse_ok (fold (\<lambda>(ms, r, c). sparse_addSlice ms r c) qs s)
    \<and> slice_ids (sp_slices (fold (\<lambda>(ms, r, c). sparse_addSlice ms r c) qs s))
      = slice_ids (sp_slices s) \<union> (\<Union>p \<in> set ps. set (fst p))"
proof -
  have "\<forall>p \<in> set qs. sparse.page_ok p"
    using assms(3) mset_eq_setD[OF assms(2)] by (fastforce simp: sparse.page_ok_def)
  from sparse.add_pages_spec[OF assms(1) this] show ?thesis
    by (simp add: sparse.add_pages_def case_prod_unfold mset_eq_setD[OF assms(2)])
qed

theorem sparse_pages_any_order_witness:
  "slice_ids (sp_slices (sparse_addSlice [1, 4] (0, 6) None
     (sparse_addSlice [8, 9] (7, 10) (Some 5) new_sparse_list))) = {1, 4, 8, 9}"
proof -
  let ?ps = "[([1, 4], (0, 6), None), ([8, 9], (7, 10), Some 5)] :: (int list \<times> (int \<times> int) \<times> int option) list"
  have "\<forall>(ms, (f, t), c) \<in> set ?ps. 0 \<le> f \<and> f \<le> t \<and> t \<le> ServerMaxMsgId \<and> set ms \<subseteq> {f .. t}"
    by (simp add: ServerMaxMsgId_def)
  from sparse_pages_any_order[OF sparse_new_ok _ this, of "rev ?ps"] show ?thesis
    by (simp add: new_sparse_list_def insert_commute)
qed

text \<open>
  a snapshot around a known position is a window of everything known: its ids are known
  ids, no known id between two of them is missing, it has at most \<open>limitBefore\<close> ids below
  the position and \<open>limitAfter + 1\<close> from it on, and the position itself if it is an id.
\<close>

theorem sparse_snapshot_window:
  assumes "sparse_ok s" "0 \<le> q_limitBefore q" "0 \<le> q_limitAfter q"
    "q_around q \<noteq> 0" "q_around q \<in> covered (sp_slices s)"
  defines "ids \<equiv> r_ids (sparse_snapshot q s)"
  shows "set ids \<subseteq> slice_ids (sp_slices s) \<and> sorted_wrt (<) ids
    \<and> (\<forall>x \<in> set ids. \<forall>z \<in> set ids. \<forall>y \<in> slice_ids (sp_slices s). x \<le> y \<longrightarrow> y \<le> z \<longrightarrow> y \<in> set ids)
    \<and> int (length (filter (\<lambda>x. x < q_around q) ids)) \<le> q_limitBefore q
    \<and> int (length (filter (\<lambda>x. q_around q \<le> x) ids)) \<le> q_limitAfter q + 1
    \<and> (q_around q \<in> slice_ids (sp_slices s) \<longrightarrow> q_around q \<in> set ids)"
proof -
  obtain i where i: "i < length (sp_slices s)" "slice_ok (sp_slices s ! i)"
    "find_slice (q_around q) (sp_slices s) = Some i"
    "sparse_snapshot q s = queryFromSlice 0 ServerMaxMsgId (sp_count s) q (sp_slices s ! i)"
    using assms(1,4,5) by (rule sparse_snapshot_at)
  have ok: "slices_ok (sp_slices s)" using assms(1) by (simp add: sparse_ok_def)
  have sub: "set ids \<subseteq> set (sl_messages (sp_slices s ! i))"
    and main: "sorted_wrt (<) ids" "int (length (filter (\<lambda>x. x < q_around q) ids)) \<le> q_limitBefore q"
      "int (length (filter (\<lambda>x. q_around q \<le> x) ids)) \<le> q_limitAfter q + 1"
      "q_around q \<in> set (sl_messages (sp_slices s ! i)) \<Longrightarrow> q_around q \<in> set ids"
    unfolding ids_def i(4) using query_bounds[OF i(2) assms(2,3)] by simp_all
  have known: "set ids \<subseteq> slice_ids (sp_slices s)" using sub i(1) nth_mem[OF i(1)] by (simp only: slice_ids_def) blast
  have between: "y \<in> set ids" if "x \<in> set ids" "z \<in> set ids" "y \<in> slice_ids (sp_slices s)" "x \<le> y" "y \<le> z"
    for x y z
  proof -
    have "y \<in> set (sl_messages (sp_slices s ! i))"
      using slices_between[OF ok i(1) that(3) _ _ that(4,5)] sub that(1,2) by blast
    then show ?thesis
      using query_window[OF i(2) assms(2,3), of x 0 ServerMaxMsgId "sp_count s" z y] that(1,2,4,5)
      by (simp add: ids_def i(4))
  qed
  then have "\<forall>x \<in> set ids. \<forall>z \<in> set ids. \<forall>y \<in> slice_ids (sp_slices s). x \<le> y \<longrightarrow> y \<le> z \<longrightarrow> y \<in> set ids"
    by blast
  moreover have "q_around q \<in> slice_ids (sp_slices s) \<longrightarrow> q_around q \<in> set ids"
    using main(4) find_slice_ids[OF ok i(3)] by blast
  ultimately show ?thesis using known main(1-3) by (simp only: simp_thms)
qed

theorem sparse_snapshot_window_witness:
  "5 \<in> set (r_ids (sparse_snapshot \<lparr>q_around = 5, q_limitBefore = 2, q_limitAfter = 2\<rparr>
     (sparse_addNew 5 new_sparse_list)))"
proof -
  let ?s = "sparse_addNew 5 new_sparse_list"
  have ok: "sparse_ok ?s" and "slice_ids (sp_slices ?s) = {5}" "5 \<in> covered (sp_slices ?s)"
    using sparse_addRange_spec[OF sparse_new_ok, of 5 ServerMaxMsgId "[5]" None True]
    by (auto simp: sparse_addNew_def ServerMaxMsgId_def new_sparse_list_def)
  then show ?thesis
    using sparse_snapshot_window[OF ok, of "\<lparr>q_around = 5, q_limitBefore = 2, q_limitAfter = 2\<rparr>"] by simp
qed

text \<open>
  when the server told the total and a message arrives that is newer than everything
  except possibly the slice that reaches the newest message, the total grows by exactly one.
\<close>

theorem sparse_new_message_count:
  assumes "sparse_ok s" "0 < x" "x \<le> ServerMaxMsgId" "x \<notin> slice_ids (sp_slices s)"
    "\<forall>sl \<in> set (butlast (sp_slices s)). sl_till sl < x"
    "sp_slices s \<noteq> [] \<Longrightarrow> sl_till (last (sp_slices s)) < x
      \<or> sl_till (last (sp_slices s)) = ServerMaxMsgId"
    "sp_count s = Some c" "int (card (slice_ids (sp_slices s))) \<le> c"
    "\<And>sl. sp_slices s = [sl] \<Longrightarrow> full_slice_range sl \<Longrightarrow> c = int (card (slice_ids (sp_slices s)))"
  shows "sp_count (sparse_addNew x s) = Some (c + 1)
    \<and> slice_ids (sp_slices (sparse_addNew x s)) = insert x (slice_ids (sp_slices s))"
  using sparse_addNew_count[OF assms] sparse_addRange_spec(2)[OF assms(1), of x ServerMaxMsgId "[x]" None True]
    assms(2,3) by (simp add: sparse_addNew_def)

theorem sparse_new_message_count_witness:
  "sp_count (sparse_addNew 9 \<lparr>sp_count = Some 4, sp_slices = [\<lparr>sl_messages = [3, 6], sl_from = 2, sl_till = 7\<rparr>],
     sp_fired = []\<rparr>) = Some (4 + 1)"
  by (rule sparse_new_message_count[THEN conjunct1])
    (auto simp: sparse_ok_def slice_ok_def ServerMaxMsgId_def full_slice_range_def)

text \<open>
  the condition is needed: when the range of the new message reaches over several loaded
  slices, the ids of all slices merged into the first one count as new ones. Here one new
  message takes the total from four to seven.
\<close>

theorem sparse_new_message_overcounts:
  "sp_count (sparse_addNew 3 \<lparr>sp_count = Some 4,
     sp_slices = [\<lparr>sl_messages = [1, 2], sl_from = 1, sl_till = 5\<rparr>,
                  \<lparr>sl_messages = [10, 11], sl_from = 10, sl_till = 20\<rparr>], sp_fired = []\<rparr>) = Some 7"
  by (simp add: sparse_addNew_def sparse_addRange_def sparse_addRangeItemsAndCountNew_def Let_def
      addRangeItems_def unite_from_def unite_till_def lower_pos_def upper_pos_def uniteAndAdd_def
      slice_merge_def fs_merge_def ServerMaxMsgId_def full_slice_range_def size_reaches_def)

end
