(* ===== verification/MessagesList.thy ===== *)
theory MessagesList
  imports SliceBuilder PeerIds
begin

text \<open>
  \<open>Data::MessagesList\<close> and \<open>Data::MessagesSliceBuilder\<close> (\<open>data/data_messages.{h,cpp}\<close>): the
  messages of a search or of a list loaded so far, as slices of message positions, and the
  builder that shows a window of them. A position is the date of a message and its full id;
  the dates (\<open>TimeId\<close>, an \<open>int32\<close>) are \<open>int\<close>. The updates the list fires are recorded
  in \<open>ml_fired\<close>.
\<close>

datatype message_position = MessagePosition (mp_fullId: full_msg_id) (mp_date: int)

text \<open>\<open>operator<\<close> and \<open>operator<=\<close>: by the date, then by the full id.\<close>

definition position_before :: "message_position \<Rightarrow> message_position \<Rightarrow> bool" where
  "position_before a b \<longleftrightarrow>
     (if mp_date a < mp_date b then True
      else if mp_date b < mp_date a then False
      else mp_fullId a < mp_fullId b)"

definition position_upto :: "message_position \<Rightarrow> message_position \<Rightarrow> bool" where
  "position_upto a b \<longleftrightarrow> \<not> position_before b a"

instantiation message_position :: linorder
begin

definition less_message_position :: "message_position \<Rightarrow> message_position \<Rightarrow> bool" where
  "less_message_position = position_before"

definition less_eq_message_position :: "message_position \<Rightarrow> message_position \<Rightarrow> bool" where
  "less_eq_message_position = position_upto"

instance
proof
  fix x y z :: message_position
  show "(x < y) = (x \<le> y \<and> \<not> y \<le> x)"
    by (auto simp: less_message_position_def position_before_def less_eq_message_position_def position_upto_def split: if_splits)
  show "x \<le> x" by (simp add: less_message_position_def position_before_def less_eq_message_position_def position_upto_def)
  show "x \<le> y \<Longrightarrow> y \<le> z \<Longrightarrow> x \<le> z"
    by (auto simp: less_message_position_def position_before_def less_eq_message_position_def position_upto_def split: if_splits)
  show "x \<le> y \<Longrightarrow> y \<le> x \<Longrightarrow> x = y"
    by (auto simp: less_message_position_def position_before_def less_eq_message_position_def position_upto_def
        intro: message_position.expand split: if_splits)
  show "x \<le> y \<or> y \<le> x"
    by (auto simp: less_message_position_def position_before_def less_eq_message_position_def position_upto_def split: if_splits)
qed

end

text \<open>\<open>explicit operator bool\<close>: whether the position is one of a message.\<close>

definition position_set :: "message_position \<Rightarrow> bool" where
  "position_set p \<longleftrightarrow> fm_msg (mp_fullId p) \<noteq> 0"

definition null_position :: message_position where
  "null_position = MessagePosition (FullMsgId 0 0) 0"

definition MinDate :: int where
  "MinDate = 0"

definition MaxDate :: int where
  "MaxDate = 2 ^ 31 - 1"

definition MinMessagePosition :: message_position where
  "MinMessagePosition = MessagePosition (FullMsgId 0 1) MinDate"

definition MaxMessagePosition :: message_position where
  "MaxMessagePosition = MessagePosition (FullMsgId 0 (ServerMaxMsgId - 1)) MaxDate"

definition UnreadMessagePosition :: message_position where
  "UnreadMessagePosition = MessagePosition (FullMsgId 0 ShowAtUnreadMsgId) MinDate"

definition FullMessagesRange :: "message_position \<times> message_position" where
  "FullMessagesRange = (MinMessagePosition, MaxMessagePosition)"

subsection \<open>The list\<close>

record messages_list =
  ml_count :: "int option"
  ml_slices :: "message_position slice list"
  ml_fired :: "message_position slice_update list"

definition new_messages_list :: messages_list where
  "new_messages_list = \<lparr>ml_count = None, ml_slices = [], ml_fired = []\<rparr>"

definition messages_slice_merge :: "message_position list \<Rightarrow> message_position \<times> message_position
    \<Rightarrow> message_position slice \<Rightarrow> message_position slice" where
  "messages_slice_merge = slice_merge"

definition messages_uniteAndAdd :: "nat \<Rightarrow> nat \<Rightarrow> message_position list
    \<Rightarrow> message_position \<times> message_position \<Rightarrow> message_position slice list
    \<Rightarrow> message_position slice list \<times> message_position slice \<times> int" where
  "messages_uniteAndAdd = uniteAndAdd"

definition messages_addRangeItems :: "message_position list \<Rightarrow> message_position \<times> message_position
    \<Rightarrow> message_position slice list \<Rightarrow> message_position slice list \<times> message_position slice \<times> int" where
  "messages_addRangeItems = addRangeItems"

definition messages_addRange :: "message_position list \<Rightarrow> message_position \<times> message_position
    \<Rightarrow> int option \<Rightarrow> bool \<Rightarrow> messages_list \<Rightarrow> messages_list" where
  "messages_addRange messages noSkipRange cnt incrementCount s =
     (let r = messages_addRangeItems messages noSkipRange (ml_slices s);
          slices = fst r; upd = fst (snd r); result = snd (snd r);
          count1 = (case cnt of Some c \<Rightarrow> Some c
            | None \<Rightarrow> (case ml_count s of
                Some c \<Rightarrow> if incrementCount \<and> result > 0 then Some (c + result) else Some c
              | None \<Rightarrow> None));
          count2 = (if length slices = 1 \<and> (sl_from (hd slices), sl_till (hd slices)) = FullMessagesRange
            then Some (int (length (sl_messages (hd slices)))) else count1);
          update = \<lparr>su_messages = Some (sl_messages upd), su_range = (sl_from upd, sl_till upd), su_count = count2\<rparr>
      in \<lparr>ml_count = count2, ml_slices = slices, ml_fired = ml_fired s @ [update]\<rparr>)"

definition messages_addOne :: "message_position \<Rightarrow> messages_list \<Rightarrow> messages_list" where
  "messages_addOne messageId = messages_addRange [messageId] (messageId, messageId) None True"

definition messages_addNew :: "message_position \<Rightarrow> messages_list \<Rightarrow> messages_list" where
  "messages_addNew messageId = messages_addRange [messageId] (messageId, MaxMessagePosition) None True"

definition messages_addSlice :: "message_position list \<Rightarrow> message_position \<times> message_position
    \<Rightarrow> int option \<Rightarrow> messages_list \<Rightarrow> messages_list" where
  "messages_addSlice messageIds noSkipRange cnt = messages_addRange messageIds noSkipRange cnt False"

definition messages_removeOne :: "message_position \<Rightarrow> messages_list \<Rightarrow> messages_list" where
  "messages_removeOne messageId s =
     (let slices = slices_remove messageId (ml_slices s);
          count1 = map_option (\<lambda>c. c - 1) (ml_count s)
      in case find_slice messageId (ml_slices s) of
           None \<Rightarrow> s\<lparr>ml_count := count1\<rparr>
         | Some i \<Rightarrow> \<lparr>ml_count = count1, ml_slices = slices,
             ml_fired = ml_fired s @ [\<lparr>su_messages = Some (sl_messages (slices ! i)),
               su_range = (sl_from (slices ! i), sl_till (slices ! i)), su_count = count1\<rparr>]\<rparr>)"

text \<open>The loop of \<open>removeLessThan\<close>: the remaining slices and how many messages were removed.\<close>

fun remove_less_than :: "message_position \<Rightarrow> message_position slice list
    \<Rightarrow> message_position slice list \<times> nat" where
  "remove_less_than messageId [] = ([], 0)"
| "remove_less_than messageId (i # slices) =
     (if sl_till i \<le> messageId
      then let r = remove_less_than messageId slices in (fst r, length (sl_messages i) + snd r)
      else if sl_from i \<le> messageId
      then let n = lower_pos messageId (\<lambda>x. x) (sl_messages i)
           in (i\<lparr>sl_from := MinMessagePosition, sl_messages := drop n (sl_messages i)\<rparr> # slices, n)
      else (i # slices, 0))"

definition messages_removeLessThan :: "message_position \<Rightarrow> messages_list \<Rightarrow> messages_list" where
  "messages_removeLessThan messageId s =
     (let r = remove_less_than messageId (ml_slices s)
      in s\<lparr>ml_slices := fst r,
           ml_count := (if snd r \<noteq> 0 then map_option (\<lambda>c. c - int (snd r)) (ml_count s) else ml_count s)\<rparr>)"

definition messages_invalidate :: "messages_list \<Rightarrow> messages_list" where
  "messages_invalidate s = s\<lparr>ml_slices := [], ml_count := None\<rparr>"

definition messages_invalidateBottom :: "messages_list \<Rightarrow> messages_list" where
  "messages_invalidateBottom s =
     s\<lparr>ml_slices := slices_invalidate_bottom MaxMessagePosition (ml_slices s), ml_count := None\<rparr>"

definition no_result :: "message_position slice_result" where
  "no_result = \<lparr>r_count = None, r_skippedBefore = None, r_skippedAfter = None, r_ids = []\<rparr>"

definition messages_queryFromSlice :: "message_position slice_query \<Rightarrow> messages_list
    \<Rightarrow> message_position slice \<Rightarrow> message_position slice_result" where
  "messages_queryFromSlice query s =
     queryFromSlice MinMessagePosition MaxMessagePosition (ml_count s) query"

definition messages_queryCurrent :: "message_position slice_query \<Rightarrow> messages_list
    \<Rightarrow> message_position slice_result" where
  "messages_queryCurrent query s =
     (if \<not> position_set (q_around query) then no_result
      else case find_slice (q_around query) (ml_slices s) of
             Some i \<Rightarrow> messages_queryFromSlice query s (ml_slices s ! i)
           | None \<Rightarrow> no_result)"

text \<open>\<open>query\<close> and \<open>viewer\<close> pass on the results that say something.\<close>

definition result_says :: "message_position slice_result \<Rightarrow> bool" where
  "result_says r \<longleftrightarrow> r_count r \<noteq> None \<or> r_ids r \<noteq> []"

definition messages_query :: "message_position slice_query \<Rightarrow> messages_list
    \<Rightarrow> message_position slice_result option" where
  "messages_query query s =
     (let current = messages_queryCurrent query s in if result_says current then Some current else None)"

definition messages_snapshot :: "message_position slice_query \<Rightarrow> messages_list
    \<Rightarrow> message_position slice_result" where
  "messages_snapshot = messages_queryCurrent"

text \<open>The results a viewer sees over the states of the list, the first one and after each update.\<close>

definition messages_viewer :: "message_position slice_query \<Rightarrow> messages_list list
    \<Rightarrow> message_position slice_result list" where
  "messages_viewer query states = filter result_says (map (messages_queryCurrent query) states)"

fun messages_empty_in :: "message_position slice list \<Rightarrow> bool" where
  "messages_empty_in [] = True"
| "messages_empty_in (s # ss) = (if sl_messages s \<noteq> [] then False else messages_empty_in ss)"

definition messages_empty :: "messages_list \<Rightarrow> bool" where
  "messages_empty s = messages_empty_in (ml_slices s)"

subsection \<open>The builder\<close>

definition messages_config :: "message_position slice_config" where
  "messages_config = \<lparr>cf_null = (\<lambda>p. \<not> position_set p), cf_none = null_position,
     cf_possible = (\<lambda>p. p \<noteq> MessagePosition (FullMsgId 0 0) (-1)),
     cf_lo = MinMessagePosition, cf_hi = MaxMessagePosition\<rparr>"

text \<open>What is shown: the ids, the one nearest to the key, and the counts.\<close>

record messages_slice =
  ms_ids :: "full_msg_id list"
  ms_nearestToAround :: full_msg_id
  ms_skippedBefore :: "int option"
  ms_skippedAfter :: "int option"
  ms_fullCount :: "int option"

fun nearest_from :: "message_position \<Rightarrow> message_position list \<Rightarrow> full_msg_id option" where
  "nearest_from key [] = None"
| "nearest_from key (p # ps) = (if p \<ge> key then Some (mp_fullId p) else nearest_from key ps)"

definition builder_snapshot :: "message_position slice_builder \<Rightarrow> messages_slice" where
  "builder_snapshot b =
     \<lparr>ms_ids = map mp_fullId (b_ids b),
      ms_nearestToAround = (case nearest_from (b_key b) (b_ids b) of Some i \<Rightarrow> i
        | None \<Rightarrow> if b_ids b = [] then FullMsgId 0 0 else mp_fullId (last (b_ids b))),
      ms_skippedBefore = b_skippedBefore b, ms_skippedAfter = b_skippedAfter b,
      ms_fullCount = b_fullCount b\<rparr>"

subsection \<open>A list that knows the truth\<close>

lemma min_max_position: "MinMessagePosition < MaxMessagePosition"
  by (simp add: less_message_position_def position_before_def MinMessagePosition_def MaxMessagePosition_def MinDate_def MaxDate_def)

definition position_range :: "message_position set" where
  "position_range = {MinMessagePosition .. MaxMessagePosition}"

definition messages_ok :: "messages_list \<Rightarrow> bool" where
  "messages_ok s \<longleftrightarrow> slices_ok (ml_slices s) \<and> covered (ml_slices s) \<subseteq> position_range"

text \<open>\<open>W\<close> are the messages that exist, in order.\<close>

definition knows :: "message_position list \<Rightarrow> messages_list \<Rightarrow> bool" where
  "knows W s \<longleftrightarrow> messages_ok s \<and> slice_ids (ml_slices s) = set W \<inter> covered (ml_slices s)
     \<and> ml_count s \<in> {None, Some (int (length W))}"

lemma messages_addRange_ids:
  assumes ok: "messages_ok s" and r: "MinMessagePosition \<le> f" "f \<le> t" "t \<le> MaxMessagePosition"
    and ms: "set ms \<subseteq> {f .. t}"
  shows "messages_ok (messages_addRange ms (f, t) c inc s)"
    and "slice_ids (ml_slices (messages_addRange ms (f, t) c inc s)) = slice_ids (ml_slices s) \<union> set ms"
    and "covered (ml_slices (messages_addRange ms (f, t) c inc s)) = covered (ml_slices s) \<union> {f .. t}"
proof -
  have sok: "slices_ok (ml_slices s)" using ok by (simp add: messages_ok_def)
  obtain ss u n where eq: "addRangeItems ms (f, t) (ml_slices s) = (ss, u, n)"
    by (cases "addRangeItems ms (f, t) (ml_slices s)")
  note spec = addRangeItems_spec[OF sok r(2) ms eq]
  have sl: "ml_slices (messages_addRange ms (f, t) c inc s) = ss"
    by (simp add: messages_addRange_def messages_addRangeItems_def eq Let_def)
  have "{f .. t} \<subseteq> position_range" using r by (auto simp: position_range_def)
  then show "messages_ok (messages_addRange ms (f, t) c inc s)"
    using ok spec(1,3) by (simp add: messages_ok_def sl)
  show "slice_ids (ml_slices (messages_addRange ms (f, t) c inc s)) = slice_ids (ml_slices s) \<union> set ms"
    "covered (ml_slices (messages_addRange ms (f, t) c inc s)) = covered (ml_slices s) \<union> {f .. t}"
    using spec(2,3) by (simp_all add: sl)
qed

lemma messages_removeOne_ids:
  assumes ok: "messages_ok s"
  shows "messages_ok (messages_removeOne x s)"
    and "slice_ids (ml_slices (messages_removeOne x s)) = slice_ids (ml_slices s) - {x}"
    and "covered (ml_slices (messages_removeOne x s)) = covered (ml_slices s)"
    and "ml_count (messages_removeOne x s) = map_option (\<lambda>c. c - 1) (ml_count s)"
proof -
  have sok: "slices_ok (ml_slices s)" using ok by (simp add: messages_ok_def)
  have sl: "ml_slices (messages_removeOne x s) = slices_remove x (ml_slices s)"
    by (simp add: messages_removeOne_def Let_def slices_remove_def split: option.split)
  show "messages_ok (messages_removeOne x s)"
    "slice_ids (ml_slices (messages_removeOne x s)) = slice_ids (ml_slices s) - {x}"
    "covered (ml_slices (messages_removeOne x s)) = covered (ml_slices s)"
    using ok slices_remove_spec[OF sok, of x] by (simp_all add: messages_ok_def sl)
  show "ml_count (messages_removeOne x s) = map_option (\<lambda>c. c - 1) (ml_count s)"
    by (simp add: messages_removeOne_def Let_def split: option.split)
qed

lemma new_messages_ok [simp]: "messages_ok new_messages_list"
  by (simp add: messages_ok_def new_messages_list_def)

interpretation msgs: slice_store ml_slices messages_addSlice messages_removeOne messages_ok
  MinMessagePosition MaxMessagePosition
  by unfold_locales
    (simp_all add: messages_addSlice_def messages_addRange_ids messages_removeOne_ids messages_ok_def[THEN iffD1])

text \<open>The one slice that covers everything holds every message.\<close>

lemma full_slice_count:
  assumes ok: "slices_ok ss" and W: "sorted_wrt (<) W" "set W \<subseteq> position_range"
    and t: "slice_ids ss = set W \<inter> covered ss"
    and one: "length ss = 1" "(sl_from (hd ss), sl_till (hd ss)) = FullMessagesRange"
  shows "length (sl_messages (hd ss)) = length W"
proof -
  obtain sl where sl: "ss = [sl]" using one(1) by (auto simp: length_Suc_conv)
  have "covered ss = position_range" using one(2) by (auto simp: sl FullMessagesRange_def position_range_def)
  then have "set (sl_messages sl) = set W" using t W(2) by (auto simp: sl)
  moreover have "sorted_wrt (<) (sl_messages sl)" using ok by (simp add: sl slice_ok_def)
  ultimately show ?thesis using W(1) by (simp add: sl length_flat_card)
qed

lemma messages_addRange_knows:
  fixes inc :: bool
  assumes W: "sorted_wrt (<) W'" "set W' \<subseteq> position_range" and ok: "messages_ok s"
    and r: "MinMessagePosition \<le> f" "f \<le> t" "t \<le> MaxMessagePosition" and ms: "set ms \<subseteq> {f .. t}"
    and t: "slice_ids (ml_slices s) \<union> set ms = set W' \<inter> (covered (ml_slices s) \<union> {f .. t})"
    and c: "cnt \<in> {None, Some (int (length W'))}"
    and inc: "cnt = None \<Longrightarrow> ml_count s \<noteq> None \<Longrightarrow> the (ml_count s)
        + (if inc \<and> snd (snd (addRangeItems ms (f, t) (ml_slices s))) > 0
           then snd (snd (addRangeItems ms (f, t) (ml_slices s))) else 0) = int (length W')"
  defines "s' \<equiv> messages_addRange ms (f, t) cnt inc s"
  shows "knows W' s'" and "true_update messages_config W' (last (ml_fired s'))"
proof -
  have sok: "slices_ok (ml_slices s)" using ok by (simp add: messages_ok_def)
  obtain ss u n where eq: "addRangeItems ms (f, t) (ml_slices s) = (ss, u, n)"
    by (cases "addRangeItems ms (f, t) (ml_slices s)")
  note spec = addRangeItems_spec[OF sok r(2) ms eq]
  have sl: "ml_slices s' = ss"
    by (simp add: s'_def messages_addRange_def messages_addRangeItems_def eq Let_def)
  have ok': "messages_ok s'" unfolding s'_def by (rule messages_addRange_ids(1)[OF ok r ms])
  have tr: "slice_ids ss = set W' \<inter> covered ss" using t spec(2,3) by simp
  have full: "int (length (sl_messages (hd ss))) = int (length W')"
    if "length ss = Suc 0" "(sl_from (hd ss), sl_till (hd ss)) = FullMessagesRange"
    using full_slice_count[OF spec(1) W tr] that by simp
  have cnt: "ml_count s' \<in> {None, Some (int (length W'))}"
    using c inc full
    by (auto simp: s'_def messages_addRange_def messages_addRangeItems_def eq Let_def split: option.splits)
  show "knows W' s'" using ok' tr cnt by (simp add: knows_def sl)
  have "\<forall>x \<in> set ss. slice_true W' x" using slices_true_iff[OF spec(1) W(1)] tr by blast
  then have ut: "slice_true W' u" using spec(4) by blast
  have lst: "last (ml_fired s') = \<lparr>su_messages = Some (sl_messages u), su_range = (sl_from u, sl_till u), su_count = ml_count s'\<rparr>"
    by (simp add: s'_def messages_addRange_def messages_addRangeItems_def eq Let_def)
  show "true_update messages_config W' (last (ml_fired s'))"
    using ut cnt W(2)
    by (simp add: true_update_def lst messages_config_def slice_true_def position_range_def)
qed

text \<open>What can happen to the messages and to the list that follows them.\<close>

inductive follows :: "message_position list \<Rightarrow> messages_list \<Rightarrow> bool" where
  follow_start: "sorted_wrt (<) W \<Longrightarrow> set W \<subseteq> position_range \<Longrightarrow> follows W new_messages_list"
| follow_page: "follows W s \<Longrightarrow> MinMessagePosition \<le> f \<Longrightarrow> f \<le> t \<Longrightarrow> t \<le> MaxMessagePosition \<Longrightarrow>
    set ms = {x \<in> set W. f \<le> x \<and> x \<le> t} \<Longrightarrow> cnt \<in> {None, Some (int (length W))} \<Longrightarrow>
    follows W (messages_addSlice ms (f, t) cnt s)"
| follow_one: "follows W s \<Longrightarrow> m \<in> position_range \<Longrightarrow> m \<notin> set W \<Longrightarrow>
    follows (fs_insert m W) (messages_addOne m s)"
| follow_new: "follows W s \<Longrightarrow> m \<in> position_range \<Longrightarrow> \<forall>x \<in> set W. x < m \<Longrightarrow>
    follows (W @ [m]) (messages_addNew m s)"
| follow_remove: "follows W s \<Longrightarrow> m \<in> set W \<Longrightarrow> follows (fs_remove m W) (messages_removeOne m s)"
| follow_invalidate: "follows W s \<Longrightarrow> follows W (messages_invalidate s)"
| follow_invalidate_bottom: "follows W s \<Longrightarrow> follows W (messages_invalidateBottom s)"

lemma addOne_knows:
  assumes W: "sorted_wrt (<) W" "set W \<subseteq> position_range" and k: "knows W s"
    and m: "m \<in> position_range" "m \<le> t" "t \<le> MaxMessagePosition" "m \<notin> set W"
    and gap: "\<forall>x \<in> set W. m < x \<longrightarrow> t < x"
    and later: "\<forall>x \<in> set (ml_slices s). m < sl_from x \<and> sl_from x \<le> t \<longrightarrow> sl_messages x = []"
  defines "W' \<equiv> fs_insert m W" and "s' \<equiv> messages_addRange [m] (m, t) None True s"
  shows "sorted_wrt (<) W'" and "set W' \<subseteq> position_range" and "knows W' s'"
    and "true_update messages_config W' (last (ml_fired s'))"
proof -
  show W': "sorted_wrt (<) W'" "set W' \<subseteq> position_range"
    using W m(1) by (simp_all add: W'_def sorted_fs_insert)
  have ok: "messages_ok s" and tr: "slice_ids (ml_slices s) = set W \<inter> covered (ml_slices s)"
    and c: "ml_count s \<in> {None, Some (int (length W))}" using k by (simp_all add: knows_def)
  have new: "m \<notin> slice_ids (ml_slices s)" using tr m(4) by simp
  have sok: "slices_ok (ml_slices s)" using ok by (simp add: messages_ok_def)
  have n: "snd (snd (addRangeItems [m] (m, t) (ml_slices s))) = 1"
    by (rule addRangeItems_one[OF sok m(2) new later])
  have len: "length W' = Suc (length W)" using fs.insert_length[OF W(1), of m] m(4) by (simp add: W'_def)
  have mlo: "MinMessagePosition \<le> m" using m(1) by (simp add: position_range_def)
  have none: "x = m" if "x \<in> insert m (set W)" "m \<le> x" "x \<le> t" for x
    using that gap by (auto simp: le_less)
  have "slice_ids (ml_slices s) \<union> set [m] = set W' \<inter> (covered (ml_slices s) \<union> {m .. t})"
    using tr none m(2) by (auto simp: W'_def)
  from messages_addRange_knows[OF W' ok mlo m(2,3) _ this, of None True] n c len m(2)
  show "knows W' s'" "true_update messages_config W' (last (ml_fired s'))"
    by (auto simp: s'_def)
qed

lemma addSlice_knows:
  assumes W: "sorted_wrt (<) W" "set W \<subseteq> position_range" and k: "knows W s"
    and r: "MinMessagePosition \<le> f" "f \<le> t" "t \<le> MaxMessagePosition"
    and ms: "set ms = {x \<in> set W. f \<le> x \<and> x \<le> t}" and c: "cnt \<in> {None, Some (int (length W))}"
  shows "knows W (messages_addSlice ms (f, t) cnt s)"
    and "true_update messages_config W (last (ml_fired (messages_addSlice ms (f, t) cnt s)))"
proof -
  have k': "messages_ok s" "slice_ids (ml_slices s) = set W \<inter> covered (ml_slices s)"
    "ml_count s \<in> {None, Some (int (length W))}" using k by (simp_all add: knows_def)
  have sub: "set ms \<subseteq> {f .. t}" using ms by auto
  have tr: "slice_ids (ml_slices s) \<union> set ms = set W \<inter> (covered (ml_slices s) \<union> {f .. t})"
    using k'(2) ms by auto
  have inc: "the (ml_count s) + (if False \<and> snd (snd (addRangeItems ms (f, t) (ml_slices s))) > 0
      then snd (snd (addRangeItems ms (f, t) (ml_slices s))) else 0) = int (length W)" if "ml_count s \<noteq> None"
    using k'(3) that by auto
  show "knows W (messages_addSlice ms (f, t) cnt s)"
    "true_update messages_config W (last (ml_fired (messages_addSlice ms (f, t) cnt s)))"
    unfolding messages_addSlice_def by (intro messages_addRange_knows[OF W k'(1) r sub tr c inc]; assumption)+
qed

lemma follows_knows:
  "follows W s \<Longrightarrow> sorted_wrt (<) W \<and> set W \<subseteq> position_range \<and> knows W s"
proof (induction rule: follows.induct)
  case (follow_start W)
  then show ?case by (simp add: knows_def new_messages_list_def messages_ok_def)
next
  case (follow_page W s f t ms cnt)
  then show ?case using addSlice_knows(1)[OF _ _ _ follow_page.hyps(2-6)] by blast
next
  case (follow_one W s m)
  then have "\<forall>x \<in> set (ml_slices s). m < sl_from x \<and> sl_from x \<le> m \<longrightarrow> sl_messages x = []" by auto
  from addOne_knows(1-3)[OF _ _ _ follow_one.hyps(2) _ _ follow_one.hyps(3) _ this] follow_one
  show ?case by (simp add: messages_addOne_def position_range_def)
next
  case (follow_new W s m)
  have eq: "fs_insert m W = W @ [m]"
    using follow_new by (intro sorted_set_unique) (auto simp: sorted_fs_insert sorted_wrt_append)
  have "sl_messages x = []" if "x \<in> set (ml_slices s)" "m < sl_from x" for x
  proof (rule ccontr)
    assume "sl_messages x \<noteq> []"
    then obtain y where y: "y \<in> set (sl_messages x)" by (cases "sl_messages x") auto
    have "slice_ok x" using follow_new.IH that(1) by (simp add: knows_def messages_ok_def slices_ok_def)
    then have "m < y" using y that(2) by (auto simp: slice_ok_def)
    moreover have "y \<in> set W" using follow_new.IH y that(1) by (auto simp: knows_def slice_ids_def)
    ultimately show False using follow_new.hyps(3) by auto
  qed
  then have "\<forall>x \<in> set (ml_slices s). m < sl_from x \<and> sl_from x \<le> MaxMessagePosition \<longrightarrow> sl_messages x = []" by blast
  note later = this
  have W: "sorted_wrt (<) W" "set W \<subseteq> position_range" "knows W s" using follow_new.IH by simp_all
  have le: "m \<le> MaxMessagePosition" using follow_new.hyps(2) by (simp add: position_range_def)
  have nm: "m \<notin> set W" "\<forall>x \<in> set W. m < x \<longrightarrow> MaxMessagePosition < x" using follow_new.hyps(3) by auto
  from addOne_knows(1-3)[OF W follow_new.hyps(2) le order.refl nm later]
  show ?case by (simp only: eq messages_addNew_def simp_thms)
next
  case (follow_remove W s m)
  then have k: "messages_ok s" "slice_ids (ml_slices s) = set W \<inter> covered (ml_slices s)"
    "ml_count s \<in> {None, Some (int (length W))}" by (simp_all add: knows_def)
  have "knows (fs_remove m W) (messages_removeOne m s)"
    using messages_removeOne_ids[OF k(1), of m] k(2,3) follow_remove length_fs_remove[of W m]
    by (auto simp: knows_def)
  then show ?case using follow_remove by (auto simp: sorted_fs_remove)
next
  case (follow_invalidate W s)
  then show ?case by (simp add: knows_def messages_ok_def messages_invalidate_def)
next
  case (follow_invalidate_bottom W s)
  then have ok: "slices_ok (ml_slices s)" by (simp add: knows_def messages_ok_def)
  show ?case
    using follow_invalidate_bottom slices_invalidate_bottom_spec[OF ok, of MaxMessagePosition]
      invalidate_bottom_true[OF ok, of W MaxMessagePosition]
    by (auto simp: knows_def messages_ok_def messages_invalidateBottom_def)
qed

subsection \<open>Properties\<close>

text \<open>
  C3: however pages arrive, messages are added, come in as the newest, or are removed, and
  whenever the list is invalidated: every slice holds exactly the messages that exist in its
  range, and the count, if known, is the number of messages that exist.
\<close>

theorem messages_list_truth:
  assumes "follows W s"
  shows "slices_ok (ml_slices s) \<and> (\<forall>sl \<in> set (ml_slices s). slice_true W sl)
    \<and> ml_count s \<in> {None, Some (int (length W))}
    \<and> (messages_empty s \<longleftrightarrow> set W \<inter> covered (ml_slices s) = {})"
proof -
  have k: "sorted_wrt (<) W" "messages_ok s" "slice_ids (ml_slices s) = set W \<inter> covered (ml_slices s)"
    "ml_count s \<in> {None, Some (int (length W))}"
    using follows_knows[OF assms] by (simp_all add: knows_def)
  have "messages_empty_in ss \<longleftrightarrow> slice_ids ss = {}" for ss
    by (induction ss) auto
  then show ?thesis
    using k slices_true_iff[of "ml_slices s" W] by (simp add: messages_ok_def messages_empty_def)
qed

theorem messages_list_truth_witness:
  "ml_count (messages_addNew (MessagePosition (FullMsgId 1 7) 50) (messages_addSlice
     [MessagePosition (FullMsgId 1 5) 40] FullMessagesRange None new_messages_list)) \<in> {None, Some 2}"
proof -
  let ?p = "MessagePosition (FullMsgId 1 5) 40" and ?m = "MessagePosition (FullMsgId 1 7) 50"
  have r: "?p \<in> position_range" "?m \<in> position_range" "?p < ?m"
    by (simp_all add: position_range_def less_eq_message_position_def position_upto_def less_message_position_def position_before_def
        MinMessagePosition_def MaxMessagePosition_def MinDate_def MaxDate_def)
  have "follows [?p] (messages_addSlice [?p] FullMessagesRange None new_messages_list)"
    unfolding FullMessagesRange_def
    by (rule follow_page[OF follow_start]) (use r min_max_position in \<open>auto simp: position_range_def\<close>)
  then have "follows ([?p] @ [?m]) (messages_addNew ?m (messages_addSlice [?p] FullMessagesRange None new_messages_list))"
    by (rule follow_new) (use r in simp_all)
  from messages_list_truth[OF this] show ?thesis by simp
qed

lemma queryCurrent_settled:
  assumes "follows W s" "0 \<le> lb" "0 \<le> la"
  shows "settled messages_config W (new_builder k lb la) (applyInitial messages_config
    (messages_queryCurrent \<lparr>q_around = k, q_limitBefore = lb, q_limitAfter = la\<rparr> s) (new_builder k lb la))"
proof -
  have k: "sorted_wrt (<) W" "set W \<subseteq> position_range" "messages_ok s"
    "slice_ids (ml_slices s) = set W \<inter> covered (ml_slices s)" "ml_count s \<in> {None, Some (int (length W))}"
    using follows_knows[OF assms(1)] by (simp_all add: knows_def)
  have ok: "slices_ok (ml_slices s)" using k(3) by (simp add: messages_ok_def)
  have full: "set W \<subseteq> {cf_lo messages_config .. cf_hi messages_config}"
    using k(2) by (simp add: messages_config_def position_range_def)
  show ?thesis
  proof (cases "position_set k \<and> find_slice k (ml_slices s) \<noteq> None")
    case False
    then have "messages_queryCurrent \<lparr>q_around = k, q_limitBefore = lb, q_limitAfter = la\<rparr> s = no_result"
      by (auto simp: messages_queryCurrent_def)
    then show ?thesis
      unfolding applyInitial_def using assms(2,3) new_builder_sees[OF k(1)]
      by (intro mergeSliceData_settled) (simp_all add: no_result_def new_builder_def)
  next
    case True
    then obtain i where i: "find_slice k (ml_slices s) = Some i" by auto
    then have f: "i < length (ml_slices s)" "sl_from (ml_slices s ! i) \<le> k" "k \<le> sl_till (ml_slices s ! i)"
      using find_slice_Some[OF i] by simp_all
    have "slice_true W (ml_slices s ! i)" using slices_true_iff[OF ok k(1)] k(4) f(1) by simp
    from applyInitial_settled[OF k(1) full this f(2,3) assms(2,3) k(5)] show ?thesis
      using True i by (simp add: messages_queryCurrent_def messages_queryFromSlice_def messages_config_def)
  qed
qed

text \<open>
  C4: a builder started from the list around a message is right about the messages that exist;
  unless it asked for more it shows exactly the last \<open>limitBefore\<close> messages before its key
  and the first \<open>limitAfter + 1\<close> from it on, and knows how many messages there are.
\<close>

theorem viewer_starts_right:
  assumes "follows W s" "0 \<le> lb" "0 \<le> la" "position_set k"
  shows "let b = applyInitial messages_config
      (messages_queryCurrent \<lparr>q_around = k, q_limitBefore = lb, q_limitAfter = la\<rparr> s) (new_builder k lb la)
    in sees W b \<and> (b_requests b = [] \<longrightarrow>
      ms_ids (builder_snapshot b) = map mp_fullId (visible k lb la W)
      \<and> ms_fullCount (builder_snapshot b) = Some (int (length W)))"
  using queryCurrent_settled[OF assms(1-3), of k] assms(4)
  by (auto simp: settled_def Let_def builder_snapshot_def messages_config_def new_builder_def)

theorem viewer_starts_right_witness:
  "sees [MessagePosition (FullMsgId 1 5) 40] (applyInitial messages_config
      (messages_queryCurrent \<lparr>q_around = MessagePosition (FullMsgId 1 5) 40, q_limitBefore = 3, q_limitAfter = 3\<rparr>
        new_messages_list) (new_builder (MessagePosition (FullMsgId 1 5) 40) 3 3))"
proof -
  let ?p = "MessagePosition (FullMsgId 1 5) 40"
  have "?p \<in> position_range"
    by (simp add: position_range_def less_eq_message_position_def position_upto_def less_message_position_def position_before_def
        MinMessagePosition_def MaxMessagePosition_def MinDate_def MaxDate_def)
  then have "follows [?p] new_messages_list" by (intro follow_start) simp_all
  from viewer_starts_right[OF this, of 3 3 ?p] show ?thesis by (simp add: Let_def position_set_def)
qed

text \<open>
  C5: a builder that is right stays right when a page is loaded and it takes the update of the
  list: either it ignores the update and is unchanged, or it shows exactly what should be
  visible, unless it asks for more.
\<close>

theorem viewer_follows_pages:
  assumes "follows W s" "sees W b" "0 \<le> b_limitBefore b" "0 \<le> b_limitAfter b" "position_set (b_key b)"
    "MinMessagePosition \<le> f" "f \<le> t" "t \<le> MaxMessagePosition"
    "set ms = {x \<in> set W. f \<le> x \<and> x \<le> t}" "cnt \<in> {None, Some (int (length W))}"
  shows "let r = applyUpdate messages_config (last (ml_fired (messages_addSlice ms (f, t) cnt s))) b
    in if fst r
       then sees W (snd r) \<and> (b_requests (snd r) = b_requests b \<longrightarrow>
         b_ids (snd r) = visible (b_key b) (b_limitBefore b) (b_limitAfter b) W
         \<and> b_fullCount (snd r) = Some (int (length W)))
       else snd r = b"
proof -
  have W: "sorted_wrt (<) W" "set W \<subseteq> position_range" "knows W s" using follows_knows[OF assms(1)] by simp_all
  from applyUpdate_settled[OF assms(2-4) addSlice_knows(2)[OF W assms(6-10)]] assms(5)
  show ?thesis by (auto simp: settled_def Let_def messages_config_def)
qed

theorem viewer_follows_pages_witness:
  "snd (applyUpdate messages_config (last (ml_fired (messages_addSlice [] FullMessagesRange (Some 0) new_messages_list)))
     (new_builder (MessagePosition (FullMsgId 1 5) 40) 3 3))
   = (let b = new_builder (MessagePosition (FullMsgId 1 5) 40) 3 3
      in b\<lparr>b_fullCount := Some 0, b_skippedBefore := Some 0, b_skippedAfter := Some 0\<rparr>)
   \<and> sees [] (snd (applyUpdate messages_config (last (ml_fired (messages_addSlice [] FullMessagesRange (Some 0) new_messages_list)))
     (new_builder (MessagePosition (FullMsgId 1 5) 40) 3 3)))"
proof -
  let ?b = "new_builder (MessagePosition (FullMsgId 1 5) 40) 3 3"
  let ?r = "applyUpdate messages_config (last (ml_fired (messages_addSlice [] FullMessagesRange (Some 0) new_messages_list))) ?b"
  have eq: "?r = (True, ?b\<lparr>b_fullCount := Some 0, b_skippedBefore := Some 0, b_skippedAfter := Some 0\<rparr>)"
    by code_simp
  have "follows [] new_messages_list" by (intro follow_start) simp_all
  from viewer_follows_pages[OF this, of ?b MinMessagePosition MaxMessagePosition "[]" "Some 0"]
  have "sees [] (snd ?r)"
    using eq new_builder_sees[of "[]" "MessagePosition (FullMsgId 1 5) 40" 3 3] less_imp_le[OF min_max_position]
    by (simp add: Let_def position_set_def new_builder_def FullMessagesRange_def)
  then show ?thesis using eq by (simp add: Let_def)
qed

text \<open>
  C37: a builder that shows something stays right when a message that exists is removed.
\<close>

theorem viewer_follows_removal:
  assumes "sees W b" "m \<in> set W" "b_ids b \<noteq> []"
  shows "sees (fs_remove (m :: message_position) W) (snd (builder_removeOne m b))"
  using assms by (rule removeOne_sees)

theorem viewer_follows_removal_witness:
  "sees [] (snd (builder_removeOne (MessagePosition (FullMsgId 1 5) 40)
     ((new_builder (MessagePosition (FullMsgId 1 5) 40) 3 3)\<lparr>b_ids := [MessagePosition (FullMsgId 1 5) 40]\<rparr>)))"
proof -
  let ?p = "MessagePosition (FullMsgId 1 5) 40"
  let ?b = "(new_builder ?p 3 3)\<lparr>b_ids := [?p]\<rparr>"
  have "splits [?p] ?b [] []" by (simp add: splits_def new_builder_def)
  then have "sees [?p] ?b" by (intro seesI[of _ _ "[]" "[]"]) (simp_all add: new_builder_def)
  from viewer_follows_removal[OF this, of ?p] show ?thesis by (simp add: fs_remove_def new_builder_def)
qed

end
