(* ===== verification/SparseIds.thy ===== *)
theory SparseIds
  imports SliceBuilder SparseIdsList
begin

text \<open>
  The ids of the shared media of a chat as a viewer sees them (\<open>data/data_sparse_ids.{h,cpp}\<close>,
  \<open>data/data_abstract_sparse_ids.h\<close>): the builder of a window of one chat's ids, which is the
  builder of \<open>SliceBuilder\<close> over message ids, and the merge of a supergroup's window with the
  one of the group it was made from. A member call on an empty \<open>_migrated\<close> is undefined in the
  code and \<open>None\<close> here.
\<close>

subsection \<open>Windows of ids\<close>

record 'a sparse_ids =
  as_ids :: "'a list"
  as_fullCount :: "int option"
  as_skippedBefore :: "int option"
  as_skippedAfter :: "int option"

definition empty_sparse_ids :: "'a sparse_ids" where
  "empty_sparse_ids = \<lparr>as_ids = [], as_fullCount = None, as_skippedBefore = None, as_skippedAfter = None\<rparr>"

fun find_index :: "'a \<Rightarrow> 'a list \<Rightarrow> nat option" where
  "find_index x [] = None"
| "find_index x (y # ys) = (if y = x then Some 0 else map_option Suc (find_index x ys))"

definition as_indexOf :: "'a \<Rightarrow> 'a sparse_ids \<Rightarrow> int option" where
  "as_indexOf i s = map_option int (find_index i (as_ids s))"

definition as_size :: "'a sparse_ids \<Rightarrow> int" where
  "as_size s = int (length (as_ids s))"

definition as_at :: "'a sparse_ids \<Rightarrow> int \<Rightarrow> 'a option" where
  "as_at s index = (if index \<ge> 0 \<and> index < as_size s then Some (as_ids s ! nat index) else None)"

definition as_distance :: "'a \<Rightarrow> 'a \<Rightarrow> 'a sparse_ids \<Rightarrow> int option" where
  "as_distance a b s =
     (case as_indexOf a s of None \<Rightarrow> None
      | Some i \<Rightarrow> (case as_indexOf b s of None \<Rightarrow> None | Some j \<Rightarrow> Some (j - i)))"

definition as_nearest :: "'a::linorder \<Rightarrow> 'a sparse_ids \<Rightarrow> 'a option" where
  "as_nearest i s =
     (let it = lower_pos i (\<lambda>x. x) (as_ids s)
      in if it < length (as_ids s) then Some (as_ids s ! it)
         else if as_ids s = [] then None else Some (last (as_ids s)))"

definition as_reverse :: "'a sparse_ids \<Rightarrow> 'a sparse_ids" where
  "as_reverse s = s\<lparr>as_ids := rev (as_ids s), as_skippedBefore := as_skippedAfter s,
     as_skippedAfter := as_skippedBefore s\<rparr>"

subsection \<open>The builder\<close>

definition sparse_config :: "int slice_config" where
  "sparse_config = \<lparr>cf_null = (\<lambda>i. i = 0), cf_none = 0, cf_possible = (\<lambda>i. i \<ge> 0),
     cf_lo = 0, cf_hi = ServerMaxMsgId\<rparr>"

definition sparse_new_builder :: "msg_id \<Rightarrow> int \<Rightarrow> int \<Rightarrow> msg_id slice_builder" where
  "sparse_new_builder = new_builder"

definition sparse_requestMessages :: "LoadDirection \<Rightarrow> msg_id slice_builder \<Rightarrow> msg_id slice_builder" where
  "sparse_requestMessages = requestMessages"

definition sparse_requestMessagesCount :: "msg_id slice_builder \<Rightarrow> msg_id slice_builder" where
  "sparse_requestMessagesCount = requestMessagesCount sparse_config"

definition sparse_sliceToLimits :: "msg_id slice_builder \<Rightarrow> msg_id slice_builder" where
  "sparse_sliceToLimits = sliceToLimits sparse_config"

definition sparse_fillSkippedAndSliceToLimits :: "msg_id slice_builder \<Rightarrow> msg_id slice_builder" where
  "sparse_fillSkippedAndSliceToLimits = fillSkippedAndSliceToLimits sparse_config"

definition sparse_mergeSliceData :: "int option \<Rightarrow> msg_id flat_set \<Rightarrow> int option \<Rightarrow> int option
    \<Rightarrow> msg_id slice_builder \<Rightarrow> msg_id slice_builder" where
  "sparse_mergeSliceData = mergeSliceData sparse_config"

definition sparse_applyInitial :: "msg_id slice_result \<Rightarrow> msg_id slice_builder \<Rightarrow> msg_id slice_builder" where
  "sparse_applyInitial result =
     sparse_mergeSliceData (r_count result) (r_ids result) (r_skippedBefore result) (r_skippedAfter result)"

definition sparse_applyUpdate :: "msg_id slice_update \<Rightarrow> msg_id slice_builder \<Rightarrow> bool \<times> msg_id slice_builder" where
  "sparse_applyUpdate = applyUpdate sparse_config"

definition sparse_builder_removeOne :: "msg_id \<Rightarrow> msg_id slice_builder \<Rightarrow> bool \<times> msg_id slice_builder" where
  "sparse_builder_removeOne messageId b =
     (let r = builder_removeOne messageId b
      in (fst r, if fst r then sparse_sliceToLimits (snd r) else snd r))"

definition sparse_builder_removeAll :: "msg_id slice_builder \<Rightarrow> bool \<times> msg_id slice_builder" where
  "sparse_builder_removeAll b = (True, builder_removeAll b)"

definition sparse_builder_invalidateBottom :: "msg_id slice_builder \<Rightarrow> bool \<times> msg_id slice_builder" where
  "sparse_builder_invalidateBottom b = (True, builder_bottomInvalidated sparse_config b)"

definition sparse_builder_snapshot :: "msg_id slice_builder \<Rightarrow> msg_id sparse_ids" where
  "sparse_builder_snapshot b =
     \<lparr>as_ids = b_ids b, as_fullCount = b_fullCount b, as_skippedBefore = b_skippedBefore b,
      as_skippedAfter = b_skippedAfter b\<rparr>"

subsection \<open>The merge with the window of the old group\<close>

text \<open>A universal id is an id of the chat, or negative: an id of the old group minus the largest id.\<close>

record merged_key =
  mk_peerId :: peer_id
  mk_topicRootId :: msg_id
  mk_migratedPeerId :: peer_id
  mk_universalId :: msg_id

definition merged_key_of :: "peer_id \<Rightarrow> msg_id \<Rightarrow> peer_id \<Rightarrow> msg_id \<Rightarrow> merged_key" where
  "merged_key_of peerId topicRootId migratedPeerId universalId =
     \<lparr>mk_peerId = peerId, mk_topicRootId = topicRootId,
      mk_migratedPeerId = (if topicRootId \<noteq> 0 then 0 else migratedPeerId), mk_universalId = universalId\<rparr>"

record merged_slice =
  mg_key :: merged_key
  mg_part :: "msg_id sparse_ids"
  mg_migrated :: "msg_id sparse_ids option"
  mg_unsorted :: "msg_id sparse_ids option"

definition PartKey :: "merged_key \<Rightarrow> msg_id" where
  "PartKey key = (if mk_universalId key < 0 then 1 else mk_universalId key)"

definition MigratedKey :: "merged_key \<Rightarrow> msg_id" where
  "MigratedKey key =
     (if mk_universalId key < 0 then ServerMaxMsgId + mk_universalId key
      else if mk_universalId key > 0 then ServerMaxMsgId - 1 else 0)"

definition MigratedSlice :: "merged_key \<Rightarrow> msg_id sparse_ids option" where
  "MigratedSlice key = (if mk_migratedPeerId key \<noteq> 0 then Some empty_sparse_ids else None)"

definition new_merged_slice :: "merged_key \<Rightarrow> merged_slice" where
  "new_merged_slice key =
     \<lparr>mg_key = key, mg_part = empty_sparse_ids, mg_migrated = MigratedSlice key, mg_unsorted = None\<rparr>"

definition merged_slice_of :: "merged_key \<Rightarrow> msg_id sparse_ids \<Rightarrow> msg_id sparse_ids option \<Rightarrow> merged_slice" where
  "merged_slice_of key part migrated =
     \<lparr>mg_key = key, mg_part = part, mg_migrated = migrated, mg_unsorted = None\<rparr>"

definition unsorted_slice_of :: "merged_key \<Rightarrow> msg_id sparse_ids \<Rightarrow> merged_slice" where
  "unsorted_slice_of key unsorted =
     \<lparr>mg_key = key, mg_part = empty_sparse_ids, mg_migrated = None, mg_unsorted = Some unsorted\<rparr>"

definition ComputeId :: "merged_key \<Rightarrow> full_msg_id" where
  "ComputeId key =
     (if mk_universalId key \<ge> 0 then FullMsgId (mk_peerId key) (mk_universalId key)
      else FullMsgId (mk_migratedPeerId key) (ServerMaxMsgId + mk_universalId key))"

definition Add :: "int option \<Rightarrow> int option \<Rightarrow> int option" where
  "Add a b = (case (a, b) of (Some x, Some y) \<Rightarrow> Some (x + y) | _ \<Rightarrow> None)"

definition isFromPart :: "full_msg_id \<Rightarrow> merged_slice \<Rightarrow> bool" where
  "isFromPart fullId m \<longleftrightarrow> mk_peerId (mg_key m) = fm_peer fullId"

definition isFromMigrated :: "full_msg_id \<Rightarrow> merged_slice \<Rightarrow> bool" where
  "isFromMigrated fullId m \<longleftrightarrow>
     (if mg_migrated m \<noteq> None then mk_migratedPeerId (mg_key m) = fm_peer fullId else False)"

definition isolatedInPart :: "merged_slice \<Rightarrow> bool" where
  "isolatedInPart m \<longleftrightarrow> IsServerMsgId (mk_universalId (mg_key m))
     \<and> (mg_migrated m = None \<or> as_skippedBefore (mg_part m) \<noteq> Some 0)"

definition isolatedInMigrated :: "merged_slice \<Rightarrow> bool option" where
  "isolatedInMigrated m =
     (if IsServerMsgId (ServerMaxMsgId + mk_universalId (mg_key m))
      then map_option (\<lambda>g. as_skippedAfter g \<noteq> Some 0) (mg_migrated m)
      else Some False)"

definition migratedSize :: "merged_slice \<Rightarrow> int option" where
  "migratedSize m = (if isolatedInPart m then Some 0 else map_option as_size (mg_migrated m))"

definition merged_fullCount :: "merged_slice \<Rightarrow> int option" where
  "merged_fullCount m =
     (case mg_unsorted m of Some u \<Rightarrow> as_fullCount u
      | None \<Rightarrow> Add (as_fullCount (mg_part m))
          (case mg_migrated m of Some g \<Rightarrow> as_fullCount g | None \<Rightarrow> Some 0))"

definition merged_skippedBefore :: "merged_slice \<Rightarrow> int option option" where
  "merged_skippedBefore m =
     (case mg_unsorted m of Some u \<Rightarrow> Some (as_skippedBefore u)
      | None \<Rightarrow> map_option (\<lambda>isolated. Add (if isolated then Some 0 else as_skippedBefore (mg_part m))
          (case mg_migrated m of
             Some g \<Rightarrow> if isolatedInPart m then as_fullCount g else as_skippedBefore g
           | None \<Rightarrow> Some 0)) (isolatedInMigrated m))"

definition merged_skippedAfter :: "merged_slice \<Rightarrow> int option option" where
  "merged_skippedAfter m =
     (case mg_unsorted m of Some u \<Rightarrow> Some (as_skippedAfter u)
      | None \<Rightarrow> Option.bind (isolatedInMigrated m) (\<lambda>isolated.
          map_option (Add (if isolated then as_fullCount (mg_part m) else as_skippedAfter (mg_part m)))
            (if isolatedInPart m then Some (Some 0) else map_option as_skippedAfter (mg_migrated m))))"

definition merged_indexOf :: "full_msg_id \<Rightarrow> merged_slice \<Rightarrow> int option option" where
  "merged_indexOf fullId m =
     (case mg_unsorted m of Some u \<Rightarrow> Some (as_indexOf (fm_msg fullId) u)
      | None \<Rightarrow>
          if isFromPart fullId m
          then map_option (\<lambda>n. map_option (\<lambda>i. i + n) (as_indexOf (fm_msg fullId) (mg_part m))) (migratedSize m)
          else if isolatedInPart m then Some None
          else if isFromMigrated fullId m
          then Some (as_indexOf (fm_msg fullId) (the (mg_migrated m)))
          else Some None)"

definition merged_size :: "merged_slice \<Rightarrow> int option" where
  "merged_size m =
     (case mg_unsorted m of Some u \<Rightarrow> Some (as_size u)
      | None \<Rightarrow> Option.bind (if isolatedInPart m then Some 0 else migratedSize m) (\<lambda>n.
          map_option (\<lambda>isolated. n + (if isolated then 0 else as_size (mg_part m))) (isolatedInMigrated m)))"

definition merged_at :: "merged_slice \<Rightarrow> int \<Rightarrow> full_msg_id option" where
  "merged_at m index =
     (case merged_size m of None \<Rightarrow> None
      | Some n0 \<Rightarrow>
          if \<not> (index \<ge> 0 \<and> index < n0) then None
          else (case mg_unsorted m of
              Some u \<Rightarrow> map_option (FullMsgId (mk_peerId (mg_key m))) (as_at u index)
            | None \<Rightarrow> Option.bind (migratedSize m) (\<lambda>n.
                if n \<noteq> 0 \<and> index < n
                then map_option (FullMsgId (mk_migratedPeerId (mg_key m))) (as_at (the (mg_migrated m)) index)
                else map_option (FullMsgId (mk_peerId (mg_key m))) (as_at (mg_part m) (index - n)))))"

definition merged_distance :: "merged_key \<Rightarrow> merged_key \<Rightarrow> merged_slice \<Rightarrow> int option option" where
  "merged_distance a b m =
     (case merged_indexOf (ComputeId a) m of
        None \<Rightarrow> None
      | Some None \<Rightarrow> Some None
      | Some (Some i) \<Rightarrow> map_option (map_option (\<lambda>j. j - i)) (merged_indexOf (ComputeId b) m))"

definition merged_nearest :: "msg_id \<Rightarrow> merged_slice \<Rightarrow> full_msg_id option option" where
  "merged_nearest i m =
     (let fromPart = FullMsgId (mk_peerId (mg_key m));
          fromMigrated = FullMsgId (mk_migratedPeerId (mg_key m))
      in case mg_unsorted m of
           Some u \<Rightarrow> Some (if as_indexOf i u \<noteq> None then Some (fromPart i)
             else if as_size u \<noteq> 0 then map_option fromPart (as_at u (as_size u div 2)) else None)
         | None \<Rightarrow>
             if IsServerMsgId i
             then (case as_nearest i (mg_part m) of
                 Some n \<Rightarrow> Some (Some (fromPart n))
               | None \<Rightarrow> if isolatedInPart m then Some None
                   else map_option (\<lambda>g. map_option fromMigrated (as_nearest (ServerMaxMsgId - 1) g)) (mg_migrated m))
             else (case Option.bind (mg_migrated m) (as_nearest (i + ServerMaxMsgId)) of
                 Some n \<Rightarrow> Some (Some (fromMigrated n))
               | None \<Rightarrow> map_option (\<lambda>isolated. if isolated then None
                   else map_option fromPart (as_nearest 0 (mg_part m))) (isolatedInMigrated m)))"

text \<open>
  \<open>CreateViewer\<close>: the keys it allows, the queries of the two viewers it starts, and the slice
  it makes of what they send.
\<close>

definition viewer_key_ok :: "merged_key \<Rightarrow> int \<Rightarrow> int \<Rightarrow> bool" where
  "viewer_key_ok key limitBefore limitAfter \<longleftrightarrow>
     (mk_topicRootId key = 0 \<or> mk_migratedPeerId key = 0)
     \<and> (IsServerMsgId (mk_universalId key) \<or> mk_universalId key = 0
        \<or> (IsServerMsgId (ServerMaxMsgId + mk_universalId key) \<and> mk_migratedPeerId key \<noteq> 0))
     \<and> (mk_universalId key \<noteq> 0 \<or> (limitBefore = 0 \<and> limitAfter = 0))"

definition CreateViewer :: "merged_key \<Rightarrow> int \<Rightarrow> int
    \<Rightarrow> (peer_id \<Rightarrow> msg_id \<Rightarrow> msg_id \<Rightarrow> int \<Rightarrow> int \<Rightarrow> msg_id sparse_ids) \<Rightarrow> merged_slice option" where
  "CreateViewer key limitBefore limitAfter simpleViewer =
     (if \<not> viewer_key_ok key limitBefore limitAfter then None
      else let part = simpleViewer (mk_peerId key) (mk_topicRootId key) (PartKey key) limitBefore limitAfter
      in Some (merged_slice_of key part
        (if mk_migratedPeerId key = 0 then None
         else Some (simpleViewer (mk_migratedPeerId key) 0 (MigratedKey key) limitBefore limitAfter))))"

subsection \<open>Positions and counts\<close>

lemma find_index_nth: "find_index x xs = Some i \<Longrightarrow> i < length xs \<and> xs ! i = x"
  by (induction xs arbitrary: i) (auto split: if_splits)

lemma find_index_distinct: "distinct xs \<Longrightarrow> i < length xs \<Longrightarrow> find_index (xs ! i) xs = Some i"
proof (induction xs arbitrary: i)
  case (Cons y ys)
  then show ?case by (cases i) auto
qed simp

lemma indexOf_at:
  "distinct (as_ids s) \<Longrightarrow> as_indexOf x s = Some i \<longleftrightarrow> as_at s i = Some x"
proof
  show "as_indexOf x s = Some i \<Longrightarrow> as_at s i = Some x"
    using find_index_nth[of x "as_ids s"] by (auto simp: as_indexOf_def as_at_def as_size_def)
  assume "distinct (as_ids s)" "as_at s i = Some x"
  then show "as_indexOf x s = Some i"
    using find_index_distinct[of "as_ids s" "nat i"]
    by (auto simp: as_indexOf_def as_at_def as_size_def split: if_splits)
qed

text \<open>
  The slices \<open>CreateViewer\<close> makes of the windows of two viewers. Not among them is what a viewer that only counts
  (\<open>universalId\<close> 0) makes of a chat without an old group: its \<open>size()\<close> would look into the empty \<open>_migrated\<close>.
\<close>

definition merged_ok :: "merged_slice \<Rightarrow> bool" where
  "merged_ok m \<longleftrightarrow> mg_unsorted m = None \<and> distinct (as_ids (mg_part m))
     \<and> (IsServerMsgId (mk_universalId (mg_key m)) \<or> mg_migrated m \<noteq> None)
     \<and> (case mg_migrated m of None \<Rightarrow> True
        | Some g \<Rightarrow> distinct (as_ids g) \<and> mk_migratedPeerId (mg_key m) \<noteq> mk_peerId (mg_key m))"

definition adds_up :: "'a sparse_ids \<Rightarrow> bool" where
  "adds_up w \<longleftrightarrow> (case (as_skippedBefore w, as_skippedAfter w, as_fullCount w) of
     (Some b, Some a, Some c) \<Rightarrow> b + as_size w + a = c | _ \<Rightarrow> False)"

lemma adds_upE:
  assumes "adds_up w"
  obtains b a where "as_skippedBefore w = Some b" "as_skippedAfter w = Some a"
    "as_fullCount w = Some (b + as_size w + a)"
  using assms by (auto simp: adds_up_def split: option.splits)

lemma merged_one_side: "IsServerMsgId i \<Longrightarrow> \<not> IsServerMsgId (ServerMaxMsgId + i)"
  by (simp add: IsServerMsgId_def)

lemma as_size_nonneg: "0 \<le> as_size s"
  by (simp add: as_size_def)

lemma as_at_range: "as_at s i = Some x \<Longrightarrow> 0 \<le> i \<and> i < as_size s"
  by (simp add: as_at_def split: if_splits)

text \<open>What a slice shows: the part alone, the old group alone, or both, the old group first.\<close>

lemma merged_cases:
  assumes "merged_ok m"
  obtains (part) "isolatedInPart m" "isolatedInMigrated m = Some False"
  | (old) g where "mg_migrated m = Some g" "\<not> isolatedInPart m" "isolatedInMigrated m = Some True"
      "distinct (as_ids g)" "mk_migratedPeerId (mg_key m) \<noteq> mk_peerId (mg_key m)"
  | (both) g where "mg_migrated m = Some g" "\<not> isolatedInPart m" "isolatedInMigrated m = Some False"
      "distinct (as_ids g)" "mk_migratedPeerId (mg_key m) \<noteq> mk_peerId (mg_key m)"
proof (cases "isolatedInPart m")
  case True
  then have "IsServerMsgId (mk_universalId (mg_key m))" by (simp add: isolatedInPart_def)
  then have "isolatedInMigrated m = Some False" using merged_one_side by (simp add: isolatedInMigrated_def)
  with True show ?thesis by (rule part)
next
  case False
  then have "mg_migrated m \<noteq> None" using assms by (auto simp: isolatedInPart_def merged_ok_def)
  then obtain g where g: "mg_migrated m = Some g" by auto
  moreover have "isolatedInMigrated m \<noteq> None"
    using g by (cases "IsServerMsgId (ServerMaxMsgId + mk_universalId (mg_key m))") (auto simp: isolatedInMigrated_def)
  moreover have "distinct (as_ids g)" "mk_migratedPeerId (mg_key m) \<noteq> mk_peerId (mg_key m)"
    using assms g by (simp_all add: merged_ok_def)
  ultimately show ?thesis using False old[of g] both[of g] by (cases "isolatedInMigrated m") auto
qed

subsection \<open>Properties\<close>

text \<open>
  C29: in a slice of a viewer that is not of unsorted ids, with the window of the old group or without (a chat without
  one is not only counted), \<open>operator[]\<close> is defined exactly for the indices below the size and \<open>indexOf\<close> finds what
  it returned at the same index. Whatever index \<open>indexOf\<close> gives, \<open>operator[]\<close> returns that message there, except when
  only the window of the old group is shown and the message is one of the other window: then the index is not below
  the size. And if all counts are known and add up in the two windows, they add up in the slice.
\<close>

theorem merged_slice_positions:
  assumes "merged_ok m"
  shows "\<exists>n. merged_size m = Some n \<and> 0 \<le> n
    \<and> (\<forall>i. (0 \<le> i \<and> i < n) = (merged_at m i \<noteq> None))
    \<and> (\<forall>i x. merged_at m i = Some x \<longrightarrow> merged_indexOf x m = Some (Some i))
    \<and> (\<forall>i x. merged_indexOf x m = Some (Some i) \<longrightarrow> merged_at m i = Some x
        \<or> isolatedInMigrated m = Some True \<and> isFromPart x m \<and> n \<le> i)
    \<and> (adds_up (mg_part m) \<and> (case mg_migrated m of None \<Rightarrow> True | Some g \<Rightarrow> adds_up g) \<longrightarrow>
        (\<exists>b a. merged_skippedBefore m = Some (Some b) \<and> merged_skippedAfter m = Some (Some a)
          \<and> merged_fullCount m = Some (b + n + a)))"
proof -
  have u: "mg_unsorted m = None" and dp: "distinct (as_ids (mg_part m))" using assms by (simp_all add: merged_ok_def)
  show ?thesis
    using assms
  proof (cases rule: merged_cases)
    case part
    have n: "migratedSize m = Some 0" "merged_size m = Some (as_size (mg_part m))"
      using part u by (simp_all add: migratedSize_def merged_size_def)
    have at: "merged_at m i = map_option (FullMsgId (mk_peerId (mg_key m))) (as_at (mg_part m) i)" for i
      using n u by (auto simp: merged_at_def as_at_def)
    show ?thesis
    proof (rule exI[of _ "as_size (mg_part m)"], intro conjI allI impI)
      show "(0 \<le> i \<and> i < as_size (mg_part m)) = (merged_at m i \<noteq> None)" for i
        unfolding at by (simp add: as_at_def)
      show "merged_indexOf x m = Some (Some i)" if "merged_at m i = Some x" for i x
        using that n u indexOf_at[OF dp] unfolding at by (auto simp: merged_indexOf_def isFromPart_def)
      show "merged_at m i = Some x \<or> isolatedInMigrated m = Some True \<and> isFromPart x m \<and> as_size (mg_part m) \<le> i"
        if "merged_indexOf x m = Some (Some i)" for i x
        using that n u part indexOf_at[OF dp] unfolding at
        by (cases x) (auto simp: merged_indexOf_def isFromPart_def split: if_splits)
    next
      assume "adds_up (mg_part m) \<and> (case mg_migrated m of None \<Rightarrow> True | Some g \<Rightarrow> adds_up g)"
      then show "\<exists>b a. merged_skippedBefore m = Some (Some b) \<and> merged_skippedAfter m = Some (Some a)
          \<and> merged_fullCount m = Some (b + as_size (mg_part m) + a)"
        using part u by (auto simp: merged_fullCount_def merged_skippedBefore_def merged_skippedAfter_def Add_def
            elim!: adds_upE split: option.splits)
    qed (use n u as_size_nonneg in \<open>auto intro: add_nonneg_nonneg\<close>)
  next
    case (old g)
    have n: "migratedSize m = Some (as_size g)" "merged_size m = Some (as_size g)"
      using old u by (simp_all add: migratedSize_def merged_size_def)
    have at: "merged_at m i = map_option (FullMsgId (mk_migratedPeerId (mg_key m))) (as_at g i)" for i
      using n u old(1) by (auto simp: merged_at_def as_at_def)
    show ?thesis
    proof (rule exI[of _ "as_size g"], intro conjI allI impI)
      show "(0 \<le> i \<and> i < as_size g) = (merged_at m i \<noteq> None)" for i
        unfolding at by (simp add: as_at_def)
      show "merged_indexOf x m = Some (Some i)" if "merged_at m i = Some x" for i x
        using that old u indexOf_at[OF old(4)] unfolding at
        by (auto simp: merged_indexOf_def isFromPart_def isFromMigrated_def)
      show "merged_at m i = Some x \<or> isolatedInMigrated m = Some True \<and> isFromPart x m \<and> as_size g \<le> i"
        if "merged_indexOf x m = Some (Some i)" for i x
        using that n old u indexOf_at[OF old(4)] indexOf_at[OF dp] as_at_range[of "mg_part m"] unfolding at
        by (cases x) (auto simp: merged_indexOf_def isFromMigrated_def split: if_splits)
    next
      assume "adds_up (mg_part m) \<and> (case mg_migrated m of None \<Rightarrow> True | Some g \<Rightarrow> adds_up g)"
      then show "\<exists>b a. merged_skippedBefore m = Some (Some b) \<and> merged_skippedAfter m = Some (Some a)
          \<and> merged_fullCount m = Some (b + as_size g + a)"
        using old u by (auto simp: merged_fullCount_def merged_skippedBefore_def merged_skippedAfter_def Add_def
            elim!: adds_upE split: option.splits)
    qed (use n u as_size_nonneg in \<open>auto intro: add_nonneg_nonneg\<close>)
  next
    case (both g)
    have n: "migratedSize m = Some (as_size g)" "merged_size m = Some (as_size g + as_size (mg_part m))"
      using both u by (simp_all add: migratedSize_def merged_size_def)
    have at: "merged_at m i = (if i < as_size g then map_option (FullMsgId (mk_migratedPeerId (mg_key m))) (as_at g i)
        else map_option (FullMsgId (mk_peerId (mg_key m))) (as_at (mg_part m) (i - as_size g)))" for i
      using n u both(1) as_size_nonneg[of g] as_size_nonneg[of "mg_part m"]
      by (auto simp: merged_at_def as_at_def)
    show ?thesis
    proof (rule exI[of _ "as_size g + as_size (mg_part m)"], intro conjI allI impI)
      show "(0 \<le> i \<and> i < as_size g + as_size (mg_part m)) = (merged_at m i \<noteq> None)" for i
        unfolding at using as_size_nonneg[of g] as_size_nonneg[of "mg_part m"] by (simp add: as_at_def)
      show "merged_indexOf x m = Some (Some i)" if "merged_at m i = Some x" for i x
        using that n both u indexOf_at[OF both(4)] indexOf_at[OF dp] unfolding at
        by (auto simp: merged_indexOf_def isFromPart_def isFromMigrated_def split: if_splits)
      show "merged_at m i = Some x \<or> isolatedInMigrated m = Some True \<and> isFromPart x m \<and> as_size g + as_size (mg_part m) \<le> i"
        if "merged_indexOf x m = Some (Some i)" for i x
        using that n both u indexOf_at[OF both(4)] indexOf_at[OF dp] as_at_range[of g] as_at_range[of "mg_part m"] unfolding at
        by (cases x) (fastforce simp: merged_indexOf_def isFromPart_def isFromMigrated_def split: if_splits)
    next
      assume "adds_up (mg_part m) \<and> (case mg_migrated m of None \<Rightarrow> True | Some g \<Rightarrow> adds_up g)"
      then show "\<exists>b a. merged_skippedBefore m = Some (Some b) \<and> merged_skippedAfter m = Some (Some a)
          \<and> merged_fullCount m = Some (b + (as_size g + as_size (mg_part m)) + a)"
        using both u by (auto simp: merged_fullCount_def merged_skippedBefore_def merged_skippedAfter_def Add_def
            elim!: adds_upE split: option.splits)
    qed (use n u as_size_nonneg in \<open>auto intro: add_nonneg_nonneg\<close>)
  qed
qed

text \<open>The index of a message of the other window while only the old group is shown: it is not one of the slice.\<close>

theorem merged_index_outside:
  assumes "mg_unsorted m = None" and "distinct (as_ids (mg_part m))" and "mg_migrated m = Some g"
    and "isolatedInMigrated m = Some True" and "as_at (mg_part m) j = Some x"
  shows "merged_size m = Some (as_size g)
    \<and> merged_indexOf (FullMsgId (mk_peerId (mg_key m)) x) m = Some (Some (j + as_size g)) \<and> merged_at m (j + as_size g) = None"
proof -
  have "\<not> isolatedInPart m"
    using assms(4) merged_one_side by (auto simp: isolatedInPart_def isolatedInMigrated_def split: if_splits)
  then have "migratedSize m = Some (as_size g)" "merged_size m = Some (as_size g)"
    using assms by (simp_all add: migratedSize_def merged_size_def)
  moreover have "as_indexOf x (mg_part m) = Some j" using indexOf_at[OF assms(2)] assms(5) by simp
  ultimately show ?thesis
    using assms as_at_range[OF assms(5)] by (simp add: merged_indexOf_def isFromPart_def merged_at_def)
qed

theorem merged_index_outside_witness:
  "let m = merged_slice_of (merged_key_of 3 0 4 (-5))
     \<lparr>as_ids = [9, 12], as_fullCount = Some 2, as_skippedBefore = Some 0, as_skippedAfter = Some 0\<rparr>
     (Some \<lparr>as_ids = [5], as_fullCount = Some 4, as_skippedBefore = Some 0, as_skippedAfter = Some 3\<rparr>)
   in merged_size m = Some 1 \<and> merged_indexOf (FullMsgId 3 9) m = Some (Some 1) \<and> merged_at m 1 = None"
proof -
  let ?g = "\<lparr>as_ids = [5 :: int], as_fullCount = Some 4, as_skippedBefore = Some 0, as_skippedAfter = Some 3\<rparr>"
  let ?m = "merged_slice_of (merged_key_of 3 0 4 (-5))
     \<lparr>as_ids = [9, 12], as_fullCount = Some 2, as_skippedBefore = Some 0, as_skippedAfter = Some 0\<rparr> (Some ?g)"
  have h: "mg_unsorted ?m = None" "distinct (as_ids (mg_part ?m))" "mg_migrated ?m = Some ?g" "mk_peerId (mg_key ?m) = 3"
    by (simp_all add: merged_slice_of_def merged_key_of_def)
  have v: "isolatedInMigrated ?m = Some True" "as_at (mg_part ?m) 0 = Some 9" "as_size ?g = 1" by code_simp+
  from merged_index_outside[OF h(1-3) v(1,2)] show ?thesis unfolding Let_def h(4) v(3) by simp
qed

theorem merged_slice_positions_witness:
  "merged_indexOf (FullMsgId 3 9) (merged_slice_of (merged_key_of 3 0 4 9)
     \<lparr>as_ids = [9, 12], as_fullCount = Some 2, as_skippedBefore = Some 0, as_skippedAfter = Some 0\<rparr>
     (Some \<lparr>as_ids = [5], as_fullCount = Some 1, as_skippedBefore = Some 0, as_skippedAfter = Some 0\<rparr>)) = Some (Some 1)"
proof -
  let ?m = "merged_slice_of (merged_key_of 3 0 4 9)
     \<lparr>as_ids = [9, 12], as_fullCount = Some 2, as_skippedBefore = Some 0, as_skippedAfter = Some 0\<rparr>
     (Some \<lparr>as_ids = [5], as_fullCount = Some 1, as_skippedBefore = Some 0, as_skippedAfter = Some 0\<rparr>)"
  have ok: "merged_ok ?m"
    by (simp add: merged_ok_def merged_slice_of_def merged_key_of_def IsServerMsgId_def ServerMaxMsgId_def)
  have "merged_at ?m 1 = Some (FullMsgId 3 9)" by code_simp
  then show ?thesis using merged_slice_positions[OF ok] by blast
qed

end
