(* ===== verification/LangTag.thy ===== *)
theory LangTag
  imports Decimal
begin

text \<open>
  \<open>lang/lang_tag.{h,cpp}\<close>: the plural rules of the interface languages and how a language id
  selects one of them, the numbers in localised strings, and the replacement of tags in them.
\<close>

subsection \<open>The plural rules\<close>

definition kShiftZero :: nat where "kShiftZero = 0"
definition kShiftOne :: nat where "kShiftOne = 1"
definition kShiftTwo :: nat where "kShiftTwo = 2"
definition kShiftFew :: nat where "kShiftFew = 3"
definition kShiftMany :: nat where "kShiftMany = 4"
definition kShiftOther :: nat where "kShiftOther = 5"

lemmas shift_defs = kShiftZero_def kShiftOne_def kShiftTwo_def kShiftFew_def kShiftMany_def
  kShiftOther_def

text \<open>
  A rule takes the operands \<open>n i v w f t\<close> of the number; \<open>n\<close> is -1 when the number is
  not an integer. \<open>%\<close> is C++'s remainder, which keeps the sign.
\<close>

type_synonym plural_method = "int \<Rightarrow> int \<Rightarrow> int \<Rightarrow> int \<Rightarrow> int \<Rightarrow> int \<Rightarrow> nat"

definition ChoosePlural1 :: plural_method where
  "ChoosePlural1 n i v w f t =
     kShiftOther"

definition ChoosePlural2fil :: plural_method where
  "ChoosePlural2fil n i v w f t =
     (if v = 0
      then (let mod10 = cmod i 10
          in if i = 1 \<or> i = 2 \<or> i = 3 then kShiftOne
              else if mod10 \<noteq> 4 \<and> mod10 \<noteq> 6 \<and> mod10 \<noteq> 9 then kShiftOne
              else kShiftOther)
      else (let mod10 = cmod f 10
       in if mod10 \<noteq> 4 \<and> mod10 \<noteq> 6 \<and> mod10 \<noteq> 9 then kShiftOne
           else kShiftOther))"

definition ChoosePlural2tzm :: plural_method where
  "ChoosePlural2tzm n i v w f t =
     (if n = 0 \<or> n = 1 then kShiftOne
      else if n \<ge> 11 \<and> n \<le> 99 then kShiftOne
      else kShiftOther)"

definition ChoosePlural2is :: plural_method where
  "ChoosePlural2is n i v w f t =
     (if t = 0
      then (let mod10 = cmod i 10; mod100 = cmod i 100
          in if mod10 = 1 \<and> mod100 \<noteq> 11 then kShiftOne
              else kShiftOther)
      else kShiftOne)"

definition ChoosePlural2mk :: plural_method where
  "ChoosePlural2mk n i v w f t =
     (if v = 0
      then (let mod10 = cmod i 10; mod100 = cmod i 100
          in if mod10 = 1 \<and> mod100 \<noteq> 11 then kShiftOne
              else (let mod10 = cmod f 10; mod100 = cmod f 100
               in if mod10 = 1 \<and> mod100 \<noteq> 11 then kShiftOne
                   else kShiftOther))
      else (let mod10 = cmod f 10; mod100 = cmod f 100
       in if mod10 = 1 \<and> mod100 \<noteq> 11 then kShiftOne
           else kShiftOther))"

definition ChoosePlural2ak :: plural_method where
  "ChoosePlural2ak n i v w f t =
     (if n = 0 \<or> n = 1 then kShiftOne
      else kShiftOther)"

definition ChoosePlural2am :: plural_method where
  "ChoosePlural2am n i v w f t =
     (if i = 0 \<or> n = 1 then kShiftOne
      else kShiftOther)"

definition ChoosePlural2hy :: plural_method where
  "ChoosePlural2hy n i v w f t =
     (if i = 0 \<or> i = 1 then kShiftOne
      else kShiftOther)"

definition ChoosePlural2si :: plural_method where
  "ChoosePlural2si n i v w f t =
     (if n = 0 \<or> n = 1 then kShiftOne
      else if i = 0 \<and> f = 1 then kShiftOne
      else kShiftOther)"

definition ChoosePlural2bh :: plural_method where
  "ChoosePlural2bh n i v w f t =
     (if n = 0 \<or> n = 1 then kShiftOne
      else kShiftOther)"

definition ChoosePlural2af :: plural_method where
  "ChoosePlural2af n i v w f t =
     (if n = 1 then kShiftOne
      else kShiftOther)"

definition ChoosePlural2ast :: plural_method where
  "ChoosePlural2ast n i v w f t =
     (if i = 1 \<and> v = 0 then kShiftOne
      else kShiftOther)"

definition ChoosePlural2da :: plural_method where
  "ChoosePlural2da n i v w f t =
     (if n = 1 then kShiftOne
      else if t \<noteq> 0 \<and> (i = 0 \<or> i = 1) then kShiftOne
      else kShiftOther)"

definition ChoosePlural3lv :: plural_method where
  "ChoosePlural3lv n i v w f t =
     (let nmod10 = cmod n 10; nmod100 = cmod n 100; fmod10 = cmod f 10; fmod100 = cmod f 100
      in if nmod10 = 0 then kShiftZero
          else if nmod100 \<ge> 11 \<and> nmod100 \<le> 19 then kShiftZero
          else if v = 2 \<and> fmod100 \<ge> 11 \<and> fmod100 \<le> 19 then kShiftZero
          else if nmod10 = 1 \<and> nmod100 \<noteq> 11 then kShiftOne
          else if v = 2 \<and> fmod10 = 1 \<and> fmod100 \<noteq> 11 then kShiftOne
          else if v \<noteq> 2 \<and> fmod10 = 1 then kShiftOne
          else kShiftOther)"

definition ChoosePlural3ksh :: plural_method where
  "ChoosePlural3ksh n i v w f t =
     (if n = 0 then kShiftZero
      else if n = 1 then kShiftOne
      else kShiftOther)"

definition ChoosePlural3lag :: plural_method where
  "ChoosePlural3lag n i v w f t =
     (if n = 0 then kShiftZero
      else if n \<noteq> 0 \<and> (i = 0 \<or> i = 1) then kShiftOne
      else kShiftOther)"

definition ChoosePlural3kw :: plural_method where
  "ChoosePlural3kw n i v w f t =
     (if n = 1 then kShiftOne
      else if n = 2 then kShiftTwo
      else kShiftOther)"

definition ChoosePlural3bs :: plural_method where
  "ChoosePlural3bs n i v w f t =
     (if v = 0
      then (let mod10 = cmod i 10; mod100 = cmod i 100
          in if mod10 \<ge> 2 \<and> mod10 \<le> 4 \<and> (mod100 < 12 \<or> mod100 > 14)
              then kShiftFew
              else if mod10 = 1 \<and> mod100 \<noteq> 11 then kShiftOne
              else kShiftOther)
      else (let mod10 = cmod f 10; mod100 = cmod f 100
       in if mod10 \<ge> 2 \<and> mod10 \<le> 4 \<and> (mod100 < 12 \<or> mod100 > 14)
           then kShiftFew
           else if mod10 = 1 \<and> mod100 \<noteq> 11 then kShiftOne
           else kShiftOther))"

definition ChoosePlural3shi :: plural_method where
  "ChoosePlural3shi n i v w f t =
     (if i = 0 \<or> n = 1 then kShiftOne
      else if n \<ge> 2 \<and> n \<le> 10 then kShiftFew
      else kShiftOther)"

definition ChoosePlural3mo :: plural_method where
  "ChoosePlural3mo n i v w f t =
     (if v = 0
      then (let mod100 = cmod n 100
          in if i = 1 then kShiftOne
              else if n = 0 then kShiftFew
              else if n \<noteq> 1 \<and> mod100 \<ge> 1 \<and> mod100 \<le> 19 then kShiftFew
              else kShiftOther)
      else kShiftFew)"

definition ChoosePlural4be :: plural_method where
  "ChoosePlural4be n i v w f t =
     (let mod10 = cmod n 10; mod100 = cmod n 100
      in if mod10 \<ge> 2 \<and> mod10 \<le> 4 \<and> (mod100 < 12 \<or> mod100 > 14)
          then kShiftFew
          else if mod10 = 1 \<and> mod100 \<noteq> 11 then kShiftOne
          else if mod10 = 0 then kShiftMany
          else if mod10 \<ge> 5 \<and> mod10 \<le> 9 then kShiftMany
          else if mod100 \<ge> 11 \<and> mod100 \<le> 14 then kShiftMany
          else kShiftOther)"

definition ChoosePlural4ru :: plural_method where
  "ChoosePlural4ru n i v w f t =
     (if v = 0
      then (let mod10 = cmod i 10; mod100 = cmod i 100
          in if mod10 \<ge> 2 \<and> mod10 \<le> 4 \<and> (mod100 < 12 \<or> mod100 > 14)
              then kShiftFew
              else if mod10 = 1 \<and> mod100 \<noteq> 11 then kShiftOne
              else kShiftMany)
      else kShiftOther)"

definition ChoosePlural4pl :: plural_method where
  "ChoosePlural4pl n i v w f t =
     (if v = 0
      then (if i = 1 then kShiftOne
          else (let mod10 = cmod i 10; mod100 = cmod i 100
           in if mod10 \<ge> 2 \<and> mod10 \<le> 4 \<and> (mod100 < 12 \<or> mod100 > 14)
               then kShiftFew
               else kShiftMany))
      else kShiftOther)"

definition ChoosePlural4lt :: plural_method where
  "ChoosePlural4lt n i v w f t =
     (let mod10 = cmod n 10; mod100 = cmod n 100
      in if mod10 \<ge> 2 \<and> mod10 \<le> 9 \<and> (mod100 < 11 \<or> mod100 > 19)
          then kShiftFew
          else if mod10 = 1 \<and> mod100 \<noteq> 11 then kShiftOne
          else if f \<noteq> 0 then kShiftMany
          else kShiftOther)"

definition ChoosePlural4cs :: plural_method where
  "ChoosePlural4cs n i v w f t =
     (if v = 0
      then (if i = 1 then kShiftOne
          else if i \<ge> 2 \<and> i \<le> 4 then kShiftFew
          else kShiftOther)
      else kShiftMany)"

definition ChoosePlural4gd :: plural_method where
  "ChoosePlural4gd n i v w f t =
     (if n = 1 \<or> n = 11 then kShiftOne
      else if n = 2 \<or> n = 12 then kShiftTwo
      else if n \<ge> 3 \<and> n \<le> 10 then kShiftFew
      else if n \<ge> 13 \<and> n \<le> 19 then kShiftFew
      else kShiftOther)"

definition ChoosePlural4dsb :: plural_method where
  "ChoosePlural4dsb n i v w f t =
     (if v = 0
      then (let imod100 = cmod i 100
          in if imod100 = 1 then kShiftOne
              else if imod100 = 2 then kShiftTwo
              else if imod100 = 3 \<or> imod100 = 4 then kShiftFew
              else (let fmod100 = cmod f 100
               in if fmod100 = 1 then kShiftOne
                   else if fmod100 = 2 then kShiftTwo
                   else if fmod100 = 3 \<or> fmod100 = 4 then kShiftFew
                   else kShiftOther))
      else (let fmod100 = cmod f 100
       in if fmod100 = 1 then kShiftOne
           else if fmod100 = 2 then kShiftTwo
           else if fmod100 = 3 \<or> fmod100 = 4 then kShiftFew
           else kShiftOther))"

definition ChoosePlural4sl :: plural_method where
  "ChoosePlural4sl n i v w f t =
     (if v = 0
      then (let imod100 = cmod i 100
          in if imod100 = 3 \<or> imod100 = 4 then kShiftFew
              else if imod100 = 1 then kShiftOne
              else if imod100 = 2 then kShiftTwo
              else kShiftOther)
      else kShiftFew)"

definition ChoosePlural4he :: plural_method where
  "ChoosePlural4he n i v w f t =
     (if v = 0
      then (if i = 1 then kShiftOne
          else if i = 2 then kShiftTwo
          else if n \<noteq> 0 \<and> n \<noteq> 10 \<and> cmod n 10 = 0 then kShiftMany
          else kShiftOther)
      else kShiftOther)"

definition ChoosePlural4mt :: plural_method where
  "ChoosePlural4mt n i v w f t =
     (let mod100 = cmod n 100
      in if n = 1 then kShiftOne
          else if n = 0 then kShiftFew
          else if mod100 \<ge> 2 \<and> mod100 \<le> 10 then kShiftFew
          else if mod100 \<ge> 11 \<and> mod100 \<le> 19 then kShiftMany
          else kShiftOther)"

definition ChoosePlural5gv :: plural_method where
  "ChoosePlural5gv n i v w f t =
     (if v = 0
      then (let mod10 = cmod i 10; mod20 = cmod i 20
          in if mod10 = 1 then kShiftOne
              else if mod10 = 2 then kShiftTwo
              else if mod20 = 0 then kShiftFew
              else kShiftOther)
      else kShiftMany)"

definition ChoosePlural5br :: plural_method where
  "ChoosePlural5br n i v w f t =
     (let mod10 = cmod n 10; mod100 = cmod n 100
      in if mod10 = 1 \<and> mod100 \<noteq> 11 \<and> mod100 \<noteq> 71 \<and> mod100 \<noteq> 91
          then kShiftOne
          else if mod10 = 2 \<and> mod100 \<noteq> 12 \<and> mod100 \<noteq> 72 \<and> mod100 \<noteq> 92
          then kShiftTwo
          else if (mod10 = 3 \<or> mod10 = 4 \<or> mod10 = 9)
            \<and> (mod100 < 10 \<or> mod100 > 19)
            \<and> (mod100 < 70 \<or> mod100 > 79)
            \<and> (mod100 < 90 \<or> mod100 > 99)
          then kShiftFew
          else if n \<noteq> 0 \<and> cmod n 1000000 = 0 then kShiftMany
          else kShiftOther)"

definition ChoosePlural5ga :: plural_method where
  "ChoosePlural5ga n i v w f t =
     (if n = 1 then kShiftOne
      else if n = 2 then kShiftTwo
      else if n \<ge> 3 \<and> n \<le> 6 then kShiftFew
      else if n \<ge> 7 \<and> n \<le> 10 then kShiftMany
      else kShiftOther)"

definition ChoosePlural6ar :: plural_method where
  "ChoosePlural6ar n i v w f t =
     (if n = 0 then kShiftZero
      else if n = 1 then kShiftOne
      else if n = 2 then kShiftTwo
      else if n < 0 then kShiftOther
      else (let mod100 = cmod n 100
       in if mod100 \<ge> 3 \<and> mod100 \<le> 10 then kShiftFew
           else if mod100 \<ge> 11 \<and> mod100 \<le> 99 then kShiftMany
           else kShiftOther))"

definition ChoosePlural6cy :: plural_method where
  "ChoosePlural6cy n i v w f t =
     (if n = 0 then kShiftZero
      else if n = 1 then kShiftOne
      else if n = 2 then kShiftTwo
      else if n = 3 then kShiftFew
      else if n = 6 then kShiftMany
      else kShiftOther)"

text \<open>The function pointers of the code, which it compares, are names here.\<close>

datatype plural_rule =
    Rule1 | Rule2fil | Rule2tzm | Rule2is | Rule2mk | Rule2ak | Rule2am | Rule2hy | Rule2si
  | Rule2bh | Rule2af | Rule2ast | Rule2da | Rule3lv | Rule3ksh | Rule3lag | Rule3kw
  | Rule3bs | Rule3shi | Rule3mo | Rule4be | Rule4ru | Rule4pl | Rule4lt | Rule4cs
  | Rule4gd | Rule4dsb | Rule4sl | Rule4he | Rule4mt | Rule5gv | Rule5br | Rule5ga
  | Rule6ar | Rule6cy

fun rule_method :: "plural_rule \<Rightarrow> plural_method" where
  "rule_method Rule1 = ChoosePlural1"
| "rule_method Rule2fil = ChoosePlural2fil"
| "rule_method Rule2tzm = ChoosePlural2tzm"
| "rule_method Rule2is = ChoosePlural2is"
| "rule_method Rule2mk = ChoosePlural2mk"
| "rule_method Rule2ak = ChoosePlural2ak"
| "rule_method Rule2am = ChoosePlural2am"
| "rule_method Rule2hy = ChoosePlural2hy"
| "rule_method Rule2si = ChoosePlural2si"
| "rule_method Rule2bh = ChoosePlural2bh"
| "rule_method Rule2af = ChoosePlural2af"
| "rule_method Rule2ast = ChoosePlural2ast"
| "rule_method Rule2da = ChoosePlural2da"
| "rule_method Rule3lv = ChoosePlural3lv"
| "rule_method Rule3ksh = ChoosePlural3ksh"
| "rule_method Rule3lag = ChoosePlural3lag"
| "rule_method Rule3kw = ChoosePlural3kw"
| "rule_method Rule3bs = ChoosePlural3bs"
| "rule_method Rule3shi = ChoosePlural3shi"
| "rule_method Rule3mo = ChoosePlural3mo"
| "rule_method Rule4be = ChoosePlural4be"
| "rule_method Rule4ru = ChoosePlural4ru"
| "rule_method Rule4pl = ChoosePlural4pl"
| "rule_method Rule4lt = ChoosePlural4lt"
| "rule_method Rule4cs = ChoosePlural4cs"
| "rule_method Rule4gd = ChoosePlural4gd"
| "rule_method Rule4dsb = ChoosePlural4dsb"
| "rule_method Rule4sl = ChoosePlural4sl"
| "rule_method Rule4he = ChoosePlural4he"
| "rule_method Rule4mt = ChoosePlural4mt"
| "rule_method Rule5gv = ChoosePlural5gv"
| "rule_method Rule5br = ChoosePlural5br"
| "rule_method Rule5ga = ChoosePlural5ga"
| "rule_method Rule6ar = ChoosePlural6ar"
| "rule_method Rule6cy = ChoosePlural6cy"

definition ChoosePluralDefault :: plural_rule where
  "ChoosePluralDefault = Rule2ast"

subsection \<open>From a language id to its rule\<close>

text \<open>
  Language ids are strings of 8-bit characters; \<open>char\<close> is signed, and \<open>QChar::toLower\<close>
  changes none of the values outside ASCII that it can be given here.
\<close>

definition ConvertKeyChar :: "char \<Rightarrow> char" where
  "ConvertKeyChar ch =
     (if ch = CHR ''_'' then CHR ''-''
      else if (65 :: nat) \<le> of_char ch \<and> of_char ch \<le> (90 :: nat) then char_of (of_char ch + 32 :: nat)
      else ch)"

definition key_byte :: "char \<Rightarrow> 64 word" where
  "key_byte c = word_of_int
     (if (of_char c :: nat) < 128 then int (of_char c) else int (of_char c) - 256)"

definition PluralsKey :: "string \<Rightarrow> 64 word" where
  "PluralsKey value = fold (\<lambda>ch d. push_bit 8 d OR key_byte (ConvertKeyChar ch)) value 0"

definition GeneratePluralRulesMap :: "(string \<times> plural_rule) list" where
  "GeneratePluralRulesMap =
    [(''fil'', Rule2fil), (''tl'', Rule2fil), (''tzm'', Rule2tzm), (''is'', Rule2is),
     (''mk'', Rule2mk), (''ak'', Rule2ak), (''guw'', Rule2ak), (''ln'', Rule2ak),
     (''mg'', Rule2ak), (''nso'', Rule2ak), (''pa'', Rule2ak), (''ti'', Rule2ak),
     (''wa'', Rule2ak), (''am'', Rule2am), (''as'', Rule2am), (''bn'', Rule2am),
     (''gu'', Rule2am), (''hi'', Rule2am), (''kn'', Rule2am), (''mr'', Rule2am),
     (''fa'', Rule2am), (''zu'', Rule2am), (''hy'', Rule2hy), (''fr'', Rule2hy),
     (''ff'', Rule2hy), (''kab'', Rule2hy), (''pt'', Rule2hy), (''si'', Rule2si),
     (''bh'', Rule2bh), (''bho'', Rule2bh), (''af'', Rule2af), (''sq'', Rule2af),
     (''asa'', Rule2af), (''az'', Rule2af), (''eu'', Rule2af), (''bem'', Rule2af),
     (''bez'', Rule2af), (''brx'', Rule2af), (''bg'', Rule2af), (''ckb'', Rule2af),
     (''ce'', Rule2af), (''chr'', Rule2af), (''cgg'', Rule2af), (''dv'', Rule2af),
     (''eo'', Rule2af), (''ee'', Rule2af), (''fo'', Rule2af), (''fur'', Rule2af),
     (''ka'', Rule2af), (''el'', Rule2af), (''ha'', Rule2af), (''haw'', Rule2af),
     (''hu'', Rule2af), (''kaj'', Rule2af), (''kkj'', Rule2af), (''kl'', Rule2af),
     (''ks'', Rule2af), (''kk'', Rule2af), (''ku'', Rule2af), (''ky'', Rule2af),
     (''lb'', Rule2af), (''jmc'', Rule2af), (''ml'', Rule2af), (''mas'', Rule2af),
     (''mgo'', Rule2af), (''mn'', Rule2af), (''nah'', Rule2af), (''ne'', Rule2af),
     (''nnh'', Rule2af), (''jgo'', Rule2af), (''nd'', Rule2af), (''no'', Rule2af),
     (''nb'', Rule2af), (''nn'', Rule2af), (''ny'', Rule2af), (''nyn'', Rule2af),
     (''or'', Rule2af), (''om'', Rule2af), (''os'', Rule2af), (''pap'', Rule2af),
     (''ps'', Rule2af), (''rm'', Rule2af), (''rof'', Rule2af), (''rwk'', Rule2af),
     (''ssy'', Rule2af), (''saq'', Rule2af), (''seh'', Rule2af), (''ksb'', Rule2af),
     (''sn'', Rule2af), (''sd'', Rule2af), (''xog'', Rule2af), (''so'', Rule2af),
     (''nr'', Rule2af), (''sdh'', Rule2af), (''st'', Rule2af), (''es'', Rule2af),
     (''ss'', Rule2af), (''gsw'', Rule2af), (''syr'', Rule2af), (''ta'', Rule2af),
     (''te'', Rule2af), (''teo'', Rule2af), (''tig'', Rule2af), (''ts'', Rule2af),
     (''tn'', Rule2af), (''tr'', Rule2af), (''tk'', Rule2af), (''kcg'', Rule2af),
     (''ug'', Rule2af), (''uz'', Rule2af), (''ve'', Rule2af), (''vo'', Rule2af),
     (''vun'', Rule2af), (''wae'', Rule2af), (''xh'', Rule2af), ('''', Rule2ast),
     (''ast'', Rule2ast), (''ca'', Rule2ast), (''nl'', Rule2ast), (''en'', Rule2ast),
     (''et'', Rule2ast), (''pt_PT'', Rule2ast), (''fi'', Rule2ast), (''gl'', Rule2ast),
     (''lg'', Rule2ast), (''de'', Rule2ast), (''io'', Rule2ast), (''ia'', Rule2ast),
     (''it'', Rule2ast), (''sc'', Rule2ast), (''scn'', Rule2ast), (''sw'', Rule2ast),
     (''sv'', Rule2ast), (''ur'', Rule2ast), (''fy'', Rule2ast), (''ji'', Rule2ast),
     (''yi'', Rule2ast), (''da'', Rule2da), (''lv'', Rule3lv), (''prg'', Rule3lv),
     (''ksh'', Rule3ksh), (''lag'', Rule3lag), (''kw'', Rule3kw), (''smn'', Rule3kw),
     (''iu'', Rule3kw), (''smj'', Rule3kw), (''naq'', Rule3kw), (''se'', Rule3kw),
     (''smi'', Rule3kw), (''sms'', Rule3kw), (''sma'', Rule3kw), (''bs'', Rule3bs),
     (''hr'', Rule3bs), (''sr'', Rule3bs), (''sh'', Rule3bs), (''sr_Latn'', Rule3bs),
     (''shi'', Rule3shi), (''mo'', Rule3mo), (''ro_MD'', Rule3mo), (''ro'', Rule3mo),
     (''be'', Rule4be), (''ru'', Rule4ru), (''uk'', Rule4ru), (''pl'', Rule4pl),
     (''lt'', Rule4lt), (''cs'', Rule4cs), (''sk'', Rule4cs), (''gd'', Rule4gd),
     (''dsb'', Rule4dsb), (''hsb'', Rule4dsb), (''sl'', Rule4sl), (''he'', Rule4he),
     (''iw'', Rule4he), (''mt'', Rule4mt), (''gv'', Rule5gv), (''br'', Rule5br),
     (''ga'', Rule5ga), (''ar'', Rule6ar), (''ars'', Rule6ar), (''cy'', Rule6cy)]"

definition plural_rules_find :: "64 word \<Rightarrow> plural_rule option" where
  "plural_rules_find key =
     map_of (map (\<lambda>(name, rule). (PluralsKey name, rule)) GeneratePluralRulesMap) key"

definition plural_key_step :: "char \<Rightarrow> 64 word \<times> 64 word \<Rightarrow> 64 word \<times> 64 word" where
  "plural_key_step ch pk =
     (let converted = ConvertKeyChar ch;
          parent = (if converted = CHR ''-'' \<and> fst pk = 0 then snd pk else fst pk)
      in (parent, push_bit 8 (snd pk) OR key_byte converted))"

definition UpdatePluralRules :: "string \<Rightarrow> plural_rule" where
  "UpdatePluralRules languageId =
     (let pk = fold plural_key_step languageId (0, 0);
          parent = fst pk; key = snd pk;
          r = plural_rules_find key;
          i = (if r \<noteq> None \<or> parent = 0 then r else plural_rules_find parent)
      in case i of None \<Rightarrow> Rule1 | Some rule \<Rightarrow> rule)"

subsection \<open>Tags in strings\<close>

text \<open>A string is the list of its UTF-16 code units.\<close>

definition kTextCommand :: nat where "kTextCommand = 16"
definition kTextCommandLangTag :: nat where "kTextCommandLangTag = 32"
definition kTagReplacementSize :: nat where "kTagReplacementSize = 4"

fun find_tag_from :: "nat \<Rightarrow> nat list \<Rightarrow> nat \<Rightarrow> int" where
  "find_tag_from tag [] pos = -1"
| "find_tag_from tag (ch # rest) pos =
     (if ch = kTextCommand then
        if kTagReplacementSize \<le> length (ch # rest) \<and> rest ! 0 = kTextCommandLangTag
          \<and> rest ! 2 = kTextCommand
        then if rest ! 1 = 32 + tag then int pos
             else find_tag_from tag (drop 3 rest) (pos + kTagReplacementSize)
        else find_tag_from tag rest (pos + 1)
      else find_tag_from tag rest (pos + 1))"

definition FindTagReplacementPosition :: "nat list \<Rightarrow> nat \<Rightarrow> int" where
  "FindTagReplacementPosition original tag = find_tag_from tag original 0"

definition ReplaceTag_Replace :: "nat list \<Rightarrow> nat list \<Rightarrow> nat \<Rightarrow> nat list" where
  "ReplaceTag_Replace original replacement replacementPosition =
     (if replacementPosition > 0 then take replacementPosition original else [])
     @ replacement
     @ (if replacementPosition + kTagReplacementSize < length original
        then drop (replacementPosition + kTagReplacementSize) original else [])"

definition ReplaceTag_Call :: "nat list \<Rightarrow> nat \<Rightarrow> nat list \<Rightarrow> nat list" where
  "ReplaceTag_Call original tag replacement =
     (let replacementPosition = FindTagReplacementPosition original tag
      in if replacementPosition < 0 then original
         else ReplaceTag_Replace original replacement (nat replacementPosition))"

subsection \<open>Numbers in strings\<close>

record shortened_count =
  sc_number :: int
  sc_string :: string

definition shorten_count :: "int \<Rightarrow> int \<Rightarrow> char \<Rightarrow> shortened_count" where
  "shorten_count number divider multiplier =
     (let sign = (if number > 0 then 1 else -1);
          rounded = cdiv \<bar>number\<bar> (cdiv divider 10);
          base = dec_int (cdiv (sign * rounded) 10)
      in \<lparr>sc_number = rounded * divider,
          sc_string = (if cmod rounded 10 \<noteq> 0
            then base @ CHR ''.'' # dec_int (cmod rounded 10) @ [multiplier]
            else base @ [multiplier])\<rparr>)"

definition FormatCountToShort :: "int \<Rightarrow> shortened_count" where
  "FormatCountToShort number =
     (if \<bar>number\<bar> \<ge> 1000000 then shorten_count number 1000000 CHR ''M''
      else if \<bar>number\<bar> \<ge> 10000 then shorten_count number 1000 CHR ''K''
      else \<lparr>sc_number = number, sc_string = dec_int number\<rparr>)"

text \<open>
  \<open>number6\<close> is \<open>QString::number(value, 'f', 6)\<close>. A \<open>float64\<close> is the rational number
  it stands for; the operations below are exact on it.
\<close>

definition FormatDouble :: "(rat \<Rightarrow> string) \<Rightarrow> rat \<Rightarrow> string" where
  "FormatDouble number6 value =
     (let r = rev (dropWhile (\<lambda>c. c = CHR ''0'') (rev (number6 value)))
      in if r \<noteq> [] \<and> last r = CHR ''.'' then butlast r else r)"

definition NonZeroPartToInt :: "string \<Rightarrow> int" where
  "NonZeroPartToInt value =
     (let zeros = length (takeWhile (\<lambda>c. c = CHR ''0'') value)
      in if zeros > 0 then (if zeros < length value then toInt (drop zeros value) else 0)
         else (if value = [] then 0 else toInt value))"

definition qRound :: "rat \<Rightarrow> int" where
  "qRound value = (if value \<ge> 0 then \<lfloor>value + 1/2\<rfloor> else \<lceil>value - 1/2\<rceil>)"

text \<open>The operands of a value: whether it is an integer, and \<open>i\<close>, \<open>v\<close> and \<open>f\<close>.\<close>

definition plural_operands :: "(rat \<Rightarrow> string) \<Rightarrow> rat \<Rightarrow> bool \<Rightarrow> bool \<times> int \<times> int \<times> int" where
  "plural_operands number6 value isShortened =
     (let number = (if isShortened then sc_number (FormatCountToShort (qRound value)) else 0);
          n = \<bar>if number \<noteq> 0 then of_int number else value\<bar>;
          i = \<lfloor>n\<rfloor>;
          integer = (\<lceil>n\<rceil> = i);
          formatted = (if integer then [] else FormatDouble number6 n);
          fraction = (if CHR ''.'' \<in> set formatted
            then drop 1 (dropWhile (\<lambda>c. c \<noteq> CHR ''.'') formatted) else [])
      in (integer, i, int (length fraction), NonZeroPartToInt fraction))"

definition PluralShift :: "(rat \<Rightarrow> string) \<Rightarrow> plural_rule \<Rightarrow> rat \<Rightarrow> bool \<Rightarrow> nat" where
  "PluralShift number6 choosePlural value isShortened =
     (case plural_operands number6 value isShortened of (integer, i, v, f) \<Rightarrow>
       rule_method (if choosePlural \<noteq> ChoosePluralDefault then choosePlural else ChoosePluralDefault)
         (if integer then i else -1) i v v f f)"

datatype lngtag_count = lt_count | lt_count_short | lt_count_decimal

text \<open>
  \<open>isNonDefaultPlural\<close> is the generated \<open>Lang::details::IsNonDefaultPlural\<close>,
  \<open>decimal\<close> the locale's number format (\<open>%L1\<close>).
\<close>

definition Plural :: "(rat \<Rightarrow> string) \<Rightarrow> (int \<Rightarrow> string) \<Rightarrow> ('key \<Rightarrow> bool) \<Rightarrow> plural_rule
    \<Rightarrow> 'key \<Rightarrow> rat \<Rightarrow> lngtag_count \<Rightarrow> nat \<times> string" where
  "Plural number6 decimal isNonDefaultPlural choosePlural keyBase value type =
     (case plural_operands number6 value (type = lt_count_short) of (integer, i, v, f) \<Rightarrow>
       let useNonDefaultPlural = (choosePlural \<noteq> ChoosePluralDefault \<and> isNonDefaultPlural keyBase);
           shift = rule_method (if useNonDefaultPlural then choosePlural else ChoosePluralDefault)
             (if integer then i else -1) i v v f f
       in if integer then
            (shift, if type = lt_count_short then sc_string (FormatCountToShort (qRound value))
                    else if type = lt_count_decimal then decimal (qRound value)
                    else dec_int (qRound value))
          else (shift, FormatDouble number6 value))"


subsection \<open>Keys and names\<close>

text \<open>The 64-bit key of a name, as an unbounded number.\<close>

definition key_val :: "string \<Rightarrow> nat" where
  "key_val s = fold (\<lambda>c k. 256 * k + of_char c) s 0"

definition key_char :: "char \<Rightarrow> bool" where
  "key_char c \<longleftrightarrow> 0 < (of_char c :: nat) \<and> (of_char c :: nat) < 128"

lemma key_val_append [simp]: "key_val (s @ [c]) = 256 * key_val s + of_char c"
  by (simp add: key_val_def)

lemma key_val_Nil [simp]: "key_val [] = 0"
  by (simp add: key_val_def)

lemma key_val_bound: "key_val s < 256 ^ length s"
proof (induction s rule: rev_induct)
  case (snoc c s)
  have "of_char c < (256 :: nat)" by (rule nat_of_char_less_256)
  then have "256 * key_val s + of_char c < 256 * (key_val s + 1)" by simp
  also have "\<dots> \<le> 256 * 256 ^ length s" using snoc by (intro mult_left_mono) simp_all
  finally show ?case by simp
qed simp

lemma key_val_inject:
  "\<forall>c \<in> set s. key_char c \<Longrightarrow> \<forall>c \<in> set t. key_char c \<Longrightarrow>
   key_val s mod 256 ^ (length t + 1) = key_val t \<Longrightarrow> s = t"
proof (induction t arbitrary: s rule: rev_induct)
  case Nil
  show ?case
  proof (cases s rule: rev_cases)
    case (snoc s' c)
    then have "key_val s mod 256 = of_char c" using nat_of_char_less_256[of c] by simp
    moreover have "(of_char c :: nat) \<noteq> 0" using Nil.prems(1) snoc by (simp add: key_char_def)
    ultimately show ?thesis using Nil.prems(3) by simp
  qed simp
next
  case (snoc d t)
  have d: "key_char d" using snoc.prems(2) by simp
  show ?case
  proof (cases s rule: rev_cases)
    case Nil
    then show ?thesis using snoc.prems(3) d by (simp add: key_char_def)
  next
    case (snoc s' c)
    note s = snoc
    have "key_val s mod (256 * 256 ^ (length t + 1)) = 256 * (key_val s' mod 256 ^ (length t + 1)) + of_char c"
      unfolding s using nat_of_char_less_256[of c]
      by (simp add: mod_mult2_eq del: power_Suc)
    then have eq: "256 * (key_val s' mod 256 ^ (length t + 1)) + of_char c = 256 * key_val t + of_char d"
      using snoc.prems(3) by simp
    have "(256 * (key_val s' mod 256 ^ (length t + 1)) + of_char c) mod 256 = (256 * key_val t + of_char d) mod 256"
      using eq by (rule arg_cong)
    then have cd: "(of_char c :: nat) = of_char d" by (simp add: nat_of_char_less_256)
    then have "key_val s' mod 256 ^ (length t + 1) = key_val t" using eq by simp
    with snoc.prems s have "s' = t" by (intro snoc.IH) auto
    moreover have "c = d" using cd by (simp add: of_char_eq_iff)
    ultimately show ?thesis using s by simp
  qed
qed

lemma shift_or_byte:
  assumes "b < 256"
  shows "push_bit 8 (of_nat k) OR of_nat b = (of_nat (256 * k + b) :: 64 word)"
proof -
  have tb: "take_bit 8 (of_nat b :: 64 word) = of_nat b"
    using assms by (simp add: take_bit_of_nat take_bit_nat_eq_self)
  have pb: "push_bit 8 (of_nat k :: 64 word) = of_nat (256 * k)"
    by (simp add: push_bit_eq_mult)
  have "push_bit 8 (of_nat k :: 64 word) AND take_bit 8 (of_nat b) = 0"
    by (rule bit_eqI) (auto simp: bit_simps)
  then have "push_bit 8 (of_nat k :: 64 word) OR of_nat b = push_bit 8 (of_nat k) + of_nat b"
    by (simp add: tb disjunctive_add_eq_or)
  then show ?thesis by (simp add: pb)
qed

lemma key_byte_ascii: "key_char c \<Longrightarrow> key_byte c = of_nat (of_char c)"
  by (simp add: key_char_def key_byte_def)


lemma key_byte_of_nat: "key_char c \<Longrightarrow> push_bit 8 (of_nat k) OR key_byte c = of_nat (256 * k + of_char c)"
  by (simp add: key_byte_ascii shift_or_byte key_char_def)

lemma PluralsKey_val:
  "\<forall>c \<in> set s. key_char (ConvertKeyChar c) \<Longrightarrow> PluralsKey s = of_nat (key_val (map ConvertKeyChar s))"
  by (induction s rule: rev_induct) (simp_all add: PluralsKey_def key_byte_of_nat del: of_nat_add of_nat_mult)

text \<open>A short name is determined by its key, whatever name it is compared with.\<close>

lemma key_inject:
  assumes "\<forall>c \<in> set s. key_char c" "\<forall>c \<in> set t. key_char c" "length t \<le> 7"
  shows "(of_nat (key_val s) :: 64 word) = of_nat (key_val t) \<longleftrightarrow> s = t"
proof
  assume "(of_nat (key_val s) :: 64 word) = of_nat (key_val t)"
  then have eq: "key_val s mod 2 ^ 64 = key_val t mod 2 ^ 64"
    by (simp add: word_of_nat_eq_iff take_bit_eq_mod)
  have pow: "(256 :: nat) ^ n = 2 ^ (8 * n)" for n by (simp add: power_mult)
  have "(256 :: nat) ^ (length t + 1) dvd 2 ^ 64"
    unfolding pow using assms(3) by (intro le_imp_power_dvd) simp
  then have "key_val s mod 256 ^ (length t + 1) = key_val t mod 256 ^ (length t + 1)"
    using arg_cong[OF eq, of "\<lambda>m. m mod 256 ^ (length t + 1)"] by (simp only: mod_mod_cancel)
  also have "\<dots> = key_val t"
  proof (rule mod_less)
    have "key_val t < 256 ^ length t" by (rule key_val_bound)
    also have "(256 :: nat) ^ length t \<le> 256 ^ (length t + 1)" by simp
    finally show "key_val t < 256 ^ (length t + 1)" .
  qed
  finally show "s = t" by (rule key_val_inject[OF assms(1,2)])
qed simp

definition named_rule :: "string \<Rightarrow> plural_rule option" where
  "named_rule q = map_of (map (\<lambda>(name, rule). (map ConvertKeyChar name, rule)) GeneratePluralRulesMap) q"

lemma rules_map_names:
  "\<forall>(name, rule) \<in> set GeneratePluralRulesMap.
     length name \<le> 7 \<and> list_all (\<lambda>c. key_char (ConvertKeyChar c)) name"
  by (simp add: GeneratePluralRulesMap_def ConvertKeyChar_def key_char_def)

lemma map_of_rekey:
  "\<forall>(s, r) \<in> set m. (k = f s) \<longleftrightarrow> (q = g s) \<Longrightarrow>
   map_of (map (\<lambda>(s, r). (f s, r)) m) k = map_of (map (\<lambda>(s, r). (g s, r)) m) q"
  by (induction m) auto

lemma plural_rules_find_named:
  assumes "\<forall>c \<in> set q. key_char c"
  shows "plural_rules_find (of_nat (key_val q)) = named_rule q"
  unfolding plural_rules_find_def named_rule_def
proof (rule map_of_rekey, clarify)
  fix s r assume "(s, r) \<in> set GeneratePluralRulesMap"
  then have s: "length s \<le> 7" "\<forall>c \<in> set s. key_char (ConvertKeyChar c)"
    using rules_map_names by (auto simp: list_all_iff)
  then show "(of_nat (key_val q) = PluralsKey s) = (q = map ConvertKeyChar s)"
    using key_inject[OF assms, of "map ConvertKeyChar s"] by (simp add: PluralsKey_val)
qed

lemma takeWhile_absent: "a \<notin> set xs \<Longrightarrow> takeWhile (\<lambda>c. c \<noteq> a) xs = xs"
  by (induction xs) auto

lemma plural_key_fold:
  assumes "\<forall>c \<in> set s. key_char (ConvertKeyChar c)" "s = [] \<or> ConvertKeyChar (hd s) \<noteq> CHR ''-''"
  shows "fold plural_key_step s (0, 0) =
    (if CHR ''-'' \<in> set (map ConvertKeyChar s)
     then of_nat (key_val (takeWhile (\<lambda>c. c \<noteq> CHR ''-'') (map ConvertKeyChar s))) else 0,
     of_nat (key_val (map ConvertKeyChar s)))"
  using assms
proof (induction s rule: rev_induct)
  case (snoc c s)
  have ks: "\<forall>c \<in> set s. key_char (ConvertKeyChar c)" and kc: "key_char (ConvertKeyChar c)"
    using snoc.prems(1) by simp_all
  have hd: "s = [] \<or> ConvertKeyChar (hd s) \<noteq> CHR ''-''" using snoc.prems(2) by (cases s) auto
  let ?n = "map ConvertKeyChar s"
  let ?p = "takeWhile (\<lambda>c. c \<noteq> CHR ''-'') ?n"
  have key: "push_bit 8 (of_nat (key_val ?n)) OR key_byte (ConvertKeyChar c)
      = (of_nat (key_val (map ConvertKeyChar (s @ [c]))) :: 64 word)"
    using key_byte_of_nat[OF kc] by (simp del: of_nat_add of_nat_mult)
  show ?case
  proof (cases "CHR ''-'' \<in> set ?n")
    case True
    then have "?p \<noteq> []" using hd by (cases s) auto
    moreover have "\<forall>c \<in> set ?n. key_char c" using ks by simp
    then have "\<forall>c \<in> set ?p. key_char c" by (blast dest: set_takeWhileD)
    ultimately have "(of_nat (key_val ?p) :: 64 word) \<noteq> 0" using key_inject[of ?p "[]"] by simp
    moreover have "takeWhile (\<lambda>c. c \<noteq> CHR ''-'') (?n @ [ConvertKeyChar c]) = ?p"
      using True by (rule takeWhile_append1) simp
    ultimately show ?thesis using True key
      unfolding fold_append comp_apply snoc.IH[OF ks hd]
      by (simp add: plural_key_step_def Let_def)
  next
    case False
    then have "takeWhile (\<lambda>c. c \<noteq> CHR ''-'') ?n = ?n" by (rule takeWhile_absent)
    then show ?thesis using False key
      unfolding fold_append comp_apply snoc.IH[OF ks hd]
      by (auto simp: plural_key_step_def Let_def takeWhile_append)
  qed
qed simp

lemma UpdatePluralRules_named:
  assumes "\<forall>c \<in> set s. key_char (ConvertKeyChar c)" "s = [] \<or> ConvertKeyChar (hd s) \<noteq> CHR ''-''"
  shows "UpdatePluralRules s =
    (let name = map ConvertKeyChar s; language = takeWhile (\<lambda>c. c \<noteq> CHR ''-'') name
     in case named_rule name of Some rule \<Rightarrow> rule
        | None \<Rightarrow> (case named_rule language of Some rule \<Rightarrow> rule | None \<Rightarrow> Rule1))"
proof -
  let ?n = "map ConvertKeyChar s"
  let ?p = "takeWhile (\<lambda>c. c \<noteq> CHR ''-'') ?n"
  have n: "\<forall>c \<in> set ?n. key_char c" using assms(1) by simp
  have p: "\<forall>c \<in> set ?p. key_char c" using n by (blast dest: set_takeWhileD)
  show ?thesis
  proof (cases "CHR ''-'' \<in> set ?n")
    case True
    then have "?p \<noteq> []" using assms(2) by (cases s) auto
    then have "(of_nat (key_val ?p) :: 64 word) \<noteq> 0" using key_inject[OF p, of "[]"] by simp
    then show ?thesis using True
      by (simp add: UpdatePluralRules_def plural_key_fold[OF assms] Let_def plural_rules_find_named[OF n]
          plural_rules_find_named[OF p] split: option.split)
  next
    case False
    then have tw: "?p = ?n" by (rule takeWhile_absent)
    show ?thesis using False
      by (simp add: UpdatePluralRules_def plural_key_fold[OF assms] Let_def plural_rules_find_named[OF n] tw
          split: option.split)
  qed
qed


subsection \<open>Tags\<close>

text \<open>A string as the code builds it: characters and tags of four code units.\<close>

datatype piece = Plain nat | Tag nat

fun encode_piece :: "piece \<Rightarrow> nat list" where
  "encode_piece (Plain c) = [c]"
| "encode_piece (Tag t) = [kTextCommand, kTextCommandLangTag, 32 + t, kTextCommand]"

definition encode :: "piece list \<Rightarrow> nat list" where
  "encode ps = concat (map encode_piece ps)"

definition pieces_ok :: "piece list \<Rightarrow> bool" where
  "pieces_ok ps \<longleftrightarrow> Plain kTextCommand \<notin> set ps"

fun subst_tag :: "nat \<Rightarrow> nat list \<Rightarrow> piece list \<Rightarrow> piece list" where
  "subst_tag a r [] = []"
| "subst_tag a r (Tag t # ps) = (if t = a then map Plain r @ ps else Tag t # subst_tag a r ps)"
| "subst_tag a r (Plain c # ps) = Plain c # subst_tag a r ps"

lemma encode_simps [simp]:
  "encode [] = []" "encode (p # ps) = encode_piece p @ encode ps"
  "encode (ps @ qs) = encode ps @ encode qs" "encode (map Plain r) = r"
  by (induction r) (simp_all add: encode_def)

lemma find_tag_skip:
  "pieces_ok ps \<Longrightarrow> Tag a \<notin> set ps \<Longrightarrow>
   find_tag_from a (encode ps @ rest) pos = find_tag_from a rest (pos + length (encode ps))"
proof (induction ps arbitrary: pos)
  case (Cons p ps)
  then have IH: "find_tag_from a (encode ps @ rest) pos' = find_tag_from a rest (pos' + length (encode ps))" for pos'
    by (simp add: pieces_ok_def)
  show ?case using Cons.prems
    by (cases p) (simp_all add: IH pieces_ok_def kTagReplacementSize_def ac_simps eval_nat_numeral)
qed simp

lemma find_tag_here: "find_tag_from a (encode_piece (Tag a) @ rest) pos = int pos"
  by (simp add: kTagReplacementSize_def)

lemma ReplaceTag_pieces:
  assumes "pieces_ok ps"
  shows "ReplaceTag_Call (encode ps) a r = encode (subst_tag a r ps)"
proof (cases "Tag a \<in> set ps")
  case True
  then obtain us vs where ps: "ps = us @ Tag a # vs" and us: "Tag a \<notin> set us"
    by (meson split_list_first)
  have ok: "pieces_ok us" using assms ps by (simp add: pieces_ok_def)
  have "find_tag_from a (encode us @ (encode_piece (Tag a) @ encode vs)) 0
      = find_tag_from a (encode_piece (Tag a) @ encode vs) (0 + length (encode us))"
    by (rule find_tag_skip[OF ok us])
  then have f: "FindTagReplacementPosition (encode ps) a = int (length (encode us))"
    by (simp only: FindTagReplacementPosition_def ps encode_simps find_tag_here add_0)
  have sub: "subst_tag a r (us @ Tag a # vs) = us @ map Plain r @ vs" using us
  proof (induction us)
    case (Cons p us) then show ?case by (cases p) simp_all
  qed simp
  show ?thesis unfolding ReplaceTag_Call_def f
    by (simp add: ps sub ReplaceTag_Replace_def kTagReplacementSize_def)
next
  case False
  then have f: "FindTagReplacementPosition (encode ps) a = -1"
    using find_tag_skip[OF assms False, of "[]" 0] by (simp add: FindTagReplacementPosition_def)
  have sub: "subst_tag a r ps = ps" using False
  proof (induction ps)
    case (Cons p ps) then show ?case by (cases p) auto
  qed simp
  show ?thesis unfolding ReplaceTag_Call_def f sub by simp
qed

lemma subst_tag_ok: "pieces_ok ps \<Longrightarrow> kTextCommand \<notin> set r \<Longrightarrow> pieces_ok (subst_tag a r ps)"
  by (induction a r ps rule: subst_tag.induct) (auto simp: pieces_ok_def)

lemma subst_tag_plain: "subst_tag a r (map Plain s @ ps) = map Plain s @ subst_tag a r ps"
  by (induction s) simp_all

lemma subst_tag_commute:
  "a \<noteq> b \<Longrightarrow> subst_tag a r (subst_tag b s ps) = subst_tag b s (subst_tag a r ps)"
proof (induction ps)
  case (Cons p ps)
  then show ?case by (cases p) (auto simp: subst_tag_plain)
qed simp

subsection \<open>Short counts\<close>

text \<open>Reading a short count back: \<open>-12.3K\<close> is -12300.\<close>

definition read_short_abs :: "string \<Rightarrow> int" where
  "read_short_abs s =
     (let mult = (if s \<noteq> [] \<and> last s = CHR ''K'' then 1000
        else if s \<noteq> [] \<and> last s = CHR ''M'' then 1000000 else 1);
          whole = takeWhile is_digit s; rest = dropWhile is_digit s;
          tenths = (if 2 \<le> length rest \<and> hd rest = CHR ''.'' then int (digit_val (rest ! 1)) else 0)
      in int (digits_val whole) * mult + tenths * (mult div 10))"

definition read_short :: "string \<Rightarrow> int" where
  "read_short s =
     (if s \<noteq> [] \<and> hd s = CHR ''-'' then - read_short_abs (tl s) else read_short_abs s)"

lemma takeWhile_dec: "\<not> is_digit c \<Longrightarrow> takeWhile is_digit (dec_nat n @ c # s) = dec_nat n"
  and dropWhile_dec: "\<not> is_digit c \<Longrightarrow> dropWhile is_digit (dec_nat n @ c # s) = c # s"
  and takeWhile_dec_nat: "takeWhile is_digit (dec_nat n) = dec_nat n"
  and dropWhile_dec_nat: "dropWhile is_digit (dec_nat n) = []"
  by (simp_all add: takeWhile_append2 dropWhile_append2 dec_nat_digits takeWhile_eq_all_conv dropWhile_eq_Nil_conv)

lemma last_dec_nat: "is_digit (last (dec_nat n))"
  by (rule dec_nat_digits[OF last_in_set]) simp

lemma hd_dec_nat: "is_digit (hd (dec_nat n))"
  by (rule dec_nat_digits[OF hd_in_set]) simp

lemma read_short_abs_dec: "read_short_abs (dec_nat n) = int n"
  using last_dec_nat[of n] by (auto simp: read_short_abs_def Let_def takeWhile_dec_nat dropWhile_dec_nat is_digit_neq)

lemma unit_chars [simp]: "\<not> is_digit (CHR ''K'')" "\<not> is_digit (CHR ''M'')" "\<not> is_digit (CHR ''.'')"
  "\<not> is_digit (CHR ''-'')"
  by (simp_all add: is_digit_def)

lemma read_short_abs_unit:
  assumes "(u, m) = (CHR ''K'', 1000) \<or> (u, m) = (CHR ''M'', 1000000)" "d < 10"
  shows "read_short_abs (dec_nat n @ (if d \<noteq> 0 then [CHR ''.'', digit d] else []) @ [u]) = int n * m + int d * (m div 10)"
  using assms by (auto simp: read_short_abs_def Let_def takeWhile_dec dropWhile_dec)

lemma shorten_count_text:
  assumes "divider = 1000 \<or> divider = 1000000" "10 \<le> \<bar>n\<bar> div (divider div 10)"
  defines "r \<equiv> nat (\<bar>n\<bar> div (divider div 10))"
  shows "sc_string (shorten_count n divider u) = (if n > 0 then [] else [CHR ''-''])
      @ dec_nat (r div 10) @ (if r mod 10 \<noteq> 0 then [CHR ''.'', digit (r mod 10)] else []) @ [u]"
    and "sc_number (shorten_count n divider u) = int r * divider"
proof -
  have r: "cdiv \<bar>n\<bar> (cdiv divider 10) = int r" using assms(1) by (auto simp: r_def cdiv_nonneg)
  have r10: "10 \<le> r" using assms(2) by (simp add: r_def)
  have m: "cmod (int r) 10 = int (r mod 10)" by (simp add: cmod_nonneg zmod_int)
  have whole: "dec_int (cdiv ((if n > 0 then 1 else -1) * int r) 10)
      = (if n > 0 then [] else [CHR ''-'']) @ dec_nat (r div 10)"
    using r10 by (auto simp: cdiv_def dec_int_def zdiv_int[symmetric] nat_div_distrib nat_mult_distrib)
  have dig: "dec_int (int (r mod 10)) = [digit (r mod 10)]" by (simp add: dec_int_def dec_nat_small)
  show "sc_string (shorten_count n divider u) = (if n > 0 then [] else [CHR ''-''])
      @ dec_nat (r div 10) @ (if r mod 10 \<noteq> 0 then [CHR ''.'', digit (r mod 10)] else []) @ [u]"
    unfolding shorten_count_def Let_def r m whole dig by simp
  show "sc_number (shorten_count n divider u) = int r * divider"
    unfolding shorten_count_def Let_def r by simp
qed

lemma read_shorten_count:
  assumes "(u, divider) = (CHR ''K'', 1000) \<or> (u, divider) = (CHR ''M'', 1000000)"
    "10 \<le> \<bar>n\<bar> div (divider div 10)"
  shows "read_short (sc_string (shorten_count n divider u)) = sgn n * (\<bar>n\<bar> - \<bar>n\<bar> mod (divider div 10))"
    and "sc_number (shorten_count n divider u)
      = 10 * \<bar>read_short (sc_string (shorten_count n divider u))\<bar>"
proof -
  define r where "r = nat (\<bar>n\<bar> div (divider div 10))"
  have d: "divider = 1000 \<or> divider = 1000000" using assms(1) by auto
  note txt1 = shorten_count_text[OF d assms(2), of u, folded r_def]
  have unit: "read_short_abs (dec_nat (r div 10) @ (if r mod 10 \<noteq> 0 then [CHR ''.'', digit (r mod 10)] else []) @ [u])
      = int (r div 10) * divider + int (r mod 10) * (divider div 10)"
    by (rule read_short_abs_unit) (use assms(1) in auto)
  have "int (r div 10) * divider + int (r mod 10) * (divider div 10) = int r * (divider div 10)"
    using d by (auto simp: zdiv_int zmod_int) presburger+
  also have "\<dots> = \<bar>n\<bar> - \<bar>n\<bar> mod (divider div 10)"
    using d by (auto simp: r_def minus_mod_eq_div_mult)
  finally have val: "read_short_abs (dec_nat (r div 10)
      @ (if r mod 10 \<noteq> 0 then [CHR ''.'', digit (r mod 10)] else []) @ [u]) = \<bar>n\<bar> - \<bar>n\<bar> mod (divider div 10)"
    using unit by simp
  have n0: "n \<noteq> 0" using assms(2) d by auto
  have hd: "hd (dec_nat (r div 10) @ x) \<noteq> CHR ''-''" for x
    using is_digit_neq(2)[OF hd_dec_nat] by simp
  show res: "read_short (sc_string (shorten_count n divider u)) = sgn n * (\<bar>n\<bar> - \<bar>n\<bar> mod (divider div 10))"
    unfolding txt1(1) using n0 hd val by (auto simp: read_short_def sgn_if)
  have "0 \<le> \<bar>n\<bar> - \<bar>n\<bar> mod (divider div 10)" using d by (auto simp: minus_mod_eq_div_mult)
  then have "\<bar>read_short (sc_string (shorten_count n divider u))\<bar> = \<bar>n\<bar> - \<bar>n\<bar> mod (divider div 10)"
    using n0 unfolding res by (auto simp: sgn_if)
  also have "\<dots> = int r * (divider div 10)" using d by (auto simp: r_def minus_mod_eq_div_mult)
  finally show "sc_number (shorten_count n divider u)
      = 10 * \<bar>read_short (sc_string (shorten_count n divider u))\<bar>"
    unfolding txt1(2) using d by auto
qed

lemma read_dec_int: "read_short (dec_int n) = n"
  using is_digit_neq(2)[OF hd_dec_nat[of "nat n"]]
  by (auto simp: dec_int_def read_short_def read_short_abs_dec)

subsection \<open>Values\<close>

lemma qRound_of_int [simp]: "qRound (of_int k) = k"
proof -
  have "\<lfloor>of_int k + 1 / 2 :: rat\<rfloor> = k" "\<lceil>of_int k - 1 / 2 :: rat\<rceil> = k" by linarith+
  then show ?thesis by (simp add: qRound_def)
qed

lemma plural_operands_of_int:
  assumes "isShortened \<longrightarrow> \<bar>k\<bar> < 10000"
  shows "plural_operands number6 (of_int k) isShortened = (True, \<bar>k\<bar>, 0, 0)"
proof -
  have "\<bar>if (if isShortened then sc_number (FormatCountToShort (qRound (of_int k))) else 0) \<noteq> 0
      then of_int (if isShortened then sc_number (FormatCountToShort (qRound (of_int k))) else 0)
      else of_int k :: rat\<bar> = of_int \<bar>k\<bar>"
    using assms by (cases isShortened) (simp_all add: FormatCountToShort_def)
  then show ?thesis
    unfolding plural_operands_def Let_def
    by (simp add: NonZeroPartToInt_def del: of_int_abs)
qed

lemma mod10_of_mod100: "(k :: int) mod 10 = (k mod 100) mod 10"
  by (simp add: mod_mod_cancel)

subsection \<open>Properties\<close>

text \<open>
  C24: the plural rule of a language is found by name, although the code looks names up by
  a 64-bit key into which it shifts their characters: letter case and the kind of separator
  do not matter, the full name is tried first, then the part before the first separator, and a
  language without an entry has a single form. No two names are confused by their keys.
\<close>

theorem plural_rule_of_language:
  assumes "\<forall>c \<in> set s. key_char (ConvertKeyChar c)"
    "s = [] \<or> ConvertKeyChar (hd s) \<noteq> CHR ''-''"
  shows "UpdatePluralRules s =
    (let name = map ConvertKeyChar s; language = takeWhile (\<lambda>c. c \<noteq> CHR ''-'') name
     in case named_rule name of Some rule \<Rightarrow> rule
        | None \<Rightarrow> (case named_rule language of Some rule \<Rightarrow> rule | None \<Rightarrow> Rule1))"
  using assms by (rule UpdatePluralRules_named)

theorem plural_rule_of_language_witness:
  "UpdatePluralRules ''pt-BR'' = Rule2hy \<and> UpdatePluralRules ''PT_pt'' = Rule2ast"
  using plural_rule_of_language[of "''pt-BR''"] plural_rule_of_language[of "''PT_pt''"]
  by (simp add: key_char_def ConvertKeyChar_def Let_def named_rule_def GeneratePluralRulesMap_def char_of_def bit_0)

text \<open>
  C36: for whole numbers the rules of the Slavic languages agree: Belarusian and Russian
  choose the same form, Serbo-Croatian differs only in having no form for "many", Polish only in
  using it for 21, 31 and so on; and the form is the one the CLDR gives.
\<close>

theorem plural_slavic_counts:
  assumes "0 \<le> k"
  shows "rule_method Rule4be k k 0 0 0 0 = rule_method Rule4ru k k 0 0 0 0
    \<and> rule_method Rule3bs k k 0 0 0 0 = (if rule_method Rule4ru k k 0 0 0 0 = kShiftMany
        then kShiftOther else rule_method Rule4ru k k 0 0 0 0)
    \<and> rule_method Rule4pl k k 0 0 0 0 = (if rule_method Rule4ru k k 0 0 0 0 = kShiftOne \<and> k \<noteq> 1
        then kShiftMany else rule_method Rule4ru k k 0 0 0 0)
    \<and> rule_method Rule4ru k k 0 0 0 0 =
        (if k mod 10 = 1 \<and> k mod 100 \<noteq> 11 then kShiftOne
         else if k mod 10 \<in> {2 .. 4} \<and> k mod 100 \<notin> {12 .. 14} then kShiftFew
         else kShiftMany)"
proof -
  define m where "m = k mod 100"
  define d where "d = m mod 10"
  have be: "d = 0 \<or> 5 \<le> d \<or> 11 \<le> m \<and> m \<le> 14"
    if "\<not> (d = 1 \<and> m \<noteq> 11)" "\<not> (2 \<le> d \<and> d \<le> 4 \<and> (m < 12 \<or> 14 < m))"
    using that unfolding d_def m_def by presburger
  have d: "k mod 10 = d" "k mod 100 = m" by (simp_all add: d_def m_def mod10_of_mod100[of k])
  have rng: "0 \<le> d" "d \<le> 9" by (simp_all add: d_def)
  have c: "cmod k 10 = d" "cmod k 100 = m" using assms d by (simp_all add: cmod_nonneg)
  have "rule_method Rule4be k k 0 0 0 0 = rule_method Rule4ru k k 0 0 0 0"
    using be rng by (auto simp: ChoosePlural4be_def ChoosePlural4ru_def c Let_def)
  moreover have "rule_method Rule3bs k k 0 0 0 0 = (if rule_method Rule4ru k k 0 0 0 0 = kShiftMany
      then kShiftOther else rule_method Rule4ru k k 0 0 0 0)"
    by (simp add: ChoosePlural3bs_def ChoosePlural4ru_def shift_defs Let_def)
  moreover have "rule_method Rule4pl k k 0 0 0 0 = (if rule_method Rule4ru k k 0 0 0 0 = kShiftOne \<and> k \<noteq> 1
      then kShiftMany else rule_method Rule4ru k k 0 0 0 0)"
    by (cases "k = 1") (simp_all add: ChoosePlural4pl_def ChoosePlural4ru_def cmod_def shift_defs Let_def)
  moreover have "rule_method Rule4ru k k 0 0 0 0 =
      (if k mod 10 = 1 \<and> k mod 100 \<noteq> 11 then kShiftOne
       else if k mod 10 \<in> {2 .. 4} \<and> k mod 100 \<notin> {12 .. 14} then kShiftFew else kShiftMany)"
    unfolding d by (auto simp: ChoosePlural4ru_def c Let_def)
  ultimately show ?thesis by blast
qed

theorem plural_slavic_counts_witness:
  "rule_method Rule4ru 21 21 0 0 0 0 = kShiftOne \<and> rule_method Rule4pl 21 21 0 0 0 0 = kShiftMany"
  using plural_slavic_counts[of 21] by simp

text \<open>
  replacing a tag in a string puts the replacement in the place of the first tag of that
  number and leaves everything else, other tags and stray characters included; the order in
  which two tags are replaced does not matter if the replacement text holds no commands.
\<close>

theorem tags_replaced:
  assumes "pieces_ok ps" "kTextCommand \<notin> set r" "kTextCommand \<notin> set s"
  shows "ReplaceTag_Call (encode ps) a r = encode (subst_tag a r ps)
    \<and> (a \<noteq> b \<longrightarrow> ReplaceTag_Call (ReplaceTag_Call (encode ps) a r) b s
        = ReplaceTag_Call (ReplaceTag_Call (encode ps) b s) a r)"
  using assms by (simp add: ReplaceTag_pieces subst_tag_ok subst_tag_commute)

theorem tags_replaced_witness:
  "ReplaceTag_Call [72, 16, 32, 33, 16, 16, 32, 34, 16, 33] 2 [65, 66] = [72, 16, 32, 33, 16, 65, 66, 33]"
  using tags_replaced[of "[Plain 72, Tag 1, Tag 2, Plain 33]" "[65, 66]" "[]" 2]
  by (simp add: pieces_ok_def kTextCommand_def kTextCommandLangTag_def)

text \<open>
  a short count read back is the number cut off towards zero at a tenth of the unit, and
  the number itself below ten thousand.
\<close>

theorem short_count_reads_back:
  "read_short (sc_string (FormatCountToShort n)) =
    (if 1000000 \<le> \<bar>n\<bar> then sgn n * (\<bar>n\<bar> - \<bar>n\<bar> mod 100000)
     else if 10000 \<le> \<bar>n\<bar> then sgn n * (\<bar>n\<bar> - \<bar>n\<bar> mod 100) else n)"
  by (auto simp: FormatCountToShort_def read_shorten_count(1) read_dec_int)

text \<open>
  the number given back with the text, which is to choose the plural form, is ten times
  the absolute value of the text: 123000 for 12345, where the text is 12.3K.
\<close>

theorem short_count_number_tenfold:
  assumes "10000 \<le> \<bar>n\<bar>"
  shows "sc_number (FormatCountToShort n) = 10 * \<bar>read_short (sc_string (FormatCountToShort n))\<bar>"
  using assms by (auto simp: FormatCountToShort_def read_shorten_count(2))

theorem short_count_number_tenfold_witness:
  "sc_number (FormatCountToShort 12345) = 10 * \<bar>read_short (sc_string (FormatCountToShort 12345))\<bar>
    \<and> sc_number (FormatCountToShort 12345) = 123000"
  using short_count_number_tenfold[of 12345]
  by (simp add: FormatCountToShort_def shorten_count_def Let_def cdiv_def)

text \<open>
  the two functions that choose a plural form agree, with a string's translation deciding
  only whether the language's rule or the default one is used; for a whole number the rule sees
  its absolute value, also when the short form of a number below ten thousand is asked for.
\<close>

theorem plural_shift_of_count:
  assumes "short \<longrightarrow> \<bar>k\<bar> < 10000"
  shows "fst (Plural number6 decimal nd r key value type)
      = PluralShift number6 (if nd key then r else ChoosePluralDefault) value (type = lt_count_short)
    \<and> PluralShift number6 r (of_int k) short = rule_method r \<bar>k\<bar> \<bar>k\<bar> 0 0 0 0
    \<and> snd (Plural number6 decimal nd r key (of_int k) (if short then lt_count_short else lt_count))
      = dec_int k"
proof -
  have "fst (Plural number6 decimal nd r key value type)
      = PluralShift number6 (if nd key then r else ChoosePluralDefault) value (type = lt_count_short)"
    by (simp add: Plural_def PluralShift_def Let_def split: prod.split)
  moreover have "PluralShift number6 r (of_int k) short = rule_method r \<bar>k\<bar> \<bar>k\<bar> 0 0 0 0"
    by (simp add: PluralShift_def plural_operands_of_int[OF assms])
  moreover have "snd (Plural number6 decimal nd r key (of_int k) (if short then lt_count_short else lt_count))
      = dec_int k"
    using assms plural_operands_of_int[of short k number6]
    by (auto simp: Plural_def Let_def FormatCountToShort_def)
  ultimately show ?thesis by blast
qed

theorem plural_shift_of_count_witness:
  "PluralShift (\<lambda>_. ''2.500000'') Rule4ru (of_int (-22)) True = kShiftFew"
  using plural_shift_of_count[of True "-22" "\<lambda>_. ''2.500000''" dec_int "\<lambda>_. True" Rule4ru "()" 0 lt_count]
  by (simp add: ChoosePlural4ru_def cmod_def Let_def)

end
