(* ===== verification/StdSort.thy ===== *)
theory StdSort
  imports Prelude
begin

text \<open>
  The sorts of the standard library, which the code uses without relying on stability: a sort
  is a parameter of the model, with the law below as its only hypothesis. Insertion sort shows
  that the law can hold.
\<close>

type_synonym 'a sorter = "('a \<Rightarrow> 'a \<Rightarrow> bool) \<Rightarrow> 'a list \<Rightarrow> 'a list"

text \<open>
  What \<open>std::sort\<close> promises for a strict weak order: a permutation in which no element is
  less than one before it.
\<close>

definition strict_weak :: "('a \<Rightarrow> 'a \<Rightarrow> bool) \<Rightarrow> bool" where
  "strict_weak lt \<longleftrightarrow> (\<forall>a. \<not> lt a a) \<and> (\<forall>a b c. lt a b \<longrightarrow> lt b c \<longrightarrow> lt a c)
     \<and> (\<forall>a b c. lt a c \<longrightarrow> lt a b \<or> lt b c)"

definition sorts :: "'a sorter \<Rightarrow> bool" where
  "sorts srt \<longleftrightarrow> (\<forall>lt xs. strict_weak lt \<longrightarrow>
     mset (srt lt xs) = mset xs \<and> sorted_wrt (\<lambda>a b. \<not> lt b a) (srt lt xs))"

lemma sorts_mset: "sorts srt \<Longrightarrow> strict_weak lt \<Longrightarrow> mset (srt lt xs) = mset xs"
  by (simp add: sorts_def)

lemma sorts_set: "sorts srt \<Longrightarrow> strict_weak lt \<Longrightarrow> set (srt lt xs) = set xs"
  by (rule mset_eq_setD) (rule sorts_mset)

text \<open>Sorting by a key of a linear order.\<close>

definition key_less :: "('a \<Rightarrow> 'k::linorder) \<Rightarrow> 'a \<Rightarrow> 'a \<Rightarrow> bool" where
  "key_less k a b \<longleftrightarrow> k a < k b"

lemma key_less_weak: "strict_weak (key_less k)"
  by (auto simp: strict_weak_def key_less_def)

lemma sorts_key: "sorts srt \<Longrightarrow> sorted (map k (srt (key_less k) xs))"
proof -
  assume "sorts srt"
  then have "sorted_wrt (\<lambda>a b. \<not> key_less k b a) (srt (key_less k) xs)"
    using key_less_weak[of k] unfolding sorts_def by blast
  then show ?thesis by (simp add: key_less_def sorted_map not_less)
qed

text \<open>An instance of \<open>std::sort\<close>.\<close>

fun insort_by :: "('a \<Rightarrow> 'a \<Rightarrow> bool) \<Rightarrow> 'a \<Rightarrow> 'a list \<Rightarrow> 'a list" where
  "insort_by lt x [] = [x]"
| "insort_by lt x (y # ys) = (if lt y x then y # insort_by lt x ys else x # y # ys)"

definition insertion_sort :: "'a sorter" where
  "insertion_sort lt xs = foldr (insort_by lt) xs []"

lemma insertion_sort_sorts: "sorts insertion_sort"
proof -
  have m: "mset (insort_by lt x ys) = add_mset x (mset ys)" for lt :: "'a \<Rightarrow> 'a \<Rightarrow> bool" and x ys
    by (induction ys) auto
  have s: "sorted_wrt (\<lambda>a b. \<not> lt b a) (insort_by lt x ys)"
    if w: "strict_weak lt" and "sorted_wrt (\<lambda>a b. \<not> lt b a) ys" for lt :: "'a \<Rightarrow> 'a \<Rightarrow> bool" and x ys
    using that(2)
  proof (induction ys)
    case (Cons y ys)
    have "set (insort_by lt x ys) = insert x (set ys)" using m[of lt x ys] by (metis set_mset_add_mset_insert set_mset_mset)
    moreover have "\<not> lt x y" if "lt y x" using w that unfolding strict_weak_def by blast
    moreover have "\<not> lt z x" if "\<not> lt y x" "\<not> lt z y" for z using w that unfolding strict_weak_def by blast
    ultimately show ?case using Cons by auto
  qed simp
  have "mset (insertion_sort lt xs) = mset xs \<and> sorted_wrt (\<lambda>a b. \<not> lt b a) (insertion_sort lt xs)"
    if "strict_weak lt" for lt :: "'a \<Rightarrow> 'a \<Rightarrow> bool" and xs
    unfolding insertion_sort_def by (induction xs) (simp_all add: m s[OF that])
  then show ?thesis by (simp add: sorts_def)
qed

end
