(* ===== verification/CardValidator.thy ===== *)
theory CardValidator
  imports Decimal StdSort
begin

text \<open>
  \<open>payments/stripe/stripe_card_validator.{h,cpp}\<close>: the checks of a card number, an expiry
  date and a security code as they are typed. Texts are strings of 8-bit characters.
  \<open>std::sort\<close>, which is not stable, is the parameter \<open>srt\<close>.
\<close>

datatype CardBrand = Visa | Amex | MasterCard | Discover | JCB | DinersClub | UnionPay | Unknown

definition kMinCvcLength :: nat where
  "kMinCvcLength = 3"

record bin_range =
  bin_low :: string
  bin_high :: string
  bin_length :: nat
  bin_brand :: CardBrand

abbreviation bin :: "string \<Rightarrow> string \<Rightarrow> nat \<Rightarrow> CardBrand \<Rightarrow> bin_range" where
  "bin l h n b \<equiv> \<lparr>bin_low = l, bin_high = h, bin_length = n, bin_brand = b\<rparr>"

definition AllRanges :: "bin_range list" where
  "AllRanges = [
     bin [] [] 19 Unknown,
     bin ''34'' ''34'' 15 Amex,
     bin ''37'' ''37'' 15 Amex,
     bin ''30'' ''30'' 16 DinersClub,
     bin ''36'' ''36'' 14 DinersClub,
     bin ''38'' ''39'' 16 DinersClub,
     bin ''60'' ''60'' 16 Discover,
     bin ''64'' ''65'' 16 Discover,
     bin ''35'' ''35'' 16 JCB,
     bin ''50'' ''59'' 16 MasterCard,
     bin ''22'' ''27'' 16 MasterCard,
     bin ''67'' ''67'' 16 MasterCard,
     bin ''62'' ''62'' 16 UnionPay,
     bin ''81'' ''81'' 16 UnionPay,
     bin ''40'' ''49'' 16 Visa,
     bin ''413600'' ''413600'' 13 Visa,
     bin ''444509'' ''444509'' 13 Visa,
     bin ''444509'' ''444509'' 13 Visa,
     bin ''444550'' ''444550'' 13 Visa,
     bin ''450603'' ''450603'' 13 Visa,
     bin ''450617'' ''450617'' 13 Visa,
     bin ''450628'' ''450629'' 13 Visa,
     bin ''450636'' ''450636'' 13 Visa,
     bin ''450640'' ''450641'' 13 Visa,
     bin ''450662'' ''450662'' 13 Visa,
     bin ''463100'' ''463100'' 13 Visa,
     bin ''476142'' ''476142'' 13 Visa,
     bin ''476143'' ''476143'' 13 Visa,
     bin ''492901'' ''492902'' 13 Visa,
     bin ''492920'' ''492920'' 13 Visa,
     bin ''492923'' ''492923'' 13 Visa,
     bin ''492928'' ''492930'' 13 Visa,
     bin ''492937'' ''492937'' 13 Visa,
     bin ''492939'' ''492939'' 13 Visa,
     bin ''492960'' ''492960'' 13 Visa]"

definition BinRangeMatchesNumber :: "bin_range \<Rightarrow> string \<Rightarrow> bool" where
  "BinRangeMatchesNumber rng sanitized =
     (let minWithLow = min (length sanitized) (length (bin_low rng));
          minWithHigh = min (length sanitized) (length (bin_high rng))
      in if toInt (take minWithLow sanitized) < toInt (take minWithLow (bin_low rng)) then False
         else if toInt (take minWithHigh sanitized) > toInt (take minWithHigh (bin_high rng)) then False
         else True)"

text \<open>
  \<open>^[0-9]*$\<close>: the end of the subject, or the newline that ends it.
\<close>

definition newline :: char where
  "newline = CHR 0x0A"

definition IsNumeric :: "string \<Rightarrow> bool" where
  "IsNumeric value \<longleftrightarrow> list_all is_digit value
     \<or> value \<noteq> [] \<and> last value = newline \<and> list_all is_digit (butlast value)"

text \<open>\<open>\\s\<close>: blank, tab, line feed, vertical tab, form feed, carriage return.\<close>

definition is_space :: "char \<Rightarrow> bool" where
  "is_space c \<longleftrightarrow> (of_char c :: nat) = 32 \<or> 9 \<le> (of_char c :: nat) \<and> (of_char c :: nat) \<le> 13"

definition RemoveWhitespaces :: "string \<Rightarrow> string" where
  "RemoveWhitespaces value = filter (\<lambda>c. \<not> is_space c) value"

definition BinRangesForNumber :: "string \<Rightarrow> bin_range list" where
  "BinRangesForNumber sanitized = filter (\<lambda>rng. BinRangeMatchesNumber rng sanitized) AllRanges"

definition bin_less :: "string \<Rightarrow> bin_range \<Rightarrow> bin_range \<Rightarrow> bool" where
  "bin_less sanitized a b =
     (let aUnknown = (bin_brand a = Unknown); bUnknown = (bin_brand b = Unknown)
      in if sanitized = [] \<and> aUnknown \<and> \<not> bUnknown then True
         else if sanitized = [] \<and> \<not> aUnknown \<and> bUnknown then False
         else length (bin_low a) < length (bin_low b))"

definition MostSpecificBinRangeForNumber :: "bin_range sorter \<Rightarrow> string \<Rightarrow> bin_range" where
  "MostSpecificBinRangeForNumber srt sanitized =
     last (srt (bin_less sanitized) (BinRangesForNumber sanitized))"

fun MaxCvcLengthForBranch :: "CardBrand \<Rightarrow> nat" where
  "MaxCvcLengthForBranch Amex = 4"
| "MaxCvcLengthForBranch Unknown = 4"
| "MaxCvcLengthForBranch _ = 3"

definition PossibleBrandsForNumber :: "string \<Rightarrow> CardBrand list" where
  "PossibleBrandsForNumber sanitized =
     fold (\<lambda>rng result. if bin_brand rng = Unknown \<or> bin_brand rng \<in> set result
       then result else result @ [bin_brand rng]) (BinRangesForNumber sanitized) []"

definition BrandForNumber :: "string \<Rightarrow> CardBrand" where
  "BrandForNumber number =
     (let sanitized = RemoveWhitespaces number;
          possible = PossibleBrandsForNumber sanitized
      in if \<not> IsNumeric sanitized then Unknown
         else if length possible = 1 then hd possible else Unknown)"

text \<open>The loop runs from the last digit to the first; the state is \<open>(odd, sum)\<close>.\<close>

definition luhn_step :: "char \<Rightarrow> bool \<times> int \<Rightarrow> bool \<times> int" where
  "luhn_step c st =
     (let digit = int (of_char c) - 48;
          odd = (\<not> fst st);
          digit1 = (if odd then digit * 2 else digit);
          digit2 = (if digit1 > 9 then digit1 - 9 else digit1)
      in (odd, snd st + digit2))"

definition IsValidLuhn :: "string \<Rightarrow> bool" where
  "IsValidLuhn sanitized \<longleftrightarrow> cmod (snd (fold luhn_step (rev sanitized) (True, 0))) 10 = 0"

datatype ValidationState = Invalid | Incomplete | Valid

record card_validation =
  cv_state :: ValidationState
  cv_brand :: CardBrand
  cv_finished :: bool

definition kMinLength :: nat where
  "kMinLength = Min (bin_length ` set AllRanges)"

definition kMaxLength :: nat where
  "kMaxLength = Max (bin_length ` set AllRanges)"

definition ValidateCard :: "bin_range sorter \<Rightarrow> string \<Rightarrow> card_validation" where
  "ValidateCard srt number =
     (let sanitized = RemoveWhitespaces number;
          brand = bin_brand (MostSpecificBinRangeForNumber srt sanitized)
      in if \<not> IsNumeric sanitized
         then \<lparr>cv_state = Invalid, cv_brand = Unknown, cv_finished = False\<rparr>
         else if sanitized = []
         then \<lparr>cv_state = Incomplete, cv_brand = Unknown, cv_finished = False\<rparr>
         else if length sanitized > kMaxLength
         then \<lparr>cv_state = Invalid, cv_brand = brand, cv_finished = False\<rparr>
         else if length sanitized < kMinLength
         then \<lparr>cv_state = Incomplete, cv_brand = brand, cv_finished = False\<rparr>
         else if \<not> IsValidLuhn sanitized
         then \<lparr>cv_state = Invalid, cv_brand = brand, cv_finished = False\<rparr>
         else if length sanitized < kMaxLength
         then \<lparr>cv_state = Valid, cv_brand = brand, cv_finished = False\<rparr>
         else \<lparr>cv_state = Valid, cv_brand = brand, cv_finished = True\<rparr>)"

text \<open>
  The threshold is the month and the year of the date given, or of the current date, which the
  caller passes as \<open>today\<close>.
\<close>

definition ValidateExpireDate :: "nat \<times> nat \<Rightarrow> string \<Rightarrow> (nat \<times> nat) option \<Rightarrow> ValidationState \<times> bool" where
  "ValidateExpireDate today date overrideExpireDateThreshold =
     (let sanitized = filter (\<lambda>c. c \<noteq> CHR ''/'') (RemoveWhitespaces date);
          normalized = (if (of_char (sanitized ! 0) :: nat) > of_char (CHR ''1'') then ''0'' else [])
            @ sanitized;
          month = toInt (take 2 normalized);
          year = 2000 + toInt (drop 2 normalized);
          threshold = (case overrideExpireDateThreshold of Some d \<Rightarrow> d | None \<Rightarrow> today)
      in if \<not> IsNumeric sanitized then (Invalid, False)
         else if length sanitized < 2 then (Incomplete, False)
         else if month < 1 \<or> month > 12 then (Invalid, False)
         else if length normalized < 4 then (Incomplete, False)
         else if length normalized > 4 then (Invalid, False)
         else if year < int (snd threshold) then (Invalid, False)
         else if year = int (snd threshold) \<and> month < int (fst threshold) then (Invalid, False)
         else (Valid, True))"

text \<open>\<open>arg(n, 2, 10, '0')\<close> pads to two characters.\<close>

definition pad2 :: "nat \<Rightarrow> string" where
  "pad2 n = (if n < 10 then ''0'' @ dec_nat n else dec_nat n)"

definition ValidateParsedExpireDate :: "nat \<times> nat \<Rightarrow> nat \<Rightarrow> nat \<Rightarrow> (nat \<times> nat) option \<Rightarrow> ValidationState" where
  "ValidateParsedExpireDate today month year overrideExpireDateThreshold =
     (if year div 100 \<noteq> 20 then Invalid
      else fst (ValidateExpireDate today (pad2 month @ pad2 (year mod 100)) overrideExpireDateThreshold))"

definition ValidateCvc :: "string \<Rightarrow> string \<Rightarrow> ValidationState \<times> bool" where
  "ValidateCvc number cvc =
     (let maxLength = MaxCvcLengthForBranch (BrandForNumber number)
      in if \<not> IsNumeric cvc then (Invalid, False)
         else if length cvc < kMinCvcLength then (Incomplete, False)
         else if length cvc > maxLength then (Invalid, False)
         else (Valid, length cvc = maxLength))"

definition CardNumberFormat :: "bin_range sorter \<Rightarrow> string \<Rightarrow> nat list" where
  "CardNumberFormat srt number =
     (let sanitized = RemoveWhitespaces number;
          rng = MostSpecificBinRangeForNumber srt sanitized
      in if \<not> IsNumeric sanitized then [4, 4, 4, 4]
         else if bin_brand rng = DinersClub \<and> bin_length rng = 14 then [4, 6, 4]
         else if bin_brand rng = Amex then [4, 6, 5]
         else [4, 4, 4, 4])"

subsection \<open>The checksum\<close>

definition luhn_weight :: "bool \<Rightarrow> nat \<Rightarrow> nat" where
  "luhn_weight doubled d = (if doubled then (if 2 * d > 9 then 2 * d - 9 else 2 * d) else d)"

fun luhn_sum :: "bool \<Rightarrow> string \<Rightarrow> nat" where
  "luhn_sum doubled [] = 0"
| "luhn_sum doubled (c # cs) = luhn_weight doubled (digit_val c) + luhn_sum (\<not> doubled) cs"

lemma is_digit_val: "is_digit c \<Longrightarrow> digit_val c < 10 \<and> of_char c = digit_val c + 48"
  by (auto simp: is_digit_def digit_val_def)

lemma digit_val_inject: "is_digit c \<Longrightarrow> is_digit d \<Longrightarrow> digit_val c = digit_val d \<longleftrightarrow> c = d"
  by (metis is_digit_val of_char_eq_iff)

lemma luhn_step_digit:
  "is_digit c \<Longrightarrow> luhn_step c (b, s) = (\<not> b, s + int (luhn_weight (\<not> b) (digit_val c)))"
  using is_digit_val[of c] by (auto simp: luhn_step_def luhn_weight_def Let_def of_nat_diff)

lemma luhn_fold:
  "list_all is_digit cs \<Longrightarrow> snd (fold luhn_step cs (b, s)) = s + int (luhn_sum (\<not> b) cs)"
  by (induction cs arbitrary: b s) (simp_all add: luhn_step_digit)

lemma IsValidLuhn_sum:
  assumes "list_all is_digit s"
  shows "IsValidLuhn s \<longleftrightarrow> luhn_sum False (rev s) mod 10 = 0"
proof -
  have "list_all is_digit (rev s)" using assms by simp
  from luhn_fold[OF this, of True 0] have "snd (fold luhn_step (rev s) (True, 0)) = int (luhn_sum False (rev s))"
    by simp
  then show ?thesis unfolding IsValidLuhn_def by (simp add: cmod_nonneg) presburger
qed

lemma luhn_sum_append:
  "luhn_sum b (xs @ ys) = luhn_sum b xs + luhn_sum (b = even (length xs)) ys"
proof (induction xs arbitrary: b)
  case (Cons x xs)
  have "((\<not> b) = even (length xs)) = (b = even (length (x # xs)))" by auto
  then show ?case by (simp only: append_Cons luhn_sum.simps Cons.IH add.assoc)
qed simp

lemma luhn_weight_digits:
  "\<forall>b. \<forall>m \<in> set [0..<10]. luhn_weight b m < 10 \<and> (\<forall>n \<in> set [0..<10]. luhn_weight b m = luhn_weight b n \<longrightarrow> m = n)"
  "\<forall>b. \<forall>m \<in> set [0..<10]. \<forall>n \<in> set [0..<10].
     (luhn_weight b m + luhn_weight (\<not> b) n) mod 10 = (luhn_weight b n + luhn_weight (\<not> b) m) mod 10
     \<longleftrightarrow> m = n \<or> m = 0 \<and> n = 9 \<or> m = 9 \<and> n = 0"
  by code_simp+

lemma luhn_weight_swap:
  "m < 10 \<Longrightarrow> n < 10 \<Longrightarrow>
    (luhn_weight b m + luhn_weight (\<not> b) n) mod 10 = (luhn_weight b n + luhn_weight (\<not> b) m) mod 10
    \<longleftrightarrow> m = n \<or> m = 0 \<and> n = 9 \<or> m = 9 \<and> n = 0"
  using luhn_weight_digits(2)[THEN spec, of b] by (simp del: atLeastLessThan_iff) auto

lemma mod10_add_cancel: "(a + r) mod 10 = (b + r) mod (10 :: nat) \<longleftrightarrow> a mod 10 = b mod 10"
  unfolding nat_mod_eq_iff by (intro iff_exI) simp

lemma mod10_complement: "((10 - s mod 10) mod 10 + s) mod 10 = (0 :: nat)"
proof -
  have "((10 - s mod 10) mod 10 + s) mod 10 = ((10 - s mod 10) + s mod 10) mod 10"
    by (simp only: mod_add_left_eq mod_add_right_eq)
  also have "(10 - s mod 10) + s mod 10 = 10" by (rule le_add_diff_inverse2) (simp add: less_imp_le)
  finally show ?thesis by simp
qed

lemma luhn_change:
  assumes "list_all is_digit xs" "list_all is_digit ys" "is_digit c" "is_digit d"
    "IsValidLuhn (xs @ c # ys)" "IsValidLuhn (xs @ d # ys)"
  shows "c = d"
proof -
  let ?b = "False = even (length ys)"
  let ?r = "luhn_sum False (rev ys) + luhn_sum (\<not> ?b) (rev xs)"
  have eq: "luhn_sum False (rev (xs @ x # ys)) = luhn_weight ?b (digit_val x) + ?r" for x
    by (simp add: luhn_sum_append)
  have "(luhn_weight ?b (digit_val c) + ?r) mod 10 = 0" "(luhn_weight ?b (digit_val d) + ?r) mod 10 = 0"
    using assms eq by (simp_all only: IsValidLuhn_sum list_all_append list.pred_inject)
  moreover have "luhn_weight ?b (digit_val c) < 10" "luhn_weight ?b (digit_val d) < 10"
    using luhn_weight_digits(1) is_digit_val assms(3,4) by auto
  ultimately have "luhn_weight ?b (digit_val c) = luhn_weight ?b (digit_val d)"
    using mod10_add_cancel[of "luhn_weight ?b (digit_val c)" ?r "luhn_weight ?b (digit_val d)"]
    by (simp only: mod_less refl simp_thms)
  then have "digit_val c = digit_val d" using luhn_weight_digits(1) is_digit_val assms(3,4) by auto
  then show ?thesis using digit_val_inject assms(3,4) by simp
qed

lemma luhn_swap:
  assumes "list_all is_digit xs" "list_all is_digit ys" "is_digit c" "is_digit d"
    "IsValidLuhn (xs @ c # d # ys)"
  shows "IsValidLuhn (xs @ d # c # ys) \<longleftrightarrow>
    c = d \<or> digit_val c = 0 \<and> digit_val d = 9 \<or> digit_val c = 9 \<and> digit_val d = 0"
proof -
  let ?b = "False = even (length ys)"
  let ?w = "\<lambda>x y. luhn_weight ?b (digit_val y) + luhn_weight (\<not> ?b) (digit_val x)"
  let ?r = "luhn_sum False (rev ys) + luhn_sum ?b (rev xs)"
  have eq: "luhn_sum False (rev (xs @ x # y # ys)) = ?w x y + ?r" for x y
    by (simp add: luhn_sum_append)
  have val: "IsValidLuhn (xs @ x # y # ys) \<longleftrightarrow> (?w x y + ?r) mod 10 = 0" if "is_digit x" "is_digit y" for x y
    using assms(1,2) that eq by (simp only: IsValidLuhn_sum list_all_append list.pred_inject)
  have "(?w c d + ?r) mod 10 = 0" using val[OF assms(3,4)] assms(5) by simp
  then have "IsValidLuhn (xs @ d # c # ys) \<longleftrightarrow> ?w c d mod 10 = ?w d c mod 10"
    unfolding val[OF assms(4,3)] using mod10_add_cancel[of "?w c d" ?r "?w d c"] by (metis (no_types))
  also have "\<dots> \<longleftrightarrow> digit_val d = digit_val c \<or> digit_val d = 0 \<and> digit_val c = 9 \<or> digit_val d = 9 \<and> digit_val c = 0"
    by (rule luhn_weight_swap) (simp_all add: is_digit_val assms(3,4))
  finally show ?thesis using digit_val_inject[OF assms(3,4)] by auto
qed

lemma luhn_check_digit:
  assumes "list_all is_digit xs"
  shows "\<exists>c. is_digit c \<and> IsValidLuhn (xs @ [c])"
proof -
  let ?s = "luhn_sum True (rev xs)"
  let ?d = "(10 - ?s mod 10) mod 10"
  have d: "?d < 10" by simp
  have "(?d + ?s) mod 10 = 0" by (rule mod10_complement)
  moreover have "luhn_sum False (rev (xs @ [digit ?d])) = ?d + ?s"
    by (simp only: rev_append rev.simps append_Nil append_Cons luhn_sum.simps luhn_weight_def
        digit_val_digit[OF d] if_False not_False_eq_True)
  moreover have "list_all is_digit (xs @ [digit ?d])" using assms d by simp
  ultimately have "IsValidLuhn (xs @ [digit ?d])" by (simp only: IsValidLuhn_sum)
  then show ?thesis using d by (intro exI[of _ "digit ?d"]) simp
qed

subsection \<open>Numbers from digits\<close>

lemma fold_digits: "fold (\<lambda>c a. 10 * a + digit_val c) s a = a * 10 ^ length s + digits_val s"
proof (induction s arbitrary: a)
  case (Cons c s)
  have "digits_val (c # s) = digit_val c * 10 ^ length s + digits_val s"
    using Cons[of "digit_val c"] by (simp add: digits_val_def)
  with Cons[of "10 * a + digit_val c"] show ?case by (simp add: algebra_simps)
qed (simp add: digits_val_def)

lemma digits_val_append_list: "digits_val (s @ t) = digits_val s * 10 ^ length t + digits_val t"
  using fold_digits[of t "digits_val s"] by (simp add: digits_val_def)

lemma digits_val_bound: "list_all is_digit s \<Longrightarrow> digits_val s < 10 ^ length s"
proof (induction s rule: rev_induct)
  case (snoc c s)
  then have "digits_val s + 1 \<le> 10 ^ length s" "digit_val c < 10" by (simp_all add: is_digit_val)
  then have "10 * digits_val s + digit_val c < 10 * 10 ^ length s" by linarith
  then show ?case by (simp add: digits_val_append)
qed (simp add: digits_val_def)

lemma toInt_digits:
  assumes "list_all is_digit s" "length s \<le> 9"
  shows "toInt s = int (digits_val s)"
proof -
  have "digits_val s < 10 ^ length s" using assms(1) by (rule digits_val_bound)
  also have "\<dots> \<le> (10 :: nat) ^ 9" using assms(2) by (intro power_increasing) simp_all
  finally show ?thesis using assms(1) by (auto simp: toInt_def digits_val_def)
qed

lemma prefix_div:
  assumes "list_all is_digit s" "2 \<le> k" "k \<le> length s"
  shows "digits_val (take 2 s) = digits_val (take k s) div 10 ^ (k - 2)"
proof -
  have eq: "take k s = take 2 s @ drop 2 (take k s)"
    using assms(2) append_take_drop_id[of 2 "take k s"] by (simp add: min_def)
  have "length (drop 2 (take k s)) = k - 2" using assms by simp
  moreover have "list_all is_digit (drop 2 (take k s))"
    using assms(1) by (auto simp: list_all_iff dest: in_set_dropD in_set_takeD)
  ultimately have "digits_val (drop 2 (take k s)) < 10 ^ (k - 2)" by (metis digits_val_bound)
  moreover have "digits_val (take k s) = digits_val (take 2 s) * 10 ^ (k - 2) + digits_val (drop 2 (take k s))"
    by (subst eq) (use \<open>length (drop 2 (take k s)) = k - 2\<close> in \<open>simp only: digits_val_append_list\<close>)
  ultimately show ?thesis by simp
qed

lemma toInt_take:
  "list_all is_digit s \<Longrightarrow> k \<le> 9 \<Longrightarrow> toInt (take k s) = int (digits_val (take k s))"
  by (rule toInt_digits) (auto simp: list_all_iff dest: in_set_takeD)

lemma prefix_mono:
  assumes "list_all is_digit s" "list_all is_digit t" "2 \<le> k" "k \<le> 9" "k \<le> length s" "k \<le> length t"
    "toInt (take k s) \<le> toInt (take k t)"
  shows "toInt (take 2 s) \<le> toInt (take 2 t)"
proof -
  have "digits_val (take k s) \<le> digits_val (take k t)" using assms by (simp add: toInt_take)
  then have "digits_val (take 2 s) \<le> digits_val (take 2 t)"
    using assms by (simp add: prefix_div[of s k] prefix_div[of t k] div_le_mono)
  then show ?thesis using assms by (simp add: toInt_take)
qed

subsection \<open>The brand of a number\<close>

definition brand_of_prefix :: "int \<Rightarrow> CardBrand" where
  "brand_of_prefix v =
     (if v = 34 \<or> v = 37 then Amex
      else if v = 30 \<or> v = 36 \<or> 38 \<le> v \<and> v \<le> 39 then DinersClub
      else if v = 60 \<or> 64 \<le> v \<and> v \<le> 65 then Discover
      else if v = 35 then JCB
      else if 50 \<le> v \<and> v \<le> 59 \<or> 22 \<le> v \<and> v \<le> 27 \<or> v = 67 then MasterCard
      else if v = 62 \<or> v = 81 then UnionPay
      else if 40 \<le> v \<and> v \<le> 49 then Visa else Unknown)"

lemma is_digit_literals [simp]:
  "is_digit (CHR ''0'')" "is_digit (CHR ''1'')" "is_digit (CHR ''2'')" "is_digit (CHR ''3'')"
  "is_digit (CHR ''4'')" "is_digit (CHR ''5'')" "is_digit (CHR ''6'')" "is_digit (CHR ''7'')"
  "is_digit (CHR ''8'')" "is_digit (CHR ''9'')"
  by (simp_all add: is_digit_def)

lemma digit_val_literals [simp]:
  "digit_val (CHR ''0'') = 0" "digit_val (CHR ''1'') = 1" "digit_val (CHR ''2'') = 2"
  "digit_val (CHR ''3'') = 3" "digit_val (CHR ''4'') = 4" "digit_val (CHR ''5'') = 5"
  "digit_val (CHR ''6'') = 6" "digit_val (CHR ''7'') = 7" "digit_val (CHR ''8'') = 8"
  "digit_val (CHR ''9'') = 9"
  by (simp_all add: digit_val_def)

lemma ranges_shape:
  "r \<in> set AllRanges \<Longrightarrow> r = bin [] [] 19 Unknown
    \<or> list_all is_digit (bin_low r) \<and> list_all is_digit (bin_high r) \<and> length (bin_low r) = length (bin_high r)
      \<and> 2 \<le> length (bin_low r) \<and> length (bin_low r) \<le> 6 \<and> bin_brand r \<noteq> Unknown"
  unfolding AllRanges_def by (simp only: list.set insert_iff empty_iff) (elim disjE; simp)

lemma ranges_brand:
  "r \<in> set AllRanges \<Longrightarrow> bin_low r \<noteq> [] \<Longrightarrow> toInt (take 2 (bin_low r)) \<le> v \<Longrightarrow> v \<le> toInt (take 2 (bin_high r))
   \<Longrightarrow> bin_brand r = brand_of_prefix v"
  unfolding AllRanges_def
  by (simp only: list.set insert_iff empty_iff)
    (elim disjE; simp add: toInt_def digits_val_def brand_of_prefix_def)

definition two_digit_ranges :: "bin_range list" where
  "two_digit_ranges = filter (\<lambda>r. length (bin_low r) = 2) AllRanges"

lemma two_digit_ranges_eq:
  "map (\<lambda>r. (toInt (bin_low r), toInt (bin_high r))) two_digit_ranges =
    [(34, 34), (37, 37), (30, 30), (36, 36), (38, 39), (60, 60), (64, 65), (35, 35), (50, 59),
     (22, 27), (67, 67), (62, 62), (81, 81), (40, 49)]"
  by (simp add: two_digit_ranges_def AllRanges_def toInt_def digits_val_def)

lemma ranges_of_brand:
  assumes "brand_of_prefix v \<noteq> Unknown"
  shows "\<exists>r \<in> set two_digit_ranges. toInt (bin_low r) \<le> v \<and> v \<le> toInt (bin_high r)"
proof -
  have "\<exists>(l, h) \<in> set (map (\<lambda>r. (toInt (bin_low r), toInt (bin_high r))) two_digit_ranges). l \<le> v \<and> v \<le> h"
    using assms unfolding two_digit_ranges_eq by (simp add: brand_of_prefix_def split: if_splits; (elim disjE)?; simp)
  then show ?thesis by auto
qed

lemma two_digit_range:
  "r \<in> set two_digit_ranges \<Longrightarrow> r \<in> set AllRanges \<and> length (bin_low r) = 2 \<and> length (bin_high r) = 2"
  using ranges_shape[of r] by (auto simp: two_digit_ranges_def)

text \<open>A range that matches a number with two digits or more holds its first two digits.\<close>

lemma matching_prefix:
  assumes "list_all is_digit s" "2 \<le> length s" "r \<in> set AllRanges" "bin_low r \<noteq> []" "BinRangeMatchesNumber r s"
  shows "toInt (take 2 (bin_low r)) \<le> toInt (take 2 s) \<and> toInt (take 2 s) \<le> toInt (take 2 (bin_high r))"
proof -
  have r: "list_all is_digit (bin_low r)" "list_all is_digit (bin_high r)"
    "length (bin_low r) = length (bin_high r)" "2 \<le> length (bin_low r)" "length (bin_low r) \<le> 6"
    using ranges_shape[OF assms(3)] assms(4) by auto
  let ?k = "min (length s) (length (bin_low r))"
  have k: "2 \<le> ?k" "?k \<le> 9" "?k \<le> length s" "?k \<le> length (bin_low r)" "?k \<le> length (bin_high r)"
    using r assms(2) by auto
  have m: "toInt (take ?k (bin_low r)) \<le> toInt (take ?k s)" "toInt (take ?k s) \<le> toInt (take ?k (bin_high r))"
    using assms(5) r(3) by (simp_all add: BinRangeMatchesNumber_def Let_def split: if_splits)
  show ?thesis
    using prefix_mono[OF r(1) assms(1) k(1,2,4,3) m(1)] prefix_mono[OF assms(1) r(2) k(1,2,3,5) m(2)] by simp
qed

lemma two_digit_matches:
  assumes "2 \<le> length s" "r \<in> set two_digit_ranges"
    "toInt (bin_low r) \<le> toInt (take 2 s)" "toInt (take 2 s) \<le> toInt (bin_high r)"
  shows "BinRangeMatchesNumber r s"
  using assms two_digit_range[OF assms(2)] by (simp add: BinRangeMatchesNumber_def Let_def min_absorb2)

lemma matching_brand:
  assumes "list_all is_digit s" "2 \<le> length s" "r \<in> set (BinRangesForNumber s)" "bin_brand r \<noteq> Unknown"
  shows "bin_brand r = brand_of_prefix (toInt (take 2 s)) \<and> bin_low r \<noteq> []"
proof -
  have r: "r \<in> set AllRanges" "BinRangeMatchesNumber r s" using assms(3) by (simp_all add: BinRangesForNumber_def)
  have "bin_low r \<noteq> []" using ranges_shape[OF r(1)] assms(4) by auto
  then show ?thesis using ranges_brand[OF r(1)] matching_prefix[OF assms(1,2) r(1) _ r(2)] by simp
qed

lemma matching_exists:
  assumes "2 \<le> length s" "brand_of_prefix (toInt (take 2 s)) \<noteq> Unknown"
  shows "\<exists>r \<in> set (BinRangesForNumber s). bin_brand r \<noteq> Unknown \<and> bin_low r \<noteq> []"
proof -
  obtain r where r: "r \<in> set two_digit_ranges" "toInt (bin_low r) \<le> toInt (take 2 s)"
      "toInt (take 2 s) \<le> toInt (bin_high r)"
    using ranges_of_brand[OF assms(2)] by blast
  then have "r \<in> set (BinRangesForNumber s)"
    using two_digit_matches[OF assms(1) r] two_digit_range by (simp add: BinRangesForNumber_def)
  moreover have "bin_brand r \<noteq> Unknown" "bin_low r \<noteq> []"
    using ranges_shape[of r] two_digit_range[OF r(1)] by auto
  ultimately show ?thesis by blast
qed

lemma possible_brands_fold:
  "distinct acc \<Longrightarrow> Unknown \<notin> set acc \<Longrightarrow>
   distinct (fold (\<lambda>r acc. if bin_brand r = Unknown \<or> bin_brand r \<in> set acc then acc else acc @ [bin_brand r]) rs acc)
   \<and> set (fold (\<lambda>r acc. if bin_brand r = Unknown \<or> bin_brand r \<in> set acc then acc else acc @ [bin_brand r]) rs acc)
     = set acc \<union> (bin_brand ` set rs - {Unknown})"
  by (induction rs arbitrary: acc) auto

lemma possible_brands:
  "distinct (PossibleBrandsForNumber s)" "set (PossibleBrandsForNumber s) = bin_brand ` set (BinRangesForNumber s) - {Unknown}"
  using possible_brands_fold[of "[]" "BinRangesForNumber s"] by (simp_all add: PossibleBrandsForNumber_def)

lemma singleton_list: "set xs = {x} \<Longrightarrow> distinct xs \<Longrightarrow> xs = [x]"
  by (cases xs; cases "tl xs") auto

lemma BrandForNumber_prefix:
  assumes s: "s = RemoveWhitespaces number" "list_all is_digit s" "2 \<le> length s"
  shows "BrandForNumber number = brand_of_prefix (toInt (take 2 s))"
proof -
  let ?b = "brand_of_prefix (toInt (take 2 s))"
  have num: "IsNumeric s" using s(2) by (simp add: IsNumeric_def)
  have sub: "set (PossibleBrandsForNumber s) \<subseteq> {?b} - {Unknown}"
    using matching_brand[OF s(2,3)] unfolding possible_brands(2) by auto
  show ?thesis
  proof (cases "?b = Unknown")
    case True
    then have "PossibleBrandsForNumber s = []" using sub by simp
    then show ?thesis using num True by (simp add: BrandForNumber_def Let_def flip: s(1))
  next
    case False
    obtain r where r: "r \<in> set (BinRangesForNumber s)" "bin_brand r \<noteq> Unknown"
      using matching_exists[OF s(3) False] by blast
    then have "?b \<in> set (PossibleBrandsForNumber s)"
      using matching_brand[OF s(2,3) r] unfolding possible_brands(2) by force
    then have "set (PossibleBrandsForNumber s) = {?b}" using sub by auto
    then have "PossibleBrandsForNumber s = [?b]"
      using possible_brands(1)[of s] by (rule singleton_list)
    then show ?thesis using num by (simp add: BrandForNumber_def Let_def flip: s(1))
  qed
qed

lemma bin_less_weak: "strict_weak (bin_less s)"
  by (auto simp: strict_weak_def bin_less_def Let_def)

lemma most_specific_brand:
  assumes srt: "sorts srt" and s: "list_all is_digit s" "2 \<le> length s"
  shows "bin_brand (MostSpecificBinRangeForNumber srt s) = brand_of_prefix (toInt (take 2 s))"
proof -
  let ?xs = "srt (bin_less s) (BinRangesForNumber s)"
  let ?b = "brand_of_prefix (toInt (take 2 s))"
  have perm: "mset ?xs = mset (BinRangesForNumber s)" and ord: "sorted_wrt (\<lambda>a b. \<not> bin_less s b a) ?xs"
    using srt bin_less_weak by (auto simp: sorts_def)
  have set: "set ?xs = set (BinRangesForNumber s)" by (rule mset_eq_setD[OF perm])
  have "bin [] [] 19 Unknown \<in> set (BinRangesForNumber s)"
    by (simp add: BinRangesForNumber_def AllRanges_def BinRangeMatchesNumber_def Let_def)
  then have ne: "?xs \<noteq> []" using set by (metis empty_iff list.set(1))
  have last: "last ?xs \<in> set (BinRangesForNumber s)" using set last_in_set[OF ne] by simp
  show ?thesis
  proof (cases "bin_brand (last ?xs) = Unknown")
    case False
    then show ?thesis using matching_brand[OF s last] by (simp add: MostSpecificBinRangeForNumber_def)
  next
    case True
    have "last ?xs \<in> set AllRanges" using last by (simp add: BinRangesForNumber_def)
    then have lu: "bin_low (last ?xs) = []" using ranges_shape[of "last ?xs"] True by auto
    have "?b = Unknown"
    proof (rule ccontr)
      assume "?b \<noteq> Unknown"
      then obtain r where r: "r \<in> set (BinRangesForNumber s)" "bin_low r \<noteq> []"
        using matching_exists[OF s(2)] by blast
      then have "r \<in> set (butlast ?xs @ [last ?xs])" using set ne by simp
      then have "r \<in> set (butlast ?xs)" using r(2) lu by auto
      moreover have "sorted_wrt (\<lambda>a b. \<not> bin_less s b a) (butlast ?xs @ [last ?xs])" using ord ne by simp
      ultimately have "\<not> bin_less s (last ?xs) r" by (simp add: sorted_wrt_append)
      moreover have "s \<noteq> []" using s(2) by auto
      ultimately show False using lu r(2) by (simp add: bin_less_def)
    qed
    then show ?thesis using True by (simp add: MostSpecificBinRangeForNumber_def)
  qed
qed

subsection \<open>The state of a typed number\<close>

lemma IsNumeric_sanitized: "IsNumeric (RemoveWhitespaces x) \<longleftrightarrow> list_all is_digit (RemoveWhitespaces x)"
proof -
  have "newline \<notin> set (RemoveWhitespaces x)"
    by (simp add: RemoveWhitespaces_def is_space_def newline_def)
  then show ?thesis unfolding IsNumeric_def by (metis last_in_set)
qed

lemma card_lengths: "kMinLength = 13" "kMaxLength = 19"
  by (simp_all add: kMinLength_def kMaxLength_def AllRanges_def)

subsection \<open>Dates\<close>

lemma digit_zero: "digit 0 = CHR ''0''"
  by (simp add: digit_def char_of_def bit_0)

lemma pad2_digits: "n < 100 \<Longrightarrow> pad2 n = [digit (n div 10), digit (n mod 10)]"
  by (subst pad2_def, subst (2) dec_nat.simps) (auto simp: dec_nat_small digit_zero)

lemma toInt_two: "a < 10 \<Longrightarrow> b < 10 \<Longrightarrow> toInt [digit a, digit b] = int (10 * a + b)"
  by (subst toInt_digits) (simp_all add: digits_val_def)

lemma digit_no_space: "is_digit c \<Longrightarrow> \<not> is_space c" "is_digit c \<Longrightarrow> c \<noteq> CHR ''/''"
  by (auto simp: is_space_def is_digit_def)

lemma expire_sanitized:
  assumes "list_all is_digit xs" "list_all is_digit ys"
  shows "filter (\<lambda>c. c \<noteq> CHR ''/'') (RemoveWhitespaces (xs @ CHR ''/'' # ys)) = xs @ ys"
    and "filter (\<lambda>c. c \<noteq> CHR ''/'') (RemoveWhitespaces (xs @ ys)) = xs @ ys"
proof -
  have "filter (\<lambda>c. c \<noteq> CHR ''/'') (RemoveWhitespaces zs) = zs" if "list_all is_digit zs" for zs
    using that by (auto simp: RemoveWhitespaces_def digit_no_space list_all_iff filter_id_conv)
  from this[OF assms(1)] this[OF assms(2)]
  show "filter (\<lambda>c. c \<noteq> CHR ''/'') (RemoveWhitespaces (xs @ CHR ''/'' # ys)) = xs @ ys"
    and "filter (\<lambda>c. c \<noteq> CHR ''/'') (RemoveWhitespaces (xs @ ys)) = xs @ ys"
    by (simp_all add: RemoveWhitespaces_def is_space_def)
qed

text \<open>A date of digits is valid only if it is four digits long once the month has two.\<close>

lemma expire_digits:
  assumes "filter (\<lambda>c. c \<noteq> CHR ''/'') (RemoveWhitespaces date) = [digit a, digit b, digit c, digit d]"
    "a < 2" "b < 10" "c < 10" "d < 10"
  shows "ValidateExpireDate today date thr =
    (let month = 10 * a + b; year = 2000 + 10 * c + d;
         tm = fst (case thr of Some t \<Rightarrow> t | None \<Rightarrow> today); ty = snd (case thr of Some t \<Rightarrow> t | None \<Rightarrow> today)
     in if 1 \<le> month \<and> month \<le> 12 \<and> (ty < year \<or> ty = year \<and> tm \<le> month)
        then (Valid, True) else (Invalid, False))"
proof -
  have "IsNumeric [digit a, digit b, digit c, digit d]" using assms(2-5) by (simp add: IsNumeric_def)
  moreover have "of_char (digit a) = 48 + a" using assms(2) by (simp add: of_char_digit)
  moreover have "toInt [digit a, digit b] = int (10 * a + b)" "toInt [digit c, digit d] = int (10 * c + d)"
    using assms(2-5) by (simp_all add: toInt_two)
  ultimately show ?thesis using assms(2)
    unfolding ValidateExpireDate_def assms(1) by (simp add: Let_def numeral_2_eq_2) auto
qed

lemma expire_valid_length:
  assumes "list_all is_digit s" "s \<noteq> []" "filter (\<lambda>c. c \<noteq> CHR ''/'') (RemoveWhitespaces date) = s"
    "fst (ValidateExpireDate today date thr) = Valid"
  shows "length s = (if (of_char (hd s) :: nat) > 49 then 3 else 4)"
  using assms(2,4) unfolding ValidateExpireDate_def assms(3)
  by (cases s) (auto simp: Let_def split: if_splits)

definition expire_result :: "nat \<times> nat \<Rightarrow> nat \<Rightarrow> nat \<Rightarrow> (nat \<times> nat) option \<Rightarrow> ValidationState \<times> bool" where
  "expire_result today month year thr =
     (let tm = fst (case thr of Some t \<Rightarrow> t | None \<Rightarrow> today); ty = snd (case thr of Some t \<Rightarrow> t | None \<Rightarrow> today)
      in if 1 \<le> month \<and> month \<le> 12 \<and> (ty < year \<or> ty = year \<and> tm \<le> month)
         then (Valid, True) else (Invalid, False))"

lemma expire_digits_pad:
  assumes "m < 20" "y < 100"
  shows "ValidateExpireDate today (pad2 m @ pad2 y) thr = expire_result today m (2000 + y) thr"
    and "ValidateExpireDate today (pad2 m @ CHR ''/'' # pad2 y) thr = expire_result today m (2000 + y) thr"
proof -
  have p: "pad2 m = [digit (m div 10), digit (m mod 10)]" "pad2 y = [digit (y div 10), digit (y mod 10)]"
    using assms by (simp_all add: pad2_digits)
  have d: "list_all is_digit (pad2 m)" "list_all is_digit (pad2 y)" using assms by (simp_all add: p)
  have b: "m div 10 < 2" "m mod 10 < 10" "y div 10 < 10" "y mod 10 < 10" using assms by simp_all
  note s = expire_sanitized[OF d, unfolded p append.simps]
  have eq: "10 * (m div 10) + m mod 10 = m" "2000 + 10 * (y div 10) + y mod 10 = 2000 + y" by simp_all
  show "ValidateExpireDate today (pad2 m @ pad2 y) thr = expire_result today m (2000 + y) thr"
    and "ValidateExpireDate today (pad2 m @ CHR ''/'' # pad2 y) thr = expire_result today m (2000 + y) thr"
    unfolding p append.simps
    by (simp_all only: expire_result_def expire_digits[OF s(1) b] expire_digits[OF s(2) b] eq Let_def)
qed

lemma dec_nat_long: "100 \<le> n \<Longrightarrow> 3 \<le> length (dec_nat n)"
proof -
  assume n: "100 \<le> n"
  then have "dec_nat n = dec_nat (n div 10) @ [digit (n mod 10)]" by (subst dec_nat.simps) simp
  moreover have "dec_nat (n div 10) = dec_nat (n div 10 div 10) @ [digit (n div 10 mod 10)]"
    using n by (subst dec_nat.simps) simp
  moreover have "1 \<le> length (dec_nat (n div 10 div 10))"
    using dec_nat_nonempty[of "n div 10 div 10"] by (cases "dec_nat (n div 10 div 10)") simp_all
  ultimately show ?thesis by simp
qed

lemma pad2_digit_list: "list_all is_digit (pad2 n)"
  using dec_nat_digits by (simp add: pad2_def list_all_iff)

lemma expire_month_big:
  assumes "20 \<le> m" "y < 100"
  shows "fst (ValidateExpireDate today (pad2 m @ pad2 y) thr) \<noteq> Valid"
proof
  assume v: "fst (ValidateExpireDate today (pad2 m @ pad2 y) thr) = Valid"
  have "list_all is_digit (pad2 m @ pad2 y)" "pad2 m @ pad2 y \<noteq> []"
    using assms by (simp_all add: pad2_digit_list pad2_digits)
  from expire_valid_length[OF this expire_sanitized(2)[OF pad2_digit_list pad2_digit_list] v]
  have len: "length (pad2 m) + 2 = (if (of_char (hd (pad2 m @ pad2 y)) :: nat) > 49 then 3 else 4)"
    using assms(2) by (simp add: pad2_digits)
  show False
  proof (cases "m < 100")
    case True
    then have "(of_char (hd (pad2 m @ pad2 y)) :: nat) = 48 + m div 10" by (simp add: pad2_digits of_char_digit)
    moreover have "2 \<le> m div 10" using assms(1) by simp
    ultimately show False using len True by (simp add: pad2_digits)
  next
    case False
    then show False using len dec_nat_long[of m] by (simp add: pad2_def split: if_splits)
  qed
qed

lemma ranges_diners:
  "r \<in> set AllRanges \<Longrightarrow> bin_low r \<noteq> [] \<Longrightarrow> toInt (take 2 (bin_low r)) \<le> v \<Longrightarrow> v \<le> toInt (take 2 (bin_high r))
   \<Longrightarrow> (bin_brand r = DinersClub \<and> bin_length r = 14) = (v = 36)"
  unfolding AllRanges_def
  by (simp only: list.set insert_iff empty_iff)
    (elim disjE; simp add: toInt_def digits_val_def)

lemma most_specific_in:
  assumes srt: "sorts srt"
  shows "MostSpecificBinRangeForNumber srt s \<in> set (BinRangesForNumber s)"
proof -
  have "mset (srt (bin_less s) (BinRangesForNumber s)) = mset (BinRangesForNumber s)"
    using srt bin_less_weak by (auto simp: sorts_def)
  then have set: "set (srt (bin_less s) (BinRangesForNumber s)) = set (BinRangesForNumber s)" by (rule mset_eq_setD)
  have "bin [] [] 19 Unknown \<in> set (BinRangesForNumber s)"
    by (simp add: BinRangesForNumber_def AllRanges_def BinRangeMatchesNumber_def Let_def)
  then have "srt (bin_less s) (BinRangesForNumber s) \<noteq> []" using set by (metis empty_iff list.set(1))
  then show ?thesis using set last_in_set by (simp add: MostSpecificBinRangeForNumber_def) blast
qed

lemma format_of_prefix:
  assumes srt: "sorts srt" and s: "list_all is_digit s" "2 \<le> length s"
  defines "r \<equiv> MostSpecificBinRangeForNumber srt s"
  shows "(bin_brand r = DinersClub \<and> bin_length r = 14) = (toInt (take 2 s) = 36)"
proof (cases "bin_brand r = Unknown")
  case True
  then have "brand_of_prefix (toInt (take 2 s)) = Unknown" using most_specific_brand[OF assms(1-3)] by (simp add: r_def)
  then show ?thesis using True by (auto simp: brand_of_prefix_def)
next
  case False
  have r: "r \<in> set AllRanges" "BinRangeMatchesNumber r s" "r \<in> set (BinRangesForNumber s)"
    using most_specific_in[OF srt, of s] by (simp_all add: r_def BinRangesForNumber_def)
  have "bin_low r \<noteq> []" using matching_brand[OF s r(3) False] by simp
  from ranges_diners[OF r(1) this] matching_prefix[OF s r(1) this r(2)] show ?thesis by simp
qed

subsection \<open>Properties\<close>

text \<open>
  C21: the checksum of a card number finds every single mistyped digit and every swap of two
  neighbouring digits except of a nine and a zero, and every number can be completed by a digit to
  one that passes.
\<close>

theorem luhn_detects_errors:
  assumes "list_all is_digit (xs @ ys)" "is_digit c" "is_digit d"
  shows "(IsValidLuhn (xs @ c # ys) \<and> IsValidLuhn (xs @ d # ys) \<longrightarrow> c = d)
    \<and> (IsValidLuhn (xs @ c # d # ys) \<and> IsValidLuhn (xs @ d # c # ys) \<longrightarrow>
        c = d \<or> {c, d} = {CHR ''0'', CHR ''9''})
    \<and> (\<exists>!e. is_digit e \<and> IsValidLuhn (xs @ [e]))"
proof (intro conjI impI)
  have xy: "list_all is_digit xs" "list_all is_digit ys" using assms(1) by simp_all
  show "c = d" if "IsValidLuhn (xs @ c # ys) \<and> IsValidLuhn (xs @ d # ys)"
    using luhn_change[OF xy assms(2,3)] that by blast
  show "c = d \<or> {c, d} = {CHR ''0'', CHR ''9''}"
    if "IsValidLuhn (xs @ c # d # ys) \<and> IsValidLuhn (xs @ d # c # ys)"
  proof -
    have "digit_val e = 0 \<longleftrightarrow> e = CHR ''0''" "digit_val e = 9 \<longleftrightarrow> e = CHR ''9''" if "is_digit e" for e
      using digit_val_inject[OF that, of "CHR ''0''"] digit_val_inject[OF that, of "CHR ''9''"] by simp_all
    with luhn_swap[OF xy assms(2,3)] that assms(2,3) show ?thesis by auto
  qed
  show "\<exists>!e. is_digit e \<and> IsValidLuhn (xs @ [e])"
    using luhn_check_digit[OF xy(1)] luhn_change[OF xy(1), of "[]"] by auto
qed

theorem luhn_detects_errors_witness:
  "IsValidLuhn ''79927398713'' \<and> \<not> IsValidLuhn ''79927396713''"
proof -
  have "IsValidLuhn ''79927398713''"
    by (simp add: IsValidLuhn_def luhn_step_def Let_def cmod_def)
  then show ?thesis
    using luhn_detects_errors[of "''7992739''" "''713''" "CHR ''8''" "CHR ''6''"] by auto
qed

text \<open>
  once two digits are typed, they alone decide the brand of a card, the same for the number
  check, the security code and the grouping of the digits, although the longest matching range is
  found with a sort that need not be stable.
\<close>

theorem brand_by_two_digits:
  assumes "sorts srt" "list_all is_digit (RemoveWhitespaces number)" "2 \<le> length (RemoveWhitespaces number)"
  defines "v \<equiv> toInt (take 2 (RemoveWhitespaces number))"
  shows "BrandForNumber number = brand_of_prefix v
    \<and> cv_brand (ValidateCard srt number) = brand_of_prefix v
    \<and> CardNumberFormat srt number = (if v = 36 then [4, 6, 4]
        else if brand_of_prefix v = Amex then [4, 6, 5] else [4, 4, 4, 4])"
proof -
  let ?s = "RemoveWhitespaces number"
  have num: "IsNumeric ?s" "?s \<noteq> []" using assms(2,3) by (auto simp: IsNumeric_def)
  have b: "bin_brand (MostSpecificBinRangeForNumber srt ?s) = brand_of_prefix v"
    using most_specific_brand[OF assms(1-3)] by (simp add: v_def)
  have f: "(bin_brand (MostSpecificBinRangeForNumber srt ?s) = DinersClub
      \<and> bin_length (MostSpecificBinRangeForNumber srt ?s) = 14) = (v = 36)"
    using format_of_prefix[OF assms(1-3)] by (simp add: v_def)
  have "BrandForNumber number = brand_of_prefix v"
    using BrandForNumber_prefix[OF refl assms(2,3)] by (simp add: v_def)
  moreover have "cv_brand (ValidateCard srt number) = brand_of_prefix v"
    using num b by (simp add: ValidateCard_def Let_def)
  moreover have "CardNumberFormat srt number = (if v = 36 then [4, 6, 4]
        else if brand_of_prefix v = Amex then [4, 6, 5] else [4, 4, 4, 4])"
    unfolding CardNumberFormat_def Let_def f using num b by simp
  ultimately show ?thesis by blast
qed

theorem brand_by_two_digits_witness:
  "cv_brand (ValidateCard insertion_sort ''41 11'') = Visa"
  using brand_by_two_digits[OF insertion_sort_sorts, of "''41 11''"]
  by (simp add: RemoveWhitespaces_def is_space_def toInt_def digits_val_def brand_of_prefix_def)

text \<open>
  a typed card number is invalid as soon as it holds something else than digits and blanks,
  incomplete below 13 digits, and from 13 to 19 digits valid exactly if the checksum is right;
  only a number of 19 digits is finished.
\<close>

theorem card_number_state:
  "cv_state (ValidateCard srt number) =
    (let s = RemoveWhitespaces number
     in if \<not> list_all is_digit s then Invalid
        else if length s < 13 then Incomplete
        else if length s \<le> 19 \<and> IsValidLuhn s then Valid else Invalid)
   \<and> cv_finished (ValidateCard srt number) =
      (cv_state (ValidateCard srt number) = Valid \<and> length (RemoveWhitespaces number) = 19)"
  by (simp add: ValidateCard_def Let_def IsNumeric_sanitized card_lengths)

text \<open>
  the check of an expiry date given as numbers accepts exactly the months of this century's
  years that are not over at the threshold, although it works on text that drops out of shape for
  months above 12 and above 99.
\<close>

theorem expire_date_parsed:
  "ValidateParsedExpireDate today month year thr = Valid \<longleftrightarrow>
    1 \<le> month \<and> month \<le> 12 \<and> 2000 \<le> year \<and> year < 2100
    \<and> (let t = case thr of Some t \<Rightarrow> t | None \<Rightarrow> today
       in snd t < year \<or> snd t = year \<and> fst t \<le> month)"
proof (cases "year div 100 = 20")
  case False
  then have "\<not> (2000 \<le> year \<and> year < 2100)" by auto
  then show ?thesis using False by (auto simp: ValidateParsedExpireDate_def)
next
  case True
  have "2000 + year mod 100 = year" using True div_mult_mod_eq[of year 100] by simp
  then have y: "year mod 100 < 100" "2000 + year mod 100 = year" "2000 \<le> year" "year < 2100"
    using mod_less_divisor[of 100 year] by linarith+
  show ?thesis
  proof (cases "month < 20")
    case False
    then show ?thesis using True expire_month_big[of month "year mod 100" today thr]
      by (simp add: ValidateParsedExpireDate_def)
  next
    case m: True
    have "ValidateParsedExpireDate today month year thr = fst (expire_result today month year thr)"
      using True expire_digits_pad(1)[OF m y(1), of today thr] y(2) by (simp add: ValidateParsedExpireDate_def)
    then show ?thesis using y(3,4) by (auto simp: expire_result_def Let_def)
  qed
qed

text \<open>
  a date typed with or without the slash between month and year is judged as the date given
  as numbers.
\<close>

theorem expire_date_typed:
  assumes "month \<le> 12" "year div 100 = 20"
  shows "fst (ValidateExpireDate today (pad2 month @ pad2 (year mod 100)) thr)
      = ValidateParsedExpireDate today month year thr
    \<and> fst (ValidateExpireDate today (pad2 month @ CHR ''/'' # pad2 (year mod 100)) thr)
      = ValidateParsedExpireDate today month year thr"
  using assms expire_digits_pad[of month "year mod 100" today thr]
  by (simp add: ValidateParsedExpireDate_def)

theorem expire_date_typed_witness:
  "fst (ValidateExpireDate (1, 2024) ''07/26'' (Some (6, 2026))) = Valid"
  using expire_date_typed[of 7 2026 "(1, 2024)" "Some (6, 2026)"]
    expire_date_parsed[of "(1, 2024)" 7 2026 "Some (6, 2026)"]
  by (simp add: pad2_digits digit_def char_of_def bit_0)

text \<open>
  a security code of three digits is always accepted, one of four only for American Express
  and for an unknown brand; but two digits and a newline pass for a code of three, because the
  pattern for digits matches before a newline at the end and the code is not stripped of blanks.
\<close>

theorem cvc_accepted:
  assumes "list_all is_digit (RemoveWhitespaces number)" "2 \<le> length (RemoveWhitespaces number)"
    "list_all is_digit cvc"
  defines "b \<equiv> brand_of_prefix (toInt (take 2 (RemoveWhitespaces number)))"
  shows "(fst (ValidateCvc number cvc) = Valid \<longleftrightarrow>
      length cvc = 3 \<or> length cvc = 4 \<and> (b = Amex \<or> b = Unknown))
    \<and> fst (ValidateCvc number [CHR ''1'', CHR ''2'', newline]) = Valid"
proof -
  have "BrandForNumber number = b" using BrandForNumber_prefix[OF refl assms(1,2)] by (simp add: b_def)
  moreover have "IsNumeric cvc" "IsNumeric [CHR ''1'', CHR ''2'', newline]"
    using assms(3) by (simp_all add: IsNumeric_def)
  ultimately show ?thesis by (cases b) (auto simp: ValidateCvc_def Let_def kMinCvcLength_def)
qed

theorem cvc_accepted_witness:
  "fst (ValidateCvc ''3782'' ''1234'') = Valid \<and> fst (ValidateCvc ''4242'' ''1234'') \<noteq> Valid"
  using cvc_accepted[of "''3782''" "''1234''"] cvc_accepted[of "''4242''" "''1234''"]
  by (simp add: RemoveWhitespaces_def is_space_def toInt_def digits_val_def brand_of_prefix_def)

end
