(* ===== verification/BusinessHours.thy ===== *)
theory BusinessHours
  imports StdSort
begin

text \<open>
  \<open>data/business/data_business_common.{h,cpp}\<close>: the weekly opening hours of a business and
  the recipients of its automatic messages. A \<open>TimeId\<close> is an \<open>int\<close>; the hours stay
  within a few weeks, far from the bounds of 32 bits. \<open>ranges::sort\<close> is the parameter
  \<open>srt\<close>.
\<close>

record interval =
  iv_start :: int
  iv_end :: int

definition kDay :: int where "kDay = 24 * 3600"
definition kWeek :: int where "kWeek = 7 * kDay"
definition kInNextDayMax :: int where "kInNextDayMax = 6 * 3600"

lemmas time_defs = kDay_def kWeek_def kInNextDayMax_def

abbreviation iv :: "int \<Rightarrow> int \<Rightarrow> interval" where
  "iv a b \<equiv> \<lparr>iv_start = a, iv_end = b\<rparr>"

definition iv_valid :: "interval \<Rightarrow> bool" where
  "iv_valid i \<longleftrightarrow> iv_start i < iv_end i"

definition shifted :: "interval \<Rightarrow> int \<Rightarrow> interval" where
  "shifted i offset = iv (iv_start i + offset) (iv_end i + offset)"

definition united :: "interval \<Rightarrow> interval \<Rightarrow> interval" where
  "united i other =
     (if \<not> iv_valid i then other else if \<not> iv_valid other then i
      else iv (min (iv_start i) (iv_start other)) (max (iv_end i) (iv_end other)))"

definition intersected :: "interval \<Rightarrow> interval \<Rightarrow> interval" where
  "intersected i other =
     (let result = iv (max (iv_start i) (iv_start other)) (min (iv_end i) (iv_end other))
      in if iv_valid result then result else iv 0 0)"

definition intervals_bool :: "interval list \<Rightarrow> bool" where
  "intervals_bool list \<longleftrightarrow> (\<exists>i \<in> set list. iv_valid i)"

text \<open>
  The loop of \<open>SortAndMerge\<close> at position \<open>i\<close>: \<open>passed\<close> are the elements before
  it. An element that was united with the one before it is cleared and then erased.
\<close>

fun merge_loop :: "interval list \<Rightarrow> interval list \<Rightarrow> interval list" where
  "merge_loop passed [] = passed"
| "merge_loop passed (cur # rest) =
     (if passed \<noteq> [] \<and> iv_valid cur \<and> iv_valid (last passed) \<and> iv_start cur \<le> iv_end (last passed)
      then merge_loop (butlast passed @ [united (last passed) cur]) rest
      else if \<not> iv_valid cur then merge_loop passed rest
      else merge_loop (passed @ [cur]) rest)"

definition SortAndMerge :: "interval sorter \<Rightarrow> interval list \<Rightarrow> interval list" where
  "SortAndMerge srt list = merge_loop [] (srt (key_less iv_start) list)"

lemma count_late_snoc:
  "xs \<noteq> [] \<Longrightarrow> length (filter P xs) = length (filter P (butlast xs)) + (if P (last xs) then 1 else 0)"
  by (cases xs rule: rev_cases) simp_all

function MoveTailToFront :: "interval list \<Rightarrow> interval list" where
  "MoveTailToFront list =
     (if list = [] then []
      else let tail = intersected (last list) (iv kWeek (kWeek + kDay))
           in if iv_valid tail then
                let kept = (last list)\<lparr>iv_end := iv_start tail\<rparr>
                in MoveTailToFront (shifted tail (- kWeek) # butlast list @ (if iv_valid kept then [kept] else []))
              else list)"
  by auto

termination
proof (relation "measure (\<lambda>l. length (filter (\<lambda>i. kWeek < iv_end i) l))")
  fix list :: "interval list" and tail kept
  assume ne: "list \<noteq> []" and tail: "tail = intersected (last list) (iv kWeek (kWeek + kDay))" "iv_valid tail"
    and kept: "kept = (last list)\<lparr>iv_end := iv_start tail\<rparr>"
  have t: "iv_start tail = max (iv_start (last list)) kWeek" "iv_end tail = min (iv_end (last list)) (kWeek + kDay)"
    "max (iv_start (last list)) kWeek < min (iv_end (last list)) (kWeek + kDay)"
    using tail by (auto simp: intersected_def Let_def iv_valid_def split: if_splits)
  have "\<not> kWeek < iv_end (shifted tail (- kWeek))" using t by (simp add: shifted_def time_defs)
  moreover have "iv_valid kept \<Longrightarrow> \<not> kWeek < iv_end kept" using t by (auto simp: kept iv_valid_def)
  moreover have "kWeek < iv_end (last list)" using t by simp
  ultimately show "(shifted tail (- kWeek) # butlast list @ (if iv_valid kept then [kept] else []), list)
      \<in> measure (\<lambda>l. length (filter (\<lambda>i. kWeek < iv_end i) l))"
    using count_late_snoc[OF ne, of "\<lambda>i. kWeek < iv_end i"] by simp
qed simp

declare MoveTailToFront.simps [simp del]

definition normalized :: "interval sorter \<Rightarrow> interval list \<Rightarrow> interval list" where
  "normalized srt list = SortAndMerge srt (MoveTailToFront (SortAndMerge srt list))"

definition extract_pieces :: "int \<Rightarrow> interval \<Rightarrow> interval list" where
  "extract_pieces dayIndex i =
     (let now = intersected i (iv ((dayIndex - 1) * kDay) ((dayIndex + 2) * kDay));
          after = intersected i (iv ((dayIndex + 6) * kDay) ((dayIndex + 9) * kDay));
          before = intersected i (iv ((dayIndex - 8) * kDay) ((dayIndex - 5) * kDay))
      in (if iv_valid now then [shifted now (- dayIndex * kDay)] else [])
         @ (if iv_valid after then [shifted after (- (dayIndex + 7) * kDay)] else [])
         @ (if iv_valid before then [shifted before (- (dayIndex - 7) * kDay)] else []))"

definition cut_back :: "interval list \<Rightarrow> interval list" where
  "cut_back list =
     (if list \<noteq> [] \<and> iv_start (last list) \<le> 0 \<and> iv_end (last list) \<ge> kDay
      then butlast list @ [iv 0 kDay]
      else if list \<noteq> [] \<and> iv_end (last list) > kDay + kInNextDayMax
      then butlast list @ [intersected (last list) (iv 0 kDay)]
      else list)"

definition cut_front :: "interval list \<Rightarrow> interval list" where
  "cut_front list =
     (if list \<noteq> [] \<and> iv_start (hd list) \<le> 0
      then if iv_start (hd list) < 0 \<and> iv_end (hd list) \<le> kInNextDayMax \<and> iv_start (hd list) > - kDay
           then tl list
           else let front = intersected (hd list) (iv 0 kDay)
                in if iv_valid front then front # tl list else tl list
      else list)"

definition ExtractDayIntervals :: "interval sorter \<Rightarrow> interval list \<Rightarrow> int \<Rightarrow> interval list" where
  "ExtractDayIntervals srt intervals dayIndex =
     (let result = normalized srt (concat (map (extract_pieces dayIndex) intervals));
          inside = filter (\<lambda>i. \<not> (iv_end i \<le> 0 \<or> iv_start i \<ge> kDay)) result
      in cut_front (cut_back inside))"

definition IsFullOpen :: "interval list \<Rightarrow> bool" where
  "IsFullOpen extractedDay \<longleftrightarrow> intervals_bool extractedDay
     \<and> (hd extractedDay = iv 0 (kDay - 60) \<or> hd extractedDay = iv 0 kDay)"

text \<open>
  The loop of \<open>RemoveDayIntervals\<close>: \<open>passed\<close> are the elements before position
  \<open>i\<close>, \<open>pushed\<close> those pushed back, behind the positions the loop visits.
\<close>

fun remove_loop :: "int \<Rightarrow> interval list \<Rightarrow> interval list \<Rightarrow> interval list \<Rightarrow> interval list" where
  "remove_loop dayIndex passed [] pushed = passed @ pushed"
| "remove_loop dayIndex passed (cur # rest) pushed =
     (let s = shifted (iv 0 kDay) (dayIndex * kDay);
          before = iv 0 (iv_start s);
          after = iv (iv_end s) kWeek
      in if iv_end cur \<le> iv_start s \<or> iv_start cur \<ge> iv_end s
         then remove_loop dayIndex (passed @ [cur]) rest pushed
         else if iv_end cur \<le> iv_start s + kInNextDayMax
           \<and> (iv_start cur < iv_start s
              \<or> dayIndex = 0 \<and> iv_start cur = iv_start s
                \<and> iv_end (last (passed @ cur # rest @ pushed)) \<ge> kWeek)
         then remove_loop dayIndex (passed @ [cur]) rest pushed
         else let first = intersected cur before
         in if iv_valid first
            then let second = intersected first after
                 in remove_loop dayIndex (passed @ [first]) rest
                      (if iv_valid second then pushed @ [second] else pushed)
            else let second = intersected cur after
                 in if iv_valid second
                    then remove_loop dayIndex (passed @ [second]) rest pushed
                    else remove_loop dayIndex passed rest pushed)"

definition RemoveDayIntervals :: "interval sorter \<Rightarrow> interval list \<Rightarrow> int \<Rightarrow> interval list" where
  "RemoveDayIntervals srt intervals dayIndex =
     normalized srt (remove_loop dayIndex [] (normalized srt intervals) [])"

definition ReplaceDayIntervals :: "interval sorter \<Rightarrow> interval list \<Rightarrow> int \<Rightarrow> interval list \<Rightarrow> interval list" where
  "ReplaceDayIntervals srt intervals dayIndex replacement =
     normalized srt (RemoveDayIntervals srt intervals dayIndex
       @ map (\<lambda>i. shifted i (dayIndex * kDay)) replacement)"

subsection \<open>The time a list of intervals covers\<close>

definition iv_set :: "interval \<Rightarrow> int set" where
  "iv_set i = {iv_start i ..< iv_end i}"

definition cover :: "interval list \<Rightarrow> int set" where
  "cover xs = (\<Union>i \<in> set xs. iv_set i)"

text \<open>Not empty, in order, and with a gap between any two.\<close>

definition canonical :: "interval list \<Rightarrow> bool" where
  "canonical xs \<longleftrightarrow> (\<forall>i \<in> set xs. iv_valid i) \<and> sorted_wrt (\<lambda>a b. iv_end a < iv_start b) xs"

lemma cover_simps [simp]:
  "cover [] = {}" "cover (x # xs) = iv_set x \<union> cover xs" "cover (xs @ ys) = cover xs \<union> cover ys"
  by (simp_all add: cover_def)

lemma canonical_simps [simp]:
  "canonical []" "canonical (x # xs) \<longleftrightarrow> iv_valid x \<and> canonical xs \<and> (\<forall>y \<in> set xs. iv_end x < iv_start y)"
  by (auto simp: canonical_def)

lemma canonical_append:
  "canonical (xs @ ys) \<longleftrightarrow> canonical xs \<and> canonical ys \<and> (\<forall>x \<in> set xs. \<forall>y \<in> set ys. iv_end x < iv_start y)"
  by (auto simp: canonical_def sorted_wrt_append)

lemma iv_set_invalid [simp]: "\<not> iv_valid i \<Longrightarrow> iv_set i = {}"
  by (simp add: iv_valid_def iv_set_def)

lemma iv_set_shifted [simp]: "iv_set (shifted i d) = {t. t - d \<in> iv_set i}"
  by (auto simp: iv_set_def shifted_def)

lemma iv_set_intersected: "iv_set (intersected i j) = iv_set i \<inter> iv_set j"
  by (auto simp: iv_set_def intersected_def Let_def iv_valid_def)

lemma iv_set_united:
  "iv_valid i \<Longrightarrow> iv_valid j \<Longrightarrow> iv_start i \<le> iv_start j \<Longrightarrow> iv_start j \<le> iv_end i \<Longrightarrow>
   iv_set (united i j) = iv_set i \<union> iv_set j"
  by (auto simp: iv_set_def united_def iv_valid_def)

lemma cover_valid: "cover xs = cover (filter iv_valid xs)"
  by (induction xs) auto

text \<open>The loop keeps what is passed canonical and loses no time.\<close>

lemma merge_loop_spec:
  "canonical passed \<Longrightarrow> sorted (map iv_start rest) \<Longrightarrow> \<forall>p \<in> set passed. \<forall>r \<in> set rest. iv_start p \<le> iv_start r \<Longrightarrow>
   canonical (merge_loop passed rest) \<and> cover (merge_loop passed rest) = cover passed \<union> cover rest"
proof (induction passed rest rule: merge_loop.induct)
  case (2 passed cur rest)
  consider (unite) "passed \<noteq> [] \<and> iv_valid cur \<and> iv_valid (last passed) \<and> iv_start cur \<le> iv_end (last passed)"
    | (empty) "\<not> iv_valid cur"
    | (keep) "iv_valid cur" "\<not> (passed \<noteq> [] \<and> iv_valid (last passed) \<and> iv_start cur \<le> iv_end (last passed))"
    by blast
  then show ?case
  proof cases
    case unite
    let ?u = "united (last passed) cur"
    have split: "passed = butlast passed @ [last passed]" using unite by simp
    have c: "canonical (butlast passed @ [last passed])" using 2(4) by (subst (asm) split)
    have le: "iv_start (last passed) \<le> iv_start cur" using 2(6) unite by simp
    have u: "iv_valid ?u" "iv_start ?u = iv_start (last passed)" "iv_set ?u = iv_set (last passed) \<union> iv_set cur"
      using unite le iv_set_united[of "last passed" cur] by (auto simp: united_def iv_valid_def)
    have cu: "canonical (butlast passed @ [?u])" using c u(1,2) by (simp add: canonical_append)
    have st: "\<forall>p \<in> set (butlast passed @ [?u]). \<forall>r \<in> set rest. iv_start p \<le> iv_start r"
      using 2(6) u(2) unite by (auto dest: in_set_butlastD)
    have cov: "cover passed = cover (butlast passed) \<union> iv_set (last passed)"
      using arg_cong[OF split, of cover] by (simp only: cover_simps Un_empty_right)
    have "sorted (map iv_start rest)" using 2(5) by simp
    from 2(1)[OF unite cu this st] show ?thesis using unite u(3) by (simp add: cov Un_ac)
  next
    case empty
    have "sorted (map iv_start rest)" "\<forall>p \<in> set passed. \<forall>r \<in> set rest. iv_start p \<le> iv_start r"
      using 2(5,6) by simp_all
    then show ?thesis using 2(2)[OF _ empty 2(4)] empty by simp
  next
    case keep
    have gap: "iv_end p < iv_start cur" if "p \<in> set passed" for p
    proof -
      have ne: "passed \<noteq> []" using that by auto
      then have split: "passed = butlast passed @ [last passed]" by simp
      have c: "canonical (butlast passed @ [last passed])" using 2(4) by (subst (asm) split)
      have "iv_valid (last passed)" using c by (simp only: canonical_append canonical_simps)
      then have l: "iv_end (last passed) < iv_start cur" using keep ne by simp
      show ?thesis
      proof (cases "p = last passed")
        case False
        then have "p \<in> set (butlast passed)" using that ne by (metis Un_iff insertE set_append list.simps(15) empty_iff list.set(1) append_butlast_last_id)
        then have "iv_end p < iv_start (last passed)" using c by (simp add: canonical_append)
        also have "\<dots> < iv_end (last passed)" using c by (simp add: canonical_append iv_valid_def)
        finally show ?thesis using l by simp
      qed (use l in simp)
    qed
    have "canonical (passed @ [cur])" using 2(4) keep(1) gap by (simp add: canonical_append)
    moreover have "sorted (map iv_start rest)" using 2(5) by simp
    moreover have "\<forall>p \<in> set (passed @ [cur]). \<forall>r \<in> set rest. iv_start p \<le> iv_start r" using 2(5,6) by auto
    ultimately have "canonical (merge_loop (passed @ [cur]) rest)
        \<and> cover (merge_loop (passed @ [cur]) rest) = cover (passed @ [cur]) \<union> cover rest"
      using 2(3) keep by blast
    moreover have "merge_loop passed (cur # rest) = merge_loop (passed @ [cur]) rest"
      using keep by auto
    ultimately show ?thesis by (simp add: Un_ac)
  qed
qed simp

lemma SortAndMerge_spec:
  assumes "sorts srt"
  shows "canonical (SortAndMerge srt xs)" and "cover (SortAndMerge srt xs) = cover xs"
proof -
  have "cover (srt (key_less iv_start) xs) = cover xs"
    by (simp add: cover_def sorts_set[OF assms key_less_weak])
  with merge_loop_spec[of "[]" "srt (key_less iv_start) xs"] sorts_key[OF assms, of iv_start xs]
  show "canonical (SortAndMerge srt xs)" and "cover (SortAndMerge srt xs) = cover xs"
    by (simp_all add: SortAndMerge_def)
qed

text \<open>A canonical list is determined by the time it covers.\<close>

lemma canonical_bounds: "canonical (x # xs) \<Longrightarrow> t \<in> cover (x # xs) \<Longrightarrow> iv_start x \<le> t"
proof -
  assume c: "canonical (x # xs)" and t: "t \<in> cover (x # xs)"
  then obtain i where i: "i \<in> set (x # xs)" "iv_start i \<le> t" by (auto simp: cover_def iv_set_def)
  then have "iv_start x \<le> iv_start i" using c by (cases "i = x") (auto simp: iv_valid_def)
  with i(2) show ?thesis by simp
qed

lemma canonical_gap: "canonical (x # xs) \<Longrightarrow> iv_end x \<notin> cover (x # xs)"
  by (auto simp: cover_def iv_set_def)

lemma canonical_hd:
  assumes "canonical (x # xs)" "canonical (y # ys)" "cover (x # xs) = cover (y # ys)"
  shows "x = y"
proof -
  have mem: "t \<in> cover (z # zs)" if "iv_start z \<le> t" "t < iv_end z" for z zs t
    using that by (simp add: iv_set_def)
  have valid: "iv_start x < iv_end x" "iv_start y < iv_end y" using assms by (simp_all add: iv_valid_def)
  have "iv_start x = iv_start y"
    using canonical_bounds[OF assms(1), of "iv_start y"] canonical_bounds[OF assms(2), of "iv_start x"]
      mem[of x "iv_start x" xs] mem[of y "iv_start y" ys] valid assms(3) by force
  moreover have "iv_end x = iv_end y"
  proof (rule linorder_cases)
    assume lt: "iv_end x < iv_end y"
    then have "iv_end x \<in> cover (y # ys)" using valid calculation by (intro mem) simp_all
    then show ?thesis using canonical_gap[OF assms(1)] assms(3) by blast
  next
    assume lt: "iv_end y < iv_end x"
    then have "iv_end y \<in> cover (x # xs)" using valid calculation by (intro mem) simp_all
    then show ?thesis using canonical_gap[OF assms(2)] assms(3) by blast
  qed
  ultimately show ?thesis by (cases x; cases y) simp
qed

lemma canonical_unique: "canonical xs \<Longrightarrow> canonical ys \<Longrightarrow> cover xs = cover ys \<Longrightarrow> xs = ys"
proof (induction xs arbitrary: ys)
  case Nil
  then show ?case by (cases ys) (auto simp: iv_set_def iv_valid_def)
next
  case (Cons x xs)
  obtain y ys' where ys: "ys = y # ys'"
    using Cons.prems by (cases ys) (auto simp: iv_set_def iv_valid_def)
  have xy: "x = y" using canonical_hd[of x xs y ys'] Cons.prems ys by simp
  have tl: "cover zs = cover (z # zs) - iv_set z" if "canonical (z # zs)" for z zs
    using that by (fastforce simp: cover_def iv_set_def)
  have "cover xs = cover ys'" using tl[OF Cons.prems(1)] tl[of y ys'] Cons.prems ys xy by simp
  then have "xs = ys'" using Cons.prems ys by (intro Cons.IH) auto
  then show ?case using ys xy by simp
qed

subsection \<open>The week\<close>

text \<open>The time of the week a list stands for, when it runs up to a day into the next one.\<close>

definition in_week :: "int set \<Rightarrow> int set" where
  "in_week T = {t. 0 \<le> t \<and> t < kWeek \<and> (t \<in> T \<or> t + kWeek \<in> T)}"

definition week_bounded :: "interval list \<Rightarrow> bool" where
  "week_bounded xs \<longleftrightarrow> (\<forall>i \<in> set xs. iv_valid i \<longrightarrow> 0 \<le> iv_start i \<and> iv_end i \<le> kWeek + kDay)"

lemma week_bounded_cover: "week_bounded xs \<longleftrightarrow> cover xs \<subseteq> {0 ..< kWeek + kDay}"
proof
  assume "week_bounded xs"
  then show "cover xs \<subseteq> {0 ..< kWeek + kDay}"
    by (force simp: week_bounded_def cover_def iv_set_def iv_valid_def)
next
  assume sub: "cover xs \<subseteq> {0 ..< kWeek + kDay}"
  have "0 \<le> iv_start i \<and> iv_end i \<le> kWeek + kDay" if "i \<in> set xs" "iv_valid i" for i
  proof -
    have "iv_start i \<in> cover xs" "iv_end i - 1 \<in> cover xs"
      using that by (auto simp: cover_def iv_set_def iv_valid_def)
    then show ?thesis using sub by force
  qed
  then show "week_bounded xs" by (simp add: week_bounded_def)
qed

lemma in_week_union: "in_week (A \<union> B) = in_week A \<union> in_week B"
  by (auto simp: in_week_def)

lemma in_week_id: "T \<subseteq> {0 ..< kWeek} \<Longrightarrow> in_week T = T"
  by (force simp: in_week_def)

lemma last_fits:
  assumes "iv_valid l" "0 \<le> iv_start l" "iv_end l \<le> kWeek + kDay"
  defines "tail \<equiv> intersected l (iv kWeek (kWeek + kDay))"
  defines "kept \<equiv> l\<lparr>iv_end := iv_start tail\<rparr>"
  shows "iv_valid tail \<longleftrightarrow> kWeek < iv_end l"
    and "iv_valid tail \<Longrightarrow> iv_set (shifted tail (- kWeek)) \<union> iv_set kept = in_week (iv_set l)
      \<and> iv_end (shifted tail (- kWeek)) \<le> kWeek \<and> (iv_valid kept \<longrightarrow> iv_end kept = kWeek)
      \<and> iv_start kept = iv_start l \<and> iv_end kept \<le> iv_end l"
  using assms(1-3) by (auto simp: tail_def kept_def intersected_def Let_def iv_valid_def iv_set_def
      shifted_def in_week_def time_defs split: if_splits)

lemma MoveTail_stops: "iv_end k \<le> kWeek \<Longrightarrow> MoveTailToFront (zs @ [k]) = zs @ [k]"
  by (subst MoveTailToFront.simps) (simp add: intersected_def iv_valid_def Let_def)

lemma MoveTail_step:
  assumes "iv_valid (intersected l (iv kWeek (kWeek + kDay)))"
  defines "tail \<equiv> intersected l (iv kWeek (kWeek + kDay))"
  defines "kept \<equiv> l\<lparr>iv_end := iv_start tail\<rparr>"
  shows "MoveTailToFront (zs @ [l]) = MoveTailToFront (shifted tail (- kWeek) # zs @ (if iv_valid kept then [kept] else []))"
  using assms(1) by (subst MoveTailToFront.simps) (simp add: tail_def kept_def Let_def)

lemma early_cover:
  assumes "canonical (ys @ [l])" "week_bounded (ys @ [l])" "iv_end l \<le> kWeek"
  shows "cover (ys @ [l]) \<subseteq> {0 ..< kWeek}"
proof -
  have "iv_end i \<le> kWeek" if "i \<in> set (ys @ [l])" for i
    using assms(1,3) that by (cases "i = l") (force simp: canonical_append iv_valid_def)+
  moreover have "cover (ys @ [l]) \<subseteq> {0 ..< kWeek + kDay}" using assms(2) week_bounded_cover by blast
  ultimately show ?thesis by (fastforce simp: cover_def iv_set_def)
qed

lemma MoveTail_spec:
  "canonical xs \<Longrightarrow> week_bounded xs \<Longrightarrow> \<forall>f \<in> set fs. iv_end f \<le> kWeek \<Longrightarrow>
   cover (MoveTailToFront (fs @ xs)) = cover fs \<union> in_week (cover xs)"
proof (induction xs arbitrary: fs rule: rev_induct)
  case Nil
  show ?case
  proof (cases fs rule: rev_cases)
    case Nil
    then show ?thesis by (simp add: MoveTailToFront.simps in_week_def)
  next
    case (snoc zs k)
    then show ?thesis using Nil.prems(3) by (simp add: MoveTail_stops in_week_def)
  qed
next
  case (snoc l ys)
  let ?tail = "intersected l (iv kWeek (kWeek + kDay))"
  let ?kept = "l\<lparr>iv_end := iv_start ?tail\<rparr>"
  have l: "iv_valid l" "0 \<le> iv_start l" "iv_end l \<le> kWeek + kDay"
    using snoc.prems(1,2) by (simp_all add: canonical_append week_bounded_def)
  have ys: "canonical ys" "week_bounded ys"
    using snoc.prems(1,2) by (simp_all add: canonical_append week_bounded_def)
  show ?case
  proof (cases "iv_valid ?tail")
    case False
    then have "iv_end l \<le> kWeek" using last_fits(1)[OF l] by simp
    then show ?thesis using MoveTail_stops[of l "fs @ ys"] early_cover[OF snoc.prems(1,2)]
      by (simp add: in_week_id)
  next
    case tail: True
    note fit = last_fits(2)[OF l tail]
    have step: "MoveTailToFront (fs @ ys @ [l])
        = MoveTailToFront ((shifted ?tail (- kWeek) # fs) @ ys @ (if iv_valid ?kept then [?kept] else []))"
      using MoveTail_step[OF tail, of "fs @ ys"] by simp
    have fs: "\<forall>f \<in> set (shifted ?tail (- kWeek) # fs). iv_end f \<le> kWeek" using fit snoc.prems(3) by simp
    show ?thesis
    proof (cases "iv_valid ?kept")
      case False
      then have "cover (MoveTailToFront (fs @ ys @ [l])) = cover (shifted ?tail (- kWeek) # fs) \<union> in_week (cover ys)"
        unfolding step using snoc.IH[OF ys fs] by simp
      then show ?thesis using fit False by (simp add: in_week_union Un_ac)
    next
      case True
      have c: "canonical (ys @ [?kept])" using snoc.prems(1) True fit by (simp add: canonical_append)
      have b: "week_bounded (ys @ [?kept])" using snoc.prems(2) fit True l by (simp add: week_bounded_def)
      have e: "iv_end ?kept \<le> kWeek" using fit True by simp
      have "in_week (cover ys) = cover ys"
        using early_cover[OF c b e] by (intro in_week_id) simp
      moreover have "MoveTailToFront (fs @ ys @ [l]) = (shifted ?tail (- kWeek) # fs) @ ys @ [?kept]"
        unfolding step using True MoveTail_stops[OF e, of "(shifted ?tail (- kWeek) # fs) @ ys"] by simp
      ultimately show ?thesis using fit by (auto simp: in_week_union)
    qed
  qed
qed

lemma normalized_spec:
  assumes "sorts srt" "week_bounded xs"
  shows "canonical (normalized srt xs)" and "cover (normalized srt xs) = in_week (cover xs)"
proof -
  have "week_bounded (SortAndMerge srt xs)"
    using assms(2) SortAndMerge_spec(2)[OF assms(1)] by (simp add: week_bounded_cover)
  with MoveTail_spec[OF SortAndMerge_spec(1)[OF assms(1)] this, of "[]"]
  show "canonical (normalized srt xs)" and "cover (normalized srt xs) = in_week (cover xs)"
    by (simp_all add: normalized_def SortAndMerge_spec[OF assms(1)])
qed

lemma in_week_bounds: "in_week T \<subseteq> {0 ..< kWeek}"
  by (auto simp: in_week_def)

lemma normalized_idem:
  assumes "sorts srt" "sorts srt'" "week_bounded xs"
  shows "normalized srt' (normalized srt xs) = normalized srt xs"
proof (rule canonical_unique)
  have b: "week_bounded (normalized srt xs)"
    using in_week_bounds[of "cover xs"] normalized_spec(2)[OF assms(1,3)] by (force simp: week_bounded_cover time_defs)
  show "canonical (normalized srt' (normalized srt xs))" "canonical (normalized srt xs)"
    using normalized_spec(1)[OF assms(2) b] normalized_spec(1)[OF assms(1,3)] by auto
  show "cover (normalized srt' (normalized srt xs)) = cover (normalized srt xs)"
    unfolding normalized_spec(2)[OF assms(2) b] normalized_spec(2)[OF assms(1,3)]
    by (rule in_week_id) (rule in_week_bounds)
qed

subsection \<open>One day\<close>

lemma MoveTail_early: "\<forall>i \<in> set xs. iv_end i \<le> kWeek \<Longrightarrow> MoveTailToFront xs = xs"
  by (cases xs rule: rev_cases) (simp add: MoveTailToFront.simps, simp add: MoveTail_stops)

lemma normalized_early:
  assumes "sorts srt" "cover xs \<subseteq> {..< kWeek}"
  shows "canonical (normalized srt xs)" and "cover (normalized srt xs) = cover xs"
proof -
  let ?ys = "SortAndMerge srt xs"
  have sm: "canonical ?ys" "cover ?ys = cover xs" by (rule SortAndMerge_spec[OF assms(1)])+
  have "iv_end i \<le> kWeek" if "i \<in> set ?ys" for i
  proof -
    have "iv_valid i" using sm(1) that by (simp add: canonical_def)
    then have "iv_end i - 1 \<in> cover ?ys" using that by (auto simp: cover_def iv_set_def iv_valid_def)
    then show ?thesis using sm(2) assms(2) by auto
  qed
  then have "MoveTailToFront ?ys = ?ys" by (simp add: MoveTail_early)
  then show "canonical (normalized srt xs)" and "cover (normalized srt xs) = cover xs"
    using SortAndMerge_spec[OF assms(1)] by (simp_all add: normalized_def)
qed

definition around_day :: "int \<Rightarrow> int set \<Rightarrow> int set" where
  "around_day d T = {t. - kDay \<le> t \<and> t < 2 * kDay
     \<and> (t + d * kDay \<in> T \<or> t + (d + 7) * kDay \<in> T \<or> t + (d - 7) * kDay \<in> T)}"

lemma iv_set_if: "cover (if iv_valid i then [shifted i k] else []) = iv_set (shifted i k)"
  by auto

lemma cover_pieces: "cover (extract_pieces d i) = around_day d (iv_set i)"
  unfolding extract_pieces_def Let_def cover_simps iv_set_if iv_set_shifted iv_set_intersected
  by (auto simp: around_day_def iv_set_def algebra_simps)

lemma cover_all_pieces: "cover (concat (map (extract_pieces d) xs)) = around_day d (cover xs)"
  by (induction xs) (auto simp: cover_pieces around_day_def)

definition inside_day :: "interval list \<Rightarrow> bool" where
  "inside_day xs \<longleftrightarrow> (\<forall>i \<in> set xs. 0 < iv_end i \<and> iv_start i < kDay)"

lemma canonical_filter: "canonical xs \<Longrightarrow> canonical (filter P xs)"
  by (simp add: canonical_def sorted_wrt_filter)

lemma cut_back_spec:
  assumes "canonical xs" "inside_day xs"
  shows "canonical (cut_back xs)" and "inside_day (cut_back xs)"
    and "\<forall>i \<in> set (cut_back xs). iv_end i \<le> kDay + kInNextDayMax"
    and "cover (cut_back xs) \<subseteq> cover xs"
    and "cover xs \<inter> {0 ..< kDay} \<subseteq> cover (cut_back xs)"
proof -
  have "canonical (cut_back xs) \<and> inside_day (cut_back xs) \<and> (\<forall>i \<in> set (cut_back xs). iv_end i \<le> kDay + kInNextDayMax)
    \<and> cover (cut_back xs) \<subseteq> cover xs \<and> cover xs \<inter> {0 ..< kDay} \<subseteq> cover (cut_back xs)"
  proof (cases xs rule: rev_cases)
    case Nil
    then show ?thesis by (simp add: cut_back_def inside_day_def)
  next
    case (snoc ys l)
    have c: "canonical (ys @ [l])" and d: "inside_day (ys @ [l])" using assms snoc by simp_all
    have l: "iv_start l < iv_end l" "0 < iv_end l" "iv_start l < kDay"
      using c d by (simp_all add: canonical_append iv_valid_def inside_day_def)
    have ys: "iv_end y < iv_start l" "0 < iv_end y" if "y \<in> set ys" for y
      using c d that by (simp_all add: canonical_append inside_day_def)
    consider (full) "iv_start l \<le> 0" "kDay \<le> iv_end l"
      | (long) "0 < iv_start l \<or> iv_end l < kDay" "kDay + kInNextDayMax < iv_end l"
      | (short) "0 < iv_start l \<or> iv_end l < kDay" "iv_end l \<le> kDay + kInNextDayMax"
      by linarith
    then show ?thesis
    proof cases
      case full
      have "ys = []" using ys full by (cases ys) force+
      then show ?thesis using full snoc
        by (auto simp: cut_back_def iv_valid_def inside_day_def iv_set_def time_defs)
    next
      case long
      have i: "intersected l (iv 0 kDay) = iv (iv_start l) kDay"
        using long l by (auto simp: intersected_def Let_def iv_valid_def time_defs)
      have cb: "cut_back xs = ys @ [iv (iv_start l) kDay]" using long snoc i by (auto simp: cut_back_def time_defs)
      have e: "iv_end y \<le> kDay + kInNextDayMax" if "y \<in> set ys" for y
        using ys[OF that] l(3) by (simp add: time_defs)
      have "canonical (ys @ [iv (iv_start l) kDay])" using c l by (simp add: canonical_append iv_valid_def)
      moreover have "inside_day (ys @ [iv (iv_start l) kDay])" using d by (simp add: inside_day_def time_defs)
      moreover have "iv_set (iv (iv_start l) kDay) \<subseteq> iv_set l" "iv_set l \<inter> {0 ..< kDay} \<subseteq> iv_set (iv (iv_start l) kDay)"
        using long by (auto simp: iv_set_def time_defs)
      ultimately show ?thesis unfolding cb using e snoc by (auto simp: time_defs)
    next
      case short
      then have cb: "cut_back xs = xs" using snoc by (auto simp: cut_back_def)
      have "iv_end y \<le> kDay + kInNextDayMax" if "y \<in> set ys" for y
        using ys[OF that] l(3) by (simp add: time_defs)
      then show ?thesis unfolding cb using assms short snoc by auto
    qed
  qed
  then show "canonical (cut_back xs)" and "inside_day (cut_back xs)"
    and "\<forall>i \<in> set (cut_back xs). iv_end i \<le> kDay + kInNextDayMax"
    and "cover (cut_back xs) \<subseteq> cover xs"
    and "cover xs \<inter> {0 ..< kDay} \<subseteq> cover (cut_back xs)" by auto
qed

lemma cut_front_spec:
  assumes "canonical xs" "inside_day xs" "\<forall>i \<in> set xs. iv_end i \<le> kDay + kInNextDayMax"
  shows "canonical (cut_front xs)"
    and "\<forall>i \<in> set (cut_front xs). 0 \<le> iv_start i \<and> iv_start i < kDay \<and> iv_end i \<le> kDay + kInNextDayMax"
    and "cover (cut_front xs) \<subseteq> cover xs"
    and "cover xs \<inter> {kInNextDayMax ..< kDay} \<subseteq> cover (cut_front xs)"
proof -
  have "canonical (cut_front xs)
    \<and> (\<forall>i \<in> set (cut_front xs). 0 \<le> iv_start i \<and> iv_start i < kDay \<and> iv_end i \<le> kDay + kInNextDayMax)
    \<and> cover (cut_front xs) \<subseteq> cover xs \<and> cover xs \<inter> {kInNextDayMax ..< kDay} \<subseteq> cover (cut_front xs)"
  proof (cases xs)
    case Nil
    then show ?thesis by (simp add: cut_front_def)
  next
    case (Cons x ys)
    have x: "iv_start x < iv_end x" "0 < iv_end x" "iv_start x < kDay" "iv_end x \<le> kDay + kInNextDayMax"
      using assms Cons by (simp_all add: iv_valid_def inside_day_def)
    have ys: "canonical ys" "\<forall>y \<in> set ys. iv_end x < iv_start y"
      "\<forall>i \<in> set ys. 0 \<le> iv_start i \<and> iv_start i < kDay \<and> iv_end i \<le> kDay + kInNextDayMax"
      using assms Cons x(2) by (auto simp: inside_day_def)
    consider (pos) "0 < iv_start x"
      | (drop) "iv_start x < 0" "iv_end x \<le> kInNextDayMax" "- kDay < iv_start x"
      | (cut) "iv_start x \<le> 0" "\<not> (iv_start x < 0 \<and> iv_end x \<le> kInNextDayMax \<and> - kDay < iv_start x)"
      by linarith
    then show ?thesis
    proof cases
      case pos
      then have "cut_front xs = xs" using Cons by (simp add: cut_front_def)
      then show ?thesis using pos assms(1) ys(3) x Cons by auto
    next
      case drop
      then have "cut_front xs = ys" using Cons by (simp add: cut_front_def)
      moreover have "iv_set x \<inter> {kInNextDayMax ..< kDay} = {}" using drop by (auto simp: iv_set_def)
      ultimately show ?thesis using ys Cons by auto
    next
      case cut
      have i: "intersected x (iv 0 kDay) = iv 0 (min (iv_end x) kDay)" "0 < min (iv_end x) kDay"
        using cut x by (auto simp: intersected_def Let_def iv_valid_def time_defs max_def)
      then have cf: "cut_front xs = iv 0 (min (iv_end x) kDay) # ys"
        using cut Cons by (auto simp: cut_front_def iv_valid_def)
      have "iv_set (iv 0 (min (iv_end x) kDay)) \<subseteq> iv_set x"
        "iv_set x \<inter> {kInNextDayMax ..< kDay} \<subseteq> iv_set (iv 0 (min (iv_end x) kDay))"
        using cut by (auto simp: iv_set_def time_defs)
      then show ?thesis unfolding cf using ys i(2) Cons by (auto simp: iv_valid_def time_defs)
    qed
  qed
  then show "canonical (cut_front xs)"
    and "\<forall>i \<in> set (cut_front xs). 0 \<le> iv_start i \<and> iv_start i < kDay \<and> iv_end i \<le> kDay + kInNextDayMax"
    and "cover (cut_front xs) \<subseteq> cover xs"
    and "cover xs \<inter> {kInNextDayMax ..< kDay} \<subseteq> cover (cut_front xs)" by auto
qed

text \<open>Time without a gap lies in one interval of a canonical list.\<close>

lemma canonical_apart:
  "canonical xs \<Longrightarrow> i \<in> set xs \<Longrightarrow> j \<in> set xs \<Longrightarrow> i = j \<or> iv_end i < iv_start j \<or> iv_end j < iv_start i"
  by (induction xs) auto

lemma canonical_connected:
  assumes "canonical xs" "{a ..< b} \<subseteq> cover xs" "a < b"
  shows "\<exists>i \<in> set xs. iv_start i \<le> a \<and> b \<le> iv_end i"
proof -
  have "a \<in> cover xs" using assms(2,3) by auto
  then obtain i where i: "i \<in> set xs" "iv_start i \<le> a" "a < iv_end i" by (auto simp: cover_def iv_set_def)
  have "b \<le> iv_end i"
  proof (rule ccontr)
    assume "\<not> b \<le> iv_end i"
    then have "iv_end i \<in> cover xs" using assms(2) i by auto
    then obtain j where j: "j \<in> set xs" "iv_start j \<le> iv_end i" "iv_end i < iv_end j"
      by (auto simp: cover_def iv_set_def)
    have "iv_valid i" using assms(1) i(1) by (simp add: canonical_def)
    then show False using canonical_apart[OF assms(1) i(1) j(1)] j by (auto simp: iv_valid_def)
  qed
  with i show ?thesis by blast
qed

lemma distinct_singleton_set: "distinct xs \<Longrightarrow> set xs = {x} \<Longrightarrow> xs = [x]"
  by (cases xs; cases "tl xs") auto

lemma full_day_single:
  assumes "canonical xs" "inside_day xs" "{0 ..< kDay} \<subseteq> cover xs"
  shows "cut_front (cut_back xs) = [iv 0 kDay]"
proof -
  have kd: "0 < kDay" by (simp add: time_defs)
  obtain i where i: "i \<in> set xs" "iv_start i \<le> 0" "kDay \<le> iv_end i"
    using canonical_connected[OF assms(1,3) kd] by blast
  have "j = i" if "j \<in> set xs" for j
    using canonical_apart[OF assms(1) that i(1)] assms(2) that i(2,3) by (force simp: inside_day_def)
  then have "set xs = {i}" using i(1) by blast
  moreover have "distinct xs"
    using assms(1) by (induction xs) (auto simp: iv_valid_def)
  ultimately have "xs = [i]" by (metis distinct_singleton_set)
  then show ?thesis using i(2,3) kd
    by (simp add: cut_back_def cut_front_def intersected_def iv_valid_def Let_def)
qed

lemma ExtractDay_spec:
  assumes "sorts srt"
  shows "canonical (ExtractDayIntervals srt xs d)"
    and "\<forall>i \<in> set (ExtractDayIntervals srt xs d).
      0 \<le> iv_start i \<and> iv_start i < kDay \<and> iv_end i \<le> kDay + kInNextDayMax"
    and "cover (ExtractDayIntervals srt xs d) \<subseteq> around_day d (cover xs)"
    and "around_day d (cover xs) \<inter> {kInNextDayMax ..< kDay} \<subseteq> cover (ExtractDayIntervals srt xs d)"
    and "{0 ..< kDay} \<subseteq> around_day d (cover xs) \<Longrightarrow> IsFullOpen (ExtractDayIntervals srt xs d)"
proof -
  let ?p = "concat (map (extract_pieces d) xs)"
  let ?in = "filter (\<lambda>i. \<not> (iv_end i \<le> 0 \<or> iv_start i \<ge> kDay)) (normalized srt ?p)"
  have early: "cover ?p \<subseteq> {..< kWeek}" by (auto simp: cover_all_pieces around_day_def time_defs)
  note n = normalized_early[OF assms early]
  have c: "canonical ?in" by (rule canonical_filter[OF n(1)])
  have d: "inside_day ?in" by (auto simp: inside_day_def)
  note b = cut_back_spec[OF c d]
  note f = cut_front_spec[OF b(1-3)]
  have eq: "ExtractDayIntervals srt xs d = cut_front (cut_back ?in)" by (simp add: ExtractDayIntervals_def Let_def)
  have "cover ?in \<subseteq> cover (normalized srt ?p)" by (auto simp: cover_def)
  then have sub: "cover ?in \<subseteq> around_day d (cover xs)" by (simp only: n(2) cover_all_pieces)
  have sup: "around_day d (cover xs) \<inter> {0 ..< kDay} \<subseteq> cover ?in"
    unfolding cover_all_pieces[symmetric] n(2)[symmetric] by (force simp: cover_def iv_set_def)
  show "canonical (ExtractDayIntervals srt xs d)" unfolding eq by (rule f(1))
  show "\<forall>i \<in> set (ExtractDayIntervals srt xs d).
      0 \<le> iv_start i \<and> iv_start i < kDay \<and> iv_end i \<le> kDay + kInNextDayMax"
    unfolding eq by (rule f(2))
  show "cover (ExtractDayIntervals srt xs d) \<subseteq> around_day d (cover xs)"
    unfolding eq using f(3) b(4) sub by blast
  show "IsFullOpen (ExtractDayIntervals srt xs d)" if "{0 ..< kDay} \<subseteq> around_day d (cover xs)"
  proof -
    have "{0 ..< kDay} \<subseteq> cover ?in" using that sup by blast
    from full_day_single[OF c d this] show ?thesis unfolding eq
      by (simp add: IsFullOpen_def intervals_bool_def iv_valid_def time_defs)
  qed
  have "{kInNextDayMax ..< kDay} \<subseteq> {0 ..< kDay}" by (auto simp: time_defs)
  then show "around_day d (cover xs) \<inter> {kInNextDayMax ..< kDay} \<subseteq> cover (ExtractDayIntervals srt xs d)"
    unfolding eq using f(4) b(5) sup by blast
qed

subsection \<open>Removing and replacing a day\<close>

text \<open>What one round of the removal leaves of an interval of the week.\<close>

definition removed_hours :: "int \<Rightarrow> int set" where
  "removed_hours d = {d * kDay + kInNextDayMax ..< (d + 1) * kDay}"

lemma remove_loop_step:
  assumes "0 \<le> iv_start cur" "iv_end cur \<le> kWeek" "iv_valid cur"
  shows "\<exists>new. remove_loop d passed (cur # rest) pushed = remove_loop d (passed @ new) rest pushed
    \<and> cover new \<subseteq> iv_set cur - removed_hours d
    \<and> iv_set cur \<inter> {..< d * kDay} \<subseteq> cover new
    \<and> (d * kDay \<le> iv_start cur \<longrightarrow> iv_set cur \<inter> {(d + 1) * kDay ..} \<subseteq> cover new)"
proof -
  let ?s = "shifted (iv 0 kDay) (d * kDay)"
  let ?before = "iv 0 (iv_start ?s)" and ?after = "iv (iv_end ?s) kWeek"
  let ?first = "intersected cur ?before"
  let ?out = "iv_end cur \<le> iv_start ?s \<or> iv_start cur \<ge> iv_end ?s"
  let ?prev = "iv_end cur \<le> iv_start ?s + kInNextDayMax \<and> (iv_start cur < iv_start ?s
    \<or> d = 0 \<and> iv_start cur = iv_start ?s \<and> iv_end (last (passed @ cur # rest @ pushed)) \<ge> kWeek)"
  have s: "iv_start ?s = d * kDay" "iv_end ?s = (d + 1) * kDay"
    by (simp_all add: shifted_def algebra_simps)
  have before: "iv_set cur \<inter> {..< d * kDay} = iv_set ?first"
    using assms by (auto simp: iv_set_intersected s) (auto simp: iv_set_def)
  have after: "iv_set cur \<inter> {(d + 1) * kDay ..} = iv_set (intersected cur ?after)"
    using assms by (auto simp: iv_set_intersected s) (auto simp: iv_set_def)
  have kd: "0 < kDay" "0 < kInNextDayMax" by (simp_all add: time_defs)
  consider (out) ?out | (prev) "\<not> ?out" ?prev | (first) "\<not> ?out" "\<not> ?prev" "iv_valid ?first"
    | (rest) "\<not> ?out" "\<not> ?prev" "\<not> iv_valid ?first" by blast
  then show ?thesis
  proof cases
    case out
    have "remove_loop d passed (cur # rest) pushed = remove_loop d (passed @ [cur]) rest pushed"
      using out by (simp add: Let_def)
    moreover have "cover [cur] \<subseteq> iv_set cur - removed_hours d"
      using out kd unfolding s by (auto simp: removed_hours_def iv_set_def)
    ultimately show ?thesis by (intro exI[of _ "[cur]"]) simp
  next
    case prev
    have "remove_loop d passed (cur # rest) pushed = remove_loop d (passed @ [cur]) rest pushed"
      using prev by (simp only: remove_loop.simps Let_def if_False if_True simp_thms)
    moreover have "cover [cur] \<subseteq> iv_set cur - removed_hours d"
      using prev(2) unfolding s by (auto simp: removed_hours_def iv_set_def)
    ultimately show ?thesis by (intro exI[of _ "[cur]"]) simp
  next
    case first
    have "iv_set (intersected ?first ?after) = {}"
      using kd unfolding iv_set_intersected s by (auto simp: iv_set_def algebra_simps)
    then have none: "\<not> iv_valid (intersected ?first ?after)" by (auto simp: iv_set_def iv_valid_def)
    have "remove_loop d passed (cur # rest) pushed = remove_loop d (passed @ [?first]) rest pushed"
      using first none by (simp only: remove_loop.simps Let_def if_False if_True simp_thms)
    moreover have "cover [?first] \<subseteq> iv_set cur - removed_hours d"
      using kd unfolding cover_simps before[symmetric] by (auto simp: removed_hours_def)
    moreover have "iv_set cur \<inter> {(d + 1) * kDay ..} \<subseteq> cover [?first]" if "d * kDay \<le> iv_start cur"
    proof -
      have "iv_set ?first = {}" unfolding before[symmetric] using that by (auto simp: iv_set_def)
      then show ?thesis using first(3) by (auto simp: iv_set_def iv_valid_def)
    qed
    ultimately show ?thesis using before by (intro exI[of _ "[?first]"]) simp
  next
    case rest
    let ?second = "intersected cur ?after"
    let ?new = "if iv_valid ?second then [?second] else []"
    have "remove_loop d passed (cur # rest) pushed = remove_loop d (passed @ ?new) rest pushed"
      using rest by (simp only: remove_loop.simps Let_def if_False if_True simp_thms append_Nil2 split: if_split) simp
    moreover have new: "cover ?new = iv_set cur \<inter> {(d + 1) * kDay ..}" unfolding after by auto
    moreover have "iv_set cur \<inter> {..< d * kDay} = {}" unfolding before using rest(3) by simp
    ultimately show ?thesis by (intro exI[of _ ?new]) (auto simp: removed_hours_def)
  qed
qed

lemma remove_loop_spec:
  "\<forall>i \<in> set rest. 0 \<le> iv_start i \<and> iv_end i \<le> kWeek \<and> iv_valid i \<Longrightarrow>
    cover (remove_loop d passed rest pushed) \<subseteq> cover passed \<union> cover pushed \<union> (cover rest - removed_hours d)
    \<and> cover passed \<union> cover pushed \<union> (cover rest \<inter> {..< d * kDay})
      \<union> (cover (filter (\<lambda>i. d * kDay \<le> iv_start i) rest) \<inter> {(d + 1) * kDay ..})
      \<subseteq> cover (remove_loop d passed rest pushed)"
proof (induction rest arbitrary: passed)
  case (Cons cur rest)
  have "0 \<le> iv_start cur" "iv_end cur \<le> kWeek" "iv_valid cur" using Cons.prems by simp_all
  from remove_loop_step[OF this, of d passed rest pushed] obtain new where
    new: "remove_loop d passed (cur # rest) pushed = remove_loop d (passed @ new) rest pushed"
      "cover new \<subseteq> iv_set cur - removed_hours d" "iv_set cur \<inter> {..< d * kDay} \<subseteq> cover new"
      "d * kDay \<le> iv_start cur \<longrightarrow> iv_set cur \<inter> {(d + 1) * kDay ..} \<subseteq> cover new" by blast
  have IH: "cover (remove_loop d (passed @ new) rest pushed)
      \<subseteq> cover (passed @ new) \<union> cover pushed \<union> (cover rest - removed_hours d)"
    "cover (passed @ new) \<union> cover pushed \<union> (cover rest \<inter> {..< d * kDay})
      \<union> (cover (filter (\<lambda>i. d * kDay \<le> iv_start i) rest) \<inter> {(d + 1) * kDay ..})
      \<subseteq> cover (remove_loop d (passed @ new) rest pushed)"
    using Cons.IH[of "passed @ new"] Cons.prems by auto
  have "cover (remove_loop d passed (cur # rest) pushed)
      \<subseteq> cover passed \<union> cover pushed \<union> (cover (cur # rest) - removed_hours d)"
    unfolding new(1) using IH(1) new(2) by auto
  moreover have "cover passed \<union> cover pushed \<union> (cover (cur # rest) \<inter> {..< d * kDay})
      \<union> (cover (filter (\<lambda>i. d * kDay \<le> iv_start i) (cur # rest)) \<inter> {(d + 1) * kDay ..})
      \<subseteq> cover (remove_loop d passed (cur # rest) pushed)"
    unfolding new(1) using IH(2) new(3,4) by auto
  ultimately show ?case by blast
qed simp

lemma canonical_in_week:
  "canonical xs \<Longrightarrow> cover xs \<subseteq> {0 ..< kWeek} \<Longrightarrow> \<forall>i \<in> set xs. 0 \<le> iv_start i \<and> iv_end i \<le> kWeek \<and> iv_valid i"
proof
  fix i assume c: "canonical xs" "cover xs \<subseteq> {0 ..< kWeek}" "i \<in> set xs"
  then have v: "iv_valid i" by (simp add: canonical_def)
  then have "iv_start i \<in> cover xs" "iv_end i - 1 \<in> cover xs"
    using c(3) by (auto simp: cover_def iv_set_def iv_valid_def)
  then show "0 \<le> iv_start i \<and> iv_end i \<le> kWeek \<and> iv_valid i" using c(2) v by auto
qed

lemma RemoveDay_spec:
  assumes "sorts srt" "week_bounded xs"
  defines "N \<equiv> normalized srt xs"
  shows "canonical (RemoveDayIntervals srt xs d)"
    and "cover (RemoveDayIntervals srt xs d) \<subseteq> cover N - removed_hours d"
    and "cover N \<inter> {..< d * kDay} \<subseteq> cover (RemoveDayIntervals srt xs d)"
    and "cover (filter (\<lambda>i. d * kDay \<le> iv_start i) N) \<inter> {(d + 1) * kDay ..} \<subseteq> cover (RemoveDayIntervals srt xs d)"
proof -
  let ?l = "remove_loop d [] N []"
  have n: "canonical N" "cover N \<subseteq> {0 ..< kWeek}"
    using normalized_spec[OF assms(1,2)] in_week_bounds by (simp_all add: N_def)
  note sp = remove_loop_spec[OF canonical_in_week[OF n], of d "[]" "[]"]
  have wk: "cover ?l \<subseteq> {0 ..< kWeek}" using sp n(2) by auto
  then have b: "week_bounded ?l" by (force simp: week_bounded_cover time_defs)
  have eq: "cover (RemoveDayIntervals srt xs d) = cover ?l"
    unfolding RemoveDayIntervals_def N_def[symmetric] normalized_spec(2)[OF assms(1) b] by (rule in_week_id[OF wk])
  show "canonical (RemoveDayIntervals srt xs d)"
    unfolding RemoveDayIntervals_def N_def[symmetric] by (rule normalized_spec(1)[OF assms(1) b])
  show "cover (RemoveDayIntervals srt xs d) \<subseteq> cover N - removed_hours d"
    and "cover N \<inter> {..< d * kDay} \<subseteq> cover (RemoveDayIntervals srt xs d)"
    and "cover (filter (\<lambda>i. d * kDay \<le> iv_start i) N) \<inter> {(d + 1) * kDay ..} \<subseteq> cover (RemoveDayIntervals srt xs d)"
    unfolding eq using sp by auto
qed

lemma cover_map_shifted: "cover (map (\<lambda>i. shifted i k) xs) = {t. t - k \<in> cover xs}"
  by (induction xs) auto

lemma ReplaceDay_spec:
  assumes "sorts srt" "week_bounded xs" "0 \<le> d" "d < 7"
    "cover rep \<subseteq> {0 ..< kDay + kInNextDayMax}"
  shows "canonical (ReplaceDayIntervals srt xs d rep)"
    and "cover (ReplaceDayIntervals srt xs d rep)
      = cover (RemoveDayIntervals srt xs d) \<union> in_week {t. t - d * kDay \<in> cover rep}"
proof -
  let ?R = "RemoveDayIntervals srt xs d"
  have r: "cover ?R \<subseteq> {0 ..< kWeek}"
    using RemoveDay_spec(2)[OF assms(1,2), of d] normalized_spec(2)[OF assms(1,2)] in_week_bounds by blast
  have d: "0 \<le> d * kDay" "d * kDay \<le> 6 * kDay" using assms(3,4) by (simp_all add: time_defs)
  have "cover (?R @ map (\<lambda>i. shifted i (d * kDay)) rep) \<subseteq> {0 ..< kWeek + kDay}"
  proof
    fix t assume "t \<in> cover (?R @ map (\<lambda>i. shifted i (d * kDay)) rep)"
    then consider "t \<in> cover ?R" | "t - d * kDay \<in> cover rep" by (auto simp: cover_map_shifted)
    then show "t \<in> {0 ..< kWeek + kDay}"
    proof cases
      case 1
      then show ?thesis using r by (force simp: time_defs)
    next
      case 2
      then have "0 \<le> t - d * kDay" "t - d * kDay < kDay + kInNextDayMax" using assms(5) by auto
      then show ?thesis using d by (simp add: time_defs)
    qed
  qed
  then have b: "week_bounded (?R @ map (\<lambda>i. shifted i (d * kDay)) rep)" by (simp only: week_bounded_cover)
  note n = normalized_spec[OF assms(1) b]
  show "canonical (ReplaceDayIntervals srt xs d rep)" unfolding ReplaceDayIntervals_def by (rule n(1))
  show "cover (ReplaceDayIntervals srt xs d rep) = cover ?R \<union> in_week {t. t - d * kDay \<in> cover rep}"
    unfolding ReplaceDayIntervals_def n(2) by (simp add: in_week_union in_week_id[OF r] cover_map_shifted)
qed

subsection \<open>Recipients\<close>

text \<open>
  Flags are sets; a user is identified with the id that is sent. The fields of a TL object that
  its flags announce are read only under their flag.
\<close>

datatype BusinessChatType = NewChats | ExistingChats | Contacts | NonContacts

record 'u business_chats =
  bc_types :: "BusinessChatType set"
  bc_list :: "'u list"

definition chats_empty :: "'u business_chats \<Rightarrow> bool" where
  "chats_empty c \<longleftrightarrow> bc_types c = {} \<and> bc_list c = []"

abbreviation no_chats :: "'u business_chats" where
  "no_chats \<equiv> \<lparr>bc_types = {}, bc_list = []\<rparr>"

record 'u business_recipients =
  br_included :: "'u business_chats"
  br_excluded :: "'u business_chats"
  br_allButExcluded :: bool

definition MakeValid :: "'u business_recipients \<Rightarrow> 'u business_recipients" where
  "MakeValid value = (if chats_empty (br_included value) then value\<lparr>br_allButExcluded := True\<rparr> else value)"

datatype recipients_flag = f_new_chats | f_existing_chats | f_contacts | f_non_contacts | f_users
  | f_exclude_selected | f_exclude_users

record 'u mtp_recipients =
  mr_flags :: "recipients_flag set"
  mr_users :: "'u list"
  mr_exclude_users :: "'u list"

definition RecipientsFlags :: "'u business_recipients \<Rightarrow> recipients_flag set" where
  "RecipientsFlags data =
     (let chats = (if br_allButExcluded data then br_excluded data else br_included data)
      in (if NewChats \<in> bc_types chats then {f_new_chats} else {})
       \<union> (if ExistingChats \<in> bc_types chats then {f_existing_chats} else {})
       \<union> (if Contacts \<in> bc_types chats then {f_contacts} else {})
       \<union> (if NonContacts \<in> bc_types chats then {f_non_contacts} else {})
       \<union> (if bc_list chats = [] then {} else {f_users})
       \<union> (if br_allButExcluded data then {f_exclude_selected} else {}))"

definition ForMessagesToMTP :: "'u business_recipients \<Rightarrow> 'u mtp_recipients" where
  "ForMessagesToMTP data =
     (let chats = (if br_allButExcluded data then br_excluded data else br_included data)
      in \<lparr>mr_flags = RecipientsFlags data, mr_users = bc_list chats, mr_exclude_users = []\<rparr>)"

definition ForBotsToMTP :: "'u business_recipients \<Rightarrow> 'u mtp_recipients" where
  "ForBotsToMTP data =
     (let chats = (if br_allButExcluded data then br_excluded data else br_included data)
      in \<lparr>mr_flags = RecipientsFlags data
            \<union> (if br_allButExcluded data \<or> chats_empty (br_excluded data) then {} else {f_exclude_users}),
          mr_users = bc_list chats, mr_exclude_users = bc_list (br_excluded data)\<rparr>)"

definition vusers :: "'u mtp_recipients \<Rightarrow> 'u list option" where
  "vusers data = (if f_users \<in> mr_flags data then Some (mr_users data) else None)"

definition vexclude_users :: "'u mtp_recipients \<Rightarrow> 'u list option" where
  "vexclude_users data = (if f_exclude_users \<in> mr_flags data then Some (mr_exclude_users data) else None)"

definition FromMTP_messages :: "'u mtp_recipients \<Rightarrow> 'u business_recipients" where
  "FromMTP_messages data =
     (let all = (f_exclude_selected \<in> mr_flags data);
          types = (if f_new_chats \<in> mr_flags data then {NewChats} else {})
            \<union> (if f_existing_chats \<in> mr_flags data then {ExistingChats} else {})
            \<union> (if f_contacts \<in> mr_flags data then {Contacts} else {})
            \<union> (if f_non_contacts \<in> mr_flags data then {NonContacts} else {});
          users = (case vusers data of Some us \<Rightarrow> us | None \<Rightarrow> []);
          chats = \<lparr>bc_types = types, bc_list = users\<rparr>
      in \<lparr>br_included = (if all then no_chats else chats), br_excluded = (if all then chats else no_chats),
          br_allButExcluded = all\<rparr>)"

definition FromMTP_bots :: "'u mtp_recipients \<Rightarrow> 'u business_recipients" where
  "FromMTP_bots data =
     (let result = FromMTP_messages data
      in if br_allButExcluded result then result
         else (case vexclude_users data of None \<Rightarrow> result
           | Some us \<Rightarrow> result\<lparr>br_excluded := (br_excluded result)\<lparr>bc_list := bc_list (br_excluded result) @ us\<rparr>\<rparr>))"

lemma chat_types_from_flags:
  "(if NewChats \<in> T then {NewChats} else {}) \<union> (if ExistingChats \<in> T then {ExistingChats} else {})
    \<union> (if Contacts \<in> T then {Contacts} else {}) \<union> (if NonContacts \<in> T then {NonContacts} else {}) = T"
proof (rule set_eqI)
  show "x \<in> (if NewChats \<in> T then {NewChats} else {}) \<union> (if ExistingChats \<in> T then {ExistingChats} else {})
      \<union> (if Contacts \<in> T then {Contacts} else {}) \<union> (if NonContacts \<in> T then {NonContacts} else {}) \<longleftrightarrow> x \<in> T" for x
    by (cases x) simp_all
qed

lemma mem_if_set: "x \<in> (if P then {y} else {}) \<longleftrightarrow> P \<and> x = y" "x \<in> (if P then {} else {y}) \<longleftrightarrow> \<not> P \<and> x = y"
  by auto

lemma RecipientsFlags_mem:
  fixes data :: "'u business_recipients"
  defines "c \<equiv> if br_allButExcluded data then br_excluded data else br_included data"
  shows "f_exclude_selected \<in> RecipientsFlags data \<longleftrightarrow> br_allButExcluded data"
    and "f_users \<in> RecipientsFlags data \<longleftrightarrow> bc_list c \<noteq> []" and "f_exclude_users \<notin> RecipientsFlags data"
    and "f_new_chats \<in> RecipientsFlags data \<longleftrightarrow> NewChats \<in> bc_types c"
    and "f_existing_chats \<in> RecipientsFlags data \<longleftrightarrow> ExistingChats \<in> bc_types c"
    and "f_contacts \<in> RecipientsFlags data \<longleftrightarrow> Contacts \<in> bc_types c"
    and "f_non_contacts \<in> RecipientsFlags data \<longleftrightarrow> NonContacts \<in> bc_types c"
  unfolding RecipientsFlags_def Let_def c_def[symmetric] Un_iff mem_if_set by simp_all

lemma FromMTP_messages_sent:
  assumes "mr_flags m = RecipientsFlags data \<or> mr_flags m = insert f_exclude_users (RecipientsFlags data)"
    "mr_users m = bc_list (if br_allButExcluded data then br_excluded data else br_included data)"
  shows "FromMTP_messages m = \<lparr>br_included = (if br_allButExcluded data then no_chats else br_included data),
    br_excluded = (if br_allButExcluded data then br_excluded data else no_chats),
    br_allButExcluded = br_allButExcluded data\<rparr>"
proof -
  let ?c = "if br_allButExcluded data then br_excluded data else br_included data"
  have f: "f_exclude_selected \<in> mr_flags m \<longleftrightarrow> br_allButExcluded data" "f_users \<in> mr_flags m \<longleftrightarrow> bc_list ?c \<noteq> []"
    "f_new_chats \<in> mr_flags m \<longleftrightarrow> NewChats \<in> bc_types ?c" "f_existing_chats \<in> mr_flags m \<longleftrightarrow> ExistingChats \<in> bc_types ?c"
    "f_contacts \<in> mr_flags m \<longleftrightarrow> Contacts \<in> bc_types ?c" "f_non_contacts \<in> mr_flags m \<longleftrightarrow> NonContacts \<in> bc_types ?c"
    using assms(1) RecipientsFlags_mem[of data] by (elim disjE; simp only: insert_iff recipients_flag.distinct simp_thms)+
  have "(case vusers m of Some us \<Rightarrow> us | None \<Rightarrow> []) = bc_list ?c"
    unfolding vusers_def f(2) assms(2) by simp
  then have "FromMTP_messages m = (let chats = ?c in
      \<lparr>br_included = (if br_allButExcluded data then no_chats else chats),
       br_excluded = (if br_allButExcluded data then chats else no_chats), br_allButExcluded = br_allButExcluded data\<rparr>)"
    unfolding FromMTP_messages_def Let_def f chat_types_from_flags by simp
  then show ?thesis by simp
qed

subsection \<open>Properties\<close>

text \<open>
  C18: normalising the weekly hours leaves the same time of the week covered, with what ran over
  into the next week moved to the front, as non-empty intervals in order with gaps between them.
  This form is unique: it does not depend on the order of the intervals, on how they were cut
  or on the sort, and normalising again changes nothing.
\<close>

theorem hours_normalized:
  assumes "sorts srt" "sorts srt'" "week_bounded xs" "week_bounded ys"
    "in_week (cover ys) = in_week (cover xs)"
  shows "canonical (normalized srt xs) \<and> cover (normalized srt xs) = in_week (cover xs)
    \<and> normalized srt' ys = normalized srt xs \<and> normalized srt' (normalized srt xs) = normalized srt xs"
  using normalized_spec[OF assms(1,3)] normalized_spec[OF assms(2,4)] assms(5)
    normalized_idem[OF assms(1-3)] canonical_unique by metis

theorem hours_normalized_witness:
  "normalized insertion_sort [iv 5 9, iv 604800 604803, iv 2 5] = normalized insertion_sort [iv 2 9, iv 0 3]"
proof -
  let ?x = "[iv 2 9, iv 0 3]" and ?y = "[iv 5 9, iv 604800 604803, iv 2 5]"
  have "week_bounded ?x" "week_bounded ?y" by (simp_all add: week_bounded_def time_defs)
  moreover have "in_week (cover ?y) = in_week (cover ?x)"
    by (auto simp: in_week_def iv_set_def time_defs)
  ultimately show ?thesis
    using hours_normalized[OF insertion_sort_sorts insertion_sort_sorts, of ?x ?y] by simp
qed

text \<open>
  the hours taken out for a day form a normalised list that starts in the day and ends at
  most six hours into the next one. From six in the morning on it is open exactly when the
  weekly hours are, seen around the end of the week; before that it may leave out hours that
  count to the day before, and it never adds any. A day that is open throughout is reported so.
\<close>

theorem hours_of_day:
  assumes "sorts srt"
  shows "canonical (ExtractDayIntervals srt xs d)
    \<and> (\<forall>i \<in> set (ExtractDayIntervals srt xs d).
        0 \<le> iv_start i \<and> iv_start i < kDay \<and> iv_end i \<le> kDay + kInNextDayMax)
    \<and> cover (ExtractDayIntervals srt xs d) \<subseteq> around_day d (cover xs)
    \<and> around_day d (cover xs) \<inter> {kInNextDayMax ..< kDay} \<subseteq> cover (ExtractDayIntervals srt xs d)
    \<and> ({0 ..< kDay} \<subseteq> around_day d (cover xs) \<longrightarrow> IsFullOpen (ExtractDayIntervals srt xs d))"
  using ExtractDay_spec[OF assms] by blast

theorem hours_of_day_witness:
  "canonical (ExtractDayIntervals insertion_sort [iv 0 604800] 3)"
  using hours_of_day[OF insertion_sort_sorts] by blast

text \<open>
  replacing the hours of a day leaves everything before the day, closes the rest of the day
  from six in the morning on unless the new hours open it, keeps what lies after the day of the
  intervals that start in it or later, and adds exactly the new hours, around the end of the week.
\<close>

theorem hours_replaced:
  assumes "sorts srt" "week_bounded xs" "0 \<le> d" "d < 7" "cover rep \<subseteq> {0 ..< kDay + kInNextDayMax}"
  defines "N \<equiv> normalized srt xs" and "R \<equiv> RemoveDayIntervals srt xs d"
  shows "canonical (ReplaceDayIntervals srt xs d rep)
    \<and> cover (ReplaceDayIntervals srt xs d rep) = cover R \<union> in_week {t. t - d * kDay \<in> cover rep}
    \<and> cover R \<subseteq> cover N - {d * kDay + kInNextDayMax ..< (d + 1) * kDay}
    \<and> cover N \<inter> {..< d * kDay} \<subseteq> cover R
    \<and> cover (filter (\<lambda>i. d * kDay \<le> iv_start i) N) \<inter> {(d + 1) * kDay ..} \<subseteq> cover R"
  using ReplaceDay_spec[OF assms(1-5)] RemoveDay_spec[OF assms(1,2), of d]
  unfolding N_def R_def removed_hours_def by blast

theorem hours_replaced_witness:
  "canonical (ReplaceDayIntervals insertion_sort [iv 3600 7200] 2 [iv 100 200])"
  using hours_replaced[OF insertion_sort_sorts, of "[iv 3600 7200]" 2 "[iv 100 200]"]
  by (simp add: week_bounded_def iv_set_def time_defs)

text \<open>
  an interval that begins before a day and ends after it loses the part after the day when
  the hours of the day are removed: the second part is looked for in the interval that has just
  been overwritten with the first. Here Monday 20:00 to Wednesday 10:00 without Tuesday is only
  Monday 20:00 to 24:00.
\<close>

theorem hours_removed_loses_end:
  "RemoveDayIntervals insertion_sort [iv 72000 208800] 1 = [iv 72000 86400]"
  by code_simp

text \<open>
  the recipients read back from the request that sets them are the ones that were sent: the
  chosen side with its types and users, for bots also the excluded users, and never an empty
  list of included chats.
\<close>

theorem recipients_roundtrip:
  fixes data :: "'u business_recipients"
  defines "m \<equiv> FromMTP_messages (ForMessagesToMTP (MakeValid data))"
    and "b \<equiv> FromMTP_bots (ForBotsToMTP data)"
  shows "m = (if br_allButExcluded data \<or> chats_empty (br_included data)
      then \<lparr>br_included = no_chats, br_excluded = br_excluded data, br_allButExcluded = True\<rparr>
      else \<lparr>br_included = br_included data, br_excluded = no_chats, br_allButExcluded = False\<rparr>)
    \<and> b = (if br_allButExcluded data
      then \<lparr>br_included = no_chats, br_excluded = br_excluded data, br_allButExcluded = True\<rparr>
      else \<lparr>br_included = br_included data,
             br_excluded = \<lparr>bc_types = {}, bc_list = bc_list (br_excluded data)\<rparr>, br_allButExcluded = False\<rparr>)"
proof
  have "m = \<lparr>br_included = (if br_allButExcluded (MakeValid data) then no_chats else br_included (MakeValid data)),
      br_excluded = (if br_allButExcluded (MakeValid data) then br_excluded (MakeValid data) else no_chats),
      br_allButExcluded = br_allButExcluded (MakeValid data)\<rparr>"
    unfolding m_def by (rule FromMTP_messages_sent) (simp_all add: ForMessagesToMTP_def Let_def)
  then show "m = (if br_allButExcluded data \<or> chats_empty (br_included data)
      then \<lparr>br_included = no_chats, br_excluded = br_excluded data, br_allButExcluded = True\<rparr>
      else \<lparr>br_included = br_included data, br_excluded = no_chats, br_allButExcluded = False\<rparr>)"
    by (simp add: MakeValid_def)
next
  let ?s = "ForBotsToMTP data"
  have r: "FromMTP_messages ?s = \<lparr>br_included = (if br_allButExcluded data then no_chats else br_included data),
      br_excluded = (if br_allButExcluded data then br_excluded data else no_chats),
      br_allButExcluded = br_allButExcluded data\<rparr>"
    by (rule FromMTP_messages_sent) (simp_all add: ForBotsToMTP_def Let_def)
  have v: "vexclude_users ?s = (if br_allButExcluded data \<or> chats_empty (br_excluded data) then None
      else Some (bc_list (br_excluded data)))"
    using RecipientsFlags_mem(3)[of data] by (simp add: vexclude_users_def ForBotsToMTP_def Let_def)
  show "b = (if br_allButExcluded data
      then \<lparr>br_included = no_chats, br_excluded = br_excluded data, br_allButExcluded = True\<rparr>
      else \<lparr>br_included = br_included data,
             br_excluded = \<lparr>bc_types = {}, bc_list = bc_list (br_excluded data)\<rparr>, br_allButExcluded = False\<rparr>)"
    unfolding b_def FromMTP_bots_def Let_def r v by (simp add: chats_empty_def)
qed

end
