(* ===== verification/TcpProtocol.thy ===== *)
theory TcpProtocol
  imports Prelude
begin

unbundle bit_operations_syntax

text \<open>
  The framing of packets on a TCP connection, from \<open>mtproto/connection_tcp.cpp\<close> (class
  \<open>TcpConnection::Protocol\<close> with its versions 0, 1 and D) and the check of unencrypted answers
  from \<open>mtproto/connection_abstract.cpp\<close>. A \<open>mtpBuffer\<close> is a list of 32-bit integers; where
  the code reads its memory as bytes, the bytes of an integer come lowest first, as on every
  platform the program is built for. A span is the list of what it covers. \<open>None\<close> is a failed
  \<open>Expects\<close>, \<open>Assert\<close> or \<open>Unexpected\<close>. Random values are arguments.
\<close>

type_synonym byte = "8 word"
type_synonym prime = "32 word"

subsection \<open>Integers as bytes\<close>

definition prime_bytes :: "prime \<Rightarrow> byte list" where
  "prime_bytes w = [ucast w, ucast (drop_bit 8 w), ucast (drop_bit 16 w), ucast (drop_bit 24 w)]"

definition bytes_prime :: "byte \<Rightarrow> byte \<Rightarrow> byte \<Rightarrow> byte \<Rightarrow> prime" where
  "bytes_prime b0 b1 b2 b3 =
     ucast b0 OR push_bit 8 (ucast b1) OR push_bit 16 (ucast b2) OR push_bit 24 (ucast b3)"

definition buffer_bytes :: "prime list \<Rightarrow> byte list" where
  "buffer_bytes buffer = concat (map prime_bytes buffer)"

text \<open>The integers in a span of bytes: what is left below four bytes is not one.\<close>

fun bytes_buffer :: "byte list \<Rightarrow> prime list" where
  "bytes_buffer (b0 # b1 # b2 # b3 # rest) = bytes_prime b0 b1 b2 b3 # bytes_buffer rest"
| "bytes_buffer _ = []"

subsection \<open>The protocols\<close>

definition kUnknownSize :: int where
  "kUnknownSize = -1"

definition kInvalidSize :: int where
  "kInvalidSize = -2"

definition kPacketSizeMax :: prime where
  "kPacketSizeMax = 0x01000000 * 4"

datatype protocol = Version0 | Version1 "byte list" | VersionD "byte list"

definition Protocol_Create :: "byte list \<Rightarrow> protocol option" where
  "Protocol_Create secret =
     (if (length secret \<ge> 21 \<and> secret ! 0 = 0xEE) \<or> (length secret = 17 \<and> secret ! 0 = 0xDD)
      then Some (VersionD (take 16 (drop 1 secret)))
      else if length secret = 16 then Some (Version1 secret)
      else if secret = [] then Some Version0
      else None)"

fun protocol_id :: "protocol \<Rightarrow> prime" where
  "protocol_id (VersionD _) = 0xDDDDDDDD"
| "protocol_id _ = 0xEFEFEFEF"

fun supportsArbitraryLength :: "protocol \<Rightarrow> bool" where
  "supportsArbitraryLength (VersionD _) = True"
| "supportsArbitraryLength _ = False"

fun prepareKey :: "(byte list \<Rightarrow> byte list) \<Rightarrow> protocol \<Rightarrow> byte list \<Rightarrow> byte list" where
  "prepareKey sha256 Version0 source = source"
| "prepareKey sha256 (Version1 secret) source = sha256 (source @ secret)"
| "prepareKey sha256 (VersionD secret) source = sha256 (source @ secret)"

definition v0_finalizePacket :: "prime list \<Rightarrow> byte list option" where
  "v0_finalizePacket buffer =
     (if \<not> (2 < length buffer \<and> length buffer < 0x1000003) then None
      else let intsSize = word_of_nat (length buffer - 2) :: prime;
               bytesSize = (length buffer - 2) * 4;
               data = buffer_bytes buffer;
               (data1, added) =
                 (if intsSize < 0x7F then (data[7 := ucast intsSize], 1)
                  else (data[4 := 0x7F, 5 := ucast (intsSize AND 0xFF),
                          6 := ucast (drop_bit 8 intsSize AND 0xFF),
                          7 := ucast (drop_bit 16 intsSize AND 0xFF)], 4))
           in Some (take (added + bytesSize) (drop (8 - added) data1)))"

text \<open>Version D adds \<open>random & 15\<close> bytes of padding, and \<open>rnd i\<close> is the i-th integer pushed back.\<close>

definition vd_finalizePacket :: "prime \<Rightarrow> (nat \<Rightarrow> prime) \<Rightarrow> prime list \<Rightarrow> byte list option" where
  "vd_finalizePacket random rnd buffer =
     (if \<not> (2 < length buffer \<and> length buffer < 0x1000003) then None
      else let padding = unat (random AND 0x0F);
               bytesSize = (length buffer - 2) * 4 + padding;
               buffer1 = buffer[1 := word_of_nat bytesSize];
               buffer2 = buffer1 @ map rnd [0..<(padding + 3) div 4]
           in Some (take (4 + bytesSize) (drop 4 (buffer_bytes buffer2))))"

fun finalizePacket :: "prime \<Rightarrow> (nat \<Rightarrow> prime) \<Rightarrow> protocol \<Rightarrow> prime list \<Rightarrow> byte list option" where
  "finalizePacket random rnd (VersionD _) buffer = vd_finalizePacket random rnd buffer"
| "finalizePacket random rnd _ buffer = v0_finalizePacket buffer"

definition v0_readPacketLength :: "byte list \<Rightarrow> int" where
  "v0_readPacketLength bytes =
     (if bytes = [] then kUnknownSize
      else let first = bytes ! 0 in
        if first = 0x7F then
          if length bytes < 4 then kUnknownSize
          else let ints = ucast (bytes ! 1) OR push_bit 8 (ucast (bytes ! 2))
                     OR push_bit 16 (ucast (bytes ! 3)) :: prime
               in if ints \<ge> 0x7F then sint (push_bit 2 ints) + 4 else kInvalidSize
        else if 0 < sint first \<and> sint first < 0x7F
          then sint (push_bit 2 (ucast first :: prime)) + 1
        else kInvalidSize)"

definition vd_readPacketLength :: "byte list \<Rightarrow> int" where
  "vd_readPacketLength bytes =
     (if length bytes < 4 then kUnknownSize
      else let v = bytes_prime (bytes ! 0) (bytes ! 1) (bytes ! 2) (bytes ! 3) + 4
           in if v \<ge> 8 \<and> v < kPacketSizeMax then sint v else kInvalidSize)"

fun readPacketLength :: "protocol \<Rightarrow> byte list \<Rightarrow> int" where
  "readPacketLength (VersionD _) bytes = vd_readPacketLength bytes"
| "readPacketLength _ bytes = v0_readPacketLength bytes"

definition readable :: "protocol \<Rightarrow> byte list \<Rightarrow> bool" where
  "readable p bytes \<longleftrightarrow> readPacketLength p bytes \<noteq> kUnknownSize
     \<and> readPacketLength p bytes \<noteq> kInvalidSize \<and> readPacketLength p bytes \<le> int (length bytes)"

fun sizeLength :: "protocol \<Rightarrow> byte list \<Rightarrow> nat" where
  "sizeLength (VersionD _) bytes = 4"
| "sizeLength _ bytes = (if bytes ! 0 = 0x7F then 4 else 1)"

definition readPacket :: "protocol \<Rightarrow> byte list \<Rightarrow> byte list option" where
  "readPacket p bytes =
     (if readable p bytes
      then Some (take (nat (readPacketLength p bytes) - sizeLength p bytes) (drop (sizeLength p bytes) bytes))
      else None)"

text \<open>\<open>TcpConnection::parsePacket\<close>: an answer below three integers keeps only its first one.\<close>

definition parsePacket :: "protocol \<Rightarrow> byte list \<Rightarrow> prime list option" where
  "parsePacket p bytes =
     (case readPacket p bytes of
        None \<Rightarrow> None
      | Some packet \<Rightarrow>
          (case bytes_buffer packet of
             [] \<Rightarrow> None
           | ints0 # rest \<Rightarrow> Some (if length (ints0 # rest) < 3 then [ints0] else ints0 # rest)))"

subsection \<open>Answers that are not encrypted\<close>

text \<open>
  The result is the span as the position and the number of integers it claims, \<open>None\<close> the empty
  span of a bad answer.
\<close>

definition parseNotSecureResponse :: "prime list \<Rightarrow> (nat \<times> nat) option" where
  "parseNotSecureResponse buffer =
     (let len = length buffer in
      if len < 6 then None
      else if buffer ! 0 \<noteq> 0 \<or> buffer ! 1 \<noteq> 0 \<or> buffer ! 2 AND 0x03 \<noteq> 1 then None
      else let answerLen = buffer ! 4 in
        if answerLen < 1 \<or> unat answerLen > (len - 5) * 4 then None
        else Some (5, unat answerLen))"

subsection \<open>Bytes of integers\<close>

lemma length_prime_bytes [simp]: "length (prime_bytes w) = 4"
  by (simp add: prime_bytes_def)

lemma bytes_prime_bytes: "bytes_prime (ucast w) (ucast (drop_bit 8 w)) (ucast (drop_bit 16 w)) (ucast (drop_bit 24 w)) = w"
proof (rule bit_word_eqI)
  fix i assume i: "i < LENGTH(32)"
  then show "bit (bytes_prime (ucast w) (ucast (drop_bit 8 w)) (ucast (drop_bit 16 w)) (ucast (drop_bit 24 w))) i = bit w i"
    by (cases "i < 8"; cases "i < 16"; cases "i < 24")
      (simp_all add: bytes_prime_def bit_or_iff bit_push_bit_iff bit_ucast_iff bit_drop_bit_eq, auto)
qed

lemma length_buffer_bytes [simp]: "length (buffer_bytes ps) = 4 * length ps"
  by (induction ps) (auto simp: buffer_bytes_def)

lemma buffer_bytes_Cons: "buffer_bytes (p # ps) = prime_bytes p @ buffer_bytes ps"
  by (simp add: buffer_bytes_def)

lemma buffer_bytes_append: "buffer_bytes (ps @ qs) = buffer_bytes ps @ buffer_bytes qs"
  by (simp add: buffer_bytes_def)

lemma bytes_buffer_prime: "bytes_buffer (prime_bytes p @ rest) = p # bytes_buffer rest"
  by (simp add: prime_bytes_def bytes_prime_bytes)

lemma bytes_buffer_append: "bytes_buffer (buffer_bytes ps @ rest) = ps @ bytes_buffer rest"
  by (induction ps) (simp_all add: buffer_bytes_Cons bytes_buffer_prime, simp add: buffer_bytes_def)

lemma bytes_buffer_short: "length rest < 4 \<Longrightarrow> bytes_buffer rest = []"
  by (induction rest rule: bytes_buffer.induct) auto

lemma bytes_buffer_take: "bytes_buffer (take n (buffer_bytes ps)) = take (n div 4) ps"
proof (induction ps arbitrary: n)
  case Nil then show ?case by (simp add: buffer_bytes_def)
next
  case (Cons p ps)
  show ?case
  proof (cases "n < 4")
    case True
    then show ?thesis by (simp add: buffer_bytes_Cons bytes_buffer_short)
  next
    case False
    then have "n div 4 = Suc ((n - 4) div 4)" by (simp add: div_if)
    with False Cons show ?thesis by (simp add: buffer_bytes_Cons bytes_buffer_prime)
  qed
qed

subsection \<open>What a packet looks like\<close>

definition v0_header :: "nat \<Rightarrow> byte list" where
  "v0_header n = (if n < 0x7F then [word_of_nat n]
     else [0x7F, word_of_nat n, word_of_nat (n div 2 ^ 8), word_of_nat (n div 2 ^ 16)])"

lemma two_primes:
  assumes "2 < length buffer"
  obtains a b data where "buffer = a # b # data" "data \<noteq> []" "drop 2 buffer = data"
  using assms by (cases buffer rule: remdups_adj.cases) auto

lemma ucast_of_nat_shift:
  "n < 2 ^ 32 \<Longrightarrow> (ucast (drop_bit k (word_of_nat n :: prime) AND 0xFF) :: byte) = word_of_nat (n div 2 ^ k)"
proof -
  assume n: "n < 2 ^ 32"
  show ?thesis
  proof (rule bit_word_eqI)
    fix i assume "i < LENGTH(8)"
    then have i: "i < 8" by simp
    have ff: "(0xFF :: prime) = mask 8" by (simp add: mask_eq_exp_minus_1)
    show "bit (ucast (drop_bit k (word_of_nat n :: prime) AND 0xFF) :: byte) i = bit (word_of_nat (n div 2 ^ k) :: byte) i"
    proof (cases "k + i < 32")
      case True
      then show ?thesis using i
        by (simp add: ff bit_ucast_iff bit_and_iff bit_mask_iff bit_drop_bit_eq bit_of_nat_iff drop_bit_eq_div[symmetric])
    next
      case False
      then have "n < 2 ^ (k + i)" using n by (meson le_less_trans not_le order_less_le_trans power_increasing_iff one_less_numeral_iff semiring_norm(76))
      then have "\<not> bit n (k + i)" using bit_nat_iff by (metis bit_take_bit_iff less_irrefl take_bit_nat_eq_self)
      then show ?thesis using i False
        by (simp add: ff bit_ucast_iff bit_and_iff bit_mask_iff bit_drop_bit_eq bit_of_nat_iff drop_bit_eq_div[symmetric])
    qed
  qed
qed

lemma eight_bytes:
  fixes c0 :: byte
  shows "drop 7 ((c0 # c1 # c2 # c3 # c4 # c5 # c6 # c7 # rest)[7 := x]) = x # rest"
    and "drop 4 ((c0 # c1 # c2 # c3 # c4 # c5 # c6 # c7 # rest)[4 := x4, 5 := x5, 6 := x6, 7 := x7])
      = x4 # x5 # x6 # x7 # rest"
  by (simp_all add: numeral_eq_Suc)

lemma v0_finalizePacket_eq:
  assumes "2 < length buffer" "length buffer < 0x1000003"
  shows "v0_finalizePacket buffer = Some (v0_header (length buffer - 2) @ buffer_bytes (drop 2 buffer))"
proof -
  obtain a b data where b: "buffer = a # b # data" "drop 2 buffer = data"
    using two_primes[OF assms(1)] by metis
  define n where "n = length data"
  have n: "length buffer - 2 = n" "n < 2 ^ 32" "n < 0x1000001" using b assms by (auto simp: n_def)
  have u: "unat (word_of_nat n :: prime) = n" using n(2) by (simp add: unsigned_of_nat take_bit_nat_eq_self)
  have small: "(word_of_nat n :: prime) < 0x7F \<longleftrightarrow> n < 0x7F" by (simp add: word_less_nat_alt u)
  have uc: "(ucast (word_of_nat n :: prime) :: byte) = word_of_nat n"
    by (rule bit_word_eqI) (simp add: bit_ucast_iff bit_of_nat_iff)
  have uc0: "(ucast ((word_of_nat n :: prime) AND 0xFF) :: byte) = word_of_nat n"
    using ucast_of_nat_shift[OF n(2), of 0] by simp
  have ld: "length data = n" by (simp add: n_def)
  have bb: "buffer_bytes buffer = ucast a # ucast (drop_bit 8 a) # ucast (drop_bit 16 a) # ucast (drop_bit 24 a)
      # ucast b # ucast (drop_bit 8 b) # ucast (drop_bit 16 b) # ucast (drop_bit 24 b) # buffer_bytes data"
    by (simp add: b(1) buffer_bytes_Cons prime_bytes_def)
  have "\<not> \<not> (2 < length buffer \<and> length buffer < 0x1000003)" using assms by simp
  then show ?thesis
    by (simp only: v0_finalizePacket_def if_False Let_def n(1) small bb)
      (simp add: eight_bytes uc uc0 ucast_of_nat_shift[OF n(2)] v0_header_def ld b(2))
qed

lemma v0_header_length: "length (v0_header n) = (if n < 0x7F then 1 else 4)"
  by (simp add: v0_header_def)

lemma ucast_ints: "n < 2 ^ 24 \<Longrightarrow> ucast (word_of_nat n :: byte) OR push_bit 8 (ucast (word_of_nat (n div 2 ^ 8) :: byte))
    OR push_bit 16 (ucast (word_of_nat (n div 2 ^ 16) :: byte)) = (word_of_nat n :: prime)"
proof (rule bit_word_eqI)
  fix i assume n: "n < 2 ^ 24" and i: "i < LENGTH(32)"
  have high: "\<not> bit n i" if "24 \<le> i"
  proof -
    have "n < 2 ^ i" using n that by (meson le_less_trans not_le order_less_le_trans power_increasing_iff one_less_numeral_iff semiring_norm(76))
    then show ?thesis by (metis bit_take_bit_iff less_irrefl take_bit_nat_eq_self)
  qed
  have d: "n div 256 = drop_bit 8 n" "n div 65536 = drop_bit 16 n" by (simp_all add: drop_bit_eq_div)
  show "bit (ucast (word_of_nat n :: byte) OR push_bit 8 (ucast (word_of_nat (n div 2 ^ 8) :: byte))
      OR push_bit 16 (ucast (word_of_nat (n div 2 ^ 16) :: byte)) :: prime) i = bit (word_of_nat n :: prime) i"
    using i high
    by (cases "i < 8"; cases "i < 16"; cases "i < 24")
      (simp_all add: bit_or_iff bit_push_bit_iff bit_ucast_iff bit_of_nat_iff d bit_drop_bit_eq, auto)
qed

lemma sint_shifted: "n < 2 ^ 24 \<Longrightarrow> sint (push_bit 2 (word_of_nat n :: prime)) = 4 * int n"
proof -
  assume n: "n < 2 ^ 24"
  have p: "push_bit 2 (word_of_nat n :: prime) = word_of_nat (4 * n)"
    by (simp add: push_bit_eq_mult)
  have "sint (word_of_nat (4 * n) :: prime) = int (4 * n)"
    using n by (simp only: signed_of_nat) (simp add: signed_take_bit_int_eq_self)
  then show ?thesis using p by simp
qed

lemma unat_numeral_127: "unat (0x7F :: byte) = 127"
  by simp

lemma v0_length_of_header:
  assumes "0 < n" "n < 2 ^ 24"
  shows "v0_readPacketLength (v0_header n @ rest) = int (length (v0_header n)) + 4 * int n"
proof (cases "n < 0x7F")
  case True
  then have u: "unat (word_of_nat n :: byte) = n" and s: "sint (word_of_nat n :: byte) = int n"
    by (simp_all add: signed_of_nat signed_take_bit_int_eq_self unsigned_of_nat take_bit_nat_eq_self)
  then have "word_of_nat n \<noteq> (0x7F :: byte)" using True by (metis less_irrefl unat_numeral_127)
  moreover have "(ucast (word_of_nat n :: byte) :: prime) = word_of_nat n"
    using True by (simp add: unsigned_of_nat take_bit_nat_eq_self)
  ultimately show ?thesis using True assms s sint_shifted[OF assms(2)]
    by (simp add: v0_readPacketLength_def v0_header_def)
next
  case False
  have "0x7F \<le> (word_of_nat n :: prime)" using False assms
    by (simp add: word_le_nat_alt unsigned_of_nat take_bit_nat_eq_self)
  then show ?thesis using False assms ucast_ints[OF assms(2)] sint_shifted[OF assms(2)]
    by (simp add: v0_readPacketLength_def v0_header_def)
qed

lemma vd_finalizePacket_eq:
  assumes "2 < length buffer" "length buffer < 0x1000003"
  shows "vd_finalizePacket random rnd buffer = (let padding = unat (random AND 0x0F) in
    Some (prime_bytes (word_of_nat (4 * (length buffer - 2) + padding)) @ buffer_bytes (drop 2 buffer)
      @ take padding (buffer_bytes (map rnd [0..<(padding + 3) div 4]))))"
proof -
  obtain a b data where b: "buffer = a # b # data" "drop 2 buffer = data"
    using two_primes[OF assms(1)] by metis
  have "\<not> \<not> (2 < length buffer \<and> length buffer < 0x1000003)" using assms by simp
  then show ?thesis
    by (simp only: vd_finalizePacket_def if_False Let_def b(1))
      (simp add: buffer_bytes_Cons buffer_bytes_append mult.commute add.commute)
qed

lemma vd_length_of_prime:
  assumes "m + 4 < 2 ^ 32"
  shows "vd_readPacketLength (prime_bytes (word_of_nat m) @ rest)
    = (if 4 \<le> m \<and> m + 4 < 2 ^ 26 then int m + 4 else kInvalidSize)"
proof -
  have v: "bytes_prime ((prime_bytes w @ rest) ! 0) ((prime_bytes w @ rest) ! 1)
      ((prime_bytes w @ rest) ! 2) ((prime_bytes w @ rest) ! 3) = w" for w
    by (simp add: prime_bytes_def bytes_prime_bytes)
  have w: "word_of_nat m + 4 = (word_of_nat (m + 4) :: prime)" by simp
  have u: "unat (word_of_nat (m + 4) :: prime) = m + 4"
    using assms by (simp only: unsigned_of_nat take_bit_nat_eq_self) (simp add: take_bit_nat_eq_self)
  have c: "(word_of_nat (m + 4) :: prime) \<ge> 8 \<longleftrightarrow> 4 \<le> m"
      "(word_of_nat (m + 4) :: prime) < kPacketSizeMax \<longleftrightarrow> m + 4 < 2 ^ 26"
    by (simp_all only: word_le_nat_alt word_less_nat_alt u kPacketSizeMax_def) simp_all
  have s: "m + 4 < 2 ^ 26 \<Longrightarrow> sint (word_of_nat (m + 4) :: prime) = int m + 4"
    by (simp only: signed_of_nat) (simp add: signed_take_bit_int_eq_self)
  have l: "\<not> length (prime_bytes (word_of_nat m) @ rest) < 4" by simp
  show ?thesis using s by (simp only: vd_readPacketLength_def l if_False Let_def v w c)
    (auto simp: w[symmetric] simp del: w)
qed

text \<open>Which packets the reader accepts, and the integers of padding it takes for data.\<close>

fun packet_fits :: "protocol \<Rightarrow> prime \<Rightarrow> nat \<Rightarrow> bool" where
  "packet_fits (VersionD _) random n \<longleftrightarrow> 4 * n + unat (random AND 0x0F) + 4 < 2 ^ 26"
| "packet_fits _ random n \<longleftrightarrow> n < 2 ^ 24"

fun padding_ints :: "protocol \<Rightarrow> prime \<Rightarrow> (nat \<Rightarrow> prime) \<Rightarrow> prime list" where
  "padding_ints (VersionD _) random rnd = map rnd [0..<unat (random AND 0x0F) div 4]"
| "padding_ints _ random rnd = []"

lemma parsePacket_of:
  assumes "readPacketLength p bytes = int n" "n \<le> length bytes" "0 < n"
    "bytes_buffer (take (n - sizeLength p bytes) (drop (sizeLength p bytes) bytes)) = ints" "ints \<noteq> []"
  shows "parsePacket p bytes = Some (if length ints < 3 then [hd ints] else ints)"
  using assms by (auto simp: parsePacket_def readPacket_def readable_def kUnknownSize_def kInvalidSize_def split: list.splits)

lemma v0_header_start: "0 < n \<Longrightarrow> n < 2 ^ 24 \<Longrightarrow> (v0_header n @ rest) ! 0 = 0x7F \<longleftrightarrow> \<not> n < 0x7F"
proof -
  assume "0 < n" "n < 2 ^ 24"
  have "word_of_nat n \<noteq> (0x7F :: byte)" if "n < 0x7F"
  proof -
    have "unat (word_of_nat n :: byte) = n" using that by (simp add: unsigned_of_nat take_bit_nat_eq_self)
    then show ?thesis using that by (metis less_irrefl unat_numeral_127)
  qed
  then show ?thesis by (simp add: v0_header_def)
qed

lemma v0_packet_read:
  assumes "data \<noteq> []" "length data < 2 ^ 24" "p = Version0 \<or> p = Version1 s"
    and "bytes = v0_header (length data) @ buffer_bytes data"
  shows "readPacketLength p (bytes @ rest) = int (length bytes)"
    and "parsePacket p (bytes @ rest) = Some (if length data < 3 then [hd data] else data)"
proof -
  have n: "0 < length data" using assms(1) by simp
  have p: "readPacketLength p = v0_readPacketLength" using assms(3) by (auto simp: fun_eq_iff)
  show l: "readPacketLength p (bytes @ rest) = int (length bytes)"
    using v0_length_of_header[OF n assms(2)] by (simp add: p assms(4))
  have "sizeLength p (bytes @ rest) = length (v0_header (length data))"
    using assms(3) v0_header_start[OF n assms(2)] by (auto simp: assms(4) v0_header_length)
  then have "bytes_buffer (take (length bytes - sizeLength p (bytes @ rest)) (drop (sizeLength p (bytes @ rest)) (bytes @ rest))) = data"
    using bytes_buffer_append[of data "[]"] by (simp add: assms(4))
  with parsePacket_of[OF l] n assms(1) show "parsePacket p (bytes @ rest) = Some (if length data < 3 then [hd data] else data)"
    by (simp add: assms(4))
qed

lemma padding_small: "unat (random AND 0x0F :: prime) < 16"
proof -
  have "random AND 0x0F \<le> (0x0F :: prime)" by (simp add: word_and_le1)
  then have "unat (random AND 0x0F) \<le> unat (0x0F :: prime)" by (simp only: word_le_nat_alt)
  then show ?thesis by simp
qed

lemma vd_packet_read:
  assumes "data \<noteq> []" "p = VersionD s" "padding = unat (random AND 0x0F :: prime)"
    and "4 * length data + padding + 4 < 2 ^ 32"
    and "bytes = prime_bytes (word_of_nat (4 * length data + padding)) @ buffer_bytes data
      @ take padding (buffer_bytes (map rnd [0..<(padding + 3) div 4]))"
    and "ints = data @ map rnd [0..<padding div 4]"
  shows "readPacketLength p (bytes @ rest)
      = (if 4 * length data + padding + 4 < 2 ^ 26 then int (length bytes) else kInvalidSize)"
    and "4 * length data + padding + 4 < 2 ^ 26
      \<Longrightarrow> parsePacket p (bytes @ rest) = Some (if length ints < 3 then [hd ints] else ints)"
proof -
  have four: "4 \<le> 4 * length data + padding" using assms(1) by (cases data) auto
  have pad: "length (take padding (buffer_bytes (map rnd [0..<(padding + 3) div 4]))) = padding"
    by (simp add: min_def) arith
  have lb: "length bytes = 4 + 4 * length data + padding" using pad by (simp add: assms(5))
  show l: "readPacketLength p (bytes @ rest)
      = (if 4 * length data + padding + 4 < 2 ^ 26 then int (length bytes) else kInvalidSize)"
    using vd_length_of_prime[OF assms(4)] four by (simp add: assms(2,5) lb)
  have "drop 4 bytes = buffer_bytes data @ take padding (buffer_bytes (map rnd [0..<(padding + 3) div 4]))"
    by (simp add: assms(5))
  moreover have "take (padding div 4) [0..<(padding + 3) div 4] = [0..<padding div 4]"
    by (simp add: take_upt)
  ultimately have b: "bytes_buffer (drop 4 bytes) = ints"
    by (simp add: bytes_buffer_append bytes_buffer_take take_map assms(6))
  have "take (length bytes - 4) (drop 4 (bytes @ rest)) = drop 4 bytes" by (simp add: lb)
  with b have "bytes_buffer (take (length bytes - sizeLength p (bytes @ rest)) (drop (sizeLength p (bytes @ rest)) (bytes @ rest))) = ints"
    by (simp add: assms(2))
  moreover assume "4 * length data + padding + 4 < 2 ^ 26"
  ultimately show "parsePacket p (bytes @ rest) = Some (if length ints < 3 then [hd ints] else ints)"
    using parsePacket_of[of p "bytes @ rest" "length bytes" ints] l lb assms(1,6) by simp
qed

lemma finalizePacket_parts:
  assumes "finalizePacket random rnd p buffer = Some bytes"
  shows "drop 2 buffer \<noteq> []" "length (drop 2 buffer) < 0x1000001"
    and "case p of VersionD s \<Rightarrow> bytes = prime_bytes (word_of_nat (4 * length (drop 2 buffer) + unat (random AND 0x0F)))
        @ buffer_bytes (drop 2 buffer)
        @ take (unat (random AND 0x0F)) (buffer_bytes (map rnd [0..<(unat (random AND 0x0F) + 3) div 4]))
      | _ \<Rightarrow> bytes = v0_header (length (drop 2 buffer)) @ buffer_bytes (drop 2 buffer)"
proof -
  have size: "2 < length buffer \<and> length buffer < 0x1000003"
    using assms by (cases p) (auto simp: v0_finalizePacket_def vd_finalizePacket_def split: if_splits)
  then show "drop 2 buffer \<noteq> []" "length (drop 2 buffer) < 0x1000001" by auto
  show "case p of VersionD s \<Rightarrow> bytes = prime_bytes (word_of_nat (4 * length (drop 2 buffer) + unat (random AND 0x0F)))
        @ buffer_bytes (drop 2 buffer)
        @ take (unat (random AND 0x0F)) (buffer_bytes (map rnd [0..<(unat (random AND 0x0F) + 3) div 4]))
      | _ \<Rightarrow> bytes = v0_header (length (drop 2 buffer)) @ buffer_bytes (drop 2 buffer)"
    using assms vd_finalizePacket_eq[of buffer] v0_finalizePacket_eq[of buffer] size
    by (cases p) (simp_all add: Let_def)
qed

lemma v0_largest_packet:
  assumes "\<not> n < 2 ^ 24" "n < 0x1000001"
  shows "v0_readPacketLength (v0_header n @ rest) = kInvalidSize"
proof -
  have n: "n = 2 ^ 24" using assms by simp
  have "(word_of_nat (2 ^ 24) :: byte) = 0" "(word_of_nat (2 ^ 24 div 2 ^ 8) :: byte) = 0"
    "(word_of_nat (2 ^ 24 div 2 ^ 16) :: byte) = 0" by simp_all
  then show ?thesis by (simp add: n v0_header_def v0_readPacketLength_def)
qed

lemma packet_read_back:
  assumes "finalizePacket random rnd p buffer = Some bytes"
  shows "readPacketLength p (bytes @ rest)
      = (if packet_fits p random (length (drop 2 buffer)) then int (length bytes) else kInvalidSize)
    \<and> (packet_fits p random (length (drop 2 buffer)) \<longrightarrow>
      parsePacket p (bytes @ rest) = Some (let ints = drop 2 buffer @ padding_ints p random rnd
        in if length ints < 3 then [hd ints] else ints))"
proof -
  let ?data = "drop 2 buffer"
  note parts = finalizePacket_parts[OF assms]
  show ?thesis
  proof (cases p)
    case (VersionD s)
    have bd: "bytes = prime_bytes (word_of_nat (4 * length ?data + unat (random AND 0x0F))) @ buffer_bytes ?data
        @ take (unat (random AND 0x0F)) (buffer_bytes (map rnd [0..<(unat (random AND 0x0F) + 3) div 4]))"
      using parts(3) by (simp only: VersionD protocol.case)
    have lt: "4 * length ?data + unat (random AND 0x0F) + 4 < 2 ^ 32"
      using parts(2) padding_small[of random] by simp
    show ?thesis using vd_packet_read[OF parts(1) VersionD refl lt bd refl, of rest]
      by (simp only: VersionD packet_fits.simps padding_ints.simps Let_def simp_thms) blast
  next
    case Version0
    show ?thesis using parts v0_packet_read[OF parts(1), of p] v0_largest_packet
      by (cases "length ?data < 2 ^ 24") (auto simp: Version0 Let_def)
  next
    case (Version1 s)
    show ?thesis using parts v0_packet_read[OF parts(1), of p s] v0_largest_packet
      by (cases "length ?data < 2 ^ 24") (auto simp: Version1 Let_def)
  qed
qed

subsection \<open>The interface of a protocol\<close>

text \<open>
  What the connection relies on: the length is unknown only for fewer than four bytes, does not
  change when more bytes come and is positive when it is neither unknown nor invalid; a whole
  packet can be parsed.
\<close>

locale packet_protocol =
  fixes len :: "byte list \<Rightarrow> int" and parse :: "byte list \<Rightarrow> prime list option"
  assumes len_Nil: "len [] = kUnknownSize"
    and len_stable: "len bs \<noteq> kUnknownSize \<Longrightarrow> len (bs @ cs) = len bs"
    and len_known: "4 \<le> length bs \<Longrightarrow> len bs \<noteq> kUnknownSize"
    and len_positive: "len bs \<noteq> kUnknownSize \<Longrightarrow> len bs \<noteq> kInvalidSize \<Longrightarrow> 0 < len bs"
    and parse_whole: "len bs = int n \<Longrightarrow> 0 < n \<Longrightarrow> n \<le> length bs \<Longrightarrow> parse (take n bs) \<noteq> None"

lemma v0_length_stable: "v0_readPacketLength bs \<noteq> kUnknownSize \<Longrightarrow> v0_readPacketLength (bs @ cs) = v0_readPacketLength bs"
  by (auto simp: v0_readPacketLength_def Let_def nth_append split: if_splits)

lemma v0_length_cases:
  "v0_readPacketLength bs = kUnknownSize \<and> length bs < 4 \<or> v0_readPacketLength bs = kInvalidSize
    \<or> (bs \<noteq> [] \<and> bs ! 0 = 0x7F \<and> v0_readPacketLength bs \<ge> 4 * 127 + 4)
    \<or> (bs \<noteq> [] \<and> bs ! 0 \<noteq> 0x7F \<and> v0_readPacketLength bs \<ge> 5)"
proof -
  have three: "\<exists>n. ucast x OR push_bit 8 (ucast y) OR push_bit 16 (ucast z) = (word_of_nat n :: prime) \<and> n < 2 ^ 24"
    for x y z :: byte
  proof -
    define n where "n = unat x + 256 * (unat y + 256 * unat z)"
    have lt: "unat x < 256" "unat y < 256" "unat z < 256"
      using unsigned_less[of x] unsigned_less[of y] unsigned_less[of z] by simp_all
    have d: "n div 2 ^ 8 = unat y + 256 * unat z" "n div 2 ^ 16 = unat z"
      using lt by (simp_all add: n_def)
    have c: "(256 :: byte) = 0" "(65536 :: byte) = 0" by simp_all
    have c0: "256 * w = (0 :: byte)" "65536 * w = (0 :: byte)" for w by (simp_all only: c mult_zero_left)
    have "(word_of_nat n :: byte) = x" "(word_of_nat (n div 2 ^ 8) :: byte) = y" "(word_of_nat (n div 2 ^ 16) :: byte) = z"
      by (simp_all only: d) (simp_all add: n_def c0)
    moreover have "n < 2 ^ 24" using lt by (simp add: n_def)
    ultimately show ?thesis using ucast_ints[of n] by metis
  qed
  have small: "\<exists>n. sint b = int n \<and> (ucast b :: prime) = word_of_nat n \<and> 0 < n \<and> n < 2 ^ 24"
    if "0 < sint b" for b :: byte
  proof -
    have "uint b < 2 ^ 8" using uint_lt2p[of b] by simp
    moreover from this have "sint b = uint b" using that
      by (auto simp: sint_uint signed_take_bit_eq_take_bit_minus take_bit_int_eq_self split: if_splits)
    moreover have "unat b < 256" using unsigned_less[of b] by simp
    ultimately have "sint b = int (unat b)" "unat b < 2 ^ 24" by simp_all
    moreover have "(ucast b :: prime) = word_of_nat (unat b)" by simp
    ultimately show ?thesis using that by (metis of_nat_0_less_iff)
  qed
  show ?thesis
  proof (cases "bs = [] \<or> (bs ! 0 = 0x7F \<and> length bs < 4)")
    case True
    then show ?thesis by (auto simp: v0_readPacketLength_def)
  next
    case False
    obtain n where n: "ucast (bs ! 1) OR push_bit 8 (ucast (bs ! 2)) OR push_bit 16 (ucast (bs ! 3)) = (word_of_nat n :: prime)"
      "n < 2 ^ 24" using three by metis
    have "(0x7F :: prime) \<le> word_of_nat n \<longleftrightarrow> 127 \<le> n"
      using n(2) by (simp add: word_le_nat_alt unsigned_of_nat take_bit_nat_eq_self)
    then show ?thesis using False n sint_shifted[OF n(2)] small[of "bs ! 0"] sint_shifted
      by (auto simp: v0_readPacketLength_def Let_def)
  qed
qed

lemma vd_length_cases:
  "vd_readPacketLength bs = kUnknownSize \<and> length bs < 4 \<or> vd_readPacketLength bs = kInvalidSize
    \<or> 4 \<le> length bs \<and> 8 \<le> vd_readPacketLength bs"
proof (cases "length bs < 4")
  case True
  then show ?thesis by (simp add: vd_readPacketLength_def)
next
  case False
  let ?v = "bytes_prime (bs ! 0) (bs ! 1) (bs ! 2) (bs ! 3) + 4"
  have "8 \<le> sint ?v" if "8 \<le> ?v" "?v < kPacketSizeMax"
  proof -
    have "uint ?v < 2 ^ 26" "8 \<le> uint ?v"
      using that by (simp_all add: word_less_def word_le_def kPacketSizeMax_def)
    then show ?thesis by (simp add: sint_uint signed_take_bit_int_eq_self)
  qed
  with False show ?thesis by (auto simp: vd_readPacketLength_def Let_def)
qed

lemma parsePacket_whole:
  assumes l: "0 < readPacketLength p bs" "readPacketLength p bs \<le> int (length bs)"
  shows "parsePacket p bs \<noteq> None"
proof -
  have sz: "kUnknownSize \<noteq> kInvalidSize" "\<not> 0 < kUnknownSize" "\<not> 0 < kInvalidSize"
    by (simp_all add: kUnknownSize_def kInvalidSize_def)
  have "int (sizeLength p bs) + 4 \<le> readPacketLength p bs"
    using l v0_length_cases[of bs] vd_length_cases[of bs] sz by (cases p) auto
  then have "4 \<le> length (take (nat (readPacketLength p bs) - sizeLength p bs) (drop (sizeLength p bs) bs))"
    using l(2) by simp
  then have "bytes_buffer (take (nat (readPacketLength p bs) - sizeLength p bs) (drop (sizeLength p bs) bs)) \<noteq> []"
    by (cases "take (nat (readPacketLength p bs) - sizeLength p bs) (drop (sizeLength p bs) bs)" rule: bytes_buffer.cases) auto
  then show ?thesis using l
    by (auto simp: parsePacket_def readPacket_def readable_def kUnknownSize_def kInvalidSize_def split: list.splits)
qed

interpretation tcp: packet_protocol "readPacketLength p" "parsePacket p" for p
proof
  fix bs cs n
  have sz: "kUnknownSize \<noteq> kInvalidSize" "\<not> 0 < kUnknownSize" "\<not> 0 < kInvalidSize"
    by (simp_all add: kUnknownSize_def kInvalidSize_def)
  show "readPacketLength p [] = kUnknownSize"
    by (cases p) (simp_all add: v0_readPacketLength_def vd_readPacketLength_def)
  show stable: "readPacketLength p bs \<noteq> kUnknownSize \<Longrightarrow> readPacketLength p (bs @ cs) = readPacketLength p bs" for bs cs
    by (cases p) (auto simp: v0_length_stable vd_readPacketLength_def nth_append split: if_splits)
  show known: "4 \<le> length bs \<Longrightarrow> readPacketLength p bs \<noteq> kUnknownSize" for bs
    using v0_length_cases[of bs] vd_length_cases[of bs] sz by (cases p) auto
  show "readPacketLength p bs \<noteq> kUnknownSize \<Longrightarrow> readPacketLength p bs \<noteq> kInvalidSize \<Longrightarrow> 0 < readPacketLength p bs"
    using v0_length_cases[of bs] vd_length_cases[of bs] by (cases p) auto
  show "parsePacket p (take n bs) \<noteq> None" if l: "readPacketLength p bs = int n" "0 < n" "n \<le> length bs"
  proof -
    have "4 \<le> readPacketLength p bs"
      using l v0_length_cases[of bs] vd_length_cases[of bs] sz by (cases p) auto
    then have "readPacketLength p (take n bs) = readPacketLength p bs"
      using stable[OF known, of "take n bs" "drop n bs"] l by simp
    then show ?thesis using l by (intro parsePacket_whole) simp_all
  qed
qed

text \<open>
  C22: A packet made of a buffer is read back by the same version of the protocol, whatever
  follows it in the stream: its length is the length of the whole packet and its content the
  buffer's integers, of which an answer below three integers keeps the first. The integers of
  the padding of version D come after the data. The largest buffers the writer allows cannot
  be read: version 0 writes the length \<open>2 ^ 24\<close> as zero, and version D refuses packets of
  64 megabytes, padding included.
\<close>

theorem packet_roundtrip:
  assumes "finalizePacket random rnd p buffer = Some bytes"
  shows "readPacketLength p (bytes @ rest)
      = (if packet_fits p random (length (drop 2 buffer)) then int (length bytes) else kInvalidSize)
    \<and> (packet_fits p random (length (drop 2 buffer)) \<longrightarrow>
      parsePacket p (bytes @ rest) = Some (let ints = drop 2 buffer @ padding_ints p random rnd
        in if length ints < 3 then [hd ints] else ints))"
  by (rule packet_read_back[OF assms])

theorem packet_roundtrip_witness:
  "let bytes = v0_header 3 @ buffer_bytes [1, 2, 3] in
     readPacketLength Version0 (bytes @ [5]) = 13 \<and> parsePacket Version0 (bytes @ [5]) = Some [1, 2, 3]"
proof -
  have "finalizePacket 0 (\<lambda>_. 0) Version0 [0, 0, 1, 2, 3] = Some (v0_header 3 @ buffer_bytes [1, 2, 3])"
    using v0_finalizePacket_eq[of "[0, 0, 1, 2, 3]"] by (simp add: numeral_3_eq_3)
  from packet_roundtrip[OF this, of "[5]"] show ?thesis
    by (simp add: Let_def v0_header_length)
qed

lemma not_secure_answer:
  assumes "body \<noteq> []" "claimed < 2 ^ 32" "msg_id AND 0x03 = 1"
  shows "parseNotSecureResponse ([0, 0, msg_id, msg_id_high, word_of_nat claimed] @ body)
      = (if 1 \<le> claimed \<and> claimed \<le> 4 * length body then Some (5, claimed) else None)"
proof -
  have u: "unat (word_of_nat claimed :: prime) = claimed"
    using assms(2) by (simp only: unsigned_of_nat) (simp add: take_bit_nat_eq_self)
  have l: "(word_of_nat claimed :: prime) < 1 \<longleftrightarrow> claimed = 0"
    using u by (simp only: word_less_nat_alt) simp
  show ?thesis using assms(1,3) l u
    by (simp only: parseNotSecureResponse_def) (auto simp: Let_def nth_append)
qed

text \<open>
  An unencrypted answer of \<open>n\<close> integers, its length given in bytes as the protocol has it, is
  taken as a span of \<open>4 n\<close> integers: three quarters of the span lie outside of the buffer. An
  answer that claims more bytes than the buffer has is refused.
\<close>

theorem not_secure_span:
  assumes "body \<noteq> []" "4 * length body < claimed" "claimed < 2 ^ 32" "msg_id AND 0x03 = 1"
  shows "parseNotSecureResponse ([0, 0, msg_id, msg_id_high, word_of_nat (4 * length body)] @ body)
      = Some (5, 4 * length body)
    \<and> parseNotSecureResponse ([0, 0, msg_id, msg_id_high, word_of_nat claimed] @ body) = None"
proof -
  have "4 * length body < 2 ^ 32" "1 \<le> 4 * length body" using assms(1-3) by (simp_all add: Suc_leI)
  then show ?thesis
    using not_secure_answer[OF assms(1) _ assms(4), of "4 * length body" msg_id_high]
      not_secure_answer[OF assms(1,3,4), of msg_id_high] assms(2) by simp
qed

theorem not_secure_span_witness:
  "parseNotSecureResponse ([0, 0, 1, 0, word_of_nat (4 * length [7 :: prime])] @ [7]) = Some (5, 4 * length [7 :: prime])"
  using not_secure_span[of "[7]" 5 1 0] by simp

end
