(* ===== verification/TcpConnection.thy ===== *)
theory TcpConnection
  imports TcpProtocol
begin

text \<open>
  Reading packets from a TCP connection, from \<open>mtproto/connection_tcp.{h,cpp}\<close>:
  \<open>socketRead\<close> with its two buffers, \<open>ensureAvailableInBuffer\<close>, \<open>socketPacket\<close>,
  and the start of a connection in \<open>prepareConnectionStartPrefix\<close>. A span into a buffer is the
  list of its bytes; it stays valid in \<open>socketRead\<close> when the buffer's contents move, because less
  than \<open>kMinPacketBuffer\<close> bytes move from the end of the buffer to its start. The socket is the
  list of what \<open>read\<close> will give. The protocol is called through its operations \<open>len\<close>
  (\<open>readPacketLength\<close>) and \<open>parse\<close> (\<open>parsePacket\<close>). Outside of the model, and so
  arguments in the record \<open>tcp_env\<close>, are OpenSSL's AES-CTR behind \<open>aesCtrEncrypt\<close>, the generated
  parser of \<open>MTPResPQ\<close> and the slots connected to the signals, of which only counts whether
  they disconnect the connection. Times are left out.
\<close>

subsection \<open>State\<close>

definition kSmallBufferSize :: nat where
  "kSmallBufferSize = 256 * 1024"

definition kMinPacketBuffer :: nat where
  "kMinPacketBuffer = 256"

definition kErrorCodeOther :: prime where
  "kErrorCodeOther = - 499"

datatype tcp_status = Waiting | Ready | Finished

datatype tcp_signal = ReceivedData | ReceivedSome | TcpError prime | TcpConnected | TcpDisconnected

record ('c, 'n) tcp_env =
  te_decrypt :: "'c \<Rightarrow> byte list \<Rightarrow> byte list \<times> 'c"
  te_res_pq :: "prime list \<Rightarrow> nat \<times> nat \<Rightarrow> 'n option"
  te_closes :: "tcp_signal \<Rightarrow> bool"

record ('c, 'n) tcp_connection =
  tc_socket :: bool
  tc_offsetBytes :: nat
  tc_readBytes :: nat
  tc_leftBytes :: nat
  tc_smallBuffer :: "byte list"
  tc_largeBuffer :: "byte list"
  tc_usingLargeBuffer :: bool
  tc_receive :: 'c
  tc_status :: tcp_status
  tc_checkNonce :: 'n
  tc_receivedQueue :: "prime list list"
  tc_signals :: "tcp_signal list"

definition new_connection :: "'c \<Rightarrow> 'n \<Rightarrow> ('c, 'n) tcp_connection" where
  "new_connection c nonce = \<lparr>tc_socket = True, tc_offsetBytes = 0, tc_readBytes = 0, tc_leftBytes = 0,
     tc_smallBuffer = [], tc_largeBuffer = [], tc_usingLargeBuffer = False, tc_receive = c,
     tc_status = Waiting, tc_checkNonce = nonce, tc_receivedQueue = [], tc_signals = []\<rparr>"

subsection \<open>Signals\<close>

text \<open>\<open>tc_socket\<close> is \<open>_socket && _socket->isConnected()\<close>.\<close>

definition disconnectFromServer :: "('c, 'n) tcp_connection \<Rightarrow> ('c, 'n) tcp_connection" where
  "disconnectFromServer s =
     (if tc_status s = Finished then s else s\<lparr>tc_status := Finished, tc_socket := False\<rparr>)"

definition tcp_emit :: "('c, 'n) tcp_env \<Rightarrow> tcp_signal \<Rightarrow> ('c, 'n) tcp_connection \<Rightarrow> ('c, 'n) tcp_connection" where
  "tcp_emit env sig s =
     (let s1 = s\<lparr>tc_signals := tc_signals s @ [sig]\<rparr>
      in if te_closes env sig then disconnectFromServer s1 else s1)"

definition socketDisconnected :: "('c, 'n) tcp_env \<Rightarrow> ('c, 'n) tcp_connection \<Rightarrow> ('c, 'n) tcp_connection" where
  "socketDisconnected env s =
     (if tc_status s = Waiting \<or> tc_status s = Ready then tcp_emit env TcpDisconnected s else s)"

definition socketError :: "('c, 'n) tcp_env \<Rightarrow> ('c, 'n) tcp_connection \<Rightarrow> ('c, 'n) tcp_connection" where
  "socketError env s = (if \<not> tc_socket s then s else tcp_emit env (TcpError kErrorCodeOther) s)"

subsection \<open>Packets\<close>

definition readPQFakeReply :: "('c, 'n) tcp_env \<Rightarrow> prime list \<Rightarrow> 'n option" where
  "readPQFakeReply env buffer =
     (case parseNotSecureResponse buffer of
        None \<Rightarrow> None
      | Some answer \<Rightarrow> te_res_pq env buffer answer)"

definition socketPacket :: "('c, 'n) tcp_env \<Rightarrow> (byte list \<Rightarrow> prime list option) \<Rightarrow> byte list
    \<Rightarrow> ('c, 'n) tcp_connection \<Rightarrow> ('c, 'n) tcp_connection option" where
  "socketPacket env parse bytes s =
     (case parse bytes of
        None \<Rightarrow> None
      | Some data \<Rightarrow> Some (
          if length data = 1 then
            if data ! 0 \<noteq> 0 then tcp_emit env (TcpError (data ! 0)) s else s
          else if tc_status s = Ready then
            tcp_emit env ReceivedData (s\<lparr>tc_receivedQueue := tc_receivedQueue s @ [data]\<rparr>)
          else if tc_status s = Waiting then
            (case readPQFakeReply env data of
               Some nonce \<Rightarrow>
                 if nonce = tc_checkNonce s then tcp_emit env TcpConnected (s\<lparr>tc_status := Ready\<rparr>)
                 else tcp_emit env (TcpError kErrorCodeOther) s
             | None \<Rightarrow> tcp_emit env (TcpError kErrorCodeOther) s)
          else s))"

subsection \<open>Buffers\<close>

definition tc_buffer :: "('c, 'n) tcp_connection \<Rightarrow> byte list" where
  "tc_buffer s = (if tc_usingLargeBuffer s then tc_largeBuffer s else tc_smallBuffer s)"

definition set_tc_buffer :: "byte list \<Rightarrow> ('c, 'n) tcp_connection \<Rightarrow> ('c, 'n) tcp_connection" where
  "set_tc_buffer buffer s =
     (if tc_usingLargeBuffer s then s\<lparr>tc_largeBuffer := buffer\<rparr> else s\<lparr>tc_smallBuffer := buffer\<rparr>)"

text \<open>\<open>bytes::copy\<close> and \<open>bytes::move\<close> to a position of a buffer.\<close>

definition write_at :: "nat \<Rightarrow> byte list \<Rightarrow> byte list \<Rightarrow> byte list" where
  "write_at pos bytes buffer = take pos buffer @ bytes @ drop (pos + length bytes) buffer"

definition ensureAvailableInBuffer :: "nat \<Rightarrow> ('c, 'n) tcp_connection \<Rightarrow> ('c, 'n) tcp_connection option" where
  "ensureAvailableInBuffer amount s =
     (let full = drop (tc_offsetBytes s) (tc_buffer s) in
      if length full \<ge> amount then Some s
      else let read = take (tc_readBytes s) full in
        if amount \<le> length (tc_smallBuffer s) then
          if tc_usingLargeBuffer s
          then Some (s\<lparr>tc_smallBuffer := write_at 0 read (tc_smallBuffer s), tc_usingLargeBuffer := False,
                       tc_largeBuffer := [], tc_offsetBytes := 0\<rparr>)
          else Some (s\<lparr>tc_smallBuffer := write_at 0 read (tc_smallBuffer s), tc_offsetBytes := 0\<rparr>)
        else if amount \<le> length (tc_largeBuffer s) then
          if tc_usingLargeBuffer s
          then Some (s\<lparr>tc_largeBuffer := write_at 0 read (tc_largeBuffer s), tc_offsetBytes := 0\<rparr>)
          else None
        else Some (s\<lparr>tc_largeBuffer := write_at 0 read (replicate amount 0), tc_usingLargeBuffer := True,
                     tc_offsetBytes := 0\<rparr>))"

subsection \<open>Reading\<close>

text \<open>
  The loop over the packets that are available; the flag tells that \<open>socketRead\<close> returns. The
  number of available bytes is \<open>_readBytes\<close>.
\<close>

function read_packets :: "('c, 'n) tcp_env \<Rightarrow> (byte list \<Rightarrow> int) \<Rightarrow> (byte list \<Rightarrow> prime list option) \<Rightarrow> byte list
    \<Rightarrow> ('c, 'n) tcp_connection \<Rightarrow> (bool \<times> ('c, 'n) tcp_connection) option" where
  "read_packets env len parse available s =
     (if tc_readBytes s = 0 then Some (False, s)
      else let packetSize = len available in
        if packetSize = kUnknownSize then Some (False, s)
        else if packetSize \<le> 0 then Some (True, tcp_emit env (TcpError kErrorCodeOther) s)
        else if int (length available) \<ge> packetSize then
          (case socketPacket env parse (take (nat packetSize) available) s of
             None \<Rightarrow> None
           | Some s1 \<Rightarrow>
               if \<not> tc_socket s1 then Some (True, s1)
               else (case ensureAvailableInBuffer kMinPacketBuffer
                       (s1\<lparr>tc_offsetBytes := tc_offsetBytes s1 + nat packetSize,
                           tc_readBytes := tc_readBytes s1 - nat packetSize\<rparr>) of
                       None \<Rightarrow> None
                     | Some s2 \<Rightarrow> read_packets env len parse (drop (nat packetSize) available) s2))
        else (case ensureAvailableInBuffer (nat packetSize)
                (s\<lparr>tc_leftBytes := nat packetSize - length available\<rparr>) of
                None \<Rightarrow> None
              | Some s1 \<Rightarrow> Some (False, tcp_emit env ReceivedSome s1)))"
  by pat_completeness auto
termination
  by (relation "measure (\<lambda>(env, len, parse, available, s). length available)") auto

text \<open>What calls of \<open>read\<close> on the socket give: some bytes, or an error.\<close>

datatype socket_input = Bytes "byte list" | ReadFailed

text \<open>
  One round of the loop for bytes read within the limit. The flag tells that \<open>socketRead\<close> returns.
\<close>

definition read_bytes :: "('c, 'n) tcp_env \<Rightarrow> (byte list \<Rightarrow> int) \<Rightarrow> (byte list \<Rightarrow> prime list option) \<Rightarrow> byte list
    \<Rightarrow> ('c, 'n) tcp_connection \<Rightarrow> (bool \<times> ('c, 'n) tcp_connection) option" where
  "read_bytes env len parse bytes s =
     (let (read, receive) = te_decrypt env (tc_receive s) bytes;
          buffer = write_at (tc_offsetBytes s + tc_readBytes s) read (tc_buffer s);
          s1 = set_tc_buffer buffer (s\<lparr>tc_receive := receive, tc_readBytes := tc_readBytes s + length bytes\<rparr>);
          available = take (tc_readBytes s1) (drop (tc_offsetBytes s1) buffer)
      in if tc_leftBytes s1 > 0 then
           if \<not> length bytes \<le> tc_leftBytes s1 then None
           else let s2 = s1\<lparr>tc_leftBytes := tc_leftBytes s1 - length bytes\<rparr> in
             if tc_leftBytes s2 = 0 then
               (case socketPacket env parse available s2 of
                  None \<Rightarrow> None
                | Some s3 \<Rightarrow>
                    if \<not> tc_socket s3 then Some (True, s3)
                    else Some (False, s3\<lparr>tc_usingLargeBuffer := False, tc_largeBuffer := [],
                                         tc_offsetBytes := 0, tc_readBytes := 0\<rparr>))
             else Some (False, tcp_emit env ReceivedSome s2)
         else read_packets env len parse available s1)"

definition read_limit :: "('c, 'n) tcp_connection \<Rightarrow> int" where
  "read_limit s = (if tc_leftBytes s > 0 then int (tc_leftBytes s)
     else int kSmallBufferSize - int (tc_offsetBytes s) - int (tc_readBytes s))"

definition socket_rest :: "byte list \<Rightarrow> socket_input list \<Rightarrow> socket_input list" where
  "socket_rest bytes rest = (if bytes = [] then rest else Bytes bytes # rest)"

text \<open>
  The loop of \<open>socketRead\<close>. A read that is not within the buffer, like a limit that is not
  positive, is a failed assertion.
\<close>

function read_loop :: "('c, 'n) tcp_env \<Rightarrow> (byte list \<Rightarrow> int) \<Rightarrow> (byte list \<Rightarrow> prime list option)
    \<Rightarrow> socket_input list \<Rightarrow> ('c, 'n) tcp_connection \<Rightarrow> ('c, 'n) tcp_connection option" where
  "read_loop env len parse input s =
     (if read_limit s \<le> 0
        \<or> int (length (tc_buffer s)) - int (tc_offsetBytes s) - int (tc_readBytes s) < read_limit s then None
      else case input of
        [] \<Rightarrow> Some s
      | ReadFailed # rest \<Rightarrow> Some (tcp_emit env (TcpError kErrorCodeOther) s)
      | Bytes bytes # rest \<Rightarrow>
          if bytes = [] then Some s
          else (case read_bytes env len parse (take (nat (read_limit s)) bytes) s of
              None \<Rightarrow> None
            | Some (returned, s1) \<Rightarrow>
                let rest1 = socket_rest (drop (nat (read_limit s)) bytes) rest in
                if \<not> returned \<and> tc_socket s1 \<and> rest1 \<noteq> [] then read_loop env len parse rest1 s1
                else Some s1))"
  by pat_completeness auto
termination
  by (relation "measure (\<lambda>(env, len, parse, input, s).
      sum_list (map (\<lambda>x. case x of Bytes bs \<Rightarrow> Suc (length bs) | ReadFailed \<Rightarrow> 1) input))")
    (auto simp: socket_rest_def)

definition socketRead :: "('c, 'n) tcp_env \<Rightarrow> (byte list \<Rightarrow> int) \<Rightarrow> (byte list \<Rightarrow> prime list option)
    \<Rightarrow> socket_input list \<Rightarrow> ('c, 'n) tcp_connection \<Rightarrow> ('c, 'n) tcp_connection option" where
  "socketRead env len parse input s =
     (if \<not> (tc_leftBytes s > 0 \<or> \<not> tc_usingLargeBuffer s) then None
      else if \<not> tc_socket s then Some (tcp_emit env (TcpError kErrorCodeOther) s)
      else read_loop env len parse input
        (if tc_smallBuffer s = [] then s\<lparr>tc_smallBuffer := replicate kSmallBufferSize 0\<rparr> else s))"

text \<open>Each \<open>readyRead\<close> of the socket; the subscription ends with the socket.\<close>

fun readyRead :: "('c, 'n) tcp_env \<Rightarrow> (byte list \<Rightarrow> int) \<Rightarrow> (byte list \<Rightarrow> prime list option)
    \<Rightarrow> socket_input list list \<Rightarrow> ('c, 'n) tcp_connection \<Rightarrow> ('c, 'n) tcp_connection option" where
  "readyRead env len parse [] s = Some s"
| "readyRead env len parse (input # inputs) s =
     (if \<not> tc_socket s then Some s
      else case socketRead env len parse input s of
        None \<Rightarrow> None
      | Some s1 \<Rightarrow> readyRead env len parse inputs s1)"

subsection \<open>What a connection promises\<close>

text \<open>
  A connection seen without its buffers: the bytes received are one stream, and every packet of
  the stream is handled as soon as it is complete. Signals that only report progress are left out.
\<close>

record 'n tcp_view =
  tv_socket :: bool
  tv_status :: tcp_status
  tv_checkNonce :: 'n
  tv_receivedQueue :: "prime list list"
  tv_signals :: "tcp_signal list"

definition tcp_view :: "('c, 'n) tcp_connection \<Rightarrow> 'n tcp_view" where
  "tcp_view s = \<lparr>tv_socket = tc_socket s, tv_status = tc_status s, tv_checkNonce = tc_checkNonce s,
     tv_receivedQueue = tc_receivedQueue s, tv_signals = filter (\<lambda>x. x \<noteq> ReceivedSome) (tc_signals s)\<rparr>"

definition view_emit :: "('c, 'n) tcp_env \<Rightarrow> tcp_signal \<Rightarrow> 'n tcp_view \<Rightarrow> 'n tcp_view" where
  "view_emit env sig v =
     (let v1 = v\<lparr>tv_signals := tv_signals v @ [sig]\<rparr>
      in if te_closes env sig \<and> tv_status v \<noteq> Finished then v1\<lparr>tv_status := Finished, tv_socket := False\<rparr> else v1)"

definition view_packet :: "('c, 'n) tcp_env \<Rightarrow> prime list \<Rightarrow> 'n tcp_view \<Rightarrow> 'n tcp_view" where
  "view_packet env data v =
     (if length data = 1 then (if data ! 0 = 0 then v else view_emit env (TcpError (data ! 0)) v)
      else case tv_status v of
        Finished \<Rightarrow> v
      | Ready \<Rightarrow> view_emit env ReceivedData (v\<lparr>tv_receivedQueue := tv_receivedQueue v @ [data]\<rparr>)
      | Waiting \<Rightarrow>
          if readPQFakeReply env data = Some (tv_checkNonce v)
          then view_emit env TcpConnected (v\<lparr>tv_status := Ready\<rparr>)
          else view_emit env (TcpError kErrorCodeOther) v)"

text \<open>The packets of a stream: what is left of it and the connection after them.\<close>

function stream_packets :: "('c, 'n) tcp_env \<Rightarrow> (byte list \<Rightarrow> int) \<Rightarrow> (byte list \<Rightarrow> prime list option) \<Rightarrow> byte list
    \<Rightarrow> 'n tcp_view \<Rightarrow> byte list \<times> 'n tcp_view" where
  "stream_packets env len parse bytes v =
     (if bytes = [] \<or> len bytes = kUnknownSize \<or> len bytes > int (length bytes) then (bytes, v)
      else if len bytes \<le> 0 then ([], view_emit env (TcpError kErrorCodeOther) v)
      else let v1 = view_packet env (the (parse (take (nat (len bytes)) bytes))) v
           in if \<not> tv_socket v1 then ([], v1)
              else stream_packets env len parse (drop (nat (len bytes)) bytes) v1)"
  by pat_completeness auto
termination
  by (relation "measure (\<lambda>(env, len, parse, bytes, v). length bytes)") auto

declare stream_packets.simps [simp del] read_packets.simps [simp del] read_loop.simps [simp del]

lemma tcp_view_simps [simp]:
  "tv_socket (tcp_view s) = tc_socket s" "tv_status (tcp_view s) = tc_status s"
  "tv_checkNonce (tcp_view s) = tc_checkNonce s" "tv_receivedQueue (tcp_view s) = tc_receivedQueue s"
  "tv_signals (tcp_view s) = filter (\<lambda>x. x \<noteq> ReceivedSome) (tc_signals s)"
  by (simp_all add: tcp_view_def)

text \<open>What OpenSSL's counter mode does: the data is handled byte by byte.\<close>

definition stream_cipher :: "('c \<Rightarrow> byte list \<Rightarrow> byte list \<times> 'c) \<Rightarrow> bool" where
  "stream_cipher d \<longleftrightarrow> (\<forall>c a b. d c (a @ b) = (fst (d c a) @ fst (d (snd (d c a)) b), snd (d (snd (d c a)) b)))
     \<and> (\<forall>c a. length (fst (d c a)) = length a) \<and> (\<forall>c. d c [] = ([], c))"

text \<open>Which slots close the connection: an error does, progress does not.\<close>

definition slots_close :: "(tcp_signal \<Rightarrow> bool) \<Rightarrow> bool" where
  "slots_close closes \<longleftrightarrow> (\<forall>code. closes (TcpError code)) \<and> \<not> closes ReceivedSome"

subsection \<open>Steps of the connection and of the view\<close>

lemma view_tcp_emit: "sig \<noteq> ReceivedSome \<Longrightarrow> tcp_view (tcp_emit env sig s) = view_emit env sig (tcp_view s)"
  by (simp add: tcp_emit_def view_emit_def disconnectFromServer_def tcp_view_def Let_def)

lemma emit_progress: "\<not> te_closes env ReceivedSome \<Longrightarrow> tcp_view (tcp_emit env ReceivedSome s) = tcp_view s"
  by (simp add: tcp_emit_def tcp_view_def Let_def)

lemma emit_error_closes: "te_closes env sig \<Longrightarrow> tc_socket s \<Longrightarrow> tc_status s \<noteq> Finished \<Longrightarrow> \<not> tc_socket (tcp_emit env sig s)"
  by (simp add: tcp_emit_def disconnectFromServer_def Let_def)

lemma tcp_emit_fields [simp]:
  "tc_offsetBytes (tcp_emit env sig s) = tc_offsetBytes s" "tc_readBytes (tcp_emit env sig s) = tc_readBytes s"
  "tc_leftBytes (tcp_emit env sig s) = tc_leftBytes s" "tc_smallBuffer (tcp_emit env sig s) = tc_smallBuffer s"
  "tc_largeBuffer (tcp_emit env sig s) = tc_largeBuffer s" "tc_usingLargeBuffer (tcp_emit env sig s) = tc_usingLargeBuffer s"
  "tc_receive (tcp_emit env sig s) = tc_receive s"
  by (simp_all add: tcp_emit_def disconnectFromServer_def Let_def)

lemma socketPacket_fields:
  assumes "socketPacket env parse bytes s = Some s1"
  shows "tc_offsetBytes s1 = tc_offsetBytes s \<and> tc_readBytes s1 = tc_readBytes s \<and> tc_leftBytes s1 = tc_leftBytes s
    \<and> tc_smallBuffer s1 = tc_smallBuffer s \<and> tc_largeBuffer s1 = tc_largeBuffer s
    \<and> tc_usingLargeBuffer s1 = tc_usingLargeBuffer s \<and> tc_receive s1 = tc_receive s"
  using assms by (auto simp: socketPacket_def split: option.splits if_splits)

lemma socketPacket_view:
  assumes "socketPacket env parse bytes s = Some s1"
  shows "tcp_view s1 = view_packet env (the (parse bytes)) (tcp_view s)"
proof -
  obtain data where d: "parse bytes = Some data" using assms by (auto simp: socketPacket_def split: option.splits)
  have q: "tcp_view (s\<lparr>tc_receivedQueue := q\<rparr>) = (tcp_view s)\<lparr>tv_receivedQueue := q\<rparr>"
    "tcp_view (s\<lparr>tc_status := st\<rparr>) = (tcp_view s)\<lparr>tv_status := st\<rparr>" for q st
    by (simp_all add: tcp_view_def)
  show ?thesis using assms d
    by (cases "tc_status s")
      (auto simp: socketPacket_def view_packet_def view_tcp_emit q split: option.splits if_splits)
qed

text \<open>The socket is open in every state that is not finished, and closing finishes.\<close>

definition open_status :: "'n tcp_view \<Rightarrow> bool" where
  "open_status v \<longleftrightarrow> tv_socket v \<and> tv_status v \<noteq> Finished"

lemma view_emit_open: "open_status v \<Longrightarrow> tv_socket (view_emit env sig v) \<Longrightarrow> open_status (view_emit env sig v)"
  by (auto simp: view_emit_def open_status_def Let_def split: if_splits)

lemma view_packet_open: "open_status v \<Longrightarrow> tv_socket (view_packet env data v) \<Longrightarrow> open_status (view_packet env data v)"
  by (auto simp: view_packet_def open_status_def view_emit_def Let_def split: if_splits tcp_status.splits)

subsection \<open>Buffers hold the stream\<close>

definition tc_pending :: "('c, 'n) tcp_connection \<Rightarrow> byte list" where
  "tc_pending s = take (tc_readBytes s) (drop (tc_offsetBytes s) (tc_buffer s))"

definition conn_ok :: "(byte list \<Rightarrow> int) \<Rightarrow> ('c, 'n) tcp_connection \<Rightarrow> bool" where
  "conn_ok len s \<longleftrightarrow>
     (if tc_smallBuffer s = []
      then \<not> tc_usingLargeBuffer s \<and> tc_largeBuffer s = [] \<and> tc_offsetBytes s = 0 \<and> tc_readBytes s = 0 \<and> tc_leftBytes s = 0
      else length (tc_smallBuffer s) = kSmallBufferSize
        \<and> (\<not> tc_usingLargeBuffer s \<longrightarrow> tc_largeBuffer s = [])
        \<and> tc_offsetBytes s + tc_readBytes s + tc_leftBytes s \<le> length (tc_buffer s)
        \<and> (if tc_leftBytes s = 0
           then \<not> tc_usingLargeBuffer s \<and> tc_offsetBytes s + kMinPacketBuffer \<le> kSmallBufferSize
             \<and> (tc_pending s = [] \<or> len (tc_pending s) = kUnknownSize)
           else len (tc_pending s) = int (tc_readBytes s + tc_leftBytes s)))"

lemma write_at_start: "take (length xs) (write_at 0 xs buffer) = xs"
  by (simp add: write_at_def)

lemma length_write_at: "pos + length xs \<le> length buffer \<Longrightarrow> length (write_at pos xs buffer) = length buffer"
  by (simp add: write_at_def)

lemma write_at_end:
  "off + n + length xs \<le> length buffer
    \<Longrightarrow> take (n + length xs) (drop off (write_at (off + n) xs buffer)) = take n (drop off buffer) @ xs"
  by (cases xs) (auto simp: write_at_def take_add drop_take min_def)

lemma ensure_ok:
  assumes "length (tc_smallBuffer s) = kSmallBufferSize" "\<not> tc_usingLargeBuffer s" "tc_largeBuffer s = []"
    and "tc_offsetBytes s + tc_readBytes s \<le> kSmallBufferSize"
  obtains s1 where "ensureAvailableInBuffer amount s = Some s1" "tc_pending s1 = tc_pending s"
    "tc_offsetBytes s1 + amount \<le> length (tc_buffer s1)" "length (tc_smallBuffer s1) = kSmallBufferSize"
    "amount \<le> kSmallBufferSize \<Longrightarrow> \<not> tc_usingLargeBuffer s1" "\<not> tc_usingLargeBuffer s1 \<Longrightarrow> tc_largeBuffer s1 = []"
    "tc_readBytes s1 = tc_readBytes s" "tc_leftBytes s1 = tc_leftBytes s" "tc_receive s1 = tc_receive s"
    "tcp_view s1 = tcp_view s" "tc_offsetBytes s1 + tc_readBytes s1 \<le> length (tc_buffer s1)"
proof -
  let ?full = "drop (tc_offsetBytes s) (tc_smallBuffer s)"
  let ?read = "take (tc_readBytes s) ?full"
  have read: "length ?read = tc_readBytes s" using assms by simp
  have p: "tc_pending s = ?read" by (simp add: tc_pending_def tc_buffer_def assms(2))
  consider "amount \<le> length ?full" | "length ?full < amount" "amount \<le> kSmallBufferSize"
    | "length ?full < amount" "kSmallBufferSize < amount" by linarith
  then show thesis
  proof cases
    case 1
    then have "ensureAvailableInBuffer amount s = Some s"
      by (simp add: ensureAvailableInBuffer_def tc_buffer_def assms(2))
    then show ?thesis using that[of s] 1 assms by (cases "amount = 0") (auto simp: tc_buffer_def)
  next
    case 2
    let ?s = "s\<lparr>tc_smallBuffer := write_at 0 ?read (tc_smallBuffer s), tc_offsetBytes := 0\<rparr>"
    have l: "length (write_at 0 ?read (tc_smallBuffer s)) = kSmallBufferSize"
      using length_write_at[of 0 ?read "tc_smallBuffer s"] read assms by simp
    have "ensureAvailableInBuffer amount s = Some ?s"
      using 2 assms by (simp add: ensureAvailableInBuffer_def tc_buffer_def Let_def)
    moreover have "tc_pending ?s = tc_pending s"
      using write_at_start[of ?read "tc_smallBuffer s"] read by (simp add: tc_pending_def tc_buffer_def assms(2))
    ultimately show ?thesis using that[of ?s] 2 assms l
      by (simp add: tc_buffer_def tcp_view_def)
  next
    case 3
    let ?s = "s\<lparr>tc_largeBuffer := write_at 0 ?read (replicate amount 0), tc_usingLargeBuffer := True, tc_offsetBytes := 0\<rparr>"
    have l: "length (write_at 0 ?read (replicate amount 0)) = amount"
      using length_write_at[of 0 ?read "replicate amount (0::byte)"] 3 assms by simp
    have "ensureAvailableInBuffer amount s = Some ?s"
      using 3 assms by (simp add: ensureAvailableInBuffer_def tc_buffer_def Let_def)
    moreover have "tc_pending ?s = tc_pending s"
      using write_at_start[of ?read "replicate amount 0"] read by (simp add: tc_pending_def tc_buffer_def assms(2))
    ultimately show ?thesis using that[of ?s] 3 assms l
      by (simp add: tc_buffer_def tcp_view_def)
  qed
qed

context packet_protocol
begin

lemma len_cases:
  obtains (unknown) "bs = [] \<or> len bs = kUnknownSize" | (partial) "bs \<noteq> []" "len bs \<noteq> kUnknownSize" "int (length bs) < len bs"
  | (invalid) "bs \<noteq> []" "len bs = kInvalidSize"
  | (whole) n where "bs \<noteq> []" "len bs = int n" "0 < n" "n \<le> length bs" "parse (take n bs) \<noteq> None"
proof -
  have "\<exists>n. len bs = int n \<and> 0 < n \<and> n \<le> length bs" if "0 < len bs" "len bs \<le> int (length bs)"
    using that by (intro exI[of _ "nat (len bs)"]) auto
  then show thesis using that parse_whole[of bs] len_positive[of bs] by (metis not_le)
qed

lemma len_append:
  "len bs \<noteq> kUnknownSize \<Longrightarrow> len (bs @ cs) = len bs"
  by (rule len_stable)

lemma stream_unknown: "bs = [] \<or> len bs = kUnknownSize \<or> int (length bs) < len bs \<Longrightarrow> stream_packets env len p bs v = (bs, v)"
  by (subst stream_packets.simps) auto

lemma stream_invalid: "bs \<noteq> [] \<Longrightarrow> len bs = kInvalidSize
    \<Longrightarrow> stream_packets env len p bs v = ([], view_emit env (TcpError kErrorCodeOther) v)"
  by (subst stream_packets.simps) (auto simp: kInvalidSize_def kUnknownSize_def)

lemma stream_whole: "bs \<noteq> [] \<Longrightarrow> len bs = int n \<Longrightarrow> 0 < n \<Longrightarrow> n \<le> length bs
    \<Longrightarrow> stream_packets env len p bs v = (let v1 = view_packet env (the (p (take n bs))) v
      in if \<not> tv_socket v1 then ([], v1) else stream_packets env len p (drop n bs) v1)"
  by (subst stream_packets.simps) (auto simp: kUnknownSize_def Let_def)

lemma error_closes: "open_status v \<Longrightarrow> slots_close (te_closes env) \<Longrightarrow> \<not> tv_socket (view_emit env (TcpError code) v)"
  by (auto simp: view_emit_def open_status_def slots_close_def)

lemma stream_append:
  assumes "slots_close (te_closes env)"
  shows "open_status v \<Longrightarrow> stream_packets env len p (a @ b) v = (case stream_packets env len p a v of
    (r, v1) \<Rightarrow> if tv_socket v1 then stream_packets env len p (r @ b) v1 else ([], v1))"
proof (induction a arbitrary: v rule: length_induct)
  case (1 a)
  show ?case
  proof (cases rule: len_cases[of a])
    case unknown
    then show ?thesis using 1(2) by (auto simp: stream_unknown open_status_def)
  next
    case partial
    then show ?thesis using 1(2) by (auto simp: stream_unknown open_status_def)
  next
    case invalid
    then have "len (a @ b) = kInvalidSize" using len_append[of a b] by (simp add: kInvalidSize_def kUnknownSize_def)
    then show ?thesis using invalid error_closes[OF 1(2) assms] by (simp add: stream_invalid)
  next
    case (whole n)
    then have l: "len (a @ b) = int n" using len_append[of a b] by (simp add: kUnknownSize_def)
    have t: "take n (a @ b) = take n a" "drop n (a @ b) = drop n a @ b" using whole by simp_all
    let ?v = "view_packet env (the (p (take n a))) v"
    have ih: "open_status ?v \<Longrightarrow> stream_packets env len p (drop n a @ b) ?v = (case stream_packets env len p (drop n a) ?v of
        (r, v1) \<Rightarrow> if tv_socket v1 then stream_packets env len p (r @ b) v1 else ([], v1))"
      using 1(1) whole by simp
    note sa = stream_whole[OF whole(1-4), of env p v]
    have sb: "stream_packets env len p (a @ b) v = (if \<not> tv_socket ?v then ([], ?v)
        else stream_packets env len p (drop n a @ b) ?v)"
      using stream_whole[of "a @ b" n env p v] whole l t by (simp add: Let_def)
    show ?thesis
    proof (cases "tv_socket ?v")
      case True
      show ?thesis using sa sb ih[OF view_packet_open[OF 1(2) True]] True by (simp add: Let_def)
    next
      case False
      then show ?thesis using sa sb by (simp add: Let_def)
    qed
  qed
qed

lemma stream_rest:
  assumes "stream_packets env len p bs v = (r, v1)" "tv_socket v1" "slots_close (te_closes env)" "open_status v"
  shows "(r = [] \<or> len r = kUnknownSize \<or> int (length r) < len r) \<and> open_status v1"
  using assms(1,4)
proof (induction bs arbitrary: v rule: length_induct)
  case (1 bs)
  show ?case
  proof (cases rule: len_cases[of bs])
    case invalid
    then show ?thesis using 1(2,3) error_closes[OF 1(3) assms(3)] assms(2) by (auto simp: stream_invalid)
  next
    case (whole n)
    let ?v = "view_packet env (the (p (take n bs))) v"
    have s: "tv_socket ?v" "stream_packets env len p (drop n bs) ?v = (r, v1)"
      using 1(2) stream_whole[OF whole(1-4), of env p v] assms(2) by (auto simp: Let_def split: if_splits)
    show ?thesis using 1(1)[rule_format, OF _ s(2) view_packet_open[OF 1(3) s(1)]] whole by simp
  qed (use 1 in \<open>auto simp: stream_unknown\<close>)
qed

end

text \<open>What a step leaves, against what the stream says.\<close>

definition follows_stream :: "(byte list \<Rightarrow> int) \<Rightarrow> 'c \<Rightarrow> byte list \<times> 'n tcp_view \<Rightarrow> (bool \<times> ('c, 'n) tcp_connection) option \<Rightarrow> bool" where
  "follows_stream len c result step \<longleftrightarrow> (\<exists>returned s1. step = Some (returned, s1) \<and> tcp_view s1 = snd result
     \<and> (tc_socket s1 \<longrightarrow> \<not> returned \<and> conn_ok len s1 \<and> tc_smallBuffer s1 \<noteq> [] \<and> tc_receive s1 = c
          \<and> tc_status s1 \<noteq> Finished \<and> tc_pending s1 = fst result))"

lemma follows_streamI:
  assumes "step = Some (returned, s1)" "result = (r, tcp_view s1)"
    "tc_socket s1 \<Longrightarrow> \<not> returned \<and> conn_ok len s1 \<and> tc_smallBuffer s1 \<noteq> [] \<and> tc_receive s1 = c
          \<and> tc_status s1 \<noteq> Finished \<and> tc_pending s1 = r"
  shows "follows_stream len c result step"
  using assms by (auto simp: follows_stream_def)

lemma follows_streamE:
  assumes "follows_stream len c result step"
  obtains returned s1 where "step = Some (returned, s1)" "result = (fst result, tcp_view s1)"
    "tc_socket s1 \<Longrightarrow> \<not> returned \<and> conn_ok len s1 \<and> tc_smallBuffer s1 \<noteq> [] \<and> tc_receive s1 = c
          \<and> tc_status s1 \<noteq> Finished \<and> tc_pending s1 = fst result"
  using assms by (auto simp: follows_stream_def prod_eq_iff)

lemma emit_buffer [simp]: "tc_buffer (tcp_emit env sig s) = tc_buffer s" "tc_pending (tcp_emit env sig s) = tc_pending s"
  by (simp_all add: tc_buffer_def tc_pending_def)

lemma emit_conn_ok [simp]: "conn_ok len (tcp_emit env sig s) = conn_ok len s"
  by (simp add: conn_ok_def)

lemma view_status: "tcp_view s = tcp_view t \<Longrightarrow> tc_status s = tc_status t \<and> tc_socket s = tc_socket t"
  by (simp add: tcp_view_def)

context packet_protocol
begin

lemma read_packets_ok:
  assumes sl: "slots_close (te_closes env)"
  shows "length (tc_smallBuffer s) = kSmallBufferSize \<Longrightarrow> \<not> tc_usingLargeBuffer s \<Longrightarrow> tc_largeBuffer s = []
    \<Longrightarrow> tc_leftBytes s = 0 \<Longrightarrow> tc_offsetBytes s + tc_readBytes s \<le> kSmallBufferSize
    \<Longrightarrow> tc_offsetBytes s + kMinPacketBuffer \<le> kSmallBufferSize \<Longrightarrow> tc_socket s \<Longrightarrow> tc_status s \<noteq> Finished
    \<Longrightarrow> follows_stream len (tc_receive s) (stream_packets env len parse (tc_pending s) (tcp_view s))
          (read_packets env len parse (tc_pending s) s)"
proof (induction "length (tc_pending s)" arbitrary: s rule: less_induct)
  case less
  note h = less.prems
  let ?av = "tc_pending s"
  have rd: "length ?av = tc_readBytes s" using h(1,2,5) by (simp add: tc_pending_def tc_buffer_def)
  have rd0: "?av \<noteq> [] \<Longrightarrow> tc_readBytes s \<noteq> 0" using rd by (metis length_0_conv)
  have small: "tc_smallBuffer s \<noteq> []" using h(1) by (auto simp: kSmallBufferSize_def)
  have os: "open_status (tcp_view s)" using h(7,8) by (simp add: open_status_def)
  show ?case
  proof (cases rule: len_cases[of ?av])
    case unknown
    then have "read_packets env len parse ?av s = Some (False, s)"
      using rd by (subst read_packets.simps) auto
    moreover have "conn_ok len s" using h small unknown by (simp add: conn_ok_def tc_buffer_def)
    moreover have "stream_packets env len parse ?av (tcp_view s) = (?av, tcp_view s)"
      by (rule stream_unknown) (use unknown in auto)
    ultimately show ?thesis using small h(8) by (intro follows_streamI) simp_all
  next
    case invalid
    let ?e = "tcp_emit env (TcpError kErrorCodeOther) s"
    have step: "read_packets env len parse ?av s = Some (True, ?e)"
      using invalid rd0[OF invalid(1)] by (subst read_packets.simps) (auto simp: kInvalidSize_def kUnknownSize_def)
    have closed: "\<not> tc_socket ?e"
      using sl h(7,8) by (intro emit_error_closes) (auto simp: slots_close_def)
    have st: "stream_packets env len parse ?av (tcp_view s) = ([], tcp_view ?e)"
      by (simp add: stream_invalid[OF invalid] view_tcp_emit)
    show ?thesis by (rule follows_streamI[OF step st]) (use closed in blast)
  next
    case partial
    let ?n = "nat (len ?av)"
    let ?t = "s\<lparr>tc_leftBytes := ?n - length ?av\<rparr>"
    have n: "len ?av = int ?n" "length ?av < ?n" using partial(3) by auto
    have pt: "tc_pending ?t = ?av" "tcp_view ?t = tcp_view s" by (simp_all add: tc_pending_def tc_buffer_def tcp_view_def)
    have t: "length (tc_smallBuffer ?t) = kSmallBufferSize" "\<not> tc_usingLargeBuffer ?t" "tc_largeBuffer ?t = []"
      "tc_offsetBytes ?t + tc_readBytes ?t \<le> kSmallBufferSize" using h by simp_all
    obtain s1 where s1: "ensureAvailableInBuffer ?n ?t = Some s1" "tc_pending s1 = tc_pending ?t"
      "tc_offsetBytes s1 + ?n \<le> length (tc_buffer s1)" "length (tc_smallBuffer s1) = kSmallBufferSize"
      "\<not> tc_usingLargeBuffer s1 \<Longrightarrow> tc_largeBuffer s1 = []" "tc_readBytes s1 = tc_readBytes ?t"
      "tc_leftBytes s1 = tc_leftBytes ?t" "tc_receive s1 = tc_receive ?t" "tcp_view s1 = tcp_view ?t"
      by (rule ensure_ok[OF t, of ?n]) blast
    have c: "tc_readBytes s \<noteq> 0" "len ?av \<noteq> kUnknownSize" "\<not> len ?av \<le> 0" "\<not> len ?av \<le> int (length ?av)"
      using rd0[OF partial(1)] partial by auto
    have step: "read_packets env len parse ?av s = Some (False, tcp_emit env ReceivedSome s1)"
      by (subst read_packets.simps) (simp add: c s1(1) Let_def)
    have view: "tcp_view (tcp_emit env ReceivedSome s1) = tcp_view s"
      using sl s1(9) pt(2) by (simp add: emit_progress slots_close_def)
    have st: "stream_packets env len parse ?av (tcp_view s) = (?av, tcp_view s)"
      by (rule stream_unknown) (use partial in auto)
    have ne: "tc_smallBuffer s1 \<noteq> []" using s1(4) by (auto simp: kSmallBufferSize_def)
    have pend: "tc_pending s1 = ?av" using s1(2) pt(1) by simp
    have left: "tc_leftBytes s1 = ?n - length ?av" "tc_readBytes s1 = length ?av" using s1(6,7) rd by simp_all
    have "conn_ok len s1"
      unfolding conn_ok_def pend left using s1(3,4,5) ne n by simp
    then show ?thesis
      using ne pend s1(8) h(8) view_status[OF view]
      by (intro follows_streamI[OF step, where r = ?av]) (simp_all add: st view)
  next
    case (whole n)
    let ?f = "\<lambda>s1. s1\<lparr>tc_offsetBytes := tc_offsetBytes s1 + n, tc_readBytes := tc_readBytes s1 - n\<rparr>"
    have c: "tc_readBytes s \<noteq> 0" "len ?av \<noteq> kUnknownSize" "\<not> len ?av \<le> 0" "len ?av \<le> int (length ?av)" "nat (len ?av) = n"
      using rd0[OF whole(1)] whole by (auto simp: kUnknownSize_def)
    obtain p1 where p1: "socketPacket env parse (take n ?av) s = Some p1"
      using whole(5) by (auto simp: socketPacket_def)
    note pf = socketPacket_fields[OF p1]
    have pv: "view_packet env (the (parse (take n ?av))) (tcp_view s) = tcp_view p1"
      using socketPacket_view[OF p1] by (rule sym)
    have st: "stream_packets env len parse ?av (tcp_view s) = (if \<not> tc_socket p1 then ([], tcp_view p1)
        else stream_packets env len parse (drop n ?av) (tcp_view p1))"
      using stream_whole[OF whole(1-4), of env parse "tcp_view s"] by (simp only: pv Let_def tcp_view_simps)
    show ?thesis
    proof (cases "tc_socket p1")
      case False
      have step: "read_packets env len parse ?av s = Some (True, p1)"
        by (subst read_packets.simps) (simp add: c p1 False Let_def)
      have st1: "stream_packets env len parse ?av (tcp_view s) = ([], tcp_view p1)" by (subst st) (simp add: False)
      show ?thesis by (rule follows_streamI[OF step st1]) (use False in blast)
    next
      case True
      have d: "drop n ?av = tc_pending (?f p1)" using pf by (simp add: tc_pending_def tc_buffer_def drop_take add.commute)
      have t: "length (tc_smallBuffer (?f p1)) = kSmallBufferSize" "\<not> tc_usingLargeBuffer (?f p1)" "tc_largeBuffer (?f p1) = []"
        "tc_offsetBytes (?f p1) + tc_readBytes (?f p1) \<le> kSmallBufferSize" using h pf whole rd by simp_all
      obtain s2 where s2: "ensureAvailableInBuffer kMinPacketBuffer (?f p1) = Some s2" "tc_pending s2 = tc_pending (?f p1)"
        "tc_offsetBytes s2 + kMinPacketBuffer \<le> length (tc_buffer s2)" "length (tc_smallBuffer s2) = kSmallBufferSize"
        "kMinPacketBuffer \<le> kSmallBufferSize \<Longrightarrow> \<not> tc_usingLargeBuffer s2" "\<not> tc_usingLargeBuffer s2 \<Longrightarrow> tc_largeBuffer s2 = []"
        "tc_leftBytes s2 = tc_leftBytes (?f p1)" "tc_receive s2 = tc_receive (?f p1)" "tcp_view s2 = tcp_view (?f p1)"
        "tc_offsetBytes s2 + tc_readBytes s2 \<le> length (tc_buffer s2)"
        by (rule ensure_ok[OF t, of kMinPacketBuffer]) blast
      have le: "kMinPacketBuffer \<le> kSmallBufferSize" by (simp add: kMinPacketBuffer_def kSmallBufferSize_def)
      have step: "read_packets env len parse ?av s = read_packets env len parse (tc_pending s2) s2"
        by (subst read_packets.simps) (simp add: c p1 True Let_def s2(1,2) d)
      have v: "tcp_view s2 = tcp_view p1" using s2(9) by (simp add: tcp_view_def)
      have o: "open_status (tcp_view p1)"
        using view_packet_open[OF os, of env "the (parse (take n ?av))"] True by (simp add: pv)
      have "follows_stream len (tc_receive s2) (stream_packets env len parse (tc_pending s2) (tcp_view s2))
          (read_packets env len parse (tc_pending s2) s2)"
        using s2 le h(4) pf v o view_status[OF v] d whole(1,3)
        by (intro less.hyps) (simp_all add: tc_buffer_def open_status_def, metis diff_less length_drop length_greater_0_conv)
      then show ?thesis using st True pf s2(2,8) v d step by simp
    qed
  qed
qed

end

lemma set_tc_buffer_fields [simp]:
  "tc_buffer (set_tc_buffer b s) = b" "tc_usingLargeBuffer (set_tc_buffer b s) = tc_usingLargeBuffer s"
  "tc_offsetBytes (set_tc_buffer b s) = tc_offsetBytes s" "tc_readBytes (set_tc_buffer b s) = tc_readBytes s"
  "tc_leftBytes (set_tc_buffer b s) = tc_leftBytes s" "tc_receive (set_tc_buffer b s) = tc_receive s"
  "tcp_view (set_tc_buffer b s) = tcp_view s" "tc_socket (set_tc_buffer b s) = tc_socket s"
  "tc_status (set_tc_buffer b s) = tc_status s"
  by (simp_all add: set_tc_buffer_def tc_buffer_def tcp_view_def)

lemma set_tc_buffer_small: "tc_smallBuffer (set_tc_buffer b s) = (if tc_usingLargeBuffer s then tc_smallBuffer s else b)"
  "tc_largeBuffer (set_tc_buffer b s) = (if tc_usingLargeBuffer s then b else tc_largeBuffer s)"
  by (simp_all add: set_tc_buffer_def)

context packet_protocol
begin

text \<open>The state of a connection right after bytes came, before they are looked at.\<close>

lemma received_bytes:
  fixes s :: "('c, 'n) tcp_connection" and c :: 'c and plain :: "byte list"
  assumes ok: "conn_ok len s" "tc_smallBuffer s \<noteq> []"
    and fits: "tc_offsetBytes s + tc_readBytes s + length plain \<le> length (tc_buffer s)"
    and s1_def: "s1 = set_tc_buffer (write_at (tc_offsetBytes s + tc_readBytes s) plain (tc_buffer s))
    (s\<lparr>tc_receive := c, tc_readBytes := tc_readBytes s + length plain\<rparr>)"
  shows "tc_pending s1 = tc_pending s @ plain" "length (tc_buffer s1) = length (tc_buffer s)"
    "length (tc_smallBuffer s1) = kSmallBufferSize" "\<not> tc_usingLargeBuffer s1 \<longrightarrow> tc_largeBuffer s1 = []"
    "tcp_view s1 = tcp_view s" "length (tc_pending s) = tc_readBytes s"
proof -
  show "tc_pending s1 = tc_pending s @ plain"
    using write_at_end[OF fits] by (simp add: s1_def tc_pending_def)
  show lb: "length (tc_buffer s1) = length (tc_buffer s)"
    using length_write_at fits by (simp add: s1_def)
  show "length (tc_smallBuffer s1) = kSmallBufferSize" "\<not> tc_usingLargeBuffer s1 \<longrightarrow> tc_largeBuffer s1 = []"
    using ok lb by (auto simp: s1_def set_tc_buffer_small conn_ok_def tc_buffer_def split: if_splits)
  show "tcp_view s1 = tcp_view s" by (simp add: s1_def)
  show "length (tc_pending s) = tc_readBytes s" using fits by (simp add: tc_pending_def)
qed

lemma conn_ok_room:
  assumes "conn_ok len s" "tc_smallBuffer s \<noteq> []"
  shows "0 < read_limit s" "read_limit s \<le> int (length (tc_buffer s)) - int (tc_offsetBytes s) - int (tc_readBytes s)"
proof -
  have four: "length (tc_pending s) < 4" if "tc_leftBytes s = 0"
    using assms that len_known[of "tc_pending s"] by (auto simp: conn_ok_def not_le[symmetric])
  have "length (tc_pending s) = tc_readBytes s" if "tc_leftBytes s = 0"
  proof -
    have "tc_offsetBytes s + tc_readBytes s \<le> length (tc_buffer s)" using that assms by (simp add: conn_ok_def)
    then show ?thesis by (simp add: tc_pending_def)
  qed
  then have "tc_readBytes s < 4" if "tc_leftBytes s = 0" using four that by simp
  then show "0 < read_limit s"
    using assms by (auto simp: conn_ok_def read_limit_def kSmallBufferSize_def kMinPacketBuffer_def split: if_splits)
  show "read_limit s \<le> int (length (tc_buffer s)) - int (tc_offsetBytes s) - int (tc_readBytes s)"
    using assms by (auto simp: conn_ok_def read_limit_def tc_buffer_def split: if_splits)
qed

lemma read_bytes_ok:
  fixes s :: "('c, 'n) tcp_connection"
  assumes env: "slots_close (te_closes env)" "stream_cipher (te_decrypt env)"
    and ok: "conn_ok len s" "tc_smallBuffer s \<noteq> []" "tc_socket s" "tc_status s \<noteq> Finished"
    and bytes: "bytes \<noteq> []" "int (length bytes) \<le> read_limit s"
  defines "plain \<equiv> fst (te_decrypt env (tc_receive s) bytes)" and "c \<equiv> snd (te_decrypt env (tc_receive s) bytes)"
  shows "follows_stream len c (stream_packets env len parse (tc_pending s @ plain) (tcp_view s)) (read_bytes env len parse bytes s)"
proof -
  have lp: "length plain = length bytes" using env(2) by (simp add: plain_def stream_cipher_def)
  have fits: "tc_offsetBytes s + tc_readBytes s + length plain \<le> length (tc_buffer s)"
    using conn_ok_room[OF ok(1,2)] bytes(2) lp by linarith
  define s1 where "s1 = set_tc_buffer (write_at (tc_offsetBytes s + tc_readBytes s) plain (tc_buffer s))
    (s\<lparr>tc_receive := c, tc_readBytes := tc_readBytes s + length plain\<rparr>)"
  note r = received_bytes[OF ok(1,2) fits s1_def]
  have f: "tc_leftBytes s1 = tc_leftBytes s" "tc_offsetBytes s1 = tc_offsetBytes s" "tc_receive s1 = c"
    "tc_readBytes s1 = tc_readBytes s + length bytes" "tc_usingLargeBuffer s1 = tc_usingLargeBuffer s"
    by (simp_all add: s1_def lp)
  have vs: "tc_socket s1" "tc_status s1 \<noteq> Finished" using view_status[OF r(5)] ok(3,4) by simp_all
  have os: "open_status (tcp_view s)" using ok(3,4) by (simp add: open_status_def)
  have av: "take (tc_readBytes s1) (drop (tc_offsetBytes s1) (write_at (tc_offsetBytes s + tc_readBytes s) plain (tc_buffer s)))
      = tc_pending s1"
    by (simp add: tc_pending_def s1_def)
  have step: "read_bytes env len parse bytes s = (if tc_leftBytes s > 0 then
           if \<not> length bytes \<le> tc_leftBytes s then None
           else let s2 = s1\<lparr>tc_leftBytes := tc_leftBytes s - length bytes\<rparr> in
             if tc_leftBytes s2 = 0 then
               (case socketPacket env parse (tc_pending s1) s2 of
                  None \<Rightarrow> None
                | Some s3 \<Rightarrow>
                    if \<not> tc_socket s3 then Some (True, s3)
                    else Some (False, s3\<lparr>tc_usingLargeBuffer := False, tc_largeBuffer := [],
                                         tc_offsetBytes := 0, tc_readBytes := 0\<rparr>))
             else Some (False, tcp_emit env ReceivedSome s2)
         else read_packets env len parse (tc_pending s1) s1)"
    unfolding read_bytes_def Let_def split_beta plain_def[symmetric] c_def[symmetric] lp[symmetric]
    by (simp only: s1_def[symmetric] f(1) av)
  show ?thesis
  proof (cases "tc_leftBytes s = 0")
    case True
    have "\<not> tc_usingLargeBuffer s1" "tc_offsetBytes s1 + tc_readBytes s1 \<le> kSmallBufferSize"
      "tc_offsetBytes s1 + kMinPacketBuffer \<le> kSmallBufferSize"
      using ok(1,2) True f fits lp by (simp_all add: conn_ok_def tc_buffer_def)
    then have "follows_stream len (tc_receive s1) (stream_packets env len parse (tc_pending s1) (tcp_view s1))
        (read_packets env len parse (tc_pending s1) s1)"
      using r vs f(1) True by (intro read_packets_ok[OF env(1)]) simp_all
    then show ?thesis using step True r(1,5) f(3) by simp
  next
    case False
    let ?left = "tc_leftBytes s"
    have lenp: "len (tc_pending s) = int (tc_readBytes s + ?left)"
      and big: "tc_offsetBytes s + tc_readBytes s + ?left \<le> length (tc_buffer s)"
      using ok(1,2) False by (simp_all add: conn_ok_def)
    then have known: "len (tc_pending s) \<noteq> kUnknownSize" by (simp add: kUnknownSize_def)
    have lens: "len (tc_pending s1) = int (tc_readBytes s + ?left)"
      using len_stable[OF known] lenp r(1) by simp
    have le: "length bytes \<le> ?left" using bytes(2) False by (simp add: read_limit_def)
    define s2 where "s2 = s1\<lparr>tc_leftBytes := ?left - length bytes\<rparr>"
    have g: "tcp_view s2 = tcp_view s" "tc_pending s2 = tc_pending s1" "tc_buffer s2 = tc_buffer s1"
      using r(5) by (simp_all add: s2_def tcp_view_def tc_pending_def tc_buffer_def)
    have len1: "length (tc_pending s1) = tc_readBytes s + length bytes" using r(1,6) lp by simp
    have ne: "tc_smallBuffer s1 \<noteq> []" using r(3) by (auto simp: kSmallBufferSize_def)
    show ?thesis
    proof (cases "length bytes = ?left")
      case True
      define n where "n = tc_readBytes s + ?left"
      have n: "tc_pending s1 \<noteq> []" "len (tc_pending s1) = int n" "0 < n" "n \<le> length (tc_pending s1)"
        using len1 lens True False bytes(1) by (auto simp: n_def)
      have all: "take n (tc_pending s1) = tc_pending s1" "drop n (tc_pending s1) = []" using len1 True by (simp_all add: n_def)
      obtain s3 where s3: "socketPacket env parse (tc_pending s1) s2 = Some s3"
        using parse_whole[OF n(2,3,4)] all(1) by (auto simp: socketPacket_def)
      note pf = socketPacket_fields[OF s3]
      have pv: "view_packet env (the (parse (tc_pending s1))) (tcp_view s) = tcp_view s3"
        using socketPacket_view[OF s3] g(1) by simp
      have st: "stream_packets env len parse (tc_pending s @ plain) (tcp_view s) = ([], tcp_view s3)"
        using stream_whole[OF n, of env parse "tcp_view s"] by (simp add: r(1)[symmetric] all pv Let_def stream_unknown)
      let ?s4 = "s3\<lparr>tc_usingLargeBuffer := False, tc_largeBuffer := [], tc_offsetBytes := 0, tc_readBytes := 0\<rparr>"
      have z: "tc_leftBytes s2 = 0" using True by (simp add: s2_def)
      show ?thesis
      proof (cases "tc_socket s3")
        case False
        have "read_bytes env len parse bytes s = Some (True, s3)"
          using step \<open>?left \<noteq> 0\<close> le z s3 False by (simp add: s2_def Let_def)
        then show ?thesis by (rule follows_streamI[OF _ st]) (use False in blast)
      next
        case sock: True
        have st2: "read_bytes env len parse bytes s = Some (False, ?s4)"
          using step \<open>?left \<noteq> 0\<close> le z s3 sock by (simp add: s2_def Let_def)
        have v4: "tcp_view ?s4 = tcp_view s3" by (simp add: tcp_view_def)
        have small: "length (tc_smallBuffer s3) = kSmallBufferSize" using pf r(3) by (simp add: s2_def)
        then have ne3: "tc_smallBuffer s3 \<noteq> []" by (auto simp: kSmallBufferSize_def)
        have left3: "tc_leftBytes s3 = 0" using pf z by simp
        have "conn_ok len ?s4"
          using small ne3 left3 by (simp add: conn_ok_def tc_buffer_def tc_pending_def kSmallBufferSize_def kMinPacketBuffer_def)
        moreover have "tc_status s3 \<noteq> Finished"
          using view_packet_open[OF os, of env "the (parse (tc_pending s1))"] sock by (simp add: pv open_status_def)
        moreover have "tc_pending ?s4 = []" "tc_receive ?s4 = c" using pf f(3) by (simp_all add: tc_pending_def s2_def)
        ultimately show ?thesis
          using ne3 by (intro follows_streamI[OF st2, where r = "[]"]) (simp_all add: st v4)
      qed
    next
      case short: False
      have st: "stream_packets env len parse (tc_pending s @ plain) (tcp_view s) = (tc_pending s1, tcp_view s)"
        unfolding r(1)[symmetric] by (rule stream_unknown) (use lens len1 le short in simp)
      have view: "tcp_view (tcp_emit env ReceivedSome s2) = tcp_view s"
        using env(1) g(1) by (simp add: emit_progress slots_close_def)
      have st2: "read_bytes env len parse bytes s = Some (False, tcp_emit env ReceivedSome s2)"
        using step False le short by (simp add: s2_def Let_def)
      have "conn_ok len s2"
        unfolding conn_ok_def g(2,3) lens r(2)
        using r(3,4) ne f big le short by (simp add: s2_def)
      moreover have "tc_receive s2 = c" "tc_smallBuffer s2 \<noteq> []" using f(3) ne by (simp_all add: s2_def)
      moreover have "stream_packets env len parse (tc_pending s @ plain) (tcp_view s)
          = (tc_pending s1, tcp_view (tcp_emit env ReceivedSome s2))" by (simp only: st view)
      ultimately show ?thesis
        using g(2) ok(4) view_status[OF view] by (intro follows_streamI[OF st2, where r = "tc_pending s1"]) simp_all
    qed
  qed
qed

end

definition socket_chunks :: "byte list \<Rightarrow> byte list list \<Rightarrow> byte list list" where
  "socket_chunks bytes rest = (if bytes = [] then rest else bytes # rest)"

lemma socket_rest_chunks: "socket_rest bytes (map Bytes rest) = map Bytes (socket_chunks bytes rest)"
  by (simp add: socket_rest_def socket_chunks_def)

lemma concat_socket_chunks: "concat (socket_chunks bytes rest) = bytes @ concat rest"
  by (simp add: socket_chunks_def)

context packet_protocol
begin

lemma read_loop_ok:
  fixes s :: "('c, 'n) tcp_connection"
  assumes env: "slots_close (te_closes env)" "stream_cipher (te_decrypt env)"
  shows "conn_ok len s \<Longrightarrow> tc_smallBuffer s \<noteq> [] \<Longrightarrow> tc_socket s \<Longrightarrow> tc_status s \<noteq> Finished \<Longrightarrow> [] \<notin> set chunks
    \<Longrightarrow> follows_stream len (snd (te_decrypt env (tc_receive s) (concat chunks)))
      (stream_packets env len parse (tc_pending s @ fst (te_decrypt env (tc_receive s) (concat chunks))) (tcp_view s))
      (map_option (Pair False) (read_loop env len parse (map Bytes chunks) s))"
proof (induction "length (concat chunks) + length chunks" arbitrary: chunks s rule: less_induct)
  case less
  note h = less.prems
  note room = conn_ok_room[OF h(1,2)]
  have guard: "\<not> (read_limit s \<le> 0 \<or> int (length (tc_buffer s)) - int (tc_offsetBytes s) - int (tc_readBytes s) < read_limit s)"
    using room by linarith
  show ?case
  proof (cases chunks)
    case Nil
    have "read_loop env len parse (map Bytes chunks) s = Some s"
      by (subst read_loop.simps) (simp add: guard Nil del: not_le de_Morgan_disj)
    moreover have "stream_packets env len parse (tc_pending s) (tcp_view s) = (tc_pending s, tcp_view s)"
      using h(1,2) by (intro stream_unknown) (auto simp: conn_ok_def tc_pending_def split: if_splits)
    ultimately show ?thesis using Nil h env(2)
      by (intro follows_streamI[where ?s1.0 = s]) (simp_all add: stream_cipher_def)
  next
    case (Cons bytes rest)
    let ?n = "nat (read_limit s)"
    let ?now = "take ?n bytes" and ?later = "drop ?n bytes"
    have ne: "bytes \<noteq> []" "?now \<noteq> []" using h(5) Cons room(1) by auto
    define c1 where "c1 = snd (te_decrypt env (tc_receive s) ?now)"
    define P1 where "P1 = fst (te_decrypt env (tc_receive s) ?now)"
    define P2 where "P2 = fst (te_decrypt env c1 (?later @ concat rest))"
    have split: "te_decrypt env (tc_receive s) (concat chunks) = (P1 @ P2, snd (te_decrypt env c1 (?later @ concat rest)))"
    proof -
      have "concat chunks = ?now @ (?later @ concat rest)" using Cons by simp
      then show ?thesis using env(2) by (simp only: stream_cipher_def P1_def P2_def c1_def)
    qed
    have now: "int (length ?now) \<le> read_limit s" using room(1) by simp
    obtain returned s1 where s1: "read_bytes env len parse ?now s = Some (returned, s1)"
        "stream_packets env len parse (tc_pending s @ P1) (tcp_view s)
          = (fst (stream_packets env len parse (tc_pending s @ P1) (tcp_view s)), tcp_view s1)"
        "tc_socket s1 \<Longrightarrow> \<not> returned \<and> conn_ok len s1 \<and> tc_smallBuffer s1 \<noteq> [] \<and> tc_receive s1 = c1
          \<and> tc_status s1 \<noteq> Finished \<and> tc_pending s1 = fst (stream_packets env len parse (tc_pending s @ P1) (tcp_view s))"
      using follows_streamE[OF read_bytes_ok[OF env h(1-4) ne(2) now, folded c1_def P1_def]] by blast
    let ?rest = "socket_chunks ?later rest"
    have loop: "read_loop env len parse (map Bytes chunks) s =
        (if \<not> returned \<and> tc_socket s1 \<and> ?rest \<noteq> [] then read_loop env len parse (map Bytes ?rest) s1 else Some s1)"
      by (subst read_loop.simps) (simp add: guard Cons ne(1) s1(1) socket_rest_chunks del: not_le de_Morgan_disj)
    have os: "open_status (tcp_view s)" using h(3,4) by (simp add: open_status_def)
    have st: "stream_packets env len parse (tc_pending s @ P1 @ P2) (tcp_view s) =
        (if tc_socket s1 then stream_packets env len parse (tc_pending s1 @ P2) (tcp_view s1) else ([], tcp_view s1))"
      using stream_append[OF env(1) os, of parse "tc_pending s @ P1" P2] s1(3)
      by (subst (asm) s1(2)) (simp split: if_splits)
    show ?thesis
    proof (cases "tc_socket s1")
      case False
      have "read_loop env len parse (map Bytes chunks) s = Some s1" using loop False by simp
      moreover have "stream_packets env len parse (tc_pending s @ P1 @ P2) (tcp_view s) = ([], tcp_view s1)" using st False by simp
      ultimately show ?thesis
        by (intro follows_streamI[where ?s1.0 = s1 and returned = False and r = "[]"]) (use False in \<open>simp_all add: split\<close>)
    next
      case True
      note g = s1(3)[OF True]
      have c: "concat ?rest = ?later @ concat rest" by (rule concat_socket_chunks)
      have smaller: "length (concat ?rest) + length ?rest < length (concat chunks) + length chunks"
        using ne Cons by (auto simp: socket_chunks_def)
      have ih: "follows_stream len (snd (te_decrypt env c1 (?later @ concat rest)))
          (stream_packets env len parse (tc_pending s1 @ P2) (tcp_view s1))
          (map_option (Pair False) (read_loop env len parse (map Bytes ?rest) s1))"
        using less.hyps[OF smaller, of s1] g True h(5) Cons c
        by (simp add: P2_def socket_chunks_def split: if_splits)
      have last: "read_loop env len parse (map Bytes []) s1 = Some s1"
        using conn_ok_room[of s1] g by (subst read_loop.simps) auto
      have "read_loop env len parse (map Bytes chunks) s = read_loop env len parse (map Bytes ?rest) s1"
        using loop g True last by (cases "?rest = []") simp_all
      then show ?thesis using ih st True by (simp add: split)
    qed
  qed
qed

lemma socketRead_ok:
  fixes s :: "('c, 'n) tcp_connection"
  assumes env: "slots_close (te_closes env)" "stream_cipher (te_decrypt env)"
    and ok: "conn_ok len s" "tc_socket s" "tc_status s \<noteq> Finished" "[] \<notin> set chunks"
  shows "follows_stream len (snd (te_decrypt env (tc_receive s) (concat chunks)))
      (stream_packets env len parse (tc_pending s @ fst (te_decrypt env (tc_receive s) (concat chunks))) (tcp_view s))
      (map_option (Pair False) (socketRead env len parse (map Bytes chunks) s))"
proof -
  let ?s = "if tc_smallBuffer s = [] then s\<lparr>tc_smallBuffer := replicate kSmallBufferSize 0\<rparr> else s"
  have "tc_leftBytes s > 0 \<or> \<not> tc_usingLargeBuffer s" using ok(1) by (auto simp: conn_ok_def split: if_splits)
  then have step: "socketRead env len parse (map Bytes chunks) s = read_loop env len parse (map Bytes chunks) ?s"
    using ok(2) by (simp add: socketRead_def)
  have k: "kSmallBufferSize \<noteq> 0" "kMinPacketBuffer \<le> kSmallBufferSize" by (simp_all add: kSmallBufferSize_def kMinPacketBuffer_def)
  have f: "conn_ok len ?s" "tc_smallBuffer ?s \<noteq> []" "tc_pending ?s = tc_pending s" "tcp_view ?s = tcp_view s"
      "tc_receive ?s = tc_receive s" "tc_socket ?s" "tc_status ?s \<noteq> Finished"
    using ok k by (auto simp: conn_ok_def tc_pending_def tc_buffer_def tcp_view_def)
  show ?thesis unfolding step using read_loop_ok[OF env f(1,2,6,7) ok(4)] by (simp only: f(3-5))
qed

end

lemma follows_socketE:
  assumes "follows_stream len c result (map_option (Pair False) step)"
  obtains s1 where "step = Some s1" "result = (fst result, tcp_view s1)"
    "tc_socket s1 \<Longrightarrow> conn_ok len s1 \<and> tc_receive s1 = c \<and> tc_status s1 \<noteq> Finished \<and> tc_pending s1 = fst result"
  using assms by (auto simp: follows_stream_def prod_eq_iff)

context packet_protocol
begin

lemma readyRead_ok:
  fixes s :: "('c, 'n) tcp_connection"
  assumes env: "slots_close (te_closes env)" "stream_cipher (te_decrypt env)"
  shows "conn_ok len s \<Longrightarrow> tc_socket s \<Longrightarrow> tc_status s \<noteq> Finished \<Longrightarrow> \<forall>chunks\<in>set reads. [] \<notin> set chunks
    \<Longrightarrow> \<exists>s1. readyRead env len parse (map (map Bytes) reads) s = Some s1
      \<and> tcp_view s1 = snd (stream_packets env len parse
          (tc_pending s @ fst (te_decrypt env (tc_receive s) (concat (concat reads)))) (tcp_view s))
      \<and> (tc_socket s1 \<longrightarrow> conn_ok len s1 \<and> tc_status s1 \<noteq> Finished
          \<and> tc_receive s1 = snd (te_decrypt env (tc_receive s) (concat (concat reads)))
          \<and> tc_pending s1 = fst (stream_packets env len parse
              (tc_pending s @ fst (te_decrypt env (tc_receive s) (concat (concat reads)))) (tcp_view s)))"
proof (induction reads arbitrary: s)
  case Nil
  have "stream_packets env len parse (tc_pending s) (tcp_view s) = (tc_pending s, tcp_view s)"
  proof (cases "tc_leftBytes s = 0")
    case True
    then show ?thesis using Nil(1) by (intro stream_unknown) (auto simp: conn_ok_def tc_pending_def split: if_splits)
  next
    case False
    then have "len (tc_pending s) = int (tc_readBytes s + tc_leftBytes s)" "length (tc_pending s) \<le> tc_readBytes s"
      using Nil(1) by (auto simp: conn_ok_def tc_pending_def split: if_splits)
    then show ?thesis using False by (intro stream_unknown) auto
  qed
  then show ?case using Nil env(2) by (simp add: stream_cipher_def)
next
  case (Cons chunks reads)
  let ?d = "te_decrypt env"
  define P1 where "P1 = fst (?d (tc_receive s) (concat chunks))"
  define c1 where "c1 = snd (?d (tc_receive s) (concat chunks))"
  define P2 where "P2 = fst (?d c1 (concat (concat reads)))"
  have split: "?d (tc_receive s) (concat (concat (chunks # reads))) = (P1 @ P2, snd (?d c1 (concat (concat reads))))"
    using env(2) by (simp add: stream_cipher_def P1_def P2_def c1_def)
  have os: "open_status (tcp_view s)" using Cons.prems by (simp add: open_status_def)
  have "[] \<notin> set chunks" using Cons.prems(4) by simp
  from follows_socketE[OF socketRead_ok[OF env Cons.prems(1-3) this, folded c1_def P1_def]]
  obtain s1 where s1: "socketRead env len parse (map Bytes chunks) s = Some s1"
      "stream_packets env len parse (tc_pending s @ P1) (tcp_view s)
        = (fst (stream_packets env len parse (tc_pending s @ P1) (tcp_view s)), tcp_view s1)"
      "tc_socket s1 \<Longrightarrow> conn_ok len s1 \<and> tc_receive s1 = c1
        \<and> tc_status s1 \<noteq> Finished \<and> tc_pending s1 = fst (stream_packets env len parse (tc_pending s @ P1) (tcp_view s))"
    by blast
  have st: "stream_packets env len parse (tc_pending s @ P1 @ P2) (tcp_view s) =
      (if tc_socket s1 then stream_packets env len parse (tc_pending s1 @ P2) (tcp_view s1) else ([], tcp_view s1))"
    using stream_append[OF env(1) os, of parse "tc_pending s @ P1" P2] s1(3)
    by (subst (asm) s1(2)) (simp split: if_splits)
  have step: "readyRead env len parse (map (map Bytes) (chunks # reads)) s = readyRead env len parse (map (map Bytes) reads) s1"
    using s1(1) Cons.prems(2) by simp
  show ?case
  proof (cases "tc_socket s1")
    case False
    then have "readyRead env len parse (map (map Bytes) reads) s1 = Some s1" by (cases reads) simp_all
    then show ?thesis unfolding step split using st False by simp
  next
    case True
    have "\<forall>chunks\<in>set reads. [] \<notin> set chunks" using Cons.prems(4) by simp
    from Cons.IH[of s1, OF _ True _ this] s1(3)[OF True]
    show ?thesis unfolding step split fst_conv snd_conv st if_P[OF True] by (auto simp: P2_def)
  qed
qed

end

subsection \<open>Properties\<close>

lemma stream_of_packets:
  assumes "list_all2 (\<lambda>(random, rnd, buffer) bytes. finalizePacket random rnd p buffer = Some bytes
      \<and> packet_fits p random (length (drop 2 buffer)) \<and> 5 \<le> length buffer) sent packets"
    and "tv_status v = Ready" "tv_socket v" "\<not> te_closes env ReceivedData"
  shows "stream_packets env (readPacketLength p) (parsePacket p) (concat packets) v =
    ([], v\<lparr>tv_receivedQueue := tv_receivedQueue v @ map (\<lambda>(random, rnd, buffer). drop 2 buffer @ padding_ints p random rnd) sent,
           tv_signals := tv_signals v @ replicate (length sent) ReceivedData\<rparr>)"
  using assms
proof (induction arbitrary: v rule: list_all2_induct)
  case Nil
  then show ?case by (simp add: tcp.stream_unknown)
next
  case (Cons s sent bytes packets)
  obtain random rnd buffer where s: "s = (random, rnd, buffer)" by (cases s)
  from Cons.hyps(1) have f: "finalizePacket random rnd p buffer = Some bytes"
    "packet_fits p random (length (drop 2 buffer))" "5 \<le> length buffer" by (simp_all add: s)
  let ?data = "drop 2 buffer @ padding_ints p random rnd"
  let ?v = "v\<lparr>tv_receivedQueue := tv_receivedQueue v @ [?data], tv_signals := tv_signals v @ [ReceivedData]\<rparr>"
  have three: "\<not> length ?data < 3" using f(3) by simp
  have l: "readPacketLength p (bytes @ concat packets) = int (length bytes)"
    and r: "parsePacket p bytes = Some ?data"
    using packet_read_back[OF f(1), of "concat packets"] packet_read_back[OF f(1), of "[]"] f(2) three
    by (simp_all add: Let_def)
  have ne: "bytes \<noteq> []" using r by (auto simp: parsePacket_def readPacket_def readable_def tcp.len_Nil split: option.splits if_splits)
  have v: "view_packet env ?data v = ?v"
    using three Cons.prems by (simp add: view_packet_def view_emit_def)
  have "stream_packets env (readPacketLength p) (parsePacket p) (bytes @ concat packets) v
      = (let v1 = view_packet env (the (parsePacket p (take (length bytes) (bytes @ concat packets)))) v
         in if \<not> tv_socket v1 then ([], v1)
            else stream_packets env (readPacketLength p) (parsePacket p) (drop (length bytes) (bytes @ concat packets)) v1)"
    by (rule tcp.stream_whole) (use ne l in simp_all)
  also have "\<dots> = stream_packets env (readPacketLength p) (parsePacket p) (concat packets) ?v"
    using r v Cons.prems(2) by (simp add: Let_def)
  also have "\<dots> = ([], ?v\<lparr>tv_receivedQueue := tv_receivedQueue ?v @ map (\<lambda>(random, rnd, buffer). drop 2 buffer @ padding_ints p random rnd) sent,
           tv_signals := tv_signals ?v @ replicate (length sent) ReceivedData\<rparr>)"
    using Cons.prems by (intro Cons.IH) simp_all
  finally show ?case by (simp add: s replicate_append_same[symmetric])
qed

lemma new_connection_ok: "conn_ok len (new_connection c nonce)"
  by (simp add: conn_ok_def new_connection_def)

text \<open>A concrete environment: the key stream adds 85 to every byte's bits, and errors close.\<close>

definition example_env :: "(nat, nat) tcp_env" where
  "example_env = \<lparr>te_decrypt = (\<lambda>c bytes. (map (\<lambda>b. b XOR 0x55) bytes, c + length bytes)),
     te_res_pq = (\<lambda>_ _. None), te_closes = (\<lambda>sig. case sig of TcpError _ \<Rightarrow> True | _ \<Rightarrow> False)\<rparr>"

lemma example_env_ok: "slots_close (te_closes example_env)" "stream_cipher (te_decrypt example_env)"
    "\<not> te_closes example_env ReceivedData"
  by (simp_all add: example_env_def slots_close_def stream_cipher_def)

text \<open>
  C2: However the bytes of a connection are cut into reads, by the network and by the limits of
  the two buffers, no assertion fails, and the connection is left as if the decrypted bytes had
  been one stream whose packets are handled as soon as they are complete: same status, same
  received packets, same signals, and, unless the connection was closed by a bad or an unexpected
  packet, the same incomplete packet pending. This needs that an error closes the connection.
\<close>

theorem tcp_stream_refined:
  assumes "slots_close (te_closes env)" "stream_cipher (te_decrypt env)"
    and "conn_ok (readPacketLength p) s" "tc_socket s" "tc_status s \<noteq> Finished"
    and "\<forall>chunks\<in>set reads. [] \<notin> set chunks"
  shows "\<exists>s1. readyRead env (readPacketLength p) (parsePacket p) (map (map Bytes) reads) s = Some s1
    \<and> (let received = te_decrypt env (tc_receive s) (concat (concat reads));
           (rest, v) = stream_packets env (readPacketLength p) (parsePacket p) (tc_pending s @ fst received) (tcp_view s)
       in tcp_view s1 = v \<and> (tc_socket s1 \<longrightarrow> conn_ok (readPacketLength p) s1 \<and> tc_status s1 \<noteq> Finished
            \<and> tc_receive s1 = snd received \<and> tc_pending s1 = rest))"
  using tcp.readyRead_ok[OF assms] by (simp add: Let_def split_beta)

theorem tcp_stream_refined_witness:
  "\<exists>s1. readyRead example_env (readPacketLength Version0) (parsePacket Version0)
      (map (map Bytes) [[[0x54, 0x55], [0x55, 0x55]], [[0x55, 0x57]]]) (new_connection 0 0) = Some s1
    \<and> tc_socket s1 \<and> tc_pending s1 = [2]"
proof -
  have st: "stream_packets example_env (readPacketLength Version0) (parsePacket Version0) [1, 0, 0, 0, 0, 2]
      (tcp_view (new_connection 0 0 :: (nat, nat) tcp_connection)) = ([2], tcp_view (new_connection 0 0 :: (nat, nat) tcp_connection))"
    by code_simp
  have plain: "tc_pending (new_connection 0 0 :: (nat, nat) tcp_connection)
      @ fst (te_decrypt example_env (tc_receive (new_connection 0 0 :: (nat, nat) tcp_connection))
          (concat (concat [[[0x54, 0x55], [0x55, 0x55]], [[0x55, 0x57]]]))) = [1, 0, 0, 0, 0, 2]"
    by code_simp
  have ok: "tc_socket (new_connection 0 0 :: (nat, nat) tcp_connection)"
      "tc_status (new_connection 0 0 :: (nat, nat) tcp_connection) \<noteq> Finished"
      "\<forall>chunks\<in>set [[[0x54, 0x55], [0x55, 0x55]], [[0x55, 0x57 :: byte]]]. [] \<notin> set chunks"
    by (simp_all add: new_connection_def)
  obtain s1 where s1: "readyRead example_env (readPacketLength Version0) (parsePacket Version0)
      (map (map Bytes) [[[0x54, 0x55], [0x55, 0x55]], [[0x55, 0x57]]]) (new_connection 0 0) = Some s1"
    and view: "tcp_view s1 = tcp_view (new_connection 0 0 :: (nat, nat) tcp_connection)"
    and rest: "tc_socket s1 \<longrightarrow> conn_ok (readPacketLength Version0) s1 \<and> tc_status s1 \<noteq> Finished
        \<and> tc_receive s1 = snd (te_decrypt example_env (tc_receive (new_connection 0 0 :: (nat, nat) tcp_connection))
          (concat (concat [[[0x54, 0x55], [0x55, 0x55]], [[0x55, 0x57]]]))) \<and> tc_pending s1 = [2]"
    using tcp_stream_refined[where p = Version0, OF example_env_ok(1,2) new_connection_ok ok, unfolded Let_def plain st case_prod_conv]
    by (elim exE conjE)
  have sock: "tc_socket s1" using view_status[OF view] ok(1) by simp
  with rest have "tc_pending s1 = [2]" by (elim impE conjE)
  with s1 sock show ?thesis by (intro exI conjI)
qed

text \<open>
  C19: Packets made by the same version of the protocol, each of three integers or more and within
  the size that can be read, arrive on a connection that is ready exactly as sent and in order,
  however the stream of their bytes is cut into reads; the connection stays open and nothing
  is left in its buffers.
\<close>

theorem tcp_packets_delivered:
  assumes "slots_close (te_closes env)" "\<not> te_closes env ReceivedData" "stream_cipher (te_decrypt env)"
    and "conn_ok (readPacketLength p) s" "tc_socket s" "tc_status s = Ready" "tc_pending s = []"
    and "\<forall>chunks\<in>set reads. [] \<notin> set chunks"
    and "list_all2 (\<lambda>(random, rnd, buffer) bytes. finalizePacket random rnd p buffer = Some bytes
      \<and> packet_fits p random (length (drop 2 buffer)) \<and> 5 \<le> length buffer) sent packets"
    and "fst (te_decrypt env (tc_receive s) (concat (concat reads))) = concat packets"
  shows "\<exists>s1. readyRead env (readPacketLength p) (parsePacket p) (map (map Bytes) reads) s = Some s1
    \<and> tc_socket s1 \<and> tc_status s1 = Ready \<and> tc_pending s1 = []
    \<and> tc_receivedQueue s1 = tc_receivedQueue s
        @ map (\<lambda>(random, rnd, buffer). drop 2 buffer @ padding_ints p random rnd) sent"
proof -
  have st: "tc_status s \<noteq> Finished" using assms(6) by simp
  obtain s1 where s1: "readyRead env (readPacketLength p) (parsePacket p) (map (map Bytes) reads) s = Some s1"
      "tcp_view s1 = snd (stream_packets env (readPacketLength p) (parsePacket p) (concat packets) (tcp_view s))"
      "tc_socket s1 \<longrightarrow> tc_pending s1 = fst (stream_packets env (readPacketLength p) (parsePacket p) (concat packets) (tcp_view s))"
    using tcp.readyRead_ok[OF assms(1,3-5) st assms(8)] assms(7,10) by auto
  have v: "tv_status (tcp_view s) = Ready" "tv_socket (tcp_view s)" using assms(5,6) by simp_all
  have "tv_socket (tcp_view s1)" "tv_status (tcp_view s1) = Ready"
    "tv_receivedQueue (tcp_view s1) = tc_receivedQueue s @ map (\<lambda>(random, rnd, buffer). drop 2 buffer @ padding_ints p random rnd) sent"
    unfolding s1(2) stream_of_packets[OF assms(9) v assms(2)] using v by simp_all
  then show ?thesis using s1(1,3) stream_of_packets[OF assms(9) v assms(2)] by simp
qed

theorem tcp_packets_delivered_witness:
  "let s = (new_connection 0 0 :: (nat, nat) tcp_connection)\<lparr>tc_status := Ready\<rparr>;
       bytes = map (\<lambda>b. b XOR 0x55) (v0_header 3 @ buffer_bytes [1, 2, 3])
   in \<exists>s1. readyRead example_env (readPacketLength Version0) (parsePacket Version0)
        (map (map Bytes) [[take 3 bytes], [drop 3 bytes]]) s = Some s1 \<and> tc_receivedQueue s1 = [[1, 2, 3]]"
proof -
  let ?s = "(new_connection 0 0 :: (nat, nat) tcp_connection)\<lparr>tc_status := Ready\<rparr>"
  let ?b = "v0_header 3 @ buffer_bytes [1, 2, 3]"
  let ?x = "map (\<lambda>b. b XOR 0x55) ?b"
  have f: "finalizePacket 0 (\<lambda>_. 0) Version0 [0, 0, 1, 2, 3] = Some ?b"
    using v0_finalizePacket_eq[of "[0, 0, 1, 2, 3]"] by (simp add: numeral_3_eq_3)
  have len: "length ?b = 13" by (simp add: v0_header_length)
  have ne: "[] \<notin> set [take 3 ?x]" "[] \<notin> set [drop 3 ?x]" using len by (auto dest: arg_cong[where f = length])
  have ok: "conn_ok (readPacketLength Version0) ?s" "tc_socket ?s" "tc_status ?s = Ready" "tc_pending ?s = []"
    by (simp_all add: new_connection_def conn_ok_def tc_pending_def)
  have sent: "list_all2 (\<lambda>(random, rnd, buffer) bytes. finalizePacket random rnd Version0 buffer = Some bytes
      \<and> packet_fits Version0 random (length (drop 2 buffer)) \<and> 5 \<le> length buffer)
      [(0, \<lambda>_. 0, [0, 0, 1, 2, 3])] [?b]"
    using f by simp
  have whole: "concat (concat [[take n x], [drop n x]]) = x" for n and x :: "byte list" by simp
  have plain: "fst (te_decrypt example_env (tc_receive ?s) (concat (concat [[take 3 ?x], [drop 3 ?x]]))) = concat [?b]"
    using whole[of 3 ?x] by (simp only: whole) (simp add: example_env_def o_def xor.assoc)
  have ne2: "\<forall>chunks\<in>set [[take 3 ?x], [drop 3 ?x]]. [] \<notin> set chunks" using ne by simp
  obtain s1 where s1: "readyRead example_env (readPacketLength Version0) (parsePacket Version0)
        (map (map Bytes) [[take 3 ?x], [drop 3 ?x]]) ?s = Some s1"
      "tc_receivedQueue s1 = tc_receivedQueue ?s
        @ map (\<lambda>(random, rnd, buffer). drop 2 buffer @ padding_ints Version0 random rnd) [(0, \<lambda>_. 0, [0, 0, 1, 2, 3])]"
    using tcp_packets_delivered[OF example_env_ok(1,3,2) ok ne2 sent plain] by (elim exE conjE)
  from s1(2) have "tc_receivedQueue s1 = [[1, 2, 3]]" by (simp add: new_connection_def)
  with s1(1) show ?thesis unfolding Let_def by (intro exI conjI)
qed

text \<open>
  C31: When nothing closes the connection on the error of a bad length, the buffer is never
  emptied again: once a fresh connection has read a small buffer full of bytes that begin with a
  bad length, the next read fails the assertion that there is room in the buffer.
\<close>

theorem tcp_bad_length_stuck:
  assumes "stream_cipher (te_decrypt env)" "\<not> te_closes env (TcpError kErrorCodeOther)"
    and "length bytes = kSmallBufferSize"
    and "readPacketLength p (fst (te_decrypt env c bytes)) = kInvalidSize"
  shows "\<exists>s1. socketRead env (readPacketLength p) (parsePacket p) [Bytes bytes] (new_connection c nonce) = Some s1
    \<and> tc_signals s1 = [TcpError kErrorCodeOther]
    \<and> socketRead env (readPacketLength p) (parsePacket p) input s1 = None"
proof -
  let ?plain = "fst (te_decrypt env c bytes)"
  let ?s = "(new_connection c nonce)\<lparr>tc_smallBuffer := replicate kSmallBufferSize (0 :: byte)\<rparr>"
  let ?r = "set_tc_buffer ?plain (?s\<lparr>tc_receive := snd (te_decrypt env c bytes), tc_readBytes := kSmallBufferSize\<rparr>)"
  let ?e = "tcp_emit env (TcpError kErrorCodeOther) ?r"
  have k: "kSmallBufferSize \<noteq> 0" by (simp add: kSmallBufferSize_def)
  have lp: "length ?plain = kSmallBufferSize" using assms(1,3) by (simp add: stream_cipher_def)
  have w: "write_at 0 ?plain (replicate kSmallBufferSize 0) = ?plain" by (simp add: write_at_def lp)
  have limit: "read_limit ?s = int kSmallBufferSize" by (simp add: read_limit_def new_connection_def)
  have g: "length (tc_buffer ?s) = kSmallBufferSize" "tc_offsetBytes ?s = 0" "tc_readBytes ?s = 0"
    by (simp_all add: tc_buffer_def new_connection_def)
  have neq: "kInvalidSize \<noteq> kUnknownSize" "kInvalidSize \<le> 0" by (simp_all add: kInvalidSize_def kUnknownSize_def)
  have packets: "read_packets env (readPacketLength p) (parsePacket p) ?plain ?r = Some (True, ?e)"
    using k by (subst read_packets.simps) (simp add: assms(4) neq Let_def)
  have bytes: "read_bytes env (readPacketLength p) (parsePacket p) bytes ?s = Some (True, ?e)"
    using packets lp w assms(3) by (simp add: read_bytes_def split_beta Let_def new_connection_def tc_buffer_def)
  have ne: "bytes \<noteq> []" using assms(3) k by auto
  have loop: "read_loop env (readPacketLength p) (parsePacket p) [Bytes bytes] ?s = Some ?e"
    by (subst read_loop.simps) (simp add: limit g k ne assms(3) bytes)
  have "socketRead env (readPacketLength p) (parsePacket p) [Bytes bytes] (new_connection c nonce) = Some ?e"
    using loop by (simp add: socketRead_def new_connection_def)
  moreover have "tc_signals ?e = [TcpError kErrorCodeOther]"
    using assms(2) by (simp add: tcp_emit_def set_tc_buffer_def new_connection_def)
  moreover have "socketRead env (readPacketLength p) (parsePacket p) input ?e = None"
  proof -
    have "tc_socket ?e" "\<not> tc_usingLargeBuffer ?e" "tc_smallBuffer ?e = ?plain" "read_limit ?e \<le> 0"
      using assms(2) by (simp_all add: tcp_emit_def set_tc_buffer_def new_connection_def read_limit_def)
    moreover have "?plain \<noteq> []" using lp k by auto
    ultimately show ?thesis by (simp add: socketRead_def read_loop.simps)
  qed
  ultimately show ?thesis by blast
qed

theorem tcp_bad_length_stuck_witness:
  "let env = example_env\<lparr>te_closes := \<lambda>_. False\<rparr>
   in \<exists>s1. socketRead env (readPacketLength Version0) (parsePacket Version0)
        [Bytes (replicate kSmallBufferSize 0x55)] (new_connection 0 0) = Some s1
      \<and> socketRead env (readPacketLength Version0) (parsePacket Version0) [Bytes [1]] s1 = None"
proof -
  let ?env = "example_env\<lparr>te_closes := \<lambda>_. False\<rparr>"
  have p: "fst (te_decrypt ?env 0 (replicate kSmallBufferSize 0x55)) = replicate kSmallBufferSize 0"
    by (simp add: example_env_def map_replicate)
  have k: "kSmallBufferSize = Suc (kSmallBufferSize - 1)" by (simp add: kSmallBufferSize_def)
  have "readPacketLength Version0 (replicate kSmallBufferSize 0) = kInvalidSize"
    by (subst k) (simp add: v0_readPacketLength_def)
  moreover have "stream_cipher (te_decrypt ?env)" using example_env_ok(2) by simp
  ultimately show ?thesis
    using tcp_bad_length_stuck[of ?env "replicate kSmallBufferSize 0x55" Version0 0 0 "[Bytes [1]]"] p
    unfolding Let_def by auto
qed

end
