(* ===== verification/TcpStart.thy ===== *)
theory TcpStart
  imports TcpConnection
begin

text \<open>
  What a TCP connection sends: the first 64 bytes with the keys of both directions
  (\<open>prepareConnectionStartPrefix\<close>, \<open>sendData\<close> in \<open>mtproto/connection_tcp.cpp\<close>) and the check of
  the first random bytes in \<open>mtproto/details/mtproto_tcp_socket.cpp\<close>. The random bytes are a
  list of draws; the loop that draws until a good one comes gives \<open>None\<close> when the list holds
  none. OpenSSL's SHA-256 and counter mode are arguments.
\<close>

subsection \<open>Keys\<close>

record ctr_state =
  cs_ivec :: "byte list"
  cs_num :: prime
  cs_ecount :: "byte list"

record tcp_keys =
  tk_connectionStarted :: bool
  tk_sendKey :: "byte list"
  tk_sendState :: ctr_state
  tk_receiveKey :: "byte list"
  tk_receiveState :: ctr_state

definition isGoodStartNonce :: "byte list \<Rightarrow> bool option" where
  "isGoodStartNonce nonce =
     (if length nonce < 8 then None
      else let zero = nonce ! 0;
               first = bytes_prime (nonce ! 0) (nonce ! 1) (nonce ! 2) (nonce ! 3);
               second = bytes_prime (nonce ! 4) (nonce ! 5) (nonce ! 6) (nonce ! 7)
           in Some (zero \<noteq> 0xEF \<and> first \<noteq> 0x44414548 \<and> first \<noteq> 0x54534F50 \<and> first \<noteq> 0x20544547
             \<and> first \<noteq> 0xEEEEEEEE \<and> first \<noteq> 0xDDDDDDDD \<and> first \<noteq> 0x02010316 \<and> second \<noteq> 0))"

fun first_good :: "(byte list \<Rightarrow> bool option) \<Rightarrow> byte list list \<Rightarrow> byte list option" where
  "first_good good [] = None"
| "first_good good (nonce # nonces) =
     (case good nonce of
        None \<Rightarrow> None
      | Some True \<Rightarrow> Some nonce
      | Some False \<Rightarrow> first_good good nonces)"

text \<open>The two bytes of the 16-bit number of the data center, lowest first.\<close>

definition short_bytes :: "16 word \<Rightarrow> byte list" where
  "short_bytes w = [ucast w, ucast (drop_bit 8 w)]"

definition prepareConnectionStartPrefix ::
    "(byte list \<Rightarrow> ctr_state \<Rightarrow> byte list \<Rightarrow> byte list \<times> ctr_state) \<Rightarrow> (byte list \<Rightarrow> byte list)
     \<Rightarrow> (byte list \<Rightarrow> bool option) \<Rightarrow> byte list list \<Rightarrow> protocol \<Rightarrow> 16 word \<Rightarrow> tcp_keys
     \<Rightarrow> (byte list \<times> tcp_keys) option" where
  "prepareConnectionStartPrefix aesCtr sha256 good nonces p protocolDcId s =
     (if tk_connectionStarted s then Some ([], s)
      else case first_good good nonces of
        None \<Rightarrow> None
      | Some nonce \<Rightarrow>
          let sendKey = prepareKey sha256 p (take 32 (drop 8 nonce));
              sendState = (tk_sendState s)\<lparr>cs_ivec := take 16 (drop 40 nonce)\<rparr>;
              reversed = rev (take 48 (drop 8 nonce));
              receiveKey = prepareKey sha256 p (take 32 reversed);
              receiveState = (tk_receiveState s)\<lparr>cs_ivec := take 16 (drop 32 reversed)\<rparr>;
              nonce1 = write_at 60 (short_bytes protocolDcId) (write_at 56 (prime_bytes (protocol_id p)) nonce);
              buffer = take 56 nonce1;
              (nonce2, sendState1) = aesCtr sendKey sendState nonce1
          in Some (buffer @ drop 56 nonce2,
               \<lparr>tk_connectionStarted = True, tk_sendKey = sendKey, tk_sendState = sendState1,
                tk_receiveKey = receiveKey, tk_receiveState = receiveState\<rparr>))"

text \<open>\<open>sendData\<close>: the start of the connection once, then the encrypted packet.\<close>

definition sendData ::
    "(byte list \<Rightarrow> ctr_state \<Rightarrow> byte list \<Rightarrow> byte list \<times> ctr_state) \<Rightarrow> (byte list \<Rightarrow> byte list)
     \<Rightarrow> (byte list \<Rightarrow> bool option) \<Rightarrow> byte list list \<Rightarrow> prime \<Rightarrow> (nat \<Rightarrow> prime) \<Rightarrow> protocol \<Rightarrow> 16 word
     \<Rightarrow> prime list \<Rightarrow> tcp_keys \<Rightarrow> (byte list \<times> tcp_keys) option" where
  "sendData aesCtr sha256 good nonces random rnd p protocolDcId buffer s =
     (if \<not> 2 < length buffer then None
      else case prepareConnectionStartPrefix aesCtr sha256 good nonces p protocolDcId s of
        None \<Rightarrow> None
      | Some (connectionStartPrefix, s1) \<Rightarrow>
          (case finalizePacket random rnd p buffer of
             None \<Rightarrow> None
           | Some bytes \<Rightarrow>
               let (encrypted, sendState) = aesCtr (tk_sendKey s1) (tk_sendState s1) bytes
               in Some (connectionStartPrefix @ encrypted, s1\<lparr>tk_sendState := sendState\<rparr>)))"

text \<open>What a relay with the same secret does with the first 64 bytes it gets.\<close>

definition relay_keys :: "(byte list \<Rightarrow> byte list) \<Rightarrow> protocol \<Rightarrow> byte list \<Rightarrow> (byte list \<times> byte list) \<times> (byte list \<times> byte list)" where
  "relay_keys sha256 p start =
     ((prepareKey sha256 p (take 32 (drop 8 start)), take 16 (drop 40 start)),
      (prepareKey sha256 p (take 32 (rev (take 48 (drop 8 start)))), take 16 (drop 32 (rev (take 48 (drop 8 start))))))"

text \<open>Counter mode: every byte is combined with the key stream at its position.\<close>

definition counter_mode :: "(byte list \<Rightarrow> ctr_state \<Rightarrow> byte list \<Rightarrow> byte list \<times> ctr_state) \<Rightarrow> bool" where
  "counter_mode aesCtr \<longleftrightarrow> (\<exists>stream. \<forall>key st data.
     fst (aesCtr key st data) = map (\<lambda>i. data ! i XOR stream key st i) [0..<length data]
     \<and> (\<forall>more. fst (aesCtr key (snd (aesCtr key st data)) more) = drop (length data) (fst (aesCtr key st (data @ more)))))"

lemma counter_mode_length: "counter_mode aesCtr \<Longrightarrow> length (fst (aesCtr key st data)) = length data"
  by (auto simp: counter_mode_def)

lemma counter_mode_twice:
  assumes "counter_mode aesCtr" "m \<le> length data"
  shows "drop m (fst (aesCtr key st (take m data @ drop m (fst (aesCtr key st data))))) = drop m data"
proof -
  obtain stream where s: "fst (aesCtr key st d) = map (\<lambda>i. d ! i XOR stream key st i) [0..<length d]" for d
    using assms(1) unfolding counter_mode_def by metis
  show ?thesis
    using assms(2) by (intro nth_equalityI) (auto simp: s nth_append xor.assoc min_def)
qed

lemma counter_mode_append:
  assumes "counter_mode aesCtr"
  shows "fst (aesCtr key st (data @ tail)) = fst (aesCtr key st data) @ fst (aesCtr key (snd (aesCtr key st data)) tail)"
proof -
  obtain stream where s: "fst (aesCtr key st d) = map (\<lambda>i. d ! i XOR stream key st i) [0..<length d]"
    and m: "fst (aesCtr key (snd (aesCtr key st d)) e) = drop (length d) (fst (aesCtr key st (d @ e)))" for d e
    using assms unfolding counter_mode_def by metis
  have "take (length data) (fst (aesCtr key st (data @ tail))) = fst (aesCtr key st data)"
    by (intro nth_equalityI) (auto simp: s nth_append)
  then show ?thesis using m[of data tail] by (metis append_take_drop_id)
qed

lemma first_good_in: "first_good good nonces = Some nonce \<Longrightarrow> nonce \<in> set nonces \<and> good nonce = Some True"
  by (induction nonces) (auto split: option.splits bool.splits)

text \<open>
  The first thing sent on a connection begins with 56 random bytes that the socket's check
  accepted. With them and the secret a relay has the key and the initial vector of both directions, and
  decrypting what it got it reads the number of the protocol's version, the number of the data
  center and the first packet.
\<close>

theorem tcp_start_readable:
  assumes "counter_mode aesCtr" "\<not> tk_connectionStarted s" "\<forall>nonce\<in>set nonces. length nonce = 64"
    and "sendData aesCtr sha256 good nonces random rnd p dc buffer s = Some (sent, s1)"
  shows "let ((readKey, readIvec), (writeKey, writeIvec)) = relay_keys sha256 p sent;
             plain = fst (aesCtr readKey ((tk_sendState s)\<lparr>cs_ivec := readIvec\<rparr>) sent)
         in take 4 (drop 56 plain) = prime_bytes (protocol_id p) \<and> take 2 (drop 60 plain) = short_bytes dc
           \<and> finalizePacket random rnd p buffer = Some (drop 64 plain)
           \<and> writeKey = tk_receiveKey s1 \<and> writeIvec = cs_ivec (tk_receiveState s1)
           \<and> (\<exists>nonce\<in>set nonces. good nonce = Some True \<and> take 56 sent = take 56 nonce)"
proof -
  obtain prefix s0 bytes where parts: "prepareConnectionStartPrefix aesCtr sha256 good nonces p dc s = Some (prefix, s0)"
      "finalizePacket random rnd p buffer = Some bytes"
      "sent = prefix @ fst (aesCtr (tk_sendKey s0) (tk_sendState s0) bytes)"
      "s1 = s0\<lparr>tk_sendState := snd (aesCtr (tk_sendKey s0) (tk_sendState s0) bytes)\<rparr>"
    using assms(4) by (auto simp: sendData_def split_beta Let_def split: if_splits option.splits)
  obtain nonce where n: "first_good good nonces = Some nonce"
    using parts(1) assms(2) by (auto simp: prepareConnectionStartPrefix_def split: option.splits)
  have good: "nonce \<in> set nonces" "good nonce = Some True" "length nonce = 64"
    using first_good_in[OF n] assms(3) by auto
  define n1 where "n1 = write_at 60 (short_bytes dc) (write_at 56 (prime_bytes (protocol_id p)) nonce)"
  define key where "key = prepareKey sha256 p (take 32 (drop 8 nonce))"
  define st where "st = (tk_sendState s)\<lparr>cs_ivec := take 16 (drop 40 nonce)\<rparr>"
  have n1: "length n1 = 64" "take 56 n1 = take 56 nonce" "take 4 (drop 56 n1) = prime_bytes (protocol_id p)"
      "take 2 (drop 60 n1) = short_bytes dc"
    using good(3) by (simp_all add: n1_def write_at_def short_bytes_def)
  have s0: "prefix = take 56 n1 @ drop 56 (fst (aesCtr key st n1))" "tk_sendKey s0 = key"
      "tk_sendState s0 = snd (aesCtr key st n1)"
      "tk_receiveKey s0 = prepareKey sha256 p (take 32 (rev (take 48 (drop 8 nonce))))"
      "cs_ivec (tk_receiveState s0) = take 16 (drop 32 (rev (take 48 (drop 8 nonce))))"
    using parts(1) assms(2) n
    by (auto simp: prepareConnectionStartPrefix_def Let_def split_beta key_def st_def n1_def)
  let ?d = "n1 @ bytes"
  have sent: "sent = take 56 ?d @ drop 56 (fst (aesCtr key st ?d))"
    using n1(1) counter_mode_length[OF assms(1)]
    by (simp add: parts(3) s0(1-3) counter_mode_append[OF assms(1)])
  have t56: "take 56 sent = take 56 nonce"
    using n1(1,2) good(3) counter_mode_length[OF assms(1)] by (simp add: sent)
  have prefixes: "take 32 (drop 8 sent) = take 32 (drop 8 nonce)" "take 16 (drop 40 sent) = take 16 (drop 40 nonce)"
      "take 48 (drop 8 sent) = take 48 (drop 8 nonce)"
  proof -
    have "take 40 sent = take 40 nonce" using arg_cong[OF t56, of "take 40"] by simp
    then show "take 32 (drop 8 sent) = take 32 (drop 8 nonce)" by (simp add: take_drop)
    show "take 16 (drop 40 sent) = take 16 (drop 40 nonce)" "take 48 (drop 8 sent) = take 48 (drop 8 nonce)"
      using t56 by (simp_all add: take_drop)
  qed
  have relay: "relay_keys sha256 p sent = ((key, take 16 (drop 40 nonce)), (tk_receiveKey s1, cs_ivec (tk_receiveState s1)))"
    by (simp add: relay_keys_def prefixes key_def parts(4) s0(4,5))
  define plain where "plain = fst (aesCtr key st sent)"
  have plain: "drop 56 plain = drop 56 ?d"
    unfolding plain_def sent using n1(1) by (intro counter_mode_twice[OF assms(1)]) simp
  have p1: "take 4 (drop 56 plain) = prime_bytes (protocol_id p)" using plain n1(1,3) by simp
  have p2: "take 2 (drop 60 plain) = short_bytes dc"
    using arg_cong[OF plain, of "drop 4"] n1(1,4) by simp
  have p3: "drop 64 plain = bytes" using arg_cong[OF plain, of "drop 8"] n1(1) by simp
  show ?thesis
    unfolding relay Let_def case_prod_conv st_def[symmetric] plain_def[symmetric]
    using p1 p2 p3 parts(2) good t56 by blast
qed

definition example_ctr :: "byte list \<Rightarrow> ctr_state \<Rightarrow> byte list \<Rightarrow> byte list \<times> ctr_state" where
  "example_ctr key st data = (map (\<lambda>b. b XOR 0x55) data, st)"

lemma example_ctr_ok: "counter_mode example_ctr"
  unfolding counter_mode_def example_ctr_def
  by (rule exI[of _ "\<lambda>_ _ _. 0x55"]) (auto intro: nth_equalityI)

theorem tcp_start_readable_witness:
  "let nonce = replicate 64 1; st = \<lparr>cs_ivec = [], cs_num = 0, cs_ecount = []\<rparr>;
       s = \<lparr>tk_connectionStarted = False, tk_sendKey = [], tk_sendState = st, tk_receiveKey = [], tk_receiveState = st\<rparr>
   in \<exists>sent s1. sendData example_ctr (\<lambda>x. x) isGoodStartNonce [nonce] 0 (\<lambda>_. 0) Version0 2 [0, 0, 7] s = Some (sent, s1)
     \<and> take 2 (drop 60 (fst (example_ctr (take 32 (drop 8 sent)) (st\<lparr>cs_ivec := take 16 (drop 40 sent)\<rparr>) sent))) = [2, 0]"
proof -
  let ?nonce = "replicate 64 (1 :: byte)"
  let ?st = "\<lparr>cs_ivec = [], cs_num = 0, cs_ecount = []\<rparr>"
  let ?s = "\<lparr>tk_connectionStarted = False, tk_sendKey = [], tk_sendState = ?st, tk_receiveKey = [], tk_receiveState = ?st\<rparr>"
  have good: "isGoodStartNonce ?nonce = Some True" by code_simp
  have f: "v0_finalizePacket [0, 0, 7] = Some (v0_header 1 @ buffer_bytes [7])"
    using v0_finalizePacket_eq[of "[0, 0, 7]"] by simp
  have "\<exists>x. sendData example_ctr (\<lambda>x. x) isGoodStartNonce [?nonce] 0 (\<lambda>_. 0) Version0 2 [0, 0, 7] ?s = Some x"
    by (simp add: sendData_def prepareConnectionStartPrefix_def good f split_beta Let_def)
  then obtain sent s1 where out: "sendData example_ctr (\<lambda>x. x) isGoodStartNonce [?nonce] 0 (\<lambda>_. 0) Version0 2 [0, 0, 7] ?s = Some (sent, s1)"
    by auto
  have "take 2 (drop 60 (fst (example_ctr (take 32 (drop 8 sent)) (?st\<lparr>cs_ivec := take 16 (drop 40 sent)\<rparr>) sent))) = short_bytes 2"
    using tcp_start_readable[OF example_ctr_ok _ _ out] by (simp add: relay_keys_def Let_def)
  moreover have "short_bytes 2 = [2, 0]" by (simp add: short_bytes_def drop_bit_eq_div)
  ultimately show ?thesis using out unfolding Let_def by auto
qed

end
