(* ===== verification/DcKeyCreator.thy ===== *)
theory DcKeyCreator
  imports TcpProtocol
begin

text \<open>
  The factorisation that a new authorization key starts with, from
  \<open>mtproto/details/mtproto_dc_key_creator.cpp\<close>: the binary greatest common divisor and
  Pollard's method on unsigned 64-bit integers, which wrap as \<open>64 word\<close>s do. A loop that would
  not end gives \<open>None\<close>. Random values are functions of the number of the draw. The numbers
  above 63 bits, factored with OpenSSL's big numbers in \<open>FactorizeBigPQ\<close>, are an argument.
\<close>

type_synonym u64 = "64 word"

subsection \<open>Greatest common divisor\<close>

lemma unat_drop_one: "unat (drop_bit 1 (a :: u64)) = unat a div 2"
  by (simp add: drop_bit_Suc unat_div)

lemma and_one_zero: "(a :: u64) AND 1 = 0 \<longleftrightarrow> even (unat a)"
proof -
  have "(a AND 1 = 0) = (unat (a mod 2) = 0)" by (simp only: and_one_eq word_unat_eq_iff unat_0)
  also have "unat (a mod 2) = unat a mod 2" by (simp add: unat_mod)
  finally show ?thesis by presburger
qed

lemma unat_half_less: "(a :: u64) \<noteq> 0 \<Longrightarrow> unat (drop_bit 1 a) < unat a"
  by (simp only: unat_drop_one) (simp add: unat_gt_0)

text \<open>\<open>while ((a & 1) == 0) a >>= 1\<close>, which does not end for zero.\<close>

function drop_twos :: "u64 \<Rightarrow> u64 option" where
  "drop_twos a = (if a = 0 then None else if a AND 1 = 0 then drop_twos (drop_bit 1 a) else Some a)"
  by pat_completeness auto
termination
  by (relation "measure unat") (use unat_half_less in auto)

lemma half_sum_less: "\<not> ((a :: u64) = 0 \<and> (b :: u64) = 0) \<Longrightarrow> unat (drop_bit 1 a) + unat (drop_bit 1 b) < unat a + unat b"
proof -
  assume "\<not> (a = 0 \<and> b = 0)"
  then have "0 < unat a + unat b" by (auto simp: unat_gt_0)
  then show ?thesis by (simp only: unat_drop_one)
qed

text \<open>The loop that divides both numbers by two; it does not end for two zeros.\<close>

function common_twos :: "u64 \<Rightarrow> u64 \<Rightarrow> nat \<Rightarrow> (u64 \<times> u64 \<times> nat) option" where
  "common_twos a b shift =
     (if a = 0 \<and> b = 0 then None
      else if a AND 1 = 0 \<and> b AND 1 = 0 then common_twos (drop_bit 1 a) (drop_bit 1 b) (shift + 1)
      else Some (a, b, shift))"
  by pat_completeness auto
termination
  by (relation "measure (\<lambda>(a, b, shift). unat a + unat b)") (auto simp only: in_measure case_prod_conv intro!: half_sum_less)

declare drop_twos.simps [simp del] common_twos.simps [simp del]

lemma drop_twos_some: "a \<noteq> 0 \<Longrightarrow> \<exists>a1. drop_twos a = Some a1"
proof (induction a rule: drop_twos.induct)
  case (1 a)
  show ?case
  proof (cases "a AND 1 = 0")
    case True
    then have "drop_bit 1 a \<noteq> 0" using 1(2) by (metis and_one_zero dvd_div_eq_0_iff unat_drop_one unat_eq_zero)
    then show ?thesis using 1 True by (subst drop_twos.simps) simp
  next
    case False
    then show ?thesis using 1(2) by (subst drop_twos.simps) simp
  qed
qed

lemma drop_twos_value:
  "drop_twos a = Some a1 \<Longrightarrow> odd (unat a1) \<and> (\<exists>k. unat a = 2 ^ k * unat a1)"
proof (induction a rule: drop_twos.induct)
  case (1 a)
  show ?case
  proof (cases "a AND 1 = 0")
    case True
    have a: "a \<noteq> 0" "drop_twos (drop_bit 1 a) = Some a1"
      using 1(2) True by (subst (asm) drop_twos.simps, simp split: if_splits)+
    obtain k where k: "odd (unat a1)" "unat (drop_bit 1 a) = 2 ^ k * unat a1" using 1(1)[OF a(1) True a(2)] by blast
    have "unat a = 2 * unat (drop_bit 1 a)" using True by (simp only: unat_drop_one and_one_zero) simp
    then have "unat a = 2 ^ Suc k * unat a1" using k(2) by simp
    then show ?thesis using k(1) by blast
  next
    case False
    then have "a1 = a" using 1(2) by (subst (asm) drop_twos.simps) (simp split: if_splits)
    then show ?thesis using False by (metis and_one_zero mult_1 power_0)
  qed
qed

lemma drop_twos_le: "drop_twos a = Some a1 \<Longrightarrow> unat a1 \<le> unat a \<and> 0 < unat a1"
  using drop_twos_value[of a a1] by (auto intro: odd_pos)

text \<open>The loop of subtractions.\<close>

function gcd_loop :: "u64 \<Rightarrow> u64 \<Rightarrow> u64 option" where
  "gcd_loop a b =
     (case drop_twos a of
        None \<Rightarrow> None
      | Some a1 \<Rightarrow> (case drop_twos b of
          None \<Rightarrow> None
        | Some b1 \<Rightarrow>
            if a1 > b1 then gcd_loop (a1 - b1) b1
            else if b1 > a1 then gcd_loop a1 (b1 - a1)
            else Some a1))"
  by pat_completeness auto
termination
proof (relation "measure (\<lambda>(a, b). unat a + unat b)")
  show "((a1 - b1, b1), (a, b)) \<in> measure (\<lambda>(a, b). unat a + unat b)"
    if "drop_twos a = Some a1" "drop_twos b = Some b1" "b1 < a1" for a b a1 b1
    using drop_twos_le[OF that(1)] drop_twos_le[OF that(2)] that(3) by (simp add: unat_sub less_imp_le word_less_nat_alt)
  show "((a1, b1 - a1), (a, b)) \<in> measure (\<lambda>(a, b). unat a + unat b)"
    if "drop_twos a = Some a1" "drop_twos b = Some b1" "\<not> b1 < a1" "a1 < b1" for a b a1 b1
    using drop_twos_le[OF that(1)] drop_twos_le[OF that(2)] that(4) by (simp add: unat_sub less_imp_le word_less_nat_alt)
qed simp

definition pq_gcd :: "u64 \<Rightarrow> u64 \<Rightarrow> u64 option" where
  "pq_gcd a b =
     (if a = 0 then Some b
      else if b = 0 then Some a
      else case common_twos a b 0 of
        None \<Rightarrow> None
      | Some (a1, b1, shift) \<Rightarrow> map_option (push_bit shift) (gcd_loop a1 b1))"

declare gcd_loop.simps [simp del]

lemma gcd_odd_parts:
  fixes a b a1 b1 :: nat
  assumes "a = 2 ^ k * a1" "b = 2 ^ l * b1" "odd a1" "odd b1" "\<not> (even a \<and> even b)"
  shows "gcd a b = gcd a1 b1"
proof -
  have two: "gcd (2 ^ n * x) y = gcd x y" if "odd y" for x y n :: nat
    by (rule gcd_mult_left_left_cancel) (use that in simp)
  have "k = 0 \<or> l = 0" using assms by (cases k; cases l) auto
  then show ?thesis
    using two[OF assms(4), of k a1] two[OF assms(3), of l b1] by (auto simp: assms(1,2) gcd.commute)
qed

lemma gcd_sub_nat: "y \<le> x \<Longrightarrow> gcd (x - y) y = gcd x (y :: nat)"
  by (metis gcd_diff1_nat)

lemma gcd_loop_value:
  "a \<noteq> 0 \<Longrightarrow> b \<noteq> 0 \<Longrightarrow> \<not> (even (unat a) \<and> even (unat b)) \<Longrightarrow> \<exists>r. gcd_loop a b = Some r \<and> unat r = gcd (unat a) (unat b)"
proof (induction a b rule: gcd_loop.induct)
  case (1 a b)
  obtain a1 b1 where d: "drop_twos a = Some a1" "drop_twos b = Some b1"
    using drop_twos_some[OF 1(3)] drop_twos_some[OF 1(4)] by blast
  obtain k l where v: "unat a = 2 ^ k * unat a1" "unat b = 2 ^ l * unat b1" "odd (unat a1)" "odd (unat b1)"
    using drop_twos_value[OF d(1)] drop_twos_value[OF d(2)] by blast
  have g: "gcd (unat a) (unat b) = gcd (unat a1) (unat b1)" by (rule gcd_odd_parts[OF v 1(5)])
  have nz: "a1 \<noteq> 0" "b1 \<noteq> 0" using v(3,4) by auto
  consider "b1 < a1" | "a1 < b1" | "a1 = b1" by fastforce
  then show ?case
  proof cases
    case 1
    have le: "b1 \<le> a1" using 1 by simp
    note s = unat_sub[OF le] le[unfolded word_le_nat_alt]
    have "a1 - b1 \<noteq> 0" using 1 by simp
    moreover have "\<not> (even (unat (a1 - b1)) \<and> even (unat b1))" using v(4) by simp
    ultimately have "\<exists>r. gcd_loop (a1 - b1) b1 = Some r \<and> unat r = gcd (unat (a1 - b1)) (unat b1)"
      using "1.IH"(1)[OF d 1] nz by blast
    then show ?thesis using s 1 by (subst gcd_loop.simps) (simp add: d g gcd_sub_nat)
  next
    case 2
    have le: "a1 \<le> b1" using 2 by simp
    note s = unat_sub[OF le] le[unfolded word_le_nat_alt]
    have nlt: "\<not> b1 < a1" using 2 by auto
    have "b1 - a1 \<noteq> 0" using 2 by auto
    moreover have "\<not> (even (unat a1) \<and> even (unat (b1 - a1)))" using v(3) by simp
    ultimately have "\<exists>r. gcd_loop a1 (b1 - a1) = Some r \<and> unat r = gcd (unat a1) (unat (b1 - a1))"
      using "1.IH"(2)[OF d nlt 2] nz by blast
    then show ?thesis using s 2 nlt by (subst gcd_loop.simps) (simp add: d g gcd.commute[of "unat a1"] gcd_sub_nat)
  next
    case 3
    then show ?thesis by (subst gcd_loop.simps) (simp add: d g)
  qed
qed

lemma common_twos_value:
  "a \<noteq> 0 \<Longrightarrow> b \<noteq> 0 \<Longrightarrow> \<exists>a1 b1 k. common_twos a b shift = Some (a1, b1, shift + k)
    \<and> unat a = 2 ^ k * unat a1 \<and> unat b = 2 ^ k * unat b1 \<and> a1 \<noteq> 0 \<and> b1 \<noteq> 0 \<and> \<not> (even (unat a1) \<and> even (unat b1))"
proof (induction a b shift rule: common_twos.induct)
  case (1 a b shift)
  show ?case
  proof (cases "a AND 1 = 0 \<and> b AND 1 = 0")
    case True
    have h: "unat a = 2 * unat (drop_bit 1 a)" "unat b = 2 * unat (drop_bit 1 b)"
      using True by (simp_all only: unat_drop_one and_one_zero) simp_all
    have nz: "drop_bit 1 a \<noteq> 0" "drop_bit 1 b \<noteq> 0"
      using h 1(2,3) by (metis mult_zero_right unat_0 word_unat_eq_iff)+
    from "1.IH"[OF _ True nz] 1(2) obtain a1 b1 k where
      c: "common_twos (drop_bit 1 a) (drop_bit 1 b) (shift + 1) = Some (a1, b1, shift + 1 + k)"
        "unat (drop_bit 1 a) = 2 ^ k * unat a1" "unat (drop_bit 1 b) = 2 ^ k * unat b1"
        "a1 \<noteq> 0" "b1 \<noteq> 0" "\<not> (even (unat a1) \<and> even (unat b1))" by blast
    have "common_twos a b shift = Some (a1, b1, shift + Suc k)"
      using 1(2) True c(1) by (subst common_twos.simps) simp
    moreover have "unat a = 2 ^ Suc k * unat a1" "unat b = 2 ^ Suc k * unat b1" using h c(2,3) by simp_all
    ultimately show ?thesis using c(4-6) by blast
  next
    case False
    then have "common_twos a b shift = Some (a, b, shift + 0)" using 1(2) by (subst common_twos.simps) auto
    then show ?thesis using False 1(2,3) and_one_zero by (metis mult_1 power_0)
  qed
qed

lemma unat_u64: "unat (a :: u64) < 2 ^ 64"
  using unsigned_less[where 'a = nat, of a] by simp

lemma u64_of_nat: "n < 2 ^ 64 \<Longrightarrow> unat (word_of_nat n :: u64) = n"
  by (simp only: unsigned_of_nat) (simp add: take_bit_nat_eq_self)

lemma pq_gcd_value: "\<exists>r. pq_gcd a b = Some r \<and> unat r = gcd (unat a) (unat b)"
proof (cases "a = 0 \<or> b = 0")
  case True
  then show ?thesis by (auto simp: pq_gcd_def)
next
  case False
  then obtain a1 b1 k where c: "common_twos a b 0 = Some (a1, b1, k)" "unat a = 2 ^ k * unat a1" "unat b = 2 ^ k * unat b1"
      "a1 \<noteq> 0" "b1 \<noteq> 0" "\<not> (even (unat a1) \<and> even (unat b1))"
    using common_twos_value[of a b 0] by auto
  obtain r where r: "gcd_loop a1 b1 = Some r" "unat r = gcd (unat a1) (unat b1)"
    using gcd_loop_value[OF c(4-6)] by blast
  have g: "gcd (unat a) (unat b) = 2 ^ k * unat r" by (simp add: c(2,3) r(2) gcd_mult_distrib_nat)
  have "gcd (unat a) (unat b) \<le> unat a" using False by (intro gcd_le1_nat) (simp add: unat_eq_zero)
  then have lt: "2 ^ k * unat r < 2 ^ 64" using g unat_u64[of a] by linarith
  have "unat (push_bit k r) = 2 ^ k * unat r"
  proof -
    have "push_bit k r = word_of_nat (2 ^ k * unat r)" by (simp add: push_bit_eq_mult mult.commute)
    then show ?thesis using u64_of_nat[OF lt] by simp
  qed
  then show ?thesis using False c(1) r(1) g by (simp add: pq_gcd_def)
qed

subsection \<open>Pollard's method\<close>

text \<open>The loop \<open>c += a * b\<close> modulo \<open>pq\<close>.\<close>

function mul_add_mod :: "u64 \<Rightarrow> u64 \<Rightarrow> u64 \<Rightarrow> u64 \<Rightarrow> u64" where
  "mul_add_mod pq a b c =
     (if b = 0 then c
      else let c1 = (if b AND 1 \<noteq> 0 then (let c0 = c + a in if c0 \<ge> pq then c0 - pq else c0) else c);
               a0 = a + a;
               a1 = (if a0 \<ge> pq then a0 - pq else a0)
           in mul_add_mod pq a1 (drop_bit 1 b) c1)"
  by pat_completeness auto
termination
  by (relation "measure (\<lambda>(pq, a, b, c). unat b)") (use unat_half_less in auto)

declare mul_add_mod.simps [simp del]

text \<open>
  The inner loop from \<open>j\<close> to \<open>limit\<close>: the last greatest common divisor, which is 0 before the first
  round, and the number of rounds of all loops so far.
\<close>

function rho_loop :: "u64 \<Rightarrow> u64 \<Rightarrow> nat \<Rightarrow> nat \<Rightarrow> u64 \<Rightarrow> u64 \<Rightarrow> u64 \<Rightarrow> nat \<Rightarrow> (u64 \<times> nat) option" where
  "rho_loop pq q limit j x y g iter =
     (if \<not> j < limit then Some (g, iter)
      else let x1 = mul_add_mod pq x x q;
               z = (if x1 < y then pq + x1 - y else x1 - y)
           in case pq_gcd z pq of
                None \<Rightarrow> None
              | Some g1 \<Rightarrow>
                  if g1 \<noteq> 1 then Some (g1, iter + 1)
                  else rho_loop pq q limit (j + 1) x1 (if (j AND (j - 1)) = 0 then x1 else y) g1 (iter + 1))"
  by pat_completeness auto
termination
  by (relation "measure (\<lambda>(pq, q, limit, j, x, y, g, iter). limit - j)") auto

declare rho_loop.simps [simp del]

lemma rho_loop_iter: "rho_loop pq q limit j x y g iter = Some (g', iter') \<Longrightarrow> iter \<le> iter' \<and> (j < limit \<longrightarrow> iter < iter')"
proof (induction pq q limit j x y g iter rule: rho_loop.induct)
  case (1 pq q limit j x y g iter)
  let ?x = "mul_add_mod pq x x q"
  let ?z = "if ?x < y then pq + ?x - y else ?x - y"
  show ?case
  proof (cases "j < limit")
    case False
    then show ?thesis using 1(2) by (subst (asm) rho_loop.simps) simp
  next
    case True
    then obtain g1 where g1: "pq_gcd ?z pq = Some g1"
      using 1(2) by (subst (asm) rho_loop.simps) (auto simp: Let_def split: option.splits)
    show ?thesis
    proof (cases "g1 = 1")
      case False
      then show ?thesis using 1(2) True g1 by (subst (asm) rho_loop.simps) (simp add: Let_def)
    next
      case one: True
      then have "rho_loop pq q limit (j + 1) ?x (if (j AND (j - 1)) = 0 then ?x else y) g1 (iter + 1) = Some (g', iter')"
        using 1(2) True g1 by (subst (asm) rho_loop.simps) (simp add: Let_def)
      from 1(1)[OF _ refl refl g1 _ this] True one show ?thesis by simp
    qed
  qed
qed

text \<open>The outer loop; \<open>rq i\<close> and \<open>rx i\<close> are the random values of its round \<open>i\<close>.\<close>

definition rho_round :: "(nat \<Rightarrow> nat) \<Rightarrow> (nat \<Rightarrow> u64) \<Rightarrow> u64 \<Rightarrow> nat \<Rightarrow> u64 \<Rightarrow> nat \<Rightarrow> (u64 \<times> nat) option" where
  "rho_round rq rx pq i g iter =
     (let q = word_of_nat (17 + rq i) mod (pq - 1);
          x = rx i mod (pq - 1) + 1;
          limit = push_bit (min 5 i + 18) 1
      in rho_loop pq q limit 1 x x g iter)"

lemma rho_round_iter: "rho_round rq rx pq i g iter = Some (g', iter') \<Longrightarrow> iter < iter'"
proof -
  assume a: "rho_round rq rx pq i g iter = Some (g', iter')"
  have "1 < (2 :: nat) ^ (min 5 i + 18)" by (rule one_less_power) simp_all
  then have "1 < (push_bit (min 5 i + 18) 1 :: nat)" by (simp only: push_bit_eq_mult mult_1)
  with rho_loop_iter[OF a[unfolded rho_round_def Let_def]] show ?thesis by simp
qed

function rho_rounds :: "(nat \<Rightarrow> nat) \<Rightarrow> (nat \<Rightarrow> u64) \<Rightarrow> u64 \<Rightarrow> nat \<Rightarrow> u64 \<Rightarrow> nat \<Rightarrow> u64 option" where
  "rho_rounds rq rx pq i g iter =
     (if \<not> (i < 3 \<or> iter < 1000) then Some g
      else case rho_round rq rx pq i g iter of
        None \<Rightarrow> None
      | Some (g1, iter1) \<Rightarrow>
          if g1 > 1 \<and> g1 < pq then Some g1
          else rho_rounds rq rx pq (i + 1) g1 iter1)"
  by pat_completeness auto
termination
  by (relation "measure (\<lambda>(rq, rx, pq, i, g, iter). (3 - i) + (1000 - iter))") (auto dest: rho_round_iter)

declare rho_rounds.simps [simp del]

definition FactorizeSmallPQ :: "(nat \<Rightarrow> nat) \<Rightarrow> (nat \<Rightarrow> u64) \<Rightarrow> u64 \<Rightarrow> u64 option" where
  "FactorizeSmallPQ rq rx pq =
     (if pq < 2 \<or> pq > push_bit 63 1 then Some 1
      else case rho_rounds rq rx pq 0 0 0 of
        None \<Rightarrow> None
      | Some g \<Rightarrow>
          Some (if g \<noteq> 0 then (let other = pq div g in if other < g then other else g) else g))"

text \<open>\<open>FactorizePQ\<close>: a number of up to 63 bits is split into two numbers of four bytes.\<close>

definition four_bytes :: "u64 \<Rightarrow> byte list" where
  "four_bytes p = [ucast (drop_bit 24 p AND 0xFF), ucast (drop_bit 16 p AND 0xFF), ucast (drop_bit 8 p AND 0xFF), ucast (p AND 0xFF)]"

definition bytes_u64 :: "byte list \<Rightarrow> u64" where
  "bytes_u64 pqStr = fold (\<lambda>b pq. push_bit 8 pq OR ucast b) pqStr 0"

definition FactorizePQ :: "(byte list \<Rightarrow> byte list \<times> byte list) \<Rightarrow> (nat \<Rightarrow> nat) \<Rightarrow> (nat \<Rightarrow> u64) \<Rightarrow> byte list
    \<Rightarrow> (byte list \<times> byte list) option" where
  "FactorizePQ big rq rx pqStr =
     (if length pqStr > 8 \<or> (length pqStr = 8 \<and> pqStr ! 0 AND 128 \<noteq> 0) then Some (big pqStr)
      else let pq = bytes_u64 pqStr in
        case FactorizeSmallPQ rq rx pq of
          None \<Rightarrow> None
        | Some p \<Rightarrow>
            Some (if p = 0 \<or> pq mod p \<noteq> 0 then ([], []) else (four_bytes p, four_bytes (pq div p))))"

subsection \<open>What the factorisation finds\<close>

lemma reduce_once:
  fixes n pq :: u64
  assumes "unat n < 2 * unat pq"
  shows "unat (if n \<ge> pq then n - pq else n) = unat n mod unat pq"
proof (cases "n \<ge> pq")
  case True
  then have "unat (n - pq) = unat n - unat pq" by (rule unat_sub)
  moreover have "unat n mod unat pq = unat n - unat pq"
    using True assms by (simp add: word_le_nat_alt mod_if)
  ultimately show ?thesis using True by simp
next
  case False
  then show ?thesis by (simp add: word_le_nat_alt)
qed

lemma add_once:
  fixes a b pq :: u64
  assumes "a < pq" "b < pq" "unat pq \<le> 2 ^ 63"
  shows "unat (if a + b \<ge> pq then a + b - pq else a + b) = (unat a + unat b) mod unat pq"
proof -
  have lt: "unat a < unat pq" "unat b < unat pq" using assms(1,2) by (simp_all add: word_less_nat_alt)
  then have s: "unat (a + b) = unat a + unat b" using assms(3) by (intro unat_add_lem[THEN iffD1]) simp
  show ?thesis using reduce_once[of "a + b" pq] lt by (simp add: s)
qed

lemma mod_add_mult: "(a mod m + (b mod m) * k) mod m = (a + b * k) mod (m :: nat)"
  by (metis mod_add_left_eq mod_add_right_eq mod_mult_left_eq)

lemma mul_add_mod_value:
  assumes "unat pq \<le> 2 ^ 63"
  shows "a < pq \<Longrightarrow> c < pq \<Longrightarrow> unat (mul_add_mod pq a b c) = (unat c + unat a * unat b) mod unat pq"
proof (induction "unat b" arbitrary: a b c rule: less_induct)
  case less
  have cl: "unat c < unat pq" using less.prems(2) by (simp add: word_less_nat_alt)
  show ?case
  proof (cases "b = 0")
    case True
    then show ?thesis using cl by (subst mul_add_mod.simps) simp
  next
    case False
    define a1 where "a1 = (if a + a \<ge> pq then a + a - pq else a + a)"
    define c1 where "c1 = (if b AND 1 \<noteq> 0 then (if c + a \<ge> pq then c + a - pq else c + a) else c)"
    have step: "mul_add_mod pq a b c = mul_add_mod pq a1 (drop_bit 1 b) c1"
      unfolding a1_def c1_def by (subst mul_add_mod.simps) (simp only: Let_def False if_False)
    have m: "0 < unat pq" using cl by simp
    have a1: "unat a1 = (2 * unat a) mod unat pq"
      unfolding a1_def mult_2 by (rule add_once[OF less.prems(1,1) assms])
    have c1: "unat c1 = (unat c + unat a * (unat b mod 2)) mod unat pq"
    proof (cases "b AND 1 = 0")
      case True
      then have "even (unat b)" by (simp only: and_one_zero)
      then show ?thesis using True cl by (simp add: c1_def)
    next
      case odd: False
      then have "unat b mod 2 = 1" by (simp only: and_one_zero) presburger
      then show ?thesis using add_once[OF less.prems(2,1) assms] by (simp only: c1_def odd if_True not_False_eq_True mult_1_right)
    qed
    have alg: "u + v * w + 2 * v * z = u + v * (w + 2 * z)" for u v w z :: nat by (simp add: algebra_simps)
    have e: "unat b mod 2 + 2 * (unat b div 2) = unat b" by simp
    have lt: "a1 < pq" "c1 < pq" using a1 c1 m by (simp_all add: word_less_nat_alt)
    have "unat (mul_add_mod pq a b c) = (unat c1 + unat a1 * (unat b div 2)) mod unat pq"
      using less.hyps[OF unat_half_less[OF False] lt] by (simp only: step unat_drop_one)
    also have "\<dots> = (unat c + unat a * (unat b mod 2) + 2 * unat a * (unat b div 2)) mod unat pq"
      by (simp only: a1 c1 mod_add_mult)
    also have "unat c + unat a * (unat b mod 2) + 2 * unat a * (unat b div 2) = unat c + unat a * (unat b mod 2 + 2 * (unat b div 2))"
      by (rule alg)
    finally show ?thesis by (simp only: e)
  qed
qed

lemma rho_loop_divides:
  assumes "unat pq \<le> 2 ^ 63" "q < pq"
  shows "x < pq \<Longrightarrow> y < pq \<Longrightarrow> \<exists>g' iter'. rho_loop pq q limit j x y g iter = Some (g', iter')
    \<and> (j < limit \<longrightarrow> unat g' dvd unat pq) \<and> (\<not> j < limit \<longrightarrow> g' = g)"
proof (induction "limit - j" arbitrary: j x y g iter rule: less_induct)
  case less
  show ?case
  proof (cases "j < limit")
    case False
    then show ?thesis by (subst rho_loop.simps) simp
  next
    case True
    let ?x = "mul_add_mod pq x x q"
    let ?z = "if ?x < y then pq + ?x - y else ?x - y"
    have "unat ?x < unat pq"
      using mul_add_mod_value[OF assms(1) less.prems(1) assms(2), of x] assms(2) by (simp add: word_less_nat_alt)
    then have x: "?x < pq" by (simp add: word_less_nat_alt)
    obtain g1 where g1: "pq_gcd ?z pq = Some g1" "unat g1 = gcd (unat ?z) (unat pq)"
      using pq_gcd_value by blast
    have dvd: "unat g1 dvd unat pq" by (simp add: g1(2))
    show ?thesis
    proof (cases "g1 = 1")
      case False
      then have "rho_loop pq q limit j x y g iter = Some (g1, iter + 1)"
        using True g1(1) by (subst rho_loop.simps) (simp add: Let_def)
      then show ?thesis using dvd True by blast
    next
      case one: True
      let ?y = "if (j AND (j - 1)) = 0 then ?x else y"
      have "rho_loop pq q limit j x y g iter = rho_loop pq q limit (j + 1) ?x ?y g1 (iter + 1)"
        using True g1(1) one by (subst rho_loop.simps) (simp add: Let_def)
      moreover have "?y < pq" using x less.prems(2) by simp
      moreover have "limit - (j + 1) < limit - j" using True by simp
      ultimately show ?thesis
        using less.hyps[of "j + 1" ?x ?y g1 "iter + 1"] x dvd True by auto
    qed
  qed
qed

lemma rho_round_divides:
  assumes pq: "unat pq \<le> 2 ^ 63" "2 \<le> unat pq"
  shows "\<exists>g' iter'. rho_round rq rx pq i g iter = Some (g', iter') \<and> unat g' dvd unat pq"
proof -
  have u1: "unat (pq - 1) = unat pq - 1" using pq(2) by (simp add: unat_sub word_le_nat_alt)
  have m: "unat (w mod (pq - 1)) < unat pq - 1" for w
    using pq(2) by (simp add: unat_mod u1)
  have q: "word_of_nat (17 + rq i) mod (pq - 1) < pq"
    using m[of "word_of_nat (17 + rq i)"] by (simp only: word_less_nat_alt)
  have "unat (rx i mod (pq - 1) + 1) = unat (rx i mod (pq - 1)) + 1"
    using unat_add_lem[THEN iffD1, of "rx i mod (pq - 1)" 1] m[of "rx i"] pq(1) by simp
  then have x: "rx i mod (pq - 1) + 1 < pq"
    using m[of "rx i"] by (simp only: word_less_nat_alt)
  have "1 < (2 :: nat) ^ (min 5 i + 18)" by (rule one_less_power) simp_all
  then have l: "1 < (push_bit (min 5 i + 18) 1 :: nat)" by (simp only: push_bit_eq_mult mult_1)
  show ?thesis
    using rho_loop_divides[OF pq(1) q x x, of "push_bit (min 5 i + 18) 1" 1 g iter] l
    unfolding rho_round_def Let_def by blast
qed

lemma rho_rounds_divides:
  assumes pq: "unat pq \<le> 2 ^ 63" "2 \<le> unat pq"
  shows "i < 3 \<or> iter < 1000 \<or> unat g dvd unat pq \<Longrightarrow> \<exists>g'. rho_rounds rq rx pq i g iter = Some g' \<and> unat g' dvd unat pq"
proof (induction "(3 - i) + (1000 - iter)" arbitrary: i g iter rule: less_induct)
  case less
  show ?case
  proof (cases "i < 3 \<or> iter < 1000")
    case False
    then show ?thesis using less.prems by (subst rho_rounds.simps) auto
  next
    case True
    obtain g1 iter1 where r: "rho_round rq rx pq i g iter = Some (g1, iter1)" "unat g1 dvd unat pq"
      using rho_round_divides[OF pq] by blast
    show ?thesis
    proof (cases "g1 > 1 \<and> g1 < pq")
      case go: True
      have "rho_rounds rq rx pq i g iter = Some g1"
        by (subst rho_rounds.simps) (simp add: True r(1) go)
      then show ?thesis using r(2) by blast
    next
      case False
      have "rho_rounds rq rx pq i g iter = rho_rounds rq rx pq (i + 1) g1 iter1"
        by (subst rho_rounds.simps) (simp only: True r(1) False option.case prod.case if_False if_True not_True_eq_False)
      moreover have "(3 - (i + 1)) + (1000 - iter1) < (3 - i) + (1000 - iter)"
        using True rho_round_iter[OF r(1)] by auto
      ultimately show ?thesis using less.hyps[of "i + 1" iter1 g1] r(2) by simp
    qed
  qed
qed

lemma FactorizeSmallPQ_value:
  "\<exists>g. FactorizeSmallPQ rq rx pq = Some g \<and> 1 \<le> unat g \<and> unat g dvd unat pq \<and> (2 \<le> unat pq \<longrightarrow> unat g * unat g \<le> unat pq)"
proof (cases "pq < 2 \<or> pq > push_bit 63 1")
  case True
  then have "FactorizeSmallPQ rq rx pq = Some 1" by (simp only: FactorizeSmallPQ_def if_True)
  then show ?thesis by simp
next
  case False
  have "unat (push_bit 63 1 :: u64) = 2 ^ 63" by (simp add: push_bit_eq_mult)
  then have pq: "unat pq \<le> 2 ^ 63" "2 \<le> unat pq" using False by (simp_all add: word_less_nat_alt not_less)
  obtain g where g: "rho_rounds rq rx pq 0 0 0 = Some g" "unat g dvd unat pq"
    using rho_rounds_divides[OF pq, of 0 0 0] by auto
  have g0: "g \<noteq> 0" using g(2) pq(2) by auto
  define other where "other = pq div g"
  have o: "unat other = unat pq div unat g" by (simp add: other_def unat_div)
  then have pr: "unat pq = unat g * unat other" using g(2) by simp
  have os: "unat other dvd unat pq" "1 \<le> unat other" using pr pq(2) by (auto simp: Suc_le_eq intro!: Nat.gr0I)
  have gs: "1 \<le> unat g" using g0 by (simp add: unat_gt_0 Suc_le_eq)
  have f: "FactorizeSmallPQ rq rx pq = Some (if other < g then other else g)"
    using False g(1) g0 by (simp only: FactorizeSmallPQ_def if_False option.case Let_def other_def not_False_eq_True if_True)
  have "unat (if other < g then other else g) * unat (if other < g then other else g) \<le> unat pq"
    by (simp add: pr word_less_nat_alt)
  then show ?thesis using f g(2) os gs by (intro exI[of _ "if other < g then other else g"]) simp
qed

subsection \<open>Bytes of the factors\<close>

definition big_endian :: "byte list \<Rightarrow> nat" where
  "big_endian bytes = fold (\<lambda>b n. 256 * n + unat b) bytes 0"

lemma big_endian_snoc: "big_endian (bs @ [b]) = 256 * big_endian bs + unat b"
  by (simp add: big_endian_def)

lemma big_endian_less: "big_endian bs < 256 ^ length bs"
proof (induction bs rule: rev_induct)
  case Nil
  then show ?case by (simp add: big_endian_def)
next
  case (snoc b bs)
  have "unat b < 256" using unsigned_less[where 'a = nat, of b] by simp
  then have "256 * big_endian bs + unat b < 256 * (big_endian bs + 1)" by simp
  also have "\<dots> \<le> 256 * 256 ^ length bs" using snoc by (intro mult_le_mono2) simp
  finally show ?case by (simp add: big_endian_snoc)
qed

lemma bytes_u64_value: "length bs \<le> 8 \<Longrightarrow> unat (bytes_u64 bs) = big_endian bs"
proof (induction bs rule: rev_induct)
  case Nil
  then show ?case by (simp add: bytes_u64_def big_endian_def)
next
  case (snoc b bs)
  then have ih: "unat (bytes_u64 bs) = big_endian bs" and l: "length bs \<le> 7" by simp_all
  have "big_endian bs < 256 ^ 7" using big_endian_less[of bs] l by (meson le_less_trans less_le_trans one_le_numeral power_increasing)
  then have lt: "unat (bytes_u64 bs) < 2 ^ 56" using ih by simp
  have b: "unat b < 256" using unsigned_less[where 'a = nat, of b] by simp
  have "push_bit 8 (bytes_u64 bs) OR ucast b = push_bit 8 (bytes_u64 bs) + (ucast b :: u64)"
    by (rule disjunctive_add[symmetric]) (auto simp: bit_push_bit_iff bit_ucast_iff dest: bit_imp_le_length)
  also have "\<dots> = word_of_nat (256 * big_endian bs + unat b)"
    by (simp add: push_bit_eq_mult ih[symmetric] mult.commute)
  finally have "bytes_u64 (bs @ [b]) = word_of_nat (256 * big_endian bs + unat b)" by (simp add: bytes_u64_def)
  moreover have "256 * big_endian bs + unat b < 2 ^ 64" using lt b ih by simp
  ultimately show ?case by (simp only: u64_of_nat big_endian_snoc)
qed

lemma four_bytes_value: "big_endian (four_bytes p) = unat p mod 2 ^ 32"
proof -
  have e: "unat (ucast (drop_bit k p AND 0xFF) :: byte) = unat p div 2 ^ k mod 256" for k
  proof -
    have ff: "(0xFF :: u64) = mask 8" by (simp add: mask_eq_exp_minus_1)
    have "(ucast (drop_bit k p AND mask 8) :: byte) = ucast (drop_bit k p)"
      by (rule bit_word_eqI) (simp add: bit_ucast_iff bit_and_iff bit_mask_iff)
    moreover have "unat (ucast (drop_bit k p) :: byte) = drop_bit k (unat p) mod 256"
      by (simp only: unsigned_ucast_eq unat_drop_bit_eq take_bit_eq_mod) simp
    ultimately show ?thesis by (simp only: ff drop_bit_eq_div)
  qed
  have e0: "unat (ucast (p AND 0xFF) :: byte) = unat p mod 256" using e[of 0] by simp
  have s: "n mod (256 * m) = 256 * (n div 256 mod m) + n mod 256" for n m :: nat by (rule mod_mult2_eq)
  have d: "n div 256 div 256 = n div 2 ^ 16" "n div 2 ^ 16 div 256 = n div 2 ^ 24" "n div 256 = n div 2 ^ 8" for n :: nat
    by (simp_all add: div_mult2_eq[symmetric])
  have "unat p mod 2 ^ 32 = unat p mod (256 * (256 * (256 * 256)))" by simp
  also have "\<dots> = 256 * (256 * (256 * (unat p div 2 ^ 24 mod 256) + unat p div 2 ^ 16 mod 256) + unat p div 2 ^ 8 mod 256) + unat p mod 256"
    by (simp only: s d(1,2)) (simp only: d(3))
  finally show ?thesis by (simp add: four_bytes_def big_endian_def e e0)
qed

lemma FactorizePQ_value:
  assumes "length s \<le> 8" "length s = 8 \<Longrightarrow> s ! 0 AND 128 = 0"
  shows "\<exists>ps qs. FactorizePQ big rq rx s = Some (ps, qs) \<and> length ps = 4 \<and> length qs = 4
    \<and> 1 \<le> big_endian ps \<and> big_endian ps dvd big_endian s \<and> (2 \<le> big_endian s \<longrightarrow> big_endian ps * big_endian ps \<le> big_endian s)
    \<and> big_endian qs = (big_endian s div big_endian ps) mod 2 ^ 32"
proof -
  let ?pq = "bytes_u64 s"
  have v: "unat ?pq = big_endian s" by (rule bytes_u64_value[OF assms(1)])
  obtain g where g: "FactorizeSmallPQ rq rx ?pq = Some g" "1 \<le> unat g" "unat g dvd unat ?pq"
      "2 \<le> unat ?pq \<longrightarrow> unat g * unat g \<le> unat ?pq" using FactorizeSmallPQ_value by blast
  have nz: "g \<noteq> 0" using g(2) by auto
  have "unat (?pq mod g) = 0" using g(3) by (simp add: unat_mod)
  then have m: "?pq mod g = 0" by (simp add: unat_eq_zero)
  have small: "unat g < 2 ^ 32"
  proof (cases "2 \<le> unat ?pq")
    case True
    show ?thesis
    proof (rule ccontr)
      assume "\<not> unat g < 2 ^ 32"
      then have "2 ^ 32 * 2 ^ 32 \<le> unat g * unat g" by (intro mult_le_mono) simp_all
      with g(4) True unat_u64[of ?pq] show False by simp
    qed
  next
    case False
    then have "FactorizeSmallPQ rq rx ?pq = Some 1" by (simp add: FactorizeSmallPQ_def word_less_nat_alt not_le)
    then show ?thesis using g(1) by simp
  qed
  have "FactorizePQ big rq rx s = Some (four_bytes g, four_bytes (?pq div g))"
    using assms g(1) nz m by (auto simp: FactorizePQ_def)
  moreover have "length (four_bytes x) = 4" for x by (simp add: four_bytes_def)
  moreover have "big_endian (four_bytes g) = unat g" using small by (simp add: four_bytes_value)
  moreover have "big_endian (four_bytes (?pq div g)) = (big_endian s div unat g) mod 2 ^ 32"
    by (simp only: four_bytes_value unat_div v)
  ultimately show ?thesis using g(2-4) v by simp
qed

subsection \<open>Encrypting the factors\<close>

fun good_loop :: "(nat \<Rightarrow> byte) \<Rightarrow> (nat \<Rightarrow> byte) \<Rightarrow> nat list \<Rightarrow> bool" where
  "good_loop a b [] = False"
| "good_loop a b (i # js) = (if a i > b i then False else if a i < b i then True else good_loop a b js)"

definition IsGoodEncryptedInner :: "byte list \<Rightarrow> byte list \<Rightarrow> bool option" where
  "IsGoodEncryptedInner keyAesEncrypted modulus =
     (if length keyAesEncrypted \<noteq> 256 then None
      else let shift = 256 - int (length modulus) in
        if shift < 0 then None
        else Some (good_loop (\<lambda>i. keyAesEncrypted ! i)
               (\<lambda>i. if int i < shift then 0 else modulus ! nat (int i - shift)) [0..<256]))"

text \<open>
  \<open>EncryptPQInnerRSA\<close> for the written data: \<open>padding\<close> are the random bytes after it, \<open>tempKeys\<close> the
  draws of the key, without a good one the loop does not end.
\<close>

definition key_aes_encrypted :: "(byte list \<Rightarrow> byte list) \<Rightarrow> (byte list \<Rightarrow> byte list \<Rightarrow> byte list \<Rightarrow> byte list)
    \<Rightarrow> byte list \<Rightarrow> byte list \<Rightarrow> byte list" where
  "key_aes_encrypted sha256 ige dataWithPadding tempKey =
     (let dataWithHash = rev dataWithPadding @ sha256 (tempKey @ dataWithPadding);
          aesEncrypted = ige dataWithHash tempKey (replicate 32 0);
          aesHash = sha256 aesEncrypted
      in map (\<lambda>i. tempKey ! i XOR aesHash ! i) [0..<32] @ aesEncrypted)"

fun encrypt_loop :: "(byte list \<Rightarrow> byte list) \<Rightarrow> (byte list \<Rightarrow> byte list \<Rightarrow> byte list \<Rightarrow> byte list)
    \<Rightarrow> (byte list \<Rightarrow> byte list) \<Rightarrow> byte list \<Rightarrow> byte list \<Rightarrow> byte list list \<Rightarrow> byte list option" where
  "encrypt_loop sha256 ige rsa modulus dataWithPadding [] = None"
| "encrypt_loop sha256 ige rsa modulus dataWithPadding (tempKey # tempKeys) =
     (let keyAesEncrypted = key_aes_encrypted sha256 ige dataWithPadding tempKey in
      case IsGoodEncryptedInner keyAesEncrypted modulus of
        None \<Rightarrow> None
      | Some True \<Rightarrow> Some (rsa keyAesEncrypted)
      | Some False \<Rightarrow> encrypt_loop sha256 ige rsa modulus dataWithPadding tempKeys)"

definition EncryptPQInnerRSA :: "(byte list \<Rightarrow> byte list) \<Rightarrow> (byte list \<Rightarrow> byte list \<Rightarrow> byte list \<Rightarrow> byte list)
    \<Rightarrow> (byte list \<Rightarrow> byte list) \<Rightarrow> byte list \<Rightarrow> (nat \<Rightarrow> byte) \<Rightarrow> byte list list \<Rightarrow> prime list \<Rightarrow> byte list option" where
  "EncryptPQInnerRSA sha256 ige rsa modulus padding tempKeys inner =
     (if length inner > 144 div 4 then Some []
      else encrypt_loop sha256 ige rsa modulus
             (buffer_bytes inner @ map padding [0..<192 - length inner * 4]) tempKeys)"

lemma good_loop_compare:
  "good_loop a b js = (big_endian (map a js) < big_endian (map b js))"
proof -
  have acc: "good_loop a b js \<longleftrightarrow> fold (\<lambda>x n. 256 * n + unat x) (map a js) n < fold (\<lambda>x n. 256 * n + unat x) (map b js) n" for n
  proof (induction js arbitrary: n)
    case Nil
    then show ?case by simp
  next
    case (Cons i js)
    have mono: "m < m' \<Longrightarrow> fold (\<lambda>x n. 256 * n + unat x) xs m < fold (\<lambda>x n. 256 * n + unat x) ys m'"
      if "length xs = length ys" for xs ys :: "byte list" and m m' :: nat
      using that
    proof (induction xs ys arbitrary: m m' rule: list_induct2)
      case (Cons x xs y ys)
      have "unat x < 256" using unsigned_less[where 'a = nat, of x] by simp
      then have "256 * m + unat x < 256 * m' + unat y" using Cons.prems by linarith
      then show ?case using Cons.IH by simp
    qed simp
    have less1: "fold (\<lambda>x n. 256 * n + unat x) (map a js) m < fold (\<lambda>x n. 256 * n + unat x) (map b js) m'" if "m < m'" for m m'
      using mono[OF _ that] by simp
    have less2: "fold (\<lambda>x n. 256 * n + unat x) (map b js) m < fold (\<lambda>x n. 256 * n + unat x) (map a js) m'" if "m < m'" for m m'
      using mono[OF _ that] by simp
    consider "unat (a i) < unat (b i)" | "unat (b i) < unat (a i)" | "a i = b i"
      using word_unat_eq_iff by (metis linorder_neqE_nat)
    then show ?case
    proof cases
      case 1
      then show ?thesis using less1[of "256 * n + unat (a i)" "256 * n + unat (b i)"] by (simp add: word_less_nat_alt)
    next
      case 2
      then show ?thesis using less2[of "256 * n + unat (b i)" "256 * n + unat (a i)"] by (simp add: word_less_nat_alt)
    next
      case 3
      then show ?thesis using Cons by simp
    qed
  qed
  show ?thesis by (simp only: big_endian_def acc[of 0])
qed

lemma big_endian_zeros: "big_endian (replicate n 0 @ bs) = big_endian bs"
proof -
  have "fold (\<lambda>b n. 256 * n + unat b) (replicate n (0 :: byte)) 0 = (0 :: nat)" by (induction n) simp_all
  then show ?thesis by (simp add: big_endian_def)
qed

lemma IsGoodEncryptedInner_value:
  assumes "length k = 256" "length modulus \<le> 256"
  shows "IsGoodEncryptedInner k modulus = Some (big_endian k < big_endian modulus)"
proof -
  let ?b = "\<lambda>i. if int i < 256 - int (length modulus) then 0 else modulus ! nat (int i - (256 - int (length modulus)))"
  have "map ?b [0..<256] = replicate (256 - length modulus) 0 @ modulus"
    using assms(2) by (intro nth_equalityI) (auto simp: nth_append intro!: arg_cong[where f = "(!) modulus"])
  moreover have "map (\<lambda>i. k ! i) [0..<256] = k" using assms(1) by (metis map_nth)
  ultimately show ?thesis
    using assms by (simp add: IsGoodEncryptedInner_def Let_def good_loop_compare big_endian_zeros)
qed

lemma encrypt_loop_value:
  assumes "encrypt_loop sha256 ige rsa modulus d tempKeys = Some out"
  shows "\<exists>tempKey\<in>set tempKeys. IsGoodEncryptedInner (key_aes_encrypted sha256 ige d tempKey) modulus = Some True
    \<and> out = rsa (key_aes_encrypted sha256 ige d tempKey)"
  using assms by (induction tempKeys) (auto simp: Let_def split: option.splits bool.splits)

lemma xor_twice:
  assumes "length k = 32" "length h = 32"
  shows "map (\<lambda>i. map (\<lambda>i. k ! i XOR h ! i) [0..<32] ! i XOR h ! i) [0..<32] = (k :: byte list)"
  using assms by (intro nth_equalityI) (simp_all add: xor.assoc)

text \<open>
  The greatest common divisor is computed for all pairs of 64-bit numbers, zero included:
  none of its loops runs forever, nothing overflows and the result is the greatest common divisor.
\<close>

theorem pq_gcd_correct:
  "\<exists>r. pq_gcd a b = Some r \<and> unat r = gcd (unat a) (unat b)"
  by (rule pq_gcd_value)

text \<open>
  C11: Whatever the random values are, the factorisation of a number of up to 63 bits ends and gives two
  numbers of four bytes: a divisor of the number that is not above its square root, and the
  quotient cut to 32 bits, so that their product is the number whenever the quotient fits.
\<close>

theorem factorize_pq:
  assumes "length s \<le> 8" "length s = 8 \<longrightarrow> s ! 0 AND 128 = 0"
  shows "\<exists>ps qs. FactorizePQ big rq rx s = Some (ps, qs) \<and> length ps = 4 \<and> length qs = 4
    \<and> big_endian ps dvd big_endian s \<and> (2 \<le> big_endian s \<longrightarrow> big_endian ps * big_endian ps \<le> big_endian s)
    \<and> (big_endian s div big_endian ps < 2 ^ 32 \<longrightarrow> big_endian ps * big_endian qs = big_endian s)
    \<and> (2 ^ 32 \<le> big_endian s div big_endian ps \<longrightarrow> big_endian ps * big_endian qs < big_endian s)"
proof -
  obtain ps qs where f: "FactorizePQ big rq rx s = Some (ps, qs)" "length ps = 4" "length qs = 4" "1 \<le> big_endian ps"
      "big_endian ps dvd big_endian s" "2 \<le> big_endian s \<longrightarrow> big_endian ps * big_endian ps \<le> big_endian s"
      "big_endian qs = (big_endian s div big_endian ps) mod 2 ^ 32"
    using FactorizePQ_value[OF assms(1) assms(2)[rule_format], of big rq rx] by blast
  have full: "big_endian ps * (big_endian s div big_endian ps) = big_endian s" using f(5) by simp
  have "big_endian ps * big_endian qs < big_endian s" if "2 ^ 32 \<le> big_endian s div big_endian ps"
  proof -
    have "big_endian qs < big_endian s div big_endian ps" unfolding f(7) using that by (meson less_le_trans mod_less_divisor zero_less_numeral zero_less_power)
    then have "big_endian ps * big_endian qs < big_endian ps * (big_endian s div big_endian ps)" using f(4) by simp
    then show ?thesis by (simp only: full)
  qed
  moreover have "big_endian ps * big_endian qs = big_endian s" if "big_endian s div big_endian ps < 2 ^ 32"
    using full that by (simp add: f(7))
  ultimately show ?thesis using f by blast
qed

theorem factorize_pq_witness:
  "\<exists>ps qs. FactorizePQ (\<lambda>_. ([], [])) (\<lambda>_. 0) (\<lambda>_. 1) [0x0F] = Some (ps, qs) \<and> big_endian ps dvd 15 \<and> big_endian ps * big_endian qs = 15"
proof -
  have v: "big_endian [0x0F] = 15" by (simp add: big_endian_def)
  obtain ps qs where f: "FactorizePQ (\<lambda>_. ([], [])) (\<lambda>_. 0) (\<lambda>_. 1) [0x0F] = Some (ps, qs)" "big_endian ps dvd 15"
      "15 div big_endian ps < 2 ^ 32 \<longrightarrow> big_endian ps * big_endian qs = 15"
    using factorize_pq[of "[0x0F]" "\<lambda>_. ([], [])" "\<lambda>_. 0" "\<lambda>_. 1"] unfolding v by auto
  have "15 < (2 :: nat) ^ 32" by simp
  then have "15 div big_endian ps < 2 ^ 32" by (rule le_less_trans[OF div_le_dividend])
  with f show ?thesis by blast
qed

text \<open>
  The encrypted factors can be read by who has the private key: the number that is encrypted is
  below the key's modulus, the temporary key comes out of it, and the decrypted data begins with
  what was written and carries the hash of the temporary key and the data. Assumed is that SHA-256 gives 32 bytes and that AES-IGE keeps the length and can be undone.
\<close>

theorem encrypted_inner_readable:
  assumes "\<forall>x. length (sha256 x) = 32" "\<forall>x k. length (ige x k (replicate 32 0)) = length x"
    and "\<forall>x k. undo (ige x k (replicate 32 0)) k = x"
    and "length modulus \<le> 256" "\<forall>k\<in>set tempKeys. length k = 32" "length inner \<le> 36"
    and "EncryptPQInnerRSA sha256 ige rsa modulus padding tempKeys inner = Some out"
  shows "\<exists>keyAes. out = rsa keyAes \<and> length keyAes = 256 \<and> big_endian keyAes < big_endian modulus
    \<and> (let aes = drop 32 keyAes;
           tempKey = map (\<lambda>i. keyAes ! i XOR sha256 aes ! i) [0..<32];
           dataWithHash = undo aes tempKey;
           sent = rev (take 192 dataWithHash)
       in take (4 * length inner) sent = buffer_bytes inner \<and> drop 192 dataWithHash = sha256 (tempKey @ sent))"
proof -
  let ?d = "buffer_bytes inner @ map padding [0..<192 - length inner * 4]"
  have len: "length ?d = 192" using assms(6) by simp
  have loop: "encrypt_loop sha256 ige rsa modulus ?d tempKeys = Some out"
    using assms(6,7) by (simp add: EncryptPQInnerRSA_def)
  obtain tempKey where t: "tempKey \<in> set tempKeys" "out = rsa (key_aes_encrypted sha256 ige ?d tempKey)"
      "IsGoodEncryptedInner (key_aes_encrypted sha256 ige ?d tempKey) modulus = Some True"
    using encrypt_loop_value[OF loop] by blast
  define keyAes where "keyAes = key_aes_encrypted sha256 ige ?d tempKey"
  define hashed where "hashed = rev ?d @ sha256 (tempKey @ ?d)"
  define aes where "aes = ige hashed tempKey (replicate 32 0)"
  have k: "keyAes = map (\<lambda>i. tempKey ! i XOR sha256 aes ! i) [0..<32] @ aes"
    by (simp only: keyAes_def key_aes_encrypted_def Let_def hashed_def aes_def)
  have la: "length aes = 224" using assms(1,2) len by (simp add: aes_def hashed_def)
  then have lk: "length keyAes = 256" by (simp add: k)
  have d: "drop 32 keyAes = aes" by (simp add: k)
  have "map (\<lambda>i. keyAes ! i XOR sha256 aes ! i) [0..<32] = map (\<lambda>i. map (\<lambda>i. tempKey ! i XOR sha256 aes ! i) [0..<32] ! i XOR sha256 aes ! i) [0..<32]"
    by (simp add: k nth_append)
  also have "\<dots> = tempKey" using assms(1,5) t(1) by (intro xor_twice) simp_all
  finally have key: "map (\<lambda>i. keyAes ! i XOR sha256 aes ! i) [0..<32] = tempKey" .
  have undo: "undo aes tempKey = hashed" using assms(3) by (simp add: aes_def)
  have sent: "rev (take 192 hashed) = ?d" "drop 192 hashed = sha256 (tempKey @ ?d)" using len by (simp_all add: hashed_def)
  have "big_endian keyAes < big_endian modulus"
    using t(3) IsGoodEncryptedInner_value[OF lk assms(4)] by (simp add: keyAes_def)
  then show ?thesis
    using t(2) lk sent by (intro exI[of _ keyAes]) (simp add: keyAes_def[symmetric] d key undo Let_def)
qed

theorem encrypted_inner_readable_witness:
  "\<exists>keyAes. EncryptPQInnerRSA (\<lambda>_. replicate 32 0) (\<lambda>x k iv. x) (\<lambda>x. x) (replicate 256 0xFF) (\<lambda>_. 0) [replicate 32 0] [7] = Some keyAes
    \<and> take 4 (rev (take 192 (drop 32 keyAes))) = buffer_bytes [7]"
proof -
  let ?sha = "\<lambda>_. replicate 32 0 :: byte list" and ?ige = "\<lambda>x k iv. x :: byte list"
  obtain out where out: "EncryptPQInnerRSA ?sha ?ige (\<lambda>x. x) (replicate 256 0xFF) (\<lambda>_. 0) [replicate 32 0] [7] = Some out"
  proof -
    let ?k = "key_aes_encrypted ?sha ?ige (buffer_bytes [7] @ map (\<lambda>_. 0) [0..<192 - length [7 :: prime] * 4]) (replicate 32 0)"
    have "length ?k = 256" by (simp add: key_aes_encrypted_def)
    moreover have "?k ! 0 = 0" by (simp add: key_aes_encrypted_def nth_append)
    moreover have "[0..<256] = 0 # [1..<256]" by (simp add: upt_conv_Cons)
    ultimately have "IsGoodEncryptedInner ?k (replicate 256 0xFF) = Some True"
      by (simp add: IsGoodEncryptedInner_def)
    then show thesis using that by (simp add: EncryptPQInnerRSA_def Let_def)
  qed
  have "\<exists>keyAes. out = keyAes \<and> length keyAes = 256 \<and> big_endian keyAes < big_endian (replicate 256 0xFF)
    \<and> (let aes = drop 32 keyAes; tempKey = map (\<lambda>i. keyAes ! i XOR ?sha aes ! i) [0..<32];
           dataWithHash = (\<lambda>x k. x) aes tempKey; sent = rev (take 192 dataWithHash)
       in take (4 * length [7 :: prime]) sent = buffer_bytes [7] \<and> drop 192 dataWithHash = ?sha (tempKey @ sent))"
    by (rule encrypted_inner_readable[OF _ _ _ _ _ _ out]) simp_all
  then show ?thesis using out by (auto simp: Let_def)
qed

end
