(* ===== verification/SegmentTree.thy ===== *)
theory SegmentTree
  imports Prelude "HOL-Library.Log_Nat"
begin

text \<open>
  The segment tree of the statistics charts, from \<open>statistics/segment_tree.{h,cpp}\<close>. A node is a
  record, the heap the list of nodes; the children of node \<open>v\<close> are \<open>2 v\<close> and \<open>2 v + 1\<close>. Reading or
  writing outside of the heap is \<open>None\<close>, like a recursion that would not end. Queries pass the
  tree on, since \<open>propagate\<close> may change it. Values are \<open>int64\<close> in the code; they are \<open>int\<close> here,
  and the greatest \<open>int64\<close> is written out where the code returns it. The size of the heap is
  computed in floating point; it is the exact logarithm here.
\<close>

subsection \<open>Nodes\<close>

record pending_val =
  pv_value :: int
  pv_available :: bool

record seg_node =
  sn_sum :: int
  sn_max :: int
  sn_min :: int
  sn_pendingVal :: pending_val
  sn_from :: int
  sn_to :: int

record segment_tree =
  st_array :: "int list"
  st_heap :: "seg_node list"

definition no_pending :: pending_val where
  "no_pending = \<lparr>pv_value = 0, pv_available = False\<rparr>"

definition empty_node :: seg_node where
  "empty_node = \<lparr>sn_sum = 0, sn_max = 0, sn_min = 0, sn_pendingVal = no_pending, sn_from = 0, sn_to = 0\<rparr>"

definition node_size :: "seg_node \<Rightarrow> int" where
  "node_size n = sn_to n - sn_from n + 1"

definition kMinArraySize :: nat where
  "kMinArraySize = 30"

definition max_int64 :: int where
  "max_int64 = 2 ^ 63 - 1"

definition st_contains :: "int \<Rightarrow> int \<Rightarrow> int \<Rightarrow> int \<Rightarrow> bool" where
  "st_contains from1 to1 from2 to2 \<longleftrightarrow> from2 \<ge> from1 \<and> to2 \<le> to1"

definition st_intersects :: "int \<Rightarrow> int \<Rightarrow> int \<Rightarrow> int \<Rightarrow> bool" where
  "st_intersects from1 to1 from2 to2 \<longleftrightarrow> (from1 \<le> from2 \<and> to1 \<ge> from2) \<or> (from1 \<ge> from2 \<and> from1 \<le> to2)"

subsection \<open>Construction\<close>

function st_build :: "int list \<Rightarrow> nat \<Rightarrow> nat \<Rightarrow> nat \<Rightarrow> seg_node list \<Rightarrow> seg_node list option" where
  "st_build xs v from cnt heap =
     (if \<not> v < length heap \<or> cnt = 0 then None
      else let n = (heap ! v)\<lparr>sn_from := int from, sn_to := int (from + cnt) - 1\<rparr> in
        if cnt = 1 then
          if \<not> from < length xs then None
          else Some (heap[v := n\<lparr>sn_sum := xs ! from, sn_max := xs ! from, sn_min := xs ! from\<rparr>])
        else case st_build xs (2 * v) from (cnt div 2) (heap[v := n]) of
          None \<Rightarrow> None
        | Some heap1 \<Rightarrow>
            (case st_build xs (2 * v + 1) (from + cnt div 2) (cnt - cnt div 2) heap1 of
               None \<Rightarrow> None
             | Some heap2 \<Rightarrow>
                 if \<not> 2 * v + 1 < length heap2 then None
                 else Some (heap2[v := (heap2 ! v)\<lparr>sn_sum := sn_sum (heap2 ! (2 * v)) + sn_sum (heap2 ! (2 * v + 1)),
                        sn_max := max (sn_max (heap2 ! (2 * v))) (sn_max (heap2 ! (2 * v + 1))),
                        sn_min := min (sn_min (heap2 ! (2 * v))) (sn_min (heap2 ! (2 * v + 1)))\<rparr>])))"
  by pat_completeness auto
termination
  by (relation "measure (\<lambda>(xs, v, from, cnt, heap). cnt)") auto

declare st_build.simps [simp del]

definition heap_size :: "nat \<Rightarrow> nat" where
  "heap_size n = 2 * 2 ^ floorlog 2 n"

definition new_segment_tree :: "int list \<Rightarrow> segment_tree option" where
  "new_segment_tree xs =
     (if length xs < kMinArraySize then Some \<lparr>st_array = xs, st_heap = []\<rparr>
      else map_option (\<lambda>heap. \<lparr>st_array = xs, st_heap = heap\<rparr>)
             (st_build xs 1 0 (length xs) (replicate (heap_size (length xs)) empty_node)))"

subsection \<open>Queries\<close>

text \<open>\<open>change\<close> of the node at a position of the heap.\<close>

definition st_change :: "nat \<Rightarrow> int \<Rightarrow> segment_tree \<Rightarrow> segment_tree option" where
  "st_change v val t =
     (if \<not> v < length (st_heap t) then None
      else let n = st_heap t ! v in
        if \<not> (0 \<le> sn_from n \<and> sn_from n < int (length (st_array t))) then None
        else Some (t\<lparr>st_heap := (st_heap t)[v := n\<lparr>sn_pendingVal := \<lparr>pv_value = val, pv_available = True\<rparr>,
                       sn_sum := node_size n * val, sn_max := val, sn_min := val\<rparr>],
                     st_array := (st_array t)[nat (sn_from n) := val]\<rparr>))"

definition st_propagate :: "nat \<Rightarrow> segment_tree \<Rightarrow> segment_tree option" where
  "st_propagate v t =
     (if \<not> v < length (st_heap t) then None
      else let n = st_heap t ! v in
        if \<not> pv_available (sn_pendingVal n) then Some t
        else let val = pv_value (sn_pendingVal n) in
          case st_change (2 * v) val (t\<lparr>st_heap := (st_heap t)[v := n\<lparr>sn_pendingVal := no_pending\<rparr>]\<rparr>) of
            None \<Rightarrow> None
          | Some t1 \<Rightarrow> st_change (2 * v + 1) val t1)"

lemma st_change_length: "st_change v x t = Some t1 \<Longrightarrow> length (st_heap t1) = length (st_heap t)"
  by (auto simp: st_change_def Let_def split: if_splits)

lemma st_propagate_length: "st_propagate v t = Some t1 \<Longrightarrow> length (st_heap t1) = length (st_heap t)"
  by (auto simp: st_propagate_def Let_def dest!: st_change_length split: if_splits option.splits)

text \<open>
  \<open>rMaxQ\<close> and \<open>rMinQ\<close> of a node differ in the value of the node, in how two results are joined
  and in the result for a range that does not meet the node. No call changes the length of the heap
  (\<open>st_propagate_length\<close>); the comparison of the lengths is there for the proof of termination.
\<close>

function node_query :: "(seg_node \<Rightarrow> int) \<Rightarrow> (int \<Rightarrow> int \<Rightarrow> int) \<Rightarrow> int \<Rightarrow> nat \<Rightarrow> int \<Rightarrow> int \<Rightarrow> segment_tree
    \<Rightarrow> (int \<times> segment_tree) option" where
  "node_query sel join outside v from to t =
     (if \<not> v < length (st_heap t) \<or> v = 0 then None
      else let n = st_heap t ! v in
        if pv_available (sn_pendingVal n) \<and> st_contains (sn_from n) (sn_to n) from to
        then Some (pv_value (sn_pendingVal n), t)
        else if st_contains from to (sn_from n) (sn_to n) then Some (sel n, t)
        else if st_intersects from to (sn_from n) (sn_to n) then
          (case st_propagate v t of
             None \<Rightarrow> None
           | Some t1 \<Rightarrow>
               if length (st_heap t1) \<noteq> length (st_heap t) then None
               else (case node_query sel join outside (2 * v) from to t1 of
                  None \<Rightarrow> None
                | Some (leftMin, t2) \<Rightarrow>
                    if length (st_heap t2) \<noteq> length (st_heap t) then None
                    else (case node_query sel join outside (2 * v + 1) from to t2 of
                       None \<Rightarrow> None
                     | Some (rightMin, t3) \<Rightarrow> Some (join leftMin rightMin, t3))))
        else Some (outside, t))"
  by pat_completeness auto
termination
  by (relation "measure (\<lambda>(sel, join, outside, v, from, to, t). length (st_heap t) - v)") auto

declare node_query.simps [simp del]

definition rMaxQ_node :: "nat \<Rightarrow> int \<Rightarrow> int \<Rightarrow> segment_tree \<Rightarrow> (int \<times> segment_tree) option" where
  "rMaxQ_node v from to t = node_query sn_max max 0 v from to t"

definition rMinQ_node :: "nat \<Rightarrow> int \<Rightarrow> int \<Rightarrow> segment_tree \<Rightarrow> (int \<times> segment_tree) option" where
  "rMinQ_node v from to t = node_query sn_min min max_int64 v from to t"

text \<open>
  A query of a small array goes over the array: \<open>from\<close> and \<open>to\<close> are cut to its bounds first.
\<close>

definition small_query :: "(int \<Rightarrow> int \<Rightarrow> int) \<Rightarrow> int \<Rightarrow> int \<Rightarrow> int \<Rightarrow> int list \<Rightarrow> int" where
  "small_query join start from to xs =
     foldl (\<lambda>acc i. join acc (xs ! nat i)) start [max from 0..min to (int (length xs) - 1)]"

definition rMaxQ :: "int \<Rightarrow> int \<Rightarrow> segment_tree \<Rightarrow> (int \<times> segment_tree) option" where
  "rMaxQ from to t =
     (if length (st_array t) < kMinArraySize then Some (small_query max 0 from to (st_array t), t)
      else rMaxQ_node 1 from to t)"

definition rMinQ :: "int \<Rightarrow> int \<Rightarrow> segment_tree \<Rightarrow> (int \<times> segment_tree) option" where
  "rMinQ from to t =
     (if length (st_array t) < kMinArraySize then Some (small_query min max_int64 from to (st_array t), t)
      else rMinQ_node 1 from to t)"

subsection \<open>The tree of an array\<close>

text \<open>
  \<open>seg_ok xs heap v from cnt\<close>: the node \<open>v\<close> stands for the \<open>cnt\<close> values of the array from the
  position \<open>from\<close> on, its children for the two halves of them, and no change is pending below it.
\<close>

function seg_ok :: "int list \<Rightarrow> seg_node list \<Rightarrow> nat \<Rightarrow> nat \<Rightarrow> nat \<Rightarrow> bool" where
  "seg_ok xs heap v from cnt \<longleftrightarrow>
     (if cnt = 0 then False
      else if \<not> (0 < v \<and> v < length heap \<and> from + cnt \<le> length xs
        \<and> sn_pendingVal (heap ! v) = no_pending
        \<and> sn_from (heap ! v) = int from \<and> sn_to (heap ! v) = int (from + cnt) - 1) then False
      else if cnt = 1 then
        sn_sum (heap ! v) = xs ! from \<and> sn_max (heap ! v) = xs ! from \<and> sn_min (heap ! v) = xs ! from
      else if \<not> seg_ok xs heap (2 * v) from (cnt div 2) then False
      else seg_ok xs heap (2 * v + 1) (from + cnt div 2) (cnt - cnt div 2)
        \<and> sn_sum (heap ! v) = sn_sum (heap ! (2 * v)) + sn_sum (heap ! (2 * v + 1))
        \<and> sn_max (heap ! v) = max (sn_max (heap ! (2 * v))) (sn_max (heap ! (2 * v + 1)))
        \<and> sn_min (heap ! v) = min (sn_min (heap ! (2 * v))) (sn_min (heap ! (2 * v + 1))))"
  by pat_completeness auto
termination
  by (relation "measure (\<lambda>(xs, heap, v, from, cnt). cnt)") auto

declare seg_ok.simps [simp del]

lemma seg_ok_leaf:
  "seg_ok xs heap v from 1 \<longleftrightarrow> 0 < v \<and> v < length heap \<and> from < length xs
     \<and> sn_pendingVal (heap ! v) = no_pending \<and> sn_from (heap ! v) = int from \<and> sn_to (heap ! v) = int from
     \<and> sn_sum (heap ! v) = xs ! from \<and> sn_max (heap ! v) = xs ! from \<and> sn_min (heap ! v) = xs ! from"
  by (subst seg_ok.simps) auto

lemma seg_ok_node:
  assumes "cnt \<noteq> 1"
  shows "seg_ok xs heap v from cnt \<longleftrightarrow> 0 < cnt \<and> 0 < v \<and> v < length heap \<and> from + cnt \<le> length xs
     \<and> sn_pendingVal (heap ! v) = no_pending
     \<and> sn_from (heap ! v) = int from \<and> sn_to (heap ! v) = int (from + cnt) - 1
     \<and> seg_ok xs heap (2 * v) from (cnt div 2)
     \<and> seg_ok xs heap (2 * v + 1) (from + cnt div 2) (cnt - cnt div 2)
     \<and> sn_sum (heap ! v) = sn_sum (heap ! (2 * v)) + sn_sum (heap ! (2 * v + 1))
     \<and> sn_max (heap ! v) = max (sn_max (heap ! (2 * v))) (sn_max (heap ! (2 * v + 1)))
     \<and> sn_min (heap ! v) = min (sn_min (heap ! (2 * v))) (sn_min (heap ! (2 * v + 1)))"
  using assms by (subst seg_ok.simps) auto

text \<open>The positions of the heap below a node.\<close>

definition in_sub :: "nat \<Rightarrow> nat \<Rightarrow> bool" where
  "in_sub v w \<longleftrightarrow> (\<exists>k. w div 2 ^ k = v)"

lemma in_sub_self [simp]: "in_sub v v"
  unfolding in_sub_def by (rule exI[of _ 0]) simp

lemma in_sub_child:
  assumes "in_sub (2 * v) w \<or> in_sub (2 * v + 1) w"
  shows "in_sub v w"
proof -
  obtain k where "w div 2 ^ k = 2 * v \<or> w div 2 ^ k = 2 * v + 1"
    using assms by (auto simp: in_sub_def)
  then have "w div 2 ^ Suc k = v" by (auto simp only: power_Suc2 div_mult2_eq)
  then show ?thesis unfolding in_sub_def by blast
qed

lemma in_sub_le: "in_sub v w \<Longrightarrow> v \<le> w"
  by (auto simp: in_sub_def)

lemma in_sub_siblings:
  assumes v: "0 < v" and l: "in_sub (2 * v) w" and r: "in_sub (2 * v + 1) w"
  shows False
proof -
  obtain i j where i: "w div 2 ^ i = 2 * v" and j: "w div 2 ^ j = 2 * v + 1"
    using l r by (auto simp: in_sub_def)
  have step: "w div 2 ^ (m + Suc k) \<le> (w div 2 ^ m) div 2" for m k
  proof -
    have "w div 2 ^ (m + Suc k) = ((w div 2 ^ m) div 2) div 2 ^ k"
      by (simp only: power_add power_Suc div_mult2_eq)
    then show ?thesis by simp
  qed
  consider "i = j" | k where "j = i + Suc k" | k where "i = j + Suc k"
    by (metis less_imp_Suc_add linorder_neqE_nat add_Suc_right)
  then show False
  proof cases
    case 1 then show ?thesis using i j by simp
  next
    case 2 then show ?thesis using step[of i k] i j v by simp
  next
    case 3 then show ?thesis using step[of j k] i j v by simp
  qed
qed

lemma not_in_sub_parent: "0 < v \<Longrightarrow> \<not> in_sub (2 * v) v \<and> \<not> in_sub (2 * v + 1) v"
  using in_sub_le by fastforce

lemma seg_ok_frame:
  assumes "seg_ok xs heap v from cnt" and "\<And>w. in_sub v w \<Longrightarrow> heap1 ! w = heap ! w"
    and "length heap1 = length heap"
  shows "seg_ok xs heap1 v from cnt"
  using assms
proof (induction cnt arbitrary: v "from" rule: less_induct)
  case (less cnt)
  note eq = less.prems(2)[OF in_sub_self]
  have l: "heap1 ! w = heap ! w" if "in_sub (2 * v) w" for w
    using less.prems(2) in_sub_child that by blast
  have r: "heap1 ! w = heap ! w" if "in_sub (2 * v + 1) w" for w
    using less.prems(2) in_sub_child that by blast
  show ?case
  proof (cases "cnt = 1")
    case True
    show ?thesis
      using less.prems(1,3) eq unfolding True seg_ok_leaf by simp
  next
    case False
    have ok: "0 < cnt" "seg_ok xs heap (2 * v) from (cnt div 2)"
        "seg_ok xs heap (2 * v + 1) (from + cnt div 2) (cnt - cnt div 2)"
      using less.prems(1) unfolding seg_ok_node[OF False] by blast+
    have "seg_ok xs heap1 (2 * v) from (cnt div 2)"
      by (rule less.IH[OF _ ok(2) l less.prems(3)]) (use ok(1) in auto)
    moreover have "seg_ok xs heap1 (2 * v + 1) (from + cnt div 2) (cnt - cnt div 2)"
      by (rule less.IH[OF _ ok(3) r less.prems(3)]) (use ok(1) False in auto)
    ultimately show ?thesis
      using less.prems(1,3) eq l[OF in_sub_self] r[OF in_sub_self] unfolding seg_ok_node[OF False] by simp
  qed
qed

text \<open>Building a tree that has room for its nodes ends, changes the nodes below its root only and leaves it right.\<close>

lemma st_build_ok:
  assumes "0 < v" and "0 < cnt" and "from + cnt \<le> length xs" and "cnt \<le> 2 ^ d" and "(v + 1) * 2 ^ d \<le> length heap"
    and "\<And>w. w < length heap \<Longrightarrow> sn_pendingVal (heap ! w) = no_pending"
  shows "\<exists>heap1. st_build xs v from cnt heap = Some heap1 \<and> length heap1 = length heap
    \<and> (\<forall>w. \<not> in_sub v w \<longrightarrow> heap1 ! w = heap ! w)
    \<and> (\<forall>w < length heap. sn_pendingVal (heap1 ! w) = no_pending) \<and> seg_ok xs heap1 v from cnt"
  using assms
proof (induction cnt arbitrary: v "from" d heap rule: less_induct)
  case (less cnt)
  have "v + 1 \<le> (v + 1) * 2 ^ d" using mult_le_mono2[of 1 "2 ^ d" "v + 1"] by simp
  then have v: "v < length heap" using less.prems(5) by linarith
  show ?case
  proof (cases "cnt = 1")
    case True
    show ?thesis
      unfolding True using less.prems(1,3,6) v True
      by (subst st_build.simps) (auto simp: seg_ok_leaf[unfolded One_nat_def] nth_list_update)
  next
    case False
    obtain e where d: "d = Suc e" using less.prems(2,4) False by (cases d) auto
    have room: "(2 * v + 1) * 2 ^ e \<le> length heap" "(2 * v + 1 + 1) * 2 ^ e \<le> length heap"
      using less.prems(5) by (auto simp: d algebra_simps)
    have half: "cnt div 2 \<le> 2 ^ e" "cnt - cnt div 2 \<le> 2 ^ e" "0 < cnt div 2" "0 < cnt - cnt div 2"
        "cnt div 2 < cnt" "cnt - cnt div 2 < cnt"
      using less.prems(2,4) False by (auto simp: d)
    let ?h = "heap[v := (heap ! v)\<lparr>sn_from := int from, sn_to := int (from + cnt) - 1\<rparr>]"
    obtain h1 where h1: "st_build xs (2 * v) from (cnt div 2) ?h = Some h1" "length h1 = length heap"
        "\<And>w. \<not> in_sub (2 * v) w \<Longrightarrow> h1 ! w = ?h ! w"
        "\<And>w. w < length heap \<Longrightarrow> sn_pendingVal (h1 ! w) = no_pending" "seg_ok xs h1 (2 * v) from (cnt div 2)"
      using less.IH[OF half(5), of "2 * v" "from" e ?h] less.prems room half v
      by (auto simp: nth_list_update)
    obtain h2 where h2: "st_build xs (2 * v + 1) (from + cnt div 2) (cnt - cnt div 2) h1 = Some h2"
        "length h2 = length heap" "\<And>w. \<not> in_sub (2 * v + 1) w \<Longrightarrow> h2 ! w = h1 ! w"
        "\<And>w. w < length heap \<Longrightarrow> sn_pendingVal (h2 ! w) = no_pending"
        "seg_ok xs h2 (2 * v + 1) (from + cnt div 2) (cnt - cnt div 2)"
      using less.IH[OF half(6), of "2 * v + 1" "from + cnt div 2" e h1] less.prems room half h1
      by auto
    let ?n = "(h2 ! v)\<lparr>sn_sum := sn_sum (h2 ! (2 * v)) + sn_sum (h2 ! (2 * v + 1)),
        sn_max := max (sn_max (h2 ! (2 * v))) (sn_max (h2 ! (2 * v + 1))),
        sn_min := min (sn_min (h2 ! (2 * v))) (sn_min (h2 ! (2 * v + 1)))\<rparr>"
    have out: "2 * v + 1 < length h2" using h2(5) h2(2) by (subst (asm) seg_ok.simps) (auto split: if_splits)
    have res: "st_build xs v from cnt heap = Some (h2[v := ?n])"
      using less.prems(2) False v h1(1) h2(1) out by (subst st_build.simps) (simp add: Let_def)
    have kids: "\<not> in_sub (2 * v) v" "\<not> in_sub (2 * v + 1) v"
      using not_in_sub_parent[OF less.prems(1)] by auto
    have self: "h2 ! v = ?h ! v" using h2(3)[OF kids(2)] h1(3)[OF kids(1)] by simp
    have "seg_ok xs (h2[v := ?n]) (2 * v) from (cnt div 2)"
    proof (rule seg_ok_frame[OF h1(5)])
      fix w assume w: "in_sub (2 * v) w"
      then have "\<not> in_sub (2 * v + 1) w" using in_sub_siblings[OF less.prems(1)] by blast
      moreover have "w \<noteq> v" using w kids by blast
      ultimately show "h2[v := ?n] ! w = h1 ! w" using h2(3) by simp
    qed (use h1(2) h2(2) in simp)
    moreover have "seg_ok xs (h2[v := ?n]) (2 * v + 1) (from + cnt div 2) (cnt - cnt div 2)"
      
    proof (rule seg_ok_frame[OF h2(5)])
      fix w assume "in_sub (2 * v + 1) w"
      then have "v \<noteq> w" using kids by blast
      then show "h2[v := ?n] ! w = h2 ! w" by (rule nth_list_update_neq)
    qed simp
    ultimately have "seg_ok xs (h2[v := ?n]) v from cnt"
      unfolding seg_ok_node[OF False] using less.prems v h2(2) self by simp
    moreover have "h2[v := ?n] ! w = heap ! w" if "\<not> in_sub v w" for w
    proof -
      have neq: "v \<noteq> w" using that in_sub_self by blast
      have "h2 ! w = h1 ! w" by (rule h2(3)) (use that in_sub_child in blast)
      also have "h1 ! w = ?h ! w" by (rule h1(3)) (use that in_sub_child in blast)
      finally show ?thesis by (simp only: nth_list_update_neq[OF neq])
    qed
    moreover have "sn_pendingVal (h2[v := ?n] ! w) = no_pending" if "w < length heap" for w
      using h2(4)[OF that] h2(2) that by (cases "w = v") auto
    ultimately show ?thesis using res h2(2) by simp
  qed
qed

subsection \<open>Queries of a tree\<close>

text \<open>The values of an array at the positions from one position to another.\<close>

definition values_between :: "int \<Rightarrow> int \<Rightarrow> int list \<Rightarrow> int list" where
  "values_between from to xs = map ((!) xs) (filter (\<lambda>i. from \<le> int i \<and> int i \<le> to) [0..<length xs])"

definition values_at :: "int \<Rightarrow> int \<Rightarrow> nat \<Rightarrow> nat \<Rightarrow> int list \<Rightarrow> int list" where
  "values_at from to a c xs = map ((!) xs) (filter (\<lambda>i. from \<le> int i \<and> int i \<le> to) [a..<a + c])"

lemma values_at_split:
  "b \<le> c \<Longrightarrow> values_at from to a c xs = values_at from to a b xs @ values_at from to (a + b) (c - b) xs"
  using upt_add_eq_append[of a "a + b" "c - b"] by (simp add: values_at_def)

lemma values_at_none: "\<not> (from \<le> int (a + c) - 1 \<and> int a \<le> to) \<Longrightarrow> values_at from to a c xs = []"
  by (auto simp: values_at_def filter_empty_conv)

lemma values_at_all: "from \<le> int a \<Longrightarrow> int (a + c) - 1 \<le> to \<Longrightarrow> values_at from to a c xs = map ((!) xs) [a..<a + c]"
  by (auto simp: values_at_def intro!: filter_True)

text \<open>What makes a value of the nodes answer queries: it is joined of the values of the children.\<close>

locale node_value =
  fixes sel :: "seg_node \<Rightarrow> int" and join :: "int \<Rightarrow> int \<Rightarrow> int" and outside :: int and valid :: "int \<Rightarrow> bool"
  assumes join_assoc: "join (join x y) z = join x (join y z)"
    and join_commute: "join x y = join y x"
    and valid_outside: "valid outside"
    and valid_join: "valid x \<Longrightarrow> valid y \<Longrightarrow> valid (join x y)"
    and join_outside: "valid x \<Longrightarrow> join x outside = x"
    and sel_leaf: "sn_max n = x \<Longrightarrow> sn_min n = x \<Longrightarrow> sel n = x"
    and sel_node: "sn_max n = max (sn_max l) (sn_max r) \<Longrightarrow> sn_min n = min (sn_min l) (sn_min r)
      \<Longrightarrow> sel n = join (sel l) (sel r)"
begin

definition joined :: "int list \<Rightarrow> int" where
  "joined ys = foldr join ys outside"

lemma joined_valid: "\<forall>y \<in> set ys. valid y \<Longrightarrow> valid (joined ys)"
  unfolding joined_def by (induction ys) (auto simp: valid_outside valid_join)

lemma joined_append: "\<forall>y \<in> set (ys @ zs). valid y \<Longrightarrow> joined (ys @ zs) = join (joined ys) (joined zs)"
proof (induction ys)
  case Nil
  have "valid (joined zs)" by (rule joined_valid) (use Nil in simp)
  then show ?case by (simp add: joined_def join_outside join_commute[of outside])
next
  case (Cons y ys)
  then show ?case by (simp add: joined_def join_assoc)
qed

lemma values_at_valid: "\<forall>y \<in> set xs. valid y \<Longrightarrow> a + c \<le> length xs \<Longrightarrow> \<forall>y \<in> set (values_at from to a c xs). valid y"
  by (auto simp: values_at_def)

lemma joined_values_at:
  assumes "\<forall>y \<in> set xs. valid y" and "a + c \<le> length xs" and "b \<le> c"
  shows "joined (values_at from to a c xs) = join (joined (values_at from to a b xs)) (joined (values_at from to (a + b) (c - b) xs))"
  using values_at_valid[OF assms(1,2), of "from" to] joined_append
  unfolding values_at_split[OF assms(3)] by blast

lemma sel_ok:
  assumes "\<forall>y \<in> set xs. valid y" and "seg_ok xs h v a c"
  shows "sel (h ! v) = joined (map ((!) xs) [a..<a + c])"
  using assms(2)
proof (induction c arbitrary: v a rule: less_induct)
  case (less c)
  show ?case
  proof (cases "c = 1")
    case True
    have "xs ! a \<in> set xs" using less.prems unfolding True seg_ok_leaf by simp
    then show ?thesis using less.prems assms(1) unfolding True seg_ok_leaf
      by (simp add: joined_def join_outside sel_leaf)
  next
    case False
    have ok: "0 < c" "seg_ok xs h (2 * v) a (c div 2)" "seg_ok xs h (2 * v + 1) (a + c div 2) (c - c div 2)"
        "a + c \<le> length xs"
      using less.prems unfolding seg_ok_node[OF False] by blast+
    have halves: "c div 2 < c" "c - c div 2 < c" using ok(1) False by auto
    have "sel (h ! v) = join (sel (h ! (2 * v))) (sel (h ! (2 * v + 1)))"
      by (rule sel_node; use less.prems in \<open>unfold seg_ok_node[OF False], blast\<close>)
    also have "\<dots> = joined (values_at 0 (int (length xs)) a c xs)"
      unfolding less.IH[OF halves(1) ok(2)] less.IH[OF halves(2) ok(3)]
        joined_values_at[OF assms(1) ok(4) div_le_dividend[of c 2], of 0 "int (length xs)"]
      using ok(4) by (simp add: values_at_all)
    finally show ?thesis using ok by (simp add: values_at_all)
  qed
qed

lemma node_query_ok:
  assumes "\<forall>y \<in> set (st_array t). valid y" and "from \<le> to" and "seg_ok (st_array t) (st_heap t) v a c"
  shows "node_query sel join outside v from to t = Some (joined (values_at from to a c (st_array t)), t)"
  using assms(3)
proof (induction c arbitrary: v a rule: less_induct)
  case (less c)
  let ?xs = "st_array t" and ?h = "st_heap t"
  have node: "v < length ?h" "0 < v" "sn_pendingVal (?h ! v) = no_pending" "sn_from (?h ! v) = int a"
      "sn_to (?h ! v) = int (a + c) - 1" "0 < c" "a + c \<le> length ?xs"
    using less.prems by (subst (asm) seg_ok.simps; auto split: if_splits)+
  consider (all) "from \<le> int a" "int (a + c) - 1 \<le> to" | (no) "\<not> (from \<le> int (a + c) - 1 \<and> int a \<le> to)"
    | (some) "\<not> (from \<le> int a \<and> int (a + c) - 1 \<le> to)" "from \<le> int (a + c) - 1" "int a \<le> to"
    by blast
  then show ?case
  proof cases
    case all
    then show ?thesis using node sel_ok[OF assms(1) less.prems]
      by (subst node_query.simps) (simp add: no_pending_def Let_def st_contains_def values_at_all)
  next
    case no
    then show ?thesis using node assms(2) values_at_none[OF no]
      by (subst node_query.simps)
        (auto simp: no_pending_def Let_def st_contains_def st_intersects_def joined_def)
  next
    case some
    have c: "c \<noteq> 1" using some by auto
    have ok: "seg_ok ?xs ?h (2 * v) a (c div 2)" "seg_ok ?xs ?h (2 * v + 1) (a + c div 2) (c - c div 2)"
      using less.prems unfolding seg_ok_node[OF c] by blast+
    have halves: "c div 2 < c" "c - c div 2 < c" using node(6) c by auto
    have same: "st_propagate v t = Some t" using node by (simp add: st_propagate_def no_pending_def Let_def)
    have meet: "st_intersects from to (int a) (int (a + c) - 1)" "\<not> st_contains from to (int a) (int (a + c) - 1)"
      using some by (auto simp: st_intersects_def st_contains_def)
    show ?thesis
      unfolding joined_values_at[OF assms(1) node(7) div_le_dividend[of c 2]]
      using less.IH[OF halves(1) ok(1)] less.IH[OF halves(2) ok(2)] node meet same
      by (subst node_query.simps) (simp add: no_pending_def Let_def)
  qed
qed

lemma small_query_ok:
  assumes "\<forall>y \<in> set xs. valid y"
  shows "small_query join outside from to xs = joined (values_between from to xs)"
proof -
  have fold: "foldl (\<lambda>acc i. join acc (f i)) acc is' = join acc (joined (map f is'))"
    if "valid acc" "\<forall>i \<in> set is'. valid (f i)" for acc f and is' :: "nat list"
    using that
  proof (induction is' arbitrary: acc)
    case Nil then show ?case by (simp add: joined_def join_outside)
  next
    case (Cons i is')
    then show ?case by (simp add: valid_join joined_def join_assoc)
  qed
  have upto: "[max from 0..min to (int (length xs) - 1)]
      = map int (filter (\<lambda>i. from \<le> int i \<and> int i \<le> to) [0..<length xs])"
  proof (rule sorted_distinct_set_unique)
    have "x \<in> int ` {i. i < length xs \<and> from \<le> int i \<and> int i \<le> to}"
      if "from \<le> x" "0 \<le> x" "x \<le> to" "x < int (length xs)" for x
      by (rule image_eqI[of _ _ "nat x"]) (use that in auto)
    then show "set [max from 0..min to (int (length xs) - 1)]
        = set (map int (filter (\<lambda>i. from \<le> int i \<and> int i \<le> to) [0..<length xs]))"
      by auto
  qed (auto simp: sorted_map distinct_map sorted_wrt_filter)
  show ?thesis
    unfolding small_query_def upto foldl_map
    using fold[OF valid_outside, of "filter (\<lambda>i. from \<le> int i \<and> int i \<le> to) [0..<length xs]" "(!) xs"] assms
    by (simp add: values_between_def joined_valid join_commute[of outside] join_outside)
qed

end

interpretation seg_max: node_value sn_max max 0 "\<lambda>x. 0 \<le> x"
  by unfold_locales auto

interpretation seg_min: node_value sn_min min max_int64 "\<lambda>x. x \<le> max_int64"
  by unfold_locales auto

lemma new_segment_tree_ok:
  assumes "kMinArraySize \<le> length xs"
  shows "\<exists>heap. new_segment_tree xs = Some \<lparr>st_array = xs, st_heap = heap\<rparr> \<and> seg_ok xs heap 1 0 (length xs)"
proof -
  have n: "0 < length xs" using assms by (cases xs) (auto simp: kMinArraySize_def)
  have "\<exists>heap. st_build xs 1 0 (length xs) (replicate (heap_size (length xs)) empty_node) = Some heap
      \<and> length heap = length (replicate (heap_size (length xs)) empty_node)
      \<and> (\<forall>w. \<not> in_sub 1 w \<longrightarrow> heap ! w = replicate (heap_size (length xs)) empty_node ! w)
      \<and> (\<forall>w < length (replicate (heap_size (length xs)) empty_node). sn_pendingVal (heap ! w) = no_pending)
      \<and> seg_ok xs heap 1 0 (length xs)"
    by (rule st_build_ok[where d = "floorlog 2 (length xs)"])
      (use n floorlog_bounds[of "length xs" 2] in \<open>auto simp: heap_size_def empty_node_def\<close>)
  then show ?thesis using assms by (auto simp: new_segment_tree_def)
qed

lemma values_between_at: "values_between from to xs = values_at from to 0 (length xs) xs"
  by (simp add: values_between_def values_at_def)

lemma segment_queries_ok:
  assumes xs: "\<forall>y \<in> set xs. 0 \<le> y \<and> y \<le> max_int64" and le: "from \<le> to"
  shows "\<exists>t. new_segment_tree xs = Some t
    \<and> rMaxQ from to t = Some (foldr max (values_between from to xs) 0, t)
    \<and> rMinQ from to t = Some (foldr min (values_between from to xs) max_int64, t)"
proof (cases "length xs < kMinArraySize")
  case True
  then show ?thesis
    using seg_max.small_query_ok[of xs "from" to] seg_min.small_query_ok[of xs "from" to] xs
    by (simp add: new_segment_tree_def rMaxQ_def rMinQ_def seg_max.joined_def seg_min.joined_def)
next
  case False
  then obtain heap where heap: "new_segment_tree xs = Some \<lparr>st_array = xs, st_heap = heap\<rparr>"
      "seg_ok xs heap 1 0 (length xs)"
    using new_segment_tree_ok[of xs] by auto
  then show ?thesis
    using False seg_max.node_query_ok[of "\<lparr>st_array = xs, st_heap = heap\<rparr>" "from" to 1 0 "length xs"]
      seg_min.node_query_ok[of "\<lparr>st_array = xs, st_heap = heap\<rparr>" "from" to 1 0 "length xs"] xs le
    by (simp add: rMaxQ_def rMinQ_def rMaxQ_node_def rMinQ_node_def seg_max.joined_def seg_min.joined_def values_between_at)
qed

subsection \<open>Properties\<close>

text \<open>
  C27: For every array of numbers of the counts a chart has (none negative, none above the greatest
  \<open>int64\<close>) the tree can be built, no access leaving the heap, and for every range whose end is not
  before its start \<open>rMaxQ\<close> is the greatest and \<open>rMinQ\<close> the least of the values at the positions of
  the range that are in the array (0 and the greatest \<open>int64\<close> if there are none), whether the
  array is searched or, from thirty values on, the tree; neither changes the tree.
\<close>

theorem segment_tree_queries:
  assumes "\<forall>y \<in> set xs. 0 \<le> y \<and> y \<le> max_int64" and "from \<le> to"
  shows "\<exists>t. new_segment_tree xs = Some t
    \<and> rMaxQ from to t = Some (foldr max (values_between from to xs) 0, t)
    \<and> rMinQ from to t = Some (foldr min (values_between from to xs) max_int64, t)"
  by (rule segment_queries_ok[OF assms])

theorem segment_tree_queries_witness:
  "\<exists>t. new_segment_tree (map (\<lambda>i. (int i * 7) mod 11) [0..<40]) = Some t
     \<and> rMaxQ 3 6 t = Some (10, t) \<and> rMinQ 3 6 t = Some (2, t)"
  using segment_tree_queries[of "map (\<lambda>i. (int i * 7) mod 11) [0..<40]" 3 6]
  by (simp add: values_between_def upt_conv_Cons max_int64_def)

end
