(* ===== verification/ReceivedIds.thy ===== *)
theory ReceivedIds
  imports Prelude
begin

text \<open>
  The ids of the messages a session has received, from
  \<open>mtproto/details/mtproto_received_ids_manager.{h,cpp}\<close>. The manager decides for every message
  of the server whether it is handled, so that a message sent again (or replayed) is not handled
  again, and it forgets the oldest ids when there are more than four hundred. The \<open>flat_map\<close> is a
  sorted association list; an id is a word of 64 bits.
\<close>

type_synonym msg_id64 = "64 word"
type_synonym received_ids = "(msg_id64, bool) flat_map"

datatype rid_state = NotFound | NeedsAck | NoAckNeeded
datatype rid_result = Success | Duplicate | TooOld

definition kIdsBufferSize :: nat where
  "kIdsBufferSize = 400"

definition rid_min :: "received_ids \<Rightarrow> msg_id64" where
  "rid_min m = (if m = [] then 0 else fst (hd m))"

definition rid_max :: "received_ids \<Rightarrow> msg_id64" where
  "rid_max m = (if m = [] then 0 else fst (last m))"

definition registerMsgId :: "msg_id64 \<Rightarrow> bool \<Rightarrow> received_ids \<Rightarrow> rid_result \<times> received_ids" where
  "registerMsgId msgId needAck m =
     (if fm_lookup m msgId \<noteq> None then (Duplicate, m)
      else if length m < kIdsBufferSize \<or> msgId > rid_min m then (Success, fm_emplace msgId needAck m)
      else (TooOld, m))"

definition rid_lookup :: "msg_id64 \<Rightarrow> received_ids \<Rightarrow> rid_state" where
  "rid_lookup msgId m =
     (case fm_lookup m msgId of
        None \<Rightarrow> NotFound
      | Some needAck \<Rightarrow> if needAck then NeedsAck else NoAckNeeded)"

text \<open>\<open>while (size-- > kIdsBufferSize)\<close>: the number left is counted down on its own.\<close>

fun shrink_loop :: "nat \<Rightarrow> received_ids \<Rightarrow> received_ids" where
  "shrink_loop n m = (if n > kIdsBufferSize then shrink_loop (n - 1) (tl m) else m)"

declare shrink_loop.simps [simp del]

definition rid_shrink :: "received_ids \<Rightarrow> received_ids" where
  "rid_shrink m = shrink_loop (length m) m"

definition rid_clear :: "received_ids \<Rightarrow> received_ids" where
  "rid_clear m = []"

text \<open>The calls of a session between two \<open>clear\<close>s, with the ids that were accepted in their order.\<close>

datatype rid_call = RegisterId msg_id64 bool | ShrinkIds

fun rid_call_step :: "rid_call \<Rightarrow> (msg_id64 \<times> bool) list \<times> received_ids \<Rightarrow> (msg_id64 \<times> bool) list \<times> received_ids" where
  "rid_call_step (RegisterId msgId needAck) (accepted, m) =
     (case registerMsgId msgId needAck m of
        (r, m1) \<Rightarrow> (if r = Success then accepted @ [(msgId, needAck)] else accepted, m1))"
| "rid_call_step ShrinkIds (accepted, m) = (accepted, rid_shrink m)"

definition rid_run :: "rid_call list \<Rightarrow> (msg_id64 \<times> bool) list \<times> received_ids" where
  "rid_run calls = fold rid_call_step calls ([], [])"

subsection \<open>What the manager keeps\<close>

lemma shrink_loop_drop: "n = length m \<Longrightarrow> shrink_loop n m = drop (n - kIdsBufferSize) m"
proof (induction n m rule: shrink_loop.induct)
  case (1 n m)
  show ?case
  proof (cases "n > kIdsBufferSize")
    case True
    then have "shrink_loop n m = drop (n - 1 - kIdsBufferSize) (tl m)"
      using 1 by (subst shrink_loop.simps) simp
    also have "\<dots> = drop (n - kIdsBufferSize) m"
      using True by (simp add: drop_Suc[symmetric] Suc_diff_Suc)
    finally show ?thesis .
  next
    case False
    then show ?thesis by (subst shrink_loop.simps) simp
  qed
qed

lemma rid_shrink_drop: "rid_shrink m = drop (length m - kIdsBufferSize) m"
  by (simp add: rid_shrink_def shrink_loop_drop)

text \<open>
  The ids kept are the newest of the accepted ones, at least four hundred of them if any were
  forgotten.
\<close>

definition rid_ok :: "(msg_id64 \<times> bool) list \<Rightarrow> received_ids \<Rightarrow> bool" where
  "rid_ok accepted m \<longleftrightarrow> fm_sorted m \<and> distinct (map fst accepted) \<and>
     (\<exists>old. set accepted = set (old @ m) \<and> fm_sorted (old @ m) \<and> (old \<noteq> [] \<longrightarrow> kIdsBufferSize \<le> length m))"

lemma fm_emplace_append:
  "\<forall>e \<in> set old. fst e < k \<Longrightarrow> fm_emplace k v (old @ m) = old @ fm_emplace k v m"
  by (induction old) auto

lemma rid_ok_register:
  assumes ok: "rid_ok accepted m" and step: "registerMsgId msgId needAck m = (r, m1)"
  shows "rid_ok (if r = Success then accepted @ [(msgId, needAck)] else accepted) m1"
proof (cases "r = Success")
  case False
  then show ?thesis using ok step by (auto simp: registerMsgId_def split: if_splits)
next
  case True
  obtain old where old: "set accepted = set (old @ m)" "fm_sorted (old @ m)"
      "old \<noteq> [] \<Longrightarrow> kIdsBufferSize \<le> length m" and m: "fm_sorted m" "distinct (map fst accepted)"
    using ok by (auto simp: rid_ok_def)
  have new: "fm_lookup m msgId = None" "length m < kIdsBufferSize \<or> msgId > rid_min m"
      "m1 = fm_emplace msgId needAck m"
    using step True by (auto simp: registerMsgId_def split: if_splits)
  have below: "\<forall>e \<in> set old. fst e < msgId"
  proof
    fix e assume e: "e \<in> set old"
    then have "kIdsBufferSize \<le> length m" using old(3) by (cases old) auto
    moreover from this have "m \<noteq> []" by (cases m) (auto simp: kIdsBufferSize_def)
    ultimately have "rid_min m < msgId" "rid_min m \<in> fst ` set m" using new(2) by (auto simp: rid_min_def)
    moreover have "\<forall>k \<in> fst ` set m. fst e < k" using old(2) e by (auto simp: sorted_wrt_append)
    ultimately show "fst e < msgId" by fastforce
  qed
  have notin: "msgId \<notin> fst ` set (old @ m)"
    using below new(1) by (auto simp: fm_lookup_None)
  have "mset m1 = add_mset (msgId, needAck) (mset m)"
    unfolding new(3) by (rule mset_fm_emplace) (use new(1) in \<open>simp add: fm_lookup_None\<close>)
  then have sz: "length m1 = Suc (length m)" and els: "set m1 = insert (msgId, needAck) (set m)"
    by (metis size_mset size_add_mset, metis set_mset_add_mset_insert set_mset_mset)
  have "set (accepted @ [(msgId, needAck)]) = set (old @ m1)" using old(1) els by auto
  moreover have "fm_sorted (old @ m1)"
    unfolding new(3) fm_emplace_append[OF below, symmetric] by (rule sorted_fm_emplace[OF old(2)])
  moreover have "distinct (map fst (accepted @ [(msgId, needAck)]))"
    using m(2) notin old(1) by (auto simp: image_iff)
  moreover have "old \<noteq> [] \<longrightarrow> kIdsBufferSize \<le> length m1" using old(3) sz by auto
  moreover have "fm_sorted m1" unfolding new(3) by (rule sorted_fm_emplace[OF m(1)])
  ultimately show ?thesis unfolding rid_ok_def using True by (auto intro!: exI[of _ old])
qed

lemma rid_ok_shrink:
  assumes ok: "rid_ok accepted m"
  shows "rid_ok accepted (rid_shrink m)"
proof -
  obtain old where old: "set accepted = set (old @ m)" "fm_sorted (old @ m)"
      "old \<noteq> [] \<Longrightarrow> kIdsBufferSize \<le> length m" and m: "fm_sorted m" "distinct (map fst accepted)"
    using ok by (auto simp: rid_ok_def)
  let ?n = "length m - kIdsBufferSize"
  have split: "old @ m = (old @ take ?n m) @ drop ?n m" by simp
  have "fm_sorted (drop ?n m)" using m(1) by (simp add: drop_map sorted_wrt_drop flip: drop_map)
  moreover have "old @ take ?n m \<noteq> [] \<longrightarrow> kIdsBufferSize \<le> length (drop ?n m)" using old(3) by auto
  ultimately show ?thesis
    unfolding rid_ok_def rid_shrink_drop using old(1,2) m(2) split by metis
qed

lemma rid_run_ok:
  assumes "rid_run calls = (accepted, m)"
  shows "rid_ok accepted m"
proof -
  have "rid_ok (fst (fold rid_call_step calls s)) (snd (fold rid_call_step calls s))" if "rid_ok (fst s) (snd s)" for s
    using that
  proof (induction calls arbitrary: s)
    case (Cons c calls)
    have "rid_ok (fst (rid_call_step c s)) (snd (rid_call_step c s))"
    proof (cases c)
      case (RegisterId msgId needAck)
      then show ?thesis using rid_ok_register[OF Cons.prems, of msgId needAck]
        by (cases s) (auto split: prod.split)
    next
      case ShrinkIds
      then show ?thesis using rid_ok_shrink[OF Cons.prems] by (cases s) auto
    qed
    then show ?case using Cons.IH by simp
  qed simp
  from this[of "([], [])"] show ?thesis using assms by (simp add: rid_run_def rid_ok_def)
qed

text \<open>The accepted ids newer than an id.\<close>

definition newer :: "msg_id64 \<Rightarrow> (msg_id64 \<times> bool) list \<Rightarrow> msg_id64 set" where
  "newer i accepted = {k \<in> fst ` set accepted. i < k}"

lemma newer_few:
  assumes "rid_ok accepted m" and "card (newer i accepted) < kIdsBufferSize" and "kIdsBufferSize \<le> length m"
  shows "rid_min m \<le> i"
proof (rule ccontr)
  assume "\<not> rid_min m \<le> i"
  then have i: "i < rid_min m" by simp
  have m: "fm_sorted m" "fst ` set m \<subseteq> fst ` set accepted" using assms(1) by (auto simp: rid_ok_def)
  have "rid_min m \<le> k" if "k \<in> fst ` set m" for k
    using that sorted_hd_le[OF m(1), of k] by (cases m) (auto simp: rid_min_def)
  then have "fst ` set m \<subseteq> newer i accepted" using i m(2) by (auto simp: newer_def intro: less_le_trans)
  then have "card (fst ` set m) \<le> card (newer i accepted)"
    by (rule card_mono[rotated]) (simp add: newer_def)
  moreover have "card (fst ` set m) = length m"
    using distinct_card[OF sorted_distinct_ids[OF m(1)]] by simp
  ultimately show False using assms(2,3) by simp
qed

lemma rid_answers:
  assumes ok: "rid_ok accepted m" and few: "card (newer i accepted) < kIdsBufferSize"
  shows "i \<notin> fst ` set accepted \<longrightarrow> fst (registerMsgId i needAck m) = Success"
    and "(i, flag) \<in> set accepted \<longrightarrow> rid_lookup i m = (if flag then NeedsAck else NoAckNeeded)"
proof -
  obtain old where old: "set accepted = set (old @ m)" "fm_sorted (old @ m)"
      "old \<noteq> [] \<Longrightarrow> kIdsBufferSize \<le> length m" and m: "fm_sorted m"
    using ok by (auto simp: rid_ok_def)
  have min_in: "rid_min m \<in> fst ` set m" if "kIdsBufferSize \<le> length m"
    using that by (cases m) (auto simp: rid_min_def kIdsBufferSize_def)
  show "i \<notin> fst ` set accepted \<longrightarrow> fst (registerMsgId i needAck m) = Success"
  proof
    assume i: "i \<notin> fst ` set accepted"
    have "rid_min m < i" if "kIdsBufferSize \<le> length m"
      using newer_few[OF ok few that] min_in[OF that] i old(1) by (auto simp: order.order_iff_strict)
    then show "fst (registerMsgId i needAck m) = Success"
      using i old(1) by (fastforce simp: registerMsgId_def fm_lookup_None)
  qed
  show "(i, flag) \<in> set accepted \<longrightarrow> rid_lookup i m = (if flag then NeedsAck else NoAckNeeded)"
  proof
    assume i: "(i, flag) \<in> set accepted"
    have "(i, flag) \<notin> set old"
    proof
      assume io: "(i, flag) \<in> set old"
      then have n: "kIdsBufferSize \<le> length m" using old(3) by (cases old) auto
      have "i < rid_min m" using old(2) io min_in[OF n] by (fastforce simp: sorted_wrt_append)
      then show False using newer_few[OF ok few n] by simp
    qed
    then have "(i, flag) \<in> set m" using i old(1) by auto
    then have "fm_lookup m i = Some flag"
      using sorted_distinct_ids[OF m] by (simp add: fm_lookup_def map_of_is_SomeI)
    then show "rid_lookup i m = (if flag then NeedsAck else NoAckNeeded)" by (simp add: rid_lookup_def)
  qed
qed

subsection \<open>Properties\<close>

text \<open>
  C10: Whatever ids are registered in whatever order, and whenever the manager is shrunk, no id is
  accepted twice until \<open>clear\<close>, although old ids are forgotten. An id that was not accepted before is
  accepted if fewer than four hundred accepted ids are newer; of the four hundred newest accepted
  ids \<open>lookup\<close> tells whether they were to be acknowledged.
\<close>

theorem received_once:
  assumes "rid_run calls = (accepted, m)"
  shows "distinct (map fst accepted) \<and>
    (\<forall>i. card (newer i accepted) < kIdsBufferSize \<longrightarrow>
       (i \<notin> fst ` set accepted \<longrightarrow> fst (registerMsgId i needAck m) = Success) \<and>
       (\<forall>flag. (i, flag) \<in> set accepted \<longrightarrow> rid_lookup i m = (if flag then NeedsAck else NoAckNeeded)))"
  using rid_run_ok[OF assms] rid_answers[OF rid_run_ok[OF assms]] by (simp add: rid_ok_def)

theorem received_once_witness:
  "rid_run [RegisterId 5 True, RegisterId 7 False, RegisterId 5 False, ShrinkIds] = ([(5, True), (7, False)], [(5, True), (7, False)])
   \<and> fst (registerMsgId 6 True [(5, True), (7, False)]) = Success \<and> rid_lookup 5 [(5, True), (7, False)] = NeedsAck"
proof -
  let ?a = "[(5, True), (7, False)] :: (msg_id64 \<times> bool) list"
  have run: "rid_run [RegisterId 5 True, RegisterId 7 False, RegisterId 5 False, ShrinkIds] = (?a, ?a)"
    by (simp add: rid_run_def registerMsgId_def fm_lookup_def kIdsBufferSize_def rid_shrink_drop)
  have "card (newer i ?a) < kIdsBufferSize" for i
  proof -
    have "card (newer i ?a) \<le> card (fst ` set ?a)" by (rule card_mono) (auto simp: newer_def)
    also have "\<dots> \<le> card (set ?a)" by (rule card_image_le) simp
    also have "\<dots> \<le> 2" using card_length[of ?a] by simp
    finally show ?thesis by (simp add: kIdsBufferSize_def)
  qed
  then show ?thesis using run received_once[OF run, of True] by auto
qed

end
