(* ===== verification/DialogsList.thy ===== *)
theory DialogsList
  imports Prelude "HOL-Library.Monad_Syntax"
begin

text \<open>
  A list of chats, from \<open>dialogs/dialogs_list.{h,cpp}\<close> and the rows of \<open>dialogs/dialogs_row.{h,cpp}\<close>.
  A list owns one row for each of its keys, and keeps the rows in an order; a pointer to a row is
  the key of the row, so \<open>_rows\<close> is a list of keys and \<open>_rowByKey\<close> a map to rows. A row knows its
  position and its place on the screen, which every change has to bring up to date. A failing
  \<open>Expects\<close>, a dangling pointer and an iterator outside of \<open>_rows\<close> are \<open>None\<close>. The rows told to
  \<open>Data::Session::dialogsRowReplaced\<close> are recorded.
\<close>

subsection \<open>Rows\<close>

record drow =
  row_top :: int
  row_index :: nat
  row_height :: int

datatype row_kind = HistoryRow bool | FolderRow | TopicRow | OtherRow

text \<open>
  What the list asks of the entries behind the keys: the sort keys (which change with time), the
  kind (whether a history is a forum) and the heights of the style; \<open>en_interpolate\<close> is
  \<open>anim::interpolate\<close> of the animation library.
\<close>

record ('k, 'n) entries =
  en_sortKey :: "int \<Rightarrow> 'k \<Rightarrow> 64 word"
  en_nameKey :: "'k \<Rightarrow> 'n"
  en_kind :: "'k \<Rightarrow> row_kind"
  en_rowHeight :: int
  en_forumHeight :: int
  en_topicHeight :: int
  en_interpolate :: "int \<Rightarrow> int \<Rightarrow> real \<Rightarrow> int"

definition Row_height :: "drow \<Rightarrow> int option" where
  "Row_height r = (if row_height r \<noteq> 0 then Some (row_height r) else None)"

definition recountHeight :: "('k, 'n) entries \<Rightarrow> real \<Rightarrow> 'k \<Rightarrow> drow \<Rightarrow> drow" where
  "recountHeight en narrowRatio key r =
     r\<lparr>row_height := (case en_kind en key of
          HistoryRow isForum \<Rightarrow>
            if isForum then en_interpolate en (en_forumHeight en) (en_rowHeight en) narrowRatio else en_rowHeight en
        | FolderRow \<Rightarrow> en_rowHeight en
        | TopicRow \<Rightarrow> en_topicHeight en
        | OtherRow \<Rightarrow> en_rowHeight en)\<rparr>"

subsection \<open>Lists\<close>

datatype SortMode = SortDate | SortName | SortAdd

record 'k dlist =
  dl_sortMode :: SortMode
  dl_filterId :: int
  dl_narrowRatio :: real
  dl_rows :: "'k list"
  dl_rowByKey :: "'k \<rightharpoonup> drow"
  dl_replaced :: "('k \<times> 'k option) list"

definition new_dlist :: "SortMode \<Rightarrow> int \<Rightarrow> 'k dlist" where
  "new_dlist mode filterId =
     \<lparr>dl_sortMode = mode, dl_filterId = filterId, dl_narrowRatio = 0, dl_rows = [], dl_rowByKey = Map.empty,
      dl_replaced = []\<rparr>"

definition list_clear :: "'k dlist \<Rightarrow> 'k dlist" where
  "list_clear l = l\<lparr>dl_rows := [], dl_rowByKey := Map.empty\<rparr>"

definition list_size :: "'k dlist \<Rightarrow> nat" where
  "list_size l = length (dl_rows l)"

definition list_empty :: "'k dlist \<Rightarrow> bool" where
  "list_empty l \<longleftrightarrow> dl_rows l = []"

definition list_height :: "'k dlist \<Rightarrow> int option" where
  "list_height l =
     (if dl_rows l = [] then Some 0
      else do { r \<leftarrow> dl_rowByKey l (last (dl_rows l)); h \<leftarrow> Row_height r; Some (row_top r + h) })"

definition list_contains :: "'k \<Rightarrow> 'k dlist \<Rightarrow> bool" where
  "list_contains key l \<longleftrightarrow> dl_rowByKey l key \<noteq> None"

definition getRow :: "'k \<Rightarrow> 'k dlist \<Rightarrow> 'k option" where
  "getRow key l = (if dl_rowByKey l key \<noteq> None then Some key else None)"

text \<open>
  The loops that go over the rows from one on and set position, top or height of each are one
  function; the argument says what is set.
\<close>

fun layout :: "('k \<Rightarrow> nat \<Rightarrow> int \<Rightarrow> drow \<Rightarrow> drow) \<Rightarrow> nat \<Rightarrow> int \<Rightarrow> 'k list \<Rightarrow> ('k \<rightharpoonup> drow) \<Rightarrow> ('k \<rightharpoonup> drow) option" where
  "layout place i upper [] m = Some m"
| "layout place i upper (k # ks) m =
     (case m k of
        None \<Rightarrow> None
      | Some r \<Rightarrow> let r1 = place k i upper r in
          (case Row_height r1 of
             None \<Rightarrow> None
           | Some h \<Rightarrow> layout place (i + 1) (upper + h) ks (m(k \<mapsto> r1))))"

definition place_row :: "'k \<Rightarrow> nat \<Rightarrow> int \<Rightarrow> drow \<Rightarrow> drow" where
  "place_row k i upper r = r\<lparr>row_index := i, row_top := upper\<rparr>"

definition place_top :: "'k \<Rightarrow> nat \<Rightarrow> int \<Rightarrow> drow \<Rightarrow> drow" where
  "place_top k i upper r = r\<lparr>row_top := upper\<rparr>"

text \<open>\<open>rotate\<close>, with positions for iterators.\<close>

definition rotate_rows :: "nat \<Rightarrow> nat \<Rightarrow> nat \<Rightarrow> 'k dlist \<Rightarrow> 'k dlist option" where
  "rotate_rows first middle past l =
     (if \<not> (first \<le> middle \<and> middle \<le> past \<and> past \<le> length (dl_rows l) \<and> first < length (dl_rows l)) then None
      else do {
        r \<leftarrow> dl_rowByKey l (dl_rows l ! first);
        let segment = take (past - first) (drop first (dl_rows l));
        let rotated = drop (middle - first) segment @ take (middle - first) segment;
        m \<leftarrow> layout place_row first (row_top r) rotated (dl_rowByKey l);
        Some (l\<lparr>dl_rows := take first (dl_rows l) @ rotated @ drop past (dl_rows l), dl_rowByKey := m\<rparr>) })"

text \<open>\<open>find_if(begin + i, end)\<close> and \<open>find_if(make_reverse_iterator(begin + i), rend).base()\<close>.\<close>

definition find_from :: "('k \<Rightarrow> bool) \<Rightarrow> nat \<Rightarrow> 'k list \<Rightarrow> nat" where
  "find_from p i rows = i + length (takeWhile (\<lambda>k. \<not> p k) (drop i rows))"

definition find_back :: "('k \<Rightarrow> bool) \<Rightarrow> nat \<Rightarrow> 'k list \<Rightarrow> nat" where
  "find_back p i rows = i - length (takeWhile (\<lambda>k. \<not> p k) (rev (take i rows)))"

definition adjustByDate :: "('k, 'n) entries \<Rightarrow> 'k \<Rightarrow> 'k dlist \<Rightarrow> 'k dlist option" where
  "adjustByDate en row l =
     (if dl_sortMode l \<noteq> SortDate then None
      else do {
        r \<leftarrow> dl_rowByKey l row;
        let key = en_sortKey en (dl_filterId l) row;
        let i = row_index r;
        if \<not> i < length (dl_rows l) then None
        else do {
          let before = find_from (\<lambda>k. en_sortKey en (dl_filterId l) k \<le> key) (i + 1) (dl_rows l);
          if before \<noteq> i + 1 then rotate_rows i (i + 1) before l
          else do {
            let after = find_back (\<lambda>k. en_sortKey en (dl_filterId l) k \<ge> key) i (dl_rows l);
            if after \<noteq> i then rotate_rows after i (i + 1) l else Some l } } })"

definition adjust_row_by_name :: "('k, 'n::linorder) entries \<Rightarrow> 'k \<Rightarrow> 'k dlist \<Rightarrow> 'k dlist option" where
  "adjust_row_by_name en row l =
     do {
       r \<leftarrow> dl_rowByKey l row;
       let i = row_index r;
       if \<not> i < length (dl_rows l) then None
       else do {
         let key = en_nameKey en row;
         let before = find_from (\<lambda>k. en_nameKey en k \<ge> key) (i + 1) (dl_rows l);
         if before \<noteq> i + 1 then rotate_rows i (i + 1) before l
         else if i \<noteq> 0 then do {
           let after = find_back (\<lambda>k. en_nameKey en k \<le> key) i (dl_rows l);
           if after \<noteq> i then rotate_rows after i (i + 1) l else Some l }
         else Some l } }"

text \<open>The row returned is the one of the key; \<open>adjustByName\<close> also returns whether there is one.\<close>

definition adjustByName :: "('k, 'n::linorder) entries \<Rightarrow> 'k \<Rightarrow> 'k dlist \<Rightarrow> ('k option \<times> 'k dlist) option" where
  "adjustByName en key l =
     (if dl_sortMode l \<noteq> SortName then None
      else case getRow key l of
        None \<Rightarrow> Some (None, l)
      | Some row \<Rightarrow> do { l1 \<leftarrow> adjust_row_by_name en row l; Some (Some row, l1) })"

definition addToEnd :: "('k, 'n) entries \<Rightarrow> 'k \<Rightarrow> 'k dlist \<Rightarrow> 'k dlist option" where
  "addToEnd en key l =
     (if getRow key l \<noteq> None then Some l
      else do {
        upper \<leftarrow> list_height l;
        let row = recountHeight en (dl_narrowRatio l) key
              \<lparr>row_top = upper, row_index = length (dl_rows l), row_height = 0\<rparr>;
        let l1 = l\<lparr>dl_rows := dl_rows l @ [key], dl_rowByKey := (dl_rowByKey l)(key \<mapsto> row)\<rparr>;
        if dl_sortMode l1 = SortDate then adjustByDate en key l1 else Some l1 })"

definition addByName :: "('k, 'n::linorder) entries \<Rightarrow> 'k \<Rightarrow> 'k dlist \<Rightarrow> 'k dlist option" where
  "addByName en key l =
     (if dl_sortMode l \<noteq> SortName then None
      else do { l1 \<leftarrow> addToEnd en key l; (_, l2) \<leftarrow> adjustByName en key l1; Some l2 })"

definition updateHeight :: "('k, 'n) entries \<Rightarrow> 'k \<Rightarrow> real \<Rightarrow> 'k dlist \<Rightarrow> (bool \<times> 'k dlist) option" where
  "updateHeight en key narrowRatio l =
     (case dl_rowByKey l key of
        None \<Rightarrow> Some (False, l)
      | Some row \<Rightarrow> do {
          was \<leftarrow> Row_height row;
          let row1 = recountHeight en narrowRatio key row;
          now \<leftarrow> Row_height row1;
          let m1 = (dl_rowByKey l)(key \<mapsto> row1);
          if now = was then Some (False, l\<lparr>dl_rowByKey := m1\<rparr>)
          else do {
            m2 \<leftarrow> layout place_top (row_index row) (row_top row) (drop (row_index row) (dl_rows l)) m1;
            Some (True, l\<lparr>dl_rowByKey := m2\<rparr>) } })"

definition updateHeights :: "('k, 'n) entries \<Rightarrow> real \<Rightarrow> 'k dlist \<Rightarrow> (bool \<times> 'k dlist) option" where
  "updateHeights en narrowRatio l =
     do {
       was \<leftarrow> list_height l;
       m \<leftarrow> layout (\<lambda>k i upper r. recountHeight en narrowRatio k (place_top k i upper r)) 0 0 (dl_rows l) (dl_rowByKey l);
       let l1 = l\<lparr>dl_narrowRatio := narrowRatio, dl_rowByKey := m\<rparr>;
       now \<leftarrow> list_height l1;
       Some (now \<noteq> was, l1) }"

definition moveToTop :: "'k \<Rightarrow> 'k dlist \<Rightarrow> (bool \<times> 'k dlist) option" where
  "moveToTop key l =
     (case dl_rowByKey l key of
        None \<Rightarrow> Some (False, l)
      | Some row \<Rightarrow> do { l1 \<leftarrow> rotate_rows 0 (row_index row) (row_index row + 1) l; Some (True, l1) })"

definition list_remove :: "'k \<Rightarrow> 'k option \<Rightarrow> 'k dlist \<Rightarrow> (bool \<times> 'k dlist) option" where
  "list_remove key replacedBy l =
     (case dl_rowByKey l key of
        None \<Rightarrow> Some (False, l)
      | Some row \<Rightarrow>
          (if \<not> row_index row < length (dl_rows l) then None
           else do {
             let index = row_index row;
             let rows = take index (dl_rows l) @ drop (index + 1) (dl_rows l);
             m \<leftarrow> layout place_row index (row_top row) (drop index rows) (dl_rowByKey l);
             Some (True, l\<lparr>dl_rows := rows, dl_rowByKey := m(key := None),
               dl_replaced := dl_replaced l @ [(key, replacedBy)]\<rparr>) }))"

definition findByY :: "int \<Rightarrow> 'k dlist \<Rightarrow> nat" where
  "findByY y l = lower_pos y (\<lambda>k. row_top (the (dl_rowByKey l k)) + row_height (the (dl_rowByKey l k))) (dl_rows l)"

definition rowAtY :: "int \<Rightarrow> 'k dlist \<Rightarrow> 'k option" where
  "rowAtY y l =
     (let i = findByY y l
      in if i = length (dl_rows l) then None
         else (let row = dl_rows l ! i; upper = row_top (the (dl_rowByKey l row));
                   bottom = upper + row_height (the (dl_rowByKey l row))
               in if upper \<le> y \<and> bottom > y then Some row else None))"

definition cfind :: "'k option \<Rightarrow> 'k dlist \<Rightarrow> nat" where
  "cfind value l = (case value of None \<Rightarrow> length (dl_rows l) | Some k \<Rightarrow> row_index (the (dl_rowByKey l k)))"

subsection \<open>What a list keeps\<close>

definition heights :: "('k \<rightharpoonup> drow) \<Rightarrow> 'k list \<Rightarrow> int" where
  "heights m ks = sum_list (map (\<lambda>k. row_height (the (m k))) ks)"

lemma heights_simps [simp]:
  "heights m [] = 0" "heights m (k # ks) = row_height (the (m k)) + heights m ks"
  "heights m (xs @ ys) = heights m xs + heights m ys"
  by (simp_all add: heights_def)

lemma heights_cong: "(\<And>k. k \<in> set ks \<Longrightarrow> row_height (the (m1 k)) = row_height (the (m k))) \<Longrightarrow> heights m1 ks = heights m ks"
  by (induction ks) auto

text \<open>Each row knows its position and the height of the rows before it.\<close>

primrec placed :: "nat \<Rightarrow> int \<Rightarrow> 'k list \<Rightarrow> ('k \<rightharpoonup> drow) \<Rightarrow> bool" where
  "placed i y [] m \<longleftrightarrow> True"
| "placed i y (k # ks) m \<longleftrightarrow> (\<exists>r. m k = Some r \<and> row_index r = i \<and> row_top r = y \<and> 0 < row_height r
     \<and> placed (i + 1) (y + row_height r) ks m)"

definition list_ok :: "'k dlist \<Rightarrow> bool" where
  "list_ok l \<longleftrightarrow> distinct (dl_rows l) \<and> dom (dl_rowByKey l) = set (dl_rows l) \<and> placed 0 0 (dl_rows l) (dl_rowByKey l)"

lemma placed_append: "placed i y (xs @ ys) m \<longleftrightarrow> placed i y xs m \<and> placed (i + length xs) (y + heights m xs) ys m"
  by (induction xs arbitrary: i y) (auto simp: algebra_simps)

lemma placed_cong: "(\<And>k. k \<in> set ks \<Longrightarrow> m1 k = m k) \<Longrightarrow> placed i y ks m1 = placed i y ks m"
  by (induction ks arbitrary: i y) auto

lemma placed_in: "placed i y ks m \<Longrightarrow> k \<in> set ks \<Longrightarrow> \<exists>r. m k = Some r \<and> 0 < row_height r"
  by (induction ks arbitrary: i y) auto

text \<open>The loops that place rows.\<close>

primrec laid :: "('k \<Rightarrow> nat \<Rightarrow> int \<Rightarrow> drow \<Rightarrow> drow) \<Rightarrow> ('k \<Rightarrow> int) \<Rightarrow> nat \<Rightarrow> int \<Rightarrow> 'k list
    \<Rightarrow> ('k \<rightharpoonup> drow) \<Rightarrow> ('k \<rightharpoonup> drow) \<Rightarrow> bool" where
  "laid place H i y [] m m1 \<longleftrightarrow> True"
| "laid place H i y (k # ks) m m1 \<longleftrightarrow>
     m1 k = Some (place k i y (the (m k))) \<and> laid place H (i + 1) (y + H k) ks m m1"

lemma laid_cong:
  "(\<And>k. k \<in> set ks \<Longrightarrow> m k = m' k) \<Longrightarrow> laid place H i y ks m m1 = laid place H i y ks m' m1"
  by (induction ks arbitrary: i y) auto

lemma layout_laid:
  assumes "distinct ks" and "\<And>k. k \<in> set ks \<Longrightarrow> m k \<noteq> None"
    and "\<And>k i y. k \<in> set ks \<Longrightarrow> row_height (place k i y (the (m k))) = H k"
    and "\<And>k. k \<in> set ks \<Longrightarrow> 0 < H k"
  shows "\<exists>m1. layout place i y ks m = Some m1 \<and> (\<forall>k. k \<notin> set ks \<longrightarrow> m1 k = m k) \<and> laid place H i y ks m m1"
  using assms
proof (induction ks arbitrary: i y m)
  case (Cons k ks)
  obtain r where r: "m k = Some r" using Cons.prems(2)[of k] by auto
  let ?m = "m(k \<mapsto> place k i y r)"
  have same: "?m j = m j" if "j \<in> set ks" for j using that Cons.prems(1) by auto
  have h: "Row_height (place k i y r) = Some (H k)"
    using Cons.prems(3)[of k i y] Cons.prems(4)[of k] r by (simp add: Row_height_def)
  have "\<exists>m1. layout place (i + 1) (y + H k) ks ?m = Some m1 \<and> (\<forall>j. j \<notin> set ks \<longrightarrow> m1 j = ?m j)
      \<and> laid place H (i + 1) (y + H k) ks ?m m1"
    by (rule Cons.IH) (use Cons.prems same in auto)
  then obtain m1 where m1: "layout place (i + 1) (y + H k) ks ?m = Some m1" "\<forall>j. j \<notin> set ks \<longrightarrow> m1 j = ?m j"
      "laid place H (i + 1) (y + H k) ks ?m m1"
    by blast
  have "laid place H (i + 1) (y + H k) ks m m1"
    using m1(3) laid_cong[of ks ?m m] same by metis
  moreover have "m1 k = Some (place k i y r)" using m1(2) Cons.prems(1) by simp
  ultimately show ?case using m1(1,2) r h by (intro exI[of _ m1]) (auto simp: Let_def)
qed simp

lemma laid_placed:
  assumes "laid place H i y ks m m1" and "\<And>k i y r. row_top (place k i y r) = y"
    and "\<And>k i y. k \<in> set ks \<Longrightarrow> row_height (place k i y (the (m k))) = H k"
    and "\<And>k. k \<in> set ks \<Longrightarrow> 0 < H k"
    and "\<And>j y. j < length ks \<Longrightarrow> row_index (place (ks ! j) (i + j) y (the (m (ks ! j)))) = i + j"
  shows "placed i y ks m1"
  using assms(1,3-5)
proof (induction ks arbitrary: i y)
  case (Cons k ks)
  have "row_index (place k i y (the (m k))) = i" using Cons.prems(4)[of 0 y] by simp
  moreover have "placed (i + 1) (y + H k) ks m1"
  proof (rule Cons.IH)
    show "row_index (place (ks ! j) (i + 1 + j) y (the (m (ks ! j)))) = i + 1 + j" if "j < length ks" for j y
      using Cons.prems(4)[of "Suc j" y] that by simp
  qed (use Cons.prems in auto)
  ultimately show ?case using Cons.prems assms(2) by simp
qed simp

lemma laid_heights:
  "laid place H i y ks m m1 \<Longrightarrow> (\<And>k i y. k \<in> set ks \<Longrightarrow> row_height (place k i y (the (m k))) = H k)
    \<Longrightarrow> k \<in> set ks \<Longrightarrow> row_height (the (m1 k)) = H k \<and> m1 k \<noteq> None"
  by (induction ks arbitrary: i y) auto

lemma placed_at:
  "placed i y ks m \<Longrightarrow> j < length ks \<Longrightarrow> \<exists>r. m (ks ! j) = Some r \<and> row_index r = i + j \<and> 0 < row_height r
     \<and> row_top r = y + heights m (take j ks)"
proof (induction ks arbitrary: i y j)
  case (Cons k ks)
  then show ?case using Cons.IH[of "i + 1" "y + row_height (the (m k))" "j - 1"] by (cases j) auto
qed simp

text \<open>Placing rows anew on their way from one height on.\<close>

lemma layout_rows:
  assumes "distinct ks" and "\<And>k. k \<in> set ks \<Longrightarrow> m k \<noteq> None \<and> 0 < row_height (the (m k))"
  shows "\<exists>m1. layout place_row i y ks m = Some m1 \<and> (\<forall>k. k \<notin> set ks \<longrightarrow> m1 k = m k) \<and> placed i y ks m1
    \<and> dom m1 = dom m \<and> (\<forall>k. row_height (the (m1 k)) = row_height (the (m k)))"
proof -
  let ?H = "\<lambda>k. row_height (the (m k))"
  have H: "row_height (place_row k i y (the (m k))) = ?H k" for k i y by (simp add: place_row_def)
  obtain m1 where m1: "layout place_row i y ks m = Some m1" "\<forall>k. k \<notin> set ks \<longrightarrow> m1 k = m k"
      "laid place_row ?H i y ks m m1"
    using layout_laid[of ks m place_row ?H i y] assms H by blast
  have "placed i y ks m1"
    by (rule laid_placed[OF m1(3)]) (use assms(2) H in \<open>auto simp: place_row_def\<close>)
  moreover have hs: "row_height (the (m1 k)) = ?H k \<and> m1 k \<noteq> None" if "k \<in> set ks" for k
    by (rule laid_heights[OF m1(3) _ that]) (rule H)
  moreover have "dom m1 = dom m"
  proof (rule set_eqI)
    show "k \<in> dom m1 \<longleftrightarrow> k \<in> dom m" for k
      using m1(2) hs[of k] assms(2)[of k] by (cases "k \<in> set ks") (auto simp: domIff)
  qed
  moreover have "row_height (the (m1 k)) = row_height (the (m k))" for k
    using hs m1(2) by (cases "k \<in> set ks") auto
  ultimately show ?thesis using m1 by blast
qed

lemma list_okD:
  assumes "list_ok l" and "dl_rows l = xs @ ks @ ys"
  shows "distinct xs" "distinct ks" "distinct ys" "set xs \<inter> set ks = {}" "set ks \<inter> set ys = {}" "set xs \<inter> set ys = {}"
    "placed 0 0 xs (dl_rowByKey l)" "placed (length xs) (heights (dl_rowByKey l) xs) ks (dl_rowByKey l)"
    "placed (length xs + length ks) (heights (dl_rowByKey l) xs + heights (dl_rowByKey l) ks) ys (dl_rowByKey l)"
    "dom (dl_rowByKey l) = set xs \<union> set ks \<union> set ys"
  using assms by (auto simp: list_ok_def placed_append)

lemma list_ok_row: "list_ok l \<Longrightarrow> k \<in> set (dl_rows l) \<Longrightarrow> \<exists>r. dl_rowByKey l k = Some r \<and> 0 < row_height r"
  unfolding list_ok_def using placed_in by fast

text \<open>A part of the rows may be put in another order and placed anew, or be left out.\<close>

lemma relayout_ok:
  assumes ok: "list_ok l" and rows: "dl_rows l = xs @ ks @ ys" and perm: "mset ks1 = mset ks"
  shows "\<exists>m1. layout place_row (length xs) (heights (dl_rowByKey l) xs) ks1 (dl_rowByKey l) = Some m1
    \<and> list_ok (l\<lparr>dl_rows := xs @ ks1 @ ys, dl_rowByKey := m1\<rparr>)
    \<and> (\<forall>k. row_height (the (m1 k)) = row_height (the (dl_rowByKey l k)))"
proof -
  let ?m = "dl_rowByKey l"
  note d = list_okD[OF ok rows]
  have s: "set ks1 = set ks" "distinct ks1" "length ks1 = length ks"
    using mset_eq_setD[OF perm] mset_eq_imp_distinct_iff[OF perm] mset_eq_length[OF perm] d(2) by auto
  obtain m1 where m1: "layout place_row (length xs) (heights ?m xs) ks1 ?m = Some m1"
      "\<forall>k. k \<notin> set ks1 \<longrightarrow> m1 k = ?m k" "placed (length xs) (heights ?m xs) ks1 m1" "dom m1 = dom ?m"
      "\<forall>k. row_height (the (m1 k)) = row_height (the (?m k))"
    using layout_rows[OF s(2), of ?m "length xs" "heights ?m xs"] placed_in[OF d(8)] s(1) by fastforce
  have hk: "heights m1 ks1 = heights ?m ks"
  proof -
    have "heights m1 ks1 = sum_mset (image_mset (\<lambda>k. row_height (the (?m k))) (mset ks1))"
      using m1(5) by (simp add: heights_def flip: sum_mset_sum_list mset_map)
    also have "\<dots> = heights ?m ks" by (simp add: perm heights_def flip: sum_mset_sum_list mset_map)
    finally show ?thesis .
  qed
  have hx: "heights m1 xs = heights ?m xs" by (rule heights_cong) (use m1(5) in simp)
  have "placed 0 0 xs m1" using d(7) placed_cong[of xs m1 ?m] m1(2) d(4) s(1) by blast
  moreover have "placed (length xs + length ks) (heights ?m xs + heights ?m ks) ys m1"
    using d(9) placed_cong[of ys m1 ?m] m1(2) d(5) s(1) by blast
  ultimately have "placed 0 0 (xs @ ks1 @ ys) m1"
    using m1(3) by (simp add: placed_append hx hk s(3))
  then show ?thesis
    using m1 s d by (intro exI[of _ m1]) (auto simp: list_ok_def)
qed

lemma rotate_ok:
  assumes ok: "list_ok l" and rows: "dl_rows l = xs @ (us @ vs) @ ys" and ne: "us @ vs \<noteq> []"
  shows "\<exists>m1. rotate_rows (length xs) (length xs + length us) (length xs + length us + length vs) l
      = Some (l\<lparr>dl_rows := xs @ (vs @ us) @ ys, dl_rowByKey := m1\<rparr>)
    \<and> list_ok (l\<lparr>dl_rows := xs @ (vs @ us) @ ys, dl_rowByKey := m1\<rparr>)
    \<and> (\<forall>k. row_height (the (m1 k)) = row_height (the (dl_rowByKey l k)))"
proof -
  obtain m1 where m1: "layout place_row (length xs) (heights (dl_rowByKey l) xs) (vs @ us) (dl_rowByKey l) = Some m1"
      "list_ok (l\<lparr>dl_rows := xs @ (vs @ us) @ ys, dl_rowByKey := m1\<rparr>)"
      "\<forall>k. row_height (the (m1 k)) = row_height (the (dl_rowByKey l k))"
    using relayout_ok[OF ok rows, of "vs @ us"] by (auto simp: add.commute)
  have first: "dl_rows l ! length xs = (us @ vs) ! 0" "length xs < length (dl_rows l)"
    using rows ne by (auto simp: nth_append)
  obtain r where r: "dl_rowByKey l (dl_rows l ! length xs) = Some r" "row_top r = heights (dl_rowByKey l) xs"
    using placed_at[OF list_okD(8)[OF ok rows], of 0] ne first(1) by auto
  have seg: "take (length us + length vs) (drop (length xs) (dl_rows l)) = us @ vs"
      "take (length xs) (dl_rows l) = xs" "drop (length xs + length us + length vs) (dl_rows l) = ys"
    using rows by auto
  have "rotate_rows (length xs) (length xs + length us) (length xs + length us + length vs) l
      = Some (l\<lparr>dl_rows := xs @ (vs @ us) @ ys, dl_rowByKey := m1\<rparr>)"
    using r m1(1) first seg rows by (simp add: rotate_rows_def Let_def add.assoc)
  then show ?thesis using m1(2,3) by blast
qed

subsection \<open>Moving a row to its place\<close>

definition total_order :: "('k \<Rightarrow> 'k \<Rightarrow> bool) \<Rightarrow> bool" where
  "total_order le \<longleftrightarrow> (\<forall>a b. le a b \<or> le b a) \<and> (\<forall>a b c. le a b \<longrightarrow> le b c \<longrightarrow> le a c)"

definition adjust_row :: "('k \<Rightarrow> 'k \<Rightarrow> bool) \<Rightarrow> 'k \<Rightarrow> nat \<Rightarrow> 'k dlist \<Rightarrow> 'k dlist option" where
  "adjust_row le k i l =
     (let before = find_from (\<lambda>j. le k j) (i + 1) (dl_rows l)
      in if before \<noteq> i + 1 then rotate_rows i (i + 1) before l
         else let after = find_back (\<lambda>j. le j k) i (dl_rows l)
           in if after \<noteq> i then rotate_rows after i (i + 1) l else Some l)"

lemma total_orderD:
  assumes "total_order le"
  shows "\<not> le a b \<Longrightarrow> le b a" and "le a b \<Longrightarrow> le b c \<Longrightarrow> le a c"
  using assms unfolding total_order_def by blast+

lemma sorted_insert_later:
  assumes le: "total_order le" and s: "sorted_wrt le (xs @ us @ vs)" and ne: "us \<noteq> []"
    and us: "\<forall>u \<in> set us. \<not> le k u" and vs: "vs = [] \<or> le k (hd vs)"
  shows "sorted_wrt le (xs @ us @ k # vs)"
proof -
  have u: "le u k" if "u \<in> set us" for u using us that total_orderD(1)[OF le] by blast
  have x: "le x k" if "x \<in> set xs" for x
  proof -
    have "le x (hd us)" using s ne that by (auto simp: sorted_wrt_append)
    then show ?thesis using u[of "hd us"] ne total_orderD(2)[OF le] by simp
  qed
  have v: "le k v" if "v \<in> set vs" for v
    using s vs that total_orderD(2)[OF le] by (cases vs) (auto simp: sorted_wrt_append)
  show ?thesis using s u x v by (auto simp: sorted_wrt_append)
qed

lemma sorted_insert_earlier:
  assumes le: "total_order le" and s: "sorted_wrt le (ps @ qs @ ys)"
    and qs: "\<forall>q \<in> set qs. \<not> le q k" and ps: "ps = [] \<or> le (last ps) k" and ys: "ys = [] \<or> le k (hd ys)"
  shows "sorted_wrt le (ps @ k # qs @ ys)"
proof -
  have q: "le k q" if "q \<in> set qs" for q using qs that total_orderD(1)[OF le] by blast
  have y: "le k y" if "y \<in> set ys" for y
    using s ys that total_orderD(2)[OF le] by (cases ys) (auto simp: sorted_wrt_append)
  have p: "le p k" if "p \<in> set ps" for p
    using s ps that total_orderD(2)[OF le] by (cases ps rule: rev_cases) (auto simp: sorted_wrt_append)
  show ?thesis using s q y p by (auto simp: sorted_wrt_append)
qed

lemma adjust_row_ok:
  assumes ok: "list_ok l" and rows: "dl_rows l = xs @ k # ys" and le: "total_order le"
  shows "\<exists>m1 us vs. adjust_row le k (length xs) l = Some (l\<lparr>dl_rows := us @ k # vs, dl_rowByKey := m1\<rparr>)
    \<and> us @ vs = xs @ ys \<and> list_ok (l\<lparr>dl_rows := us @ k # vs, dl_rowByKey := m1\<rparr>)
    \<and> (\<forall>j. row_height (the (m1 j)) = row_height (the (dl_rowByKey l j)))
    \<and> (sorted_wrt le (xs @ ys) \<longrightarrow> sorted_wrt le (us @ k # vs))"
proof -
  define us0 where "us0 = takeWhile (\<lambda>j. \<not> le k j) ys"
  define vs0 where "vs0 = dropWhile (\<lambda>j. \<not> le k j) ys"
  have ys: "ys = us0 @ vs0" by (simp add: us0_def vs0_def)
  have us0: "\<forall>u \<in> set us0. \<not> le k u" by (auto simp: us0_def dest: set_takeWhileD)
  have vs0: "vs0 = [] \<or> le k (hd vs0)" using hd_dropWhile[of "\<lambda>j. \<not> le k j" ys] by (auto simp: vs0_def)
  have before: "find_from (\<lambda>j. le k j) (length xs + 1) (dl_rows l) = length xs + 1 + length us0"
    by (simp add: find_from_def rows us0_def)
  show ?thesis
  proof (cases "us0 = []")
    case False
    obtain m1 where m1: "rotate_rows (length xs) (length xs + 1) (length xs + 1 + length us0) l
          = Some (l\<lparr>dl_rows := xs @ (us0 @ [k]) @ vs0, dl_rowByKey := m1\<rparr>)"
        "list_ok (l\<lparr>dl_rows := xs @ (us0 @ [k]) @ vs0, dl_rowByKey := m1\<rparr>)"
        "\<forall>j. row_height (the (m1 j)) = row_height (the (dl_rowByKey l j))"
      using rotate_ok[OF ok, of xs "[k]" us0 vs0] rows ys by auto
    then have "adjust_row le k (length xs) l = Some (l\<lparr>dl_rows := (xs @ us0) @ k # vs0, dl_rowByKey := m1\<rparr>)"
      using before False by (simp add: adjust_row_def Let_def)
    moreover have "sorted_wrt le (xs @ ys) \<longrightarrow> sorted_wrt le ((xs @ us0) @ k # vs0)"
      using sorted_insert_later[OF le _ False us0 vs0] ys by auto
    ultimately show ?thesis
      using m1(2,3) ys by (intro exI[of _ m1] exI[of _ "xs @ us0"] exI[of _ vs0]) simp
  next
    case True
    define qs where "qs = rev (takeWhile (\<lambda>j. \<not> le j k) (rev xs))"
    define ps where "ps = rev (dropWhile (\<lambda>j. \<not> le j k) (rev xs))"
    have xs: "xs = ps @ qs" by (simp add: qs_def ps_def flip: rev_append)
    have qs: "\<forall>q \<in> set qs. \<not> le q k" by (auto simp: qs_def dest: set_takeWhileD)
    have ps: "ps = [] \<or> le (last ps) k"
      using hd_dropWhile[of "\<lambda>j. \<not> le j k" "rev xs"] by (auto simp: ps_def last_rev)
    have after: "find_back (\<lambda>j. le j k) (length xs) (dl_rows l) = length ps"
    proof -
      have "length xs = length ps + length (takeWhile (\<lambda>j. \<not> le j k) (rev xs))"
        using arg_cong[OF xs, of length] by (simp add: qs_def)
      then show ?thesis by (simp add: find_back_def rows)
    qed
    have sorted: "sorted_wrt le (xs @ ys) \<longrightarrow> sorted_wrt le (ps @ k # qs @ ys)"
      using sorted_insert_earlier[OF le _ qs ps, of ys] vs0 ys True xs by auto
    show ?thesis
    proof (cases "qs = []")
      case True
      then have "adjust_row le k (length xs) l = Some l"
        using before \<open>us0 = []\<close> after xs by (simp add: adjust_row_def Let_def)
      moreover have "l\<lparr>dl_rows := ps @ k # ys, dl_rowByKey := dl_rowByKey l\<rparr> = l" using rows xs True by simp
      ultimately show ?thesis using True ok xs sorted by (metis append_Nil append_assoc append_Nil2)
    next
      case False
      obtain m1 where m1: "rotate_rows (length ps) (length ps + length qs) (length ps + length qs + 1) l
            = Some (l\<lparr>dl_rows := ps @ ([k] @ qs) @ ys, dl_rowByKey := m1\<rparr>)"
          "list_ok (l\<lparr>dl_rows := ps @ ([k] @ qs) @ ys, dl_rowByKey := m1\<rparr>)"
          "\<forall>j. row_height (the (m1 j)) = row_height (the (dl_rowByKey l j))"
        using rotate_ok[OF ok, of ps qs "[k]" ys] rows xs by auto
      have "adjust_row le k (length xs) l = Some (l\<lparr>dl_rows := ps @ k # (qs @ ys), dl_rowByKey := m1\<rparr>)"
        using m1(1) before \<open>us0 = []\<close> after xs False by (simp add: adjust_row_def Let_def)
      then show ?thesis
        using m1(2,3) xs sorted by (intro exI[of _ m1] exI[of _ ps] exI[of _ "qs @ ys"]) simp
    qed
  qed
qed

text \<open>A row of the list in a list that is right: its position in it.\<close>

lemma list_ok_split:
  assumes ok: "list_ok l" and r: "dl_rowByKey l k = Some r"
  shows "\<exists>xs ys. dl_rows l = xs @ k # ys \<and> row_index r = length xs \<and> k \<notin> set xs \<union> set ys
    \<and> row_top r = heights (dl_rowByKey l) xs \<and> 0 < row_height r"
proof -
  have "k \<in> set (dl_rows l)" using ok r by (auto simp: list_ok_def)
  then obtain xs ys where rows: "dl_rows l = xs @ k # ys" by (auto dest: split_list)
  have "placed (length xs) (heights (dl_rowByKey l) xs) [k] (dl_rowByKey l)"
    by (rule list_okD(8)[OF ok, of xs "[k]" ys]) (simp add: rows)
  moreover have "k \<notin> set xs \<union> set ys" using ok rows by (auto simp: list_ok_def)
  ultimately show ?thesis using rows r by auto
qed

definition date_le :: "('k, 'n) entries \<Rightarrow> int \<Rightarrow> 'k \<Rightarrow> 'k \<Rightarrow> bool" where
  "date_le en f a b \<longleftrightarrow> en_sortKey en f b \<le> en_sortKey en f a"

definition name_le :: "('k, 'n::linorder) entries \<Rightarrow> 'k \<Rightarrow> 'k \<Rightarrow> bool" where
  "name_le en a b \<longleftrightarrow> en_nameKey en a \<le> en_nameKey en b"

lemma total_date [simp]: "total_order (date_le en f)"
  by (auto simp: total_order_def date_le_def)

lemma total_name [simp]: "total_order (name_le en)"
  by (auto simp: total_order_def name_le_def)

lemma adjustByDate_row:
  assumes "dl_sortMode l = SortDate" and "dl_rowByKey l k = Some r" and "row_index r < length (dl_rows l)"
  shows "adjustByDate en k l = adjust_row (date_le en (dl_filterId l)) k (row_index r) l"
  using assms by (simp add: adjustByDate_def adjust_row_def date_le_def Let_def)

lemma adjust_by_name_row:
  assumes "dl_rowByKey l k = Some r" and "row_index r < length (dl_rows l)"
  shows "adjust_row_by_name en k l = adjust_row (name_le en) k (row_index r) l"
proof -
  have "find_back p 0 ks = 0" for p :: "'a \<Rightarrow> bool" and ks by (simp add: find_back_def)
  then show ?thesis using assms by (simp add: adjust_row_by_name_def adjust_row_def name_le_def Let_def)
qed

subsection \<open>The operations of a list\<close>

definition entries_ok :: "('k, 'n) entries \<Rightarrow> bool" where
  "entries_ok en \<longleftrightarrow> 0 < en_rowHeight en \<and> 0 < en_forumHeight en \<and> 0 < en_topicHeight en
     \<and> (\<forall>a b r. 0 < a \<longrightarrow> 0 < b \<longrightarrow> 0 < en_interpolate en a b r)"

definition key_height :: "('k, 'n) entries \<Rightarrow> real \<Rightarrow> 'k \<Rightarrow> int" where
  "key_height en ratio k = row_height (recountHeight en ratio k \<lparr>row_top = 0, row_index = 0, row_height = 0\<rparr>)"

lemma recountHeight_eq: "recountHeight en ratio k r = r\<lparr>row_height := key_height en ratio k\<rparr>"
  by (simp add: recountHeight_def key_height_def)

lemma key_height_pos: "entries_ok en \<Longrightarrow> 0 < key_height en ratio k"
  by (auto simp: entries_ok_def key_height_def recountHeight_def split: row_kind.split)

lemma list_height_ok:
  assumes ok: "list_ok l"
  shows "list_height l = Some (heights (dl_rowByKey l) (dl_rows l))"
proof (cases "dl_rows l" rule: rev_cases)
  case (snoc xs k)
  have "placed (length xs) (heights (dl_rowByKey l) xs) [k] (dl_rowByKey l)"
    by (rule list_okD(8)[OF ok, of xs "[k]" "[]"]) (simp add: snoc)
  then show ?thesis using snoc by (auto simp: list_height_def Row_height_def)
qed (simp add: list_height_def)

lemma layout_tops:
  assumes "distinct ks" and "\<And>k. k \<in> set ks \<Longrightarrow> m k \<noteq> None" and "\<And>k. k \<in> set ks \<Longrightarrow> 0 < H k"
    and place: "\<And>k i y r. row_top (place k i y r) = y" "\<And>k i y r. row_index (place k i y r) = row_index r"
      "\<And>k i y. k \<in> set ks \<Longrightarrow> row_height (place k i y (the (m k))) = H k"
    and index: "\<And>j. j < length ks \<Longrightarrow> row_index (the (m (ks ! j))) = i + j"
  shows "\<exists>m1. layout place i y ks m = Some m1 \<and> (\<forall>k. k \<notin> set ks \<longrightarrow> m1 k = m k) \<and> placed i y ks m1
    \<and> dom m1 = dom m \<and> (\<forall>k \<in> set ks. row_height (the (m1 k)) = H k)"
proof -
  obtain m1 where m1: "layout place i y ks m = Some m1" "\<forall>k. k \<notin> set ks \<longrightarrow> m1 k = m k" "laid place H i y ks m m1"
    using layout_laid[of ks m place H i y] assms(1-3) place(3) by blast
  have "placed i y ks m1"
    by (rule laid_placed[OF m1(3)]) (use assms in auto)
  moreover have hs: "row_height (the (m1 k)) = H k \<and> m1 k \<noteq> None" if "k \<in> set ks" for k
    by (rule laid_heights[OF m1(3) place(3) that])
  moreover have "dom m1 = dom m"
  proof (rule set_eqI)
    show "k \<in> dom m1 \<longleftrightarrow> k \<in> dom m" for k
      using m1(2) hs[of k] assms(2)[of k] by (cases "k \<in> set ks") (auto simp: domIff)
  qed
  ultimately show ?thesis using m1 by blast
qed

lemma addToEnd_ok:
  assumes ok: "list_ok l" and en: "entries_ok en" and new: "k \<notin> set (dl_rows l)"
  shows "\<exists>m1 us vs. addToEnd en k l = Some (l\<lparr>dl_rows := us @ k # vs, dl_rowByKey := m1\<rparr>)
    \<and> list_ok (l\<lparr>dl_rows := us @ k # vs, dl_rowByKey := m1\<rparr>) \<and> us @ vs = dl_rows l
    \<and> (dl_sortMode l \<noteq> SortDate \<longrightarrow> vs = [])
    \<and> (dl_sortMode l = SortDate \<longrightarrow> sorted_wrt (date_le en (dl_filterId l)) (dl_rows l)
         \<longrightarrow> sorted_wrt (date_le en (dl_filterId l)) (us @ k # vs))"
proof -
  let ?m = "dl_rowByKey l"
  let ?r = "\<lparr>row_top = heights ?m (dl_rows l), row_index = length (dl_rows l), row_height = key_height en (dl_narrowRatio l) k\<rparr>"
  let ?l = "l\<lparr>dl_rows := dl_rows l @ [k], dl_rowByKey := ?m(k \<mapsto> ?r)\<rparr>"
  have none: "?m k = None" using ok new by (auto simp: list_ok_def domIff)
  have same: "(?m(k \<mapsto> ?r)) j = ?m j" if "j \<in> set (dl_rows l)" for j using that new by auto
  have "placed 0 0 (dl_rows l) (?m(k \<mapsto> ?r))"
    using ok placed_cong[of "dl_rows l" "?m(k \<mapsto> ?r)" ?m] same by (auto simp: list_ok_def)
  moreover have "heights (?m(k \<mapsto> ?r)) (dl_rows l) = heights ?m (dl_rows l)"
    by (rule heights_cong) (use same in simp)
  ultimately have ok1: "list_ok ?l"
    using ok new key_height_pos[OF en] by (auto simp: list_ok_def placed_append)
  have add: "addToEnd en k l = (if dl_sortMode l = SortDate then adjustByDate en k ?l else Some ?l)"
    using none by (simp add: addToEnd_def getRow_def list_height_ok[OF ok] recountHeight_eq Let_def)
  show ?thesis
  proof (cases "dl_sortMode l = SortDate")
    case False
    then show ?thesis using add ok1 by - (rule exI[of _ "?m(k \<mapsto> ?r)"], rule exI[of _ "dl_rows l"], rule exI[of _ "[]"], simp)
  next
    case True
    have "adjustByDate en k ?l = adjust_row (date_le en (dl_filterId l)) k (length (dl_rows l)) ?l"
      using adjustByDate_row[of ?l k ?r en] True by simp
    moreover obtain m1 us vs where res: "adjust_row (date_le en (dl_filterId l)) k (length (dl_rows l)) ?l
          = Some (?l\<lparr>dl_rows := us @ k # vs, dl_rowByKey := m1\<rparr>)" "us @ vs = dl_rows l @ []"
        "list_ok (?l\<lparr>dl_rows := us @ k # vs, dl_rowByKey := m1\<rparr>)"
        "sorted_wrt (date_le en (dl_filterId l)) (dl_rows l @ []) \<longrightarrow> sorted_wrt (date_le en (dl_filterId l)) (us @ k # vs)"
      using adjust_row_ok[OF ok1, of "dl_rows l" k "[]" "date_le en (dl_filterId l)"] by auto
    ultimately show ?thesis using add True by - (rule exI[of _ m1], rule exI[of _ us], rule exI[of _ vs], simp)
  qed
qed

lemma addToEnd_old: "list_ok l \<Longrightarrow> k \<in> set (dl_rows l) \<Longrightarrow> addToEnd en k l = Some l"
  by (auto simp: addToEnd_def getRow_def list_ok_def)

lemma adjust_existing_ok:
  assumes ok: "list_ok l" and k: "k \<in> set (dl_rows l)" and le: "total_order le"
  shows "\<exists>r m1 us vs. dl_rowByKey l k = Some r \<and> row_index r < length (dl_rows l)
    \<and> adjust_row le k (row_index r) l = Some (l\<lparr>dl_rows := us @ k # vs, dl_rowByKey := m1\<rparr>)
    \<and> list_ok (l\<lparr>dl_rows := us @ k # vs, dl_rowByKey := m1\<rparr>) \<and> us @ vs = remove1 k (dl_rows l)
    \<and> (sorted_wrt le (remove1 k (dl_rows l)) \<longrightarrow> sorted_wrt le (us @ k # vs))"
proof -
  obtain r where r: "dl_rowByKey l k = Some r" using list_ok_row[OF ok k] by blast
  obtain xs ys where x: "dl_rows l = xs @ k # ys" "row_index r = length xs" "k \<notin> set xs \<union> set ys"
    using list_ok_split[OF ok r] by blast
  have "remove1 k (dl_rows l) = xs @ ys" using x by (simp add: remove1_append)
  then show ?thesis using adjust_row_ok[OF ok x(1) le] r x(1,2) by (auto simp: x(1))
qed

lemma list_remove_ok:
  assumes ok: "list_ok l"
  shows "\<exists>m1. list_remove k rep l = Some (k \<in> set (dl_rows l),
      l\<lparr>dl_rows := remove1 k (dl_rows l), dl_rowByKey := m1,
        dl_replaced := dl_replaced l @ (if k \<in> set (dl_rows l) then [(k, rep)] else [])\<rparr>)
    \<and> list_ok (l\<lparr>dl_rows := remove1 k (dl_rows l), dl_rowByKey := m1,
        dl_replaced := dl_replaced l @ (if k \<in> set (dl_rows l) then [(k, rep)] else [])\<rparr>)"
proof (cases "dl_rowByKey l k")
  case None
  then have "k \<notin> set (dl_rows l)" using ok by (auto simp: list_ok_def)
  then show ?thesis using None ok
    by (intro exI[of _ "dl_rowByKey l"]) (simp add: list_remove_def remove1_idem list_ok_def)
next
  case (Some r)
  let ?m = "dl_rowByKey l"
  obtain xs ys where x: "dl_rows l = xs @ k # ys" "row_index r = length xs" "k \<notin> set xs \<union> set ys"
      "row_top r = heights ?m xs"
    using list_ok_split[OF ok Some] by blast
  have split: "dl_rows l = xs @ [k] @ ys" using x(1) by simp
  note d = list_okD[OF ok split]
  have ys: "\<And>j. j \<in> set ys \<Longrightarrow> ?m j \<noteq> None \<and> 0 < row_height (the (?m j))"
    using list_ok_row[OF ok] x(1) by fastforce
  obtain m1 where m1: "layout place_row (length xs) (heights ?m xs) ys ?m = Some m1" "\<forall>j. j \<notin> set ys \<longrightarrow> m1 j = ?m j"
      "placed (length xs) (heights ?m xs) ys m1" "dom m1 = dom ?m"
    using layout_rows[OF d(3), of ?m "length xs" "heights ?m xs"] ys by blast
  let ?m2 = "m1(k := None)"
  have mx: "?m2 j = ?m j" if "j \<in> set xs" for j using that x(3) m1(2) d by auto
  have my: "?m2 j = m1 j" if "j \<in> set ys" for j using that x(3) by auto
  have "placed 0 0 xs ?m2" using placed_cong[of xs ?m2 ?m] mx d(7) by blast
  moreover have "heights ?m2 xs = heights ?m xs" by (rule heights_cong) (use mx in simp)
  moreover have "placed (length xs) (heights ?m xs) ys ?m2" using m1(3) placed_cong[of ys ?m2 m1] my by blast
  ultimately have "placed 0 0 (xs @ ys) ?m2" by (simp add: placed_append)
  moreover have "dom ?m2 = set (xs @ ys)" using m1(4) ok x(1,3) by (auto simp: list_ok_def)
  moreover have "distinct (xs @ ys)" using ok x(1) by (auto simp: list_ok_def)
  ultimately have "list_ok (l\<lparr>dl_rows := xs @ ys, dl_rowByKey := ?m2, dl_replaced := dl_replaced l @ [(k, rep)]\<rparr>)"
    by (simp add: list_ok_def)
  moreover have "remove1 k (dl_rows l) = xs @ ys" using x by (simp add: remove1_append)
  ultimately show ?thesis
    using Some x m1(1) by (intro exI[of _ ?m2]) (simp add: list_remove_def Let_def)
qed

lemma updateHeights_ok:
  assumes ok: "list_ok l" and en: "entries_ok en"
  shows "\<exists>m1. updateHeights en ratio l = Some (heights m1 (dl_rows l) \<noteq> heights (dl_rowByKey l) (dl_rows l),
      l\<lparr>dl_narrowRatio := ratio, dl_rowByKey := m1\<rparr>)
    \<and> list_ok (l\<lparr>dl_narrowRatio := ratio, dl_rowByKey := m1\<rparr>)
    \<and> (\<forall>k \<in> set (dl_rows l). row_height (the (m1 k)) = key_height en ratio k)"
proof -
  let ?place = "\<lambda>k i upper r. recountHeight en ratio k (place_top k i upper r)"
  have p: "placed 0 0 (dl_rows l) (dl_rowByKey l)" "distinct (dl_rows l)" using ok by (auto simp: list_ok_def)
  obtain m1 where m1: "layout ?place 0 0 (dl_rows l) (dl_rowByKey l) = Some m1" "placed 0 0 (dl_rows l) m1"
      "dom m1 = dom (dl_rowByKey l)" "\<forall>k \<in> set (dl_rows l). row_height (the (m1 k)) = key_height en ratio k"
    using layout_tops[OF p(2), of "dl_rowByKey l" "key_height en ratio" ?place 0 0] placed_in[OF p(1)]
      key_height_pos[OF en] placed_at[OF p(1)]
    by (fastforce simp: recountHeight_eq place_top_def)
  let ?l = "l\<lparr>dl_narrowRatio := ratio, dl_rowByKey := m1\<rparr>"
  have ok1: "list_ok ?l" using ok m1(2,3) by (simp add: list_ok_def)
  have "updateHeights en ratio l = Some (heights m1 (dl_rows l) \<noteq> heights (dl_rowByKey l) (dl_rows l), ?l)"
    using m1(1) list_height_ok[OF ok] list_height_ok[OF ok1] by (simp add: updateHeights_def Let_def)
  then show ?thesis using ok1 m1(4) by blast
qed

lemma updateHeight_ok:
  assumes ok: "list_ok l" and en: "entries_ok en"
  shows "\<exists>b m1. updateHeight en k ratio l = Some (b, l\<lparr>dl_rowByKey := m1\<rparr>) \<and> list_ok (l\<lparr>dl_rowByKey := m1\<rparr>)
    \<and> (k \<in> set (dl_rows l) \<longrightarrow> row_height (the (m1 k)) = key_height en ratio k)
    \<and> (\<forall>j. j \<noteq> k \<longrightarrow> row_height (the (m1 j)) = row_height (the (dl_rowByKey l j)))"
proof (cases "dl_rowByKey l k")
  case None
  then have "k \<notin> set (dl_rows l)" using ok by (auto simp: list_ok_def)
  then show ?thesis using None ok
    by - (rule exI[of _ False], rule exI[of _ "dl_rowByKey l"], simp add: updateHeight_def)
next
  case (Some r)
  let ?m = "dl_rowByKey l" and ?h = "key_height en ratio k"
  obtain xs ys where x: "dl_rows l = xs @ k # ys" "row_index r = length xs" "k \<notin> set xs \<union> set ys"
      "row_top r = heights ?m xs" "0 < row_height r"
    using list_ok_split[OF ok Some] by blast
  let ?m1 = "?m(k \<mapsto> r\<lparr>row_height := ?h\<rparr>)"
  have h: "0 < ?h" by (rule key_height_pos[OF en])
  show ?thesis
  proof (cases "?h = row_height r")
    case True
    then have "r\<lparr>row_height := ?h\<rparr> = r" by simp
    then have "?m1 = ?m" using Some by auto
    then have "updateHeight en k ratio l = Some (False, l\<lparr>dl_rowByKey := ?m\<rparr>)"
      using Some h x(5) True by (simp add: updateHeight_def recountHeight_eq Row_height_def Let_def)
    then show ?thesis using ok Some True by - (rule exI[of _ False], rule exI[of _ ?m], simp)
  next
    case False
    have split: "dl_rows l = xs @ (k # ys) @ []" using x(1) by simp
    note d = list_okD[OF ok split]
    let ?H = "\<lambda>j. if j = k then ?h else row_height (the (?m j))"
    have "\<exists>m2. layout place_top (length xs) (heights ?m xs) (k # ys) ?m1 = Some m2
        \<and> (\<forall>j. j \<notin> set (k # ys) \<longrightarrow> m2 j = ?m1 j) \<and> placed (length xs) (heights ?m xs) (k # ys) m2
        \<and> dom m2 = dom ?m1 \<and> (\<forall>j \<in> set (k # ys). row_height (the (m2 j)) = ?H j)"
    proof (rule layout_tops)
      show "row_index (the (?m1 ((k # ys) ! j))) = length xs + j" if "j < length (k # ys)" for j
        using placed_at[OF d(8) that] Some x(2) by (cases "(k # ys) ! j = k") auto
    qed (use d placed_in[OF d(8)] h in \<open>fastforce simp: place_top_def\<close>)+
    then obtain m2 where m2: "layout place_top (length xs) (heights ?m xs) (k # ys) ?m1 = Some m2"
        "\<forall>j. j \<notin> set (k # ys) \<longrightarrow> m2 j = ?m1 j" "placed (length xs) (heights ?m xs) (k # ys) m2"
        "dom m2 = dom ?m1" "\<forall>j \<in> set (k # ys). row_height (the (m2 j)) = ?H j"
      by blast
    have mx: "m2 j = ?m j" if "j \<in> set xs" for j using m2(2) that d(4) x(3) by auto
    have "placed 0 0 xs m2" using placed_cong[of xs m2 ?m] mx d(7) by blast
    moreover have "heights m2 xs = heights ?m xs" by (rule heights_cong) (use mx in simp)
    moreover have "dom m2 = dom ?m" using m2(4) Some by auto
    ultimately have "list_ok (l\<lparr>dl_rowByKey := m2\<rparr>)"
      using m2(3) ok x(1) by (simp add: list_ok_def placed_append)
    moreover have "updateHeight en k ratio l = Some (True, l\<lparr>dl_rowByKey := m2\<rparr>)"
      using Some h x False m2(1) by (simp add: updateHeight_def recountHeight_eq Row_height_def Let_def)
    moreover have "row_height (the (m2 k)) = ?h" using m2(5) by simp
    moreover have "row_height (the (m2 j)) = row_height (the (?m j))" if "j \<noteq> k" for j
      using m2(2,5) that by (cases "j \<in> set ys") auto
    ultimately show ?thesis by blast
  qed
qed

lemma moveToTop_ok:
  assumes ok: "list_ok l" and k: "k \<in> set (dl_rows l)"
  shows "\<exists>m1. moveToTop k l = Some (True, l\<lparr>dl_rows := k # remove1 k (dl_rows l), dl_rowByKey := m1\<rparr>)
    \<and> list_ok (l\<lparr>dl_rows := k # remove1 k (dl_rows l), dl_rowByKey := m1\<rparr>)"
proof -
  obtain r where r: "dl_rowByKey l k = Some r" using list_ok_row[OF ok k] by blast
  obtain xs ys where x: "dl_rows l = xs @ k # ys" "row_index r = length xs" "k \<notin> set xs \<union> set ys"
    using list_ok_split[OF ok r] by blast
  have "remove1 k (dl_rows l) = xs @ ys" using x by (simp add: remove1_append)
  then show ?thesis using rotate_ok[OF ok, of "[]" xs "[k]" ys] x r by (auto simp: moveToTop_def)
qed

subsection \<open>The row at a height\<close>

lemma placed_bottom:
  "placed i y ks m \<Longrightarrow> k \<in> set ks \<Longrightarrow> y < row_top (the (m k)) + row_height (the (m k)) \<and> y \<le> row_top (the (m k))"
proof (induction ks arbitrary: i y)
  case (Cons a ks)
  then show ?case by fastforce
qed simp

lemma lower_bottom:
  "placed i y0 ks m \<Longrightarrow> y0 < y \<Longrightarrow> y \<le> y0 + heights m ks \<Longrightarrow>
   \<exists>p. lower_pos y (\<lambda>k. row_top (the (m k)) + row_height (the (m k))) ks = p \<and> p < length ks
     \<and> row_top (the (m (ks ! p))) < y \<and> y \<le> row_top (the (m (ks ! p))) + row_height (the (m (ks ! p)))"
proof (induction ks arbitrary: i y0)
  case (Cons k ks)
  then obtain r where r: "m k = Some r" "row_top r = y0" "0 < row_height r" "placed (i + 1) (y0 + row_height r) ks m"
    by auto
  show ?case
  proof (cases "y0 + row_height r < y")
    case True
    then show ?thesis using Cons.IH[OF r(4)] Cons.prems(3) r by (auto simp: lower_pos_def)
  next
    case False
    then show ?thesis using r Cons.prems(2) by (auto simp: lower_pos_def)
  qed
qed simp

definition covers :: "('k \<rightharpoonup> drow) \<Rightarrow> int \<Rightarrow> 'k \<Rightarrow> bool" where
  "covers m y k \<longleftrightarrow> row_top (the (m k)) \<le> y \<and> y < row_top (the (m k)) + row_height (the (m k))"

lemma placed_bounds:
  "placed i y ks m \<Longrightarrow> k \<in> set ks \<Longrightarrow> i \<le> row_index (the (m k)) \<and> y \<le> row_top (the (m k))
     \<and> (row_index (the (m k)) = i \<longrightarrow> row_top (the (m k)) = y)"
proof (induction ks arbitrary: i y)
  case (Cons a ks)
  obtain r where r: "m a = Some r" "row_index r = i" "row_top r = y" "0 < row_height r"
      "placed (i + 1) (y + row_height r) ks m"
    using Cons.prems(1) by auto
  show ?case
  proof (cases "k \<in> set ks")
    case True
    then show ?thesis using Cons.IH[OF r(5) True] r(4) by simp
  next
    case False
    then show ?thesis using Cons.prems(2) r by simp
  qed
qed simp

lemma lower_covers:
  "placed i y0 ks m \<Longrightarrow> p = lower_pos y (\<lambda>k. row_top (the (m k)) + row_height (the (m k))) ks \<Longrightarrow>
   p < length ks \<and> ks ! p = k \<and> covers m y k \<longleftrightarrow>
   k \<in> set ks \<and> covers m y k \<and> (row_top (the (m k)) < y \<or> row_index (the (m k)) = i)"
proof (induction ks arbitrary: i y0 p)
  case (Cons a ks)
  obtain r where r: "m a = Some r" "row_top r = y0" "row_index r = i" "0 < row_height r"
      "placed (i + 1) (y0 + row_height r) ks m"
    using Cons.prems(1) by auto
  have later: "i + 1 \<le> row_index (the (m c)) \<and> y0 + row_height r \<le> row_top (the (m c))
      \<and> (row_index (the (m c)) = i + 1 \<longrightarrow> row_top (the (m c)) = y0 + row_height r)" if "c \<in> set ks" for c
    using placed_bounds[OF r(5) that] .
  show ?case
  proof (cases "y0 + row_height r < y")
    case True
    let ?p = "lower_pos y (\<lambda>k. row_top (the (m k)) + row_height (the (m k))) ks"
    have p: "p = Suc ?p" using Cons.prems(2) r True by (simp add: lower_pos_def)
    have "\<not> covers m y a" using r True by (simp add: covers_def)
    then show ?thesis
      using Cons.IH[OF r(5) refl] later[of k] True p by (auto simp: covers_def)
  next
    case False
    then have p: "p = 0" using Cons.prems(2) r by (simp add: lower_pos_def)
    have "\<not> (row_top (the (m k)) < y \<or> row_index (the (m k)) = i)" if "k \<in> set ks"
      using later[OF that] False by auto
    then show ?thesis using p r by auto
  qed
qed simp

lemma rowAtY_ok:
  assumes ok: "list_ok l"
  shows "rowAtY y l = Some k \<longleftrightarrow> k \<in> set (dl_rows l) \<and> covers (dl_rowByKey l) y k
    \<and> (row_top (the (dl_rowByKey l k)) < y \<or> row_index (the (dl_rowByKey l k)) = 0)"
proof -
  have p: "placed 0 0 (dl_rows l) (dl_rowByKey l)" using ok by (auto simp: list_ok_def)
  have "findByY y l \<le> length (dl_rows l)" by (simp add: findByY_def lower_pos_le)
  then have "rowAtY y l = Some k \<longleftrightarrow> findByY y l < length (dl_rows l) \<and> dl_rows l ! findByY y l = k
      \<and> covers (dl_rowByKey l) y k"
    by (auto simp: rowAtY_def Let_def covers_def)
  then show ?thesis using lower_covers[OF p, of "findByY y l" y k] by (simp add: findByY_def)
qed

subsection \<open>Sequences of calls\<close>

text \<open>
  The calls that reach a list sorted by date: entries come and go, the sort key of an entry
  changes and its row is adjusted (\<open>Entry::adjustByPosInChatList\<close>), heights change.
\<close>

datatype 'k list_call =
    CallAdd 'k
  | CallRemove 'k "'k option"
  | CallRedate 'k "64 word"
  | CallHeight 'k real
  | CallHeights real

fun list_call_step :: "'k list_call \<Rightarrow> ('k, 'n) entries \<times> 'k dlist \<Rightarrow> (('k, 'n) entries \<times> 'k dlist) option" where
  "list_call_step (CallAdd k) (en, l) = map_option (Pair en) (addToEnd en k l)"
| "list_call_step (CallRemove k rep) (en, l) = map_option (\<lambda>(_, l1). (en, l1)) (list_remove k rep l)"
| "list_call_step (CallRedate k v) (en, l) =
     (let en1 = en\<lparr>en_sortKey := (\<lambda>f. (en_sortKey en f)(k := v))\<rparr>
      in if list_contains k l then map_option (Pair en1) (adjustByDate en1 k l) else Some (en1, l))"
| "list_call_step (CallHeight k ratio) (en, l) = map_option (\<lambda>(_, l1). (en, l1)) (updateHeight en k ratio l)"
| "list_call_step (CallHeights ratio) (en, l) = map_option (\<lambda>(_, l1). (en, l1)) (updateHeights en ratio l)"

fun list_run :: "'k list_call list \<Rightarrow> ('k, 'n) entries \<times> 'k dlist \<Rightarrow> (('k, 'n) entries \<times> 'k dlist) option" where
  "list_run [] s = Some s"
| "list_run (c # cs) s = Option.bind (list_call_step c s) (list_run cs)"

text \<open>The keys the calls leave in the list.\<close>

fun keys_step :: "'k list_call \<Rightarrow> 'k set \<Rightarrow> 'k set" where
  "keys_step (CallAdd k) ks = insert k ks"
| "keys_step (CallRemove k rep) ks = ks - {k}"
| "keys_step _ ks = ks"

definition list_inv :: "'k set \<Rightarrow> ('k, 'n) entries \<times> 'k dlist \<Rightarrow> bool" where
  "list_inv ks s \<longleftrightarrow> entries_ok (fst s) \<and> list_ok (snd s) \<and> dl_sortMode (snd s) = SortDate
     \<and> set (dl_rows (snd s)) = ks \<and> sorted_wrt (date_le (fst s) (dl_filterId (snd s))) (dl_rows (snd s))"

lemma sorted_wrt_other:
  "sorted_wrt P xs \<Longrightarrow> (\<And>a b. a \<in> set xs \<Longrightarrow> b \<in> set xs \<Longrightarrow> P a b = Q a b) \<Longrightarrow> sorted_wrt Q xs"
  by (induction xs) auto

lemma list_inv_step:
  assumes inv: "list_inv ks s"
  shows "\<exists>s1. list_call_step c s = Some s1 \<and> list_inv (keys_step c ks) s1 \<and> dl_filterId (snd s1) = dl_filterId (snd s)"
proof -
  obtain en l where s: "s = (en, l)" by (cases s)
  have en: "entries_ok en" and ok: "list_ok l" and d: "dl_sortMode l = SortDate" and ks: "set (dl_rows l) = ks"
      and so: "sorted_wrt (date_le en (dl_filterId l)) (dl_rows l)"
    using inv by (auto simp: list_inv_def s)
  show ?thesis
  proof (cases c)
    case (CallAdd k)
    show ?thesis
    proof (cases "k \<in> ks")
      case True
      then have "addToEnd en k l = Some l" using addToEnd_old[OF ok] ks by simp
      then show ?thesis using inv True CallAdd by (simp add: s insert_absorb)
    next
      case False
      obtain m1 us vs where a: "addToEnd en k l = Some (l\<lparr>dl_rows := us @ k # vs, dl_rowByKey := m1\<rparr>)"
          "list_ok (l\<lparr>dl_rows := us @ k # vs, dl_rowByKey := m1\<rparr>)" "us @ vs = dl_rows l"
          "sorted_wrt (date_le en (dl_filterId l)) (us @ k # vs)"
        using addToEnd_ok[OF ok en, of k] False ks d so by blast
      have "set (us @ k # vs) = insert k ks" using a(3) ks by (metis Un_insert_right list.set(2) set_append)
      then show ?thesis using a en d CallAdd by (simp add: s list_inv_def)
    qed
  next
    case (CallRemove k rep)
    have "set (remove1 k (dl_rows l)) = ks - {k}" using ok ks by (simp add: list_ok_def)
    moreover have "sorted_wrt (date_le en (dl_filterId l)) (remove1 k (dl_rows l))"
      using so ok by (simp add: list_ok_def distinct_remove1_removeAll removeAll_filter_not_eq sorted_wrt_filter)
    ultimately show ?thesis using list_remove_ok[OF ok, of k rep] en d CallRemove
      by (auto simp: s list_inv_def)
  next
    case (CallRedate k v)
    let ?en = "en\<lparr>en_sortKey := (\<lambda>f. (en_sortKey en f)(k := v))\<rparr>"
    have en1: "entries_ok ?en" using en by (simp add: entries_ok_def)
    have same: "date_le ?en f a b = date_le en f a b" if "a \<noteq> k" "b \<noteq> k" for f a b
      using that by (simp add: date_le_def)
    have so1: "sorted_wrt (date_le ?en (dl_filterId l)) (remove1 k (dl_rows l))"
    proof -
      have "sorted_wrt (date_le en (dl_filterId l)) (remove1 k (dl_rows l))"
        using so ok by (simp add: list_ok_def distinct_remove1_removeAll removeAll_filter_not_eq sorted_wrt_filter)
      moreover have "k \<notin> set (remove1 k (dl_rows l))" using ok by (simp add: list_ok_def)
      then have "date_le en (dl_filterId l) a b = date_le ?en (dl_filterId l) a b"
        if "a \<in> set (remove1 k (dl_rows l))" "b \<in> set (remove1 k (dl_rows l))" for a b
        by (intro same[symmetric]) (use that in auto)
      ultimately show ?thesis by (rule sorted_wrt_other)
    qed
    show ?thesis
    proof (cases "k \<in> set (dl_rows l)")
      case False
      have "dom (dl_rowByKey l) = set (dl_rows l)" using ok unfolding list_ok_def by blast
      then have none: "dl_rowByKey l k = None" using False by blast
      have rem: "remove1 k (dl_rows l) = dl_rows l" using False by (rule remove1_idem)
      have "list_call_step c s = Some (?en, l)" using none CallRedate by (simp add: s list_contains_def Let_def)
      moreover have "list_inv ks (?en, l)" unfolding list_inv_def fst_conv snd_conv
        using en1 ok d ks so1[unfolded rem] by blast
      ultimately show ?thesis using CallRedate by (simp add: s)
    next
      case True
      obtain r m1 us vs where a: "dl_rowByKey l k = Some r" "row_index r < length (dl_rows l)"
          "adjust_row (date_le ?en (dl_filterId l)) k (row_index r) l = Some (l\<lparr>dl_rows := us @ k # vs, dl_rowByKey := m1\<rparr>)"
          "list_ok (l\<lparr>dl_rows := us @ k # vs, dl_rowByKey := m1\<rparr>)" "us @ vs = remove1 k (dl_rows l)"
          "sorted_wrt (date_le ?en (dl_filterId l)) (us @ k # vs)"
        using adjust_existing_ok[OF ok True total_date[of ?en "dl_filterId l"]] so1 by blast
      have "set (us @ k # vs) = insert k (set (us @ vs))" by auto
      then have "set (us @ k # vs) = ks" using a(5) True ks ok by (auto simp: list_ok_def)
      then show ?thesis using a en1 d CallRedate adjustByDate_row[OF d a(1,2), of ?en]
        by (simp add: s list_inv_def list_contains_def Let_def)
    qed
  next
    case (CallHeight k ratio)
    then show ?thesis using updateHeight_ok[OF ok en, of k ratio] en d ks so by (auto simp: s list_inv_def)
  next
    case (CallHeights ratio)
    then show ?thesis using updateHeights_ok[OF ok en, of ratio] en d ks so by (auto simp: s list_inv_def)
  qed
qed

lemma list_inv_run:
  "list_inv ks s \<Longrightarrow> \<exists>s1. list_run cs s = Some s1 \<and> list_inv (fold keys_step cs ks) s1
     \<and> dl_filterId (snd s1) = dl_filterId (snd s)"
proof (induction cs arbitrary: ks s)
  case (Cons c cs)
  obtain s1 where s1: "list_call_step c s = Some s1" "list_inv (keys_step c ks) s1" "dl_filterId (snd s1) = dl_filterId (snd s)"
    using list_inv_step[OF Cons.prems] by blast
  then show ?case using Cons.IH[OF s1(2)] by auto
qed simp

lemma list_inv_new: "entries_ok en \<Longrightarrow> list_inv {} (en, new_dlist SortDate f)"
  by (simp add: list_inv_def list_ok_def new_dlist_def)

text \<open>A list sorted by name: the row added goes to its place among the others.\<close>

lemma addByName_ok:
  assumes ok: "list_ok l" and en: "entries_ok en" and mode: "dl_sortMode l = SortName"
    and so: "sorted_wrt (name_le en) (dl_rows l)"
  shows "\<exists>l1. addByName en k l = Some l1 \<and> list_ok l1 \<and> set (dl_rows l1) = insert k (set (dl_rows l))
    \<and> sorted_wrt (name_le en) (dl_rows l1)"
proof -
  obtain l1 where l1: "addToEnd en k l = Some l1" "list_ok l1" "dl_sortMode l1 = SortName"
      "set (dl_rows l1) = insert k (set (dl_rows l))" "sorted_wrt (name_le en) (remove1 k (dl_rows l1))"
  proof (cases "k \<in> set (dl_rows l)")
    case True
    have "sorted_wrt (name_le en) (remove1 k (dl_rows l))"
      using so ok by (simp add: list_ok_def distinct_remove1_removeAll removeAll_filter_not_eq sorted_wrt_filter)
    then show ?thesis by - (rule that[OF addToEnd_old[OF ok True] ok mode], use True in auto)
  next
    case False
    obtain m1 us vs where a: "addToEnd en k l = Some (l\<lparr>dl_rows := us @ k # vs, dl_rowByKey := m1\<rparr>)"
        "list_ok (l\<lparr>dl_rows := us @ k # vs, dl_rowByKey := m1\<rparr>)" "us @ vs = dl_rows l" "vs = []"
      using addToEnd_ok[OF ok en False] mode by auto
    have "remove1 k (us @ k # vs) = dl_rows l" using a(3,4) False by (simp add: remove1_append)
    then show ?thesis using that[OF a(1,2)] a(3,4) mode so by auto
  qed
  have k: "k \<in> set (dl_rows l1)" using l1(4) by simp
  obtain r m1 us vs where b: "dl_rowByKey l1 k = Some r" "row_index r < length (dl_rows l1)"
      "adjust_row (name_le en) k (row_index r) l1 = Some (l1\<lparr>dl_rows := us @ k # vs, dl_rowByKey := m1\<rparr>)"
      "list_ok (l1\<lparr>dl_rows := us @ k # vs, dl_rowByKey := m1\<rparr>)" "us @ vs = remove1 k (dl_rows l1)"
      "sorted_wrt (name_le en) (us @ k # vs)"
    using adjust_existing_ok[OF l1(2) k total_name[of en]] l1(5) by blast
  have "adjustByName en k l1 = Some (Some k, l1\<lparr>dl_rows := us @ k # vs, dl_rowByKey := m1\<rparr>)"
    using b(1,3) l1(3) adjust_by_name_row[OF b(1,2), of en] by (simp add: adjustByName_def getRow_def)
  then have "addByName en k l = Some (l1\<lparr>dl_rows := us @ k # vs, dl_rowByKey := m1\<rparr>)"
    using l1(1) mode by (simp add: addByName_def)
  moreover have "set (us @ k # vs) = insert k (set (dl_rows l))"
  proof -
    have "set (us @ k # vs) = insert k (set (us @ vs))" by auto
    then show ?thesis using b(5) l1(2,4) by (auto simp: list_ok_def)
  qed
  ultimately show ?thesis using b(4,6) by auto
qed

lemma placed_nth:
  assumes "list_ok l" and "j < length (dl_rows l)"
  shows "\<exists>r. dl_rowByKey l (dl_rows l ! j) = Some r \<and> row_index r = j \<and> 0 < row_height r
     \<and> row_top r = heights (dl_rowByKey l) (take j (dl_rows l))"
  using placed_at[of 0 0 "dl_rows l" "dl_rowByKey l" j] assms by (auto simp: list_ok_def)

subsection \<open>Properties\<close>

text \<open>
  C14: Whatever rows are added and removed, whatever sort keys and heights change and in whatever
  order, no assertion fails and no iterator leaves the list: a list sorted by date holds exactly
  the keys added and not removed, each once, by descending sort key; every row knows its position,
  is as far from the top as the rows before it are high, and is not of height zero.
\<close>

theorem dialogs_list_ordered:
  assumes "entries_ok en"
  shows "\<exists>en1 l. list_run calls (en, new_dlist SortDate f) = Some (en1, l)
    \<and> distinct (dl_rows l) \<and> set (dl_rows l) = fold keys_step calls {} \<and> dom (dl_rowByKey l) = set (dl_rows l)
    \<and> sorted_wrt (\<lambda>a b. en_sortKey en1 f b \<le> en_sortKey en1 f a) (dl_rows l)
    \<and> (\<forall>j < length (dl_rows l). \<exists>r. dl_rowByKey l (dl_rows l ! j) = Some r \<and> row_index r = j \<and> 0 < row_height r
         \<and> row_top r = sum_list (map (\<lambda>k. row_height (the (dl_rowByKey l k))) (take j (dl_rows l))))"
proof -
  obtain en1 l where run: "list_run calls (en, new_dlist SortDate f) = Some (en1, l)"
      "list_inv (fold keys_step calls {}) (en1, l)" "dl_filterId l = f"
    using list_inv_run[OF list_inv_new[OF assms, of f], of calls] by (auto simp: new_dlist_def)
  then have ok: "list_ok l" by (simp add: list_inv_def)
  show ?thesis
  proof (rule exI[of _ en1], rule exI[of _ l], intro conjI)
    show "sorted_wrt (\<lambda>a b. en_sortKey en1 f b \<le> en_sortKey en1 f a) (dl_rows l)"
      using run(2,3) by (simp add: list_inv_def date_le_def[abs_def])
  qed (use run ok placed_nth[OF ok] in \<open>auto simp: list_inv_def list_ok_def heights_def\<close>)
qed

theorem dialogs_list_ordered_witness:
  "let en = \<lparr>en_sortKey = (\<lambda>_ k. of_nat k), en_nameKey = (\<lambda>k. k), en_kind = (\<lambda>k. HistoryRow (k = 3)),
       en_rowHeight = 62, en_forumHeight = 80, en_topicHeight = 54, en_interpolate = (\<lambda>a b r. a)\<rparr> :: (nat, nat) entries
   in \<exists>en1 l. list_run [CallAdd 1, CallAdd 3, CallAdd 2, CallRedate 1 9, CallRemove 2 None] (en, new_dlist SortDate 0) = Some (en1, l)
     \<and> dl_rows l = [1, 3] \<and> row_top (the (dl_rowByKey l 3)) = 62"
proof -
  let ?en = "\<lparr>en_sortKey = (\<lambda>_ k. of_nat k), en_nameKey = (\<lambda>k. k), en_kind = (\<lambda>k. HistoryRow (k = 3)),
       en_rowHeight = 62, en_forumHeight = 80, en_topicHeight = 54, en_interpolate = (\<lambda>a b r. a)\<rparr> :: (nat, nat) entries"
  let ?calls = "[CallAdd 1, CallAdd 3, CallAdd 2, CallRedate 1 9, CallRemove 2 None] :: nat list_call list"
  have en: "entries_ok ?en" by (simp add: entries_ok_def)
  obtain en1 l where r: "list_run ?calls (?en, new_dlist SortDate 0) = Some (en1, l)"
    using dialogs_list_ordered[OF en, of ?calls 0] by blast
  have "map_option (\<lambda>(_, l). (dl_rows l, row_top (the (dl_rowByKey l 3)))) (list_run ?calls (?en, new_dlist SortDate 0)) = Some ([1, 3], 62)"
    by code_simp
  then show ?thesis using r by (simp add: Let_def)
qed

text \<open>
  C28: In such a list, \<open>rowAtY\<close> finds the row that covers a height, except for the topmost line of
  every row but the first, where it finds none.
\<close>

theorem dialogs_row_at:
  assumes "entries_ok en" and "list_run calls (en, new_dlist SortDate f) = Some (en1, l)"
  shows "rowAtY y l = Some k \<longleftrightarrow> k \<in> set (dl_rows l) \<and> (\<exists>r. dl_rowByKey l k = Some r \<and> y < row_top r + row_height r \<and>
    (row_top r < y \<or> row_top r = y \<and> row_index r = 0))"
proof -
  have "list_inv (fold keys_step calls {}) (en1, l)"
    using list_inv_run[OF list_inv_new[OF assms(1), of f], of calls] assms(2) by auto
  then have ok: "list_ok l" by (simp add: list_inv_def)
  show ?thesis using rowAtY_ok[OF ok, of y k] list_ok_row[OF ok, of k] by (auto simp: covers_def)
qed

theorem dialogs_row_at_witness:
  "let en = \<lparr>en_sortKey = (\<lambda>_ k. of_nat k), en_nameKey = (\<lambda>k. k), en_kind = (\<lambda>k. FolderRow),
       en_rowHeight = 62, en_forumHeight = 80, en_topicHeight = 54, en_interpolate = (\<lambda>a b r. a)\<rparr> :: (nat, nat) entries
   in \<exists>en1 l. list_run [CallAdd 1, CallAdd 3] (en, new_dlist SortDate 0) = Some (en1, l)
     \<and> rowAtY 0 l = Some 3 \<and> rowAtY 62 l \<noteq> Some 1 \<and> rowAtY 63 l = Some 1"
proof -
  let ?en = "\<lparr>en_sortKey = (\<lambda>_ k. of_nat k), en_nameKey = (\<lambda>k. k), en_kind = (\<lambda>k. FolderRow),
       en_rowHeight = 62, en_forumHeight = 80, en_topicHeight = 54, en_interpolate = (\<lambda>a b r. a)\<rparr> :: (nat, nat) entries"
  let ?calls = "[CallAdd 1, CallAdd 3] :: nat list_call list"
  have en: "entries_ok ?en" by (simp add: entries_ok_def)
  have run: "map_option (\<lambda>(_, l). (dl_rows l, dl_rowByKey l 1, dl_rowByKey l 3)) (list_run ?calls (?en, new_dlist SortDate 0))
      = Some ([3, 1], Some \<lparr>row_top = 62, row_index = 1, row_height = 62\<rparr>, Some \<lparr>row_top = 0, row_index = 0, row_height = 62\<rparr>)"
    by code_simp
  then obtain en1 l where r: "list_run ?calls (?en, new_dlist SortDate 0) = Some (en1, l)"
      "dl_rows l = [3, 1]" "dl_rowByKey l 1 = Some \<lparr>row_top = 62, row_index = 1, row_height = 62\<rparr>"
      "dl_rowByKey l 3 = Some \<lparr>row_top = 0, row_index = 0, row_height = 62\<rparr>"
    by auto
  have "rowAtY 0 l = Some 3" "rowAtY 62 l \<noteq> Some 1" "rowAtY 63 l = Some 1"
    using dialogs_row_at[OF en r(1), of 0 3] dialogs_row_at[OF en r(1), of 62 1] dialogs_row_at[OF en r(1), of 63 1] r(2-4)
    by auto
  then show ?thesis using r(1) by (simp add: Let_def)
qed

end
