(* ===== verification/DialogsPinned.thy ===== *)
theory DialogsPinned
  imports DialogsList
begin

text \<open>
  The pinned chats of a list, from \<open>dialogs/dialogs_pinned_list.{h,cpp}\<close>, with what an entry keeps of
  them (\<open>cachePinnedIndex\<close> and the sort keys of \<open>dialogs/dialogs_entry.cpp\<close>). The entries are shared by
  the pinned lists of all filters: the store gives for each entry its indices by filter. What
  \<open>pinnedIndexChanged\<close> tells others is recorded. A failing \<open>Expects\<close> or \<open>Assert\<close> is \<open>None\<close>.
\<close>

subsection \<open>Entries\<close>

type_synonym pinned_index = "(int, int) flat_map"

record 'k pinned_store =
  ps_index :: "'k \<Rightarrow> pinned_index"
  ps_changed :: "('k \<times> int \<times> int \<times> int) list"

definition cachePinnedIndex :: "int \<Rightarrow> int \<Rightarrow> 'k \<Rightarrow> 'k pinned_store \<Rightarrow> 'k pinned_store" where
  "cachePinnedIndex filterId index k s =
     (let i = fm_lookup (ps_index s k) filterId;
          was = (case i of None \<Rightarrow> 0 | Some x \<Rightarrow> x)
      in if index = was then s
         else let m = (if index = 0 then fm_erase filterId (ps_index s k)
                       else if was = 0 then fm_emplace filterId index (ps_index s k)
                       else fm_set filterId index (ps_index s k))
           in s\<lparr>ps_index := (ps_index s)(k := m), ps_changed := ps_changed s @ [(k, filterId, was, index)]\<rparr>)"

definition lookupPinnedIndex :: "int \<Rightarrow> pinned_index \<Rightarrow> int" where
  "lookupPinnedIndex filterId m =
     (if filterId \<noteq> 0 then (case fm_lookup m filterId of None \<Rightarrow> 0 | Some x \<Rightarrow> x)
      else if m \<noteq> [] then (if fst (hd m) \<noteq> 0 then 0 else snd (hd m))
      else 0)"

text \<open>\<open>DialogsPosToTopShift\<close> is the number of positions given out so far, an \<open>int\<close>.\<close>

definition DialogPosFromDate :: "int \<Rightarrow> int \<Rightarrow> 64 word \<times> int" where
  "DialogPosFromDate date shift =
     (if date = 0 then (0, shift)
      else (push_bit 32 (word_of_int date) OR word_of_int (shift + 1), shift + 1))"

definition FixedOnTopDialogPos :: "int \<Rightarrow> 64 word" where
  "FixedOnTopDialogPos index = 0xFFFFFFFFFFFF000F - word_of_int index"

definition PinnedDialogPos :: "int \<Rightarrow> 64 word" where
  "PinnedDialogPos pinnedIndex = 0xFFFFFFFF000000FF - word_of_int pinnedIndex"

definition computeSortPosition :: "int \<Rightarrow> pinned_index \<Rightarrow> 64 word \<Rightarrow> 64 word" where
  "computeSortPosition filterId m sortKeyByDate =
     (let index = lookupPinnedIndex filterId m
      in if index \<noteq> 0 then PinnedDialogPos index else sortKeyByDate)"

definition sortKeyInChatList :: "int \<Rightarrow> pinned_index \<Rightarrow> 64 word \<Rightarrow> 64 word \<Rightarrow> 64 word" where
  "sortKeyInChatList filterId m sortKeyByDate inList =
     (if filterId \<noteq> 0 then computeSortPosition filterId m sortKeyByDate else inList)"

text \<open>
  The sort keys \<open>updateChatListSortPosition\<close> computes when the entry is to be in the list. \<open>fixedIndex\<close> is
  \<open>fixedOnTopIndex()\<close>: 1 for the archive, 2 for a promoted chat, else 0.
\<close>

definition sort_keys :: "int \<Rightarrow> int \<Rightarrow> int \<Rightarrow> pinned_index \<Rightarrow> (64 word \<times> 64 word) \<times> int" where
  "sort_keys fixedIndex date shift m =
     (let (sortKeyByDate, shift1) = DialogPosFromDate date shift
      in ((sortKeyByDate, if fixedIndex \<noteq> 0 then FixedOnTopDialogPos fixedIndex
             else computeSortPosition 0 m sortKeyByDate), shift1))"

text \<open>The key of an entry with these sort keys in the list of the filter.\<close>

definition entry_key :: "int \<Rightarrow> int \<Rightarrow> int \<Rightarrow> int \<Rightarrow> pinned_index \<Rightarrow> 64 word" where
  "entry_key filterId fixedIndex date shift m =
     (case sort_keys fixedIndex date shift m of
        ((sortKeyByDate, inList), shift1) \<Rightarrow> sortKeyInChatList filterId m sortKeyByDate inList)"

subsection \<open>The list\<close>

record 'k pinned_list =
  pl_filterId :: int
  pl_limit :: int
  pl_data :: "'k list"

type_synonym 'k pinned_state = "'k pinned_list \<times> 'k pinned_store"

definition new_pinned_list :: "int \<Rightarrow> int \<Rightarrow> 'k pinned_list option" where
  "new_pinned_list filterId limit =
     (if limit > 0 then Some \<lparr>pl_filterId = filterId, pl_limit = limit, pl_data = []\<rparr> else None)"

text \<open>\<open>for (i = from; i != ...; ++i) cachePinnedIndex(filterId, i + 1)\<close> of the entries in a part of the list.\<close>

fun cache_from :: "int \<Rightarrow> nat \<Rightarrow> 'k list \<Rightarrow> 'k pinned_store \<Rightarrow> 'k pinned_store" where
  "cache_from filterId i [] s = s"
| "cache_from filterId i (k # ks) s = cache_from filterId (i + 1) ks (cachePinnedIndex filterId (int i + 1) k s)"

definition find_key :: "'k \<Rightarrow> 'k list \<Rightarrow> nat" where
  "find_key k ks = length (takeWhile (\<lambda>j. j \<noteq> k) ks)"

lemma find_key_in: "k \<in> set ks \<Longrightarrow> find_key k ks < length ks \<and> ks ! find_key k ks = k \<and> k \<notin> set (take (find_key k ks) ks)"
  by (induction ks) (auto simp: find_key_def)

lemma find_key_out: "k \<notin> set ks \<Longrightarrow> find_key k ks = length ks"
  by (induction ks) (auto simp: find_key_def)

text \<open>\<open>setPinned(key, false)\<close>\<close>

definition unpin :: "('k \<Rightarrow> bool) \<Rightarrow> 'k \<Rightarrow> 'k pinned_state \<Rightarrow> 'k pinned_state option" where
  "unpin folderKnown key st =
     (case st of (l, s) \<Rightarrow>
       if \<not> (folderKnown key \<or> pl_filterId l \<noteq> 0) then None
       else let index = find_key key (pl_data l) in
         if index = length (pl_data l) then Some (l, s)
         else let data = take index (pl_data l) @ drop (index + 1) (pl_data l);
                  s1 = cachePinnedIndex (pl_filterId l) 0 key s
           in Some (l\<lparr>pl_data := data\<rparr>, cache_from (pl_filterId l) index (drop index data) s1))"

lemma unpin_last_shorter:
  "unpin folderKnown (last (pl_data l)) (l, s) = Some (l1, s1) \<Longrightarrow> pl_data l \<noteq> [] \<Longrightarrow> length (pl_data l1) < length (pl_data l)"
proof -
  assume u: "unpin folderKnown (last (pl_data l)) (l, s) = Some (l1, s1)" and ne: "pl_data l \<noteq> []"
  have "find_key (last (pl_data l)) (pl_data l) < length (pl_data l)" using find_key_in[of "last (pl_data l)"] ne by simp
  then show ?thesis using u by (auto simp: unpin_def Let_def split: if_splits)
qed

text \<open>\<open>while (_data.size() > limit) setPinned(_data.back(), false)\<close>\<close>

function apply_limit_loop :: "('k \<Rightarrow> bool) \<Rightarrow> int \<Rightarrow> 'k pinned_list \<Rightarrow> 'k pinned_store \<Rightarrow> 'k pinned_state option" where
  "apply_limit_loop folderKnown limit l s =
     (if int (length (pl_data l)) > limit \<and> pl_data l \<noteq> [] then
        (case unpin folderKnown (last (pl_data l)) (l, s) of
           None \<Rightarrow> None
         | Some (l1, s1) \<Rightarrow> apply_limit_loop folderKnown limit l1 s1)
      else Some (l, s))"
  by pat_completeness auto
termination
  by (relation "measure (\<lambda>(_, _, l, _). length (pl_data l))") (auto dest: unpin_last_shorter)

declare apply_limit_loop.simps [simp del]

definition applyLimit :: "('k \<Rightarrow> bool) \<Rightarrow> int \<Rightarrow> 'k pinned_state \<Rightarrow> 'k pinned_state option" where
  "applyLimit folderKnown limit st =
     (if limit < 0 then None else apply_limit_loop folderKnown limit (fst st) (snd st))"

definition setLimit :: "('k \<Rightarrow> bool) \<Rightarrow> int \<Rightarrow> 'k pinned_state \<Rightarrow> 'k pinned_state option" where
  "setLimit folderKnown limit st =
     (if \<not> limit > 0 then None
      else if pl_limit (fst st) = limit then Some st
      else applyLimit folderKnown limit ((fst st)\<lparr>pl_limit := limit\<rparr>, snd st))"

definition addPinnedGetPosition :: "('k \<Rightarrow> bool) \<Rightarrow> 'k \<Rightarrow> 'k pinned_state \<Rightarrow> (nat \<times> 'k pinned_state) option" where
  "addPinnedGetPosition folderKnown key st =
     (let already = find_key key (pl_data (fst st)) in
      if already \<noteq> length (pl_data (fst st)) then Some (already, st)
      else case applyLimit folderKnown (pl_limit (fst st) - 1) st of
        None \<Rightarrow> None
      | Some (l, s) \<Rightarrow>
          let position = length (pl_data l)
          in Some (position, l\<lparr>pl_data := pl_data l @ [key]\<rparr>, cachePinnedIndex (pl_filterId l) (int position + 1) key s))"

definition addPinned :: "('k \<Rightarrow> bool) \<Rightarrow> 'k \<Rightarrow> 'k pinned_state \<Rightarrow> 'k pinned_state option" where
  "addPinned folderKnown key st =
     (if \<not> folderKnown key then None else map_option snd (addPinnedGetPosition folderKnown key st))"

definition setPinned :: "('k \<Rightarrow> bool) \<Rightarrow> 'k \<Rightarrow> bool \<Rightarrow> 'k pinned_state \<Rightarrow> 'k pinned_state option" where
  "setPinned folderKnown key pinned st =
     (if \<not> (folderKnown key \<or> pl_filterId (fst st) \<noteq> 0) then None
      else if pinned then
        (case addPinnedGetPosition folderKnown key st of
           None \<Rightarrow> None
         | Some (position, l, s) \<Rightarrow>
             if position \<noteq> 0 then
               (let data = pl_data l ! position # take position (pl_data l) @ drop (position + 1) (pl_data l)
                in Some (l\<lparr>pl_data := data\<rparr>, cache_from (pl_filterId l) 0 (take (position + 1) data) s))
             else Some (l, s))
      else unpin folderKnown key st)"

definition pinned_clear :: "('k \<Rightarrow> bool) \<Rightarrow> 'k pinned_state \<Rightarrow> 'k pinned_state option" where
  "pinned_clear folderKnown st = applyLimit folderKnown 0 st"

text \<open>\<open>applyList\<close> of the keys that a list from the server stands for; \<open>None\<close> is a null key.\<close>

fun add_all :: "('k \<Rightarrow> bool) \<Rightarrow> 'k option list \<Rightarrow> 'k pinned_state \<Rightarrow> 'k pinned_state option" where
  "add_all folderKnown [] st = Some st"
| "add_all folderKnown (None # ks) st = None"
| "add_all folderKnown (Some k # ks) st = Option.bind (addPinned folderKnown k st) (add_all folderKnown ks)"

definition apply_keys :: "('k \<Rightarrow> bool) \<Rightarrow> 'k option list \<Rightarrow> 'k pinned_state \<Rightarrow> 'k pinned_state option" where
  "apply_keys folderKnown ks st = Option.bind (pinned_clear folderKnown st) (add_all folderKnown ks)"

datatype ('p, 'f) mtp_dialog_peer = MTP_dialogPeer 'p | MTP_dialogPeerFolder 'f

text \<open>The peer is \<open>None\<close> when \<open>peerFromMTP\<close> gives no id; \<open>history\<close> and \<open>folder\<close> look up the entries.\<close>

definition applyList_session :: "('k \<Rightarrow> bool) \<Rightarrow> ('p \<Rightarrow> 'k) \<Rightarrow> ('f \<Rightarrow> 'k) \<Rightarrow> ('p option, 'f) mtp_dialog_peer list
    \<Rightarrow> 'k pinned_state \<Rightarrow> 'k pinned_state option" where
  "applyList_session folderKnown history folder peers st =
     apply_keys folderKnown (concat (map (\<lambda>p. case p of
         MTP_dialogPeer (Some peer) \<Rightarrow> [Some (history peer)]
       | MTP_dialogPeer None \<Rightarrow> []
       | MTP_dialogPeerFolder f \<Rightarrow> [Some (folder f)]) peers)) st"

definition applyList_sublists :: "('k \<Rightarrow> bool) \<Rightarrow> ('p \<Rightarrow> 'k) \<Rightarrow> ('p option, 'f) mtp_dialog_peer list
    \<Rightarrow> 'k pinned_state \<Rightarrow> 'k pinned_state option" where
  "applyList_sublists folderKnown sublistOf peers st =
     apply_keys folderKnown (concat (map (\<lambda>p. case p of
         MTP_dialogPeer (Some peer) \<Rightarrow> [Some (sublistOf peer)]
       | _ \<Rightarrow> []) peers)) st"

definition applyList_topics :: "('k \<Rightarrow> bool) \<Rightarrow> (int \<Rightarrow> 'k option) \<Rightarrow> int list \<Rightarrow> 'k pinned_state \<Rightarrow> 'k pinned_state option" where
  "applyList_topics folderKnown topicFor ids st =
     apply_keys folderKnown (map topicFor ids) st"

definition applyList_histories :: "'k list \<Rightarrow> 'k pinned_state \<Rightarrow> 'k pinned_state option" where
  "applyList_histories ks st =
     (case st of (l, s) \<Rightarrow>
       if pl_filterId l = 0 then None
       else Some (l\<lparr>pl_data := ks\<rparr>,
         fold (\<lambda>k. if k \<in> set ks then (\<lambda>s. s) else cachePinnedIndex (pl_filterId l) 0 k) (pl_data l)
           (cache_from (pl_filterId l) 0 ks s)))"

definition reorder :: "'k \<Rightarrow> 'k \<Rightarrow> 'k pinned_state \<Rightarrow> 'k pinned_state option" where
  "reorder key1 key2 st =
     (case st of (l, s) \<Rightarrow>
       let index1 = find_key key1 (pl_data l); index2 = find_key key2 (pl_data l) in
       if \<not> index1 < length (pl_data l) \<or> \<not> index2 < length (pl_data l) \<or> index1 = index2 then None
       else Some (l\<lparr>pl_data := (pl_data l)[index1 := pl_data l ! index2, index2 := pl_data l ! index1]\<rparr>,
         cachePinnedIndex (pl_filterId l) (int index1 + 1) key2
           (cachePinnedIndex (pl_filterId l) (int index2 + 1) key1 s)))"

subsection \<open>What the entries keep\<close>

definition cached :: "int \<Rightarrow> 'k pinned_store \<Rightarrow> 'k \<Rightarrow> int" where
  "cached f s k = (case fm_lookup (ps_index s k) f of None \<Rightarrow> 0 | Some x \<Rightarrow> x)"

definition store_ok :: "'k pinned_store \<Rightarrow> bool" where
  "store_ok s \<longleftrightarrow> (\<forall>k. fm_sorted (ps_index s k) \<and> (\<forall>f. fm_lookup (ps_index s k) f \<noteq> Some 0))"

definition position :: "'k \<Rightarrow> 'k list \<Rightarrow> int" where
  "position k ks = (if k \<in> set ks then int (find_key k ks) + 1 else 0)"

lemma find_key_append: "find_key k (xs @ ys) = (if k \<in> set xs then find_key k xs else length xs + find_key k ys)"
  by (induction xs) (auto simp: find_key_def)

lemma position_append:
  "position k (xs @ ys) = (if k \<in> set xs then position k xs else if k \<in> set ys then int (length xs) + position k ys else 0)"
  by (simp add: position_def find_key_append)

lemma position_Cons: "position k (j # ks) = (if k = j then 1 else if k \<in> set ks then 1 + position k ks else 0)"
  using position_append[of k "[j]" ks] by (simp add: position_def find_key_def)

lemma cached_cache:
  assumes ok: "store_ok s"
  shows "store_ok (cachePinnedIndex f i k s)"
    and "cached g (cachePinnedIndex f i k s) j = (if j = k \<and> g = f then i else cached g s j)"
proof -
  have k: "fm_sorted (ps_index s k)" "\<And>f. fm_lookup (ps_index s k) f \<noteq> Some 0" using ok by (auto simp: store_ok_def)
  let ?m = "ps_index s k" and ?was = "cached f s k"
  show "store_ok (cachePinnedIndex f i k s)"
    using ok k by (auto simp: store_ok_def cachePinnedIndex_def Let_def sorted_fm_erase sorted_fm_emplace sorted_fm_set
        fm_lookup_erase fm_lookup_emplace fm_lookup_set split: option.splits if_splits)
  show "cached g (cachePinnedIndex f i k s) j = (if j = k \<and> g = f then i else cached g s j)"
    using k by (auto simp: cached_def cachePinnedIndex_def Let_def
        fm_lookup_erase fm_lookup_emplace fm_lookup_set split: option.splits if_splits)
qed

lemma cached_from:
  "store_ok s \<Longrightarrow> distinct ks \<Longrightarrow> store_ok (cache_from f i ks s)
    \<and> cached g (cache_from f i ks s) j = (if j \<in> set ks \<and> g = f then int i + position j ks else cached g s j)"
proof (induction ks arbitrary: i s)
  case (Cons k ks)
  show ?case
    using Cons.IH[OF cached_cache(1)[OF Cons.prems(1)], of "i + 1" f "int i + 1" k] Cons.prems
    by (auto simp: cached_cache(2)[OF Cons.prems(1)] position_Cons)
qed simp

text \<open>A pinned list is right if it has no duplicates and the entries know their positions in it.\<close>

definition pinned_ok :: "'k pinned_state \<Rightarrow> bool" where
  "pinned_ok st \<longleftrightarrow> distinct (pl_data (fst st)) \<and> store_ok (snd st)
     \<and> (\<forall>k. cached (pl_filterId (fst st)) (snd st) k = position k (pl_data (fst st)))"

definition same_pinned :: "'k pinned_state \<Rightarrow> 'k pinned_state \<Rightarrow> bool" where
  "same_pinned st st1 \<longleftrightarrow> pl_filterId (fst st1) = pl_filterId (fst st) \<and> pl_limit (fst st1) = pl_limit (fst st)
     \<and> (\<forall>g k. g \<noteq> pl_filterId (fst st) \<longrightarrow> cached g (snd st1) k = cached g (snd st) k)"

lemma same_pinned_refl [simp]: "same_pinned st st"
  by (simp add: same_pinned_def)

lemma same_pinned_trans: "same_pinned st st1 \<Longrightarrow> same_pinned st1 st2 \<Longrightarrow> same_pinned st st2"
  by (simp add: same_pinned_def)

lemma unpin_ok:
  assumes ok: "pinned_ok (l, s)" and known: "\<forall>k. folderKnown k"
  shows "\<exists>s1. unpin folderKnown k (l, s) = Some (l\<lparr>pl_data := remove1 k (pl_data l)\<rparr>, s1)
    \<and> pinned_ok (l\<lparr>pl_data := remove1 k (pl_data l)\<rparr>, s1) \<and> same_pinned (l, s) (l\<lparr>pl_data := remove1 k (pl_data l)\<rparr>, s1)"
proof (cases "k \<in> set (pl_data l)")
  case False
  then show ?thesis using ok known
    by - (rule exI[of _ s], simp add: unpin_def find_key_out remove1_idem)
next
  case True
  let ?f = "pl_filterId l"
  obtain xs ys where x: "pl_data l = xs @ k # ys" "k \<notin> set xs" using split_list_first[OF True] by blast
  have d: "distinct (pl_data l)" "store_ok s" "\<And>j. cached ?f s j = position j (pl_data l)" using ok by (auto simp: pinned_ok_def)
  have i: "find_key k (pl_data l) = length xs" using x by (simp add: find_key_append) (simp add: find_key_def)
  have rem: "remove1 k (pl_data l) = xs @ ys" using x by (simp add: remove1_append)
  let ?s = "cache_from ?f (length xs) ys (cachePinnedIndex ?f 0 k s)"
  have u: "unpin folderKnown k (l, s) = Some (l\<lparr>pl_data := remove1 k (pl_data l)\<rparr>, ?s)"
    using known i x rem by (simp add: unpin_def Let_def)
  have dy: "distinct ys" using d(1) x(1) by simp
  have c: "store_ok ?s" "cached g ?s j = (if j \<in> set ys \<and> g = ?f then int (length xs) + position j ys
      else if j = k \<and> g = ?f then 0 else cached g s j)" for g j
    using cached_from[OF cached_cache(1)[OF d(2), of ?f 0 k] dy, of ?f "length xs" g j] cached_cache(2)[OF d(2), of g ?f 0 k j]
    by auto
  have "cached ?f ?s j = position j (xs @ ys)" for j
    using d(1) x unfolding c(2) d(3) by (auto simp: position_append position_Cons position_def[of k] position_def[of _ xs])
  then have "pinned_ok (l\<lparr>pl_data := remove1 k (pl_data l)\<rparr>, ?s)"
    using d(1) x rem c(1) by (simp add: pinned_ok_def)
  moreover have "same_pinned (l, s) (l\<lparr>pl_data := remove1 k (pl_data l)\<rparr>, ?s)"
    by (simp add: same_pinned_def c(2))
  ultimately show ?thesis using u by blast
qed

lemma apply_limit_ok:
  assumes ok: "pinned_ok (l, s)" and known: "\<forall>k. folderKnown k" and limit: "0 \<le> limit"
  shows "\<exists>s1. apply_limit_loop folderKnown limit l s = Some (l\<lparr>pl_data := take (nat limit) (pl_data l)\<rparr>, s1)
    \<and> pinned_ok (l\<lparr>pl_data := take (nat limit) (pl_data l)\<rparr>, s1)
    \<and> same_pinned (l, s) (l\<lparr>pl_data := take (nat limit) (pl_data l)\<rparr>, s1)"
  using ok
proof (induction "length (pl_data l)" arbitrary: l s rule: less_induct)
  case less
  show ?case
  proof (cases "int (length (pl_data l)) > limit")
    case False
    then have "take (nat limit) (pl_data l) = pl_data l" by simp
    then show ?thesis using False less.prems
      by - (rule exI[of _ s], simp add: apply_limit_loop.simps[of _ _ l])
  next
    case True
    then have ne: "pl_data l \<noteq> []" using limit by auto
    have d: "distinct (pl_data l)" using less.prems by (simp add: pinned_ok_def)
    have rem: "remove1 (last (pl_data l)) (pl_data l) = butlast (pl_data l)"
      using ne d by (cases "pl_data l" rule: rev_cases) (auto simp: remove1_append)
    let ?l = "l\<lparr>pl_data := butlast (pl_data l)\<rparr>"
    obtain s1 where u: "unpin folderKnown (last (pl_data l)) (l, s) = Some (?l, s1)" "pinned_ok (?l, s1)" "same_pinned (l, s) (?l, s1)"
      using unpin_ok[OF less.prems known, of "last (pl_data l)"] rem by auto
    have "length (pl_data ?l) < length (pl_data l)" using ne by simp
    from less.hyps[OF this u(2)] obtain s2 where s2:
      "apply_limit_loop folderKnown limit ?l s1 = Some (?l\<lparr>pl_data := take (nat limit) (pl_data ?l)\<rparr>, s2)"
      "pinned_ok (?l\<lparr>pl_data := take (nat limit) (pl_data ?l)\<rparr>, s2)"
      "same_pinned (?l, s1) (?l\<lparr>pl_data := take (nat limit) (pl_data ?l)\<rparr>, s2)"
      by blast
    have tk: "take (nat limit) (butlast (pl_data l)) = take (nat limit) (pl_data l)"
      using True limit by (simp add: butlast_conv_take min_def)
    have "apply_limit_loop folderKnown limit l s = apply_limit_loop folderKnown limit ?l s1"
      using True ne u(1) by (simp add: apply_limit_loop.simps[of _ _ l s])
    then show ?thesis using s2 same_pinned_trans[OF u(3)] tk by (intro exI[of _ s2]) simp
  qed
qed

lemma position_out: "k \<notin> set ks \<Longrightarrow> position k ks = 0"
  by (simp add: position_def)

text \<open>The order after \<open>addPinnedGetPosition\<close> of a key: at the end, where the limit made room for it.\<close>

definition added_last :: "'k pinned_list \<Rightarrow> 'k \<Rightarrow> 'k list" where
  "added_last l k = (if k \<in> set (pl_data l) then pl_data l else take (nat (pl_limit l - 1)) (pl_data l) @ [k])"

lemma addPinnedGetPosition_ok:
  assumes ok: "pinned_ok (l, s)" and known: "\<forall>k. folderKnown k" and limit: "0 < pl_limit l"
  shows "\<exists>s1. addPinnedGetPosition folderKnown k (l, s) = Some (find_key k (added_last l k), l\<lparr>pl_data := added_last l k\<rparr>, s1)
    \<and> pinned_ok (l\<lparr>pl_data := added_last l k\<rparr>, s1) \<and> same_pinned (l, s) (l\<lparr>pl_data := added_last l k\<rparr>, s1)"
proof (cases "k \<in> set (pl_data l)")
  case True
  then have "find_key k (pl_data l) \<noteq> length (pl_data l)" using find_key_in by (metis less_irrefl)
  then show ?thesis using True ok by - (rule exI[of _ s], simp add: addPinnedGetPosition_def added_last_def)
next
  case False
  let ?n = "nat (pl_limit l - 1)" and ?f = "pl_filterId l"
  have lim: "0 \<le> pl_limit l - 1" using limit by simp
  obtain s1 where s1: "apply_limit_loop folderKnown (pl_limit l - 1) l s = Some (l\<lparr>pl_data := take ?n (pl_data l)\<rparr>, s1)"
      "pinned_ok (l\<lparr>pl_data := take ?n (pl_data l)\<rparr>, s1)" "same_pinned (l, s) (l\<lparr>pl_data := take ?n (pl_data l)\<rparr>, s1)"
    using apply_limit_ok[OF ok known lim] by blast
  have k: "k \<notin> set (take ?n (pl_data l))" using False in_set_takeD by fast
  let ?s = "cachePinnedIndex ?f (int (length (take ?n (pl_data l))) + 1) k s1"
  have so: "store_ok s1" using s1(2) by (simp add: pinned_ok_def)
  have data: "added_last l k = take ?n (pl_data l) @ [k]" using False by (simp add: added_last_def)
  have fk: "find_key k (added_last l k) = length (take ?n (pl_data l))"
    using k unfolding data by (subst find_key_append) (simp add: find_key_def)
  have "addPinnedGetPosition folderKnown k (l, s) = Some (find_key k (added_last l k), l\<lparr>pl_data := added_last l k\<rparr>, ?s)"
    using find_key_out[OF False] lim s1(1) unfolding fk unfolding data by (simp add: addPinnedGetPosition_def applyLimit_def Let_def)
  moreover have "pinned_ok (l\<lparr>pl_data := added_last l k\<rparr>, ?s)"
    using s1(2) k unfolding data by (auto simp: pinned_ok_def cached_cache[OF so] position_append position_Cons position_out)
  moreover have "same_pinned (l, s) (l\<lparr>pl_data := added_last l k\<rparr>, ?s)"
    using s1(3) by (simp add: same_pinned_def cached_cache[OF so])
  ultimately show ?thesis by blast
qed

lemma addPinned_ok:
  assumes ok: "pinned_ok (l, s)" and known: "\<forall>k. folderKnown k" and limit: "0 < pl_limit l"
  shows "\<exists>s1. addPinned folderKnown k (l, s) = Some (l\<lparr>pl_data := added_last l k\<rparr>, s1)
    \<and> pinned_ok (l\<lparr>pl_data := added_last l k\<rparr>, s1) \<and> same_pinned (l, s) (l\<lparr>pl_data := added_last l k\<rparr>, s1)"
proof -
  have "folderKnown k" using known by blast
  then show ?thesis using addPinnedGetPosition_ok[OF assms, of k] unfolding addPinned_def by auto
qed

lemma setPinned_ok:
  assumes ok: "pinned_ok (l, s)" and known: "\<forall>k. folderKnown k" and limit: "0 < pl_limit l"
  shows "\<exists>s1. setPinned folderKnown k True (l, s) = Some (l\<lparr>pl_data := k # remove1 k (added_last l k)\<rparr>, s1)
    \<and> pinned_ok (l\<lparr>pl_data := k # remove1 k (added_last l k)\<rparr>, s1)
    \<and> same_pinned (l, s) (l\<lparr>pl_data := k # remove1 k (added_last l k)\<rparr>, s1)"
proof -
  let ?d = "added_last l k" and ?f = "pl_filterId l"
  obtain s1 where s1: "addPinnedGetPosition folderKnown k (l, s) = Some (find_key k ?d, l\<lparr>pl_data := ?d\<rparr>, s1)"
      "pinned_ok (l\<lparr>pl_data := ?d\<rparr>, s1)" "same_pinned (l, s) (l\<lparr>pl_data := ?d\<rparr>, s1)"
    using addPinnedGetPosition_ok[OF assms, of k] by blast
  have "k \<in> set ?d" by (auto simp: added_last_def)
  then obtain xs ys where x: "?d = xs @ k # ys" "k \<notin> set xs" using split_list_first by metis
  have d: "distinct ?d" "store_ok s1" "\<And>j. cached ?f s1 j = position j ?d" using s1(2) by (auto simp: pinned_ok_def)
  have i: "find_key k ?d = length xs" using x by (simp add: find_key_append) (simp add: find_key_def)
  have rem: "k # remove1 k ?d = (k # xs) @ ys" using x by (simp add: remove1_append)
  show ?thesis
  proof (cases "xs = []")
    case True
    then show ?thesis using s1 known i rem x by (intro exI[of _ s1]) (simp add: setPinned_def)
  next
    case False
    let ?s = "cache_from ?f 0 (k # xs) s1"
    have moved: "?d ! length xs # take (length xs) ?d @ drop (length xs + 1) ?d = (k # xs) @ ys" using x(1) by simp
    have "setPinned folderKnown k True (l, s) = Some (l\<lparr>pl_data := (k # xs) @ ys\<rparr>, ?s)"
      using s1(1) known False unfolding i by (simp add: setPinned_def Let_def x(1) del: cache_from.simps)
    moreover have dk: "distinct (k # xs)" using d(1) x by auto
    have c: "store_ok ?s" "cached g ?s j = (if j \<in> set (k # xs) \<and> g = ?f then position j (k # xs) else cached g s1 j)" for g j
      using cached_from[OF d(2) dk, of ?f 0 g j] by auto
    have "cached ?f ?s j = position j ((k # xs) @ ys)" for j
      unfolding c(2) d(3) x(1) using d(1) x
      by (auto simp: position_append position_Cons position_def[of _ xs])
    then have "pinned_ok (l\<lparr>pl_data := (k # xs) @ ys\<rparr>, ?s)" using d(1) x c(1) by (auto simp: pinned_ok_def)
    moreover have "same_pinned (l, s) (l\<lparr>pl_data := (k # xs) @ ys\<rparr>, ?s)"
      using s1(3) by (simp add: same_pinned_def c(2) del: cache_from.simps)
    ultimately show ?thesis unfolding rem by blast
  qed
qed

lemma reorder_ok:
  assumes ok: "pinned_ok (l, s)"
  shows "reorder key1 key2 (l, s) = None \<longleftrightarrow> \<not> (key1 \<in> set (pl_data l) \<and> key2 \<in> set (pl_data l) \<and> key1 \<noteq> key2)"
    and "reorder key1 key2 (l, s) = Some st1 \<Longrightarrow> pinned_ok st1 \<and> same_pinned (l, s) st1
      \<and> pl_data (fst st1) = (pl_data l)[find_key key1 (pl_data l) := key2, find_key key2 (pl_data l) := key1]"
proof -
  let ?d = "pl_data l" and ?f = "pl_filterId l" and ?i1 = "find_key key1 (pl_data l)" and ?i2 = "find_key key2 (pl_data l)"
  have d: "distinct ?d" "store_ok s" "\<And>j. cached ?f s j = position j ?d" using ok by (auto simp: pinned_ok_def)
  have in_iff: "find_key k ?d < length ?d \<longleftrightarrow> k \<in> set ?d" for k using find_key_in find_key_out by (metis less_irrefl)
  have same_iff: "?i1 = ?i2 \<longleftrightarrow> key1 = key2" if "key1 \<in> set ?d" "key2 \<in> set ?d"
    using find_key_in[OF that(1)] find_key_in[OF that(2)] by metis
  show "reorder key1 key2 (l, s) = None \<longleftrightarrow> \<not> (key1 \<in> set ?d \<and> key2 \<in> set ?d \<and> key1 \<noteq> key2)"
    using same_iff by (auto simp: reorder_def Let_def in_iff)
  assume res: "reorder key1 key2 (l, s) = Some st1"
  then have k: "key1 \<in> set ?d" "key2 \<in> set ?d" "key1 \<noteq> key2"
    using same_iff by (auto simp: reorder_def Let_def in_iff split: if_splits)
  have f: "?i1 < length ?d" "?d ! ?i1 = key1" "?i2 < length ?d" "?d ! ?i2 = key2" "?i1 \<noteq> ?i2"
    using find_key_in[OF k(1)] find_key_in[OF k(2)] same_iff k by auto
  let ?d1 = "?d[?i1 := key2, ?i2 := key1]"
  have st1: "st1 = (l\<lparr>pl_data := ?d1\<rparr>, cachePinnedIndex ?f (int ?i1 + 1) key2 (cachePinnedIndex ?f (int ?i2 + 1) key1 s))"
    using res f by (auto simp: reorder_def Let_def)
  have dist: "distinct ?d1" using distinct_swap[OF f(1,3)] d(1) f(2,4) by simp
  have set1: "set ?d1 = set ?d" using set_swap[OF f(1,3)] f(2,4) by simp
  have at: "find_key (ks ! j) ks = j" if "distinct ks" "j < length ks" for ks :: "'a list" and j
    using find_key_in[of "ks ! j" ks] that nth_eq_iff_index_eq by fastforce
  have pos: "position j ?d1 = (if j = key1 then int ?i2 + 1 else if j = key2 then int ?i1 + 1 else position j ?d)" for j
  proof (cases "j \<in> set ?d")
    case True
    then obtain i where i: "i < length ?d" "j = ?d ! i" by (auto simp: in_set_conv_nth)
    have p: "position j ?d = int i + 1" using True at[OF d(1) i(1)] i(2) by (simp add: position_def)
    consider "i = ?i1" | "i = ?i2" | "i \<noteq> ?i1" "i \<noteq> ?i2" by blast
    then show ?thesis
    proof cases
      case 1
      then have "j = key1" using i f by simp
      moreover have "find_key key1 ?d1 = ?i2" using at[OF dist, of ?i2] f by simp
      ultimately show ?thesis using set1 k by (simp add: position_def)
    next
      case 2
      then have "j = key2" using i f by simp
      moreover have "find_key key2 ?d1 = ?i1" using at[OF dist, of ?i1] f by simp
      ultimately show ?thesis using set1 k by (simp add: position_def)
    next
      case 3
      then have "?d1 ! i = j" using i by simp
      then have "find_key j ?d1 = i" using at[OF dist, of i] i by simp
      moreover have "j \<noteq> key1" "j \<noteq> key2" using 3 i f d(1) nth_eq_iff_index_eq by metis+
      ultimately show ?thesis using set1 True p by (simp add: position_def)
    qed
  next
    case False
    then show ?thesis using set1 k by (auto simp: position_def)
  qed
  have so: "store_ok (cachePinnedIndex ?f (int ?i2 + 1) key1 s)" by (rule cached_cache(1)[OF d(2)])
  show "pinned_ok st1 \<and> same_pinned (l, s) st1 \<and> pl_data (fst st1) = ?d1"
    using dist pos k(3) d(3) by (auto simp: st1 pinned_ok_def same_pinned_def cached_cache[OF so] cached_cache[OF d(2)])
qed

lemma applyList_histories_ok:
  assumes ok: "pinned_ok (l, s)" and ks: "distinct ks" and f: "pl_filterId l \<noteq> 0"
  shows "\<exists>s1. applyList_histories ks (l, s) = Some (l\<lparr>pl_data := ks\<rparr>, s1) \<and> pinned_ok (l\<lparr>pl_data := ks\<rparr>, s1)
    \<and> same_pinned (l, s) (l\<lparr>pl_data := ks\<rparr>, s1)"
proof -
  let ?f = "pl_filterId l"
  have d: "store_ok s" "\<And>j. cached ?f s j = position j (pl_data l)" using ok by (auto simp: pinned_ok_def)
  let ?clear = "\<lambda>k. if k \<in> set ks then (\<lambda>s. s) else cachePinnedIndex ?f 0 k"
  have cl: "store_ok (fold ?clear old t) \<and> cached g (fold ?clear old t) j
      = (if j \<in> set old \<and> j \<notin> set ks \<and> g = ?f then 0 else cached g t j)" if "store_ok t" for old t g j
    using that
  proof (induction old arbitrary: t)
    case (Cons a old)
    have "store_ok (?clear a t)" using cached_cache(1)[OF Cons.prems] Cons.prems by simp
    then show ?case using Cons.IH[of "?clear a t"] cached_cache(2)[OF Cons.prems, of g ?f 0 a j] by auto
  qed simp
  let ?t = "cache_from ?f 0 ks s" and ?s = "fold ?clear (pl_data l) (cache_from ?f 0 ks s)"
  have t: "store_ok ?t" "cached g ?t j = (if j \<in> set ks \<and> g = ?f then position j ks else cached g s j)" for g j
    using cached_from[OF d(1) ks, of ?f 0 g j] by auto
  have c: "store_ok ?s" "cached g ?s j = (if j \<in> set (pl_data l) \<and> j \<notin> set ks \<and> g = ?f then 0 else cached g ?t j)" for g j
    using cl[OF t(1)] by auto
  have "cached ?f ?s j = position j ks" for j
    unfolding c(2) t(2) d(2) by (auto simp: position_def)
  then have "pinned_ok (l\<lparr>pl_data := ks\<rparr>, ?s)" using ks c(1) by (simp add: pinned_ok_def)
  moreover have "same_pinned (l, s) (l\<lparr>pl_data := ks\<rparr>, ?s)" by (simp add: same_pinned_def c(2) t(2))
  ultimately show ?thesis using f by (intro exI[of _ ?s]) (simp add: applyList_histories_def)
qed

subsection \<open>The list as a list of keys\<close>

datatype 'k pinned_call =
    CallSetLimit int
  | CallAddPinned 'k
  | CallSetPinned 'k bool
  | CallClear
  | CallReorder 'k 'k
  | CallApplyKeys "'k list"
  | CallApplyHistories "'k list"

fun pinned_step :: "('k \<Rightarrow> bool) \<Rightarrow> 'k pinned_call \<Rightarrow> 'k pinned_state \<Rightarrow> 'k pinned_state option" where
  "pinned_step known (CallSetLimit n) st = setLimit known n st"
| "pinned_step known (CallAddPinned k) st = addPinned known k st"
| "pinned_step known (CallSetPinned k b) st = setPinned known k b st"
| "pinned_step known CallClear st = pinned_clear known st"
| "pinned_step known (CallReorder k1 k2) st = reorder k1 k2 st"
| "pinned_step known (CallApplyKeys ks) st = apply_keys known (map Some ks) st"
| "pinned_step known (CallApplyHistories ks) st = applyList_histories ks st"

fun pinned_run :: "('k \<Rightarrow> bool) \<Rightarrow> 'k pinned_call list \<Rightarrow> 'k pinned_state \<Rightarrow> 'k pinned_state option" where
  "pinned_run known [] st = Some st"
| "pinned_run known (c # cs) st = Option.bind (pinned_step known c st) (pinned_run known cs)"

text \<open>What the calls mean for the limit and the keys in their order.\<close>

definition add_key :: "int \<Rightarrow> 'k list \<Rightarrow> 'k \<Rightarrow> 'k list" where
  "add_key limit ks k = (if k \<in> set ks then ks else take (nat (limit - 1)) ks @ [k])"

fun key_step :: "int \<Rightarrow> 'k pinned_call \<Rightarrow> int \<times> 'k list \<Rightarrow> (int \<times> 'k list) option" where
  "key_step f (CallSetLimit n) (limit, ks) = (if n > 0 then Some (n, if n = limit then ks else take (nat n) ks) else None)"
| "key_step f (CallAddPinned k) (limit, ks) = Some (limit, add_key limit ks k)"
| "key_step f (CallSetPinned k b) (limit, ks) = Some (limit, if b then k # remove1 k (add_key limit ks k) else remove1 k ks)"
| "key_step f CallClear (limit, ks) = Some (limit, [])"
| "key_step f (CallReorder k1 k2) (limit, ks) =
     (if k1 \<in> set ks \<and> k2 \<in> set ks \<and> k1 \<noteq> k2
      then Some (limit, map (\<lambda>k. if k = k1 then k2 else if k = k2 then k1 else k) ks) else None)"
| "key_step f (CallApplyKeys new) (limit, ks) = Some (limit, foldl (add_key limit) [] new)"
| "key_step f (CallApplyHistories new) (limit, ks) = (if f \<noteq> 0 then Some (limit, new) else None)"

fun key_run :: "int \<Rightarrow> 'k pinned_call list \<Rightarrow> int \<times> 'k list \<Rightarrow> (int \<times> 'k list) option" where
  "key_run f [] s = Some s"
| "key_run f (c # cs) s = Option.bind (key_step f c s) (key_run f cs)"

definition keys_of :: "'k pinned_state \<Rightarrow> int \<times> 'k list" where
  "keys_of st = (pl_limit (fst st), pl_data (fst st))"

definition pinned_inv :: "int \<Rightarrow> 'k pinned_state \<Rightarrow> bool" where
  "pinned_inv f st \<longleftrightarrow> pinned_ok st \<and> 0 < pl_limit (fst st) \<and> pl_filterId (fst st) = f"

lemma added_last_eq: "added_last l k = add_key (pl_limit l) (pl_data l) k"
  by (simp add: added_last_def add_key_def)

lemma add_all_ok:
  assumes "\<forall>k. known k"
  shows "pinned_inv f st \<Longrightarrow> \<exists>st1. add_all known (map Some ks) st = Some st1 \<and> pinned_inv f st1
    \<and> keys_of st1 = (fst (keys_of st), foldl (add_key (fst (keys_of st))) (snd (keys_of st)) ks)"
proof (induction ks arbitrary: st)
  case (Cons k ks)
  obtain l s where st: "st = (l, s)" by (cases st)
  have ok: "pinned_ok (l, s)" "0 < pl_limit l" "pl_filterId l = f" using Cons.prems by (auto simp: pinned_inv_def st)
  obtain s1 where s1: "addPinned known k (l, s) = Some (l\<lparr>pl_data := added_last l k\<rparr>, s1)"
      "pinned_ok (l\<lparr>pl_data := added_last l k\<rparr>, s1)"
    using addPinned_ok[OF ok(1) assms ok(2), of k] by blast
  have inv: "pinned_inv f (l\<lparr>pl_data := added_last l k\<rparr>, s1)" using s1(2) ok by (simp add: pinned_inv_def)
  obtain st1 where "add_all known (map Some ks) (l\<lparr>pl_data := added_last l k\<rparr>, s1) = Some st1" "pinned_inv f st1"
      "keys_of st1 = (pl_limit l, foldl (add_key (pl_limit l)) (added_last l k) ks)"
    using Cons.IH[OF inv] by (auto simp: keys_of_def)
  then show ?case using s1(1) by (simp add: st keys_of_def added_last_eq)
qed (simp add: keys_of_def)

lemma swap_map:
  assumes "distinct ks" and "k1 \<in> set ks" and "k2 \<in> set ks" and "k1 \<noteq> k2"
  shows "ks[find_key k1 ks := k2, find_key k2 ks := k1] = map (\<lambda>k. if k = k1 then k2 else if k = k2 then k1 else k) ks"
proof (rule nth_equalityI)
  fix i assume "i < length (ks[find_key k1 ks := k2, find_key k2 ks := k1])"
  then have i: "i < length ks" by simp
  have "i = find_key k ks \<longleftrightarrow> ks ! i = k" if "k \<in> set ks" for k
    using find_key_in[OF that] nth_eq_iff_index_eq[OF assms(1) i] by metis
  note f = this[OF assms(2)] this[OF assms(3)]
  show "ks[find_key k1 ks := k2, find_key k2 ks := k1] ! i = map (\<lambda>k. if k = k1 then k2 else if k = k2 then k1 else k) ks ! i"
    using i f assms(4) by (auto simp: nth_list_update)
qed simp

lemma pinned_step_ok:
  assumes inv: "pinned_inv f st" and known: "\<forall>k. known k" and dist: "\<And>ks. c = CallApplyHistories ks \<Longrightarrow> distinct ks"
  shows "map_option keys_of (pinned_step known c st) = key_step f c (keys_of st)"
    and "pinned_step known c st = Some st1 \<Longrightarrow> pinned_inv f st1"
proof -
  obtain l s where st: "st = (l, s)" by (cases st)
  have ok: "pinned_ok (l, s)" "0 < pl_limit l" "pl_filterId l = f" using inv by (auto simp: pinned_inv_def st)
  have "map_option keys_of (pinned_step known c st) = key_step f c (keys_of st)
    \<and> (\<forall>st1. pinned_step known c st = Some st1 \<longrightarrow> pinned_inv f st1)"
  proof (cases c)
    case (CallSetLimit n)
    show ?thesis
    proof (cases "0 < n \<and> n \<noteq> pl_limit l")
      case False
      then show ?thesis using inv by (auto simp: CallSetLimit st setLimit_def keys_of_def)
    next
      case True
      have ok1: "pinned_ok (l\<lparr>pl_limit := n\<rparr>, s)" using ok(1) by (simp add: pinned_ok_def)
      obtain s1 where s1: "apply_limit_loop known n (l\<lparr>pl_limit := n\<rparr>) s = Some (l\<lparr>pl_limit := n, pl_data := take (nat n) (pl_data l)\<rparr>, s1)"
          "pinned_ok (l\<lparr>pl_limit := n, pl_data := take (nat n) (pl_data l)\<rparr>, s1)"
        using apply_limit_ok[OF ok1 known, of n] True by auto
      then show ?thesis using True ok(3) by (auto simp: CallSetLimit st setLimit_def applyLimit_def keys_of_def pinned_inv_def)
    qed
  next
    case (CallAddPinned k)
    obtain s1 where "addPinned known k (l, s) = Some (l\<lparr>pl_data := added_last l k\<rparr>, s1)"
        "pinned_ok (l\<lparr>pl_data := added_last l k\<rparr>, s1)"
      using addPinned_ok[OF ok(1) known ok(2), of k] by blast
    then show ?thesis using ok by (auto simp: CallAddPinned st keys_of_def pinned_inv_def added_last_eq)
  next
    case (CallSetPinned k b)
    show ?thesis
    proof (cases b)
      case True
      obtain s1 where "setPinned known k True (l, s) = Some (l\<lparr>pl_data := k # remove1 k (added_last l k)\<rparr>, s1)"
          "pinned_ok (l\<lparr>pl_data := k # remove1 k (added_last l k)\<rparr>, s1)"
        using setPinned_ok[OF ok(1) known ok(2), of k] by blast
      then show ?thesis using True ok by (auto simp: CallSetPinned st keys_of_def pinned_inv_def added_last_eq)
    next
      case False
      have kn: "known k" using known by blast
      obtain s1 where "unpin known k (l, s) = Some (l\<lparr>pl_data := remove1 k (pl_data l)\<rparr>, s1)"
          "pinned_ok (l\<lparr>pl_data := remove1 k (pl_data l)\<rparr>, s1)"
        using unpin_ok[OF ok(1) known, of k] by blast
      then show ?thesis using False ok kn by (auto simp: CallSetPinned st keys_of_def pinned_inv_def setPinned_def)
    qed
  next
    case CallClear
    then show ?thesis using apply_limit_ok[OF ok(1) known, of 0] ok
      by (auto simp: st pinned_clear_def applyLimit_def keys_of_def pinned_inv_def)
  next
    case (CallReorder k1 k2)
    have d: "distinct (pl_data l)" using ok(1) by (simp add: pinned_ok_def)
    show ?thesis
    proof (cases "k1 \<in> set (pl_data l) \<and> k2 \<in> set (pl_data l) \<and> k1 \<noteq> k2")
      case False
      then have "reorder k1 k2 (l, s) = None" using reorder_ok(1)[OF ok(1), of k1 k2] by auto
      then show ?thesis using False by (auto simp: CallReorder st keys_of_def)
    next
      case True
      then obtain st1 where st1: "reorder k1 k2 (l, s) = Some st1" using reorder_ok(1)[OF ok(1), of k1 k2] by auto
      have "pinned_ok st1" "same_pinned (l, s) st1"
          "pl_data (fst st1) = map (\<lambda>k. if k = k1 then k2 else if k = k2 then k1 else k) (pl_data l)"
        using reorder_ok(2)[OF ok(1) st1] swap_map[OF d] True by auto
      then show ?thesis using st1 True ok by (simp add: CallReorder st keys_of_def pinned_inv_def same_pinned_def)
    qed
  next
    case (CallApplyKeys ks)
    obtain s1 where s1: "apply_limit_loop known 0 l s = Some (l\<lparr>pl_data := []\<rparr>, s1)" "pinned_ok (l\<lparr>pl_data := []\<rparr>, s1)"
      using apply_limit_ok[OF ok(1) known, of 0] by auto
    have "pinned_inv f (l\<lparr>pl_data := []\<rparr>, s1)" using s1(2) ok by (simp add: pinned_inv_def)
    then show ?thesis using add_all_ok[OF known, of f "(l\<lparr>pl_data := []\<rparr>, s1)" ks] s1(1)
      by (auto simp: CallApplyKeys st apply_keys_def pinned_clear_def applyLimit_def keys_of_def)
  next
    case (CallApplyHistories ks)
    show ?thesis
    proof (cases "f = 0")
      case True
      then show ?thesis using ok(3) by (simp add: CallApplyHistories st applyList_histories_def keys_of_def)
    next
      case False
      then show ?thesis using applyList_histories_ok[OF ok(1) dist[OF CallApplyHistories]] ok
        by (auto simp: CallApplyHistories st keys_of_def pinned_inv_def)
    qed
  qed
  then show "map_option keys_of (pinned_step known c st) = key_step f c (keys_of st)"
    and "pinned_step known c st = Some st1 \<Longrightarrow> pinned_inv f st1" by blast+
qed

lemma pinned_run_ok:
  assumes known: "\<forall>k. known k"
  shows "pinned_inv f st \<Longrightarrow> (\<forall>ks. CallApplyHistories ks \<in> set cs \<longrightarrow> distinct ks) \<Longrightarrow>
    map_option keys_of (pinned_run known cs st) = key_run f cs (keys_of st)
    \<and> (\<forall>st1. pinned_run known cs st = Some st1 \<longrightarrow> pinned_inv f st1)"
proof (induction cs arbitrary: st)
  case (Cons c cs)
  have step: "map_option keys_of (pinned_step known c st) = key_step f c (keys_of st)"
      "pinned_step known c st = Some st1 \<Longrightarrow> pinned_inv f st1" for st1
    using pinned_step_ok[OF Cons.prems(1) known, of c] Cons.prems(2) by auto
  show ?case
  proof (cases "pinned_step known c st")
    case None
    then have "key_step f c (keys_of st) = None" using step(1) by simp
    then show ?thesis using None by simp
  next
    case (Some st1)
    then have "key_step f c (keys_of st) = Some (keys_of st1)" using step(1) by simp
    then show ?thesis using Cons.IH[OF step(2)[OF Some]] Cons.prems(2) Some by simp
  qed
qed simp

subsection \<open>Pinned chats in the list of chats\<close>

lemma uint_pinned_pos:
  assumes "0 < i" and "i < 2 ^ 31"
  shows "uint (PinnedDialogPos i) = 0xFFFFFFFF000000FF - i"
proof -
  have eq: "PinnedDialogPos i = of_int (0xFFFFFFFF000000FF - i)" by (simp add: PinnedDialogPos_def)
  have "uint (PinnedDialogPos i) = take_bit 64 (0xFFFFFFFF000000FF - i)" unfolding eq unsigned_of_int by simp
  then show ?thesis using assms by (simp add: take_bit_int_eq_self)
qed

lemma lookupPinnedIndex_cached:
  assumes "fm_sorted (ps_index s k)" and "\<forall>g. fm_lookup (ps_index s k) g \<noteq> None \<longrightarrow> 0 \<le> g"
  shows "lookupPinnedIndex f (ps_index s k) = cached f s k"
proof (cases "f = 0 \<and> ps_index s k \<noteq> []")
  case False
  then show ?thesis by (auto simp: lookupPinnedIndex_def cached_def)
next
  case True
  then obtain g x m where m: "ps_index s k = (g, x) # m" by (metis list.exhaust surj_pair)
  have "0 \<le> g" using assms(2) m by (auto simp: fm_lookup_def)
  moreover have "\<forall>j \<in> fst ` set m. g < j" using assms(1) m by auto
  ultimately have "fm_lookup m 0 = None" by (auto simp: fm_lookup_None)
  then show ?thesis using True m by (auto simp: lookupPinnedIndex_def cached_def fm_lookup_def)
qed

lemma sorted_two_parts:
  "sorted_wrt R xs \<Longrightarrow> (\<And>a b. a \<in> set xs \<Longrightarrow> b \<in> set xs \<Longrightarrow> \<not> P a \<Longrightarrow> P b \<Longrightarrow> \<not> R a b)
    \<Longrightarrow> xs = filter P xs @ filter (\<lambda>x. \<not> P x) xs"
proof (induction xs)
  case (Cons x xs)
  show ?case
  proof (cases "P x")
    case True
    then show ?thesis using Cons by auto
  next
    case False
    have "\<forall>b \<in> set xs. \<not> P b" using Cons.prems False by auto
    then show ?thesis using False by (simp add: filter_True filter_empty_conv)
  qed
qed simp

lemma position_nth: "distinct ks \<Longrightarrow> j < length ks \<Longrightarrow> position (ks ! j) ks = int j + 1"
  using find_key_in[of "ks ! j" ks] nth_eq_iff_index_eq by (fastforce simp: position_def)

lemma positions: "distinct ks \<Longrightarrow> sorted_wrt (\<lambda>a b. position a ks < position b ks) ks"
  by (auto simp: sorted_wrt_iff_nth_less position_nth)

lemma position_range: "k \<in> set ks \<Longrightarrow> 0 < position k ks \<and> position k ks \<le> int (length ks)"
  using find_key_in[of k ks] by (auto simp: position_def)

lemma position_inj: "a \<in> set ks \<Longrightarrow> b \<in> set ks \<Longrightarrow> position a ks = position b ks \<Longrightarrow> a = b"
  using find_key_in[of a ks] find_key_in[of b ks] unfolding position_def by (metis add_right_imp_eq of_nat_eq_iff)

lemma pinned_rows:
  assumes rows: "distinct rows" "sorted_wrt (\<lambda>a b. key b \<le> key a) rows" and ks: "distinct ks" "length ks < 2 ^ 31"
    and key: "\<And>k. k \<in> set rows \<Longrightarrow> key k = (if k \<in> set ks then PinnedDialogPos (position k ks) else byDate k)"
    and date: "\<And>k. k \<in> set rows \<Longrightarrow> byDate k < 2 ^ 63"
  shows "rows = filter (\<lambda>k. k \<in> set rows) ks @ filter (\<lambda>k. k \<notin> set ks) rows"
proof -
  have pos: "uint (PinnedDialogPos (position k ks)) = 0xFFFFFFFF000000FF - position k ks" if "k \<in> set ks" for k
    using uint_pinned_pos position_range[OF that] ks(2) by (simp add: order.strict_trans1)
  have above: "\<not> key b \<le> key a" if "a \<in> set rows" "a \<notin> set ks" "b \<in> set ks" "b \<in> set rows" for a b
  proof -
    have "uint (key a) < 2 ^ 63" using date[OF that(1)] key[OF that(1)] that(2) by (simp add: word_less_def)
    moreover have "2 ^ 63 \<le> uint (key b)" using pos[OF that(3)] key[OF that(4)] that(3) position_range[OF that(3)] ks(2) by simp
    ultimately show ?thesis by (simp add: word_le_def)
  qed
  have split: "rows = filter (\<lambda>k. k \<in> set ks) rows @ filter (\<lambda>k. k \<notin> set ks) rows"
    by (rule sorted_two_parts[OF rows(2)]) (use above in blast)
  have le: "position a ks \<le> position b ks" if "key b \<le> key a" "a \<in> set ks" "b \<in> set ks" "a \<in> set rows" "b \<in> set rows" for a b
    using that pos[OF that(2)] pos[OF that(3)] key[OF that(4)] key[OF that(5)] by (simp add: word_le_def)
  let ?pinned = "filter (\<lambda>k. k \<in> set ks) rows" and ?shown = "filter (\<lambda>k. k \<in> set rows) ks"
  have "sorted (map (\<lambda>k. position k ks) ?pinned)"
    unfolding sorted_map by (rule sorted_wrt_mono_rel[OF _ sorted_wrt_filter[OF rows(2)]]) (use le in auto)
  moreover have "sorted (map (\<lambda>k. position k ks) ?shown)"
    unfolding sorted_map by (rule sorted_wrt_mono_rel[OF _ sorted_wrt_filter[OF positions[OF ks(1)]]]) auto
  moreover have inj: "inj_on (\<lambda>k. position k ks) (set ks)" using position_inj by (auto simp: inj_on_def)
  moreover have "distinct (map (\<lambda>k. position k ks) ?pinned)" "distinct (map (\<lambda>k. position k ks) ?shown)"
    using rows(1) ks(1) by (auto simp: distinct_map intro: inj_on_subset[OF inj])
  moreover have "set (map (\<lambda>k. position k ks) ?pinned) = set (map (\<lambda>k. position k ks) ?shown)" by auto
  ultimately have "map (\<lambda>k. position k ks) ?pinned = map (\<lambda>k. position k ks) ?shown"
    using sorted_distinct_set_unique by blast
  then have "?pinned = ?shown" by (rule map_inj_on) (auto intro: inj_on_subset[OF inj])
  then show ?thesis using split by simp
qed

text \<open>The keys by date, and those of the entries fixed above the pinned ones in the list of all chats.\<close>

lemma uint_small: "0 \<le> x \<Longrightarrow> x < 2 ^ 64 \<Longrightarrow> uint (word_of_int x :: 64 word) = x"
  by (simp add: uint_word_of_int_eq take_bit_int_eq_self)

lemma uint_date_pos:
  assumes "0 \<le> date" "date < 2 ^ 31" "0 \<le> shift" "shift < 2 ^ 31 - 1"
  shows "uint (fst (DialogPosFromDate date shift)) = (if date = 0 then 0 else date * 2 ^ 32 + (shift + 1))"
proof -
  have "push_bit 32 date + (shift + 1) = push_bit 32 date OR (shift + 1)"
  proof (rule disjunctive_add)
    fix n
    have "take_bit 32 (shift + 1) = shift + 1" using assms(3,4) by (intro take_bit_int_eq_self) auto
    then have "\<not> bit (shift + 1) n" if "32 \<le> n" using that by (metis bit_take_bit_iff not_less)
    then show "\<not> bit (push_bit 32 date) n \<or> \<not> bit (shift + 1) n" by (auto simp: bit_push_bit_iff)
  qed
  moreover have "uint (push_bit 32 (word_of_int date :: 64 word) OR word_of_int (shift + 1)) = push_bit 32 date OR (shift + 1)"
  proof -
    have "uint (word_of_int (push_bit 32 date) :: 64 word) = push_bit 32 date" "uint (word_of_int (shift + 1) :: 64 word) = shift + 1"
      by (rule uint_small; use assms in \<open>simp add: push_bit_eq_mult\<close>)+
    moreover have "push_bit 32 (word_of_int date :: 64 word) = word_of_int (push_bit 32 date)"
      by (simp add: push_bit_eq_mult)
    ultimately show ?thesis by (simp only: uint_or)
  qed
  ultimately show ?thesis by (simp add: DialogPosFromDate_def push_bit_eq_mult del: of_int_add)
qed

lemma uint_fixed_pos:
  assumes "0 \<le> i" "i \<le> 2"
  shows "uint (FixedOnTopDialogPos i) = 0xFFFFFFFFFFFF000F - i"
proof -
  have "FixedOnTopDialogPos i = of_int (0xFFFFFFFFFFFF000F - i)" by (simp add: FixedOnTopDialogPos_def)
  then show ?thesis using uint_small[of "0xFFFFFFFFFFFF000F - i"] assms by simp
qed

lemma store_ok_empty: "store_ok \<lparr>ps_index = (\<lambda>_. []), ps_changed = []\<rparr>"
  by (simp add: store_ok_def)

lemma pinned_inv_new:
  assumes "store_ok s" and "\<forall>k. cached f s k = 0" and "new_pinned_list f limit = Some l0"
  shows "pinned_inv f (l0, s) \<and> keys_of (l0, s) = (limit, [])"
  using assms by (auto simp: new_pinned_list_def pinned_inv_def pinned_ok_def position_def keys_of_def split: if_splits)

subsection \<open>Properties\<close>

text \<open>
  C26: The pinned list does with its keys what the calls mean for a plain list, in particular: a new key
  goes to the front (or, with \<open>addPinned\<close>, to the end), those beyond the limit are dropped from the end
  to make room, and only exchanging keys that are not two pinned ones (or a limit that is not
  positive, or histories for the list without filter) fails an assertion. After all calls there
  are no duplicates and every entry has cached its position in the list counted from one, or zero if it
  is not pinned.
\<close>

theorem pinned_list_refined:
  assumes "\<forall>k. folderKnown k" and "store_ok s" and "\<forall>k. cached f s k = 0" and "new_pinned_list f limit = Some l0"
    and "\<forall>ks. CallApplyHistories ks \<in> set calls \<longrightarrow> distinct ks"
  shows "case pinned_run folderKnown calls (l0, s) of
      None \<Rightarrow> key_run f calls (limit, []) = None
    | Some (l, s1) \<Rightarrow> key_run f calls (limit, []) = Some (pl_limit l, pl_data l) \<and> distinct (pl_data l)
        \<and> (\<forall>k. cached f s1 k = position k (pl_data l))"
proof -
  note new = pinned_inv_new[OF assms(2,3,4)]
  have run: "map_option keys_of (pinned_run folderKnown calls (l0, s)) = key_run f calls (limit, [])"
      "\<And>st1. pinned_run folderKnown calls (l0, s) = Some st1 \<Longrightarrow> pinned_inv f st1"
    using pinned_run_ok[OF assms(1) conjunct1[OF new] assms(5)] new by auto
  show ?thesis
  proof (cases "pinned_run folderKnown calls (l0, s)")
    case None
    then show ?thesis using run(1) by simp
  next
    case (Some st1)
    obtain l s1 where st1: "st1 = (l, s1)" by (cases st1)
    have "pinned_inv f (l, s1)" using run(2)[OF Some] by (simp add: st1)
    moreover have "key_run f calls (limit, []) = Some (keys_of (l, s1))" using run(1) Some st1 by simp
    ultimately show ?thesis using Some by (auto simp: st1 pinned_inv_def pinned_ok_def keys_of_def)
  qed
qed

theorem pinned_list_refined_witness:
  "\<exists>l s1. pinned_run (\<lambda>_. True) [CallApplyKeys [1, 2, 3, 4], CallSetPinned 3 True, CallReorder 3 2]
      (\<lparr>pl_filterId = 0, pl_limit = 3, pl_data = []\<rparr>, \<lparr>ps_index = (\<lambda>_. []), ps_changed = []\<rparr>) = Some (l, s1)
    \<and> pl_data l = [2, 1, 3 :: nat] \<and> cached 0 s1 3 = 3 \<and> cached 0 s1 4 = 0"
proof -
  let ?calls = "[CallApplyKeys [1, 2, 3, 4], CallSetPinned 3 True, CallReorder 3 2] :: nat pinned_call list"
  let ?l0 = "\<lparr>pl_filterId = 0, pl_limit = 3, pl_data = []\<rparr> :: nat pinned_list"
  let ?s = "\<lparr>ps_index = (\<lambda>_. []), ps_changed = []\<rparr> :: nat pinned_store"
  have "case pinned_run (\<lambda>_. True) ?calls (?l0, ?s) of
      None \<Rightarrow> key_run 0 ?calls (3, []) = None
    | Some (l, s1) \<Rightarrow> key_run 0 ?calls (3, []) = Some (pl_limit l, pl_data l) \<and> distinct (pl_data l)
        \<and> (\<forall>k. cached 0 s1 k = position k (pl_data l))"
    by (rule pinned_list_refined) (simp_all add: store_ok_empty cached_def new_pinned_list_def)
  moreover have "key_run 0 ?calls (3, []) = Some (3, [2, 1, 3])" by code_simp
  ultimately obtain l s1 where r: "pinned_run (\<lambda>_. True) ?calls (?l0, ?s) = Some (l, s1)" "pl_data l = [2, 1, 3]"
      "\<forall>k. cached 0 s1 k = position k (pl_data l)"
    by (auto simp del: pinned_run.simps key_run.simps split: option.splits prod.splits)
  show ?thesis
    by (rule exI[of _ l], rule exI[of _ s1]) (use r in \<open>simp add: position_def find_key_def del: pinned_run.simps\<close>)
qed

text \<open>
  C13: The order of a list of chats. When the keys of its entries are those that \<open>updateChatListSortPosition\<close> gives
  them for their cached indices, the list shows, from the top: if it is the list of all chats, the archive and then a
  promoted chat; the other chats it contains that are pinned in it, in the order of the pinned list; and the rest by
  date, the newest first, of the same date the one whose key was computed last. (Dates and the number of keys given
  out have 31 bits; 0 is no date.)
\<close>

theorem pinned_chats_on_top:
  assumes "\<forall>k. folderKnown k" and "new_pinned_list f limit = Some l0"
    and "pinned_run folderKnown pinned_calls (l0, \<lparr>ps_index = (\<lambda>_. []), ps_changed = []\<rparr>) = Some (p, s)"
    and "\<forall>ks. CallApplyHistories ks \<in> set pinned_calls \<longrightarrow> distinct ks" and "length (pl_data p) < 2 ^ 31"
    and "\<forall>k g. fm_lookup (ps_index s k) g \<noteq> None \<longrightarrow> 0 \<le> g"
    and "entries_ok en" and "list_run calls (en, new_dlist SortDate f) = Some (en1, l)"
    and "\<forall>k \<in> set (dl_rows l). en_sortKey en1 f k = entry_key f (fixed k) (date k) (shift k) (ps_index s k)"
    and "\<forall>k \<in> set (dl_rows l). 0 \<le> fixed k \<and> fixed k \<le> 2 \<and> 0 \<le> date k \<and> date k < 2 ^ 31 \<and> 0 \<le> shift k \<and> shift k < 2 ^ 31 - 1"
  shows "let onTop = (\<lambda>k. f = 0 \<and> fixed k \<noteq> 0); rows = dl_rows l; top = filter onTop rows;
      rest = filter (\<lambda>k. \<not> onTop k \<and> k \<notin> set (pl_data p)) rows
    in rows = top @ filter (\<lambda>k. \<not> onTop k \<and> k \<in> set rows) (pl_data p) @ rest
      \<and> sorted_wrt (\<lambda>a b. fixed a \<le> fixed b) top
      \<and> sorted_wrt (\<lambda>a b. date b < date a \<or> date b = date a \<and> (date a = 0 \<or> shift b \<le> shift a)) rest"
proof -
  have "pinned_inv f (l0, \<lparr>ps_index = (\<lambda>_. []), ps_changed = []\<rparr>)"
    using pinned_inv_new[OF store_ok_empty _ assms(2)] by (simp add: cached_def)
  then have inv: "pinned_inv f (p, s)" using pinned_run_ok[OF assms(1) _ assms(4)] assms(3) by blast
  then have p: "distinct (pl_data p)" "\<And>k. cached f s k = position k (pl_data p)" "\<And>k. fm_sorted (ps_index s k)"
    by (auto simp: pinned_inv_def pinned_ok_def store_ok_def)
  let ?top = "\<lambda>k. f = 0 \<and> fixed k \<noteq> 0" let ?rows = "dl_rows l"
  define byDate where "byDate = (\<lambda>k. fst (DialogPosFromDate (date k) (shift k)))"
  have low: "uint (byDate k) = (if date k = 0 then 0 else date k * 2 ^ 32 + (shift k + 1))" if "k \<in> set ?rows" for k
    using uint_date_pos[of "date k" "shift k"] bspec[OF assms(10) that] unfolding byDate_def by blast
  have date: "byDate k < 2 ^ 63" if "k \<in> set ?rows" for k
    using low[OF that] bspec[OF assms(10) that] by (simp add: word_less_def)
  have fixed: "en_sortKey en1 f k = FixedOnTopDialogPos (fixed k)" "uint (FixedOnTopDialogPos (fixed k)) = 0xFFFFFFFFFFFF000F - fixed k"
    if "k \<in> set ?rows" "?top k" for k
    using bspec[OF assms(9) that(1)] bspec[OF assms(10) that(1)] that(2) uint_fixed_pos[of "fixed k"]
    by (auto simp: entry_key_def sort_keys_def sortKeyInChatList_def split: prod.splits)
  have key: "en_sortKey en1 f k = (if k \<in> set (pl_data p) then PinnedDialogPos (position k (pl_data p)) else byDate k)"
    if "k \<in> set ?rows" "\<not> ?top k" for k
    using bspec[OF assms(9) that(1)] that(2) assms(6) lookupPinnedIndex_cached[OF p(3), of k f] p(2)[of k] position_range[of k "pl_data p"]
    by (auto simp: entry_key_def sort_keys_def sortKeyInChatList_def computeSortPosition_def byDate_def Let_def position_out
        split: prod.splits if_splits)
  have "list_inv (fold keys_step calls {}) (en1, l)" "dl_filterId l = f"
    using list_inv_run[OF list_inv_new[OF assms(7), of f], of calls] assms(8) by (auto simp: new_dlist_def)
  then have rows: "distinct ?rows" "sorted_wrt (\<lambda>a b. en_sortKey en1 f b \<le> en_sortKey en1 f a) ?rows"
    by (auto simp: list_inv_def list_ok_def date_le_def[abs_def])
  have below: "\<not> en_sortKey en1 f b \<le> en_sortKey en1 f a" if "a \<in> set ?rows" "b \<in> set ?rows" "\<not> ?top a" "?top b" for a b
  proof -
    have "uint (en_sortKey en1 f a) < 0xFFFFFFFFFFFF000D"
      using key[OF that(1,3)] date[OF that(1)] uint_pinned_pos[of "position a (pl_data p)"] position_range[of a "pl_data p"] assms(5)
      by (cases "a \<in> set (pl_data p)") (auto simp: word_less_def)
    then show ?thesis using fixed[OF that(2,4)] bspec[OF assms(10) that(2)] by (simp add: word_le_def)
  qed
  have split: "?rows = filter ?top ?rows @ filter (\<lambda>k. \<not> ?top k) ?rows"
    by (rule sorted_two_parts[OF rows(2)]) (use below in blast)
  let ?low = "filter (\<lambda>k. \<not> ?top k) ?rows"
  have "?low = filter (\<lambda>k. k \<in> set ?low) (pl_data p) @ filter (\<lambda>k. k \<notin> set (pl_data p)) ?low"
    by (rule pinned_rows[OF distinct_filter[OF rows(1)] sorted_wrt_filter[OF rows(2)] p(1) assms(5) key])
      (use date in auto)
  moreover have "sorted_wrt (\<lambda>a b. fixed a \<le> fixed b) (filter ?top ?rows)"
    by (rule sorted_wrt_mono_rel[OF _ sorted_wrt_filter[OF rows(2)]]) (use fixed in \<open>auto simp: word_le_def\<close>)
  moreover have "date b < date a \<or> date b = date a \<and> (date a = 0 \<or> shift b \<le> shift a)"
    if "a \<in> set ?rows" "b \<in> set ?rows" "byDate b \<le> byDate a" for a b
    using that(3) low[OF that(1)] low[OF that(2)] bspec[OF assms(10) that(1)] bspec[OF assms(10) that(2)]
    by (auto simp: word_le_def split: if_splits)
  then have "sorted_wrt (\<lambda>a b. date b < date a \<or> date b = date a \<and> (date a = 0 \<or> shift b \<le> shift a))
      (filter (\<lambda>k. \<not> ?top k \<and> k \<notin> set (pl_data p)) ?rows)"
    by (intro sorted_wrt_mono_rel[OF _ sorted_wrt_filter[OF rows(2)]]) (use key in auto)
  moreover have "filter (\<lambda>k. k \<in> set ?low) (pl_data p) = filter (\<lambda>k. \<not> ?top k \<and> k \<in> set ?rows) (pl_data p)"
    by (rule filter_cong) auto
  ultimately show ?thesis using split by (simp add: Let_def conj_commute)
qed

lemma filter_one: "distinct xs \<Longrightarrow> x \<in> set xs \<Longrightarrow> filter (\<lambda>k. k = x) xs = [x]"
  by (induction xs) (auto simp: filter_empty_conv)

theorem pinned_chats_on_top_witness:
  "\<exists>p s. pinned_run (\<lambda>_. True) [CallAddPinned 7] (\<lparr>pl_filterId = 0, pl_limit = 3, pl_data = []\<rparr>, \<lparr>ps_index = (\<lambda>_. []), ps_changed = []\<rparr>) = Some (p, s)
   \<and> (let en = \<lparr>en_sortKey = (\<lambda>_ k. entry_key 0 (if k = 9 then 1 else 0) (int k) 3 (ps_index s k)), en_nameKey = (\<lambda>k. k),
         en_kind = (\<lambda>k. FolderRow), en_rowHeight = 62, en_forumHeight = 80, en_topicHeight = 54, en_interpolate = (\<lambda>a b r. a)\<rparr> :: (nat, nat) entries
      in \<exists>l. list_run [CallAdd 5, CallAdd 7, CallAdd 8, CallAdd 9] (en, new_dlist SortDate 0) = Some (en, l)
           \<and> take 2 (dl_rows l) = [9, 7])"
proof -
  let ?p = "\<lparr>pl_filterId = 0, pl_limit = 3, pl_data = [7]\<rparr> :: nat pinned_list"
  let ?s = "\<lparr>ps_index = (\<lambda>_. [])(7 := [(0, 1)]), ps_changed = [(7, 0, 0, 1)]\<rparr> :: nat pinned_store"
  let ?fixed = "\<lambda>k :: nat. if k = 9 then 1 else 0 :: int"
  let ?en = "\<lparr>en_sortKey = (\<lambda>_ k. entry_key 0 (?fixed k) (int k) 3 (ps_index ?s k)), en_nameKey = (\<lambda>k. k), en_kind = (\<lambda>k. FolderRow),
         en_rowHeight = 62, en_forumHeight = 80, en_topicHeight = 54, en_interpolate = (\<lambda>a b r. a)\<rparr> :: (nat, nat) entries"
  let ?calls = "[CallAdd 5, CallAdd 7, CallAdd 8, CallAdd 9] :: nat list_call list"
  have run: "pinned_run (\<lambda>_. True) [CallAddPinned 7] (\<lparr>pl_filterId = 0, pl_limit = 3, pl_data = []\<rparr>, \<lparr>ps_index = (\<lambda>_. []), ps_changed = []\<rparr>) = Some (?p, ?s)"
    by (simp add: addPinned_def addPinnedGetPosition_def find_key_def applyLimit_def apply_limit_loop.simps cachePinnedIndex_def Let_def)
  have en: "entries_ok ?en" by (simp add: entries_ok_def)
  obtain en1 l where l: "list_run ?calls (?en, new_dlist SortDate 0) = Some (en1, l)"
      "list_inv {5, 7, 8, 9} (en1, l)"
    using list_inv_run[OF list_inv_new[OF en, of 0], of ?calls] by (auto simp: insert_commute)
  have same: "en1 = ?en" using l(1) by (auto simp: bind_eq_Some_conv)
  have rows: "set (dl_rows l) = {5, 7, 8, 9}" "distinct (dl_rows l)" using l(2) by (simp_all add: list_inv_def list_ok_def)
  let ?top = "\<lambda>k. (0 :: int) = 0 \<and> ?fixed k \<noteq> 0"
  have "let onTop = ?top; rows = dl_rows l; top = filter onTop rows; rest = filter (\<lambda>k. \<not> onTop k \<and> k \<notin> set (pl_data ?p)) rows
    in rows = top @ filter (\<lambda>k. \<not> onTop k \<and> k \<in> set rows) (pl_data ?p) @ rest
      \<and> sorted_wrt (\<lambda>a b. ?fixed a \<le> ?fixed b) top
      \<and> sorted_wrt (\<lambda>a b. int b < int a \<or> int b = int a \<and> (int a = 0 \<or> (3 :: int) \<le> 3)) rest"
    by (rule pinned_chats_on_top[OF _ _ run _ _ _ en l(1)])
      (auto simp: new_pinned_list_def same rows(1) fm_lookup_def split: if_splits)
  moreover have nine: "?fixed k \<noteq> 0 \<longleftrightarrow> k = 9" "?fixed k = 0 \<longleftrightarrow> k \<noteq> 9" for k by simp_all
  ultimately have "dl_rows l = filter (\<lambda>k. k = 9) (dl_rows l) @ 7 # filter (\<lambda>k. k \<noteq> 9 \<and> k \<noteq> 7) (dl_rows l)"
    using rows(1) unfolding Let_def nine by simp
  also have "\<dots> = [9, 7] @ filter (\<lambda>k. k \<noteq> 9 \<and> k \<noteq> 7) (dl_rows l)"
    using filter_one[of "dl_rows l" 9] rows by simp
  finally have "take 2 (dl_rows l) = take 2 ([9, 7] @ filter (\<lambda>k. k \<noteq> 9 \<and> k \<noteq> 7) (dl_rows l))" by (rule arg_cong)
  then have "take 2 (dl_rows l) = [9, 7]" by (simp add: numeral_2_eq_2)
  then show ?thesis using run l(1) same by (auto simp: Let_def simp del: pinned_run.simps list_run.simps)
qed

end
