(* ===== verification/DialogsIndexed.thy ===== *)
theory DialogsIndexed
  imports DialogsPinned "HOL-Library.List_Lexorder"
begin

text \<open>
  A list of chats with an index by letter, from \<open>dialogs/dialogs_indexed_list.{h,cpp}\<close>: beside the list
  of all its keys it keeps, for each letter, the list of the keys with a word in their name that
  starts with the letter, and searches in the shortest list. The rows an entry has in the lists of a
  filter (\<open>Entry::_chatListLinks\<close>, \<open>dialogs/dialogs_entry.{h,cpp}\<close>) are kept by the entries; a row is
  named by its key, in the list of all keys or in the list of a letter. The words of a name and
  their letters are collected as at the end of \<open>PeerData::fillNames\<close> (\<open>data/data_peer.cpp\<close>). Characters are
  any linearly ordered type.
\<close>

subsection \<open>Names\<close>

record 'c name_index =
  ni_words :: "'c list list"
  ni_letters :: "'c list"

text \<open>The words come from \<open>TextUtilities::PrepareSearchWords\<close>, which gives no empty ones.\<close>

definition fill_name_index :: "'c::linorder list list \<Rightarrow> 'c name_index" where
  "fill_name_index namesList = \<lparr>ni_words = fs_of_list namesList, ni_letters = fs_of_list (map hd namesList)\<rparr>"

subsection \<open>Rows by letter\<close>

record ('k, 'c) rows_by_letter =
  rl_main :: 'k
  rl_letters :: "('c, 'k) flat_map"

text \<open>The links of all entries: for a filter and a key the rows in the lists of the filter.\<close>

type_synonym ('k, 'c) chat_links = "int \<Rightarrow> 'k \<Rightarrow> ('k, 'c) rows_by_letter option"

definition removeChatListEntryByLetter :: "int \<Rightarrow> 'c \<Rightarrow> 'k \<Rightarrow> ('k, 'c) chat_links \<Rightarrow> ('k, 'c) chat_links" where
  "removeChatListEntryByLetter filterId letter k links =
     (case links filterId k of
        None \<Rightarrow> links
      | Some r \<Rightarrow> links(filterId := (links filterId)(k \<mapsto> r\<lparr>rl_letters := fm_erase letter (rl_letters r)\<rparr>)))"

definition addChatListEntryByLetter :: "int \<Rightarrow> 'c::linorder \<Rightarrow> 'k \<Rightarrow> 'k \<Rightarrow> ('k, 'c) chat_links \<Rightarrow> ('k, 'c) chat_links" where
  "addChatListEntryByLetter filterId letter row k links =
     (case links filterId k of
        None \<Rightarrow> links
      | Some r \<Rightarrow> links(filterId := (links filterId)(k \<mapsto> r\<lparr>rl_letters := fm_emplace letter row (rl_letters r)\<rparr>)))"

subsection \<open>The indexed list\<close>

record ('k, 'c) indexed_list =
  il_sortMode :: SortMode
  il_filterId :: int
  il_list :: "'k dlist"
  il_empty :: "'k dlist"
  il_index :: "('c, 'k dlist) flat_map"

definition new_indexed_list :: "SortMode \<Rightarrow> int \<Rightarrow> ('k, 'c) indexed_list" where
  "new_indexed_list mode filterId =
     \<lparr>il_sortMode = mode, il_filterId = filterId, il_list = new_dlist mode filterId,
      il_empty = new_dlist mode filterId, il_index = []\<rparr>"

text \<open>
  The loops over letters: an operation on the list of each letter, which is made if it is missing
  (\<open>index_add\<close>) or left out (\<open>index_change\<close>).
\<close>

fun index_add :: "SortMode \<Rightarrow> int \<Rightarrow> ('k dlist \<Rightarrow> 'k dlist option) \<Rightarrow> 'c::linorder list
    \<Rightarrow> ('c, 'k dlist) flat_map \<Rightarrow> ('c, 'k dlist) flat_map option" where
  "index_add mode filterId add [] m = Some m"
| "index_add mode filterId add (ch # chs) m =
     (let l = (case fm_lookup m ch of None \<Rightarrow> new_dlist mode filterId | Some l \<Rightarrow> l)
      in case add l of
           None \<Rightarrow> None
         | Some l1 \<Rightarrow> index_add mode filterId add chs (fm_set ch l1 m))"

fun index_change :: "('k dlist \<Rightarrow> 'k dlist option) \<Rightarrow> 'c::linorder list
    \<Rightarrow> ('c, 'k dlist) flat_map \<Rightarrow> ('c, 'k dlist) flat_map option" where
  "index_change chg [] m = Some m"
| "index_change chg (ch # chs) m =
     (case fm_lookup m ch of
        None \<Rightarrow> index_change chg chs m
      | Some l \<Rightarrow>
          (case chg l of
             None \<Rightarrow> None
           | Some l1 \<Rightarrow> index_change chg chs (fm_set ch l1 m)))"

definition il_addToEnd :: "('k, 'n) entries \<Rightarrow> ('k \<Rightarrow> 'c::linorder name_index) \<Rightarrow> 'k \<Rightarrow> ('k, 'c) indexed_list
    \<Rightarrow> (('k, 'c) rows_by_letter \<times> ('k, 'c) indexed_list) option" where
  "il_addToEnd en nm key il =
     (case getRow key (il_list il) of
        Some row \<Rightarrow> Some (\<lparr>rl_main = row, rl_letters = []\<rparr>, il)
      | None \<Rightarrow> do {
          l \<leftarrow> addToEnd en key (il_list il);
          m \<leftarrow> index_add (il_sortMode il) (il_filterId il) (addToEnd en key) (ni_letters (nm key)) (il_index il);
          Some (\<lparr>rl_main = key, rl_letters = fold (\<lambda>ch r. fm_emplace ch key r) (ni_letters (nm key)) []\<rparr>,
            il\<lparr>il_list := l, il_index := m\<rparr>) })"

definition il_addByName :: "('k, 'n::linorder) entries \<Rightarrow> ('k \<Rightarrow> 'c::linorder name_index) \<Rightarrow> 'k \<Rightarrow> ('k, 'c) indexed_list
    \<Rightarrow> ('k, 'c) indexed_list option" where
  "il_addByName en nm key il =
     (case getRow key (il_list il) of
        Some row \<Rightarrow> Some il
      | None \<Rightarrow> do {
          l \<leftarrow> addByName en key (il_list il);
          m \<leftarrow> index_add (il_sortMode il) (il_filterId il) (addByName en key) (ni_letters (nm key)) (il_index il);
          Some (il\<lparr>il_list := l, il_index := m\<rparr>) })"

fun adjust_letters :: "('k, 'n) entries \<Rightarrow> ('c::linorder, 'k) flat_map \<Rightarrow> ('c, 'k dlist) flat_map \<Rightarrow> ('c, 'k dlist) flat_map option" where
  "adjust_letters en [] m = Some m"
| "adjust_letters en ((ch, row) # letters) m =
     (case fm_lookup m ch of
        None \<Rightarrow> adjust_letters en letters m
      | Some l \<Rightarrow>
          (case adjustByDate en row l of
             None \<Rightarrow> None
           | Some l1 \<Rightarrow> adjust_letters en letters (fm_set ch l1 m)))"

definition il_adjustByDate :: "('k, 'n) entries \<Rightarrow> ('k, 'c::linorder) rows_by_letter \<Rightarrow> ('k, 'c) indexed_list
    \<Rightarrow> ('k, 'c) indexed_list option" where
  "il_adjustByDate en links il =
     do {
       l \<leftarrow> adjustByDate en (rl_main links) (il_list il);
       m \<leftarrow> adjust_letters en (rl_letters links) (il_index il);
       Some (il\<lparr>il_list := l, il_index := m\<rparr>) }"

definition il_updateHeights :: "('k, 'n) entries \<Rightarrow> real \<Rightarrow> ('k, 'c) indexed_list \<Rightarrow> (bool \<times> ('k, 'c) indexed_list) option" where
  "il_updateHeights en ratio il = map_option (\<lambda>(b, l). (b, il\<lparr>il_list := l\<rparr>)) (updateHeights en ratio (il_list il))"

definition il_updateHeight :: "('k, 'n) entries \<Rightarrow> 'k \<Rightarrow> real \<Rightarrow> ('k, 'c) indexed_list \<Rightarrow> (bool \<times> ('k, 'c) indexed_list) option" where
  "il_updateHeight en key ratio il = map_option (\<lambda>(b, l). (b, il\<lparr>il_list := l\<rparr>)) (updateHeight en key ratio (il_list il))"

definition il_moveToTop :: "('k \<Rightarrow> 'c::linorder name_index) \<Rightarrow> 'k \<Rightarrow> ('k, 'c) indexed_list \<Rightarrow> ('k, 'c) indexed_list option" where
  "il_moveToTop nm key il =
     (case moveToTop key (il_list il) of
        None \<Rightarrow> None
      | Some (moved, l) \<Rightarrow>
          if moved then
            map_option (\<lambda>m. il\<lparr>il_list := l, il_index := m\<rparr>)
              (index_change (\<lambda>l. map_option snd (moveToTop key l)) (ni_letters (nm key)) (il_index il))
          else Some (il\<lparr>il_list := l\<rparr>))"

text \<open>The two keys \<open>movePinned\<close> has \<open>Data::Session::reorderTwoPinnedChats\<close> exchange.\<close>

definition movePinned :: "'k option \<Rightarrow> int \<Rightarrow> ('k, 'c) indexed_list \<Rightarrow> ('k \<times> 'k) option" where
  "movePinned row deltaSign il =
     (let i = cfind row (il_list il); rows = dl_rows (il_list il) in
      case row of
        None \<Rightarrow> None
      | Some k \<Rightarrow>
          if \<not> i < length rows then None
          else if deltaSign > 0 then (if i + 1 < length rows then Some (k, rows ! (i + 1)) else None)
          else (if i = 0 then None else Some (k, rows ! (i - 1))))"

text \<open>Which letters a change of name removes and adds, given the letters before.\<close>

definition letters_changed :: "'c list \<Rightarrow> 'c list \<Rightarrow> 'c list \<times> 'c list" where
  "letters_changed oldLetters letters =
     (filter (\<lambda>ch. ch \<notin> set letters) oldLetters, filter (\<lambda>ch. ch \<notin> set oldLetters) letters)"

definition il_adjustByName :: "('k, 'n::linorder) entries \<Rightarrow> ('k \<Rightarrow> 'c::linorder name_index) \<Rightarrow> 'k \<Rightarrow> 'c list \<Rightarrow> ('k, 'c) indexed_list
    \<Rightarrow> ('k, 'c) indexed_list option" where
  "il_adjustByName en nm key oldLetters il =
     (if il_sortMode il \<noteq> SortName then None
      else do {
        (mainRow, l) \<leftarrow> adjustByName en key (il_list il);
        if mainRow = None then Some (il\<lparr>il_list := l\<rparr>)
        else do {
          let (toRemove, toAdd) = letters_changed oldLetters (ni_letters (nm key));
          m1 \<leftarrow> index_change (\<lambda>l. map_option snd (adjustByName en key l))
             (filter (\<lambda>ch. ch \<in> set oldLetters) (ni_letters (nm key))) (il_index il);
          m2 \<leftarrow> index_change (\<lambda>l. map_option snd (list_remove key mainRow l)) toRemove m1;
          m3 \<leftarrow> index_add (il_sortMode il) (il_filterId il) (addByName en key) toAdd m2;
          Some (il\<lparr>il_list := l, il_index := m3\<rparr>) } })"

definition adjustNames :: "('k, 'n) entries \<Rightarrow> ('k \<Rightarrow> 'c::linorder name_index) \<Rightarrow> int \<Rightarrow> 'k \<Rightarrow> 'c list
    \<Rightarrow> ('k, 'c) chat_links \<times> ('k, 'c) indexed_list \<Rightarrow> (('k, 'c) chat_links \<times> ('k, 'c) indexed_list) option" where
  "adjustNames en nm filterId key oldLetters st =
     (case st of (links, il) \<Rightarrow>
       (case getRow key (il_list il) of
          None \<Rightarrow> Some (links, il)
        | Some mainRow \<Rightarrow> do {
            let (toRemove, toAdd) = letters_changed oldLetters (ni_letters (nm key));
            let links1 = (if il_sortMode il = SortDate
              then fold (\<lambda>ch. removeChatListEntryByLetter filterId ch key) toRemove links else links);
            m1 \<leftarrow> index_change (\<lambda>l. map_option snd (list_remove key (Some mainRow) l)) toRemove (il_index il);
            m2 \<leftarrow> index_add (il_sortMode il) (il_filterId il) (addToEnd en key) toAdd m1;
            let links2 = (if il_sortMode il = SortDate
              then fold (\<lambda>ch. addChatListEntryByLetter filterId ch key key) toAdd links1 else links1);
            Some (links2, il\<lparr>il_index := m2\<rparr>) }))"

text \<open>The history of the peer is \<open>None\<close> if it is not loaded.\<close>

definition peerNameChanged_names :: "('k, 'n::linorder) entries \<Rightarrow> ('k \<Rightarrow> 'c::linorder name_index) \<Rightarrow> 'k option \<Rightarrow> 'c list
    \<Rightarrow> ('k, 'c) chat_links \<times> ('k, 'c) indexed_list \<Rightarrow> (('k, 'c) chat_links \<times> ('k, 'c) indexed_list) option" where
  "peerNameChanged_names en nm history oldLetters st =
     (if il_sortMode (snd st) = SortDate then None
      else case history of
        None \<Rightarrow> Some st
      | Some key \<Rightarrow>
          if il_sortMode (snd st) = SortName
          then map_option (Pair (fst st)) (il_adjustByName en nm key oldLetters (snd st))
          else adjustNames en nm 0 key oldLetters st)"

definition peerNameChanged :: "('k, 'n) entries \<Rightarrow> ('k \<Rightarrow> 'c::linorder name_index) \<Rightarrow> int \<Rightarrow> 'k option \<Rightarrow> 'c list
    \<Rightarrow> ('k, 'c) chat_links \<times> ('k, 'c) indexed_list \<Rightarrow> (('k, 'c) chat_links \<times> ('k, 'c) indexed_list) option" where
  "peerNameChanged en nm filterId history oldLetters st =
     (if il_sortMode (snd st) \<noteq> SortDate then None
      else case history of None \<Rightarrow> Some st | Some key \<Rightarrow> adjustNames en nm filterId key oldLetters st)"

definition il_remove :: "('k \<Rightarrow> 'c::linorder name_index) \<Rightarrow> 'k \<Rightarrow> 'k option \<Rightarrow> ('k, 'c) indexed_list \<Rightarrow> ('k, 'c) indexed_list option" where
  "il_remove nm key replacedBy il =
     (case list_remove key replacedBy (il_list il) of
        None \<Rightarrow> None
      | Some (removed, l) \<Rightarrow>
          if removed then
            map_option (\<lambda>m. il\<lparr>il_list := l, il_index := m\<rparr>)
              (index_change (\<lambda>l. map_option snd (list_remove key replacedBy l)) (ni_letters (nm key)) (il_index il))
          else Some (il\<lparr>il_list := l\<rparr>))"

definition il_clear :: "('k, 'c) indexed_list \<Rightarrow> ('k, 'c) indexed_list" where
  "il_clear il = il\<lparr>il_list := list_clear (il_list il), il_index := []\<rparr>"

subsection \<open>Searching\<close>

definition filtered :: "'c \<Rightarrow> ('k, 'c) indexed_list \<Rightarrow> 'k dlist option" where
  "filtered ch il = fm_lookup (il_index il) ch"

fun minimal_loop :: "('k, 'c) indexed_list \<Rightarrow> 'c list list \<Rightarrow> 'k dlist option \<Rightarrow> 'k dlist option" where
  "minimal_loop il [] result = result"
| "minimal_loop il (word # words) result =
     (if word = [] then minimal_loop il words result
      else case filtered (hd word) il of
        None \<Rightarrow> None
      | Some found \<Rightarrow>
          if list_empty found then None
          else (case result of
              None \<Rightarrow> minimal_loop il words (Some found)
            | Some r \<Rightarrow> minimal_loop il words (if list_size r > list_size found then Some found else Some r)))"

definition name_matches :: "'c name_index \<Rightarrow> 'c list list \<Rightarrow> bool" where
  "name_matches ni words \<longleftrightarrow> (\<forall>word \<in> set words. \<exists>name \<in> set (ni_words ni). prefix word name)"

definition filtered_words :: "('k \<Rightarrow> 'c name_index) \<Rightarrow> 'c list list \<Rightarrow> ('k, 'c) indexed_list \<Rightarrow> 'k list" where
  "filtered_words nm words il =
     (case (if list_empty (il_list il) then None else minimal_loop il words None) of
        None \<Rightarrow> []
      | Some minimal \<Rightarrow>
          if list_empty minimal then []
          else filter (\<lambda>row. name_matches (nm row) words) (dl_rows minimal))"

subsection \<open>The chats of a filter\<close>

text \<open>
  The entries with their sort keys and names, their rows and the indexed list of a filter, and what
  happens to an entry: it enters and leaves the list (\<open>addToChatList\<close>, \<open>removeFromChatList\<close> after the
  unpinning), its sort key changes (\<open>adjustByPosInChatList\<close>), its name changes
  (\<open>PeerData::fillNames\<close>, then the update that \<open>MainList\<close> listens to), its height changes.
\<close>

record ('k, 'n, 'c) chats =
  ct_entries :: "('k, 'n) entries"
  ct_names :: "'k \<Rightarrow> 'c name_index"
  ct_links :: "('k, 'c) chat_links"
  ct_list :: "('k, 'c) indexed_list"

definition addToChatList :: "int \<Rightarrow> 'k \<Rightarrow> ('k, 'n, 'c::linorder) chats \<Rightarrow> ('k, 'n, 'c) chats option" where
  "addToChatList filterId k s =
     (if ct_links s filterId k \<noteq> None then Some s
      else do {
        (r, il) \<leftarrow> il_addToEnd (ct_entries s) (ct_names s) k (ct_list s);
        Some (s\<lparr>ct_links := (ct_links s)(filterId := (ct_links s filterId)(k \<mapsto> r)), ct_list := il\<rparr>) })"

definition removeFromChatList :: "int \<Rightarrow> 'k \<Rightarrow> ('k, 'n, 'c::linorder) chats \<Rightarrow> ('k, 'n, 'c) chats option" where
  "removeFromChatList filterId k s =
     (if ct_links s filterId k = None then Some s
      else do {
        il \<leftarrow> il_remove (ct_names s) k None (ct_list s);
        Some (s\<lparr>ct_links := (ct_links s)(filterId := (ct_links s filterId)(k := None)), ct_list := il\<rparr>) })"

definition adjustByPosInChatList :: "int \<Rightarrow> 'k \<Rightarrow> ('k, 'n, 'c::linorder) chats \<Rightarrow> ('k, 'n, 'c) chats option" where
  "adjustByPosInChatList filterId k s =
     (case ct_links s filterId k of
        None \<Rightarrow> None
      | Some links \<Rightarrow> map_option (\<lambda>il. s\<lparr>ct_list := il\<rparr>) (il_adjustByDate (ct_entries s) links (ct_list s)))"

datatype ('k, 'c) chat_call =
    ChatAdd 'k
  | ChatRemove 'k
  | ChatRedate 'k "64 word"
  | ChatRename 'k "'c list list"
  | ChatHeight 'k real

definition set_sort_key :: "'k \<Rightarrow> 64 word \<Rightarrow> ('k, 'n) entries \<Rightarrow> ('k, 'n) entries" where
  "set_sort_key k v en = en\<lparr>en_sortKey := (\<lambda>f. (en_sortKey en f)(k := v))\<rparr>"

fun chat_step :: "int \<Rightarrow> ('k, 'c::linorder) chat_call \<Rightarrow> ('k, 'n, 'c) chats \<Rightarrow> ('k, 'n, 'c) chats option" where
  "chat_step f (ChatAdd k) s = addToChatList f k s"
| "chat_step f (ChatRemove k) s = removeFromChatList f k s"
| "chat_step f (ChatRedate k v) s =
     (let s1 = s\<lparr>ct_entries := set_sort_key k v (ct_entries s)\<rparr>
      in if ct_links s f k = None then Some s1 else adjustByPosInChatList f k s1)"
| "chat_step f (ChatRename k names) s =
     (let nm1 = (ct_names s)(k := fill_name_index names)
      in case peerNameChanged (ct_entries s) nm1 f (Some k) (ni_letters (ct_names s k)) (ct_links s, ct_list s) of
           None \<Rightarrow> None
         | Some (links, il) \<Rightarrow> Some (s\<lparr>ct_names := nm1, ct_links := links, ct_list := il\<rparr>))"
| "chat_step f (ChatHeight k ratio) s =
     map_option (\<lambda>(_, il). s\<lparr>ct_list := il\<rparr>) (il_updateHeight (ct_entries s) k ratio (ct_list s))"

fun chat_run :: "int \<Rightarrow> ('k, 'c::linorder) chat_call list \<Rightarrow> ('k, 'n, 'c) chats \<Rightarrow> ('k, 'n, 'c) chats option" where
  "chat_run f [] s = Some s"
| "chat_run f (c # cs) s = Option.bind (chat_step f c s) (chat_run f cs)"

subsection \<open>The loops over letters\<close>

lemma index_add_pt:
  "fm_sorted m \<Longrightarrow> distinct chs \<Longrightarrow>
   (\<And>ch. ch \<in> set chs \<Longrightarrow> \<exists>l1. add (case fm_lookup m ch of None \<Rightarrow> new_dlist mode f | Some l \<Rightarrow> l) = Some l1) \<Longrightarrow>
   \<exists>m1. index_add mode f add chs m = Some m1 \<and> fm_sorted m1 \<and>
     (\<forall>ch. fm_lookup m1 ch = (if ch \<in> set chs then add (case fm_lookup m ch of None \<Rightarrow> new_dlist mode f | Some l \<Rightarrow> l)
        else fm_lookup m ch))"
proof (induction chs arbitrary: m)
  case (Cons c chs)
  let ?get = "\<lambda>m ch. case fm_lookup m ch of None \<Rightarrow> new_dlist mode f | Some l \<Rightarrow> l"
  obtain l1 where l1: "add (?get m c) = Some l1" using Cons.prems(3)[of c] by auto
  let ?m = "fm_set c l1 m"
  have m: "fm_sorted ?m" by (rule sorted_fm_set[OF Cons.prems(1)])
  have get: "fm_lookup ?m ch = fm_lookup m ch" if "ch \<noteq> c" for ch
    using that by (simp add: fm_lookup_set[OF Cons.prems(1)])
  have c: "c \<notin> set chs" "distinct chs" using Cons.prems(2) by auto
  have "\<exists>m1. index_add mode f add chs ?m = Some m1 \<and> fm_sorted m1 \<and>
     (\<forall>ch. fm_lookup m1 ch = (if ch \<in> set chs then add (?get ?m ch) else fm_lookup ?m ch))"
  proof (rule Cons.IH[OF m c(2)])
    fix ch assume ch: "ch \<in> set chs"
    then have "ch \<noteq> c" using c(1) by blast
    then show "\<exists>l1. add (?get ?m ch) = Some l1" using Cons.prems(3)[of ch] ch by (simp add: get)
  qed
  then obtain m1 where m1: "index_add mode f add chs ?m = Some m1" "fm_sorted m1"
      "\<And>ch. fm_lookup m1 ch = (if ch \<in> set chs then add (?get ?m ch) else fm_lookup ?m ch)"
    by blast
  have "fm_lookup m1 ch = (if ch \<in> set (c # chs) then add (?get m ch) else fm_lookup m ch)" for ch
    using m1(3)[of ch] c(1) l1 get[of ch] by (cases "ch = c") (auto simp: fm_lookup_set[OF Cons.prems(1)])
  then show ?case using m1(1,2) l1 by (intro exI[of _ m1]) (simp add: Let_def)
qed simp

lemma index_change_pt:
  "fm_sorted m \<Longrightarrow> distinct chs \<Longrightarrow>
   (\<And>ch l. ch \<in> set chs \<Longrightarrow> fm_lookup m ch = Some l \<Longrightarrow> \<exists>l1. chg l = Some l1) \<Longrightarrow>
   \<exists>m1. index_change chg chs m = Some m1 \<and> fm_sorted m1 \<and>
     (\<forall>ch. fm_lookup m1 ch = (if ch \<in> set chs then Option.bind (fm_lookup m ch) chg else fm_lookup m ch))"
proof (induction chs arbitrary: m)
  case (Cons c chs)
  have c: "c \<notin> set chs" "distinct chs" using Cons.prems(2) by auto
  show ?case
  proof (cases "fm_lookup m c")
    case None
    obtain m1 where m1: "index_change chg chs m = Some m1" "fm_sorted m1"
        "\<And>ch. fm_lookup m1 ch = (if ch \<in> set chs then Option.bind (fm_lookup m ch) chg else fm_lookup m ch)"
      using Cons.IH[OF Cons.prems(1) c(2)] Cons.prems(3) by auto
    then show ?thesis using None c(1) by (intro exI[of _ m1]) auto
  next
    case (Some l)
    obtain l1 where l1: "chg l = Some l1" using Cons.prems(3)[of c l] Some by auto
    let ?m = "fm_set c l1 m"
    have m: "fm_sorted ?m" by (rule sorted_fm_set[OF Cons.prems(1)])
    have get: "fm_lookup ?m ch = fm_lookup m ch" if "ch \<noteq> c" for ch
      using that by (simp add: fm_lookup_set[OF Cons.prems(1)])
    have "\<exists>m1. index_change chg chs ?m = Some m1 \<and> fm_sorted m1 \<and>
       (\<forall>ch. fm_lookup m1 ch = (if ch \<in> set chs then Option.bind (fm_lookup ?m ch) chg else fm_lookup ?m ch))"
    proof (rule Cons.IH[OF m c(2)])
      fix ch l assume "ch \<in> set chs" and "fm_lookup ?m ch = Some l"
      moreover from this have "ch \<noteq> c" using c(1) by blast
      ultimately show "\<exists>l1. chg l = Some l1" using Cons.prems(3)[of ch l] by (simp add: get)
    qed
    then obtain m1 where m1: "index_change chg chs ?m = Some m1" "fm_sorted m1"
        "\<And>ch. fm_lookup m1 ch = (if ch \<in> set chs then Option.bind (fm_lookup ?m ch) chg else fm_lookup ?m ch)"
      by blast
    have "fm_lookup m1 ch = (if ch \<in> set (c # chs) then Option.bind (fm_lookup m ch) chg else fm_lookup m ch)" for ch
      using m1(3)[of ch] c(1) l1 Some get[of ch] by (cases "ch = c") (auto simp: fm_lookup_set[OF Cons.prems(1)])
    then show ?thesis using m1(1,2) l1 Some by (intro exI[of _ m1]) simp
  qed
qed simp

text \<open>Rows that all have the same key are adjusted as in a loop over the letters.\<close>

lemma adjust_letters_change:
  "(\<forall>e \<in> set letters. snd e = k) \<Longrightarrow> adjust_letters en letters m = index_change (adjustByDate en k) (map fst letters) m"
  by (induction letters arbitrary: m) (auto split: option.split)

subsection \<open>What the index keeps\<close>

text \<open>In the list of a letter are the keys \<open>K\<close> gives for it; a missing list stands for no keys.\<close>

definition index_inv :: "('k, 'n) entries \<Rightarrow> int \<Rightarrow> ('c::linorder \<Rightarrow> 'k set) \<Rightarrow> ('c, 'k dlist) flat_map \<Rightarrow> bool" where
  "index_inv en f K m \<longleftrightarrow> fm_sorted m \<and>
     (\<forall>ch. case fm_lookup m ch of None \<Rightarrow> K ch = {} | Some l \<Rightarrow> list_inv (K ch) (en, l) \<and> dl_filterId l = f)"

definition with_letter :: "('k \<Rightarrow> 'c name_index) \<Rightarrow> 'k set \<Rightarrow> 'c \<Rightarrow> 'k set" where
  "with_letter nm ks ch = {k \<in> ks. ch \<in> set (ni_letters (nm k))}"

definition name_index_ok :: "'c::linorder name_index \<Rightarrow> bool" where
  "name_index_ok ni \<longleftrightarrow> (\<exists>names. [] \<notin> set names \<and> ni = fill_name_index names)"

definition row_links :: "'k \<Rightarrow> 'c list \<Rightarrow> ('k, 'c::linorder) rows_by_letter \<Rightarrow> bool" where
  "row_links k letters r \<longleftrightarrow> rl_main r = k \<and> fm_sorted (rl_letters r) \<and> set (rl_letters r) = (\<lambda>ch. (ch, k)) ` set letters"

definition links_ok :: "('k \<Rightarrow> 'c name_index) \<Rightarrow> 'k set \<Rightarrow> ('k \<rightharpoonup> ('k, 'c::linorder) rows_by_letter) \<Rightarrow> bool" where
  "links_ok nm ks links \<longleftrightarrow>
     (\<forall>k. case links k of None \<Rightarrow> k \<notin> ks | Some r \<Rightarrow> k \<in> ks \<and> row_links k (ni_letters (nm k)) r)"

definition chats_inv :: "int \<Rightarrow> 'k set \<Rightarrow> ('k, 'n, 'c::linorder) chats \<Rightarrow> bool" where
  "chats_inv f ks s \<longleftrightarrow>
     il_sortMode (ct_list s) = SortDate \<and> il_filterId (ct_list s) = f
     \<and> list_inv ks (ct_entries s, il_list (ct_list s)) \<and> dl_filterId (il_list (ct_list s)) = f
     \<and> index_inv (ct_entries s) f (with_letter (ct_names s) ks) (il_index (ct_list s))
     \<and> (\<forall>k. name_index_ok (ct_names s k))
     \<and> links_ok (ct_names s) ks (ct_links s f)"

lemma links_ok_at:
  assumes "links_ok nm ks links"
  shows "links k = None \<longleftrightarrow> k \<notin> ks" "links k = Some r \<Longrightarrow> k \<in> ks \<and> row_links k (ni_letters (nm k)) r"
  using assms by (auto simp: links_ok_def split: option.splits dest!: spec[of _ k])

lemma links_ok_put:
  assumes "links_ok nm ks links" "row_links k (ni_letters (nm1 k)) r" "\<And>j. j \<noteq> k \<Longrightarrow> nm1 j = nm j"
  shows "links_ok nm1 (insert k ks) (links(k \<mapsto> r))"
proof -
  have "case (links(k \<mapsto> r)) j of None \<Rightarrow> j \<notin> insert k ks | Some r \<Rightarrow> j \<in> insert k ks \<and> row_links j (ni_letters (nm1 j)) r" for j
    using assms(1)[unfolded links_ok_def, THEN spec[of _ j]] assms(2) assms(3)[of j] by (cases "j = k") (auto split: option.splits)
  then show ?thesis by (simp add: links_ok_def)
qed

lemma links_ok_drop:
  assumes "links_ok nm ks links"
  shows "links_ok nm (ks - {k}) (links(k := None))"
proof -
  have "case (links(k := None)) j of None \<Rightarrow> j \<notin> ks - {k} | Some r \<Rightarrow> j \<in> ks - {k} \<and> row_links j (ni_letters (nm j)) r" for j
    using assms[unfolded links_ok_def, THEN spec[of _ j]] by (cases "j = k") (auto split: option.splits)
  then show ?thesis by (simp add: links_ok_def)
qed

lemma name_index_letters:
  assumes "name_index_ok ni"
  shows "sorted_wrt (<) (ni_letters ni)" "distinct (ni_letters ni)" "set (ni_letters ni) = hd ` set (ni_words ni)" "[] \<notin> set (ni_words ni)"
  using assms by (auto simp: name_index_ok_def fill_name_index_def sorted_distinct_ids)

lemma list_inv_entries: "list_inv ks (en, l) \<Longrightarrow> entries_ok en"
  by (simp add: list_inv_def)

lemma list_inv_add:
  assumes "list_inv ks (en, l)"
  shows "\<exists>l1. addToEnd en k l = Some l1 \<and> list_inv (insert k ks) (en, l1) \<and> dl_filterId l1 = dl_filterId l"
  using list_inv_step[OF assms, of "CallAdd k"] by auto

lemma list_inv_remove:
  assumes "list_inv ks (en, l)"
  shows "\<exists>b l1. list_remove k rep l = Some (b, l1) \<and> b = (k \<in> ks) \<and> list_inv (ks - {k}) (en, l1) \<and> dl_filterId l1 = dl_filterId l"
proof -
  obtain b l1 where l1: "list_remove k rep l = Some (b, l1)" "list_inv (ks - {k}) (en, l1)" "dl_filterId l1 = dl_filterId l"
    using list_inv_step[OF assms, of "CallRemove k rep"] by auto
  have "list_ok l" "set (dl_rows l) = ks" using assms by (auto simp: list_inv_def)
  then have "b = (k \<in> ks)" using list_remove_ok[of l k rep] l1(1) by auto
  then show ?thesis using l1 by blast
qed

lemma list_inv_redate:
  assumes "list_inv ks (en, l)"
  shows "k \<in> ks \<Longrightarrow> \<exists>l1. adjustByDate (set_sort_key k v en) k l = Some l1 \<and> list_inv ks (set_sort_key k v en, l1) \<and> dl_filterId l1 = dl_filterId l"
    and "k \<notin> ks \<Longrightarrow> list_inv ks (set_sort_key k v en, l)"
proof -
  have c: "list_contains k l \<longleftrightarrow> k \<in> ks"
    using assms by (auto simp: list_inv_def list_ok_def list_contains_def)
  show "k \<in> ks \<Longrightarrow> \<exists>l1. adjustByDate (set_sort_key k v en) k l = Some l1 \<and> list_inv ks (set_sort_key k v en, l1) \<and> dl_filterId l1 = dl_filterId l"
    using list_inv_step[OF assms, of "CallRedate k v"] c by (auto simp: set_sort_key_def Let_def)
  show "k \<notin> ks \<Longrightarrow> list_inv ks (set_sort_key k v en, l)"
    using list_inv_step[OF assms, of "CallRedate k v"] c by (auto simp: set_sort_key_def Let_def)
qed

lemma list_inv_height:
  assumes "list_inv ks (en, l)"
  shows "\<exists>b l1. updateHeight en k ratio l = Some (b, l1) \<and> list_inv ks (en, l1) \<and> dl_filterId l1 = dl_filterId l"
  using list_inv_step[OF assms, of "CallHeight k ratio"] by auto

lemma list_inv_new_filter: "entries_ok en \<Longrightarrow> list_inv {} (en, new_dlist SortDate f) \<and> dl_filterId (new_dlist SortDate f) = f"
  using list_inv_new by (simp add: new_dlist_def)

lemma index_inv_add:
  assumes inv: "index_inv en f K m" and en: "entries_ok en" and chs: "distinct chs"
  shows "\<exists>m1. index_add SortDate f (addToEnd en k) chs m = Some m1 \<and> index_inv en f (\<lambda>ch. if ch \<in> set chs then insert k (K ch) else K ch) m1"
proof -
  let ?get = "\<lambda>ch. case fm_lookup m ch of None \<Rightarrow> new_dlist SortDate f | Some l \<Rightarrow> l"
  have get: "list_inv (K ch) (en, ?get ch) \<and> dl_filterId (?get ch) = f" for ch
  proof (cases "fm_lookup m ch")
    case None
    then have "K ch = {}" using inv by (auto simp: index_inv_def dest: spec[of _ ch])
    then show ?thesis using list_inv_new_filter[OF en] None by simp
  next
    case (Some l)
    then show ?thesis using inv by (auto simp: index_inv_def dest: spec[of _ ch])
  qed
  have add: "\<exists>l1. addToEnd en k (?get ch) = Some l1 \<and> list_inv (insert k (K ch)) (en, l1) \<and> dl_filterId l1 = f" for ch
    using list_inv_add[OF conjunct1[OF get]] get by fastforce
  obtain m1 where m1: "index_add SortDate f (addToEnd en k) chs m = Some m1" "fm_sorted m1"
      "\<And>ch. fm_lookup m1 ch = (if ch \<in> set chs then addToEnd en k (?get ch) else fm_lookup m ch)"
    using index_add_pt[of m chs "addToEnd en k" SortDate f] inv chs add by (force simp: index_inv_def)
  have "case fm_lookup m1 ch of None \<Rightarrow> (if ch \<in> set chs then insert k (K ch) else K ch) = {}
      | Some l \<Rightarrow> list_inv (if ch \<in> set chs then insert k (K ch) else K ch) (en, l) \<and> dl_filterId l = f" for ch
  proof (cases "ch \<in> set chs")
    case True
    then show ?thesis using add[of ch] by (auto simp: m1(3))
  next
    case False
    then show ?thesis using inv by (simp add: m1(3) index_inv_def)
  qed
  then show ?thesis using m1(1,2) by (auto simp: index_inv_def)
qed

text \<open>An operation on the lists of some letters that keeps them right, with other keys and entries.\<close>

lemma index_inv_change:
  assumes inv: "index_inv en f K m" and chs: "distinct chs"
    and chg: "\<And>ch l. ch \<in> set chs \<Longrightarrow> list_inv (K ch) (en, l) \<Longrightarrow> \<exists>l1. chg l = Some l1 \<and> list_inv (K1 ch) (en1, l1) \<and> dl_filterId l1 = dl_filterId l"
    and none: "\<And>ch. K ch = {} \<Longrightarrow> K1 ch = {}"
    and other: "\<And>ch l. ch \<notin> set chs \<Longrightarrow> list_inv (K ch) (en, l) \<Longrightarrow> list_inv (K1 ch) (en1, l)"
  shows "\<exists>m1. index_change chg chs m = Some m1 \<and> index_inv en1 f K1 m1"
proof -
  have old: "case fm_lookup m ch of None \<Rightarrow> K ch = {} | Some l \<Rightarrow> list_inv (K ch) (en, l) \<and> dl_filterId l = f" for ch
    using inv by (simp add: index_inv_def)
  have "\<exists>l1. chg l = Some l1" if "ch \<in> set chs" "fm_lookup m ch = Some l" for ch l
    using chg[OF that(1)] old[of ch] that(2) by fastforce
  then obtain m1 where m1: "index_change chg chs m = Some m1" "fm_sorted m1"
      "\<And>ch. fm_lookup m1 ch = (if ch \<in> set chs then Option.bind (fm_lookup m ch) chg else fm_lookup m ch)"
    using index_change_pt[of m chs chg] inv chs by (auto simp: index_inv_def)
  have "case fm_lookup m1 ch of None \<Rightarrow> K1 ch = {} | Some l \<Rightarrow> list_inv (K1 ch) (en1, l) \<and> dl_filterId l = f" for ch
  proof (cases "fm_lookup m ch")
    case None
    then show ?thesis using old[of ch] none[of ch] by (simp add: m1(3))
  next
    case (Some l)
    then have l: "list_inv (K ch) (en, l)" "dl_filterId l = f" using old[of ch] by auto
    show ?thesis
    proof (cases "ch \<in> set chs")
      case True
      then show ?thesis using chg[OF True l(1)] l(2) Some by (auto simp: m1(3))
    next
      case False
      then show ?thesis using other[OF False l(1)] l(2) Some by (simp add: m1(3))
    qed
  qed
  then show ?thesis using m1(1,2) by (auto simp: index_inv_def)
qed

lemma index_inv_cong: "index_inv en f K m \<Longrightarrow> (\<And>ch. K ch = K1 ch) \<Longrightarrow> index_inv en f K1 m"
  by (metis ext)

lemma fold_emplace_links:
  "fm_sorted r0 \<Longrightarrow> snd ` set r0 \<subseteq> {k} \<Longrightarrow> fm_sorted (fold (\<lambda>ch r. fm_emplace ch k r) chs r0)
     \<and> set (fold (\<lambda>ch r. fm_emplace ch k r) chs r0) = (\<lambda>ch. (ch, k)) ` (fst ` set r0 \<union> set chs)"
proof (induction chs arbitrary: r0)
  case Nil
  then show ?case by force
next
  case (Cons ch chs)
  have "set (fm_emplace ch k r0) \<subseteq> insert (ch, k) (set r0)"
    by (induction ch k r0 rule: fm_emplace.induct) auto
  then have sub: "snd ` set (fm_emplace ch k r0) \<subseteq> {k}" using Cons.prems(2) by fastforce
  have dom: "fst ` set (fm_emplace ch k r0) = insert ch (fst ` set r0)"
    by (induction ch k r0 rule: fm_emplace.induct) auto
  show ?case using Cons.IH[OF sorted_fm_emplace[OF Cons.prems(1)] sub] by (simp add: dom insert_commute)
qed

lemma chats_inv_add:
  assumes inv: "chats_inv f ks s"
  shows "\<exists>s1. addToChatList f k s = Some s1 \<and> chats_inv f (insert k ks) s1"
proof (cases "ct_links s f k")
  case (Some r)
  then have "k \<in> ks" using inv by (auto simp: chats_inv_def dest: links_ok_at)
  then show ?thesis using Some inv by (simp add: addToChatList_def insert_absorb)
next
  case None
  let ?en = "ct_entries s" and ?nm = "ct_names s" and ?il = "ct_list s"
  have k: "k \<notin> ks" using None inv by (auto simp: chats_inv_def dest: links_ok_at)
  have li: "list_inv ks (?en, il_list ?il)" "dl_filterId (il_list ?il) = f" "il_sortMode ?il = SortDate" "il_filterId ?il = f"
      "index_inv ?en f (with_letter ?nm ks) (il_index ?il)" "name_index_ok (?nm k)" "links_ok ?nm ks (ct_links s f)"
      "\<forall>k. name_index_ok (?nm k)"
    using inv by (auto simp: chats_inv_def)
  have row: "getRow k (il_list ?il) = None"
    using li(1) k by (auto simp: list_inv_def list_ok_def getRow_def)
  obtain l1 where l1: "addToEnd ?en k (il_list ?il) = Some l1" "list_inv (insert k ks) (?en, l1)" "dl_filterId l1 = f"
    using list_inv_add[OF li(1), of k] li(2) by auto
  obtain m1 where m1: "index_add SortDate f (addToEnd ?en k) (ni_letters (?nm k)) (il_index ?il) = Some m1"
      "index_inv ?en f (\<lambda>ch. if ch \<in> set (ni_letters (?nm k)) then insert k (with_letter ?nm ks ch) else with_letter ?nm ks ch) m1"
    using index_inv_add[OF li(5) list_inv_entries[OF li(1)] name_index_letters(2)[OF li(6)]] by blast
  let ?r = "\<lparr>rl_main = k, rl_letters = fold (\<lambda>ch r. fm_emplace ch k r) (ni_letters (?nm k)) []\<rparr>"
  let ?s = "s\<lparr>ct_links := (ct_links s)(f := (ct_links s f)(k \<mapsto> ?r)), ct_list := ?il\<lparr>il_list := l1, il_index := m1\<rparr>\<rparr>"
  have "addToChatList f k s = Some ?s"
    using None row l1(1) m1(1) li(3,4) by (simp add: addToChatList_def il_addToEnd_def)
  moreover have "index_inv ?en f (with_letter ?nm (insert k ks)) m1"
    by (rule index_inv_cong[OF m1(2)]) (auto simp: with_letter_def)
  moreover have "row_links k (ni_letters (?nm k)) ?r"
    using fold_emplace_links[of "[]" k "ni_letters (?nm k)"] by (simp add: row_links_def)
  moreover from this have "links_ok ?nm (insert k ks) ((ct_links s f)(k \<mapsto> ?r))"
    by (intro links_ok_put[OF li(7)]) auto
  ultimately show ?thesis using li(3,4,8) l1(2,3)
    by (intro exI[of _ ?s]) (simp add: chats_inv_def)
qed

lemma chats_inv_remove:
  assumes inv: "chats_inv f ks s"
  shows "\<exists>s1. removeFromChatList f k s = Some s1 \<and> chats_inv f (ks - {k}) s1"
proof (cases "ct_links s f k")
  case None
  then have "k \<notin> ks" using inv by (auto simp: chats_inv_def dest: links_ok_at)
  then show ?thesis using None inv by (simp add: removeFromChatList_def)
next
  case (Some r)
  let ?en = "ct_entries s" and ?nm = "ct_names s" and ?il = "ct_list s"
  have k: "k \<in> ks" using Some inv by (auto simp: chats_inv_def dest: links_ok_at)
  have li: "list_inv ks (?en, il_list ?il)" "dl_filterId (il_list ?il) = f"
      "index_inv ?en f (with_letter ?nm ks) (il_index ?il)" "name_index_ok (?nm k)"
    using inv by (auto simp: chats_inv_def)
  obtain l1 where l1: "list_remove k None (il_list ?il) = Some (True, l1)" "list_inv (ks - {k}) (?en, l1)" "dl_filterId l1 = f"
    using list_inv_remove[OF li(1), of k None] li(2) k by auto
  have "\<exists>m1. index_change (\<lambda>l. map_option snd (list_remove k None l)) (ni_letters (?nm k)) (il_index ?il) = Some m1
      \<and> index_inv ?en f (with_letter ?nm (ks - {k})) m1"
  proof (rule index_inv_change[OF li(3) name_index_letters(2)[OF li(4)]])
    fix ch l assume "list_inv (with_letter ?nm ks ch) (?en, l)"
    moreover have "with_letter ?nm (ks - {k}) ch = with_letter ?nm ks ch - {k}" by (auto simp: with_letter_def)
    ultimately show "\<exists>l1. map_option snd (list_remove k None l) = Some l1 \<and> list_inv (with_letter ?nm (ks - {k}) ch) (?en, l1)
        \<and> dl_filterId l1 = dl_filterId l"
      using list_inv_remove[of "with_letter ?nm ks ch" ?en l k None] by auto
  next
    fix ch l assume ch: "ch \<notin> set (ni_letters (?nm k))" and l: "list_inv (with_letter ?nm ks ch) (?en, l)"
    have "with_letter ?nm (ks - {k}) ch = with_letter ?nm ks ch" using ch by (auto simp: with_letter_def)
    then show "list_inv (with_letter ?nm (ks - {k}) ch) (?en, l)" using l by simp
  qed (auto simp: with_letter_def)
  then obtain m1 where m1: "index_change (\<lambda>l. map_option snd (list_remove k None l)) (ni_letters (?nm k)) (il_index ?il) = Some m1"
      "index_inv ?en f (with_letter ?nm (ks - {k})) m1"
    by blast
  let ?s = "s\<lparr>ct_links := (ct_links s)(f := (ct_links s f)(k := None)), ct_list := ?il\<lparr>il_list := l1, il_index := m1\<rparr>\<rparr>"
  have "removeFromChatList f k s = Some ?s"
    using Some l1(1) m1(1) by (simp add: removeFromChatList_def il_remove_def)
  moreover have "links_ok ?nm (ks - {k}) ((ct_links s f)(k := None))"
    using inv by (auto simp: chats_inv_def intro: links_ok_drop)
  ultimately show ?thesis using inv l1(2,3) m1(2)
    by (intro exI[of _ ?s]) (simp add: chats_inv_def)
qed

lemma chats_inv_redate:
  assumes inv: "chats_inv f ks s"
  shows "\<exists>s1. chat_step f (ChatRedate k v) s = Some s1 \<and> chats_inv f ks s1"
proof -
  let ?en = "ct_entries s" and ?nm = "ct_names s" and ?il = "ct_list s"
  let ?en1 = "set_sort_key k v ?en"
  have li: "list_inv ks (?en, il_list ?il)" "dl_filterId (il_list ?il) = f"
      "index_inv ?en f (with_letter ?nm ks) (il_index ?il)" "name_index_ok (?nm k)"
    using inv by (auto simp: chats_inv_def)
  show ?thesis
  proof (cases "ct_links s f k")
    case None
    then have k: "k \<notin> ks" using inv by (auto simp: chats_inv_def dest: links_ok_at)
    have "\<exists>m1. index_change Some [] (il_index ?il) = Some m1 \<and> index_inv ?en1 f (with_letter ?nm ks) m1"
      by (rule index_inv_change[OF li(3)]) (use k in \<open>auto simp: with_letter_def intro!: list_inv_redate(2)\<close>)
    then have "index_inv ?en1 f (with_letter ?nm ks) (il_index ?il)" by simp
    moreover have "list_inv ks (?en1, il_list ?il)" by (rule list_inv_redate(2)[OF li(1) k])
    ultimately show ?thesis using None inv by (auto simp: chats_inv_def)
  next
    case (Some r)
    then have k: "k \<in> ks" "row_links k (ni_letters (?nm k)) r" using inv by (auto simp: chats_inv_def dest: links_ok_at)
    obtain l1 where l1: "adjustByDate ?en1 k (il_list ?il) = Some l1" "list_inv ks (?en1, l1)" "dl_filterId l1 = f"
      using list_inv_redate(1)[OF li(1) k(1), of v] li(2) by auto
    have letters: "map fst (rl_letters r) = ni_letters (?nm k)"
      by (rule sorted_set_unique) (use k(2) name_index_letters[OF li(4)] in \<open>auto simp: row_links_def image_image\<close>)
    have "\<exists>m1. index_change (adjustByDate ?en1 k) (ni_letters (?nm k)) (il_index ?il) = Some m1
        \<and> index_inv ?en1 f (with_letter ?nm ks) m1"
      by (rule index_inv_change[OF li(3) name_index_letters(2)[OF li(4)]])
        (use k(1) in \<open>auto simp: with_letter_def intro!: list_inv_redate\<close>)
    then obtain m1 where m1: "adjust_letters ?en1 (rl_letters r) (il_index ?il) = Some m1" "index_inv ?en1 f (with_letter ?nm ks) m1"
      using adjust_letters_change[of "rl_letters r" k ?en1] k(2) letters by (auto simp: row_links_def)
    let ?s = "s\<lparr>ct_entries := ?en1, ct_list := ?il\<lparr>il_list := l1, il_index := m1\<rparr>\<rparr>"
    have "chat_step f (ChatRedate k v) s = Some ?s"
      using Some l1(1) m1(1) k(2) by (simp add: adjustByPosInChatList_def il_adjustByDate_def row_links_def Let_def)
    then show ?thesis using inv l1(2,3) m1(2) by (intro exI[of _ ?s]) (simp add: chats_inv_def)
  qed
qed

lemma chats_inv_height:
  assumes inv: "chats_inv f ks s"
  shows "\<exists>s1. chat_step f (ChatHeight k ratio) s = Some s1 \<and> chats_inv f ks s1"
proof -
  have li: "list_inv ks (ct_entries s, il_list (ct_list s))" "dl_filterId (il_list (ct_list s)) = f"
    using inv by (auto simp: chats_inv_def)
  show ?thesis using list_inv_height[OF li(1), of k ratio] li(2) inv
    by (auto simp: il_updateHeight_def chats_inv_def)
qed

lemma fold_erase:
  "fm_sorted m \<Longrightarrow> fm_sorted (fold fm_erase chs m) \<and> set (fold fm_erase chs m) = {e \<in> set m. fst e \<notin> set chs}"
proof (induction chs arbitrary: m)
  case (Cons ch chs)
  show ?case using Cons.IH[OF sorted_fm_erase[OF Cons.prems, of ch]] by (auto simp: fm_erase_def)
qed simp

lemma link_same: "links f k = Some r \<Longrightarrow> links(f := (links f)(k \<mapsto> r)) = links"
  by (metis fun_upd_triv)

lemma fold_remove_letters:
  "links f k = Some r \<Longrightarrow> fold (\<lambda>ch. removeChatListEntryByLetter f ch k) chs links
     = links(f := (links f)(k \<mapsto> r\<lparr>rl_letters := fold fm_erase chs (rl_letters r)\<rparr>))"
  by (induction chs arbitrary: links r) (auto simp: removeChatListEntryByLetter_def link_same)

lemma fold_add_letters:
  "links f k = Some r \<Longrightarrow> fold (\<lambda>ch. addChatListEntryByLetter f ch k k) chs links
     = links(f := (links f)(k \<mapsto> r\<lparr>rl_letters := fold (\<lambda>ch m. fm_emplace ch k m) chs (rl_letters r)\<rparr>))"
  by (induction chs arbitrary: links r) (auto simp: addChatListEntryByLetter_def link_same)

lemma row_links_rename:
  assumes r: "row_links k old r" and c: "letters_changed old new = (toRemove, toAdd)"
  shows "row_links k new (r\<lparr>rl_letters := fold (\<lambda>ch m. fm_emplace ch k m) toAdd (fold fm_erase toRemove (rl_letters r))\<rparr>)"
proof -
  have e: "fm_sorted (fold fm_erase toRemove (rl_letters r))"
      "set (fold fm_erase toRemove (rl_letters r)) = (\<lambda>ch. (ch, k)) ` (set old - set toRemove)"
    using fold_erase[of "rl_letters r" toRemove] r by (auto simp: row_links_def)
  have "set new = set old - set toRemove \<union> set toAdd" using c by (auto simp: letters_changed_def)
  moreover have sub: "snd ` set (fold fm_erase toRemove (rl_letters r)) \<subseteq> {k}" by (auto simp: e(2))
  ultimately show ?thesis
    using fold_emplace_links[OF e(1) sub, of toAdd] e(2) r by (simp add: row_links_def image_image)
qed

lemma links_ok_cong: "links_ok nm ks links \<Longrightarrow> (\<And>j. j \<in> ks \<Longrightarrow> nm1 j = nm j) \<Longrightarrow> links_ok nm1 ks links"
proof -
  assume ok: "links_ok nm ks links" and same: "\<And>j. j \<in> ks \<Longrightarrow> nm1 j = nm j"
  have "case links k of None \<Rightarrow> k \<notin> ks | Some r \<Rightarrow> k \<in> ks \<and> row_links k (ni_letters (nm1 k)) r" for k
    using links_ok_at[OF ok, of k] same[of k] by (cases "links k") auto
  then show "links_ok nm1 ks links" by (simp add: links_ok_def)
qed

lemma index_inv_rename:
  assumes inv: "index_inv en f (with_letter nm ks) m" and en: "entries_ok en" and k: "k \<in> ks"
    and nm1: "\<And>j. j \<noteq> k \<Longrightarrow> nm1 j = nm j"
    and c: "letters_changed (ni_letters (nm k)) (ni_letters (nm1 k)) = (toRemove, toAdd)"
    and d: "distinct (ni_letters (nm k))" "distinct (ni_letters (nm1 k))"
  shows "\<exists>m1 m2. index_change (\<lambda>l. map_option snd (list_remove k rep l)) toRemove m = Some m1
      \<and> index_add SortDate f (addToEnd en k) toAdd m1 = Some m2 \<and> index_inv en f (with_letter nm1 ks) m2"
proof -
  let ?K = "\<lambda>ch. if ch \<in> set toRemove then with_letter nm ks ch - {k} else with_letter nm ks ch"
  have dist: "distinct toRemove" "distinct toAdd" using c d by (auto simp: letters_changed_def)
  have "\<exists>m1. index_change (\<lambda>l. map_option snd (list_remove k rep l)) toRemove m = Some m1 \<and> index_inv en f ?K m1"
  proof (rule index_inv_change[OF inv dist(1)])
    fix ch l assume "ch \<in> set toRemove" and "list_inv (with_letter nm ks ch) (en, l)"
    then show "\<exists>l1. map_option snd (list_remove k rep l) = Some l1 \<and> list_inv (?K ch) (en, l1) \<and> dl_filterId l1 = dl_filterId l"
      using list_inv_remove[of "with_letter nm ks ch" en l k rep] by auto
  qed auto
  then obtain m1 where m1: "index_change (\<lambda>l. map_option snd (list_remove k rep l)) toRemove m = Some m1" "index_inv en f ?K m1"
    by blast
  obtain m2 where m2: "index_add SortDate f (addToEnd en k) toAdd m1 = Some m2"
      "index_inv en f (\<lambda>ch. if ch \<in> set toAdd then insert k (?K ch) else ?K ch) m2"
    using index_inv_add[OF m1(2) en dist(2)] by blast
  have "(if ch \<in> set toAdd then insert k (?K ch) else ?K ch) = with_letter nm1 ks ch" for ch
  proof -
    have s: "ch \<in> set toRemove \<longleftrightarrow> ch \<in> set (ni_letters (nm k)) \<and> ch \<notin> set (ni_letters (nm1 k))"
        "ch \<in> set toAdd \<longleftrightarrow> ch \<in> set (ni_letters (nm1 k)) \<and> ch \<notin> set (ni_letters (nm k))"
      using c by (auto simp: letters_changed_def)
    have "j \<in> (if ch \<in> set toAdd then insert k (?K ch) else ?K ch) \<longleftrightarrow> j \<in> with_letter nm1 ks ch" for j
      using k nm1[of j] s by (cases "j = k") (auto simp: with_letter_def)
    then show ?thesis by blast
  qed
  then have "index_inv en f (with_letter nm1 ks) m2" by (rule index_inv_cong[OF m2(2)])
  then show ?thesis using m1(1) m2(1) by blast
qed

lemma chats_inv_rename:
  assumes inv: "chats_inv f ks s" and names: "[] \<notin> set names"
  shows "\<exists>s1. chat_step f (ChatRename k names) s = Some s1 \<and> chats_inv f ks s1"
proof -
  let ?en = "ct_entries s" and ?nm = "ct_names s" and ?il = "ct_list s"
  let ?nm1 = "?nm(k := fill_name_index names)"
  have li: "list_inv ks (?en, il_list ?il)" "index_inv ?en f (with_letter ?nm ks) (il_index ?il)"
      "\<forall>k. name_index_ok (?nm k)" "links_ok ?nm ks (ct_links s f)" "il_sortMode ?il = SortDate" "il_filterId ?il = f"
    using inv by (auto simp: chats_inv_def)
  have ok1: "name_index_ok (fill_name_index names)" using names by (auto simp: name_index_ok_def)
  have names1: "\<forall>j. name_index_ok (?nm1 j)" using li(3) ok1 by simp
  have row: "getRow k (il_list ?il) = (if k \<in> ks then Some k else None)"
    using li(1) by (auto simp: list_inv_def list_ok_def getRow_def)
  show ?thesis
  proof (cases "k \<in> ks")
    case False
    have "index_inv ?en f (with_letter ?nm1 ks) (il_index ?il)"
      by (rule index_inv_cong[OF li(2)]) (use False in \<open>auto simp: with_letter_def\<close>)
    moreover have "links_ok ?nm1 ks (ct_links s f)"
      by (rule links_ok_cong[OF li(4)]) (use False in auto)
    ultimately show ?thesis using False row inv li(5) names1
      by (simp add: peerNameChanged_def adjustNames_def Let_def chats_inv_def)
  next
    case True
    obtain r where r: "ct_links s f k = Some r" using links_ok_at(1)[OF li(4), of k] True by auto
    obtain toRemove toAdd where c: "letters_changed (ni_letters (?nm k)) (ni_letters (?nm1 k)) = (toRemove, toAdd)"
      by (cases "letters_changed (ni_letters (?nm k)) (ni_letters (?nm1 k))")
    obtain m1 m2 where m: "index_change (\<lambda>l. map_option snd (list_remove k (Some k) l)) toRemove (il_index ?il) = Some m1"
        "index_add SortDate f (addToEnd ?en k) toAdd m1 = Some m2" "index_inv ?en f (with_letter ?nm1 ks) m2"
      using index_inv_rename[OF li(2) list_inv_entries[OF li(1)] True, of ?nm1 toRemove toAdd "Some k"] c
        name_index_letters(2)[OF spec[OF li(3), of k]] name_index_letters(2)[OF ok1] by auto
    let ?r = "r\<lparr>rl_letters := fold (\<lambda>ch m. fm_emplace ch k m) toAdd (fold fm_erase toRemove (rl_letters r))\<rparr>"
    let ?l = "(ct_links s)(f := (ct_links s f)(k \<mapsto> ?r))"
    have links: "fold (\<lambda>ch. addChatListEntryByLetter f ch k k) toAdd
        (fold (\<lambda>ch. removeChatListEntryByLetter f ch k) toRemove (ct_links s)) = ?l"
      unfolding fold_remove_letters[of "ct_links s" f k r, OF r] by (subst fold_add_letters, simp, cases r, simp)
    let ?s = "s\<lparr>ct_names := ?nm1, ct_links := ?l, ct_list := ?il\<lparr>il_index := m2\<rparr>\<rparr>"
    have "chat_step f (ChatRename k names) s = Some ?s"
      using True row m(1,2) li(5,6) c links by (simp add: peerNameChanged_def adjustNames_def)
    moreover have "row_links k (ni_letters (?nm1 k)) ?r"
      by (rule row_links_rename[OF _ c]) (use links_ok_at(2)[OF li(4) r] in simp)
    then have "links_ok ?nm1 (insert k ks) (?l f)"
      using links_ok_put[OF li(4), of k ?nm1 ?r] by simp
    then have "links_ok ?nm1 ks (?l f)" using True by (simp add: insert_absorb)
    ultimately show ?thesis using inv names1 m(3) by (intro exI[of _ ?s]) (simp add: chats_inv_def)
  qed
qed

fun chat_keys :: "('k, 'c) chat_call \<Rightarrow> 'k set \<Rightarrow> 'k set" where
  "chat_keys (ChatAdd k) ks = insert k ks"
| "chat_keys (ChatRemove k) ks = ks - {k}"
| "chat_keys c ks = ks"

fun chat_call_ok :: "('k, 'c) chat_call \<Rightarrow> bool" where
  "chat_call_ok (ChatRename k names) \<longleftrightarrow> [] \<notin> set names"
| "chat_call_ok c \<longleftrightarrow> True"

lemma chats_inv_step:
  assumes "chats_inv f ks s" and "chat_call_ok c"
  shows "\<exists>s1. chat_step f c s = Some s1 \<and> chats_inv f (chat_keys c ks) s1"
  using assms chats_inv_add[of f ks s] chats_inv_remove[of f ks s] chats_inv_redate[of f ks s]
    chats_inv_rename[of f ks s] chats_inv_height[of f ks s]
  by (cases c) simp_all

lemma chats_inv_run:
  assumes "chats_inv f ks s" and "list_all chat_call_ok cs"
  shows "\<exists>s1. chat_run f cs s = Some s1 \<and> chats_inv f (fold chat_keys cs ks) s1"
  using assms
proof (induction cs arbitrary: ks s)
  case (Cons c cs)
  obtain s1 where s1: "chat_step f c s = Some s1" "chats_inv f (chat_keys c ks) s1"
    using chats_inv_step[of f ks s c] Cons.prems by auto
  then show ?case using Cons.IH[OF s1(2)] Cons.prems(2) by auto
qed simp

definition new_chats :: "int \<Rightarrow> ('k, 'n) entries \<Rightarrow> ('k \<Rightarrow> 'c::linorder list list) \<Rightarrow> ('k, 'n, 'c) chats" where
  "new_chats f en names =
     \<lparr>ct_entries = en, ct_names = (\<lambda>k. fill_name_index (names k)), ct_links = (\<lambda>_. Map.empty), ct_list = new_indexed_list SortDate f\<rparr>"

lemma chats_inv_new:
  assumes "entries_ok en" and "\<And>k. [] \<notin> set (names k)"
  shows "chats_inv f {} (new_chats f en names)"
  using assms list_inv_new_filter[OF assms(1), of f]
  by (auto simp: chats_inv_def new_chats_def new_indexed_list_def links_ok_def index_inv_def with_letter_def name_index_ok_def)

text \<open>The entries and the names after some calls.\<close>

fun chat_dates :: "('k, 'c) chat_call \<Rightarrow> ('k, 'n) entries \<Rightarrow> ('k, 'n) entries" where
  "chat_dates (ChatRedate k v) en = set_sort_key k v en"
| "chat_dates c en = en"

fun chat_names :: "('k, 'c) chat_call \<Rightarrow> ('k \<Rightarrow> 'c list list) \<Rightarrow> 'k \<Rightarrow> 'c list list" where
  "chat_names (ChatRename k ns) names = names(k := ns)"
| "chat_names c names = names"

lemma chat_step_abs:
  assumes "chat_step f c s = Some s1" and "ct_names s = fill_name_index \<circ> names"
  shows "ct_entries s1 = chat_dates c (ct_entries s) \<and> ct_names s1 = fill_name_index \<circ> chat_names c names"
  using assms by (cases c)
    (auto simp: addToChatList_def removeFromChatList_def adjustByPosInChatList_def Let_def bind_eq_Some_conv
      split: if_splits option.splits prod.splits)

lemma chat_run_abs:
  assumes "chat_run f cs s = Some s1" and "ct_names s = fill_name_index \<circ> names"
  shows "ct_entries s1 = fold chat_dates cs (ct_entries s) \<and> ct_names s1 = fill_name_index \<circ> fold chat_names cs names"
  using assms
proof (induction cs arbitrary: s names)
  case (Cons c cs)
  then obtain s2 where s2: "chat_step f c s = Some s2" "chat_run f cs s2 = Some s1" by (auto simp: bind_eq_Some_conv)
  show ?case using Cons.IH[OF s2(2), of "chat_names c names"] chat_step_abs[OF s2(1) Cons.prems(2)] by simp
qed simp

lemma minimal_loop_Some:
  "minimal_loop il words result = Some l \<Longrightarrow>
   result = Some l \<or> (\<exists>word \<in> set words. word \<noteq> [] \<and> filtered (hd word) il = Some l \<and> \<not> list_empty l)"
proof (induction il words result rule: minimal_loop.induct)
  case (2 il word words result)
  show ?case
  proof (cases "word = []")
    case True
    then show ?thesis using 2 by auto
  next
    case False
    then obtain found where found: "filtered (hd word) il = Some found" "\<not> list_empty found"
      using "2.prems" by (auto split: option.splits if_splits)
    show ?thesis
    proof (cases result)
      case None
      then have "Some found = Some l \<or> (\<exists>word \<in> set words. word \<noteq> [] \<and> filtered (hd word) il = Some l \<and> \<not> list_empty l)"
        using "2.IH"(2)[OF False found(1,2)] "2.prems" False found by simp
      then show ?thesis using False found by auto
    next
      case (Some r)
      then have "(if list_size r > list_size found then Some found else Some r) = Some l
          \<or> (\<exists>word \<in> set words. word \<noteq> [] \<and> filtered (hd word) il = Some l \<and> \<not> list_empty l)"
        using "2.IH"(3)[OF False found(1,2) Some] "2.prems" False found by simp
      then show ?thesis using False found Some by (auto split: if_splits)
    qed
  qed
qed simp

lemma minimal_loop_None:
  "minimal_loop il words result = None \<Longrightarrow> result \<noteq> None \<or> (\<exists>word \<in> set words. word \<noteq> []) \<Longrightarrow>
   \<exists>word \<in> set words. word \<noteq> [] \<and> (\<forall>l. filtered (hd word) il = Some l \<longrightarrow> list_empty l)"
proof (induction il words result rule: minimal_loop.induct)
  case (2 il word words result)
  show ?case
  proof (cases "word = []")
    case True
    then show ?thesis using 2 by auto
  next
    case False
    show ?thesis
    proof (cases "\<exists>found. filtered (hd word) il = Some found \<and> \<not> list_empty found")
      case True
      then obtain found where found: "filtered (hd word) il = Some found" "\<not> list_empty found" by blast
      show ?thesis
      proof (cases result)
        case None
        then show ?thesis using "2.IH"(2)[OF False found(1,2)] "2.prems" False found by auto
      next
        case (Some r)
        then show ?thesis using "2.IH"(3)[OF False found(1,2) Some] "2.prems" False found by (auto split: if_splits)
      qed
    next
      case no: False
      then show ?thesis using False by auto
    qed
  qed
qed simp

lemma index_inv_filtered:
  assumes "index_inv en f K (il_index il)"
  shows "filtered ch il = None \<Longrightarrow> K ch = {}"
    and "filtered ch il = Some l \<Longrightarrow> list_inv (K ch) (en, l) \<and> dl_filterId l = f"
  using assms by (auto simp: index_inv_def filtered_def split: option.splits dest!: spec[of _ ch])

lemma name_matches_letter:
  assumes "name_index_ok ni" and "name_matches ni words" and "word \<in> set words" and "word \<noteq> []"
  shows "hd word \<in> set (ni_letters ni)"
proof -
  obtain name where name: "name \<in> set (ni_words ni)" "prefix word name" using assms(2,3) by (auto simp: name_matches_def)
  then have "hd name = hd word" using assms(4) by (auto simp: prefix_def)
  then show ?thesis unfolding name_index_letters(3)[OF assms(1)] by (metis name(1) imageI)
qed

lemma filtered_words_ok:
  assumes inv: "chats_inv f ks s"
  shows "distinct (filtered_words (ct_names s) words (ct_list s))"
    and "sorted_wrt (date_le (ct_entries s) f) (filtered_words (ct_names s) words (ct_list s))"
    and "set (filtered_words (ct_names s) words (ct_list s)) =
      (if \<exists>word \<in> set words. word \<noteq> [] then {k \<in> ks. name_matches (ct_names s k) words} else {})"
proof -
  let ?en = "ct_entries s" and ?nm = "ct_names s" and ?il = "ct_list s"
  have li: "list_inv ks (?en, il_list ?il)" "index_inv ?en f (with_letter ?nm ks) (il_index ?il)" "\<forall>k. name_index_ok (?nm k)"
    using inv by (auto simp: chats_inv_def)
  have match: "k \<in> with_letter ?nm ks (hd word)" if "k \<in> ks" "name_matches (?nm k) words" "word \<in> set words" "word \<noteq> []" for k word
    using name_matches_letter[OF spec[OF li(3), of k] that(2-4)] that(1) by (simp add: with_letter_def)
  have rows: "list_inv K (?en, l) \<Longrightarrow> set (dl_rows l) = K \<and> distinct (dl_rows l) \<and> sorted_wrt (date_le ?en (dl_filterId l)) (dl_rows l)" for K l
    by (simp add: list_inv_def list_ok_def)
  have "\<exists>xs. filtered_words ?nm words ?il = xs \<and> distinct xs \<and> sorted_wrt (date_le ?en f) xs
      \<and> set xs = (if \<exists>word \<in> set words. word \<noteq> [] then {k \<in> ks. name_matches (?nm k) words} else {})"
  proof (cases "list_empty (il_list ?il)")
    case True
    then have "ks = {}" using rows[OF li(1)] by (simp add: list_empty_def)
    then show ?thesis using True by (simp add: filtered_words_def)
  next
    case ne: False
    show ?thesis
    proof (cases "minimal_loop ?il words None")
      case None
      have "{k \<in> ks. name_matches (?nm k) words} = {}" if w: "\<exists>word \<in> set words. word \<noteq> []"
      proof -
        obtain word where word: "word \<in> set words" "word \<noteq> []" "\<forall>l. filtered (hd word) ?il = Some l \<longrightarrow> list_empty l"
          using minimal_loop_None[OF None] w by blast
        have "with_letter ?nm ks (hd word) = {}"
        proof (cases "filtered (hd word) ?il")
          case (Some l)
          have "set (dl_rows l) = with_letter ?nm ks (hd word)"
            using rows[OF conjunct1[OF index_inv_filtered(2)[OF li(2) Some]]] by blast
          then show ?thesis using word(3) Some by (simp add: list_empty_def)
        qed (rule index_inv_filtered(1)[OF li(2)])
        then show ?thesis using match[OF _ _ word(1,2)] by blast
      qed
      then show ?thesis using None ne by (simp add: filtered_words_def)
    next
      case (Some l)
      then obtain word where word: "word \<in> set words" "word \<noteq> []" "filtered (hd word) ?il = Some l" "\<not> list_empty l"
        using minimal_loop_Some[OF Some] by auto
      have l: "set (dl_rows l) = with_letter ?nm ks (hd word)" "distinct (dl_rows l)" "sorted_wrt (date_le ?en f) (dl_rows l)"
        using rows index_inv_filtered(2)[OF li(2) word(3)] by auto
      have fw: "filtered_words ?nm words ?il = filter (\<lambda>row. name_matches (?nm row) words) (dl_rows l)"
        using ne Some word(4) by (simp add: filtered_words_def)
      have "set (filter (\<lambda>row. name_matches (?nm row) words) (dl_rows l)) = {k \<in> ks. name_matches (?nm k) words}"
        using match[OF _ _ word(1,2)] by (auto simp: l(1) with_letter_def)
      then show ?thesis using fw l word(1,2) by (auto simp: sorted_wrt_filter)
    qed
  qed
  then show "distinct (filtered_words ?nm words ?il)" "sorted_wrt (date_le ?en f) (filtered_words ?nm words ?il)"
    "set (filtered_words ?nm words ?il) = (if \<exists>word \<in> set words. word \<noteq> [] then {k \<in> ks. name_matches (?nm k) words} else {})"
    by auto
qed

subsection \<open>The properties\<close>

text \<open>
  C17: whatever chats enter, leave, move in time, change height or are renamed, none of the calls
  fails, the list of a filter has exactly the chats that entered and did not leave, in the order of
  their sort keys, and the list of a letter exactly those of them that now have a word in their
  name with that letter first, in the same order; exactly the chats of the list have rows.
\<close>

theorem chat_index_follows_names:
  fixes names :: "'k \<Rightarrow> 'c::linorder list list" and en :: "('k, 'n) entries"
  assumes "entries_ok en" and "\<And>k. [] \<notin> set (names k)" and "list_all chat_call_ok cs"
  shows "\<exists>s. chat_run f cs (new_chats f en names) = Some s
      \<and> (let ks = fold chat_keys cs {}; now = fold chat_names cs names; en1 = fold chat_dates cs en;
             ordered = (\<lambda>l K. distinct (dl_rows l) \<and> set (dl_rows l) = K \<and> sorted_wrt (date_le en1 f) (dl_rows l))
         in ordered (il_list (ct_list s)) ks
            \<and> (\<forall>ch. let K = {k \<in> ks. ch \<in> hd ` set (now k)} in
                 case filtered ch (ct_list s) of None \<Rightarrow> K = {} | Some l \<Rightarrow> ordered l K)
            \<and> dom (ct_links s f) = ks)"
proof -
  obtain s where s: "chat_run f cs (new_chats f en names) = Some s" "chats_inv f (fold chat_keys cs {}) s"
    using chats_inv_run[OF chats_inv_new[where names = names, OF assms(1,2)] assms(3)] by blast
  have abs: "ct_entries s = fold chat_dates cs en" "ct_names s = fill_name_index \<circ> fold chat_names cs names"
    using chat_run_abs[OF s(1), of names] by (auto simp: new_chats_def comp_def)
  have letters: "with_letter (ct_names s) ks ch = {k \<in> ks. ch \<in> hd ` set (fold chat_names cs names k)}" for ks ch
    by (simp add: abs(2) with_letter_def fill_name_index_def)
  have li: "list_inv (fold chat_keys cs {}) (ct_entries s, il_list (ct_list s))" "dl_filterId (il_list (ct_list s)) = f"
      "index_inv (ct_entries s) f (with_letter (ct_names s) (fold chat_keys cs {})) (il_index (ct_list s))"
      "links_ok (ct_names s) (fold chat_keys cs {}) (ct_links s f)"
    using s(2) by (auto simp: chats_inv_def)
  have found: "distinct (dl_rows l) \<and> set (dl_rows l) = {k \<in> fold chat_keys cs {}. ch \<in> hd ` set (fold chat_names cs names k)}
      \<and> sorted_wrt (date_le (fold chat_dates cs en) f) (dl_rows l)" if "filtered ch (ct_list s) = Some l" for ch l
    using index_inv_filtered(2)[OF li(3) that] by (auto simp: list_inv_def list_ok_def abs(1) letters)
  have none: "{k \<in> fold chat_keys cs {}. ch \<in> hd ` set (fold chat_names cs names k)} = {}" if "filtered ch (ct_list s) = None" for ch
    using index_inv_filtered(1)[OF li(3) that] by (simp add: letters)
  have main: "distinct (dl_rows (il_list (ct_list s))) \<and> set (dl_rows (il_list (ct_list s))) = fold chat_keys cs {}
      \<and> sorted_wrt (date_le (fold chat_dates cs en) f) (dl_rows (il_list (ct_list s)))"
    using li(1,2) by (auto simp: list_inv_def list_ok_def abs(1))
  have "dom (ct_links s f) = fold chat_keys cs {}" using links_ok_at(1)[OF li(4)] by (auto simp: dom_def)
  then show ?thesis
    using s(1) main none found
    by (intro exI[of _ s]) (simp add: Let_def split: option.split)
qed

theorem chat_index_follows_names_witness:
  "\<exists>s. chat_run 0 [ChatAdd 1, ChatAdd 2, ChatRename 1 [[1, 5], [4, 2 :: nat]]]
      (new_chats 0 \<lparr>en_sortKey = \<lambda>_ k. of_nat k, en_nameKey = id, en_kind = \<lambda>_. OtherRow, en_rowHeight = 3, en_forumHeight = 4,
         en_topicHeight = 2, en_interpolate = \<lambda>a b _. a\<rparr> (\<lambda>k::nat. [[2, 6 :: nat]]))
      = Some s \<and> dom (ct_links s 0) = {1, 2}"
proof -
  have ok: "entries_ok \<lparr>en_sortKey = \<lambda>_ k. of_nat k, en_nameKey = id, en_kind = \<lambda>_. OtherRow, en_rowHeight = 3, en_forumHeight = 4,
      en_topicHeight = 2, en_interpolate = \<lambda>a b _. a\<rparr>"
    by (simp add: entries_ok_def)
  show ?thesis
    using chat_index_follows_names[OF ok, of "\<lambda>k::nat. [[2, 6 :: nat]]" "[ChatAdd 1, ChatAdd 2, ChatRename 1 [[1, 5], [4, 2 :: nat]]]" 0]
    by (auto simp: Let_def)
qed

text \<open>
  C15: searching by words finds, in the order of the list and each once, exactly the chats of the
  list that have for each word a word of their name that starts with it; the choice of the shortest
  list of a letter loses none. Without a word that is not empty nothing is found.
\<close>

theorem chat_search_exact:
  fixes names :: "'k \<Rightarrow> 'c::linorder list list" and en :: "('k, 'n) entries"
  assumes "entries_ok en" and "\<And>k. [] \<notin> set (names k)" and "list_all chat_call_ok cs"
    and "chat_run f cs (new_chats f en names) = Some s"
  shows "let ks = fold chat_keys cs {}; now = fold chat_names cs names;
             found = filtered_words (ct_names s) words (ct_list s)
         in distinct found \<and> sorted_wrt (date_le (fold chat_dates cs en) f) found
            \<and> set found = (if \<forall>word \<in> set words. word = [] then {}
                else {k \<in> ks. \<forall>word \<in> set words. \<exists>name \<in> set (now k). prefix word name})"
proof -
  have inv: "chats_inv f (fold chat_keys cs {}) s"
    using chats_inv_run[OF chats_inv_new[where names = names, OF assms(1,2)] assms(3), of f] assms(4) by auto
  have abs: "ct_entries s = fold chat_dates cs en" "ct_names s = fill_name_index \<circ> fold chat_names cs names"
    using chat_run_abs[OF assms(4), of names] by (auto simp: new_chats_def comp_def)
  have "name_matches (ct_names s k) words \<longleftrightarrow> (\<forall>word \<in> set words. \<exists>name \<in> set (fold chat_names cs names k). prefix word name)" for k
    by (simp add: abs(2) name_matches_def fill_name_index_def)
  then show ?thesis using filtered_words_ok[OF inv, of words] by (auto simp: Let_def abs(1))
qed

theorem chat_search_exact_witness:
  "\<exists>s. chat_run 0 [ChatAdd 1, ChatAdd 2, ChatRename 1 [[1, 5], [4, 2 :: nat]]]
      (new_chats 0 \<lparr>en_sortKey = \<lambda>_ k. of_nat k, en_nameKey = id, en_kind = \<lambda>_. OtherRow, en_rowHeight = 3, en_forumHeight = 4,
         en_topicHeight = 2, en_interpolate = \<lambda>a b _. a\<rparr> (\<lambda>k::nat. [[2, 6 :: nat]]))
      = Some s \<and> set (filtered_words (ct_names s) [[4], [1, 5 :: nat]] (ct_list s)) = {1}"
proof -
  let ?en = "\<lparr>en_sortKey = \<lambda>_ k. of_nat k, en_nameKey = id, en_kind = \<lambda>_. OtherRow, en_rowHeight = 3, en_forumHeight = 4,
      en_topicHeight = 2, en_interpolate = \<lambda>a b _. a\<rparr>"
  let ?cs = "[ChatAdd 1, ChatAdd 2, ChatRename (1::nat) [[1, 5], [4, 2 :: nat]]]"
  have ok: "entries_ok ?en" by (simp add: entries_ok_def)
  have names: "[] \<notin> set [[2, 6 :: nat]]" and calls: "list_all chat_call_ok ?cs" by simp_all
  obtain s where s: "chat_run 0 ?cs (new_chats 0 ?en (\<lambda>k. [[2, 6 :: nat]])) = Some s"
    using chats_inv_run[OF chats_inv_new[OF ok, of "\<lambda>k. [[2, 6 :: nat]]"] calls, of 0] by auto
  have "set (filtered_words (ct_names s) [[4], [1, 5 :: nat]] (ct_list s)) = {1}"
    using chat_search_exact[OF ok names calls s, of "[[4], [1, 5 :: nat]]"] by (auto simp: Let_def prefix_def)
  then show ?thesis using s by blast
qed

end
