(* ===== verification/UnreadThings.thy ===== *)
theory UnreadThings
  imports Prelude
begin

text \<open>
  The unread mentions and reactions of a thread, from \<open>history/history_unread_things.{h,cpp}\<close>: the ids
  loaded so far and the number of all of them, for both kinds in data that is made when needed and
  dropped when both numbers are zero. A proxy is an access to one kind; what the thread is told by it
  (\<open>hasUnreadMentionChanged\<close>, \<open>hasUnreadReactionChanged\<close>, and the updates for views) is recorded.
\<close>

subsection \<open>Lists\<close>

datatype AddType = New | Existing

datatype ThingsType = Mentions | Reactions

record things_list =
  tl_count :: "int option"
  tl_messages :: "int flat_set"

definition new_things_list :: things_list where
  "new_things_list = \<lparr>tl_count = None, tl_messages = []\<rparr>"

definition list_loadedCount :: "things_list \<Rightarrow> int" where
  "list_loadedCount l = int (length (tl_messages l))"

definition list_minLoaded :: "things_list \<Rightarrow> int" where
  "list_minLoaded l = (if tl_messages l = [] then 0 else hd (tl_messages l))"

definition list_maxLoaded :: "things_list \<Rightarrow> int" where
  "list_maxLoaded l = (if tl_messages l = [] then 0 else last (tl_messages l))"

definition list_count :: "int \<Rightarrow> things_list \<Rightarrow> int" where
  "list_count notKnownValue l = (case tl_count l of None \<Rightarrow> notKnownValue | Some n \<Rightarrow> n)"

definition list_has :: "things_list \<Rightarrow> bool" where
  "list_has l \<longleftrightarrow> list_count (-1) l > 0"

definition things_insert :: "int \<Rightarrow> things_list \<Rightarrow> things_list" where
  "things_insert msgId l = l\<lparr>tl_messages := fs_insert msgId (tl_messages l)\<rparr>"

definition things_erase :: "int \<Rightarrow> things_list \<Rightarrow> things_list" where
  "things_erase msgId l = l\<lparr>tl_messages := fs_remove msgId (tl_messages l)\<rparr>"

definition things_clear :: "things_list \<Rightarrow> things_list" where
  "things_clear l = l\<lparr>tl_messages := []\<rparr>"

record things_all =
  ta_mentions :: things_list
  ta_reactions :: things_list

subsection \<open>Threads\<close>

record things =
  th_known :: bool
  th_data :: "things_all option"
  th_inChatList :: bool
  th_changed :: "(ThingsType \<times> bool) list"
  th_updated :: nat

definition new_things :: things where
  "new_things = \<lparr>th_known = False, th_data = None, th_inChatList = False, th_changed = [], th_updated = 0\<rparr>"

fun of_type :: "ThingsType \<Rightarrow> things_all \<Rightarrow> things_list" where
  "of_type Mentions d = ta_mentions d"
| "of_type Reactions d = ta_reactions d"

fun other_of_type :: "ThingsType \<Rightarrow> things_all \<Rightarrow> things_list" where
  "other_of_type Mentions d = ta_reactions d"
| "other_of_type Reactions d = ta_mentions d"

fun put_type :: "ThingsType \<Rightarrow> things_list \<Rightarrow> things_all \<Rightarrow> things_all" where
  "put_type Mentions l d = d\<lparr>ta_mentions := l\<rparr>"
| "put_type Reactions l d = d\<lparr>ta_reactions := l\<rparr>"

text \<open>\<open>ConstProxy\<close>\<close>

definition proxy_count :: "ThingsType \<Rightarrow> int \<Rightarrow> things \<Rightarrow> int" where
  "proxy_count ty notKnownValue t =
     (case th_data t of
        Some d \<Rightarrow> list_count notKnownValue (of_type ty d)
      | None \<Rightarrow> if th_known t then 0 else notKnownValue)"

definition proxy_has :: "ThingsType \<Rightarrow> things \<Rightarrow> bool" where
  "proxy_has ty t \<longleftrightarrow> (case th_data t of Some d \<Rightarrow> list_has (of_type ty d) | None \<Rightarrow> False)"

definition proxy_loadedCount :: "ThingsType \<Rightarrow> things \<Rightarrow> int" where
  "proxy_loadedCount ty t = (case th_data t of Some d \<Rightarrow> list_loadedCount (of_type ty d) | None \<Rightarrow> 0)"

definition notifyUpdated :: "things \<Rightarrow> things" where
  "notifyUpdated t = t\<lparr>th_updated := th_updated t + 1\<rparr>"

text \<open>\<open>Proxy\<close>; \<open>known\<close> is what the proxy was made with.\<close>

definition createData :: "bool \<Rightarrow> things_all" where
  "createData known =
     (let l = (if known then new_things_list\<lparr>tl_count := Some 0\<rparr> else new_things_list)
      in \<lparr>ta_mentions = l, ta_reactions = l\<rparr>)"

definition things_data :: "bool \<Rightarrow> things \<Rightarrow> things_all" where
  "things_data known t = (case th_data t of Some d \<Rightarrow> d | None \<Rightarrow> createData known)"

definition proxy_setCount :: "bool \<Rightarrow> ThingsType \<Rightarrow> int \<Rightarrow> things \<Rightarrow> things" where
  "proxy_setCount known ty n t =
     (let t1 = (if \<not> known then t\<lparr>th_known := True\<rparr> else t)
      in if th_data t1 = None \<and> n = 0 then t1
         else let d = things_data known t1; l = of_type ty d;
                  cnt = (if list_loadedCount l > n then list_loadedCount l else n);
                  had = (list_count (-1) l > 0); has = (cnt > 0);
                  d1 = (if cnt = 0 \<and> list_count (-1) (other_of_type ty d) = 0 then None
                        else Some (put_type ty (l\<lparr>tl_count := Some cnt\<rparr>) d));
                  t2 = t1\<lparr>th_data := d1\<rparr>
           in if has \<noteq> had \<and> th_inChatList t2 then t2\<lparr>th_changed := th_changed t2 @ [(ty, has)]\<rparr> else t2)"

definition proxy_add :: "bool \<Rightarrow> ThingsType \<Rightarrow> int \<Rightarrow> AddType \<Rightarrow> things \<Rightarrow> bool \<times> things" where
  "proxy_add isBroadcast ty msgId how t =
     (if isBroadcast then (False, t)
      else let known = th_known t; d = things_data known t; t1 = t\<lparr>th_data := Some d\<rparr>; l = of_type ty d;
               cnt = list_count (-1) l; loaded = list_loadedCount l;
               t2 = t1\<lparr>th_data := Some (put_type ty (things_insert msgId l) d)\<rparr>
        in if cnt \<ge> 0 \<and> loaded \<ge> cnt then
             (if how = New \<or> msgId \<notin> set (tl_messages l) then (True, proxy_setCount known ty (cnt + 1) t2)
              else (False, t1))
           else if loaded > 0 \<and> how \<noteq> New then (True, t2)
           else (False, t1))"

definition proxy_erase :: "ThingsType \<Rightarrow> int \<Rightarrow> things \<Rightarrow> things" where
  "proxy_erase ty msgId t =
     (case th_data t of
        None \<Rightarrow> t
      | Some d \<Rightarrow>
          let l = things_erase msgId (of_type ty d); t1 = t\<lparr>th_data := Some (put_type ty l d)\<rparr>; cnt = list_count (-1) l
          in notifyUpdated (if cnt > 0 then proxy_setCount (th_known t) ty (cnt - 1) t1 else t1))"

definition proxy_clear :: "ThingsType \<Rightarrow> things \<Rightarrow> things" where
  "proxy_clear ty t =
     (case th_data t of
        None \<Rightarrow> t
      | Some d \<Rightarrow>
          if proxy_count ty (-1) t = 0 then t
          else notifyUpdated (proxy_setCount (th_known t) ty 0
            (t\<lparr>th_data := Some (put_type ty (things_clear (of_type ty d)) d)\<rparr>)))"

text \<open>
  A slice of messages as received; the messages are given as ids with whether the item that
  \<open>History::addNewMessage\<close> makes is an unread mention or has an unread reaction. Making the items is
  taken not to touch the data itself.
\<close>

datatype things_slice =
    MessagesNotModified
  | MessagesAll "(int \<times> bool) list"
  | MessagesSlice int "(int \<times> bool) list"

fun slice_fullCount :: "things_slice \<Rightarrow> int" where
  "slice_fullCount MessagesNotModified = 0"
| "slice_fullCount (MessagesAll items) = int (length items)"
| "slice_fullCount (MessagesSlice n items) = n"

fun slice_items :: "things_slice \<Rightarrow> (int \<times> bool) list" where
  "slice_items MessagesNotModified = []"
| "slice_items (MessagesAll items) = items"
| "slice_items (MessagesSlice n items) = items"

fun insert_items :: "(int \<times> bool) list \<Rightarrow> things_list \<Rightarrow> things_list" where
  "insert_items [] l = l"
| "insert_items ((msgId, unread) # items) l = insert_items items (if unread then things_insert msgId l else l)"

definition proxy_addSlice :: "ThingsType \<Rightarrow> things_slice \<Rightarrow> int \<Rightarrow> things \<Rightarrow> things" where
  "proxy_addSlice ty sl alreadyLoaded t =
     (let t1 = (case th_data t of
            Some d \<Rightarrow> if alreadyLoaded = 0 then t\<lparr>th_data := Some (put_type ty (things_clear (of_type ty d)) d)\<rparr> else t
          | None \<Rightarrow> t);
          items = slice_items sl;
          t2 = (if items \<noteq> [] then t1\<lparr>th_data := Some (things_data (th_known t) t1)\<rparr> else t1);
          t3 = (case th_data t2 of
            Some d \<Rightarrow> t2\<lparr>th_data := Some (put_type ty (insert_items items (of_type ty d)) d)\<rparr>
          | None \<Rightarrow> t2);
          fullCount = (if \<exists>item \<in> set items. snd item then slice_fullCount sl else proxy_loadedCount ty t3)
      in notifyUpdated (proxy_setCount (th_known t) ty fullCount t3))"

text \<open>
  \<open>checkAdd\<close> of a reaction: \<open>found\<close> is the item with that id, as whether it has an unread reaction; adding it goes
  through the item to \<open>proxy_add\<close>. A request for the message, which tries again, is the flag returned.
\<close>

definition proxy_checkAdd :: "bool \<Rightarrow> int \<Rightarrow> bool \<Rightarrow> bool option \<Rightarrow> things \<Rightarrow> bool \<times> things" where
  "proxy_checkAdd isBroadcast msgId resolved found t =
     (case th_data t of
        None \<Rightarrow> (False, t)
      | Some d \<Rightarrow>
          let l = of_type Reactions d in
          if list_loadedCount l = 0 \<or> list_maxLoaded l \<le> msgId then (False, t)
          else (case found of
              Some unread \<Rightarrow> (False, if unread then snd (proxy_add isBroadcast Reactions msgId Existing t) else t)
            | None \<Rightarrow> (\<not> resolved, t)))"

subsection \<open>Calls\<close>

datatype things_call =
    ThSetCount ThingsType int
  | ThAdd bool ThingsType int AddType
  | ThErase ThingsType int
  | ThClear ThingsType
  | ThAddSlice ThingsType things_slice int
  | ThCheckAdd bool int bool "bool option"

fun things_step :: "things_call \<Rightarrow> things \<Rightarrow> things" where
  "things_step (ThSetCount ty n) t = proxy_setCount (th_known t) ty n t"
| "things_step (ThAdd isBroadcast ty msgId how) t = snd (proxy_add isBroadcast ty msgId how t)"
| "things_step (ThErase ty msgId) t = proxy_erase ty msgId t"
| "things_step (ThClear ty) t = proxy_clear ty t"
| "things_step (ThAddSlice ty sl alreadyLoaded) t = proxy_addSlice ty sl alreadyLoaded t"
| "things_step (ThCheckAdd isBroadcast msgId resolved found) t = snd (proxy_checkAdd isBroadcast msgId resolved found t)"

definition list_fine :: "things_list \<Rightarrow> bool" where
  "list_fine l \<longleftrightarrow> sorted_wrt (<) (tl_messages l) \<and> (\<forall>n. tl_count l = Some n \<longrightarrow> list_loadedCount l \<le> n)"

definition data_sorted :: "things_all \<Rightarrow> bool" where
  "data_sorted d \<longleftrightarrow> sorted_wrt (<) (tl_messages (ta_mentions d)) \<and> sorted_wrt (<) (tl_messages (ta_reactions d))"

definition things_fine :: "things \<Rightarrow> bool" where
  "things_fine t \<longleftrightarrow> (\<forall>d. th_data t = Some d \<longrightarrow> list_fine (ta_mentions d) \<and> list_fine (ta_reactions d))"

text \<open>What a listener knows that starts with \<open>b\<close> and hears the changes of one kind.\<close>

fun heard :: "ThingsType \<Rightarrow> (ThingsType \<times> bool) list \<Rightarrow> bool \<Rightarrow> bool" where
  "heard ty [] b = b"
| "heard ty ((ty1, has) # es) b = heard ty es (if ty1 = ty then has else b)"

fun only_changes :: "ThingsType \<Rightarrow> (ThingsType \<times> bool) list \<Rightarrow> bool \<Rightarrow> bool" where
  "only_changes ty [] b \<longleftrightarrow> True"
| "only_changes ty ((ty1, has) # es) b \<longleftrightarrow> (ty1 = ty \<longrightarrow> has \<noteq> b) \<and> only_changes ty es (if ty1 = ty then has else b)"

lemma heard_append: "heard ty (es @ fs) b = heard ty fs (heard ty es b)"
  by (induction ty es b rule: heard.induct) auto

lemma only_changes_append: "only_changes ty (es @ fs) b \<longleftrightarrow> only_changes ty es b \<and> only_changes ty fs (heard ty es b)"
  by (induction ty es b rule: heard.induct) auto

text \<open>An operation tells what it changes: the events it adds lead from what was there to what is.\<close>

definition tells :: "things \<Rightarrow> things \<Rightarrow> bool" where
  "tells t t1 \<longleftrightarrow> th_inChatList t1 = th_inChatList t \<and> (\<exists>es. th_changed t1 = th_changed t @ es \<and>
     (th_inChatList t \<longrightarrow> (\<forall>ty. heard ty es (proxy_has ty t) = proxy_has ty t1 \<and> only_changes ty es (proxy_has ty t))))"

lemma tells_refl: "tells t t"
  by (auto simp: tells_def)

lemma tells_trans:
  assumes "tells t t1" and "tells t1 t2"
  shows "tells t t2"
proof -
  obtain es where es: "th_changed t1 = th_changed t @ es"
      "th_inChatList t \<longrightarrow> (\<forall>ty. heard ty es (proxy_has ty t) = proxy_has ty t1 \<and> only_changes ty es (proxy_has ty t))"
    using assms(1) by (auto simp: tells_def)
  obtain fs where fs: "th_changed t2 = th_changed t1 @ fs"
      "th_inChatList t1 \<longrightarrow> (\<forall>ty. heard ty fs (proxy_has ty t1) = proxy_has ty t2 \<and> only_changes ty fs (proxy_has ty t1))"
    using assms(2) by (auto simp: tells_def)
  show ?thesis using assms es fs
    unfolding tells_def by (intro conjI exI[of _ "es @ fs"]) (auto simp: heard_append only_changes_append)
qed

text \<open>Changes that keep what \<open>has\<close> answers need not be told.\<close>

lemma tells_quiet:
  "th_inChatList t1 = th_inChatList t \<Longrightarrow> th_changed t1 = th_changed t \<Longrightarrow> (\<And>ty. proxy_has ty t1 = proxy_has ty t) \<Longrightarrow> tells t t1"
  by (auto simp: tells_def)

definition set_value :: "bool \<Rightarrow> ThingsType \<Rightarrow> int \<Rightarrow> things \<Rightarrow> int" where
  "set_value known ty n t = max n (list_loadedCount (of_type ty (things_data known t)))"

lemma of_put [simp]:
  "of_type ty (put_type ty l d) = l" "other_of_type ty (put_type ty l d) = other_of_type ty d"
  "ty1 \<noteq> ty \<Longrightarrow> of_type ty1 (put_type ty l d) = of_type ty1 d"
  by (cases ty; cases ty1; simp)+

lemma other_type: "ty1 \<noteq> ty \<Longrightarrow> other_of_type ty d = of_type ty1 d"
  by (cases ty; cases ty1; simp)

lemma new_data [simp]:
  "list_loadedCount (of_type ty (createData known)) = 0" "list_has (of_type ty (createData known)) = False"
  "tl_messages (of_type ty (createData known)) = []"
  by (cases ty; simp add: createData_def Let_def new_things_list_def list_loadedCount_def list_has_def list_count_def)+

lemma has_data: "proxy_has ty t = list_has (of_type ty (things_data known t))"
  by (simp add: proxy_has_def things_data_def split: option.split)

lemma list_has_count [simp]: "list_has (l\<lparr>tl_count := Some n\<rparr>) = (n > 0)"
  by (simp add: list_has_def list_count_def)

lemma things_data_known [simp]: "things_data known (t\<lparr>th_known := b\<rparr>) = things_data known t"
  by (simp add: things_data_def)

lemma set_value_if:
  "(if list_loadedCount (of_type ty (things_data known t)) > n then list_loadedCount (of_type ty (things_data known t)) else n)
     = set_value known ty n t"
  by (simp add: set_value_def max_def)

lemma set_value_none: "th_data t = None \<Longrightarrow> set_value known ty n t = max n 0"
  by (simp add: set_value_def things_data_def)

lemma proxy_setCount_data:
  "th_data (proxy_setCount known ty n t) =
     (if set_value known ty n t = 0
         \<and> (th_data t = None \<and> n = 0 \<or> list_count (-1) (other_of_type ty (things_data known t)) = 0) then None
      else Some (put_type ty ((of_type ty (things_data known t))\<lparr>tl_count := Some (set_value known ty n t)\<rparr>) (things_data known t)))"
  by (cases "th_data t = None \<and> n = 0"; cases known)
    (simp_all add: proxy_setCount_def Let_def set_value_if set_value_none)

lemma proxy_setCount_has: "proxy_has ty1 (proxy_setCount known ty n t) = (if ty1 = ty then set_value known ty n t > 0 else proxy_has ty1 t)"
proof -
  have other: "\<not> list_has (of_type ty1 (things_data known t))" if "ty1 \<noteq> ty" "list_count (-1) (other_of_type ty (things_data known t)) = 0"
    using that by (simp add: list_has_def other_type)
  show ?thesis
    unfolding proxy_has_def[of ty1 "proxy_setCount known ty n t"] proxy_setCount_data has_data[of ty1 t known]
    using other by (auto simp: things_data_def)
qed

lemma proxy_has_count: "proxy_has ty t \<longleftrightarrow> list_count (-1) (of_type ty (things_data known t)) > 0"
  by (simp add: has_data[of ty t known] list_has_def)

lemma proxy_setCount_changed:
  "th_changed (proxy_setCount known ty n t) = th_changed t @
     (if (set_value known ty n t > 0) \<noteq> proxy_has ty t \<and> th_inChatList t then [(ty, set_value known ty n t > 0)] else [])"
proof (cases "th_data t = None \<and> n = 0")
  case True
  then show ?thesis by (simp add: proxy_setCount_def Let_def set_value_none proxy_has_def)
next
  case False
  then show ?thesis unfolding proxy_has_count[of ty t known]
    by (cases known) (auto simp: proxy_setCount_def Let_def set_value_if)
qed

lemma proxy_setCount_inChatList [simp]: "th_inChatList (proxy_setCount known ty n t) = th_inChatList t"
  by (simp add: proxy_setCount_def Let_def)

lemma proxy_setCount_tells: "tells t (proxy_setCount known ty n t)"
  unfolding tells_def by (auto simp: proxy_setCount_changed proxy_setCount_has)

lemma things_data_fine:
  assumes "things_fine t"
  shows "list_fine (of_type ty (things_data known t))" "list_fine (other_of_type ty (things_data known t))"
  using assms by (cases ty; auto simp: things_fine_def things_data_def createData_def Let_def new_things_list_def list_fine_def
    list_loadedCount_def split: option.splits)+



lemma list_has_change [simp]:
  "list_has (things_insert m l) = list_has l" "list_has (things_erase m l) = list_has l" "list_has (things_clear l) = list_has l"
  "list_count v (things_erase m l) = list_count v l" "list_has (insert_items items l) = list_has l"
proof -
  show "list_has (insert_items items l) = list_has l"
    by (induction items l rule: insert_items.induct) (auto simp: things_insert_def list_has_def list_count_def)
qed (simp_all add: things_insert_def things_erase_def things_clear_def list_has_def list_count_def)

lemma put_has: "list_has l = list_has (of_type ty d) \<Longrightarrow> list_has (of_type ty1 (put_type ty l d)) = list_has (of_type ty1 d)"
  by (cases "ty1 = ty") auto

lemma tells_data: "(\<And>ty. list_has (of_type ty d) = proxy_has ty t) \<Longrightarrow> tells t (t\<lparr>th_data := Some d\<rparr>)"
  by (rule tells_quiet) (auto simp: proxy_has_def)

lemma updated_same [simp]: "tells t (notifyUpdated t1) = tells t t1" "things_fine (notifyUpdated t1) = things_fine t1"
  by (simp_all add: tells_def notifyUpdated_def proxy_has_def things_fine_def)

text \<open>A change of the list of one kind that keeps its number, then a new number.\<close>

lemma change_then_set:
  assumes "list_has l = list_has (of_type ty (things_data known t))"
  shows "tells t (proxy_setCount known1 ty n (t\<lparr>th_data := Some (put_type ty l (things_data known t))\<rparr>))"
  by (rule tells_trans[OF tells_data proxy_setCount_tells]) (simp add: put_has[OF assms] has_data[of _ t known])

lemma setCount_fine:
  assumes "sorted_wrt (<) (tl_messages (of_type ty (things_data known t)))" and "list_fine (other_of_type ty (things_data known t))"
  shows "things_fine (proxy_setCount known ty n t)"
proof -
  have l: "list_fine ((of_type ty (things_data known t))\<lparr>tl_count := Some (set_value known ty n t)\<rparr>)"
    using assms(1) by (simp add: list_fine_def list_loadedCount_def set_value_def)
  have "list_fine (ta_mentions d) \<and> list_fine (ta_reactions d)"
    if "d = put_type ty ((of_type ty (things_data known t))\<lparr>tl_count := Some (set_value known ty n t)\<rparr>) (things_data known t)" for d
    using that l assms(2) by (cases ty) auto
  then show ?thesis by (auto simp: things_fine_def proxy_setCount_data)
qed

lemma change_then_set_fine:
  assumes "things_fine t" and "sorted_wrt (<) (tl_messages l)"
  shows "things_fine (proxy_setCount known1 ty n (t\<lparr>th_data := Some (put_type ty l (things_data known t))\<rparr>))"
  by (rule setCount_fine) (use assms things_data_fine(2)[OF assms(1)] in \<open>simp_all add: things_data_def[of known1]\<close>)

lemma sorted_change:
  "sorted_wrt (<) (tl_messages l) \<Longrightarrow> sorted_wrt (<) (tl_messages (things_insert m l))"
  "sorted_wrt (<) (tl_messages l) \<Longrightarrow> sorted_wrt (<) (tl_messages (things_erase m l))"
  "sorted_wrt (<) (tl_messages (things_clear l))"
  "sorted_wrt (<) (tl_messages l) \<Longrightarrow> sorted_wrt (<) (tl_messages (insert_items items l))"
proof -
  show "sorted_wrt (<) (tl_messages l) \<Longrightarrow> sorted_wrt (<) (tl_messages (insert_items items l))"
    by (induction items l rule: insert_items.induct) (auto simp: things_insert_def sorted_fs_insert)
qed (simp_all add: things_insert_def things_erase_def things_clear_def sorted_fs_insert sorted_fs_remove)

lemma fine_put:
  assumes "things_fine t" and "list_fine l"
  shows "things_fine (t\<lparr>th_data := Some (put_type ty l (things_data known t))\<rparr>)"
  using assms(2) things_data_fine(2)[OF assms(1), of ty known] by (cases ty) (auto simp: things_fine_def)

lemma fs_length: "sorted_wrt (<) s \<Longrightarrow> length (fs_insert x s) \<le> length s + 1" "length (fs_remove x s) \<le> length s"
proof -
  show "sorted_wrt (<) s \<Longrightarrow> length (fs_insert x s) \<le> length s + 1"
    by (induction s) auto
qed (simp add: fs_remove_def)

lemma list_sorted: "list_fine l \<Longrightarrow> sorted_wrt (<) (tl_messages l)"
  by (simp add: list_fine_def)

lemma add_ok:
  assumes t: "things_fine t"
  shows "tells t (snd (proxy_add b ty msgId how t)) \<and> things_fine (snd (proxy_add b ty msgId how t))"
proof -
  let ?known = "th_known t" let ?d = "things_data ?known t" let ?l = "of_type ty ?d"
  have l: "list_fine ?l" by (rule things_data_fine(1)[OF t])
  have create: "tells t (t\<lparr>th_data := Some ?d\<rparr>)" "things_fine (t\<lparr>th_data := Some ?d\<rparr>)"
    using things_data_fine[OF t, of Mentions ?known] by (auto intro!: tells_data simp: has_data[of _ t ?known] things_fine_def)
  let ?t2 = "t\<lparr>th_data := Some (put_type ty (things_insert msgId ?l) ?d)\<rparr>"
  have t2: "tells t ?t2" by (rule tells_data) (simp add: put_has has_data[of _ t ?known])
  have "things_fine ?t2" if "\<not> (list_count (-1) ?l \<ge> 0 \<and> list_loadedCount ?l \<ge> list_count (-1) ?l)" "list_loadedCount ?l > 0"
  proof (rule fine_put[OF t])
    have "int (length (fs_insert msgId (tl_messages ?l))) \<le> int (length (tl_messages ?l)) + 1"
      using fs_length(1)[OF list_sorted[OF l], of msgId] by linarith
    then show "list_fine (things_insert msgId ?l)"
      using l that by (auto simp: list_fine_def things_insert_def sorted_fs_insert list_loadedCount_def list_count_def)
  qed
  then show ?thesis
    using create t2 change_then_set[of "things_insert msgId ?l" ty ?known t] change_then_set_fine[OF t sorted_change(1)[OF list_sorted[OF l]]]
    by (auto simp: proxy_add_def Let_def tells_refl t)
qed

lemma erase_ok:
  assumes t: "things_fine t"
  shows "tells t (proxy_erase ty msgId t) \<and> things_fine (proxy_erase ty msgId t)"
proof (cases "th_data t")
  case (Some d)
  then have d: "things_data (th_known t) t = d" by (simp add: things_data_def)
  let ?l = "things_erase msgId (of_type ty d)"
  have l: "list_fine (of_type ty d)" using things_data_fine(1)[OF t, of ty "th_known t"] by (simp add: d)
  have "int (length (fs_remove msgId (tl_messages (of_type ty d)))) \<le> int (length (tl_messages (of_type ty d)))"
    using fs_length(2) by simp
  then have fine: "list_fine ?l"
    using l by (auto simp: list_fine_def things_erase_def sorted_fs_remove list_loadedCount_def)
  have "tells t (t\<lparr>th_data := Some (put_type ty ?l d)\<rparr>)"
    by (rule tells_data) (simp add: put_has has_data[of _ t "th_known t"] d)
  moreover have "things_fine (t\<lparr>th_data := Some (put_type ty ?l d)\<rparr>)" using fine_put[OF t fine, of ty "th_known t"] by (simp add: d)
  ultimately show ?thesis
    using change_then_set[of ?l ty "th_known t" t] change_then_set_fine[OF t list_sorted[OF fine], of _ ty _ "th_known t"]
    by (simp add: proxy_erase_def Some Let_def d)
qed (simp add: proxy_erase_def tells_refl t)

lemma clear_ok:
  assumes t: "things_fine t"
  shows "tells t (proxy_clear ty t) \<and> things_fine (proxy_clear ty t)"
proof (cases "th_data t")
  case (Some d)
  then have d: "things_data (th_known t) t = d" by (simp add: things_data_def)
  show ?thesis
    using change_then_set[of "things_clear (of_type ty d)" ty "th_known t" t]
      change_then_set_fine[OF t sorted_change(3), of _ ty _ _ "th_known t"] t
    by (simp add: proxy_clear_def Some d tells_refl)
qed (simp add: proxy_clear_def tells_refl t)

lemma checkAdd_ok:
  assumes t: "things_fine t"
  shows "tells t (snd (proxy_checkAdd b msgId resolved found t)) \<and> things_fine (snd (proxy_checkAdd b msgId resolved found t))"
  using add_ok[OF t] t by (auto simp: proxy_checkAdd_def Let_def tells_refl split: option.split)


lemma put_put [simp]: "put_type ty a (put_type ty b d) = put_type ty a d"
  by (cases ty) auto

lemma addSlice_ok:
  assumes t: "things_fine t"
  shows "tells t (proxy_addSlice ty sl alreadyLoaded t) \<and> things_fine (proxy_addSlice ty sl alreadyLoaded t)"
proof (cases "th_data t = None \<and> slice_items sl = []")
  case True
  then show ?thesis
    using setCount_fine[of ty "th_known t" t] list_sorted[OF things_data_fine(1)[OF t]] things_data_fine(2)[OF t]
    by (simp add: proxy_addSlice_def Let_def proxy_setCount_tells)
next
  case False
  let ?d = "things_data (th_known t) t"
  let ?old = "if th_data t \<noteq> None \<and> alreadyLoaded = 0 then things_clear (of_type ty ?d) else of_type ty ?d"
  let ?l = "insert_items (slice_items sl) ?old"
  have eq: "\<exists>n. proxy_addSlice ty sl alreadyLoaded t
      = notifyUpdated (proxy_setCount (th_known t) ty n (t\<lparr>th_data := Some (put_type ty ?l ?d)\<rparr>))"
    using False by (cases "th_data t") (auto simp: proxy_addSlice_def Let_def things_data_def)
  have sorted: "sorted_wrt (<) (tl_messages ?l)"
    using list_sorted[OF things_data_fine(1)[OF t]] by (auto intro!: sorted_change)
  have "list_has ?l = list_has (of_type ty ?d)" by simp
  then show ?thesis
    using eq change_then_set[of ?l ty "th_known t" t] change_then_set_fine[OF t sorted, of _ ty _ "th_known t"] by auto
qed

lemma things_step_ok:
  assumes "things_fine t"
  shows "tells t (things_step c t) \<and> things_fine (things_step c t)"
proof (cases c)
  case (ThSetCount ty n)
  then show ?thesis
    using setCount_fine[of ty "th_known t" t n] list_sorted[OF things_data_fine(1)[OF assms]] things_data_fine(2)[OF assms]
    by (simp add: proxy_setCount_tells)
qed (simp_all add: assms add_ok erase_ok clear_ok addSlice_ok checkAdd_ok)

lemma things_run_ok:
  "things_fine t \<Longrightarrow> tells t (fold things_step cs t) \<and> things_fine (fold things_step cs t)"
proof (induction cs arbitrary: t)
  case (Cons c cs)
  then show ?case using things_step_ok[of t c] tells_trans[of t "things_step c t" "fold things_step cs (things_step c t)"] by auto
qed (simp add: tells_refl)


lemma setCount_events:
  "th_changed t1 = th_changed t \<Longrightarrow> th_inChatList t1 = th_inChatList t \<Longrightarrow>
   \<exists>es. th_changed (proxy_setCount known ty n t1) = th_changed t @ es \<and> (es = [] \<or> (\<exists>e. es = [e] \<and> th_inChatList t))"
  by (auto simp: proxy_setCount_changed)

lemma add_events:
  "\<exists>es. th_changed (snd (proxy_add b ty msgId how t)) = th_changed t @ es \<and> (es = [] \<or> (\<exists>e. es = [e] \<and> th_inChatList t))"
  unfolding proxy_add_def Let_def by (auto simp: proxy_setCount_changed)

text \<open>A call tells at most one change, and only of threads of the list.\<close>

lemma things_step_events:
  "\<exists>es. th_changed (things_step c t) = th_changed t @ es \<and> (es = [] \<or> (\<exists>e. es = [e] \<and> th_inChatList t))"
proof (cases c)
  case (ThAdd b ty msgId how)
  then show ?thesis using add_events by simp
next
  case (ThErase ty msgId)
  then show ?thesis by (auto simp: proxy_erase_def Let_def notifyUpdated_def proxy_setCount_changed split: option.split)
next
  case (ThClear ty)
  then show ?thesis by (auto simp: proxy_clear_def notifyUpdated_def proxy_setCount_changed split: option.split)
next
  case (ThAddSlice ty sl al)
  have "\<exists>n d. proxy_addSlice ty sl al t = notifyUpdated (proxy_setCount (th_known t) ty n (t\<lparr>th_data := d\<rparr>))"
    by (cases "th_data t"; cases "slice_items sl = []"; cases "al = 0"; simp add: proxy_addSlice_def Let_def)
      (metis things.surjective things.update_convs(2))+
  then show ?thesis using ThAddSlice by (auto simp: notifyUpdated_def proxy_setCount_changed)
next
  case (ThCheckAdd b msgId resolved found)
  show ?thesis
    using add_events[of b Reactions msgId Existing t] unfolding ThCheckAdd things_step.simps
    by (auto simp: proxy_checkAdd_def Let_def split: option.split)
qed (use setCount_events[of t t] in simp_all)

subsection \<open>The property\<close>

text \<open>
  C38: whatever numbers, messages and slices a thread of a chat list gets, of both kinds, the thread is
  told of exactly the changes of whether it has unread ones: each call changes what was told before,
  and the last one is what the data says. No number is less than the ids loaded.
\<close>

theorem unread_things_told:
  fixes cs :: "things_call list"
  defines "t \<equiv> fold things_step cs (new_things\<lparr>th_inChatList := True\<rparr>)"
  shows "(\<forall>ty. heard ty (th_changed t) False = proxy_has ty t \<and> only_changes ty (th_changed t) False)
    \<and> (\<forall>ty d n. th_data t = Some d \<and> tl_count (of_type ty d) = Some n \<longrightarrow> list_loadedCount (of_type ty d) \<le> n)"
proof -
  let ?t0 = "new_things\<lparr>th_inChatList := True\<rparr>"
  have t: "tells ?t0 t" "things_fine t"
    using things_run_ok[of ?t0 cs] unfolding t_def by (simp_all add: things_fine_def new_things_def)
  have "\<not> proxy_has ty ?t0" for ty by (simp add: proxy_has_def new_things_def)
  then have "heard ty (th_changed t) False = proxy_has ty t \<and> only_changes ty (th_changed t) False" for ty
    using t(1) by (auto simp: tells_def new_things_def)
  moreover have "list_loadedCount (of_type ty d) \<le> n" if "th_data t = Some d" "tl_count (of_type ty d) = Some n" for ty d n
    using things_data_fine(1)[OF t(2), of ty "th_known t"] that by (auto simp: things_data_def list_fine_def)
  ultimately show ?thesis by blast
qed

theorem unread_things_told_witness:
  "\<exists>t d. t = fold things_step [ThSetCount Mentions 1, ThAdd False Mentions 7 Existing, ThErase Mentions 7, ThSetCount Reactions 2]
       (new_things\<lparr>th_inChatList := True\<rparr>)
     \<and> th_changed t = [(Mentions, True), (Mentions, False), (Reactions, True)]
     \<and> th_data t = Some d \<and> tl_count (of_type Reactions d) = Some 2 \<and> list_loadedCount (of_type Reactions d) \<le> 2"
proof -
  let ?cs = "[ThSetCount Mentions 1, ThAdd False Mentions 7 Existing, ThErase Mentions 7, ThSetCount Reactions 2]"
  let ?t = "fold things_step ?cs (new_things\<lparr>th_inChatList := True\<rparr>)"
  have "th_changed ?t = [(Mentions, True), (Mentions, False), (Reactions, True)]
      \<and> map_option (\<lambda>d. tl_count (of_type Reactions d)) (th_data ?t) = Some (Some 2)"
    by code_simp
  then show ?thesis using unread_things_told[of ?cs] by blast
qed

end
