(* ===== verification/DialogsUnread.thy ===== *)
theory DialogsUnread
  imports DialogsIndexed UnreadThings
begin

text \<open>
  How many unread messages and chats a list has: \<open>UnreadState\<close> and the badges (\<open>dialogs/dialogs_entry.{h,cpp}\<close>),
  the totals that \<open>MainList\<close> keeps (\<open>dialogs/dialogs_main_list.{h,cpp}\<close>), and the states the chats have
  (\<open>history/history.cpp\<close>, \<open>data/data_forum_topic.cpp\<close>, \<open>data/data_folder.cpp\<close>). A total is not recounted:
  a chat that changes announces its state before and after (\<open>Entry::notifyUnreadStateChange\<close>). A list
  announces its own changes, and a forum or a folder is a chat whose state is that of its own list. Numbers are
  \<open>int\<close>; what \<open>_unreadStateChanges\<close> fires is recorded. A failing \<open>Assert\<close> is \<open>None\<close>.
\<close>

subsection \<open>States\<close>

record UnreadState =
  us_messages :: int
  us_messagesMuted :: int
  us_chats :: int
  us_chatsMuted :: int
  us_marks :: int
  us_marksMuted :: int
  us_reactions :: int
  us_reactionsMuted :: int
  us_mentions :: int
  us_known :: bool

definition empty_unread :: UnreadState where
  "empty_unread =
     \<lparr>us_messages = 0, us_messagesMuted = 0, us_chats = 0, us_chatsMuted = 0, us_marks = 0, us_marksMuted = 0,
      us_reactions = 0, us_reactionsMuted = 0, us_mentions = 0, us_known = False\<rparr>"

definition us_add :: "UnreadState \<Rightarrow> UnreadState \<Rightarrow> UnreadState" where
  "us_add a b =
     a\<lparr>us_messages := us_messages a + us_messages b, us_messagesMuted := us_messagesMuted a + us_messagesMuted b,
       us_chats := us_chats a + us_chats b, us_chatsMuted := us_chatsMuted a + us_chatsMuted b,
       us_marks := us_marks a + us_marks b, us_marksMuted := us_marksMuted a + us_marksMuted b,
       us_reactions := us_reactions a + us_reactions b, us_reactionsMuted := us_reactionsMuted a + us_reactionsMuted b,
       us_mentions := us_mentions a + us_mentions b\<rparr>"

definition us_sub :: "UnreadState \<Rightarrow> UnreadState \<Rightarrow> UnreadState" where
  "us_sub a b =
     a\<lparr>us_messages := us_messages a - us_messages b, us_messagesMuted := us_messagesMuted a - us_messagesMuted b,
       us_chats := us_chats a - us_chats b, us_chatsMuted := us_chatsMuted a - us_chatsMuted b,
       us_marks := us_marks a - us_marks b, us_marksMuted := us_marksMuted a - us_marksMuted b,
       us_reactions := us_reactions a - us_reactions b, us_reactionsMuted := us_reactionsMuted a - us_reactionsMuted b,
       us_mentions := us_mentions a - us_mentions b\<rparr>"

subsection \<open>Badges\<close>

datatype CountInBadge = CountDefault | CountChats | CountMessages

datatype IncludeInBadge = IncludeDefault | IncludeUnmuted | IncludeAll | IncludeUnmutedOrAll

record BadgesState =
  bs_unreadCounter :: int
  bs_unread :: bool
  bs_unreadMuted :: bool
  bs_mention :: bool
  bs_mentionMuted :: bool
  bs_reaction :: bool
  bs_reactionMuted :: bool

definition badges_empty :: "BadgesState \<Rightarrow> bool" where
  "badges_empty b \<longleftrightarrow> \<not> bs_unread b \<and> \<not> bs_mention b \<and> \<not> bs_reaction b"

text \<open>The settings are the arguments \<open>countUnreadMessages\<close> and \<open>includeMutedCounter\<close>.\<close>

definition BadgesForUnread :: "bool \<Rightarrow> bool \<Rightarrow> UnreadState \<Rightarrow> CountInBadge \<Rightarrow> IncludeInBadge \<Rightarrow> BadgesState" where
  "BadgesForUnread countUnreadMessages includeMutedCounter state cnt include =
     (let countMessages = (cnt = CountMessages \<or> (cnt = CountDefault \<and> countUnreadMessages));
          counterFull = us_marks state + (if countMessages then us_messages state else us_chats state);
          counterMuted = us_marksMuted state + (if countMessages then us_messagesMuted state else us_chatsMuted state);
          unreadMuted = (counterFull \<le> counterMuted);
          includeMuted = (include = IncludeAll \<or> (include = IncludeUnmutedOrAll \<and> unreadMuted)
            \<or> (include = IncludeDefault \<and> includeMutedCounter));
          marks = us_marks state - (if includeMuted then 0 else us_marksMuted state);
          counter = counterFull - (if includeMuted then 0 else counterMuted);
          mark = (counter = 1 \<and> marks = 1)
      in \<lparr>bs_unreadCounter = (if mark then 0 else counter), bs_unread = (counter > 0),
          bs_unreadMuted = (includeMuted \<and> counter \<le> counterMuted), bs_mention = (us_mentions state > 0),
          bs_mentionMuted = False, bs_reaction = (us_reactions state > 0),
          bs_reactionMuted = (us_reactions state \<le> us_reactionsMuted state)\<rparr>)"

subsection \<open>The totals of a list\<close>

record main_list =
  ml_unread :: UnreadState
  ml_cloudUnread :: UnreadState
  ml_fired :: "UnreadState list"
  ml_fullListSize :: int
  ml_cloudListSize :: int
  ml_loaded :: bool
  ml_allAreMuted :: bool

definition new_main_list :: main_list where
  "new_main_list =
     \<lparr>ml_unread = empty_unread\<lparr>us_known := True\<rparr>, ml_cloudUnread = empty_unread, ml_fired = [], ml_fullListSize = 0,
      ml_cloudListSize = 0, ml_loaded = False, ml_allAreMuted = False\<rparr>"

definition unreadState :: "main_list \<Rightarrow> UnreadState" where
  "unreadState m =
     (let useCloudState = (us_known (ml_cloudUnread m) \<and> \<not> ml_loaded m);
          r = (if useCloudState
            then (ml_cloudUnread m)\<lparr>us_marks := us_marks (ml_unread m), us_marksMuted := us_marksMuted (ml_unread m)\<rparr>
            else ml_unread m)
      in if ml_allAreMuted m
         then r\<lparr>us_messagesMuted := us_messages r, us_chatsMuted := us_chats r, us_marksMuted := us_marks r\<rparr>
         else r)"

text \<open>\<open>unreadStateChangeNotifier\<close>: the state before is fired after the change.\<close>

definition with_notifier :: "bool \<Rightarrow> (main_list \<Rightarrow> main_list) \<Rightarrow> main_list \<Rightarrow> main_list" where
  "with_notifier notify change m =
     (let m1 = change m in if notify then m1\<lparr>ml_fired := ml_fired m1 @ [unreadState m]\<rparr> else m1)"

text \<open>The sz of the list of all chats is the argument \<open>sz\<close>.\<close>

definition recomputeFullListSize :: "int \<Rightarrow> main_list \<Rightarrow> main_list" where
  "recomputeFullListSize sz m = m\<lparr>ml_fullListSize := max sz (if ml_loaded m then 0 else ml_cloudListSize m)\<rparr>"

definition setLoaded :: "int \<Rightarrow> bool \<Rightarrow> main_list \<Rightarrow> main_list" where
  "setLoaded sz loaded m =
     (if ml_loaded m = loaded then m
      else recomputeFullListSize sz (with_notifier True (\<lambda>m. m\<lparr>ml_loaded := loaded\<rparr>) m))"

definition setAllAreMuted :: "bool \<Rightarrow> main_list \<Rightarrow> main_list" where
  "setAllAreMuted allAreMuted m =
     (if ml_allAreMuted m = allAreMuted then m else with_notifier True (\<lambda>m. m\<lparr>ml_allAreMuted := allAreMuted\<rparr>) m)"

definition setCloudListSize :: "int \<Rightarrow> int \<Rightarrow> main_list \<Rightarrow> main_list" where
  "setCloudListSize sz cloud m =
     (if ml_cloudListSize m = cloud then m else recomputeFullListSize sz (m\<lparr>ml_cloudListSize := cloud\<rparr>))"

definition main_clear :: "main_list \<Rightarrow> main_list" where
  "main_clear m =
     recomputeFullListSize 0 (with_notifier True (\<lambda>m. m\<lparr>ml_unread := empty_unread\<lparr>us_known := True\<rparr>,
       ml_cloudUnread := empty_unread\<lparr>us_known := True\<rparr>, ml_cloudListSize := 0\<rparr>) m)"

definition finalizeCloudUnread :: "main_list \<Rightarrow> main_list" where
  "finalizeCloudUnread m =
     (let c = ml_cloudUnread m
      in m\<lparr>ml_cloudUnread := c\<lparr>us_messagesMuted := us_messages c, us_chatsMuted := us_chats c, us_marks := 0, us_marksMuted := 0\<rparr>\<rparr>)"

definition unreadStateChanged :: "UnreadState \<Rightarrow> UnreadState \<Rightarrow> main_list \<Rightarrow> main_list option" where
  "unreadStateChanged wasState nowState m =
     (let useClouded = (us_known (ml_cloudUnread m) \<and> \<not> ml_loaded m);
          updateCloudUnread = (us_known (ml_cloudUnread m) \<and> us_known wasState);
          notify = (\<not> useClouded \<or> us_known wasState)
      in if updateCloudUnread \<and> \<not> us_known nowState then None
         else Some (with_notifier notify (\<lambda>m.
           let m1 = m\<lparr>ml_unread := us_add (ml_unread m) (us_sub nowState wasState)\<rparr>
           in if updateCloudUnread
              then finalizeCloudUnread (m1\<lparr>ml_cloudUnread := us_add (ml_cloudUnread m1) (us_sub nowState wasState)\<rparr>)
              else m1) m))"

definition unreadEntryChanged :: "UnreadState \<Rightarrow> bool \<Rightarrow> main_list \<Rightarrow> main_list" where
  "unreadEntryChanged state added m =
     (if us_messages state = 0 \<and> us_chats state = 0 \<and> us_marks state = 0 \<and> us_mentions state = 0 \<and> us_reactions state = 0 then m
      else let updateCloudUnread = (us_known (ml_cloudUnread m) \<and> us_known state);
               notify = (\<not> us_known (ml_cloudUnread m) \<or> ml_loaded m \<or> us_known state);
               change = (\<lambda>a. if added then us_add a state else us_sub a state)
        in with_notifier notify (\<lambda>m.
             let m1 = m\<lparr>ml_unread := change (ml_unread m)\<rparr>
             in if updateCloudUnread then finalizeCloudUnread (m1\<lparr>ml_cloudUnread := change (ml_cloudUnread m1)\<rparr>) else m1) m)"

text \<open>The four counts of \<open>MTPDdialogFolder\<close> are the arguments.\<close>

definition updateCloudUnread :: "int \<Rightarrow> int \<Rightarrow> int \<Rightarrow> int \<Rightarrow> main_list \<Rightarrow> main_list" where
  "updateCloudUnread mutedMessages unmutedMessages mutedPeers unmutedPeers m =
     with_notifier (\<not> ml_loaded m) (\<lambda>m.
       let m1 = finalizeCloudUnread (m\<lparr>ml_cloudUnread := (ml_cloudUnread m)\<lparr>us_messages := mutedMessages + unmutedMessages,
             us_chats := mutedPeers + unmutedPeers\<rparr>\<rparr>)
       in m1\<lparr>ml_cloudUnread := (ml_cloudUnread m1)\<lparr>us_known := True\<rparr>\<rparr>) m"

definition cloudUnreadKnown :: "main_list \<Rightarrow> bool" where
  "cloudUnreadKnown m \<longleftrightarrow> us_known (ml_cloudUnread m)"

text \<open>
  \<open>addEntry\<close> and \<open>removeEntry\<close>, with the list of all chats (\<open>_all\<close>) beside the totals; \<open>state\<close> is the state of the
  entry.
\<close>

definition addEntry :: "('k, 'n) entries \<Rightarrow> ('k \<Rightarrow> 'c::linorder name_index) \<Rightarrow> 'k \<Rightarrow> UnreadState
    \<Rightarrow> ('k, 'c) indexed_list \<times> main_list \<Rightarrow> (('k, 'c) rows_by_letter \<times> ('k, 'c) indexed_list \<times> main_list) option" where
  "addEntry en nm key state st =
     do { (r, il) \<leftarrow> il_addToEnd en nm key (fst st);
          Some (r, il, recomputeFullListSize (int (list_size (il_list il))) (unreadEntryChanged state True (snd st))) }"

definition removeEntry :: "('k \<Rightarrow> 'c::linorder name_index) \<Rightarrow> 'k \<Rightarrow> UnreadState
    \<Rightarrow> ('k, 'c) indexed_list \<times> main_list \<Rightarrow> (('k, 'c) indexed_list \<times> main_list) option" where
  "removeEntry nm key state st =
     do { il \<leftarrow> il_remove nm key None (fst st);
          Some (il, recomputeFullListSize (int (list_size (il_list il))) (unreadEntryChanged state False (snd st))) }"


subsection \<open>The states of chats\<close>

record history_unread =
  hu_unreadCount :: "int option"
  hu_unreadMark :: bool
  hu_muted :: bool
  hu_folder :: bool
  hu_things :: things

definition computeUnreadState :: "history_unread \<Rightarrow> UnreadState" where
  "computeUnreadState h =
     (let cnt = (case hu_unreadCount h of None \<Rightarrow> 0 | Some n \<Rightarrow> n); mark = (cnt = 0 \<and> hu_unreadMark h);
          chats = (if cnt \<noteq> 0 then 1 else 0); marks = (if mark then 1 else 0);
          reactions = (if proxy_has Reactions (hu_things h) then 1 else 0); muted = hu_muted h
      in \<lparr>us_messages = cnt, us_messagesMuted = (if muted then cnt else 0), us_chats = chats,
          us_chatsMuted = (if muted then chats else 0), us_marks = marks, us_marksMuted = (if muted then marks else 0),
          us_reactions = reactions, us_reactionsMuted = (if muted then reactions else 0),
          us_mentions = (if proxy_has Mentions (hu_things h) then 1 else 0), us_known = (hu_unreadCount h \<noteq> None)\<rparr>)"

definition adjustBadgesStateByFolder :: "bool \<Rightarrow> BadgesState \<Rightarrow> BadgesState" where
  "adjustBadgesStateByFolder folder state =
     (if folder then state\<lparr>bs_unreadMuted := True, bs_mentionMuted := True, bs_reactionMuted := True\<rparr> else state)"

definition computeBadgesState :: "history_unread \<Rightarrow> BadgesState" where
  "computeBadgesState h =
     adjustBadgesStateByFolder (hu_folder h) (BadgesForUnread False False (computeUnreadState h) CountMessages IncludeAll)"

text \<open>
  A topic with the fields of its \<open>RepliesList\<close> (\<open>data/data_replies_list.cpp\<close>) that its count depends on: \<open>_unreadCount\<close>
  and \<open>_inboxReadTillId\<close>, 0 at first. \<open>tu_told\<close> is the last value that passed \<open>distinct_until_changed\<close> in
  \<open>subscribeToUnreadChanges\<close>; \<open>tu_lastIsNewer\<close> answers the question a topic asks when it has no unread messages.
\<close>

record topic_unread =
  tu_unreadCount :: "int option"
  tu_inboxReadTillId :: int
  tu_told :: "int option"
  tu_muted :: bool
  tu_lastIsNewer :: bool
  tu_things :: things

definition displayedUnreadCount :: "topic_unread \<Rightarrow> int" where
  "displayedUnreadCount t = (if tu_inboxReadTillId t > 1 then case_option 0 id (tu_unreadCount t) else 0)"

text \<open>
  The operations of \<open>RepliesList\<close> that change them. \<open>front\<close> is the newest id if the list is loaded to its end
  (\<open>_skippedAfter = 0\<close>) and not empty. The request for an unknown count is its caller's: its reply is another
  \<open>setInboxReadTill\<close>.
\<close>

definition replies_setUnreadCount :: "int option \<Rightarrow> topic_unread \<Rightarrow> topic_unread" where
  "replies_setUnreadCount cnt t = t\<lparr>tu_unreadCount := cnt\<rparr>"

definition changeUnreadCountByPost :: "int \<Rightarrow> int \<Rightarrow> topic_unread \<Rightarrow> topic_unread" where
  "changeUnreadCountByPost postId delta t =
     (if tu_inboxReadTillId t = 0 then replies_setUnreadCount None t
      else case tu_unreadCount t of
        None \<Rightarrow> t
      | Some n \<Rightarrow> if postId > tu_inboxReadTillId t then replies_setUnreadCount (Some (max (n + delta) 0)) t else t)"

definition read_to_end :: "int option \<Rightarrow> topic_unread \<Rightarrow> bool" where
  "read_to_end front t \<longleftrightarrow> (case front of None \<Rightarrow> False | Some newest \<Rightarrow> tu_inboxReadTillId t \<ge> newest)"

definition setInboxReadTill :: "int \<Rightarrow> int option \<Rightarrow> int option \<Rightarrow> topic_unread \<Rightarrow> topic_unread" where
  "setInboxReadTill readTillId unreadCount front t =
     (let newReadTillId = max readTillId 1; changed = (newReadTillId > tu_inboxReadTillId t) in
      if newReadTillId < tu_inboxReadTillId t then t
      else let t1 = (if changed then t\<lparr>tu_inboxReadTillId := newReadTillId\<rparr> else t);
               cnt = (if read_to_end front t1 then Some 0 else unreadCount)
           in if tu_unreadCount t1 \<noteq> cnt \<and> (changed \<or> cnt \<noteq> None) then replies_setUnreadCount cnt t1 else t1)"

definition checkReadTillEnd :: "int option \<Rightarrow> topic_unread \<Rightarrow> topic_unread" where
  "checkReadTillEnd front t =
     (if tu_unreadCount t \<noteq> Some 0 \<and> read_to_end front t then replies_setUnreadCount (Some 0) t else t)"

datatype topic_call = TopicReadTill int "int option" "int option" | TopicPost int int | TopicReadEnd "int option"

fun topic_change :: "topic_call \<Rightarrow> topic_unread \<Rightarrow> topic_unread" where
  "topic_change (TopicReadTill readTillId unreadCount front) t = setInboxReadTill readTillId unreadCount front t"
| "topic_change (TopicPost postId delta) t = changeUnreadCountByPost postId delta t"
| "topic_change (TopicReadEnd front) t = checkReadTillEnd front t"

definition unreadStateFor :: "int \<Rightarrow> bool \<Rightarrow> topic_unread \<Rightarrow> UnreadState" where
  "unreadStateFor cnt known t =
     (let chats = (if cnt \<noteq> 0 then 1 else 0); reactions = (if proxy_has Reactions (tu_things t) then 1 else 0); muted = tu_muted t
      in empty_unread\<lparr>us_messages := cnt, us_messagesMuted := (if muted then cnt else 0), us_chats := chats,
           us_chatsMuted := (if muted then chats else 0),
           us_reactions := reactions, us_reactionsMuted := (if muted then reactions else 0),
           us_mentions := (if proxy_has Mentions (tu_things t) then 1 else 0), us_known := known\<rparr>)"

definition topic_state :: "topic_unread \<Rightarrow> UnreadState" where
  "topic_state t = unreadStateFor (displayedUnreadCount t) (tu_unreadCount t \<noteq> None) t"

definition topic_badges :: "topic_unread \<Rightarrow> BadgesState" where
  "topic_badges t =
     (let r = BadgesForUnread False False (topic_state t) CountMessages IncludeAll
      in if \<not> bs_unread r \<and> tu_inboxReadTillId t < 2 then r\<lparr>bs_unread := tu_lastIsNewer t, bs_unreadMuted := tu_muted t\<rparr> else r)"

definition folder_badges :: "main_list \<Rightarrow> BadgesState" where
  "folder_badges m =
     (let r = (BadgesForUnread False False (unreadState m) CountChats IncludeAll)
            \<lparr>bs_unreadMuted := True, bs_mentionMuted := True, bs_reactionMuted := True\<rparr>
      in if bs_unread r \<and> bs_unreadCounter r = 0 then r\<lparr>bs_unreadCounter := 1\<rparr> else r)"

text \<open>An entry: a history, with the list of topics if it is a forum; a topic; a folder with its list.\<close>

datatype unread_entry = HistoryEntry history_unread "main_list option" | TopicEntry topic_unread | FolderEntry main_list

fun chatListUnreadState :: "unread_entry \<Rightarrow> UnreadState" where
  "chatListUnreadState (HistoryEntry h None) = computeUnreadState h"
| "chatListUnreadState (HistoryEntry h (Some topics)) = unreadState topics"
| "chatListUnreadState (TopicEntry t) = topic_state t"
| "chatListUnreadState (FolderEntry m) = unreadState m"

definition history_badges :: "history_unread \<Rightarrow> main_list option \<Rightarrow> BadgesState" where
  "history_badges h forum =
     (case forum of
        Some topics \<Rightarrow> adjustBadgesStateByFolder (hu_folder h)
          (BadgesForUnread False False (unreadState topics) CountChats IncludeUnmutedOrAll)
      | None \<Rightarrow> computeBadgesState h)"

text \<open>The state before a change of \<open>has\<close>, which \<open>hasUnreadMentionChanged\<close> and \<open>hasUnreadReactionChanged\<close> rebuild.\<close>

fun state_before :: "ThingsType \<Rightarrow> bool \<Rightarrow> bool \<Rightarrow> UnreadState \<Rightarrow> UnreadState" where
  "state_before Mentions has muted s = s\<lparr>us_mentions := (if has then 0 else 1)\<rparr>"
| "state_before Reactions has muted s =
     (if has then s\<lparr>us_reactions := 0, us_reactionsMuted := 0\<rparr>
      else s\<lparr>us_reactions := 1, us_reactionsMuted := (if muted then 1 else 0)\<rparr>)"

subsection \<open>A list and its chats\<close>

record ('k, 'n, 'c) unread_list =
  ul_chats :: "('k, 'n, 'c) chats"
  ul_main :: main_list
  ul_entry :: "'k \<Rightarrow> unread_entry"

definition in_list :: "int \<Rightarrow> 'k \<Rightarrow> ('k, 'n, 'c) unread_list \<Rightarrow> bool" where
  "in_list f k u \<longleftrightarrow> ct_links (ul_chats u) f k \<noteq> None"

definition notifyUnreadStateChange :: "int \<Rightarrow> 'k \<Rightarrow> UnreadState \<Rightarrow> ('k, 'n, 'c) unread_list \<Rightarrow> ('k, 'n, 'c) unread_list option" where
  "notifyUnreadStateChange f k wasState u =
     (if \<not> in_list f k u then None
      else map_option (\<lambda>m. u\<lparr>ul_main := m\<rparr>) (unreadStateChanged wasState (chatListUnreadState (ul_entry u k)) (ul_main u)))"

text \<open>\<open>Entry::unreadStateChangeNotifier\<close> around a change of the entry.\<close>

definition entry_notifier :: "int \<Rightarrow> bool \<Rightarrow> 'k \<Rightarrow> unread_entry \<Rightarrow> ('k, 'n, 'c) unread_list \<Rightarrow> ('k, 'n, 'c) unread_list option" where
  "entry_notifier f required k e u =
     (let notify = (required \<and> in_list f k u); wasState = chatListUnreadState (ul_entry u k);
          u1 = u\<lparr>ul_entry := (ul_entry u)(k := e)\<rparr>
      in if notify then notifyUnreadStateChange f k wasState u1 else Some u1)"

fun history_setUnreadCount :: "int \<Rightarrow> 'k \<Rightarrow> int \<Rightarrow> ('k, 'n, 'c) unread_list \<Rightarrow> ('k, 'n, 'c) unread_list option" where
  "history_setUnreadCount f k newUnreadCount u =
     (case ul_entry u k of
        HistoryEntry h forum \<Rightarrow>
          if hu_unreadCount h = Some newUnreadCount then Some u
          else entry_notifier f (forum = None) k (HistoryEntry (h\<lparr>hu_unreadCount := Some newUnreadCount\<rparr>) forum) u
      | _ \<Rightarrow> Some u)"

fun history_setUnreadMark :: "int \<Rightarrow> 'k \<Rightarrow> bool \<Rightarrow> bool \<Rightarrow> ('k, 'n, 'c) unread_list \<Rightarrow> ('k, 'n, 'c) unread_list option" where
  "history_setUnreadMark f k clearUnreadOnClientSide unread u =
     (case ul_entry u k of
        HistoryEntry h forum \<Rightarrow>
          let unread1 = (if clearUnreadOnClientSide then False else unread) in
          if hu_unreadMark h = unread1 then Some u
          else entry_notifier f ((case hu_unreadCount h of None \<Rightarrow> 0 | Some n \<Rightarrow> n) = 0 \<and> forum = None) k
            (HistoryEntry (h\<lparr>hu_unreadMark := unread1\<rparr>) forum) u
      | _ \<Rightarrow> Some u)"

text \<open>\<open>setMuted\<close> of histories and topics.\<close>

fun entry_setMuted :: "int \<Rightarrow> 'k \<Rightarrow> bool \<Rightarrow> ('k, 'n, 'c) unread_list \<Rightarrow> ('k, 'n, 'c) unread_list option" where
  "entry_setMuted f k muted u =
     (case ul_entry u k of
        HistoryEntry h forum \<Rightarrow>
          if hu_muted h = muted then Some u
          else entry_notifier f (forum = None \<and> (bs_unread (computeBadgesState h) \<or> bs_reaction (computeBadgesState h))) k
            (HistoryEntry (h\<lparr>hu_muted := muted\<rparr>) forum) u
      | TopicEntry t \<Rightarrow>
          if tu_muted t = muted then Some u
          else (let state = topic_badges t
                in entry_notifier f (bs_unread state \<or> bs_reaction state) k (TopicEntry (t\<lparr>tu_muted := muted\<rparr>)) u)
      | _ \<Rightarrow> Some u)"


text \<open>
  The unread mentions and reactions of a history or topic: what its proxies tell is announced, except by a
  history that is a forum.
\<close>

fun entry_things :: "unread_entry \<Rightarrow> things option" where
  "entry_things (HistoryEntry h forum) = Some (hu_things h)"
| "entry_things (TopicEntry t) = Some (tu_things t)"
| "entry_things (FolderEntry m) = None"

fun put_things :: "things \<Rightarrow> unread_entry \<Rightarrow> unread_entry" where
  "put_things th (HistoryEntry h forum) = HistoryEntry (h\<lparr>hu_things := th\<rparr>) forum"
| "put_things th (TopicEntry t) = TopicEntry (t\<lparr>tu_things := th\<rparr>)"
| "put_things th (FolderEntry m) = FolderEntry m"

fun hasUnreadChanged :: "int \<Rightarrow> 'k \<Rightarrow> ThingsType \<times> bool \<Rightarrow> ('k, 'n, 'c) unread_list \<Rightarrow> ('k, 'n, 'c) unread_list option" where
  "hasUnreadChanged f k (ty, has) u =
     (case ul_entry u k of
        HistoryEntry h None \<Rightarrow> notifyUnreadStateChange f k (state_before ty has (hu_muted h) (chatListUnreadState (ul_entry u k))) u
      | HistoryEntry h (Some topics) \<Rightarrow> Some u
      | TopicEntry t \<Rightarrow> notifyUnreadStateChange f k (state_before ty has (tu_muted t) (chatListUnreadState (ul_entry u k))) u
      | FolderEntry m \<Rightarrow> Some u)"

fun each_event :: "('e \<Rightarrow> 's \<Rightarrow> 's option) \<Rightarrow> 'e list \<Rightarrow> 's \<Rightarrow> 's option" where
  "each_event hear [] s = Some s"
| "each_event hear (e # es) s = Option.bind (hear e s) (each_event hear es)"

definition entry_things_call :: "int \<Rightarrow> 'k \<Rightarrow> things_call \<Rightarrow> ('k, 'n, 'c) unread_list \<Rightarrow> ('k, 'n, 'c) unread_list option" where
  "entry_things_call f k c u =
     (case entry_things (ul_entry u k) of
        None \<Rightarrow> Some u
      | Some t \<Rightarrow>
          let t1 = things_step c (t\<lparr>th_inChatList := in_list f k u\<rparr>);
              u1 = u\<lparr>ul_entry := (ul_entry u)(k := put_things t1 (ul_entry u k))\<rparr>
          in each_event (hasUnreadChanged f k) (drop (length (th_changed t)) (th_changed t1)) u1)"

text \<open>What a list is called with; \<open>sz\<close> is the number of its chats.\<close>

datatype main_call =
    MainLoaded int bool
  | MainAllAreMuted bool
  | MainCloudListSize int int
  | MainCloudUnread int int int int
  | MainStateChanged UnreadState UnreadState
  | MainEntryChanged int UnreadState bool

fun main_step :: "main_call \<Rightarrow> main_list \<Rightarrow> main_list option" where
  "main_step (MainLoaded sz loaded) m = Some (setLoaded sz loaded m)"
| "main_step (MainAllAreMuted b) m = Some (setAllAreMuted b m)"
| "main_step (MainCloudListSize sz cloud) m = Some (setCloudListSize sz cloud m)"
| "main_step (MainCloudUnread a b c d) m = Some (updateCloudUnread a b c d m)"
| "main_step (MainStateChanged was now) m = unreadStateChanged was now m"
| "main_step (MainEntryChanged sz state added) m = Some (recomputeFullListSize sz (unreadEntryChanged state added m))"

text \<open>A forum and a folder listen to their own list and announce its changes.\<close>

fun own_list :: "unread_entry \<Rightarrow> main_list option" where
  "own_list (HistoryEntry h forum) = forum"
| "own_list (TopicEntry t) = None"
| "own_list (FolderEntry m) = Some m"

fun put_list :: "main_list \<Rightarrow> unread_entry \<Rightarrow> unread_entry" where
  "put_list m (HistoryEntry h forum) = HistoryEntry h (Some m)"
| "put_list m (TopicEntry t) = TopicEntry t"
| "put_list m (FolderEntry m0) = FolderEntry m"

definition own_list_call :: "int \<Rightarrow> 'k \<Rightarrow> main_call \<Rightarrow> ('k, 'n, 'c) unread_list \<Rightarrow> ('k, 'n, 'c) unread_list option" where
  "own_list_call f k c u =
     (case own_list (ul_entry u k) of
        None \<Rightarrow> Some u
      | Some m \<Rightarrow>
          (case main_step c m of
             None \<Rightarrow> None
           | Some m1 \<Rightarrow>
               let u1 = u\<lparr>ul_entry := (ul_entry u)(k := put_list m1 (ul_entry u k))\<rparr>
               in each_event (\<lambda>old u. if in_list f k u then notifyUnreadStateChange f k old u else Some u)
                    (drop (length (ml_fired m)) (ml_fired m1)) u1))"

text \<open>\<open>History::forumChanged\<close>, after the forum of the peer became \<open>forum\<close>.\<close>

definition forumChanged :: "int \<Rightarrow> 'k \<Rightarrow> main_list option \<Rightarrow> ('k, 'n, 'c) unread_list \<Rightarrow> ('k, 'n, 'c) unread_list option" where
  "forumChanged f k forum u =
     (case ul_entry u k of
        HistoryEntry h old \<Rightarrow>
          let u1 = u\<lparr>ul_entry := (ul_entry u)(k := HistoryEntry h forum)\<rparr> in
          if in_list f k u
          then notifyUnreadStateChange f k (case old of Some topics \<Rightarrow> unreadState topics | None \<Rightarrow> computeUnreadState h) u1
          else Some u1
      | _ \<Rightarrow> Some u)"

text \<open>
  \<open>ForumTopic::subscribeToUnreadChanges\<close>: a topic hears of its replies when \<open>_unreadCount\<close> changes, and only then; the
  displayed count goes through \<open>distinct_until_changed\<close> and is announced with the one before.
\<close>

definition topicUnreadCount :: "int \<Rightarrow> 'k \<Rightarrow> topic_call \<Rightarrow> ('k, 'n, 'c) unread_list \<Rightarrow> ('k, 'n, 'c) unread_list option" where
  "topicUnreadCount f k c u =
     (case ul_entry u k of
        TopicEntry t \<Rightarrow>
          let t1 = topic_change c t; now = map_option (\<lambda>_. displayedUnreadCount t1) (tu_unreadCount t1);
              previous = tu_told t; t2 = t1\<lparr>tu_told := now\<rparr>
          in if tu_unreadCount t1 = tu_unreadCount t \<or> now = previous
             then Some (u\<lparr>ul_entry := (ul_entry u)(k := TopicEntry t1)\<rparr>)
             else let u1 = u\<lparr>ul_entry := (ul_entry u)(k := TopicEntry t2)\<rparr> in
                  if in_list f k u
                  then notifyUnreadStateChange f k (unreadStateFor (case_option 0 id previous) (previous \<noteq> None) t2) u1
                  else Some u1
      | _ \<Rightarrow> Some u)"

text \<open>An entry enters and leaves the list with its state.\<close>

definition addToUnreadList :: "int \<Rightarrow> 'k \<Rightarrow> ('k, 'n, 'c::linorder) unread_list \<Rightarrow> ('k, 'n, 'c) unread_list option" where
  "addToUnreadList f k u =
     (let s = ul_chats u in
      if in_list f k u then Some u
      else do {
        (r, il, m) \<leftarrow> addEntry (ct_entries s) (ct_names s) k (chatListUnreadState (ul_entry u k)) (ct_list s, ul_main u);
        Some (u\<lparr>ul_chats := s\<lparr>ct_links := (ct_links s)(f := (ct_links s f)(k \<mapsto> r)), ct_list := il\<rparr>, ul_main := m\<rparr>) })"

definition removeFromUnreadList :: "int \<Rightarrow> 'k \<Rightarrow> ('k, 'n, 'c::linorder) unread_list \<Rightarrow> ('k, 'n, 'c) unread_list option" where
  "removeFromUnreadList f k u =
     (let s = ul_chats u in
      if \<not> in_list f k u then Some u
      else do {
        (il, m) \<leftarrow> removeEntry (ct_names s) k (chatListUnreadState (ul_entry u k)) (ct_list s, ul_main u);
        Some (u\<lparr>ul_chats := s\<lparr>ct_links := (ct_links s)(f := (ct_links s f)(k := None)), ct_list := il\<rparr>, ul_main := m\<rparr>) })"

datatype ('k, 'c) unread_call =
    UnreadAdd 'k
  | UnreadRemove 'k
  | UnreadChat "('k, 'c) chat_call"
  | UnreadCount 'k int
  | UnreadMark 'k bool bool
  | UnreadMuted 'k bool
  | UnreadThings 'k things_call
  | UnreadForum 'k "main_list option"
  | UnreadOwnList 'k main_call
  | UnreadTopic 'k topic_call
  | UnreadMain main_call

fun unread_step :: "int \<Rightarrow> ('k, 'c::linorder) unread_call \<Rightarrow> ('k, 'n, 'c) unread_list \<Rightarrow> ('k, 'n, 'c) unread_list option" where
  "unread_step f (UnreadAdd k) u = addToUnreadList f k u"
| "unread_step f (UnreadRemove k) u = removeFromUnreadList f k u"
| "unread_step f (UnreadChat c) u = map_option (\<lambda>s. u\<lparr>ul_chats := s\<rparr>) (chat_step f c (ul_chats u))"
| "unread_step f (UnreadCount k n) u = history_setUnreadCount f k n u"
| "unread_step f (UnreadMark k clearOnClient b) u = history_setUnreadMark f k clearOnClient b u"
| "unread_step f (UnreadMuted k b) u = entry_setMuted f k b u"
| "unread_step f (UnreadThings k c) u = entry_things_call f k c u"
| "unread_step f (UnreadForum k forum) u = forumChanged f k forum u"
| "unread_step f (UnreadOwnList k c) u = own_list_call f k c u"
| "unread_step f (UnreadTopic k c) u = topicUnreadCount f k c u"
| "unread_step f (UnreadMain c) u = map_option (\<lambda>m. u\<lparr>ul_main := m\<rparr>) (main_step c (ul_main u))"

fun unread_run :: "int \<Rightarrow> ('k, 'c::linorder) unread_call list \<Rightarrow> ('k, 'n, 'c) unread_list \<Rightarrow> ('k, 'n, 'c) unread_list option" where
  "unread_run f [] u = Some u"
| "unread_run f (c # cs) u = Option.bind (unread_step f c u) (unread_run f cs)"

subsection \<open>Totals\<close>

text \<open>The numbers of a state.\<close>

definition us_fields :: "(UnreadState \<Rightarrow> int) list" where
  "us_fields = [us_messages, us_messagesMuted, us_chats, us_chatsMuted, us_marks, us_marksMuted, us_reactions,
     us_reactionsMuted, us_mentions]"

definition same_numbers :: "UnreadState \<Rightarrow> UnreadState \<Rightarrow> bool" where
  "same_numbers a b \<longleftrightarrow> (\<forall>g \<in> set us_fields. g a = g b)"

lemma field_cases: "(\<forall>g \<in> set us_fields. P g) \<longleftrightarrow> P us_messages \<and> P us_messagesMuted \<and> P us_chats \<and> P us_chatsMuted
    \<and> P us_marks \<and> P us_marksMuted \<and> P us_reactions \<and> P us_reactionsMuted \<and> P us_mentions"
  by (simp add: us_fields_def)

lemma us_field_simps:
  assumes "g \<in> set us_fields"
  shows "g (us_add a b) = g a + g b" "g (us_sub a b) = g a - g b" "g (s\<lparr>us_known := known\<rparr>) = g s" "g empty_unread = 0"
  using assms by (auto simp: us_fields_def us_add_def us_sub_def empty_unread_def)

lemma same_numbers_refl [simp]: "same_numbers a a"
  by (simp add: same_numbers_def)

definition total_ok :: "'k set \<Rightarrow> ('k \<Rightarrow> UnreadState) \<Rightarrow> main_list \<Rightarrow> bool" where
  "total_ok ks st m \<longleftrightarrow> us_known (ml_unread m) \<and> (\<forall>g \<in> set us_fields. g (ml_unread m) = (\<Sum>k \<in> ks. g (st k)))"

lemma finalize_simps [simp]:
  "ml_unread (finalizeCloudUnread m) = ml_unread m" "ml_fullListSize (finalizeCloudUnread m) = ml_fullListSize m"
  "ml_cloudListSize (finalizeCloudUnread m) = ml_cloudListSize m" "ml_loaded (finalizeCloudUnread m) = ml_loaded m"
  "us_known (ml_cloudUnread (finalizeCloudUnread m)) = us_known (ml_cloudUnread m)"
  "ml_fired (finalizeCloudUnread m) = ml_fired m" "ml_allAreMuted (finalizeCloudUnread m) = ml_allAreMuted m"
  by (simp_all add: finalizeCloudUnread_def Let_def)

lemma notifier_simps [simp]:
  "ml_unread (with_notifier n c m) = ml_unread (c m)" "ml_fullListSize (with_notifier n c m) = ml_fullListSize (c m)"
  "ml_cloudListSize (with_notifier n c m) = ml_cloudListSize (c m)" "ml_loaded (with_notifier n c m) = ml_loaded (c m)"
  "ml_cloudUnread (with_notifier n c m) = ml_cloudUnread (c m)" "ml_allAreMuted (with_notifier n c m) = ml_allAreMuted (c m)"
  by (simp_all add: with_notifier_def Let_def)

lemma recompute_simps [simp]:
  "ml_unread (recomputeFullListSize n m) = ml_unread m" "ml_cloudUnread (recomputeFullListSize n m) = ml_cloudUnread m"
  "ml_fired (recomputeFullListSize n m) = ml_fired m" "ml_cloudListSize (recomputeFullListSize n m) = ml_cloudListSize m"
  "ml_loaded (recomputeFullListSize n m) = ml_loaded m" "ml_allAreMuted (recomputeFullListSize n m) = ml_allAreMuted m"
  by (simp_all add: recomputeFullListSize_def)

definition size_ok :: "int \<Rightarrow> main_list \<Rightarrow> bool" where
  "size_ok n m \<longleftrightarrow> ml_fullListSize m = max n (if ml_loaded m then 0 else ml_cloudListSize m)"

lemma size_recompute [simp]: "size_ok n (recomputeFullListSize n m)"
  by (simp add: size_ok_def recomputeFullListSize_def)

lemma unreadStateChanged_some:
  assumes "us_known now"
  shows "\<exists>m1. unreadStateChanged was now m = Some m1"
  using assms by (simp add: unreadStateChanged_def Let_def)

lemma unreadStateChanged_fields:
  assumes "unreadStateChanged was now m = Some m1"
  shows "ml_unread m1 = us_add (ml_unread m) (us_sub now was)" "ml_fullListSize m1 = ml_fullListSize m"
    "ml_cloudListSize m1 = ml_cloudListSize m" "ml_loaded m1 = ml_loaded m" "ml_allAreMuted m1 = ml_allAreMuted m"
    "us_known (ml_cloudUnread m1) = us_known (ml_cloudUnread m)"
  using assms by (auto simp: unreadStateChanged_def Let_def us_add_def split: if_splits)

lemma us_add_known [simp]: "us_known (us_add a b) = us_known a" "us_known (us_sub a b) = us_known a"
  by (simp_all add: us_add_def us_sub_def)

lemma total_changed:
  assumes ok: "total_ok ks st m" and fin: "finite ks" and k: "k \<in> ks" and same: "same_numbers was (st k)"
    and m1: "unreadStateChanged was now m = Some m1"
  shows "total_ok ks (st(k := now)) m1"
proof -
  have "g (ml_unread m1) = (\<Sum>j \<in> ks. g ((st(k := now)) j))" if g: "g \<in> set us_fields" for g
  proof -
    have "(\<Sum>j \<in> ks. g ((st(k := now)) j)) = g now + (\<Sum>j \<in> ks - {k}. g (st j))"
      using sum.remove[OF fin k, of "\<lambda>j. g ((st(k := now)) j)"]
        sum.cong[of "ks - {k}" "ks - {k}" "\<lambda>j. g ((st(k := now)) j)" "\<lambda>j. g (st j)"] by simp
    moreover have "(\<Sum>j \<in> ks. g (st j)) = g (st k) + (\<Sum>j \<in> ks - {k}. g (st j))"
      by (rule sum.remove[OF fin k])
    moreover have "g (ml_unread m) = (\<Sum>j \<in> ks. g (st j))" using ok g by (simp add: total_ok_def)
    moreover have "g was = g (st k)" using same g by (simp add: same_numbers_def)
    ultimately show ?thesis
      by (simp add: unreadStateChanged_fields(1)[OF m1] us_field_simps[OF g])
  qed
  then show ?thesis using ok by (simp add: total_ok_def unreadStateChanged_fields(1)[OF m1])
qed

lemma total_same:
  assumes "total_ok ks st m" and "\<And>k. k \<in> ks \<Longrightarrow> same_numbers (st1 k) (st k)"
  shows "total_ok ks st1 m"
proof -
  have "(\<Sum>k \<in> ks. g (st1 k)) = (\<Sum>k \<in> ks. g (st k))" if "g \<in> set us_fields" for g
    by (rule sum.cong) (use assms(2) that in \<open>auto simp: same_numbers_def\<close>)
  then show ?thesis using assms(1) by (simp add: total_ok_def)
qed

text \<open>A state without messages, chats, marks, mentions and reactions has no muted ones either.\<close>

definition muted_within :: "UnreadState \<Rightarrow> bool" where
  "muted_within s \<longleftrightarrow> (us_messages s = 0 \<longrightarrow> us_messagesMuted s = 0) \<and> (us_chats s = 0 \<longrightarrow> us_chatsMuted s = 0)
     \<and> (us_marks s = 0 \<longrightarrow> us_marksMuted s = 0) \<and> (us_reactions s = 0 \<longrightarrow> us_reactionsMuted s = 0)"

lemma unreadEntryChanged_fields:
  "ml_fullListSize (unreadEntryChanged s b m) = ml_fullListSize m" "ml_cloudListSize (unreadEntryChanged s b m) = ml_cloudListSize m"
  "ml_loaded (unreadEntryChanged s b m) = ml_loaded m" "ml_allAreMuted (unreadEntryChanged s b m) = ml_allAreMuted m"
  "us_known (ml_cloudUnread (unreadEntryChanged s b m)) = us_known (ml_cloudUnread m)"
  by (auto simp: unreadEntryChanged_def Let_def)

lemma unreadEntryChanged_unread:
  assumes "muted_within s" and g: "g \<in> set us_fields"
  shows "g (ml_unread (unreadEntryChanged s b m)) = g (ml_unread m) + (if b then g s else - g s)"
    "us_known (ml_unread (unreadEntryChanged s b m)) = us_known (ml_unread m)"
proof -
  have "g s = 0" if "us_messages s = 0 \<and> us_chats s = 0 \<and> us_marks s = 0 \<and> us_mentions s = 0 \<and> us_reactions s = 0"
    using assms that by (auto simp: muted_within_def us_fields_def)
  then show "g (ml_unread (unreadEntryChanged s b m)) = g (ml_unread m) + (if b then g s else - g s)"
    by (auto simp: unreadEntryChanged_def Let_def us_field_simps[OF g])
  show "us_known (ml_unread (unreadEntryChanged s b m)) = us_known (ml_unread m)"
    by (auto simp: unreadEntryChanged_def Let_def)
qed

lemma total_entry:
  assumes ok: "total_ok ks st m" and fin: "finite ks" and s: "muted_within (st k)"
  shows "k \<notin> ks \<Longrightarrow> total_ok (insert k ks) st (unreadEntryChanged (st k) True m)"
    and "k \<in> ks \<Longrightarrow> total_ok (ks - {k}) st (unreadEntryChanged (st k) False m)"
proof -
  have kn: "us_known (ml_unread (unreadEntryChanged (st k) b m))" for b
    using unreadEntryChanged_unread(2)[OF s, of us_messages b m] ok by (simp add: us_fields_def total_ok_def)
  show "total_ok (insert k ks) st (unreadEntryChanged (st k) True m)" if "k \<notin> ks"
    using that ok fin kn by (auto simp: total_ok_def unreadEntryChanged_unread(1)[OF s])
  show "total_ok (ks - {k}) st (unreadEntryChanged (st k) False m)" if "k \<in> ks"
  proof -
    have "g (ml_unread (unreadEntryChanged (st k) False m)) = (\<Sum>j \<in> ks - {k}. g (st j))" if g: "g \<in> set us_fields" for g
    proof -
      have "(\<Sum>j \<in> ks. g (st j)) = g (st k) + (\<Sum>j \<in> ks - {k}. g (st j))" by (rule sum.remove[OF fin \<open>k \<in> ks\<close>])
      moreover have "g (ml_unread m) = (\<Sum>j \<in> ks. g (st j))" using ok g by (simp add: total_ok_def)
      ultimately show ?thesis by (simp add: unreadEntryChanged_unread(1)[OF s g])
    qed
    then show ?thesis using kn by (simp add: total_ok_def)
  qed
qed

subsection \<open>A list announces its changes\<close>

text \<open>
  While the totals of the server are used, marks of chats with an unknown number of unread messages are not
  announced: \<open>main_call_ok\<close> is that there are none then, and that a known number stays known where the totals of
  the server are kept (what the code asserts).
\<close>

definition useClouded :: "main_list \<Rightarrow> bool" where
  "useClouded m \<longleftrightarrow> us_known (ml_cloudUnread m) \<and> \<not> ml_loaded m"

fun main_call_ok :: "main_call \<Rightarrow> main_list \<Rightarrow> bool" where
  "main_call_ok (MainStateChanged was now) m \<longleftrightarrow>
     (useClouded m \<and> \<not> us_known was \<longrightarrow> us_marks now = us_marks was \<and> us_marksMuted now = us_marksMuted was)
     \<and> (us_known (ml_cloudUnread m) \<and> us_known was \<longrightarrow> us_known now)"
| "main_call_ok (MainEntryChanged sz s added) m \<longleftrightarrow>
     useClouded m \<and> \<not> us_known s \<longrightarrow> us_marks s = 0 \<and> us_marksMuted s = 0"
| "main_call_ok c m \<longleftrightarrow> True"

lemma unreadState_cong:
  "ml_unread m1 = ml_unread m \<Longrightarrow> ml_cloudUnread m1 = ml_cloudUnread m \<Longrightarrow> ml_loaded m1 = ml_loaded m
    \<Longrightarrow> ml_allAreMuted m1 = ml_allAreMuted m \<Longrightarrow> unreadState m1 = unreadState m"
  by (simp add: unreadState_def)

lemma unreadState_clouded:
  assumes "us_known (ml_cloudUnread m)" "\<not> ml_loaded m" "ml_cloudUnread m1 = ml_cloudUnread m" "ml_loaded m1 = ml_loaded m"
    "ml_allAreMuted m1 = ml_allAreMuted m" "us_marks (ml_unread m1) = us_marks (ml_unread m)"
    "us_marksMuted (ml_unread m1) = us_marksMuted (ml_unread m)"
  shows "unreadState m1 = unreadState m"
  using assms by (simp add: unreadState_def)

lemma notifier_fired: "ml_fired (c m) = ml_fired m \<Longrightarrow> ml_fired (with_notifier n c m) = (if n then ml_fired m @ [unreadState m] else ml_fired m)"
  by (simp add: with_notifier_def Let_def)

lemma changed_announced:
  assumes "unreadStateChanged was now m = Some m1" and "main_call_ok (MainStateChanged was now) m"
  shows "ml_fired m1 = ml_fired m @ [unreadState m] \<or> ml_fired m1 = ml_fired m \<and> unreadState m1 = unreadState m"
proof (cases "(us_known (ml_cloudUnread m) \<and> \<not> ml_loaded m) \<and> \<not> us_known was")
  case True
  then have m1: "m1 = m\<lparr>ml_unread := us_add (ml_unread m) (us_sub now was)\<rparr>"
    using assms(1) by (simp add: unreadStateChanged_def Let_def with_notifier_def)
  have "unreadState m1 = unreadState m"
    by (rule unreadState_clouded) (use True assms(2) in \<open>simp_all add: useClouded_def m1 us_add_def us_sub_def\<close>)
  then show ?thesis by (simp add: m1)
next
  case False
  then show ?thesis using assms(1) by (auto simp: unreadStateChanged_def Let_def with_notifier_def split: if_splits)
qed

lemma entry_announced:
  assumes "main_call_ok (MainEntryChanged sz s b) m"
  shows "ml_fired (unreadEntryChanged s b m) = ml_fired m @ [unreadState m]
    \<or> ml_fired (unreadEntryChanged s b m) = ml_fired m \<and> unreadState (unreadEntryChanged s b m) = unreadState m"
proof (cases "us_known (ml_cloudUnread m) \<and> \<not> ml_loaded m \<and> \<not> us_known s")
  case True
  then have "unreadState (unreadEntryChanged s b m) = unreadState m"
    by (intro unreadState_clouded) (use assms in \<open>auto simp: useClouded_def unreadEntryChanged_def Let_def us_add_def us_sub_def\<close>)
  then show ?thesis using True by (auto simp: unreadEntryChanged_def Let_def with_notifier_def)
next
  case False
  then show ?thesis by (auto simp: unreadEntryChanged_def Let_def with_notifier_def)
qed

lemma main_announced:
  assumes "main_step c m = Some m1" and "main_call_ok c m"
  shows "ml_fired m1 = ml_fired m @ [unreadState m] \<or> ml_fired m1 = ml_fired m \<and> unreadState m1 = unreadState m"
proof (cases c)
  case (MainLoaded sz loaded)
  then show ?thesis using assms by (auto simp: setLoaded_def notifier_fired split: if_splits)
next
  case (MainAllAreMuted b)
  then show ?thesis using assms by (auto simp: setAllAreMuted_def notifier_fired split: if_splits)
next
  case (MainCloudListSize sz cloud)
  then show ?thesis using assms by (auto simp: setCloudListSize_def unreadState_def split: if_splits)
next
  case (MainCloudUnread a b c d)
  show ?thesis
  proof (cases "ml_loaded m")
    case True
    then show ?thesis using assms MainCloudUnread by (auto simp: updateCloudUnread_def Let_def with_notifier_def unreadState_def)
  next
    case False
    then show ?thesis using assms MainCloudUnread by (auto simp: updateCloudUnread_def Let_def with_notifier_def)
  qed
next
  case (MainStateChanged was now)
  then show ?thesis using assms changed_announced by simp
next
  case (MainEntryChanged sz s b)
  then show ?thesis using assms entry_announced[of sz s b m]
    by (auto simp: unreadState_cong[of "recomputeFullListSize sz (unreadEntryChanged s b m)" "unreadEntryChanged s b m"])
qed

lemma main_step_some: "main_call_ok c m \<Longrightarrow> \<exists>m1. main_step c m = Some m1"
  by (cases c) (auto simp: unreadStateChanged_def Let_def)

lemma main_step_known:
  assumes "main_step c m = Some m1" and "us_known (ml_unread m)"
  shows "us_known (ml_unread m1)"
proof (cases c)
  case (MainStateChanged was now)
  then show ?thesis using assms unreadStateChanged_fields(1)[of was now m m1] by simp
qed (use assms in \<open>auto simp: setLoaded_def setAllAreMuted_def setCloudListSize_def updateCloudUnread_def unreadEntryChanged_def Let_def\<close>)

lemma unreadState_known: "us_known (ml_unread m) \<Longrightarrow> us_known (unreadState m)"
  by (simp add: unreadState_def Let_def)

subsection \<open>The total of a list\<close>

definition own_list_ok :: "main_list \<Rightarrow> bool" where
  "own_list_ok m \<longleftrightarrow> us_known (ml_unread m) \<and> muted_within (unreadState m)"

fun entry_ok :: "unread_entry \<Rightarrow> bool" where
  "entry_ok (HistoryEntry h forum) \<longleftrightarrow> (\<forall>n. hu_unreadCount h = Some n \<longrightarrow> 0 \<le> n) \<and> things_fine (hu_things h)
     \<and> (\<forall>m. forum = Some m \<longrightarrow> own_list_ok m)"
| "entry_ok (TopicEntry t) \<longleftrightarrow> (\<forall>n. tu_unreadCount t = Some n \<longrightarrow> 0 \<le> n) \<and> things_fine (tu_things t)
     \<and> tu_told t = map_option (\<lambda>_. displayedUnreadCount t) (tu_unreadCount t)"
| "entry_ok (FolderEntry m) \<longleftrightarrow> own_list_ok m"

lemma entry_muted_within: "entry_ok e \<Longrightarrow> muted_within (chatListUnreadState e)"
  by (cases e rule: chatListUnreadState.cases)
    (auto simp: own_list_ok_def muted_within_def computeUnreadState_def topic_state_def unreadStateFor_def empty_unread_def Let_def
      split: if_splits)

definition unread_inv :: "int \<Rightarrow> 'k set \<Rightarrow> ('k, 'n, 'c::linorder) unread_list \<Rightarrow> bool" where
  "unread_inv f ks u \<longleftrightarrow> chats_inv f ks (ul_chats u) \<and> total_ok ks (\<lambda>k. chatListUnreadState (ul_entry u k)) (ul_main u)
     \<and> size_ok (int (card ks)) (ul_main u) \<and> (\<forall>k. entry_ok (ul_entry u k))"

lemma unread_inv_chats:
  assumes "unread_inv f ks u"
  shows "in_list f k u \<longleftrightarrow> k \<in> ks" "finite ks" "list_size (il_list (ct_list (ul_chats u))) = card ks"
proof -
  have c: "chats_inv f ks (ul_chats u)" using assms by (simp add: unread_inv_def)
  then have l: "links_ok (ct_names (ul_chats u)) ks (ct_links (ul_chats u) f)" and r: "set (dl_rows (il_list (ct_list (ul_chats u)))) = ks"
      "distinct (dl_rows (il_list (ct_list (ul_chats u))))"
    by (auto simp: chats_inv_def list_inv_def list_ok_def)
  show "in_list f k u \<longleftrightarrow> k \<in> ks" using links_ok_at(1)[OF l, of k] by (auto simp: in_list_def)
  show "finite ks" using r(1) by auto
  show "list_size (il_list (ct_list (ul_chats u))) = card ks" using r distinct_card by (fastforce simp: list_size_def)
qed

text \<open>An announcement: \<open>st\<close> are the states the total was made of.\<close>

lemma notify_ok:
  assumes ch: "chats_inv f ks (ul_chats u)" and sz: "size_ok (int (card ks)) (ul_main u)" and en: "\<forall>k. entry_ok (ul_entry u k)"
    and tot: "total_ok ks st (ul_main u)" and st: "\<And>j. j \<noteq> k \<Longrightarrow> st j = chatListUnreadState (ul_entry u j)"
    and k: "k \<in> ks" and same: "same_numbers was (st k)"
    and known: "us_known (ml_cloudUnread (ul_main u)) \<Longrightarrow> us_known was \<Longrightarrow> us_known (chatListUnreadState (ul_entry u k))"
  shows "\<exists>u1. notifyUnreadStateChange f k was u = Some u1 \<and> unread_inv f ks u1 \<and> ul_entry u1 = ul_entry u"
proof -
  let ?now = "chatListUnreadState (ul_entry u k)"
  have il: "in_list f k u" "finite ks"
    using ch k by (auto simp: in_list_def chats_inv_def list_inv_def dest: links_ok_at(1)[of _ _ _ k])
  obtain m1 where m1: "unreadStateChanged was ?now (ul_main u) = Some m1"
    using known by (auto simp: unreadStateChanged_def Let_def)
  have t1: "total_ok ks (st(k := ?now)) m1" by (rule total_changed[OF tot il(2) k same m1])
  have "st(k := ?now) = (\<lambda>j. chatListUnreadState (ul_entry u j))" using st by auto
  then have "unread_inv f ks (u\<lparr>ul_main := m1\<rparr>)"
    using t1 ch sz en unreadStateChanged_fields[OF m1] by (simp add: unread_inv_def size_ok_def)
  then show ?thesis using il(1) m1 by (simp add: notifyUnreadStateChange_def)
qed

lemma unread_inv_entry:
  assumes inv: "unread_inv f ks u" and e: "entry_ok e" and same: "k \<in> ks \<Longrightarrow> same_numbers (chatListUnreadState e) (chatListUnreadState (ul_entry u k))"
  shows "unread_inv f ks (u\<lparr>ul_entry := (ul_entry u)(k := e)\<rparr>)"
proof -
  have "total_ok ks (\<lambda>j. chatListUnreadState (((ul_entry u)(k := e)) j)) (ul_main u)"
    by (rule total_same[of ks "\<lambda>j. chatListUnreadState (ul_entry u j)"]) (use inv same in \<open>auto simp: unread_inv_def\<close>)
  then show ?thesis using inv e by (simp add: unread_inv_def)
qed

text \<open>An entry changes and announces the state it had.\<close>

lemma change_notify_ok:
  assumes inv: "unread_inv f ks u" and e: "entry_ok e" and k: "k \<in> ks" and same: "same_numbers was (chatListUnreadState (ul_entry u k))"
    and known: "us_known (ml_cloudUnread (ul_main u)) \<Longrightarrow> us_known was \<Longrightarrow> us_known (chatListUnreadState e)"
  shows "\<exists>u1. notifyUnreadStateChange f k was (u\<lparr>ul_entry := (ul_entry u)(k := e)\<rparr>) = Some u1 \<and> unread_inv f ks u1
    \<and> ul_entry u1 = (ul_entry u)(k := e)"
  using notify_ok[of f ks "u\<lparr>ul_entry := (ul_entry u)(k := e)\<rparr>" "\<lambda>j. chatListUnreadState (ul_entry u j)" k was] assms
  by (auto simp: unread_inv_def)

lemma entry_notifier_ok:
  assumes inv: "unread_inv f ks u" and e: "entry_ok e"
    and same: "required \<or> same_numbers (chatListUnreadState e) (chatListUnreadState (ul_entry u k))"
    and known: "us_known (chatListUnreadState (ul_entry u k)) \<Longrightarrow> us_known (chatListUnreadState e)"
  shows "\<exists>u1. entry_notifier f required k e u = Some u1 \<and> unread_inv f ks u1"
proof (cases "required \<and> k \<in> ks")
  case True
  then show ?thesis
    using change_notify_ok[OF inv e, of k "chatListUnreadState (ul_entry u k)"] known unread_inv_chats(1)[OF inv, of k]
    by (auto simp: entry_notifier_def Let_def)
next
  case False
  then have "unread_inv f ks (u\<lparr>ul_entry := (ul_entry u)(k := e)\<rparr>)"
    using unread_inv_entry[OF inv e, of k] same by auto
  then show ?thesis using False unread_inv_chats(1)[OF inv, of k] by (auto simp: entry_notifier_def Let_def)
qed

subsection \<open>Each call keeps the total\<close>

lemma chats_unread_cong: "unread_inv f ks u \<Longrightarrow> chats_inv f ks s \<Longrightarrow> unread_inv f ks (u\<lparr>ul_chats := s\<rparr>)"
  by (simp add: unread_inv_def)

lemma unread_add_ok:
  assumes inv: "unread_inv f ks u"
  shows "\<exists>u1. addToUnreadList f k u = Some u1 \<and> unread_inv f (insert k ks) u1"
proof (cases "k \<in> ks")
  case True
  then show ?thesis using inv unread_inv_chats(1)[OF inv, of k] by (simp add: addToUnreadList_def insert_absorb Let_def)
next
  case False
  let ?s = "ul_chats u" let ?st = "\<lambda>k. chatListUnreadState (ul_entry u k)"
  have nl: "\<not> in_list f k u" using unread_inv_chats(1)[OF inv] False by simp
  have ch: "chats_inv f ks ?s" and tot: "total_ok ks ?st (ul_main u)" and en: "\<forall>k. entry_ok (ul_entry u k)"
    using inv by (auto simp: unread_inv_def)
  obtain s1 where s1: "addToChatList f k ?s = Some s1" "chats_inv f (insert k ks) s1" using chats_inv_add[OF ch] by blast
  then obtain r il where r: "il_addToEnd (ct_entries ?s) (ct_names ?s) k (ct_list ?s) = Some (r, il)"
      "s1 = ?s\<lparr>ct_links := (ct_links ?s)(f := (ct_links ?s f)(k \<mapsto> r)), ct_list := il\<rparr>"
    using nl by (auto simp: addToChatList_def in_list_def bind_eq_Some_conv)
  let ?m = "unreadEntryChanged (?st k) True (ul_main u)"
  let ?u = "u\<lparr>ul_chats := s1, ul_main := recomputeFullListSize (int (list_size (il_list il))) ?m\<rparr>"
  have u1: "addToUnreadList f k u = Some ?u"
    using nl r by (simp add: addToUnreadList_def addEntry_def Let_def)
  have t1: "total_ok (insert k ks) ?st ?m"
    by (rule total_entry(1)[OF tot unread_inv_chats(2)[OF inv] entry_muted_within False]) (use en in simp)
  have inv0: "unread_inv f (insert k ks) (u\<lparr>ul_chats := s1, ul_main := recomputeFullListSize (int (card (insert k ks))) ?m\<rparr>)"
    using s1(2) t1 en by (simp add: unread_inv_def total_ok_def)
  have "list_size (il_list il) = card (insert k ks)" using unread_inv_chats(3)[OF inv0] r(2) by simp
  then have "unread_inv f (insert k ks) ?u" using inv0 by simp
  then show ?thesis using u1 by blast
qed

lemma unread_remove_ok:
  assumes inv: "unread_inv f ks u"
  shows "\<exists>u1. removeFromUnreadList f k u = Some u1 \<and> unread_inv f (ks - {k}) u1"
proof (cases "k \<in> ks")
  case False
  then show ?thesis using inv unread_inv_chats(1)[OF inv, of k] by (simp add: removeFromUnreadList_def Let_def)
next
  case True
  let ?s = "ul_chats u" let ?st = "\<lambda>k. chatListUnreadState (ul_entry u k)"
  have nl: "in_list f k u" using unread_inv_chats(1)[OF inv] True by simp
  have ch: "chats_inv f ks ?s" and tot: "total_ok ks ?st (ul_main u)" and en: "\<forall>k. entry_ok (ul_entry u k)"
    using inv by (auto simp: unread_inv_def)
  obtain s1 where s1: "removeFromChatList f k ?s = Some s1" "chats_inv f (ks - {k}) s1" using chats_inv_remove[OF ch] by blast
  then obtain il where r: "il_remove (ct_names ?s) k None (ct_list ?s) = Some il"
      "s1 = ?s\<lparr>ct_links := (ct_links ?s)(f := (ct_links ?s f)(k := None)), ct_list := il\<rparr>"
    using nl by (auto simp: removeFromChatList_def in_list_def bind_eq_Some_conv)
  let ?m = "unreadEntryChanged (?st k) False (ul_main u)"
  let ?u = "u\<lparr>ul_chats := s1, ul_main := recomputeFullListSize (int (list_size (il_list il))) ?m\<rparr>"
  have u1: "removeFromUnreadList f k u = Some ?u"
    using nl r by (simp add: removeFromUnreadList_def removeEntry_def Let_def)
  have t1: "total_ok (ks - {k}) ?st ?m"
    by (rule total_entry(2)[OF tot unread_inv_chats(2)[OF inv] entry_muted_within True]) (use en in simp)
  have inv0: "unread_inv f (ks - {k}) (u\<lparr>ul_chats := s1, ul_main := recomputeFullListSize (int (card (ks - {k}))) ?m\<rparr>)"
    using s1(2) t1 en by (simp add: unread_inv_def total_ok_def)
  have "list_size (il_list il) = card (ks - {k})" using unread_inv_chats(3)[OF inv0] r(2) by simp
  then have "unread_inv f (ks - {k}) ?u" using inv0 by simp
  then show ?thesis using u1 by blast
qed

lemma unread_count_ok:
  assumes inv: "unread_inv f ks u" and n: "0 \<le> n"
  shows "\<exists>u1. history_setUnreadCount f k n u = Some u1 \<and> unread_inv f ks u1"
proof (cases "ul_entry u k")
  case (HistoryEntry h forum)
  have e: "entry_ok (HistoryEntry h forum)" using inv HistoryEntry unfolding unread_inv_def by metis
  show ?thesis
  proof (cases "hu_unreadCount h = Some n")
    case False
    have "\<exists>u1. entry_notifier f (forum = None) k (HistoryEntry (h\<lparr>hu_unreadCount := Some n\<rparr>) forum) u = Some u1 \<and> unread_inv f ks u1"
    proof (rule entry_notifier_ok[OF inv])
      show "entry_ok (HistoryEntry (h\<lparr>hu_unreadCount := Some n\<rparr>) forum)" using e n by auto
    qed (use HistoryEntry in \<open>cases forum; simp add: computeUnreadState_def Let_def\<close>)+
    then show ?thesis using False HistoryEntry by simp
  qed (use inv HistoryEntry in simp)
qed (use inv in simp_all)

lemma unread_mark_ok:
  assumes inv: "unread_inv f ks u"
  shows "\<exists>u1. history_setUnreadMark f k client b u = Some u1 \<and> unread_inv f ks u1"
proof (cases "ul_entry u k")
  case (HistoryEntry h forum)
  have e: "entry_ok (HistoryEntry h forum)" using inv HistoryEntry unfolding unread_inv_def by metis
  let ?b = "if client then False else b"
  show ?thesis
  proof (cases "hu_unreadMark h = ?b")
    case False
    have "\<exists>u1. entry_notifier f ((case hu_unreadCount h of None \<Rightarrow> 0 | Some n \<Rightarrow> n) = 0 \<and> forum = None) k
        (HistoryEntry (h\<lparr>hu_unreadMark := ?b\<rparr>) forum) u = Some u1 \<and> unread_inv f ks u1"
    proof (rule entry_notifier_ok[OF inv])
      show "entry_ok (HistoryEntry (h\<lparr>hu_unreadMark := ?b\<rparr>) forum)" using e by auto
    qed (use HistoryEntry in \<open>cases forum; simp add: computeUnreadState_def Let_def split: option.splits\<close>)+
    then show ?thesis using False HistoryEntry by (simp add: Let_def)
  qed (use inv HistoryEntry in \<open>simp add: Let_def\<close>)
qed (use inv in simp_all)

lemma history_mute_seen:
  assumes "\<forall>n. hu_unreadCount h = Some n \<longrightarrow> 0 \<le> n" and "\<not> bs_unread (computeBadgesState h)" and "\<not> bs_reaction (computeBadgesState h)"
  shows "same_numbers (computeUnreadState (h\<lparr>hu_muted := b\<rparr>)) (computeUnreadState h)"
proof -
  have "us_marks (computeUnreadState h) + us_messages (computeUnreadState h) \<le> 0" "us_reactions (computeUnreadState h) \<le> 0"
    using assms(2,3) by (auto simp: computeBadgesState_def adjustBadgesStateByFolder_def BadgesForUnread_def Let_def split: if_splits)
  then show ?thesis using assms(1)
    by (auto simp: same_numbers_def field_cases computeUnreadState_def Let_def split: option.splits if_splits)
qed

lemma topic_field_simps [simp]:
  "displayedUnreadCount (t\<lparr>tu_muted := b\<rparr>) = displayedUnreadCount t"
  "displayedUnreadCount (t\<lparr>tu_things := th\<rparr>) = displayedUnreadCount t"
  "displayedUnreadCount (t\<lparr>tu_told := n\<rparr>) = displayedUnreadCount t"
  by (simp_all add: displayedUnreadCount_def)

lemma displayed_nonneg: "(\<And>n. tu_unreadCount t = Some n \<Longrightarrow> 0 \<le> n) \<Longrightarrow> 0 \<le> displayedUnreadCount t"
  by (simp add: displayedUnreadCount_def split: option.split)

lemma topic_mute_seen:
  assumes "0 \<le> displayedUnreadCount t" and "\<not> bs_unread (topic_badges t)" and "\<not> bs_reaction (topic_badges t)"
  shows "same_numbers (topic_state (t\<lparr>tu_muted := b\<rparr>)) (topic_state t)"
proof -
  have "us_marks (topic_state t) + us_messages (topic_state t) \<le> 0" "us_reactions (topic_state t) \<le> 0"
    using assms(2,3) by (auto simp: topic_badges_def BadgesForUnread_def Let_def split: if_splits)
  then show ?thesis using assms(1)
    by (auto simp: same_numbers_def field_cases topic_state_def unreadStateFor_def empty_unread_def Let_def split: if_splits)
qed

lemma unread_muted_ok:
  assumes inv: "unread_inv f ks u"
  shows "\<exists>u1. entry_setMuted f k b u = Some u1 \<and> unread_inv f ks u1"
proof (cases "ul_entry u k")
  case (HistoryEntry h forum)
  have e: "entry_ok (HistoryEntry h forum)" using inv HistoryEntry unfolding unread_inv_def by metis
  show ?thesis
  proof (cases "hu_muted h = b")
    case False
    have "\<exists>u1. entry_notifier f (forum = None \<and> (bs_unread (computeBadgesState h) \<or> bs_reaction (computeBadgesState h))) k
        (HistoryEntry (h\<lparr>hu_muted := b\<rparr>) forum) u = Some u1 \<and> unread_inv f ks u1"
    proof (rule entry_notifier_ok[OF inv])
      show "entry_ok (HistoryEntry (h\<lparr>hu_muted := b\<rparr>) forum)" using e by auto
      show "(forum = None \<and> (bs_unread (computeBadgesState h) \<or> bs_reaction (computeBadgesState h)))
          \<or> same_numbers (chatListUnreadState (HistoryEntry (h\<lparr>hu_muted := b\<rparr>) forum)) (chatListUnreadState (ul_entry u k))"
        using e HistoryEntry history_mute_seen[of h b] by (cases forum) auto
    qed (use HistoryEntry in \<open>cases forum; simp add: computeUnreadState_def Let_def\<close>)
    then show ?thesis using False HistoryEntry by simp
  qed (use inv HistoryEntry in simp)
next
  case (TopicEntry t)
  have e: "entry_ok (TopicEntry t)" using inv TopicEntry unfolding unread_inv_def by metis
  show ?thesis
  proof (cases "tu_muted t = b")
    case False
    have "\<exists>u1. entry_notifier f (bs_unread (topic_badges t) \<or> bs_reaction (topic_badges t)) k
        (TopicEntry (t\<lparr>tu_muted := b\<rparr>)) u = Some u1 \<and> unread_inv f ks u1"
    proof (rule entry_notifier_ok[OF inv])
      show "entry_ok (TopicEntry (t\<lparr>tu_muted := b\<rparr>))" using e by auto
      show "(bs_unread (topic_badges t) \<or> bs_reaction (topic_badges t))
          \<or> same_numbers (chatListUnreadState (TopicEntry (t\<lparr>tu_muted := b\<rparr>))) (chatListUnreadState (ul_entry u k))"
        using e TopicEntry topic_mute_seen[of t b] displayed_nonneg[of t] by auto
    qed (use TopicEntry in \<open>simp add: topic_state_def unreadStateFor_def Let_def\<close>)
    then show ?thesis using False TopicEntry by (simp add: Let_def)
  qed (use inv TopicEntry in simp)
qed (use inv in simp_all)

lemma unread_inv_entry_ok: "unread_inv f ks u \<Longrightarrow> entry_ok (ul_entry u k)"
  by (simp add: unread_inv_def)

lemma has_in_list [simp]: "proxy_has ty (t\<lparr>th_inChatList := b\<rparr>) = proxy_has ty t"
  by (simp add: proxy_has_def)

text \<open>What entries without a list of their own have of their unread mentions and reactions.\<close>

definition entry_muted :: "unread_entry \<Rightarrow> bool" where
  "entry_muted e = (case e of HistoryEntry h forum \<Rightarrow> hu_muted h | TopicEntry t \<Rightarrow> tu_muted t | FolderEntry m \<Rightarrow> False)"

lemma put_things_numbers:
  assumes "entry_things e = Some t" and "own_list e = None" and "\<And>ty. proxy_has ty t1 = proxy_has ty t"
  shows "chatListUnreadState (put_things t1 e) = chatListUnreadState e"
  using assms by (cases e) (auto simp: computeUnreadState_def topic_state_def unreadStateFor_def Let_def)

lemma put_things_own: "own_list e = Some m \<Longrightarrow> chatListUnreadState (put_things t1 e) = chatListUnreadState e"
  by (cases e) auto

lemma state_before_ok:
  assumes "entry_things e = Some t" and "own_list e = None"
    and "\<And>ty1. proxy_has ty1 t1 = (if ty1 = ty then has else proxy_has ty1 t)" and "has \<noteq> proxy_has ty t"
  shows "state_before ty has (entry_muted e) (chatListUnreadState (put_things t1 e)) = chatListUnreadState e"
proof (cases e)
  case (HistoryEntry h forum)
  then show ?thesis using assms
    by (cases ty; cases has; simp add: computeUnreadState_def entry_muted_def Let_def)
next
  case (TopicEntry tp)
  then show ?thesis using assms
    by (cases ty; cases has; simp add: topic_state_def unreadStateFor_def entry_muted_def empty_unread_def Let_def)
qed (use assms in simp)

lemma hasUnreadChanged_eq:
  assumes "entry_things (ul_entry u k) = Some t"
  shows "hasUnreadChanged f k (ty, has) u =
    (if own_list (ul_entry u k) = None
     then notifyUnreadStateChange f k (state_before ty has (entry_muted (ul_entry u k)) (chatListUnreadState (ul_entry u k))) u
     else Some u)"
  using assms by (cases "ul_entry u k") (auto simp: entry_muted_def split: option.split)

lemma put_things_simps:
  "entry_things e = Some t \<Longrightarrow> entry_things (put_things t1 e) = Some t1" "own_list (put_things t1 e) = own_list e"
  "entry_muted (put_things t1 e) = entry_muted e"
  "entry_ok e \<Longrightarrow> things_fine t1 \<Longrightarrow> entry_ok (put_things t1 e)"
  "entry_ok e \<Longrightarrow> entry_things e = Some t \<Longrightarrow> things_fine t"
  "us_known (chatListUnreadState (put_things t1 e)) = us_known (chatListUnreadState e)"
  "us_known (state_before ty has b s) = us_known s"
proof -
  show "us_known (chatListUnreadState (put_things t1 e)) = us_known (chatListUnreadState e)"
    by (cases e rule: chatListUnreadState.cases)
      (simp_all add: computeUnreadState_def topic_state_def unreadStateFor_def Let_def)
  show "us_known (state_before ty has b s) = us_known s" by (cases ty) simp_all
qed (cases e; simp add: entry_muted_def)+

lemma unread_things_ok:
  assumes inv: "unread_inv f ks u"
  shows "\<exists>u1. entry_things_call f k c u = Some u1 \<and> unread_inv f ks u1"
proof (cases "entry_things (ul_entry u k)")
  case (Some t)
  let ?e = "ul_entry u k" let ?t = "t\<lparr>th_inChatList := in_list f k u\<rparr>"
  let ?t1 = "things_step c ?t"
  let ?e1 = "put_things ?t1 ?e"
  let ?u = "u\<lparr>ul_entry := (ul_entry u)(k := ?e1)\<rparr>"
  have e: "entry_ok ?e" by (rule unread_inv_entry_ok[OF inv])
  have "things_fine ?t" using put_things_simps(5)[OF e Some] by (simp add: things_fine_def)
  then have t1: "tells ?t ?t1" "things_fine ?t1" using things_step_ok[of ?t c] by auto
  have e1: "entry_ok ?e1" by (rule put_things_simps(4)[OF e t1(2)])
  obtain es where es: "th_changed ?t1 = th_changed t @ es" "es = [] \<or> (\<exists>ev. es = [ev] \<and> in_list f k u)"
    using things_step_events[of c ?t] by auto
  have heard: "heard ty es (proxy_has ty t) = proxy_has ty ?t1" "only_changes ty es (proxy_has ty t)" if "in_list f k u" for ty
    using t1(1) that es(1) by (auto simp: tells_def)
  have call: "entry_things_call f k c u = each_event (hasUnreadChanged f k) es ?u"
    using Some es(1) by (simp add: entry_things_call_def Let_def)
  show ?thesis
  proof (cases "own_list ?e = None")
    case own: True
    show ?thesis
    proof (cases "es = []")
      case True
      have "unread_inv f ks ?u"
      proof (rule unread_inv_entry[OF inv e1])
        assume "k \<in> ks"
        then have "in_list f k u" using unread_inv_chats(1)[OF inv] by simp
        then show "same_numbers (chatListUnreadState ?e1) (chatListUnreadState ?e)"
          using put_things_numbers[OF Some own, of ?t1] heard(1) True by simp
      qed
      then show ?thesis using call True by simp
    next
      case False
      then obtain ty has where ev: "es = [(ty, has)]" "in_list f k u" using es(2) by auto
      have k: "k \<in> ks" using ev(2) unread_inv_chats(1)[OF inv] by simp
      have has: "proxy_has ty1 ?t1 = (if ty1 = ty then has else proxy_has ty1 t)" for ty1
        using heard(1)[OF ev(2), of ty1] by (auto simp: ev(1) split: if_splits)
      have ne: "has \<noteq> proxy_has ty t" using heard(2)[OF ev(2), of ty] by (simp add: ev(1))
      have was: "state_before ty has (entry_muted ?e) (chatListUnreadState ?e1) = chatListUnreadState ?e"
        by (rule state_before_ok[OF Some own has ne])
      have "\<exists>u1. notifyUnreadStateChange f k (chatListUnreadState ?e) ?u = Some u1 \<and> unread_inv f ks u1 \<and> ul_entry u1 = (ul_entry u)(k := ?e1)"
        by (rule change_notify_ok[OF inv e1 k]) (simp_all add: put_things_simps(6))
      moreover have "hasUnreadChanged f k (ty, has) ?u = notifyUnreadStateChange f k (chatListUnreadState ?e) ?u"
        using hasUnreadChanged_eq[of ?u k ?t1 f ty has] own was by (simp add: put_things_simps(1)[OF Some] put_things_simps(2,3))
      ultimately show ?thesis using call by (auto simp: ev(1))
    qed
  next
    case own: False
    have "unread_inv f ks ?u"
      by (rule unread_inv_entry[OF inv e1]) (use own put_things_own in auto)
    moreover have "hasUnreadChanged f k ev ?u = Some ?u" for ev
      using hasUnreadChanged_eq[of ?u k ?t1 f "fst ev" "snd ev"] own
      by (simp add: put_things_simps(1)[OF Some] put_things_simps(2) del: hasUnreadChanged.simps)
    then have "each_event (hasUnreadChanged f k) es ?u = Some ?u"
      using es(2) by (auto simp del: hasUnreadChanged.simps)
    ultimately show ?thesis using call by simp
  qed
qed (use inv in \<open>simp add: entry_things_call_def\<close>)

lemma unread_forum_ok:
  assumes inv: "unread_inv f ks u" and forum: "\<And>m. forum = Some m \<Longrightarrow> own_list_ok m"
    and known: "\<And>h old. ul_entry u k = HistoryEntry h (Some old) \<Longrightarrow> forum = None
      \<Longrightarrow> us_known (ml_cloudUnread (ul_main u)) \<Longrightarrow> hu_unreadCount h \<noteq> None"
  shows "\<exists>u1. forumChanged f k forum u = Some u1 \<and> unread_inv f ks u1"
proof (cases "ul_entry u k")
  case (HistoryEntry h old)
  let ?e1 = "HistoryEntry h forum"
  have e1: "entry_ok ?e1" using unread_inv_entry_ok[OF inv, of k] HistoryEntry forum by auto
  have was: "(case old of Some topics \<Rightarrow> unreadState topics | None \<Rightarrow> computeUnreadState h) = chatListUnreadState (ul_entry u k)"
    by (cases old) (simp_all add: HistoryEntry)
  show ?thesis
  proof (cases "k \<in> ks")
    case True
    have "\<exists>u1. notifyUnreadStateChange f k (chatListUnreadState (ul_entry u k)) (u\<lparr>ul_entry := (ul_entry u)(k := ?e1)\<rparr>) = Some u1
        \<and> unread_inv f ks u1 \<and> ul_entry u1 = (ul_entry u)(k := ?e1)"
    proof (rule change_notify_ok[OF inv e1 True])
      show "us_known (ml_cloudUnread (ul_main u)) \<Longrightarrow> us_known (chatListUnreadState (ul_entry u k)) \<Longrightarrow> us_known (chatListUnreadState ?e1)"
        using known[of h] forum HistoryEntry by (cases forum; cases old) (auto simp: own_list_ok_def unreadState_known computeUnreadState_def Let_def)
    qed simp
    then show ?thesis using HistoryEntry unread_inv_chats(1)[OF inv, of k] True was by (auto simp: forumChanged_def Let_def)
  next
    case False
    then show ?thesis using HistoryEntry unread_inv_chats(1)[OF inv, of k] unread_inv_entry[OF inv e1, of k]
      by (auto simp: forumChanged_def Let_def)
  qed
qed (use inv in \<open>simp_all add: forumChanged_def\<close>)

lemma topic_change_simps [simp]:
  "tu_muted (topic_change c t) = tu_muted t" "tu_things (topic_change c t) = tu_things t" "tu_told (topic_change c t) = tu_told t"
  "tu_inboxReadTillId t \<le> tu_inboxReadTillId (topic_change c t)"
  by (cases c; auto simp: setInboxReadTill_def changeUnreadCountByPost_def checkReadTillEnd_def replies_setUnreadCount_def Let_def split: option.split)+

text \<open>
  What is expected of a topic: the counts it is given are possible, a known count stays known where the server's
  totals are kept (\<open>cloud\<close>), and the read position does not pass the first message with the count left as it was.
\<close>

fun topic_call_ok :: "bool \<Rightarrow> topic_call \<Rightarrow> topic_unread \<Rightarrow> bool" where
  "topic_call_ok cloud c t \<longleftrightarrow>
     (let t1 = topic_change c t
      in (case c of TopicReadTill r (Some n) front \<Rightarrow> 0 \<le> n | _ \<Rightarrow> True)
         \<and> (cloud \<and> tu_unreadCount t1 = None \<longrightarrow> tu_unreadCount t = None)
         \<and> (tu_inboxReadTillId t \<le> 1 \<and> 1 < tu_inboxReadTillId t1 \<and> tu_unreadCount t1 = tu_unreadCount t
             \<longrightarrow> tu_unreadCount t = None \<or> tu_unreadCount t = Some 0))"

lemma topic_change_counts:
  assumes "\<And>n. tu_unreadCount t = Some n \<Longrightarrow> 0 \<le> n" and "topic_call_ok cloud c t" and "tu_unreadCount (topic_change c t) = Some n"
  shows "0 \<le> n"
  using assms
  by (cases c) (auto simp: setInboxReadTill_def changeUnreadCountByPost_def checkReadTillEnd_def replies_setUnreadCount_def Let_def
      split: option.splits if_splits)

lemma topic_quiet:
  assumes "topic_call_ok cloud c t" and "tu_unreadCount (topic_change c t) = tu_unreadCount t"
  shows "displayedUnreadCount (topic_change c t) = displayedUnreadCount t"
proof (cases "tu_inboxReadTillId t \<le> 1 \<and> 1 < tu_inboxReadTillId (topic_change c t)")
  case True
  then show ?thesis using assms by (auto simp: displayedUnreadCount_def Let_def)
next
  case False
  then have "1 < tu_inboxReadTillId (topic_change c t) \<longleftrightarrow> 1 < tu_inboxReadTillId t"
    using topic_change_simps(4)[of t c] by linarith
  then show ?thesis using assms(2) by (simp add: displayedUnreadCount_def)
qed

lemma unknown_displayed: "tu_unreadCount t = None \<Longrightarrow> displayedUnreadCount t = 0"
  by (simp add: displayedUnreadCount_def)

lemma unread_topic_ok:
  assumes inv: "unread_inv f ks u"
    and ok: "\<And>t. ul_entry u k = TopicEntry t \<Longrightarrow> topic_call_ok (us_known (ml_cloudUnread (ul_main u))) c t"
  shows "\<exists>u1. topicUnreadCount f k c u = Some u1 \<and> unread_inv f ks u1"
proof (cases "ul_entry u k")
  case (TopicEntry t)
  define t1 where "t1 = topic_change c t"
  define now where "now = map_option (\<lambda>_. displayedUnreadCount t1) (tu_unreadCount t1)"
  define t2 where "t2 = t1\<lparr>tu_told := now\<rparr>"
  have okt: "topic_call_ok (us_known (ml_cloudUnread (ul_main u))) c t" by (rule ok[OF TopicEntry])
  have e: "\<And>n. tu_unreadCount t = Some n \<Longrightarrow> 0 \<le> n" "things_fine (tu_things t)"
      "tu_told t = map_option (\<lambda>_. displayedUnreadCount t) (tu_unreadCount t)"
    using unread_inv_entry_ok[OF inv, of k] TopicEntry by auto
  have same: "tu_muted t1 = tu_muted t" "tu_things t1 = tu_things t" "tu_told t1 = tu_told t" by (simp_all add: t1_def)
  have n1: "0 \<le> n" if "tu_unreadCount t1 = Some n" for n
    using topic_change_counts[OF e(1) okt] that by (simp add: t1_def)
  show ?thesis
  proof (cases "tu_unreadCount t1 = tu_unreadCount t \<or> now = tu_told t")
    case True
    have told: "now = tu_told t" and disp: "displayedUnreadCount t1 = displayedUnreadCount t"
        and known: "tu_unreadCount t1 = None \<longleftrightarrow> tu_unreadCount t = None"
      using True topic_quiet[OF okt] e(3) unknown_displayed[of t] unknown_displayed[of t1]
      by (cases "tu_unreadCount t"; cases "tu_unreadCount t1"; auto simp: now_def t1_def)+
    have "entry_ok (TopicEntry t1)" using e(2) n1 same told by (simp add: now_def)
    then have "unread_inv f ks (u\<lparr>ul_entry := (ul_entry u)(k := TopicEntry t1)\<rparr>)"
      by (rule unread_inv_entry[OF inv]) (use disp known same TopicEntry in \<open>simp add: topic_state_def unreadStateFor_def\<close>)
    then show ?thesis using True TopicEntry by (simp add: topicUnreadCount_def Let_def t1_def now_def)
  next
    case False
    have e2: "entry_ok (TopicEntry t2)" using e(2) n1 same by (simp add: t2_def now_def)
    have was: "unreadStateFor (case_option 0 id (tu_told t)) (tu_told t \<noteq> None) t2 = chatListUnreadState (ul_entry u k)"
      using e(3) unknown_displayed[of t] same
      by (cases "tu_unreadCount t") (simp_all add: TopicEntry topic_state_def unreadStateFor_def t2_def)
    let ?u = "u\<lparr>ul_entry := (ul_entry u)(k := TopicEntry t2)\<rparr>"
    have call: "topicUnreadCount f k c u = (if in_list f k u then notifyUnreadStateChange f k (chatListUnreadState (ul_entry u k)) ?u else Some ?u)"
      using False TopicEntry was by (simp add: topicUnreadCount_def Let_def t1_def now_def t2_def)
    show ?thesis
    proof (cases "k \<in> ks")
      case True
      have "\<exists>u1. notifyUnreadStateChange f k (chatListUnreadState (ul_entry u k)) ?u = Some u1 \<and> unread_inv f ks u1
          \<and> ul_entry u1 = (ul_entry u)(k := TopicEntry t2)"
        by (rule change_notify_ok[OF inv e2 True])
          (use okt TopicEntry in \<open>auto simp: topic_state_def unreadStateFor_def Let_def t1_def t2_def\<close>)
      then show ?thesis using call unread_inv_chats(1)[OF inv, of k] True by auto
    next
      case False
      then show ?thesis using call unread_inv_chats(1)[OF inv, of k] unread_inv_entry[OF inv e2, of k] by auto
    qed
  qed
qed (use inv in \<open>simp_all add: topicUnreadCount_def\<close>)

lemma unread_own_list_ok:
  assumes inv: "unread_inv f ks u" and ok: "\<And>m. own_list (ul_entry u k) = Some m \<Longrightarrow> main_call_ok c m"
    and fine: "\<And>m m1. own_list (ul_entry u k) = Some m \<Longrightarrow> main_step c m = Some m1 \<Longrightarrow> muted_within (unreadState m1)"
  shows "\<exists>u1. own_list_call f k c u = Some u1 \<and> unread_inv f ks u1"
proof (cases "own_list (ul_entry u k)")
  case (Some m)
  let ?e = "ul_entry u k"
  obtain m1 where m1: "main_step c m = Some m1" "muted_within (unreadState m1)" using fine[OF Some] main_step_some[OF ok[OF Some]] by blast
  have e: "entry_ok ?e" by (rule unread_inv_entry_ok[OF inv])
  have own: "own_list_ok m" using e Some by (cases ?e) auto
  have own1: "own_list_ok m1" using own m1 main_step_known[OF m1(1)] by (simp add: own_list_ok_def)
  have e1: "entry_ok (put_list m1 ?e)" using e own1 by (cases ?e) auto
  have st: "chatListUnreadState ?e = unreadState m" "chatListUnreadState (put_list m1 ?e) = unreadState m1"
    using Some by (cases ?e; simp)+
  let ?u = "u\<lparr>ul_entry := (ul_entry u)(k := put_list m1 ?e)\<rparr>"
  consider (fired) "ml_fired m1 = ml_fired m @ [unreadState m]" "k \<in> ks"
    | (out) "ml_fired m1 = ml_fired m @ [unreadState m]" "k \<notin> ks"
    | (quiet) "ml_fired m1 = ml_fired m" "unreadState m1 = unreadState m"
    using main_announced[OF m1(1) ok[OF Some]] by blast
  then show ?thesis
  proof cases
    case fired
    have "\<exists>u1. notifyUnreadStateChange f k (unreadState m) ?u = Some u1 \<and> unread_inv f ks u1 \<and> ul_entry u1 = (ul_entry u)(k := put_list m1 ?e)"
      by (rule change_notify_ok[OF inv e1 fired(2)]) (use own1 in \<open>simp_all add: st own_list_ok_def unreadState_known\<close>)
    then show ?thesis using Some m1(1) fired unread_inv_chats(1)[OF inv, of k] by (auto simp: own_list_call_def Let_def in_list_def)
  next
    case out
    then show ?thesis using Some m1(1) unread_inv_chats(1)[OF inv, of k] unread_inv_entry[OF inv e1, of k]
      by (auto simp: own_list_call_def Let_def in_list_def)
  next
    case quiet
    then show ?thesis using Some m1(1) unread_inv_entry[OF inv e1, of k] st by (auto simp: own_list_call_def Let_def)
  qed
qed (use inv in \<open>simp add: own_list_call_def\<close>)

text \<open>
  What calls are expected: the lists that forums and folders have are made right and get possible numbers; where a
  list uses the totals of the server, it is not told of marks of chats with an unknown count; where a list keeps
  such totals, a count that was known stays known; a topic is called as above; and the list is told its size. \<open>u\<close> is
  the state at the call.
\<close>

fun unread_call_ok :: "('k, 'c::linorder) unread_call \<Rightarrow> ('k, 'n, 'c) unread_list \<Rightarrow> bool" where
  "unread_call_ok (UnreadAdd k) u \<longleftrightarrow> True"
| "unread_call_ok (UnreadRemove k) u \<longleftrightarrow> True"
| "unread_call_ok (UnreadChat c) u \<longleftrightarrow> (case c of ChatAdd k \<Rightarrow> False | ChatRemove k \<Rightarrow> False | _ \<Rightarrow> chat_call_ok c)"
| "unread_call_ok (UnreadCount k n) u \<longleftrightarrow> 0 \<le> n"
| "unread_call_ok (UnreadMark k client b) u \<longleftrightarrow> True"
| "unread_call_ok (UnreadMuted k b) u \<longleftrightarrow> True"
| "unread_call_ok (UnreadThings k c) u \<longleftrightarrow> True"
| "unread_call_ok (UnreadForum k forum) u \<longleftrightarrow>
     (case forum of
        Some m \<Rightarrow> own_list_ok m
      | None \<Rightarrow> (case ul_entry u k of
                    HistoryEntry h (Some old) \<Rightarrow> hu_unreadCount h \<noteq> None \<or> \<not> us_known (ml_cloudUnread (ul_main u))
                  | _ \<Rightarrow> True))"
| "unread_call_ok (UnreadOwnList k c) u \<longleftrightarrow>
     (case own_list (ul_entry u k) of
        None \<Rightarrow> True
      | Some m \<Rightarrow> main_call_ok c m
          \<and> (case main_step c m of None \<Rightarrow> True | Some m1 \<Rightarrow> muted_within (unreadState m1)))"
| "unread_call_ok (UnreadTopic k c) u \<longleftrightarrow>
     (case ul_entry u k of TopicEntry t \<Rightarrow> topic_call_ok (us_known (ml_cloudUnread (ul_main u))) c t | _ \<Rightarrow> True)"
| "unread_call_ok (UnreadMain c) u \<longleftrightarrow>
     (let sz = int (list_size (il_list (ct_list (ul_chats u)))) in
      case c of
        MainLoaded n b \<Rightarrow> n = sz
      | MainAllAreMuted b \<Rightarrow> True
      | MainCloudListSize n cloud \<Rightarrow> n = sz
      | MainCloudUnread a b c d \<Rightarrow> True
      | MainStateChanged was now \<Rightarrow> False
      | MainEntryChanged n s b \<Rightarrow> False)"

fun unread_calls_ok :: "int \<Rightarrow> ('k, 'c::linorder) unread_call list \<Rightarrow> ('k, 'n, 'c) unread_list \<Rightarrow> bool" where
  "unread_calls_ok f [] u \<longleftrightarrow> True"
| "unread_calls_ok f (c # cs) u \<longleftrightarrow> unread_call_ok c u
     \<and> (case unread_step f c u of None \<Rightarrow> True | Some u1 \<Rightarrow> unread_calls_ok f cs u1)"

fun unread_keys :: "('k, 'c) unread_call \<Rightarrow> 'k set \<Rightarrow> 'k set" where
  "unread_keys (UnreadAdd k) ks = insert k ks"
| "unread_keys (UnreadRemove k) ks = ks - {k}"
| "unread_keys c ks = ks"

lemma unread_main_ok:
  assumes inv: "unread_inv f ks u" and ok: "unread_call_ok (UnreadMain c) u"
  shows "\<exists>u1. unread_step f (UnreadMain c) u = Some u1 \<and> unread_inv f ks u1"
proof -
  have sz: "int (list_size (il_list (ct_list (ul_chats u)))) = int (card ks)" using unread_inv_chats(3)[OF inv] by simp
  have keep: "unread_inv f ks (u\<lparr>ul_main := m\<rparr>)" if "ml_unread m = ml_unread (ul_main u)" "size_ok (int (card ks)) m" for m
    using inv that by (simp add: unread_inv_def total_ok_def)
  have size: "size_ok (int (card ks)) (ul_main u)" using inv by (simp add: unread_inv_def)
  show ?thesis
  proof (cases c)
    case (MainLoaded n b)
    then show ?thesis using ok sz keep[of "setLoaded n b (ul_main u)"] size by (auto simp: setLoaded_def)
  next
    case (MainAllAreMuted b)
    then show ?thesis using ok keep[of "setAllAreMuted b (ul_main u)"] size by (auto simp: setAllAreMuted_def size_ok_def)
  next
    case (MainCloudListSize n cloud)
    then show ?thesis using ok sz keep[of "setCloudListSize n cloud (ul_main u)"] size by (auto simp: setCloudListSize_def)
  next
    case (MainCloudUnread a b c d)
    then show ?thesis using ok keep[of "updateCloudUnread a b c d (ul_main u)"] size
      by (auto simp: updateCloudUnread_def Let_def size_ok_def)
  qed (use ok in simp_all)
qed

lemma unread_step_ok:
  assumes inv: "unread_inv f ks u" and ok: "unread_call_ok c u"
  shows "\<exists>u1. unread_step f c u = Some u1 \<and> unread_inv f (unread_keys c ks) u1"
proof (cases c)
  case (UnreadChat cc)
  then have "chat_call_ok cc" "chat_keys cc ks = ks" using ok by (auto split: chat_call.splits)
  then obtain s1 where "chat_step f cc (ul_chats u) = Some s1" "chats_inv f ks s1"
    using chats_inv_step[of f ks "ul_chats u" cc] inv by (auto simp: unread_inv_def)
  then show ?thesis using chats_unread_cong[OF inv] UnreadChat by simp
next
  case (UnreadForum k forum)
  have "\<exists>u1. forumChanged f k forum u = Some u1 \<and> unread_inv f ks u1"
    by (rule unread_forum_ok[OF inv]) (use ok UnreadForum in \<open>auto split: option.splits\<close>)
  then show ?thesis using UnreadForum by simp
next
  case (UnreadOwnList k cc)
  have "\<exists>u1. own_list_call f k cc u = Some u1 \<and> unread_inv f ks u1"
    by (rule unread_own_list_ok[OF inv]) (use ok UnreadOwnList in \<open>auto split: option.splits\<close>)
  then show ?thesis using UnreadOwnList by simp
next
  case (UnreadTopic k tc)
  have "\<exists>u1. topicUnreadCount f k tc u = Some u1 \<and> unread_inv f ks u1"
    by (rule unread_topic_ok[OF inv]) (use ok UnreadTopic in \<open>auto simp del: topic_call_ok.simps\<close>)
  then show ?thesis using UnreadTopic by simp
next
  case (UnreadMain cc)
  then show ?thesis using unread_main_ok[OF inv, of cc] ok by (simp only: unread_keys.simps)
qed (use ok in \<open>simp_all add: unread_add_ok[OF inv] unread_remove_ok[OF inv] unread_count_ok[OF inv] unread_mark_ok[OF inv]
    unread_muted_ok[OF inv] unread_things_ok[OF inv] del: history_setUnreadCount.simps history_setUnreadMark.simps entry_setMuted.simps\<close>)

lemma unread_run_ok:
  assumes "unread_inv f ks u" and "unread_calls_ok f cs u"
  shows "\<exists>u1. unread_run f cs u = Some u1 \<and> unread_inv f (fold unread_keys cs ks) u1"
  using assms
proof (induction cs arbitrary: ks u)
  case (Cons c cs)
  obtain u1 where u1: "unread_step f c u = Some u1" "unread_inv f (unread_keys c ks) u1"
    using unread_step_ok[of f ks u c] Cons.prems by auto
  then show ?case using Cons.IH[OF u1(2)] Cons.prems(2) by auto
qed simp

definition new_unread_list :: "int \<Rightarrow> ('k, 'n) entries \<Rightarrow> ('k \<Rightarrow> 'c::linorder list list) \<Rightarrow> ('k \<Rightarrow> unread_entry) \<Rightarrow> ('k, 'n, 'c) unread_list" where
  "new_unread_list f en names e = \<lparr>ul_chats = new_chats f en names, ul_main = new_main_list, ul_entry = e\<rparr>"

lemma unread_inv_new:
  assumes "entries_ok en" and "\<And>k. [] \<notin> set (names k)" and "\<And>k. entry_ok (e k)"
  shows "unread_inv f {} (new_unread_list f en names e)"
  using chats_inv_new[where names = names, OF assms(1,2), of f] assms(3)
  by (simp add: unread_inv_def new_unread_list_def total_ok_def new_main_list_def size_ok_def us_field_simps)


subsection \<open>The properties\<close>

text \<open>A change of one chat that no total follows leaves a wrong total.\<close>

lemma total_left:
  assumes "finite ks" and "k \<in> ks" and "n = (\<Sum>j \<in> ks. (g :: UnreadState \<Rightarrow> int) (chatListUnreadState (ent j)))"
    and "g (chatListUnreadState e) \<noteq> g (chatListUnreadState (ent k))"
  shows "n \<noteq> (\<Sum>j \<in> ks. g (chatListUnreadState ((ent(k := e)) j)))"
proof -
  have "(\<Sum>j \<in> ks. g (chatListUnreadState ((ent(k := e)) j)))
      = g (chatListUnreadState e) + (\<Sum>j \<in> ks - {k}. g (chatListUnreadState (ent j)))"
    by (simp add: sum.remove[OF assms(1,2)])
  moreover have "n = g (chatListUnreadState (ent k)) + (\<Sum>j \<in> ks - {k}. g (chatListUnreadState (ent j)))"
    using assms(3) sum.remove[OF assms(1,2)] by metis
  ultimately show ?thesis using assms(4) by simp
qed

lemma add_entry_same: "addToUnreadList f k u = Some u1 \<Longrightarrow> ul_entry u1 = ul_entry u"
  by (auto simp: addToUnreadList_def Let_def bind_eq_Some_conv split: if_splits)

text \<open>
  C1: the totals of a list are never recounted, but at every time they are the sums over its chats. Chats enter and
  leave, their counts, marks and muting, their unread mentions and reactions, the read positions and counts of
  topics, the lists of forums and folders and the settings of the list change; if the calls are as expected, none of
  them fails, each number of \<open>_unreadState\<close> is the sum of the numbers the chats have now, and the full size is
  that of the list or, until it is loaded, at least what the server said. Expected (\<open>unread_calls_ok\<close>) is: lists of
  forums and folders are made right and get possible numbers; a folder that uses the totals of the server is told
  of no mark of a chat with an unknown count; a known count stays known in a list that keeps such totals; the read
  position of a topic does not pass the first message with the count left as it was; the list is told its size. What
  goes wrong without the second and the fourth of these is shown by \<open>folder_mark_not_announced\<close> and
  \<open>topic_read_not_announced\<close>.
\<close>

theorem unread_totals_exact:
  fixes names :: "'k \<Rightarrow> 'c::linorder list list" and en :: "('k, 'n) entries" and e :: "'k \<Rightarrow> unread_entry"
  assumes "entries_ok en" and "\<And>k. [] \<notin> set (names k)" and "\<And>k. entry_ok (e k)"
    and "unread_calls_ok f cs (new_unread_list f en names e)"
  shows "\<exists>u. unread_run f cs (new_unread_list f en names e) = Some u
      \<and> (let ks = fold unread_keys cs {}; m = ul_main u
         in (\<forall>number \<in> set us_fields. number (ml_unread m) = (\<Sum>k \<in> ks. number (chatListUnreadState (ul_entry u k))))
            \<and> ml_fullListSize m = max (int (card ks)) (if ml_loaded m then 0 else ml_cloudListSize m))"
proof -
  obtain u where u: "unread_run f cs (new_unread_list f en names e) = Some u" "unread_inv f (fold unread_keys cs {}) u"
    using unread_run_ok[OF unread_inv_new[where names = names, OF assms(1,2,3)] assms(4)] by blast
  show ?thesis using u by (intro exI[of _ u]) (simp add: Let_def unread_inv_def total_ok_def size_ok_def)
qed

definition some_entries :: "(nat, nat) entries" where
  "some_entries = \<lparr>en_sortKey = \<lambda>_ k. of_nat k, en_nameKey = id, en_kind = \<lambda>_. OtherRow, en_rowHeight = 3, en_forumHeight = 4,
     en_topicHeight = 2, en_interpolate = \<lambda>a b _. a\<rparr>"

definition some_history :: history_unread where
  "some_history = \<lparr>hu_unreadCount = Some 2, hu_unreadMark = False, hu_muted = False, hu_folder = False, hu_things = new_things\<rparr>"

theorem unread_totals_exact_witness:
  "\<exists>u. unread_run 0 [UnreadAdd 1, UnreadAdd 2, UnreadCount 1 5, UnreadMuted 2 True, UnreadThings 1 (ThSetCount Mentions 3)]
       (new_unread_list 0 some_entries (\<lambda>_. [[1 :: nat]]) (\<lambda>_. HistoryEntry some_history None)) = Some u
     \<and> us_messages (ml_unread (ul_main u)) = (\<Sum>k \<in> {1, 2}. us_messages (chatListUnreadState (ul_entry u k)))"
proof -
  let ?cs = "[UnreadAdd 1, UnreadAdd 2, UnreadCount 1 5, UnreadMuted 2 True, UnreadThings (1::nat) (ThSetCount Mentions 3)]
    :: (nat, nat) unread_call list"
  have en: "entries_ok some_entries" and e: "entry_ok (HistoryEntry some_history None)"
    by (simp_all add: entries_ok_def some_entries_def some_history_def things_fine_def new_things_def)
  have "unread_call_ok c u" if "c \<in> set ?cs" for c and u :: "(nat, nat, nat) unread_list" using that by auto
  then have "unread_calls_ok 0 cs u" if "set cs \<subseteq> set ?cs" for cs and u :: "(nat, nat, nat) unread_list"
    using that by (induction cs arbitrary: u) (auto split: option.split)
  then have "unread_calls_ok 0 ?cs (new_unread_list 0 some_entries (\<lambda>_. [[1 :: nat]]) (\<lambda>_. HistoryEntry some_history None))"
    by blast
  from unread_totals_exact[where names = "\<lambda>_. [[1 :: nat]]" and e = "\<lambda>_. HistoryEntry some_history None", OF en _ e this]
  show ?thesis by (auto simp: Let_def us_fields_def insert_commute)
qed

text \<open>
  C40: whenever a chat with an unknown count gets or loses a mark in a folder whose totals come from the server, the
  state of the folder changes by the mark and the list that the folder is in is told nothing: if its total of marks
  was right, it is wrong from then on.
\<close>

theorem folder_mark_not_announced:
  assumes "ul_entry u k = FolderEntry m" and "useClouded m" and "\<not> us_known was" and "us_marks now \<noteq> us_marks was"
    and "finite ks" and "k \<in> ks"
    and "us_marks (ml_unread (ul_main u)) = (\<Sum>j \<in> ks. us_marks (chatListUnreadState (ul_entry u j)))"
  shows "\<exists>u1. own_list_call f k (MainStateChanged was now) u = Some u1 \<and> ul_main u1 = ul_main u
      \<and> us_marks (chatListUnreadState (ul_entry u1 k))
          = us_marks (chatListUnreadState (ul_entry u k)) + (us_marks now - us_marks was)
      \<and> us_marks (ml_unread (ul_main u1)) \<noteq> (\<Sum>j \<in> ks. us_marks (chatListUnreadState (ul_entry u1 j)))"
proof -
  define m1 where "m1 = m\<lparr>ml_unread := us_add (ml_unread m) (us_sub now was)\<rparr>"
  define e1 where "e1 = FolderEntry m1"
  have "unreadStateChanged was now m = Some m1"
    using assms(2,3) by (simp add: unreadStateChanged_def useClouded_def Let_def with_notifier_def m1_def)
  then have call: "own_list_call f k (MainStateChanged was now) u = Some (u\<lparr>ul_entry := (ul_entry u)(k := e1)\<rparr>)"
    using assms(1) by (simp add: own_list_call_def e1_def m1_def)
  have marks: "us_marks (chatListUnreadState e1) = us_marks (chatListUnreadState (ul_entry u k)) + (us_marks now - us_marks was)"
    using assms(1,2) by (simp add: e1_def m1_def unreadState_def useClouded_def us_add_def us_sub_def Let_def)
  have "us_marks (ml_unread (ul_main u)) \<noteq> (\<Sum>j \<in> ks. us_marks (chatListUnreadState (((ul_entry u)(k := e1)) j)))"
    by (rule total_left[OF assms(5,6,7)]) (use marks assms(4) in simp)
  then show ?thesis using call marks by (intro exI[of _ "u\<lparr>ul_entry := (ul_entry u)(k := e1)\<rparr>"]) simp
qed

theorem folder_mark_not_announced_witness:
  "let archive = updateCloudUnread 0 0 0 0 (setAllAreMuted True new_main_list); chat = some_history\<lparr>hu_unreadCount := None\<rparr>;
       was = computeUnreadState chat; now = computeUnreadState (chat\<lparr>hu_unreadMark := True\<rparr>)
   in \<exists>u u1. unread_run 0 [UnreadAdd 1] (new_unread_list 0 some_entries (\<lambda>_. [[1 :: nat]]) (\<lambda>_. FolderEntry archive)) = Some u
     \<and> own_list_call 0 1 (MainStateChanged was now) u = Some u1
     \<and> us_marks (ml_unread (ul_main u1)) \<noteq> us_marks (chatListUnreadState (ul_entry u1 (1 :: nat)))"
proof -
  define archive where "archive = updateCloudUnread 0 0 0 0 (setAllAreMuted True new_main_list)"
  define chat where "chat = some_history\<lparr>hu_unreadCount := None\<rparr>"
  define was where "was = computeUnreadState chat"
  define now where "now = computeUnreadState (chat\<lparr>hu_unreadMark := True\<rparr>)"
  have en: "entries_ok some_entries" by (simp add: entries_ok_def some_entries_def)
  have "own_list_ok archive" and cl: "useClouded archive" unfolding archive_def by code_simp+
  then have "unread_inv 0 {} (new_unread_list 0 some_entries (\<lambda>_. [[1 :: nat]]) (\<lambda>_ :: nat. FolderEntry archive))"
    by (intro unread_inv_new[where names = "\<lambda>_. [[1 :: nat]]", OF en]) auto
  then obtain u where u: "addToUnreadList 0 1 (new_unread_list 0 some_entries (\<lambda>_. [[1 :: nat]]) (\<lambda>_ :: nat. FolderEntry archive)) = Some u"
      "unread_inv 0 {1} u"
    using unread_add_ok[where k = "1 :: nat"] by blast
  have ent: "ul_entry u 1 = FolderEntry archive" using add_entry_same[OF u(1)] by (simp add: new_unread_list_def)
  have tot: "us_marks (ml_unread (ul_main u)) = (\<Sum>j \<in> {1}. us_marks (chatListUnreadState (ul_entry u j)))"
    using u(2) by (simp add: unread_inv_def total_ok_def us_fields_def)
  have wn: "\<not> us_known was" "us_marks now \<noteq> us_marks was"
    by (simp_all add: was_def now_def chat_def some_history_def computeUnreadState_def Let_def)
  obtain u1 where "own_list_call 0 1 (MainStateChanged was now) u = Some u1"
      "us_marks (ml_unread (ul_main u1)) \<noteq> (\<Sum>j \<in> {1}. us_marks (chatListUnreadState (ul_entry u1 j)))"
    using folder_mark_not_announced[OF ent cl wn _ _ tot, of 0] by auto
  then show ?thesis using u(1) unfolding Let_def archive_def was_def now_def chat_def by auto
qed

text \<open>
  When the read position of a topic passes the first message while the server gives the count that it had, the topic
  shows the count where it showed 0, but \<open>_unreadCount\<close> does not change: nothing is announced and the total of the
  list is wrong.
\<close>

theorem topic_read_not_announced:
  assumes "ul_entry u k = TopicEntry t" and "tu_inboxReadTillId t \<le> 1" and "1 < readTill"
    and "tu_unreadCount t = Some n" and "n \<noteq> 0" and "\<And>newest. front = Some newest \<Longrightarrow> readTill < newest"
    and "finite ks" and "k \<in> ks"
    and "us_messages (ml_unread (ul_main u)) = (\<Sum>j \<in> ks. us_messages (chatListUnreadState (ul_entry u j)))"
  shows "\<exists>u1. topicUnreadCount f k (TopicReadTill readTill (Some n) front) u = Some u1 \<and> ul_main u1 = ul_main u
      \<and> us_messages (chatListUnreadState (ul_entry u k)) = 0 \<and> us_messages (chatListUnreadState (ul_entry u1 k)) = n
      \<and> us_messages (ml_unread (ul_main u1)) \<noteq> (\<Sum>j \<in> ks. us_messages (chatListUnreadState (ul_entry u1 j)))"
proof -
  define e1 where "e1 = TopicEntry (t\<lparr>tu_inboxReadTillId := readTill\<rparr>)"
  have ch: "topic_change (TopicReadTill readTill (Some n) front) t = t\<lparr>tu_inboxReadTillId := readTill\<rparr>"
    using assms(2,3,4,6) by (force simp: setInboxReadTill_def read_to_end_def max_def Let_def split: option.split)
  have call: "topicUnreadCount f k (TopicReadTill readTill (Some n) front) u = Some (u\<lparr>ul_entry := (ul_entry u)(k := e1)\<rparr>)"
    using assms(1) by (simp add: topicUnreadCount_def Let_def ch e1_def del: topic_change.simps)
  have st: "us_messages (chatListUnreadState (ul_entry u k)) = 0" "us_messages (chatListUnreadState e1) = n"
    using assms(1-4) by (simp_all add: e1_def topic_state_def unreadStateFor_def displayedUnreadCount_def empty_unread_def Let_def)
  have "us_messages (ml_unread (ul_main u)) \<noteq> (\<Sum>j \<in> ks. us_messages (chatListUnreadState (((ul_entry u)(k := e1)) j)))"
    by (rule total_left[OF assms(7,8,9)]) (use st assms(5) in simp)
  then show ?thesis using call st by (intro exI[of _ "u\<lparr>ul_entry := (ul_entry u)(k := e1)\<rparr>"]) simp
qed

theorem topic_read_not_announced_witness:
  "let t = \<lparr>tu_unreadCount = Some 5, tu_inboxReadTillId = 1, tu_told = Some 0, tu_muted = False, tu_lastIsNewer = True,
         tu_things = new_things\<rparr>
   in \<exists>u u1. unread_run 0 [UnreadAdd 1] (new_unread_list 0 some_entries (\<lambda>_. [[1 :: nat]]) (\<lambda>_. TopicEntry t)) = Some u
     \<and> topicUnreadCount 0 1 (TopicReadTill 100 (Some 5) None) u = Some u1
     \<and> us_messages (ml_unread (ul_main u1)) \<noteq> us_messages (chatListUnreadState (ul_entry u1 (1 :: nat)))"
proof -
  define t where "t = \<lparr>tu_unreadCount = Some 5, tu_inboxReadTillId = 1, tu_told = Some 0, tu_muted = False, tu_lastIsNewer = True,
    tu_things = new_things\<rparr>"
  have en: "entries_ok some_entries" by (simp add: entries_ok_def some_entries_def)
  have e: "entry_ok (TopicEntry t)" by (simp add: t_def displayedUnreadCount_def things_fine_def new_things_def)
  have "unread_inv 0 {} (new_unread_list 0 some_entries (\<lambda>_. [[1 :: nat]]) (\<lambda>_ :: nat. TopicEntry t))"
    by (rule unread_inv_new[where names = "\<lambda>_. [[1 :: nat]]", OF en _ e]) simp
  then obtain u where u: "addToUnreadList 0 1 (new_unread_list 0 some_entries (\<lambda>_. [[1 :: nat]]) (\<lambda>_ :: nat. TopicEntry t)) = Some u"
      "unread_inv 0 {1} u"
    using unread_add_ok[where k = "1 :: nat"] by blast
  have ent: "ul_entry u 1 = TopicEntry t" using add_entry_same[OF u(1)] by (simp add: new_unread_list_def)
  have tot: "us_messages (ml_unread (ul_main u)) = (\<Sum>j \<in> {1}. us_messages (chatListUnreadState (ul_entry u j)))"
    using u(2) by (simp add: unread_inv_def total_ok_def us_fields_def)
  have tt: "tu_inboxReadTillId t \<le> 1" "(1 :: int) < 100" "tu_unreadCount t = Some 5" "(5 :: int) \<noteq> 0" by (simp_all add: t_def)
  obtain u1 where "topicUnreadCount 0 1 (TopicReadTill 100 (Some 5) None) u = Some u1"
      "us_messages (ml_unread (ul_main u1)) \<noteq> (\<Sum>j \<in> {1}. us_messages (chatListUnreadState (ul_entry u1 j)))"
    using topic_read_not_announced[OF ent tt, of None "{1}" 0] tot by auto
  then show ?thesis using u(1) unfolding Let_def t_def by auto
qed

end
