(* ===== verification/UpdatesState.thy ===== *)
theory UpdatesState
  imports PtsWaiter
begin

text \<open>
  The state of the updates of an account, from \<open>api/api_updates.{h,cpp}\<close>: packets of updates with a seq,
  applied in its order, updates with a pts, given to the \<open>PtsWaiter\<close> of the account or of their channel
  (\<open>data/data_channel.h\<close>), and the requests for what was missed. What the waiters ask for (timers, applying an
  update) is done as it is asked, in order. Recorded are the updates fed, those applied and the requests. The
  updates themselves are values of a type \<open>'a\<close>; whether the peers they mention are loaded is given with them. Time
  is the argument \<open>now\<close>; a timer is whether it is active, or when it fires.
\<close>

subsection \<open>Updates and packets\<close>

datatype 'a update =
    CommonUpdate int int bool 'a
  | NewChannelMessage nat int int bool 'a
  | ChannelUpdate nat int int 'a
  | ChannelTooLong nat "int option"
  | ChannelContentsRead nat 'a
  | MessageIdUpdate 'a
  | GroupCallUpdate 'a
  | PlainUpdate 'a

text \<open>\<open>updateShortMessage\<close> and its like are \<open>ShortPacket\<close>: pts, count, date, whether the data is loaded.\<close>

datatype 'a packet =
    PacketUpdates int int "'a update list"
  | PacketCombined int int int "'a update list"
  | PacketShort int "'a update"
  | ShortPacket int int int bool 'a
  | PacketTooLong

datatype skip_policy = SkipNone | SkipMessageIds | SkipExceptGroupCallParticipants

datatype diff_request = FromUnknown | PtsGapOrShortPoll | AfterFail

datatype upd_request =
    GetState
  | GetDifference int int int
  | GetChannelDifference nat int bool
  | Ping
  | RequestDialogs

datatype 'a applied = AppliedUpdate "'a update option" | AppliedPacket "'a packet option" | AppliedMessage 'a

type_synonym 'a waiter = "('a update, 'a packet) pts_waiter"

subsection \<open>State\<close>

record 'a updates_state =
  ud_date :: int
  ud_qts :: int
  ud_seq :: int
  ud_waiter :: "'a waiter"
  ud_channels :: "nat \<rightharpoonup> 'a waiter"
  ud_whenByPts :: "(nat, int) flat_map"
  ud_whenAfterFail :: "(nat, int) flat_map"
  ud_timeByPts :: int
  ud_timeAfterFail :: int
  ud_byPtsTimer :: "int option"
  ud_bySeq :: "(int, 'a packet) flat_map"
  ud_bySeqTimer :: bool
  ud_byMinChannelTimer :: bool
  ud_failTimeout :: int
  ud_channelFailTimeout :: "(nat, int) flat_map"
  ud_failTimer :: "int option"
  ud_handlingChannelDifference :: bool
  ud_activeChats :: "nat set"
  ud_lastUpdateTime :: int
  ud_noUpdatesTimer :: bool
  ud_requests :: "upd_request list"
  ud_fed :: "'a update list"
  ud_applied :: "'a applied list"

definition kWaitForChannelGetDifference :: int where
  "kWaitForChannelGetDifference = 1000"

definition kNoUpdatesTimeout :: int where
  "kNoUpdatesTimeout = 60 * 1000"

definition kNoUpdatesAfterSleepTimeout :: int where
  "kNoUpdatesAfterSleepTimeout = 60 * 1000"

text \<open>The constructor; the state is requested.\<close>

definition new_updates_state :: "(nat \<rightharpoonup> 'a waiter) \<Rightarrow> 'a updates_state" where
  "new_updates_state channels =
     \<lparr>ud_date = 0, ud_qts = -1, ud_seq = 0, ud_waiter = setRequesting True new_pts_waiter, ud_channels = channels,
      ud_whenByPts = [], ud_whenAfterFail = [], ud_timeByPts = 0, ud_timeAfterFail = 0, ud_byPtsTimer = None,
      ud_bySeq = [], ud_bySeqTimer = False, ud_byMinChannelTimer = False, ud_failTimeout = 1, ud_channelFailTimeout = [],
      ud_failTimer = None, ud_handlingChannelDifference = False, ud_activeChats = {}, ud_lastUpdateTime = 0,
      ud_noUpdatesTimer = False, ud_requests = [GetState], ud_fed = [], ud_applied = []\<rparr>"

definition requestingDifference :: "'a updates_state \<Rightarrow> bool" where
  "requestingDifference s \<longleftrightarrow> pw_requesting (ud_waiter s)"

definition upd_request :: "upd_request \<Rightarrow> 'a updates_state \<Rightarrow> 'a updates_state" where
  "upd_request r s = s\<lparr>ud_requests := ud_requests s @ [r]\<rparr>"

definition upd_apply :: "'a applied \<Rightarrow> 'a updates_state \<Rightarrow> 'a updates_state" where
  "upd_apply a s = s\<lparr>ud_applied := ud_applied s @ [a]\<rparr>"

definition sendPing :: "'a updates_state \<Rightarrow> 'a updates_state" where
  "sendPing s = upd_request Ping s"

definition checkLastUpdate :: "int \<Rightarrow> bool \<Rightarrow> 'a updates_state \<Rightarrow> 'a updates_state" where
  "checkLastUpdate now afterSleep s =
     (let skip = (if afterSleep then kNoUpdatesAfterSleepTimeout else kNoUpdatesTimeout)
      in if ud_lastUpdateTime s \<noteq> 0 \<and> now > ud_lastUpdateTime s + skip
         then sendPing (s\<lparr>ud_lastUpdateTime := now\<rparr>) else s)"

subsection \<open>Requests for differences\<close>

definition getDifference :: "'a updates_state \<Rightarrow> 'a updates_state" where
  "getDifference s =
     (let s1 = s\<lparr>ud_timeByPts := 0\<rparr>
      in if requestingDifference s1 then s1
         else upd_request (GetDifference (pw_good (ud_waiter s1)) (ud_date s1) (ud_qts s1))
           (s1\<lparr>ud_bySeq := [], ud_bySeqTimer := False, ud_noUpdatesTimer := False, ud_timeAfterFail := 0,
             ud_waiter := setRequesting True (ud_waiter s1)\<rparr>))"

definition getChannelDifference :: "nat \<Rightarrow> diff_request \<Rightarrow> 'a updates_state \<Rightarrow> 'a updates_state" where
  "getChannelDifference ch source s =
     (let s1 = (if source \<noteq> PtsGapOrShortPoll then s\<lparr>ud_whenByPts := fm_erase ch (ud_whenByPts s)\<rparr> else s)
      in case ud_channels s1 ch of
           None \<Rightarrow> s1
         | Some w \<Rightarrow>
             if \<not> pts_inited w \<or> pw_requesting w then s1
             else let s2 = (if source \<noteq> AfterFail then s1\<lparr>ud_whenAfterFail := fm_erase ch (ud_whenAfterFail s1)\<rparr> else s1);
                      w1 = setRequesting True w;
                      force = (source = PtsGapOrShortPoll \<or> pw_waitingForSkipped w1)
               in upd_request (GetChannelDifference ch (pw_good w1) force) (s2\<lparr>ud_channels := (ud_channels s2)(ch \<mapsto> w1)\<rparr>))"

text \<open>
  The loops over the channels to be asked for: those whose time has come are asked for and dropped, the
  shortest time of the others is returned.
\<close>

fun channels_due :: "int \<Rightarrow> diff_request \<Rightarrow> (nat, int) flat_map \<Rightarrow> int \<Rightarrow> 'a updates_state
    \<Rightarrow> int \<times> (nat, int) flat_map \<times> 'a updates_state" where
  "channels_due now source [] wait s = (wait, [], s)"
| "channels_due now source ((ch, when) # m) wait s =
     (if when > now then
        (case channels_due now source m (if wait \<noteq> 0 then min wait (when - now) else when - now) s of
           (w, m1, s1) \<Rightarrow> (w, (ch, when) # m1, s1))
      else channels_due now source m wait (getChannelDifference ch source s))"

definition getDifferenceByPts :: "int \<Rightarrow> 'a updates_state \<Rightarrow> 'a updates_state" where
  "getDifferenceByPts now s =
     (let (wait, s1) = (if ud_timeByPts s \<noteq> 0 then
              (if ud_timeByPts s > now then (ud_timeByPts s - now, s) else (0, getDifference s))
            else (0, s))
      in case channels_due now PtsGapOrShortPoll (ud_whenByPts s1) wait s1 of
           (wait1, m, s2) \<Rightarrow> s2\<lparr>ud_whenByPts := m, ud_byPtsTimer := (if wait1 \<noteq> 0 then Some (now + wait1) else None)\<rparr>)"

definition getDifferenceAfterFail :: "int \<Rightarrow> 'a updates_state \<Rightarrow> 'a updates_state" where
  "getDifferenceAfterFail now s =
     (let (wait, s1) = (if ud_timeAfterFail s \<noteq> 0 then
              (if ud_timeAfterFail s > now then (ud_timeAfterFail s - now, s)
               else (0, getDifference (s\<lparr>ud_waiter := setRequesting False (ud_waiter s)\<rparr>)))
            else (0, s))
      in case channels_due now AfterFail (ud_whenAfterFail s1) wait s1 of
           (wait1, m, s2) \<Rightarrow> s2\<lparr>ud_whenAfterFail := m, ud_failTimer := (if wait1 \<noteq> 0 then Some (now + wait1) else None)\<rparr>)"

text \<open>\<open>whenGetDiffChanged\<close> of a channel and of the account.\<close>

definition when_changed :: "int \<Rightarrow> nat \<Rightarrow> int \<Rightarrow> (nat, int) flat_map \<Rightarrow> (nat, int) flat_map option" where
  "when_changed now ch ms m =
     (if ms \<le> 0 then (if fm_lookup m ch \<noteq> None then Some (fm_erase ch m) else None)
      else case fm_lookup m ch of
        Some old \<Rightarrow> if old > now + ms then Some (fm_set ch (now + ms) m) else None
      | None \<Rightarrow> Some (fm_emplace ch (now + ms) m))"

definition time_changed :: "int \<Rightarrow> int \<Rightarrow> int \<Rightarrow> int option" where
  "time_changed now ms cur =
     (if ms \<le> 0 then (if cur \<noteq> 0 then Some 0 else None)
      else if cur = 0 \<or> cur > now + ms then Some (now + ms) else None)"

definition ptsWaiterStartTimerFor :: "int \<Rightarrow> channel \<Rightarrow> int \<Rightarrow> 'a updates_state \<Rightarrow> 'a updates_state" where
  "ptsWaiterStartTimerFor now ch ms s =
     (case ch of
        None \<Rightarrow> (case time_changed now ms (ud_timeByPts s) of
            None \<Rightarrow> s | Some t \<Rightarrow> getDifferenceByPts now (s\<lparr>ud_timeByPts := t\<rparr>))
      | Some c \<Rightarrow> (case when_changed now c ms (ud_whenByPts s) of
            None \<Rightarrow> s | Some m \<Rightarrow> getDifferenceByPts now (s\<lparr>ud_whenByPts := m\<rparr>)))"

definition failDifferenceStartTimerFor :: "int \<Rightarrow> channel \<Rightarrow> 'a updates_state \<Rightarrow> 'a updates_state" where
  "failDifferenceStartTimerFor now ch s =
     (case ch of
        None \<Rightarrow>
          let s1 = (case time_changed now (ud_failTimeout s * 1000) (ud_timeAfterFail s) of
              None \<Rightarrow> s | Some t \<Rightarrow> getDifferenceAfterFail now (s\<lparr>ud_timeAfterFail := t\<rparr>))
          in if ud_failTimeout s1 < 64 then s1\<lparr>ud_failTimeout := ud_failTimeout s1 * 2\<rparr> else s1
      | Some c \<Rightarrow>
          let timeout = (case fm_lookup (ud_channelFailTimeout s) c of None \<Rightarrow> 1 | Some t \<Rightarrow> t);
              s0 = s\<lparr>ud_channelFailTimeout := fm_set c timeout (ud_channelFailTimeout s)\<rparr>;
              s1 = (case when_changed now c (timeout * 1000) (ud_whenAfterFail s0) of
                None \<Rightarrow> s0 | Some m \<Rightarrow> getDifferenceAfterFail now (s0\<lparr>ud_whenAfterFail := m\<rparr>))
          in if timeout < 64 then s1\<lparr>ud_channelFailTimeout := fm_set c (timeout * 2) (ud_channelFailTimeout s1)\<rparr> else s1)"

subsection \<open>Feeding updates\<close>

text \<open>An operation of a waiter, then what it asked for.\<close>

fun handle_effect :: "int \<Rightarrow> ('a update, 'a packet) pts_effect \<Rightarrow> 'a updates_state \<Rightarrow> 'a updates_state" where
  "handle_effect now (StartTimer ch ms) s = ptsWaiterStartTimerFor now ch ms s"
| "handle_effect now (ApplyUpdate u) s = upd_apply (AppliedUpdate u) s"
| "handle_effect now (ApplyUpdates us) s = upd_apply (AppliedPacket us) s"

definition new_effects :: "'a waiter \<Rightarrow> 'a waiter \<Rightarrow> ('a update, 'a packet) pts_effect list" where
  "new_effects w w1 = drop (length (pw_effects w)) (pw_effects w1)"

definition with_waiter :: "int \<Rightarrow> ('a waiter \<Rightarrow> bool \<times> 'a waiter) \<Rightarrow> 'a updates_state \<Rightarrow> bool \<times> 'a updates_state" where
  "with_waiter now opn s =
     (case opn (ud_waiter s) of (b, w1) \<Rightarrow> (b, fold (handle_effect now) (new_effects (ud_waiter s) w1) (s\<lparr>ud_waiter := w1\<rparr>)))"

definition with_channel :: "int \<Rightarrow> nat \<Rightarrow> ('a waiter \<Rightarrow> 'a waiter) \<Rightarrow> 'a updates_state \<Rightarrow> 'a updates_state" where
  "with_channel now ch opn s =
     (case ud_channels s ch of
        None \<Rightarrow> s
      | Some w \<Rightarrow> let w1 = opn w in fold (handle_effect now) (new_effects w w1) (s\<lparr>ud_channels := (ud_channels s)(ch \<mapsto> w1)\<rparr>))"

definition feed_channel :: "int \<Rightarrow> nat \<Rightarrow> int \<Rightarrow> int \<Rightarrow> 'a update \<Rightarrow> 'a updates_state \<Rightarrow> 'a updates_state" where
  "feed_channel now ch pts cnt u s =
     (case ud_channels s ch of
        None \<Rightarrow> upd_apply (AppliedUpdate (Some u)) s
      | Some w \<Rightarrow>
          if \<not> ud_handlingChannelDifference s then
            (if pw_requesting w then s else with_channel now ch (\<lambda>w. snd (updateAndApplyOne (Some ch) pts cnt u w)) s)
          else upd_apply (AppliedUpdate (Some u)) s)"

fun feedUpdate :: "int \<Rightarrow> 'a update \<Rightarrow> 'a updates_state \<Rightarrow> 'a updates_state" where
  "feedUpdate now u s0 =
     (let s = s0\<lparr>ud_fed := ud_fed s0 @ [u]\<rparr> in
      case u of
        CommonUpdate pts cnt loaded a \<Rightarrow>
          if \<not> requestingDifference s \<and> \<not> loaded then getDifference s
          else snd (with_waiter now (updateAndApplyOne None pts cnt u) s)
      | NewChannelMessage ch pts cnt loaded a \<Rightarrow>
          if \<not> requestingDifference s \<and> (ud_channels s ch = None \<or> \<not> loaded) then s\<lparr>ud_byMinChannelTimer := True\<rparr>
          else feed_channel now ch pts cnt u s
      | ChannelUpdate ch pts cnt a \<Rightarrow> feed_channel now ch pts cnt u s
      | ChannelTooLong ch pts \<Rightarrow>
          (case ud_channels s ch of
             None \<Rightarrow> s
           | Some w \<Rightarrow> if pts = None \<or> pw_good w < the pts then getChannelDifference ch FromUnknown s else s)
      | ChannelContentsRead ch a \<Rightarrow>
          if ud_channels s ch = None then s\<lparr>ud_byMinChannelTimer := True\<rparr> else upd_apply (AppliedUpdate (Some u)) s
      | _ \<Rightarrow> upd_apply (AppliedUpdate (Some u)) s)"

fun is_call :: "'a update \<Rightarrow> bool" where
  "is_call (GroupCallUpdate a) \<longleftrightarrow> True"
| "is_call u \<longleftrightarrow> False"

fun is_message_id :: "'a update \<Rightarrow> bool" where
  "is_message_id (MessageIdUpdate a) \<longleftrightarrow> True"
| "is_message_id u \<longleftrightarrow> False"

definition feedMessageIds :: "int \<Rightarrow> 'a update list \<Rightarrow> 'a updates_state \<Rightarrow> 'a updates_state" where
  "feedMessageIds now us s = fold (feedUpdate now) (filter is_message_id us) s"

definition feedUpdateVector :: "int \<Rightarrow> 'a update list \<Rightarrow> skip_policy \<Rightarrow> 'a updates_state \<Rightarrow> 'a updates_state" where
  "feedUpdateVector now us policy s =
     (let hasCalls = (\<exists>u \<in> set us. is_call u);
          list = (if hasCalls then filter is_call us @ filter (\<lambda>u. \<not> is_call u) us else us)
      in if \<not> hasCalls \<and> policy = SkipExceptGroupCallParticipants then s
         else fold (feedUpdate now) (filter (\<lambda>u. \<not> (policy = SkipMessageIds \<and> is_message_id u
           \<or> policy = SkipExceptGroupCallParticipants \<and> \<not> is_call u)) list) s)"


subsection \<open>Packets in the order of their seq\<close>

text \<open>What waits for its seq is kept or, when a difference is requested, dropped.\<close>

definition seq_kept :: "'a updates_state \<Rightarrow> 'a updates_state \<Rightarrow> bool" where
  "seq_kept s s1 \<longleftrightarrow> ud_bySeq s1 = ud_bySeq s \<or> ud_bySeq s1 = []"

lemma seq_kept_refl [simp]: "seq_kept s s"
  by (simp add: seq_kept_def)

lemma seq_kept_trans: "seq_kept s s1 \<Longrightarrow> seq_kept s1 s2 \<Longrightarrow> seq_kept s s2"
  by (auto simp: seq_kept_def)

lemma bySeq_getChannelDifference [simp]: "ud_bySeq (getChannelDifference ch source s) = ud_bySeq s"
  by (auto simp: getChannelDifference_def upd_request_def Let_def split: option.split)

lemma bySeq_channels_due: "channels_due now source m w s = (w1, m1, s1) \<Longrightarrow> ud_bySeq s1 = ud_bySeq s"
  by (induction now source m w s arbitrary: w1 m1 s1 rule: channels_due.induct) (auto split: if_splits prod.splits)

lemma seq_kept_getDifference: "seq_kept s (getDifference s)"
  by (simp add: getDifference_def seq_kept_def upd_request_def Let_def)

lemma seq_kept_byPts: "seq_kept s (getDifferenceByPts now s)"
  using seq_kept_getDifference[of s] unfolding getDifferenceByPts_def seq_kept_def
  by (auto split: prod.split dest!: bySeq_channels_due)

lemma seq_kept_timer: "seq_kept s (ptsWaiterStartTimerFor now ch ms s)"
proof -
  have "seq_kept s (getDifferenceByPts now s1)" if "ud_bySeq s1 = ud_bySeq s" for s1
    using seq_kept_byPts[of s1 now] that by (simp add: seq_kept_def)
  then show ?thesis by (auto simp: ptsWaiterStartTimerFor_def split: option.split)
qed

lemma seq_kept_effect: "seq_kept s (handle_effect now e s)"
  by (cases e) (simp_all add: seq_kept_timer, simp_all add: seq_kept_def upd_apply_def)

lemma seq_kept_effects: "seq_kept s (fold (handle_effect now) es s)"
  by (induction es arbitrary: s) (auto intro: seq_kept_trans[OF seq_kept_effect])

lemma seq_kept_cong: "ud_bySeq s0 = ud_bySeq s \<Longrightarrow> seq_kept s0 s1 \<Longrightarrow> seq_kept s s1"
  by (simp add: seq_kept_def)

lemma seq_kept_waiter: "seq_kept s (snd (with_waiter now opn s))"
  unfolding with_waiter_def by (auto split: prod.split intro: seq_kept_cong[OF _ seq_kept_effects])

lemma seq_kept_with_channel: "seq_kept s (with_channel now ch opn s)"
  unfolding with_channel_def Let_def by (auto split: option.split intro: seq_kept_cong[OF _ seq_kept_effects])

lemma seq_kept_feed_channel: "seq_kept s (feed_channel now ch pts cnt u s)"
  using seq_kept_with_channel[of s now ch] by (auto simp: feed_channel_def seq_kept_def upd_apply_def split: option.split)

lemma seq_kept_feed: "seq_kept s (feedUpdate now u s)"
  by (cases u)
    (auto simp: Let_def intro: seq_kept_cong[OF _ seq_kept_getDifference] seq_kept_cong[OF _ seq_kept_waiter]
      seq_kept_cong[OF _ seq_kept_feed_channel], auto simp: seq_kept_def upd_apply_def split: option.split)

lemma seq_kept_feeds: "seq_kept s (fold (feedUpdate now) us s)"
  by (induction us arbitrary: s) (auto intro: seq_kept_trans[OF seq_kept_feed] simp del: feedUpdate.simps)

lemma seq_kept_vector: "seq_kept s (feedUpdateVector now us policy s)"
  by (simp add: feedUpdateVector_def Let_def seq_kept_feeds)

text \<open>
  A packet is left out, kept for later, or its updates are fed and the state is set: \<open>take_packet\<close> gives the date
  and the seq then.
\<close>

definition take_packet :: "int \<Rightarrow> 'a packet \<Rightarrow> 'a updates_state \<Rightarrow> (int \<times> int) option \<times> 'a updates_state" where
  "take_packet now p s =
     (let numbered = (\<lambda>start seq date us.
            if start \<noteq> 0 \<and> start \<le> ud_seq s then (None, s)
            else if start \<noteq> 0 \<and> start > ud_seq s + 1
            then (None, s\<lparr>ud_bySeq := fm_emplace start p (ud_bySeq s), ud_bySeqTimer := True\<rparr>)
            else (Some (date, seq), feedUpdateVector now us SkipNone s))
      in case p of
           PacketUpdates seq date us \<Rightarrow> numbered seq seq date us
         | PacketCombined start seq date us \<Rightarrow> numbered start seq date us
         | PacketShort date u \<Rightarrow> (let s1 = feedUpdate now u s in (Some (date, ud_seq s1), s1))
         | ShortPacket pts cnt date loaded a \<Rightarrow>
             (if \<not> loaded then (None, getDifference s)
              else case with_waiter now (updateAndApplyMany None pts cnt p) s of
                (b, s1) \<Rightarrow> (if b then Some (date, ud_seq s1) else None, s1))
         | PacketTooLong \<Rightarrow> (None, getDifference s))"

text \<open>The packets kept, from the front: those passed are dropped, the next one is returned if it is there.\<close>

fun next_packet :: "int \<Rightarrow> (int, 'a packet) flat_map \<Rightarrow> 'a packet option \<times> (int, 'a packet) flat_map \<times> bool" where
  "next_packet seq [] = (None, [], False)"
| "next_packet seq ((s, v) # m) =
     (if s \<le> seq + 1 then (if s = seq + 1 then (Some v, m, False) else next_packet seq m)
      else (None, (s, v) # m, True))"

lemma next_packet_shorter: "next_packet seq m = (Some v, m1, b) \<Longrightarrow> length m1 < length m"
  by (induction seq m rule: next_packet.induct) (auto split: if_splits)

text \<open>\<open>setState\<close> up to the packet it goes on with.\<close>

definition set_fields :: "int \<Rightarrow> int \<Rightarrow> int \<Rightarrow> int \<Rightarrow> 'a updates_state \<Rightarrow> 'a packet option \<times> 'a updates_state" where
  "set_fields pts date qts seq s =
     (let s1 = (if pts \<noteq> 0 then s\<lparr>ud_waiter := pts_init pts (ud_waiter s)\<rparr> else s);
          s2 = (if ud_date s1 < date \<and> \<not> ud_byMinChannelTimer s1 then s1\<lparr>ud_date := date\<rparr> else s1);
          s3 = (if qts \<noteq> 0 \<and> ud_qts s2 < qts then s2\<lparr>ud_qts := qts\<rparr> else s2)
      in if seq \<noteq> 0 \<and> seq \<noteq> ud_seq s3 then
           (case next_packet seq (ud_bySeq s3) of
              (next, m, waits) \<Rightarrow> (next, s3\<lparr>ud_seq := seq, ud_bySeqTimer := waits, ud_bySeq := m\<rparr>))
         else (None, s3))"

lemma set_fields_shorter: "set_fields pts date qts seq s = (Some v, s1) \<Longrightarrow> length (ud_bySeq s1) < length (ud_bySeq s)"
  by (auto simp: set_fields_def Let_def split: if_splits prod.splits dest!: next_packet_shorter)

lemma take_packet_kept: "take_packet now p s = (Some x, s1) \<Longrightarrow> seq_kept s s1"
  using seq_kept_vector seq_kept_feed[of s now] seq_kept_waiter[of s now]
  by (auto simp: take_packet_def Let_def simp del: feedUpdate.simps split: packet.splits if_splits prod.splits)
    (metis snd_conv)+

function applyUpdates :: "int \<Rightarrow> 'a packet \<Rightarrow> 'a updates_state \<Rightarrow> 'a updates_state" where
  "applyUpdates now p s =
     (case take_packet now p s of
        (None, s1) \<Rightarrow> s1
      | (Some (date, seq), s1) \<Rightarrow>
          (case set_fields 0 date (ud_qts s1) seq s1 of
             (None, s2) \<Rightarrow> s2
           | (Some v, s2) \<Rightarrow> applyUpdates now v s2))"
  by pat_completeness auto
termination
proof (relation "measure (\<lambda>(now, p, s). length (ud_bySeq s))")
  fix now :: int and p and s :: "'a updates_state" and x y x2 xa ya xb yb x2a
  assume a: "(x, y) = take_packet now p s" "x = Some x2" "(xa, ya) = x2" "(xb, yb) = set_fields 0 xa (ud_qts y) ya y" "xb = Some x2a"
  have "seq_kept s y" using take_packet_kept[of now p s x2 y] a(1,2) by simp
  moreover have "length (ud_bySeq yb) < length (ud_bySeq y)" using set_fields_shorter a(4,5) by metis
  ultimately show "((now, x2a, yb), now, p, s) \<in> measure (\<lambda>(now, p, s). length (ud_bySeq s))"
    by (auto simp: seq_kept_def)
qed simp

declare applyUpdates.simps [simp del]

definition setState :: "int \<Rightarrow> int \<Rightarrow> int \<Rightarrow> int \<Rightarrow> int \<Rightarrow> 'a updates_state \<Rightarrow> 'a updates_state" where
  "setState now pts date qts seq s =
     (case set_fields pts date qts seq s of
        (None, s1) \<Rightarrow> s1
      | (Some v, s1) \<Rightarrow> applyUpdates now v s1)"

subsection \<open>What arrives\<close>

fun applyGroupCallParticipantUpdates :: "int \<Rightarrow> 'a packet \<Rightarrow> 'a updates_state \<Rightarrow> 'a updates_state" where
  "applyGroupCallParticipantUpdates now (PacketUpdates seq date us) s = feedUpdateVector now us SkipExceptGroupCallParticipants s"
| "applyGroupCallParticipantUpdates now (PacketCombined start seq date us) s =
     feedUpdateVector now us SkipExceptGroupCallParticipants s"
| "applyGroupCallParticipantUpdates now (PacketShort date u) s = (if is_call u then feedUpdate now u s else s)"
| "applyGroupCallParticipantUpdates now p s = s"

text \<open>\<open>forceLogout\<close> is whether the packet has a notification that logs out.\<close>

definition mtpUpdateReceived :: "int \<Rightarrow> bool \<Rightarrow> 'a packet \<Rightarrow> 'a updates_state \<Rightarrow> 'a updates_state" where
  "mtpUpdateReceived now forceLogout p s =
     (let s1 = s\<lparr>ud_lastUpdateTime := now, ud_noUpdatesTimer := True\<rparr>
      in if \<not> requestingDifference s1 \<or> forceLogout then applyUpdates now p s1
         else applyGroupCallParticipantUpdates now p s1)"

definition mtpNewSessionCreated :: "'a updates_state \<Rightarrow> 'a updates_state" where
  "mtpNewSessionCreated s = getDifference (s\<lparr>ud_seq := 0\<rparr>)"

definition stateDone :: "int \<Rightarrow> int \<Rightarrow> int \<Rightarrow> int \<Rightarrow> int \<Rightarrow> 'a updates_state \<Rightarrow> 'a updates_state" where
  "stateDone now pts date qts seq s =
     (let s1 = setState now pts date qts seq s
      in upd_request RequestDialogs (s1\<lparr>ud_lastUpdateTime := now, ud_noUpdatesTimer := True,
           ud_waiter := setRequesting False (ud_waiter s1)\<rparr>))"

text \<open>New messages of a difference are given to \<open>processMessages\<close>.\<close>

definition feedDifference :: "int \<Rightarrow> 'a list \<Rightarrow> 'a update list \<Rightarrow> 'a updates_state \<Rightarrow> 'a updates_state" where
  "feedDifference now msgs other s =
     feedUpdateVector now other SkipMessageIds (fold (\<lambda>a. upd_apply (AppliedMessage a)) msgs (feedMessageIds now other s))"

datatype 'a difference =
    DifferenceEmpty int int
  | DifferenceSlice "'a list" "'a update list" int int int int
  | DifferenceFull "'a list" "'a update list" int int int int
  | DifferenceTooLong

fun differenceDone :: "int \<Rightarrow> 'a difference \<Rightarrow> 'a updates_state \<Rightarrow> 'a updates_state" where
  "differenceDone now (DifferenceEmpty date seq) s0 =
     (let s = s0\<lparr>ud_failTimeout := 1\<rparr>;
          s1 = setState now (pw_good (ud_waiter s)) date (ud_qts s) seq s
      in s1\<lparr>ud_lastUpdateTime := now, ud_noUpdatesTimer := True, ud_waiter := setRequesting False (ud_waiter s1)\<rparr>)"
| "differenceDone now (DifferenceSlice msgs other pts date qts seq) s0 =
     (let s1 = setState now pts date qts seq (feedDifference now msgs other (s0\<lparr>ud_failTimeout := 1\<rparr>))
      in getDifference (s1\<lparr>ud_waiter := setRequesting False (ud_waiter s1)\<rparr>))"
| "differenceDone now (DifferenceFull msgs other pts date qts seq) s0 =
     stateDone now pts date qts seq (feedDifference now msgs other (s0\<lparr>ud_failTimeout := 1\<rparr>))"
| "differenceDone now DifferenceTooLong s0 = s0\<lparr>ud_failTimeout := 1\<rparr>"

definition differenceFail :: "int \<Rightarrow> 'a updates_state \<Rightarrow> 'a updates_state" where
  "differenceFail now s = failDifferenceStartTimerFor now None s"

definition ptsInit :: "nat \<Rightarrow> int \<Rightarrow> 'a updates_state \<Rightarrow> 'a updates_state" where
  "ptsInit ch pts s = s\<lparr>ud_channels := (ud_channels s)(ch := map_option (pts_init pts) (ud_channels s ch))\<rparr>"

definition feedChannelDifference :: "int \<Rightarrow> 'a list \<Rightarrow> 'a update list \<Rightarrow> 'a updates_state \<Rightarrow> 'a updates_state" where
  "feedChannelDifference now msgs other s =
     (feedUpdateVector now other SkipMessageIds (fold (\<lambda>a. upd_apply (AppliedMessage a)) msgs
        (feedMessageIds now other (s\<lparr>ud_handlingChannelDifference := True\<rparr>))))\<lparr>ud_handlingChannelDifference := False\<rparr>"

text \<open>A difference that is too long has the pts of the dialog, if it is not a folder, and the dialog's messages.\<close>

datatype 'a channel_difference =
    ChannelDifferenceEmpty int
  | ChannelDifferenceTooLong "int option" "'a list"
  | ChannelDifference int "'a list" "'a update list"

definition channelDifferenceDone :: "int \<Rightarrow> nat \<Rightarrow> 'a channel_difference \<Rightarrow> bool \<Rightarrow> int \<Rightarrow> 'a updates_state \<Rightarrow> 'a updates_state" where
  "channelDifferenceDone now ch diff isFinal timeout s0 =
     (let s = s0\<lparr>ud_channelFailTimeout := fm_erase ch (ud_channelFailTimeout s0)\<rparr>;
          s1 = (case diff of
              ChannelDifferenceEmpty pts \<Rightarrow> ptsInit ch pts s
            | ChannelDifferenceTooLong pts msgs \<Rightarrow>
                fold (\<lambda>a. upd_apply (AppliedMessage a)) msgs (case pts of None \<Rightarrow> s | Some n \<Rightarrow> ptsInit ch n s)
            | ChannelDifference pts msgs other \<Rightarrow> ptsInit ch pts (feedChannelDifference now msgs other s));
          s2 = s1\<lparr>ud_channels := (ud_channels s1)(ch := map_option (setRequesting False) (ud_channels s1 ch))\<rparr>
      in if \<not> isFinal then getChannelDifference ch FromUnknown s2
         else if ch \<in> ud_activeChats s2
         then with_channel now ch (setWaitingForShortPoll (Some ch) (if timeout \<noteq> 0 then timeout * 1000 else kWaitForChannelGetDifference)) s2
         else s2)"

definition channelDifferenceFail :: "int \<Rightarrow> nat \<Rightarrow> 'a updates_state \<Rightarrow> 'a updates_state" where
  "channelDifferenceFail now ch s = failDifferenceStartTimerFor now (Some ch) s"

text \<open>What happens to the updates of an account; timers fire when they are due.\<close>

datatype 'a upd_event =
    UpdReceived bool "'a packet"
  | UpdNewSession
  | UpdStateDone int int int int
  | UpdDifferenceDone "'a difference"
  | UpdDifferenceFail
  | UpdChannelDone nat "'a channel_difference" bool int
  | UpdChannelFail nat
  | UpdBySeqTimer
  | UpdByPtsTimer
  | UpdMinChannelTimer
  | UpdFailTimer
  | UpdNoUpdatesTimer
  | UpdCheckLast bool
  | UpdActiveChat nat

fun upd_step :: "int \<times> 'a upd_event \<Rightarrow> 'a updates_state \<Rightarrow> 'a updates_state" where
  "upd_step (now, UpdReceived forceLogout p) s = mtpUpdateReceived now forceLogout p s"
| "upd_step (now, UpdNewSession) s = mtpNewSessionCreated s"
| "upd_step (now, UpdStateDone pts date qts seq) s = stateDone now pts date qts seq s"
| "upd_step (now, UpdDifferenceDone diff) s = differenceDone now diff s"
| "upd_step (now, UpdDifferenceFail) s = differenceFail now s"
| "upd_step (now, UpdChannelDone ch diff isFinal timeout) s = channelDifferenceDone now ch diff isFinal timeout s"
| "upd_step (now, UpdChannelFail ch) s = channelDifferenceFail now ch s"
| "upd_step (now, UpdBySeqTimer) s = (if ud_bySeqTimer s then getDifference (s\<lparr>ud_bySeqTimer := False\<rparr>) else s)"
| "upd_step (now, UpdByPtsTimer) s =
     (case ud_byPtsTimer s of
        None \<Rightarrow> s
      | Some t \<Rightarrow> if t \<le> now then getDifferenceByPts now (s\<lparr>ud_byPtsTimer := None\<rparr>) else s)"
| "upd_step (now, UpdMinChannelTimer) s =
     (if ud_byMinChannelTimer s then getDifference (s\<lparr>ud_byMinChannelTimer := False\<rparr>) else s)"
| "upd_step (now, UpdFailTimer) s =
     (case ud_failTimer s of
        None \<Rightarrow> s
      | Some t \<Rightarrow> if t \<le> now then getDifferenceAfterFail now (s\<lparr>ud_failTimer := None\<rparr>) else s)"
| "upd_step (now, UpdNoUpdatesTimer) s = (if ud_noUpdatesTimer s then sendPing (s\<lparr>ud_noUpdatesTimer := False\<rparr>) else s)"
| "upd_step (now, UpdCheckLast afterSleep) s = checkLastUpdate now afterSleep s"
| "upd_step (now, UpdActiveChat ch) s =
     with_channel now ch (setWaitingForShortPoll (Some ch) kWaitForChannelGetDifference)
       (s\<lparr>ud_activeChats := insert ch (ud_activeChats s)\<rparr>)"

subsection \<open>What the operations of a waiter keep\<close>

text \<open>They keep whether it is requesting, and ask only for the timer of their channel.\<close>

definition waiter_step :: "channel \<Rightarrow> 'a waiter \<Rightarrow> 'a waiter \<Rightarrow> bool" where
  "waiter_step ch w w1 \<longleftrightarrow> pw_requesting w1 = pw_requesting w
     \<and> (\<exists>es. pw_effects w1 = pw_effects w @ es \<and> (\<forall>c ms. StartTimer c ms \<in> set es \<longrightarrow> c = ch))"

lemma waiter_step_trans:
  assumes "waiter_step ch w w1" and "waiter_step ch w1 w2"
  shows "waiter_step ch w w2"
proof -
  obtain es where es: "pw_effects w1 = pw_effects w @ es" "\<forall>c ms. StartTimer c ms \<in> set es \<longrightarrow> c = ch"
    using assms(1) by (auto simp: waiter_step_def)
  obtain fs where fs: "pw_effects w2 = pw_effects w1 @ fs" "\<forall>c ms. StartTimer c ms \<in> set fs \<longrightarrow> c = ch"
    using assms(2) by (auto simp: waiter_step_def)
  show ?thesis using assms es fs unfolding waiter_step_def by (intro conjI exI[of _ "es @ fs"]) auto
qed

lemma waiter_step_same: "pw_requesting w1 = pw_requesting w \<Longrightarrow> pw_effects w1 = pw_effects w \<Longrightarrow> waiter_step ch w w1"
  by (auto simp: waiter_step_def)

lemma waiter_step_emit: "(\<And>c ms. e = StartTimer c ms \<Longrightarrow> c = ch) \<Longrightarrow> waiter_step ch w (emit e w)"
  by (auto simp: waiter_step_def emit_def)

lemma waiter_step_waiting: "waiter_step ch w (setWaitingForSkipped ch ms w)" "waiter_step ch w (setWaitingForShortPoll ch ms w)"
  by (auto simp: waiter_step_def setWaitingForSkipped_def setWaitingForShortPoll_def checkForWaiting_def emit_def)

lemma waiter_step_entries: "waiter_step ch w (fold apply_entry es w)"
proof (induction es arbitrary: w)
  case (Cons e es)
  have "waiter_step ch w (apply_entry e w)" by (cases e rule: prod.exhaust, rename_tac k q, case_tac q) (auto intro: waiter_step_emit)
  then show ?case using waiter_step_trans[OF _ Cons] by simp
qed (simp add: waiter_step_same)

lemma waiter_step_applySkipped: "waiter_step ch w (applySkippedUpdates ch w)"
proof -
  define w1 where "w1 = setWaitingForSkipped ch (-1) w"
  define w2 where "w2 = w1\<lparr>pw_level := pw_level w1 + 1\<rparr>"
  define w3 where "w3 = fold apply_entry (pw_queue w2) w2"
  have "waiter_step ch w w1" unfolding w1_def by (rule waiter_step_waiting)
  moreover have "waiter_step ch w1 w2" by (rule waiter_step_same) (simp_all add: w2_def)
  moreover have "waiter_step ch w2 w3" unfolding w3_def by (rule waiter_step_entries)
  moreover have "waiter_step ch w3 (clearSkippedUpdates (w3\<lparr>pw_level := pw_level w3 - 1\<rparr>))"
    by (rule waiter_step_same) (simp_all add: clearSkippedUpdates_def)
  ultimately have "waiter_step ch w (clearSkippedUpdates (w3\<lparr>pw_level := pw_level w3 - 1\<rparr>))" "waiter_step ch w w1"
    by (blast intro: waiter_step_trans)+
  then show ?thesis
    by (simp add: applySkippedUpdates_def Let_def waiter_step_same w1_def w2_def w3_def)
qed

lemma waiter_step_check: "waiter_step ch w (snd (pts_check ch pts cnt w))"
proof -
  let ?w1 = "w\<lparr>pw_last := max (pw_last w) pts, pw_count := pw_count w + cnt\<rparr>"
  have "waiter_step ch w ?w1" by (rule waiter_step_same) simp_all
  then have "waiter_step ch w (setWaitingForSkipped ch ms ?w1)" for ms
    by (rule waiter_step_trans) (rule waiter_step_waiting)
  then show ?thesis by (simp add: pts_check_def Let_def waiter_step_same pts_init_def clearSkippedUpdates_def)
qed

lemma waiter_step_ptsKey: "waiter_step ch w (snd (ptsKey q pts w))"
  by (rule waiter_step_same) (simp_all add: ptsKey_def Let_def)

lemma waiter_step_updatedOne: "waiter_step ch w (snd (updatedOne ch pts cnt u w))"
proof -
  obtain b w1 where c: "pts_check ch pts cnt w = (b, w1)" by (cases "pts_check ch pts cnt w")
  obtain key w2 where k: "ptsKey SkippedUpdate pts w1 = (key, w2)" by (cases "ptsKey SkippedUpdate pts w1")
  have "waiter_step ch w w1" "waiter_step ch w1 w2"
    using waiter_step_check[of ch w pts cnt] waiter_step_ptsKey[of ch w1 SkippedUpdate pts] c k by auto
  moreover have "waiter_step ch w2 (w2\<lparr>pw_updateQueue := fm_emplace key u (pw_updateQueue w2)\<rparr>)" by (rule waiter_step_same) simp_all
  ultimately have "waiter_step ch w (w2\<lparr>pw_updateQueue := fm_emplace key u (pw_updateQueue w2)\<rparr>)" "waiter_step ch w w1"
    by (blast intro: waiter_step_trans)+
  then show ?thesis by (simp add: updatedOne_def c k waiter_step_same split: bool.split)
qed

lemma waiter_step_updatedMany: "waiter_step ch w (snd (updatedMany ch pts cnt us w))"
proof -
  obtain b w1 where c: "pts_check ch pts cnt w = (b, w1)" by (cases "pts_check ch pts cnt w")
  obtain key w2 where k: "ptsKey SkippedUpdates pts w1 = (key, w2)" by (cases "ptsKey SkippedUpdates pts w1")
  have "waiter_step ch w w1" "waiter_step ch w1 w2"
    using waiter_step_check[of ch w pts cnt] waiter_step_ptsKey[of ch w1 SkippedUpdates pts] c k by auto
  moreover have "waiter_step ch w2 (w2\<lparr>pw_updatesQueue := fm_emplace key us (pw_updatesQueue w2)\<rparr>)" by (rule waiter_step_same) simp_all
  ultimately have "waiter_step ch w (w2\<lparr>pw_updatesQueue := fm_emplace key us (pw_updatesQueue w2)\<rparr>)" "waiter_step ch w w1"
    by (blast intro: waiter_step_trans)+
  then show ?thesis by (simp add: updatedMany_def c k waiter_step_same split: bool.split)
qed

lemma waiter_step_One: "waiter_step ch w (snd (updateAndApplyOne ch pts cnt u w))"
proof -
  obtain b w1 where c: "updatedOne ch pts cnt u w = (b, w1)" by (cases "updatedOne ch pts cnt u w")
  obtain key w2 where k: "ptsKey SkippedUpdate pts w1 = (key, w2)" by (cases "ptsKey SkippedUpdate pts w1")
  let ?w3 = "w2\<lparr>pw_updateQueue := fm_emplace key u (pw_updateQueue w2)\<rparr>"
  have 1: "waiter_step ch w w1" using waiter_step_updatedOne[of ch w pts cnt u] c by simp
  have "waiter_step ch w1 w2" using waiter_step_ptsKey[of ch w1 SkippedUpdate pts] k by simp
  moreover have "waiter_step ch w2 ?w3" by (rule waiter_step_same) simp_all
  ultimately have "waiter_step ch w1 ?w3" by (rule waiter_step_trans)
  then have "waiter_step ch w1 (applySkippedUpdates ch ?w3)" using waiter_step_applySkipped by (rule waiter_step_trans)
  moreover have "waiter_step ch w1 (emit (ApplyUpdate (Some u)) w1)" by (rule waiter_step_emit) simp
  ultimately show ?thesis using waiter_step_trans[OF 1] 1 by (auto simp: updateAndApplyOne_def c k split: bool.split)
qed

lemma waiter_step_Many: "waiter_step ch w (snd (updateAndApplyMany ch pts cnt us w))"
proof -
  obtain b w1 where c: "updatedMany ch pts cnt us w = (b, w1)" by (cases "updatedMany ch pts cnt us w")
  obtain key w2 where k: "ptsKey SkippedUpdates pts w1 = (key, w2)" by (cases "ptsKey SkippedUpdates pts w1")
  let ?w3 = "w2\<lparr>pw_updatesQueue := fm_emplace key us (pw_updatesQueue w2)\<rparr>"
  have 1: "waiter_step ch w w1" using waiter_step_updatedMany[of ch w pts cnt us] c by simp
  have "waiter_step ch w1 w2" using waiter_step_ptsKey[of ch w1 SkippedUpdates pts] k by simp
  moreover have "waiter_step ch w2 ?w3" by (rule waiter_step_same) simp_all
  ultimately have "waiter_step ch w1 ?w3" by (rule waiter_step_trans)
  then have "waiter_step ch w1 (applySkippedUpdates ch ?w3)" using waiter_step_applySkipped by (rule waiter_step_trans)
  moreover have "waiter_step ch w1 (emit (ApplyUpdates (Some us)) w1)" by (rule waiter_step_emit) simp
  ultimately show ?thesis using waiter_step_trans[OF 1] 1 by (auto simp: updateAndApplyMany_def c k split: bool.split)
qed

lemma waiter_step_effects:
  assumes "waiter_step ch w w1"
  shows "\<And>c ms. StartTimer c ms \<in> set (new_effects w w1) \<Longrightarrow> c = ch" "pw_requesting w1 = pw_requesting w"
proof -
  obtain es where es: "pw_effects w1 = pw_effects w @ es" "\<forall>c ms. StartTimer c ms \<in> set es \<longrightarrow> c = ch"
    using assms by (auto simp: waiter_step_def)
  have "new_effects w w1 = es" by (simp add: new_effects_def es(1))
  then show "StartTimer c ms \<in> set (new_effects w w1) \<Longrightarrow> c = ch" for c ms using es(2) by blast
  show "pw_requesting w1 = pw_requesting w" using assms by (simp add: waiter_step_def)
qed

subsection \<open>Who is asked, and when\<close>

fun is_main :: "upd_request \<Rightarrow> bool" where
  "is_main GetState \<longleftrightarrow> True"
| "is_main (GetDifference pts date qts) \<longleftrightarrow> True"
| "is_main r \<longleftrightarrow> False"

fun is_channel :: "nat \<Rightarrow> upd_request \<Rightarrow> bool" where
  "is_channel ch (GetChannelDifference c pts force) \<longleftrightarrow> c = ch"
| "is_channel ch r \<longleftrightarrow> False"

definition mains :: "'a updates_state \<Rightarrow> upd_request list" where
  "mains s = filter is_main (ud_requests s)"

definition channel_asks :: "nat \<Rightarrow> 'a updates_state \<Rightarrow> upd_request list" where
  "channel_asks ch s = filter (is_channel ch) (ud_requests s)"

definition channel_requesting :: "nat \<Rightarrow> 'a updates_state \<Rightarrow> bool" where
  "channel_requesting ch s \<longleftrightarrow> (\<exists>w. ud_channels s ch = Some w \<and> pw_requesting w)"

text \<open>
  Feeding and timers: the account is asked for at most once, if it is not being asked already; a channel
  that is being asked for is not asked for again.
\<close>

definition asks_once :: "'a updates_state \<Rightarrow> 'a updates_state \<Rightarrow> bool" where
  "asks_once s s1 \<longleftrightarrow> ud_failTimer s1 = ud_failTimer s
     \<and> (requestingDifference s1 = requestingDifference s \<and> mains s1 = mains s \<and> ud_timeAfterFail s1 = ud_timeAfterFail s
        \<or> \<not> requestingDifference s \<and> requestingDifference s1 \<and> (\<exists>r. mains s1 = mains s @ [r]) \<and> ud_timeAfterFail s1 = 0)
     \<and> (\<forall>ch. channel_requesting ch s \<longrightarrow> channel_requesting ch s1 \<and> channel_asks ch s1 = channel_asks ch s)"

lemma asks_once_refl [simp]: "asks_once s s"
  by (simp add: asks_once_def)

lemma asks_once_trans: "asks_once s s1 \<Longrightarrow> asks_once s1 s2 \<Longrightarrow> asks_once s s2"
  unfolding asks_once_def by auto


lemma channels_getDifference [simp]: "ud_channels (getDifference s) = ud_channels s"
  by (simp add: getDifference_def Let_def upd_request_def)

lemma asks_once_getDifference: "asks_once s (getDifference s)"
proof (cases "requestingDifference s")
  case True
  then show ?thesis by (simp add: asks_once_def getDifference_def requestingDifference_def mains_def channel_asks_def channel_requesting_def)
next
  case False
  then have "\<not> requestingDifference (s\<lparr>ud_timeByPts := 0\<rparr>)" by (simp add: requestingDifference_def)
  then show ?thesis using False
    by (simp add: asks_once_def getDifference_def Let_def upd_request_def mains_def channel_asks_def channel_requesting_def)
      (simp add: requestingDifference_def setRequesting_def clearSkippedUpdates_def)
qed

lemma asks_once_cong:
  "ud_waiter s1 = ud_waiter s \<Longrightarrow> ud_channels s1 = ud_channels s \<Longrightarrow> ud_requests s1 = ud_requests s
    \<Longrightarrow> ud_failTimer s1 = ud_failTimer s \<Longrightarrow> ud_timeAfterFail s1 = ud_timeAfterFail s \<Longrightarrow> asks_once s s1"
  by (simp add: asks_once_def mains_def channel_asks_def requestingDifference_def channel_requesting_def)

lemma asks_once_channel: "asks_once s (getChannelDifference ch source s)"
proof -
  have old: "\<not> channel_requesting ch s" if "ud_channels s ch = Some w" "\<not> pw_requesting w" for w
    using that by (simp add: channel_requesting_def)
  show ?thesis
    by (auto simp: asks_once_def getChannelDifference_def Let_def upd_request_def mains_def channel_asks_def requestingDifference_def
        channel_requesting_def setRequesting_def clearSkippedUpdates_def split: option.split)
qed

lemma asks_once_due: "channels_due now source m w s = (w1, m1, s1) \<Longrightarrow> asks_once s s1"
proof (induction now source m w s arbitrary: w1 m1 s1 rule: channels_due.induct)
  case (2 now source ch due m wait s)
  show ?case
  proof (cases "due > now")
    case True
    then show ?thesis using 2 by (auto split: prod.splits)
  next
    case False
    then show ?thesis using 2 asks_once_trans[OF asks_once_channel] by auto
  qed
qed simp

lemma asks_once_byPts: "asks_once s (getDifferenceByPts now s)"
proof -
  define s1 where "s1 = (if ud_timeByPts s \<noteq> 0 then if ud_timeByPts s > now then s else getDifference s else s)"
  define w where "w = (if ud_timeByPts s \<noteq> 0 \<and> ud_timeByPts s > now then ud_timeByPts s - now else 0)"
  obtain w1 m s2 where d: "channels_due now PtsGapOrShortPoll (ud_whenByPts s1) w s1 = (w1, m, s2)"
    by (cases "channels_due now PtsGapOrShortPoll (ud_whenByPts s1) w s1")
  have "getDifferenceByPts now s = s2\<lparr>ud_whenByPts := m, ud_byPtsTimer := (if w1 \<noteq> 0 then Some (now + w1) else None)\<rparr>"
    using d by (auto simp: getDifferenceByPts_def s1_def w_def split: if_splits)
  moreover have "asks_once s s1" by (simp add: s1_def asks_once_getDifference)
  moreover have "asks_once s1 s2" by (rule asks_once_due[OF d])
  moreover have "asks_once s2 (s2\<lparr>ud_whenByPts := m, ud_byPtsTimer := t\<rparr>)" for t by (rule asks_once_cong) simp_all
  ultimately show ?thesis by (metis asks_once_trans)
qed

lemma asks_once_timer: "asks_once s (ptsWaiterStartTimerFor now ch ms s)"
proof -
  have "asks_once s (s\<lparr>ud_timeByPts := t\<rparr>)" "asks_once s (s\<lparr>ud_whenByPts := m\<rparr>)" for t m
    by (rule asks_once_cong; simp)+
  then show ?thesis using asks_once_trans asks_once_byPts
    by (simp add: ptsWaiterStartTimerFor_def split: option.split) blast
qed

lemma asks_once_effect: "asks_once s (handle_effect now e s)"
  by (cases e) (simp_all add: asks_once_timer asks_once_cong upd_apply_def)

lemma asks_once_effects: "asks_once s (fold (handle_effect now) es s)"
  by (induction es arbitrary: s) (auto intro: asks_once_trans[OF asks_once_effect])

lemma asks_once_put_waiter: "pw_requesting w1 = pw_requesting (ud_waiter s) \<Longrightarrow> asks_once s (s\<lparr>ud_waiter := w1\<rparr>)"
  by (simp add: asks_once_def mains_def channel_asks_def requestingDifference_def channel_requesting_def)

lemma asks_once_waiter:
  assumes "\<And>w. pw_requesting (snd (opn w)) = pw_requesting w"
  shows "asks_once s (snd (with_waiter now opn s))"
proof -
  obtain b w1 where w1: "opn (ud_waiter s) = (b, w1)" by (cases "opn (ud_waiter s)")
  have "asks_once s (s\<lparr>ud_waiter := w1\<rparr>)"
    by (rule asks_once_put_waiter) (use assms[of "ud_waiter s"] in \<open>simp add: w1\<close>)
  then show ?thesis using asks_once_trans[OF _ asks_once_effects] by (simp add: with_waiter_def w1)
qed

lemma asks_once_with_channel:
  assumes "\<And>w. pw_requesting (opn w) = pw_requesting w"
  shows "asks_once s (with_channel now ch opn s)"
proof (cases "ud_channels s ch")
  case (Some w)
  have "asks_once s (s\<lparr>ud_channels := (ud_channels s)(ch \<mapsto> opn w)\<rparr>)"
    using assms[of w] Some by (auto simp: asks_once_def mains_def channel_asks_def requestingDifference_def channel_requesting_def)
  then show ?thesis using asks_once_trans[OF _ asks_once_effects] by (simp add: with_channel_def Some Let_def)
qed (simp add: with_channel_def)

lemma asks_once_feed_channel: "asks_once s (feed_channel now ch pts cnt u s)"
proof -
  have "asks_once s (with_channel now ch (\<lambda>w. snd (updateAndApplyOne (Some ch) pts cnt u w)) s)"
    by (rule asks_once_with_channel) (rule waiter_step_effects(2)[OF waiter_step_One])
  then show ?thesis by (auto simp: feed_channel_def upd_apply_def asks_once_cong split: option.split)
qed

lemma asks_once_feed: "asks_once s (feedUpdate now u s)"
proof -
  let ?s = "s\<lparr>ud_fed := ud_fed s @ [u]\<rparr>"
  have s: "asks_once s ?s" by (rule asks_once_cong) simp_all
  have "asks_once ?s (snd (with_waiter now (updateAndApplyOne None pts cnt u) ?s))" for pts cnt
    by (rule asks_once_waiter) (rule waiter_step_effects(2)[OF waiter_step_One])
  moreover have "asks_once ?s (?s\<lparr>ud_byMinChannelTimer := True\<rparr>)" "asks_once ?s (upd_apply (AppliedUpdate (Some u)) ?s)"
    by (rule asks_once_cong; simp add: upd_apply_def)+
  ultimately have "asks_once ?s (feedUpdate now u s)"
    by (cases u) (simp_all add: Let_def asks_once_getDifference asks_once_feed_channel asks_once_channel split: option.split)
  then show ?thesis by (rule asks_once_trans[OF s])
qed

lemma asks_once_feeds: "asks_once s (fold (feedUpdate now) us s)"
  by (induction us arbitrary: s) (auto intro: asks_once_trans[OF asks_once_feed] simp del: feedUpdate.simps)

lemma asks_once_vector: "asks_once s (feedUpdateVector now us policy s)"
  by (simp add: feedUpdateVector_def Let_def asks_once_feeds del: feedUpdate.simps)

lemma asks_once_take: "asks_once s (snd (take_packet now p s))"
proof -
  have m: "asks_once s (snd (with_waiter now (updateAndApplyMany None pts cnt q) s))" for pts cnt q
    by (rule asks_once_waiter) (rule waiter_step_effects(2)[OF waiter_step_Many])
  have e: "asks_once s (s\<lparr>ud_bySeq := b, ud_bySeqTimer := t\<rparr>)" for b t by (rule asks_once_cong) simp_all
  show ?thesis
  proof (cases p)
    case (ShortPacket pts cnt date loaded a)
    obtain b s1 where w: "with_waiter now (updateAndApplyMany None pts cnt p) s = (b, s1)"
      by (cases "with_waiter now (updateAndApplyMany None pts cnt p) s")
    then have "asks_once s s1" using m[of pts cnt p] by simp
    then show ?thesis using w ShortPacket by (cases loaded) (simp_all add: take_packet_def asks_once_getDifference)
  qed (simp_all add: take_packet_def Let_def asks_once_vector asks_once_feed asks_once_getDifference e del: feedUpdate.simps)
qed

lemma asks_once_set: "asks_once s (snd (set_fields pts date qts seq s))"
proof -
  have "pw_requesting (pts_init pts w) = pw_requesting w" for w :: "'a waiter" by (simp add: pts_init_def clearSkippedUpdates_def)
  then show ?thesis
    by (auto simp: set_fields_def Let_def asks_once_def mains_def channel_asks_def requestingDifference_def channel_requesting_def
        split: prod.split)
qed

text \<open>What taking a packet and setting the state do, applying packets does.\<close>

lemma applyUpdates_rel:
  assumes trans: "\<And>s s1 s2. R s s1 \<Longrightarrow> R s1 s2 \<Longrightarrow> R s s2" and take: "\<And>now p s. R s (snd (take_packet now p s))"
    and set: "\<And>pts date qts seq s. R s (snd (set_fields pts date qts seq s))"
  shows "R s (applyUpdates now p s)"
proof (induction now p s rule: applyUpdates.induct)
  case (1 now p s)
  obtain r s1 where t: "take_packet now p s = (r, s1)" by (cases "take_packet now p s")
  have 1: "R s s1" using take[of s now p] t by simp
  show ?case
  proof (cases r)
    case None
    then show ?thesis using 1 t by (simp add: applyUpdates.simps[of now p s])
  next
    case (Some x)
    obtain date seq where x: "x = (date, seq)" by (cases x)
    obtain v s2 where f: "set_fields 0 date (ud_qts s1) seq s1 = (v, s2)" by (cases "set_fields 0 date (ud_qts s1) seq s1")
    have 2: "R s s2" using set[of s1 0 date "ud_qts s1" seq] f trans[OF 1] by simp
    show ?thesis
    proof (cases v)
      case None
      then show ?thesis using 2 t Some x f by (simp add: applyUpdates.simps[of now p s])
    next
      case (Some q)
      have "R s2 (applyUpdates now q s2)"
        using "1.IH"[OF t[symmetric] \<open>r = Some x\<close> x[symmetric] f[symmetric] Some] by simp
      then show ?thesis using trans[OF 2] t \<open>r = Some x\<close> x f Some by (simp add: applyUpdates.simps[of now p s])
    qed
  qed
qed

lemma asks_once_packet: "asks_once s (applyUpdates now p s)"
proof (rule applyUpdates_rel)
  show "asks_once s s2" if "asks_once s s1" "asks_once s1 s2" for s s1 s2 :: "'a updates_state"
    by (rule asks_once_trans[OF that])
qed (rule asks_once_take asks_once_set)+

lemma asks_once_setState: "asks_once s (setState now pts date qts seq s)"
  using asks_once_set[of s pts date qts seq] asks_once_trans[OF _ asks_once_packet, of s]
  by (auto simp: setState_def split: prod.split option.split)

end
