(* ===== verification/UpdatesSeq.thy ===== *)
theory UpdatesSeq
  imports UpdatesState
begin

text \<open>
  The order of packets (\<open>applyUpdates\<close> and \<open>setState\<close> of \<open>api/api_updates.cpp\<close>): packets that carry on from each
  other's seq are fed in that order, whatever order they arrive in.
\<close>

subsection \<open>Packets that follow each other\<close>

fun packet_start :: "'a packet \<Rightarrow> int" where
  "packet_start (PacketUpdates seq date us) = seq"
| "packet_start (PacketCombined start seq date us) = start"
| "packet_start p = 0"

fun packet_seq :: "'a packet \<Rightarrow> int" where
  "packet_seq (PacketUpdates seq date us) = seq"
| "packet_seq (PacketCombined start seq date us) = seq"
| "packet_seq p = 0"

fun packet_date :: "'a packet \<Rightarrow> int" where
  "packet_date (PacketUpdates seq date us) = date"
| "packet_date (PacketCombined start seq date us) = date"
| "packet_date p = 0"

fun packet_updates :: "'a packet \<Rightarrow> 'a update list" where
  "packet_updates (PacketUpdates seq date us) = us"
| "packet_updates (PacketCombined start seq date us) = us"
| "packet_updates p = []"

text \<open>Updates without a pts; the updates of a packet as they are fed, those of group calls first.\<close>

fun is_plain :: "'a update \<Rightarrow> bool" where
  "is_plain (MessageIdUpdate a) \<longleftrightarrow> True"
| "is_plain (GroupCallUpdate a) \<longleftrightarrow> True"
| "is_plain (PlainUpdate a) \<longleftrightarrow> True"
| "is_plain u \<longleftrightarrow> False"

definition packet_fed :: "'a packet \<Rightarrow> 'a update list" where
  "packet_fed p = filter is_call (packet_updates p) @ filter (\<lambda>u. \<not> is_call u) (packet_updates p)"

text \<open>From the seq \<open>n\<close> on.\<close>

fun seq_chain :: "int \<Rightarrow> 'a packet list \<Rightarrow> bool" where
  "seq_chain n [] \<longleftrightarrow> True"
| "seq_chain n (p # ps) \<longleftrightarrow> packet_start p = n + 1 \<and> n < packet_seq p \<and> seq_chain (packet_seq p) ps"

definition seq_at :: "int \<Rightarrow> 'a packet list \<Rightarrow> nat \<Rightarrow> int" where
  "seq_at n ps m = (if m = 0 then n else packet_seq (ps ! (m - 1)))"

lemma seq_at_simps [simp]: "seq_at n ps 0 = n" "seq_at n (p # ps) (Suc m) = seq_at (packet_seq p) ps m"
  by (cases m; simp add: seq_at_def)+

lemma seq_chain_nth:
  "seq_chain n ps \<Longrightarrow> i < length ps \<Longrightarrow> packet_start (ps ! i) = seq_at n ps i + 1 \<and> seq_at n ps i < seq_at n ps (Suc i)
     \<and> packet_seq (ps ! i) = seq_at n ps (Suc i)"
proof (induction n ps arbitrary: i rule: seq_chain.induct)
  case (2 n p ps)
  then show ?case by (cases i) simp_all
qed simp

lemma seq_at_less:
  assumes "seq_chain n ps" and "i < j" and "j \<le> length ps"
  shows "seq_at n ps i < seq_at n ps j"
  using assms(2,3)
proof (induction j)
  case (Suc j)
  have "seq_at n ps j < seq_at n ps (Suc j)" using seq_chain_nth[OF assms(1), of j] Suc.prems by simp
  then show ?case using Suc by (cases "i = j") (auto dest: less_trans)
qed simp

lemma seq_at_nonneg: "seq_chain n ps \<Longrightarrow> 0 \<le> n \<Longrightarrow> j \<le> length ps \<Longrightarrow> 0 \<le> seq_at n ps j"
  using seq_at_less[of n ps 0 j] by (cases j) simp_all

lemma start_less: "seq_chain n ps \<Longrightarrow> i < j \<Longrightarrow> j < length ps \<Longrightarrow> packet_start (ps ! i) < packet_start (ps ! j)"
  using seq_chain_nth[of n ps i] seq_chain_nth[of n ps j] seq_at_less[of n ps i j] by simp

lemma start_le_seq: "seq_chain n ps \<Longrightarrow> i < m \<Longrightarrow> m \<le> length ps \<Longrightarrow> packet_start (ps ! i) \<le> seq_at n ps m"
  using seq_chain_nth[of n ps i] seq_at_less[of n ps i m] by simp

lemma start_after_seq: "seq_chain n ps \<Longrightarrow> m < i \<Longrightarrow> i < length ps \<Longrightarrow> seq_at n ps m + 1 < packet_start (ps ! i)"
  using seq_chain_nth[of n ps i] seq_at_less[of n ps m i] by simp

subsection \<open>Feeding the updates of a packet\<close>

definition fed_applied :: "'a update list \<Rightarrow> 'a updates_state \<Rightarrow> 'a updates_state" where
  "fed_applied us s = s\<lparr>ud_fed := ud_fed s @ us, ud_applied := ud_applied s @ map (\<lambda>u. AppliedUpdate (Some u)) us\<rparr>"

lemma feed_plain: "is_plain u \<Longrightarrow> feedUpdate now u s = fed_applied [u] s"
  by (cases u) (simp_all add: Let_def upd_apply_def fed_applied_def)

declare feedUpdate.simps [simp del]

lemma feeds_plain: "\<forall>u \<in> set us. is_plain u \<Longrightarrow> fold (feedUpdate now) us s = fed_applied us s"
proof (induction us arbitrary: s)
  case (Cons u us)
  then have "fold (feedUpdate now) (u # us) s = fed_applied us (fed_applied [u] s)" by (simp add: feed_plain)
  then show ?case by (simp add: fed_applied_def)
qed (simp add: fed_applied_def)

lemma vector_plain:
  assumes "\<forall>u \<in> set (packet_updates p). is_plain u"
  shows "feedUpdateVector now (packet_updates p) SkipNone s = fed_applied (packet_fed p) s"
proof -
  have "packet_updates p = packet_fed p" if "\<not> (\<exists>u \<in> set (packet_updates p). is_call u)"
    using that by (simp add: packet_fed_def filter_empty_conv filter_id_conv)
  moreover have "\<forall>u \<in> set (packet_fed p). is_plain u" using assms by (auto simp: packet_fed_def)
  ultimately show ?thesis using feeds_plain
    by (auto simp: feedUpdateVector_def Let_def packet_fed_def[symmetric])
qed

lemma take_numbered:
  "packet_start p \<noteq> 0 \<Longrightarrow> take_packet now p s =
     (if packet_start p \<le> ud_seq s then (None, s)
      else if packet_start p > ud_seq s + 1
      then (None, s\<lparr>ud_bySeq := fm_emplace (packet_start p) p (ud_bySeq s), ud_bySeqTimer := True\<rparr>)
      else (Some (packet_date p, packet_seq p), feedUpdateVector now (packet_updates p) SkipNone s))"
  by (cases p) (simp_all add: take_packet_def)

subsection \<open>Catching up\<close>

text \<open>
  The packets are named by their place. When the packet at \<open>m\<close> comes and those at the places \<open>is\<close> wait, those
  right behind it are fed with it: the place of the next one missing, and the places that wait still.
\<close>

fun caught_up :: "nat \<Rightarrow> nat list \<Rightarrow> nat \<times> nat list" where
  "caught_up m [] = (Suc m, [])"
| "caught_up m (i # is) = (if i = Suc m then caught_up i is else (Suc m, i # is))"

lemma caught_up_spec:
  "sorted_wrt (<) (m # is) \<Longrightarrow> caught_up m is = (k, rest) \<Longrightarrow>
     m < k \<and> {m<..<k} \<subseteq> set is \<and> k \<notin> set is \<and> sorted_wrt (<) rest \<and> set rest = {i \<in> set is. k < i}"
proof (induction m "is" rule: caught_up.induct)
  case (1 m)
  then show ?case by auto
next
  case (2 m i "is")
  show ?case
  proof (cases "i = Suc m")
    case True
    then have c: "i < k \<and> {i<..<k} \<subseteq> set is \<and> k \<notin> set is \<and> sorted_wrt (<) rest \<and> set rest = {j \<in> set is. k < j}"
      using 2 by simp
    have "{m<..<k} \<subseteq> insert i {i<..<k}" using True by auto
    then show ?thesis using c True by (intro conjI) auto
  next
    case False
    then have "k = Suc m" "rest = i # is" "Suc m < i" using 2(2,3) by auto
    then show ?thesis using 2(2) by auto
  qed
qed

definition seq_entries :: "'a packet list \<Rightarrow> nat list \<Rightarrow> (int, 'a packet) flat_map" where
  "seq_entries ps is = map (\<lambda>i. (packet_start (ps ! i), ps ! i)) is"

text \<open>The packets before the place \<open>m\<close> have been fed to the state \<open>s0\<close>, those at the places \<open>is\<close> wait.\<close>

definition seq_done :: "'a packet list \<Rightarrow> 'a updates_state \<Rightarrow> nat \<Rightarrow> nat list \<Rightarrow> 'a updates_state \<Rightarrow> bool" where
  "seq_done ps s0 m is s \<longleftrightarrow> ud_waiter s = ud_waiter s0 \<and> ud_requests s = ud_requests s0 \<and> ud_seq s = seq_at (ud_seq s0) ps m
     \<and> ud_fed s = ud_fed s0 @ concat (map packet_fed (take m ps))
     \<and> ud_applied s = ud_applied s0 @ map (\<lambda>u. AppliedUpdate (Some u)) (concat (map packet_fed (take m ps)))
     \<and> ud_bySeq s = seq_entries ps is"

lemma next_entries:
  assumes "seq_chain n ps" and "m < length ps" and "sorted_wrt (<) (m # is)" and "\<forall>i \<in> set is. i < length ps"
  shows "next_packet (seq_at n ps (Suc m)) (seq_entries ps is)
    = (case is of [] \<Rightarrow> (None, [], False)
       | i # js \<Rightarrow> if i = Suc m then (Some (ps ! i), seq_entries ps js, False) else (None, seq_entries ps is, True))"
proof (cases "is")
  case (Cons i js)
  have i: "m < i" "i < length ps" using assms(3,4) Cons by auto
  show ?thesis
  proof (cases "i = Suc m")
    case True
    then show ?thesis using seq_chain_nth[OF assms(1) i(2)] by (simp add: Cons seq_entries_def)
  next
    case False
    then have "seq_at n ps (Suc m) + 1 < packet_start (ps ! i)" using start_after_seq[OF assms(1), of "Suc m" i] i by simp
    then show ?thesis using False by (simp add: Cons seq_entries_def)
  qed
qed (simp add: seq_entries_def)

lemma take_due:
  assumes "seq_chain (ud_seq s0) ps" and "0 \<le> ud_seq s0" and "m < length ps" and "seq_done ps s0 m is s"
    and plain: "\<forall>p \<in> set ps. \<forall>u \<in> set (packet_updates p). is_plain u"
  shows "take_packet now (ps ! m) s = (Some (packet_date (ps ! m), seq_at (ud_seq s0) ps (Suc m)), fed_applied (packet_fed (ps ! m)) s)"
proof -
  have c: "packet_start (ps ! m) = ud_seq s + 1" "packet_seq (ps ! m) = seq_at (ud_seq s0) ps (Suc m)"
    "\<forall>u \<in> set (packet_updates (ps ! m)). is_plain u"
    using seq_chain_nth[OF assms(1,3)] plain nth_mem[OF assms(3)] assms(4) by (auto simp: seq_done_def)
  have "0 \<le> ud_seq s" using seq_at_nonneg[OF assms(1,2), of m] assms(3,4) by (simp add: seq_done_def)
  then show ?thesis using c(1,2) by (subst take_numbered) (simp_all add: vector_plain[OF c(3)])
qed

lemma set_done:
  assumes chain: "seq_chain (ud_seq s0) ps" "0 \<le> ud_seq s0" and m: "m < length ps" and d: "seq_done ps s0 m is s"
    and w: "sorted_wrt (<) (m # is)" "\<forall>i \<in> set is. i < length ps"
  obtains s2 where "set_fields 0 date (ud_qts s) (seq_at (ud_seq s0) ps (Suc m)) (fed_applied (packet_fed (ps ! m)) s)
      = ((case is of [] \<Rightarrow> None | i # js \<Rightarrow> if i = Suc m then Some (ps ! i) else None), s2)"
    "seq_done ps s0 (Suc m) (case is of [] \<Rightarrow> [] | i # js \<Rightarrow> if i = Suc m then js else i # js) s2"
    "(is = [] \<or> hd is \<noteq> Suc m) \<Longrightarrow> ud_bySeqTimer s2 = (is \<noteq> [])"
proof -
  let ?seq = "seq_at (ud_seq s0) ps (Suc m)" and ?s1 = "fed_applied (packet_fed (ps ! m)) s"
  have seq: "?seq \<noteq> 0" "?seq \<noteq> ud_seq s"
    using seq_chain_nth[OF chain(1) m] seq_at_nonneg[OF chain, of m] m d by (auto simp: seq_done_def)
  define s2 where "s2 = (if ud_date ?s1 < date \<and> \<not> ud_byMinChannelTimer ?s1 then ?s1\<lparr>ud_date := date\<rparr> else ?s1)"
  have f: "ud_waiter s2 = ud_waiter s" "ud_requests s2 = ud_requests s" "ud_seq s2 = ud_seq s" "ud_bySeq s2 = seq_entries ps is"
    "ud_fed s2 = ud_fed s @ packet_fed (ps ! m)" "ud_applied s2 = ud_applied s @ map (\<lambda>u. AppliedUpdate (Some u)) (packet_fed (ps ! m))"
    "ud_qts s2 = ud_qts s"
    using d by (auto simp: s2_def fed_applied_def seq_done_def)
  obtain x l b where n: "next_packet ?seq (seq_entries ps is) = (x, l, b)" by (cases "next_packet ?seq (seq_entries ps is)")
  have r: "set_fields 0 date (ud_qts s) ?seq ?s1 = (x, s2\<lparr>ud_seq := ?seq, ud_bySeqTimer := b, ud_bySeq := l\<rparr>)"
    using seq f n by (simp add: set_fields_def Let_def s2_def[symmetric])
  have x: "x = (case is of [] \<Rightarrow> None | i # js \<Rightarrow> if i = Suc m then Some (ps ! i) else None)"
    "l = seq_entries ps (case is of [] \<Rightarrow> [] | i # js \<Rightarrow> if i = Suc m then js else i # js)"
    "(is = [] \<or> hd is \<noteq> Suc m) \<Longrightarrow> b = (is \<noteq> [])"
    using n[unfolded next_entries[OF chain(1) m w]] by (auto simp: seq_entries_def split: list.splits if_splits)
  have "seq_done ps s0 (Suc m) (case is of [] \<Rightarrow> [] | i # js \<Rightarrow> if i = Suc m then js else i # js)
      (s2\<lparr>ud_seq := ?seq, ud_bySeqTimer := b, ud_bySeq := l\<rparr>)"
    using d f x(2) m by (simp add: seq_done_def take_Suc_conv_app_nth)
  then show ?thesis using that[of "s2\<lparr>ud_seq := ?seq, ud_bySeqTimer := b, ud_bySeq := l\<rparr>"] r x by simp
qed

lemma apply_due:
  assumes chain: "seq_chain (ud_seq s0) ps" "0 \<le> ud_seq s0" and plain: "\<forall>p \<in> set ps. \<forall>u \<in> set (packet_updates p). is_plain u"
  shows "m < length ps \<Longrightarrow> seq_done ps s0 m is s \<Longrightarrow> sorted_wrt (<) (m # is) \<Longrightarrow> \<forall>i \<in> set is. i < length ps
    \<Longrightarrow> caught_up m is = (k, rest)
    \<Longrightarrow> seq_done ps s0 k rest (applyUpdates now (ps ! m) s) \<and> ud_bySeqTimer (applyUpdates now (ps ! m) s) = (rest \<noteq> [])"
proof (induction m "is" arbitrary: s rule: caught_up.induct)
  case (1 m)
  obtain s2 where "set_fields 0 (packet_date (ps ! m)) (ud_qts s) (seq_at (ud_seq s0) ps (Suc m)) (fed_applied (packet_fed (ps ! m)) s) = (None, s2)"
    "seq_done ps s0 (Suc m) [] s2" "ud_bySeqTimer s2 = False"
    by (rule set_done[OF chain 1(1,2,3,4), of "packet_date (ps ! m)"]) simp
  then show ?case using 1 take_due[OF chain 1(1,2) plain, of now]
    by (simp add: applyUpdates.simps[of now "ps ! m" s]) (simp add: fed_applied_def)
next
  case (2 m i "is")
  have t: "take_packet now (ps ! m) s = (Some (packet_date (ps ! m), seq_at (ud_seq s0) ps (Suc m)), fed_applied (packet_fed (ps ! m)) s)"
    by (rule take_due[OF chain 2(2,3) plain])
  have q: "ud_qts (fed_applied us s) = ud_qts s" for us by (simp add: fed_applied_def)
  obtain s2 where s2: "set_fields 0 (packet_date (ps ! m)) (ud_qts s) (seq_at (ud_seq s0) ps (Suc m)) (fed_applied (packet_fed (ps ! m)) s)
      = (if i = Suc m then Some (ps ! i) else None, s2)"
    "seq_done ps s0 (Suc m) (if i = Suc m then is else i # is) s2" "i \<noteq> Suc m \<Longrightarrow> ud_bySeqTimer s2"
    by (rule set_done[OF chain 2(2,3,4,5), of "packet_date (ps ! m)"]) simp
  show ?case
  proof (cases "i = Suc m")
    case True
    have "applyUpdates now (ps ! m) s = applyUpdates now (ps ! i) s2"
      using t s2(1) True by (simp add: applyUpdates.simps[of now "ps ! m" s] q)
    moreover have "seq_done ps s0 k rest (applyUpdates now (ps ! i) s2) \<and> ud_bySeqTimer (applyUpdates now (ps ! i) s2) = (rest \<noteq> [])"
      using 2 s2(2) True by simp
    ultimately show ?thesis by simp
  next
    case False
    then show ?thesis using t s2 2(6) by (auto simp: applyUpdates.simps[of now "ps ! m" s] q)
  qed
qed

text \<open>A packet whose place is passed, or that has to wait.\<close>

lemma apply_old:
  assumes "seq_chain (ud_seq s0) ps" and "0 \<le> ud_seq s0" and "seq_done ps s0 m is s" and "i < m" and "m \<le> length ps"
  shows "applyUpdates now (ps ! i) s = s"
proof -
  have i: "i < length ps" using assms(4,5) by simp
  have "packet_start (ps ! i) = seq_at (ud_seq s0) ps i + 1" "0 \<le> seq_at (ud_seq s0) ps i"
    using seq_chain_nth[OF assms(1) i] seq_at_nonneg[OF assms(1,2), of i] i by simp_all
  moreover have "packet_start (ps ! i) \<le> ud_seq s" using start_le_seq[OF assms(1,4,5)] assms(3) by (simp add: seq_done_def)
  ultimately show ?thesis by (simp add: applyUpdates.simps[of now "ps ! i" s] take_numbered)
qed

fun put_place :: "nat \<Rightarrow> nat list \<Rightarrow> nat list" where
  "put_place i [] = [i]"
| "put_place i (j # is) = (if i < j then i # j # is else if i = j then j # is else j # put_place i is)"

lemma put_place: "set (put_place i is) = insert i (set is)"
  by (induction i "is" rule: put_place.induct) auto

lemma sorted_put_place: "sorted_wrt (<) is \<Longrightarrow> sorted_wrt (<) (put_place i is)"
  by (induction i "is" rule: put_place.induct) (auto simp: put_place)

lemma emplace_entries:
  assumes "seq_chain n ps" and "i < length ps" and "\<forall>j \<in> set is. j < length ps"
  shows "fm_emplace (packet_start (ps ! i)) (ps ! i) (seq_entries ps is) = seq_entries ps (put_place i is)"
  using assms(2,3)
proof (induction i "is" rule: put_place.induct)
  case (2 i j "is")
  then have "i < j \<Longrightarrow> packet_start (ps ! i) < packet_start (ps ! j)" "j < i \<Longrightarrow> packet_start (ps ! j) < packet_start (ps ! i)"
    using start_less[OF assms(1)] by auto
  then show ?case using 2 by (cases i j rule: linorder_cases) (simp_all add: seq_entries_def)
qed (simp add: seq_entries_def)

lemma apply_waits:
  assumes "seq_chain (ud_seq s0) ps" and "0 \<le> ud_seq s0" and "seq_done ps s0 m is s" and "m < i" and "i < length ps"
    and "\<forall>j \<in> set is. j < length ps"
  shows "seq_done ps s0 m (put_place i is) (applyUpdates now (ps ! i) s) \<and> ud_bySeqTimer (applyUpdates now (ps ! i) s)"
proof -
  have "packet_start (ps ! i) = seq_at (ud_seq s0) ps i + 1" "0 \<le> seq_at (ud_seq s0) ps i"
    using seq_chain_nth[OF assms(1,5)] seq_at_nonneg[OF assms(1,2), of i] assms(5) by simp_all
  moreover have "ud_seq s + 1 < packet_start (ps ! i)" using start_after_seq[OF assms(1,4,5)] assms(3) by (simp add: seq_done_def)
  ultimately have "applyUpdates now (ps ! i) s
      = s\<lparr>ud_bySeq := fm_emplace (packet_start (ps ! i)) (ps ! i) (ud_bySeq s), ud_bySeqTimer := True\<rparr>"
    by (simp add: applyUpdates.simps[of now "ps ! i" s] take_numbered)
  then show ?thesis using assms(3) emplace_entries[OF assms(1,5,6)] by (simp add: seq_done_def)
qed

subsection \<open>Packets in any order\<close>

text \<open>The packets at the places \<open>A\<close> have come; \<open>m\<close> is the first place that has not.\<close>

definition seq_inv :: "'a packet list \<Rightarrow> 'a updates_state \<Rightarrow> nat set \<Rightarrow> nat \<Rightarrow> 'a updates_state \<Rightarrow> bool" where
  "seq_inv ps s0 A m s \<longleftrightarrow> m \<notin> A \<and> {..<m} \<subseteq> A \<and> A \<subseteq> {..<length ps}
     \<and> (\<exists>is. seq_done ps s0 m is s \<and> sorted_wrt (<) is \<and> set is = {i \<in> A. m < i} \<and> ud_bySeqTimer s = (is \<noteq> []))"

lemma seq_inv_step:
  assumes chain: "seq_chain (ud_seq s0) ps" "0 \<le> ud_seq s0" and quiet: "\<not> requestingDifference s0"
    and plain: "\<forall>p \<in> set ps. \<forall>u \<in> set (packet_updates p). is_plain u"
    and inv: "seq_inv ps s0 A m s" and i: "i < length ps"
  shows "\<exists>k. seq_inv ps s0 (insert i A) k (mtpUpdateReceived now False (ps ! i) s)"
proof -
  let ?s = "s\<lparr>ud_lastUpdateTime := now, ud_noUpdatesTimer := True\<rparr>"
  obtain "is" where d: "seq_done ps s0 m is s" and w: "sorted_wrt (<) is" "set is = {i \<in> A. m < i}" "ud_bySeqTimer s = (is \<noteq> [])"
    and A: "m \<notin> A" "{..<m} \<subseteq> A" "A \<subseteq> {..<length ps}"
    using inv by (auto simp: seq_inv_def)
  have d': "seq_done ps s0 m is ?s" using d by (simp add: seq_done_def)
  have "\<not> requestingDifference ?s" using d quiet by (simp add: requestingDifference_def seq_done_def)
  then have r: "mtpUpdateReceived now False (ps ! i) s = applyUpdates now (ps ! i) ?s" by (simp add: mtpUpdateReceived_def Let_def)
  have m: "m \<le> length ps" using A by (metis lessThan_subset_iff order_trans)
  have l: "\<forall>j \<in> set is. j < length ps" using w(2) A(3) by auto
  consider "i < m" | "i = m" | "m < i" by linarith
  then show ?thesis
  proof cases
    case 1
    then have "insert i A = A" using A(2) by auto
    moreover have "applyUpdates now (ps ! i) ?s = ?s" by (rule apply_old[OF chain d' 1 m])
    ultimately show ?thesis using A w d' r unfolding seq_inv_def by auto
  next
    case 2
    obtain k rest where c: "caught_up m is = (k, rest)" by (cases "caught_up m is")
    have s: "sorted_wrt (<) (m # is)" using w(1,2) by simp
    note k = caught_up_spec[OF s c]
    have a: "seq_done ps s0 k rest (applyUpdates now (ps ! i) ?s) \<and> ud_bySeqTimer (applyUpdates now (ps ! i) ?s) = (rest \<noteq> [])"
      using apply_due[OF chain plain _ d' s l c] 2 i by simp
    have "k \<notin> insert i A" using k w(2) 2 by auto
    moreover have "{..<k} \<subseteq> insert i A"
    proof
      fix j assume "j \<in> {..<k}"
      then show "j \<in> insert i A" using k w(2) 2 A(2) by (cases j m rule: linorder_cases) auto
    qed
    moreover have "set rest = {j \<in> insert i A. k < j}" using k w(2) 2 by auto
    ultimately show ?thesis using a k r A(3) i unfolding seq_inv_def by auto
  next
    case 3
    have a: "seq_done ps s0 m (put_place i is) (applyUpdates now (ps ! i) ?s)" "ud_bySeqTimer (applyUpdates now (ps ! i) ?s)"
      using apply_waits[OF chain d' 3 i l] by auto
    have "put_place i is \<noteq> []" using put_place[of i "is"] by auto
    moreover have "set (put_place i is) = {j \<in> insert i A. m < j}" using put_place[of i "is"] w(2) 3 by auto
    moreover have "sorted_wrt (<) (put_place i is)" by (rule sorted_put_place[OF w(1)])
    ultimately show ?thesis using a r A 3 i unfolding seq_inv_def by (intro exI[of _ m]) auto
  qed
qed

lemma seq_inv_steps:
  assumes chain: "seq_chain (ud_seq s0) ps" "0 \<le> ud_seq s0" and quiet: "\<not> requestingDifference s0"
    and plain: "\<forall>p \<in> set ps. \<forall>u \<in> set (packet_updates p). is_plain u"
  shows "seq_inv ps s0 A m s \<Longrightarrow> \<forall>(now, i) \<in> set arrivals. i < length ps
    \<Longrightarrow> \<exists>k. seq_inv ps s0 (A \<union> snd ` set arrivals) k (fold (\<lambda>(now, i). mtpUpdateReceived now False (ps ! i)) arrivals s)"
proof (induction arrivals arbitrary: A m s)
  case Nil
  then show ?case by auto
next
  case (Cons a arrivals)
  obtain now i where a: "a = (now, i)" by (cases a)
  obtain k where "seq_inv ps s0 (insert i A) k (mtpUpdateReceived now False (ps ! i) s)"
    using seq_inv_step[OF chain quiet plain Cons.prems(1), of i now] Cons.prems(2) a by auto
  from Cons.IH[OF this] Cons.prems(2) show ?case by (simp add: a)
qed

text \<open>
  C7: Packets whose updates are all plain (\<open>is_plain\<close>: no pts, and nothing that looks at the state of a channel) and whose
  seq carry on from the account's and from each other may arrive in any order and more than once, when no packet
  waits yet and no difference is asked for: the updates of those before the first one missing are fed and applied,
  each once and in the order of the seq, the others wait in that order with the timer set, and no difference is
  requested. (What updates with a pts do, in any order, is stated for \<open>PtsWaiter\<close>.)
\<close>

theorem updates_in_seq_order:
  assumes "seq_chain (ud_seq s) ps" and "0 \<le> ud_seq s" and "\<not> requestingDifference s" and "ud_bySeq s = []" and "\<not> ud_bySeqTimer s"
    and "\<forall>p \<in> set ps. \<forall>u \<in> set (packet_updates p). is_plain u"
    and "\<forall>(now, i) \<in> set arrivals. i < length ps" and "m \<notin> snd ` set arrivals" and "{..<m} \<subseteq> snd ` set arrivals"
  shows "let s1 = fold (\<lambda>(now, i). mtpUpdateReceived now False (ps ! i)) arrivals s; us = concat (map packet_fed (take m ps))
    in ud_fed s1 = ud_fed s @ us \<and> ud_applied s1 = ud_applied s @ map (\<lambda>u. AppliedUpdate (Some u)) us
      \<and> ud_seq s1 = seq_at (ud_seq s) ps m
      \<and> map snd (ud_bySeq s1) = map (\<lambda>i. ps ! i) (filter (\<lambda>i. i \<in> snd ` set arrivals) [m..<length ps])
      \<and> ud_bySeqTimer s1 = (ud_bySeq s1 \<noteq> []) \<and> ud_requests s1 = ud_requests s"
proof -
  let ?A = "snd ` set arrivals"
  let ?s1 = "fold (\<lambda>(now, i). mtpUpdateReceived now False (ps ! i)) arrivals s"
  have "seq_inv ps s {} 0 s" using assms(4,5) by (simp add: seq_inv_def seq_done_def seq_entries_def)
  from seq_inv_steps[OF assms(1,2,3,6) this assms(7)] obtain k where k: "seq_inv ps s ?A k ?s1" by auto
  then obtain "is" where d: "seq_done ps s k is ?s1" and w: "sorted_wrt (<) is" "set is = {i \<in> ?A. k < i}" "ud_bySeqTimer ?s1 = (is \<noteq> [])"
    and A: "k \<notin> ?A" "{..<k} \<subseteq> ?A" "?A \<subseteq> {..<length ps}"
    by (auto simp: seq_inv_def)
  have km: "k = m" using A(1,2) assms(8,9) by (metis lessThan_iff linorder_neqE_nat subsetD)
  let ?f = "filter (\<lambda>i. i \<in> ?A) [m..<length ps]"
  have "sorted_wrt (<) ?f" by (rule sorted_wrt_filter) (simp add: sorted_wrt_upt)
  moreover have "set ?f = set is" using w(2) A(1,3) km by (auto simp: order_le_less)
  ultimately have "is = ?f"
    using w(1) strict_sorted_equal by blast
  then have "map snd (ud_bySeq ?s1) = map (\<lambda>i. ps ! i) ?f" "ud_bySeq ?s1 = [] \<longleftrightarrow> is = []"
    using d by (auto simp: seq_done_def seq_entries_def comp_def)
  then show ?thesis using d w(3) km unfolding seq_done_def Let_def by simp
qed

definition two_packets :: "nat packet list" where
  "two_packets = [PacketUpdates 9 100 [PlainUpdate 1, GroupCallUpdate 2], PacketCombined 10 12 101 [PlainUpdate 3], PacketUpdates 13 102 [PlainUpdate 4],
     PacketUpdates 14 103 [PlainUpdate 5]]"

definition ready_state :: "nat updates_state" where
  "ready_state = stateDone 10 5 6 7 8 (new_updates_state (\<lambda>_. None))"

lemma updates_in_seq_order_witness:
  "ud_fed (fold (\<lambda>(now, i). mtpUpdateReceived now False (two_packets ! i)) [(20, 3), (30, 1), (40, 1), (50, 0)] ready_state)
     = [GroupCallUpdate 2, PlainUpdate 1, PlainUpdate 3]
   \<and> map snd (ud_bySeq (fold (\<lambda>(now, i). mtpUpdateReceived now False (two_packets ! i)) [(20, 3), (30, 1), (40, 1), (50, 0)] ready_state))
     = [PacketUpdates 14 103 [PlainUpdate 5]]"
proof -
  have h: "seq_chain (ud_seq ready_state) two_packets" "0 \<le> ud_seq ready_state" "\<not> requestingDifference ready_state" "ud_bySeq ready_state = []"
    "\<not> ud_bySeqTimer ready_state" "\<forall>p \<in> set two_packets. \<forall>u \<in> set (packet_updates p). is_plain u" "ud_fed ready_state = []"
    by code_simp+
  have v: "concat (map packet_fed (take 2 two_packets)) = [GroupCallUpdate 2, PlainUpdate 1, PlainUpdate 3]"
    "map (\<lambda>i. two_packets ! i) (filter (\<lambda>i. i \<in> snd ` set [(20 :: int, 3 :: nat), (30, 1), (40, 1), (50, 0)]) [2..<length two_packets])
      = [PacketUpdates 14 103 [PlainUpdate 5]]"
    by code_simp+
  have a: "\<forall>(now, i) \<in> set [(20 :: int, 3 :: nat), (30, 1), (40, 1), (50, 0)]. i < length two_packets"
    "(2 :: nat) \<notin> snd ` set [(20 :: int, 3 :: nat), (30, 1), (40, 1), (50, 0)]"
    "{..<2} \<subseteq> snd ` set [(20 :: int, 3 :: nat), (30, 1), (40, 1), (50, 0)]"
    by (simp add: two_packets_def, simp, auto)
  from updates_in_seq_order[OF h(1-6) a] show ?thesis unfolding Let_def h(7) v append_Nil by blast
qed

end
