(* ===== verification/UpdatesCycle.thy ===== *)
theory UpdatesCycle
  imports UpdatesState
begin

text \<open>
  How an account asks the server for what it missed (\<open>api/api_updates.cpp\<close>): the requests sent, the replies to
  them and the timers, as a transition system on the states of \<open>UpdatesState\<close>, with what its reachable states
  satisfy.
\<close>

subsection \<open>The cycle of requests\<close>

text \<open>
  The account is idle, has asked and waits for the reply, waits after a failure for the time to ask again, or (after
  a difference that was too long) does none of these. \<open>n\<close> is the number of requests not answered.
\<close>

datatype diff_phase = Idle | Asked | Failed | Lost

fun in_phase :: "diff_phase \<Rightarrow> nat \<Rightarrow> 'a updates_state \<Rightarrow> bool" where
  "in_phase Idle n s \<longleftrightarrow> n = 0 \<and> \<not> requestingDifference s \<and> ud_timeAfterFail s = 0"
| "in_phase Asked n s \<longleftrightarrow> n = 1 \<and> requestingDifference s \<and> ud_timeAfterFail s = 0"
| "in_phase Failed n s \<longleftrightarrow> n = 0 \<and> requestingDifference s \<and> ud_timeAfterFail s \<noteq> 0
     \<and> (\<exists>t. ud_failTimer s = Some t \<and> t \<le> ud_timeAfterFail s)"
| "in_phase Lost n s \<longleftrightarrow> n = 0 \<and> requestingDifference s \<and> ud_timeAfterFail s = 0"

definition cycle_ok :: "diff_phase \<Rightarrow> nat \<Rightarrow> 'a updates_state \<Rightarrow> bool" where
  "cycle_ok p answered s \<longleftrightarrow> answered \<le> length (mains s) \<and> in_phase p (length (mains s) - answered) s
     \<and> ud_failTimeout s \<in> {1, 2, 4, 8, 16, 32, 64}"

text \<open>What the steps do to the account and to a channel apart.\<close>

definition main_once :: "'a updates_state \<Rightarrow> 'a updates_state \<Rightarrow> bool" where
  "main_once s s1 \<longleftrightarrow> ud_failTimer s1 = ud_failTimer s \<and> ud_failTimeout s1 = ud_failTimeout s
     \<and> (requestingDifference s1 = requestingDifference s \<and> mains s1 = mains s \<and> ud_timeAfterFail s1 = ud_timeAfterFail s
        \<or> \<not> requestingDifference s \<and> requestingDifference s1 \<and> (\<exists>r. mains s1 = mains s @ [r]) \<and> ud_timeAfterFail s1 = 0)"

definition channel_kept :: "nat \<Rightarrow> 'a updates_state \<Rightarrow> 'a updates_state \<Rightarrow> bool" where
  "channel_kept ch s s1 \<longleftrightarrow>
     (channel_requesting ch s \<longrightarrow> channel_requesting ch s1 \<and> channel_asks ch s1 = channel_asks ch s)"

lemma asks_once_main: "asks_once s s1 \<Longrightarrow> ud_failTimeout s1 = ud_failTimeout s \<Longrightarrow> main_once s s1"
  by (auto simp: asks_once_def main_once_def)

lemma asks_once_kept: "asks_once s s1 \<Longrightarrow> channel_kept ch s s1"
  by (simp add: asks_once_def channel_kept_def)

lemma main_once_trans: "main_once s s1 \<Longrightarrow> main_once s1 s2 \<Longrightarrow> main_once s s2"
  unfolding main_once_def by auto

lemma main_once_cong:
  "ud_waiter s1 = ud_waiter s \<Longrightarrow> ud_requests s1 = ud_requests s \<Longrightarrow> ud_failTimeout s1 = ud_failTimeout s
    \<Longrightarrow> ud_failTimer s1 = ud_failTimer s \<Longrightarrow> ud_timeAfterFail s1 = ud_timeAfterFail s \<Longrightarrow> main_once s s1"
  by (simp add: main_once_def mains_def requestingDifference_def)

lemma channel_kept_trans: "channel_kept ch s s1 \<Longrightarrow> channel_kept ch s1 s2 \<Longrightarrow> channel_kept ch s s2"
  by (simp add: channel_kept_def)

lemma channel_kept_cong:
  "ud_channels s1 ch = ud_channels s ch \<Longrightarrow> ud_requests s1 = ud_requests s \<Longrightarrow> channel_kept ch s s1"
  by (simp add: channel_kept_def channel_asks_def channel_requesting_def)

lemma main_once_cycle:
  assumes "main_once s s1" and "cycle_ok p a s"
  shows "\<exists>p1. cycle_ok p1 a s1 \<and> (p1 = p \<or> p = Idle \<and> p1 = Asked)"
proof -
  consider (same) "requestingDifference s1 = requestingDifference s" "mains s1 = mains s" "ud_timeAfterFail s1 = ud_timeAfterFail s"
    | (asked) r where "\<not> requestingDifference s" "requestingDifference s1" "mains s1 = mains s @ [r]" "ud_timeAfterFail s1 = 0"
    using assms(1) by (auto simp: main_once_def)
  then show ?thesis
  proof cases
    case same
    then have "cycle_ok p a s1" using assms by (cases p) (auto simp: cycle_ok_def main_once_def)
    then show ?thesis by blast
  next
    case asked
    then have "p = Idle" using assms(2) by (cases p) (auto simp: cycle_ok_def)
    moreover have "cycle_ok Asked a s1"
      using assms asked \<open>p = Idle\<close> unfolding cycle_ok_def main_once_def by (simp add: Suc_diff_le)
    ultimately show ?thesis by blast
  qed
qed

text \<open>The growing timeout is changed only by failures and replies.\<close>

lemma failTimeout_simps [simp]:
  "ud_failTimeout (getDifference s) = ud_failTimeout s" "ud_failTimeout (getChannelDifference ch source s) = ud_failTimeout s"
  "ud_failTimeout (upd_apply x s) = ud_failTimeout s" "ud_failTimeout (upd_request r s) = ud_failTimeout s"
  by (auto simp: getDifference_def getChannelDifference_def Let_def upd_request_def upd_apply_def split: option.split)

lemma failTimeout_due: "channels_due now source m w s = (w1, m1, s1) \<Longrightarrow> ud_failTimeout s1 = ud_failTimeout s"
  by (induction now source m w s arbitrary: w1 m1 s1 rule: channels_due.induct) (auto split: if_splits prod.splits)

lemma failTimeout_byPts [simp]: "ud_failTimeout (getDifferenceByPts now s) = ud_failTimeout s"
  by (auto simp: getDifferenceByPts_def split: prod.splits if_splits dest!: failTimeout_due)

lemma failTimeout_afterFail [simp]: "ud_failTimeout (getDifferenceAfterFail now s) = ud_failTimeout s"
  by (auto simp: getDifferenceAfterFail_def split: prod.splits if_splits dest!: failTimeout_due)

lemma failTimeout_timer [simp]: "ud_failTimeout (ptsWaiterStartTimerFor now ch ms s) = ud_failTimeout s"
  by (simp add: ptsWaiterStartTimerFor_def split: option.split)

lemma failTimeout_effect [simp]: "ud_failTimeout (handle_effect now e s) = ud_failTimeout s"
  by (cases e) simp_all

lemma failTimeout_effects [simp]: "ud_failTimeout (fold (handle_effect now) es s) = ud_failTimeout s"
  by (induction es arbitrary: s) simp_all

lemma failTimeout_waiter [simp]: "ud_failTimeout (snd (with_waiter now opn s)) = ud_failTimeout s"
  by (simp add: with_waiter_def split: prod.split)

lemma failTimeout_with_channel [simp]: "ud_failTimeout (with_channel now ch opn s) = ud_failTimeout s"
  by (simp add: with_channel_def Let_def split: option.split)

lemma failTimeout_feed [simp]: "ud_failTimeout (feedUpdate now u s) = ud_failTimeout s"
  by (cases u) (simp_all add: Let_def feed_channel_def split: option.split)

lemma failTimeout_feeds [simp]: "ud_failTimeout (fold (feedUpdate now) us s) = ud_failTimeout s"
  by (induction us arbitrary: s) (simp_all del: feedUpdate.simps)

lemma failTimeout_vector [simp]: "ud_failTimeout (feedUpdateVector now us policy s) = ud_failTimeout s"
  by (simp add: feedUpdateVector_def Let_def)

lemma failTimeout_take: "take_packet now p s = (r, s1) \<Longrightarrow> ud_failTimeout s1 = ud_failTimeout s"
proof -
  have "ud_failTimeout (snd (take_packet now p s)) = ud_failTimeout s"
  proof (cases p)
    case (ShortPacket pts cnt date loaded a)
    obtain b s1 where w: "with_waiter now (updateAndApplyMany None pts cnt p) s = (b, s1)"
      by (cases "with_waiter now (updateAndApplyMany None pts cnt p) s")
    then have "ud_failTimeout s1 = ud_failTimeout s" using failTimeout_waiter by (metis snd_conv)
    then show ?thesis using w ShortPacket by (cases loaded) (simp_all add: take_packet_def)
  qed (simp_all add: take_packet_def Let_def del: feedUpdate.simps)
  then show "take_packet now p s = (r, s1) \<Longrightarrow> ud_failTimeout s1 = ud_failTimeout s" by simp
qed

lemma failTimeout_set: "set_fields pts date qts seq s = (v, s1) \<Longrightarrow> ud_failTimeout s1 = ud_failTimeout s"
  by (auto simp: set_fields_def Let_def split: prod.splits if_splits)

lemma failTimeout_packet [simp]: "ud_failTimeout (applyUpdates now p s) = ud_failTimeout s"
proof (rule applyUpdates_rel[of "\<lambda>s s1. ud_failTimeout s1 = ud_failTimeout s"])
  show "ud_failTimeout (snd (take_packet now p s)) = ud_failTimeout s" for now p and s :: "'a updates_state"
    using failTimeout_take by (metis prod.collapse)
  show "ud_failTimeout (snd (set_fields pts date qts seq s)) = ud_failTimeout s" for pts date qts seq and s :: "'a updates_state"
    using failTimeout_set by (metis prod.collapse)
qed simp

lemma failTimeout_setState [simp]: "ud_failTimeout (setState now pts date qts seq s) = ud_failTimeout s"
  by (auto simp: setState_def split: prod.split option.split dest: failTimeout_set)


subsection \<open>The steps of the account\<close>

lemma main_once_waiter_off:
  "requestingDifference (s\<lparr>ud_waiter := setRequesting False w\<rparr>) = False"
  "mains (s\<lparr>ud_waiter := w\<rparr>) = mains s" "mains (s\<lparr>ud_failTimer := t\<rparr>) = mains s"
  "requestingDifference (s\<lparr>ud_failTimer := t\<rparr>) = requestingDifference s"
  by (simp_all add: requestingDifference_def setRequesting_def clearSkippedUpdates_def mains_def)

lemma main_once_getDifference: "main_once s (getDifference s)"
  by (rule asks_once_main[OF asks_once_getDifference]) simp

lemma main_once_setState: "main_once s (setState now pts date qts seq s)"
  by (rule asks_once_main[OF asks_once_setState]) simp

lemma main_once_with_channel: "main_once s (with_channel now ch (setWaitingForShortPoll (Some ch) ms) s)"
  by (rule asks_once_main[OF asks_once_with_channel]) (simp_all add: waiter_step_effects(2)[OF waiter_step_waiting(2)])

lemma asks_once_messages: "asks_once s (fold (\<lambda>a. upd_apply (AppliedMessage a)) msgs s)"
proof (induction msgs arbitrary: s)
  case (Cons a msgs)
  have "asks_once s (upd_apply (AppliedMessage a) s)" by (rule asks_once_cong) (simp_all add: upd_apply_def)
  then show ?case using asks_once_trans Cons by (metis fold_simps(2))
qed simp

lemma failTimeout_messages [simp]: "ud_failTimeout (fold (\<lambda>a. upd_apply (AppliedMessage a)) msgs s) = ud_failTimeout s"
  by (induction msgs arbitrary: s) simp_all

lemma asks_once_feedDifference: "asks_once s (feedDifference now msgs other s)"
  using asks_once_feeds asks_once_messages asks_once_vector
  unfolding feedDifference_def feedMessageIds_def by (blast intro: asks_once_trans)

lemma failTimeout_feedDifference [simp]: "ud_failTimeout (feedDifference now msgs other s) = ud_failTimeout s"
  by (simp add: feedDifference_def feedMessageIds_def)

lemma main_once_feedDifference: "main_once s (feedDifference now msgs other s)"
  by (rule asks_once_main[OF asks_once_feedDifference]) simp

lemma asks_once_feedChannelDifference: "asks_once s (feedChannelDifference now msgs other s)"
proof -
  let ?s1 = "s\<lparr>ud_handlingChannelDifference := True\<rparr>"
  have "asks_once s ?s1" by (rule asks_once_cong) simp_all
  moreover have "asks_once ?s1 (feedUpdateVector now other SkipMessageIds (fold (\<lambda>a. upd_apply (AppliedMessage a)) msgs
      (feedMessageIds now other ?s1)))"
    using asks_once_feeds asks_once_messages asks_once_vector unfolding feedMessageIds_def by (blast intro: asks_once_trans)
  moreover have "asks_once s2 (s2\<lparr>ud_handlingChannelDifference := False\<rparr>)" for s2 :: "'a updates_state"
    by (rule asks_once_cong) simp_all
  ultimately show ?thesis unfolding feedChannelDifference_def by (blast intro: asks_once_trans)
qed

lemma failTimeout_feedChannelDifference [simp]: "ud_failTimeout (feedChannelDifference now msgs other s) = ud_failTimeout s"
  by (simp add: feedChannelDifference_def feedMessageIds_def)

lemma due_wait: "channels_due now source m w s = (w1, m1, s1) \<Longrightarrow> w > 0 \<Longrightarrow> 0 < w1 \<and> w1 \<le> w"
proof (induction now source m w s arbitrary: w1 m1 s1 rule: channels_due.induct)
  case (2 now source ch due m wait s)
  show ?case
  proof (cases "due > now")
    case True
    obtain w2 m2 s2 where c: "channels_due now source m (min wait (due - now)) s = (w2, m2, s2)"
      by (cases "channels_due now source m (min wait (due - now)) s")
    then have "w1 = w2" using 2(3,4) True by simp
    moreover have "0 < w2 \<and> w2 \<le> min wait (due - now)" using "2.IH"(1)[OF True, of w2 m2 s2] c True 2(4) by simp
    ultimately show ?thesis by simp
  next
    case False
    then show ?thesis using 2 by simp
  qed
qed simp

definition asked_again :: "int \<Rightarrow> 'a updates_state \<Rightarrow> bool" where
  "asked_again now s \<longleftrightarrow> ud_timeAfterFail s \<noteq> 0 \<and> ud_timeAfterFail s \<le> now"

lemma afterFail_shape:
  obtains s1 w m s2 where
    "s1 = (if asked_again now s then getDifference (s\<lparr>ud_waiter := setRequesting False (ud_waiter s)\<rparr>) else s)"
    "channels_due now AfterFail (ud_whenAfterFail s1)
      (if ud_timeAfterFail s \<noteq> 0 \<and> ud_timeAfterFail s > now then ud_timeAfterFail s - now else 0) s1 = (w, m, s2)"
    "getDifferenceAfterFail now s = s2\<lparr>ud_whenAfterFail := m, ud_failTimer := (if w \<noteq> 0 then Some (now + w) else None)\<rparr>"
proof -
  define s1 where "s1 = (if asked_again now s then getDifference (s\<lparr>ud_waiter := setRequesting False (ud_waiter s)\<rparr>) else s)"
  define w0 where "w0 = (if ud_timeAfterFail s \<noteq> 0 \<and> ud_timeAfterFail s > now then ud_timeAfterFail s - now else 0)"
  obtain w m s2 where d: "channels_due now AfterFail (ud_whenAfterFail s1) w0 s1 = (w, m, s2)"
    by (cases "channels_due now AfterFail (ud_whenAfterFail s1) w0 s1")
  have "getDifferenceAfterFail now s = s2\<lparr>ud_whenAfterFail := m, ud_failTimer := (if w \<noteq> 0 then Some (now + w) else None)\<rparr>"
    using d by (auto simp: getDifferenceAfterFail_def s1_def w0_def asked_again_def split: if_splits)
  then show ?thesis using that s1_def d w0_def by blast
qed

lemma main_same_due:
  assumes "channels_due now source m w s = (w1, m1, s1)"
  shows "requestingDifference s1 = requestingDifference s \<and> mains s1 = mains s \<and> ud_timeAfterFail s1 = ud_timeAfterFail s
    \<and> ud_failTimeout s1 = ud_failTimeout s"
  using assms
proof (induction now source m w s arbitrary: w1 m1 s1 rule: channels_due.induct)
  case (2 now source ch due m wait s)
  have "requestingDifference (getChannelDifference ch source s) = requestingDifference s
    \<and> mains (getChannelDifference ch source s) = mains s
    \<and> ud_timeAfterFail (getChannelDifference ch source s) = ud_timeAfterFail s"
    by (auto simp: getChannelDifference_def Let_def upd_request_def mains_def requestingDifference_def split: option.split)
  then show ?case using 2 by (auto split: if_splits prod.splits)
qed simp

text \<open>After a failure the account waits for its time, and is asked for again when it has come.\<close>

lemma cycle_afterFail:
  assumes "cycle_ok p a (s\<lparr>ud_failTimer := t\<rparr>)"
  shows "\<exists>p1. cycle_ok p1 a (getDifferenceAfterFail now s) \<and> (p1 = p \<or> p = Failed \<and> p1 = Asked)"
    and "p = Failed \<Longrightarrow> asked_again now s \<Longrightarrow> length (mains (getDifferenceAfterFail now s)) = Suc (length (mains s))"
proof -
  obtain s1 w m s2 where s1: "s1 = (if asked_again now s then getDifference (s\<lparr>ud_waiter := setRequesting False (ud_waiter s)\<rparr>) else s)"
    and d: "channels_due now AfterFail (ud_whenAfterFail s1)
      (if ud_timeAfterFail s \<noteq> 0 \<and> ud_timeAfterFail s > now then ud_timeAfterFail s - now else 0) s1 = (w, m, s2)"
    and r: "getDifferenceAfterFail now s = s2\<lparr>ud_whenAfterFail := m, ud_failTimer := (if w \<noteq> 0 then Some (now + w) else None)\<rparr>"
    by (rule afterFail_shape)
  let ?r = "getDifferenceAfterFail now s"
  have same: "requestingDifference ?r = requestingDifference s1" "mains ?r = mains s1" "ud_timeAfterFail ?r = ud_timeAfterFail s1"
    "ud_failTimeout ?r = ud_failTimeout s1"
    using main_same_due[OF d] by (simp_all add: r requestingDifference_def mains_def)
  have ok: "a \<le> length (mains s)" "in_phase p (length (mains s) - a) (s\<lparr>ud_failTimer := t\<rparr>)"
    "ud_failTimeout s \<in> {1, 2, 4, 8, 16, 32, 64}"
    using assms by (simp_all add: cycle_ok_def main_once_waiter_off)
  have again: "p = Failed" if "asked_again now s"
    using ok(2) that by (cases p) (simp_all add: asked_again_def main_once_waiter_off)
  have new: "mains s1 = mains s @ [GetDifference (pw_good (setRequesting False (ud_waiter s))) (ud_date s) (ud_qts s)] \<and> requestingDifference s1
    \<and> ud_timeAfterFail s1 = 0 \<and> ud_failTimeout s1 = ud_failTimeout s" if "asked_again now s"
    using that by (simp add: s1 getDifference_def Let_def upd_request_def requestingDifference_def mains_def
      setRequesting_def clearSkippedUpdates_def)
  show "\<exists>p1. cycle_ok p1 a ?r \<and> (p1 = p \<or> p = Failed \<and> p1 = Asked)"
  proof (cases "asked_again now s")
    case True
    then have "cycle_ok Asked a ?r" using ok again[OF True] new[OF True] unfolding cycle_ok_def same
      by (simp add: same Suc_diff_le)
    then show ?thesis using again[OF True] by blast
  next
    case False
    have "ud_timeAfterFail s \<noteq> 0 \<Longrightarrow> 0 < w \<and> now + w \<le> ud_timeAfterFail s"
      using due_wait[OF d] False by (simp add: asked_again_def)
    then have "ud_timeAfterFail s \<noteq> 0 \<Longrightarrow> \<exists>u. ud_failTimer ?r = Some u \<and> u \<le> ud_timeAfterFail s" by (simp add: r)
    then have "cycle_ok p a ?r" using ok False unfolding cycle_ok_def same
      by (cases p) (simp_all add: same s1 main_once_waiter_off)
    then show ?thesis by blast
  qed
  show "length (mains ?r) = Suc (length (mains s))" if "p = Failed" "asked_again now s"
    using new[OF that(2)] by (simp add: same)
qed

lemma kept_afterFail: "channel_kept ch s (getDifferenceAfterFail now s)"
proof -
  obtain s1 w m s2 where s1: "s1 = (if asked_again now s then getDifference (s\<lparr>ud_waiter := setRequesting False (ud_waiter s)\<rparr>) else s)"
    and d: "channels_due now AfterFail (ud_whenAfterFail s1)
      (if ud_timeAfterFail s \<noteq> 0 \<and> ud_timeAfterFail s > now then ud_timeAfterFail s - now else 0) s1 = (w, m, s2)"
    and r: "getDifferenceAfterFail now s = s2\<lparr>ud_whenAfterFail := m, ud_failTimer := (if w \<noteq> 0 then Some (now + w) else None)\<rparr>"
    by (rule afterFail_shape)
  have "channel_kept ch s (s\<lparr>ud_waiter := setRequesting False (ud_waiter s)\<rparr>)" by (rule channel_kept_cong) simp_all
  then have "channel_kept ch s (getDifference (s\<lparr>ud_waiter := setRequesting False (ud_waiter s)\<rparr>))"
    using asks_once_kept[OF asks_once_getDifference] by (rule channel_kept_trans)
  then have "channel_kept ch s s1" by (simp add: s1 channel_kept_cong)
  moreover have "channel_kept ch s1 s2" by (rule asks_once_kept[OF asks_once_due[OF d]])
  moreover have "channel_kept ch s2 (getDifferenceAfterFail now s)" unfolding r by (rule channel_kept_cong) simp_all
  ultimately show ?thesis by (blast intro: channel_kept_trans)
qed

lemma asks_once_group: "asks_once s (applyGroupCallParticipantUpdates now p s)"
  by (cases p) (simp_all add: asks_once_vector asks_once_feed del: feedUpdate.simps)

lemma failTimeout_group [simp]: "ud_failTimeout (applyGroupCallParticipantUpdates now p s) = ud_failTimeout s"
  by (cases p) (simp_all del: feedUpdate.simps)

lemma asks_once_received: "asks_once s (mtpUpdateReceived now forceLogout p s)"
proof -
  have "asks_once s (s\<lparr>ud_lastUpdateTime := now, ud_noUpdatesTimer := True\<rparr>)" by (rule asks_once_cong) simp_all
  then show ?thesis using asks_once_trans asks_once_packet asks_once_group
    unfolding mtpUpdateReceived_def Let_def by (simp split: if_split) blast
qed

lemma failTimeout_received [simp]: "ud_failTimeout (mtpUpdateReceived now forceLogout p s) = ud_failTimeout s"
  by (simp add: mtpUpdateReceived_def Let_def)

fun is_reply :: "'a upd_event \<Rightarrow> bool" where
  "is_reply (UpdStateDone pts date qts seq) \<longleftrightarrow> True"
| "is_reply (UpdDifferenceDone d) \<longleftrightarrow> True"
| "is_reply UpdDifferenceFail \<longleftrightarrow> True"
| "is_reply e \<longleftrightarrow> False"

fun of_channel :: "'a upd_event \<Rightarrow> bool" where
  "of_channel (UpdChannelDone ch diff isFinal timeout) \<longleftrightarrow> True"
| "of_channel (UpdChannelFail ch) \<longleftrightarrow> True"
| "of_channel e \<longleftrightarrow> False"

lemma asks_once_step:
  assumes "\<not> is_reply e" and "\<not> of_channel e" and "e \<noteq> UpdFailTimer"
  shows "asks_once s (upd_step (now, e) s) \<and> ud_failTimeout (upd_step (now, e) s) = ud_failTimeout s"
proof -
  have c: "asks_once s (s\<lparr>ud_seq := 0\<rparr>)" "asks_once s (s\<lparr>ud_bySeqTimer := False\<rparr>)" "asks_once s (s\<lparr>ud_byPtsTimer := None\<rparr>)"
    "asks_once s (s\<lparr>ud_byMinChannelTimer := False\<rparr>)" "\<And>chats. asks_once s (s\<lparr>ud_activeChats := chats\<rparr>)"
    by (rule asks_once_cong; simp)+
  have ping: "asks_once s (sendPing (s\<lparr>ud_noUpdatesTimer := False\<rparr>))" "asks_once s (sendPing (s\<lparr>ud_lastUpdateTime := now\<rparr>))"
    by (simp_all add: sendPing_def upd_request_def asks_once_def mains_def channel_asks_def channel_requesting_def requestingDifference_def)
  have poll: "asks_once s1 (with_channel now ch (setWaitingForShortPoll (Some ch) ms) s1)" for ch ms and s1 :: "'a updates_state"
    by (rule asks_once_with_channel) (simp_all add: waiter_step_effects(2)[OF waiter_step_waiting(2)])
  have t: "asks_once s (getDifference (s\<lparr>ud_seq := 0\<rparr>))" "asks_once s (getDifference (s\<lparr>ud_bySeqTimer := False\<rparr>))"
    "asks_once s (getDifference (s\<lparr>ud_byMinChannelTimer := False\<rparr>))" "asks_once s (getDifferenceByPts now (s\<lparr>ud_byPtsTimer := None\<rparr>))"
    by (rule asks_once_trans[OF c(1) asks_once_getDifference] asks_once_trans[OF c(2) asks_once_getDifference]
        asks_once_trans[OF c(4) asks_once_getDifference] asks_once_trans[OF c(3) asks_once_byPts])+
  have chat: "asks_once s (with_channel now ch (setWaitingForShortPoll (Some ch) kWaitForChannelGetDifference)
      (s\<lparr>ud_activeChats := insert ch (ud_activeChats s)\<rparr>))" for ch
    by (rule asks_once_trans[OF c(5) poll])
  have f: "ud_failTimeout (sendPing s1) = ud_failTimeout s1" for s1 :: "'a updates_state" by (simp add: sendPing_def)
  show ?thesis using assms
    by (cases e) (simp_all add: asks_once_received mtpNewSessionCreated_def checkLastUpdate_def Let_def t chat ping f
        split: option.split)
qed

text \<open>The reply of a channel: its \<open>PtsWaiter\<close> is changed, that of the account is not.\<close>

lemma asks_once_ptsInit: "asks_once s (ptsInit ch pts s)"
  by (auto simp: asks_once_def ptsInit_def mains_def channel_asks_def requestingDifference_def channel_requesting_def
      pts_init_def clearSkippedUpdates_def)

lemma failTimeout_ptsInit [simp]: "ud_failTimeout (ptsInit ch pts s) = ud_failTimeout s"
  by (simp add: ptsInit_def)

lemma channel_done_shape:
  obtains s1 where "asks_once s s1" "ud_failTimeout s1 = ud_failTimeout s"
    "channelDifferenceDone now ch diff isFinal timeout s
     = (let s2 = s1\<lparr>ud_channels := (ud_channels s1)(ch := map_option (setRequesting False) (ud_channels s1 ch))\<rparr>
      in if \<not> isFinal then getChannelDifference ch FromUnknown s2
         else if ch \<in> ud_activeChats s2
         then with_channel now ch (setWaitingForShortPoll (Some ch) (if timeout \<noteq> 0 then timeout * 1000 else kWaitForChannelGetDifference)) s2
         else s2)"
proof -
  define s0 where "s0 = s\<lparr>ud_channelFailTimeout := fm_erase ch (ud_channelFailTimeout s)\<rparr>"
  have 0: "asks_once s s0" "ud_failTimeout s0 = ud_failTimeout s"
    unfolding s0_def by (rule asks_once_cong; simp) simp
  define s1 where "s1 = (case diff of
              ChannelDifferenceEmpty pts \<Rightarrow> ptsInit ch pts s0
            | ChannelDifferenceTooLong pts msgs \<Rightarrow>
                fold (\<lambda>a. upd_apply (AppliedMessage a)) msgs (case pts of None \<Rightarrow> s0 | Some n \<Rightarrow> ptsInit ch n s0)
            | ChannelDifference pts msgs other \<Rightarrow> ptsInit ch pts (feedChannelDifference now msgs other s0))"
  have "asks_once s0 s1"
    unfolding s1_def
    by (cases diff) (auto simp: asks_once_ptsInit asks_once_messages split: option.split
        intro: asks_once_trans[OF asks_once_ptsInit asks_once_messages] asks_once_trans[OF asks_once_feedChannelDifference asks_once_ptsInit])
  then have 1: "asks_once s s1" by (rule asks_once_trans[OF 0(1)])
  have 2: "ud_failTimeout s1 = ud_failTimeout s"
    unfolding s1_def 0(2)[symmetric] by (cases diff) (simp_all split: option.split)
  show ?thesis
    by (rule that[OF 1 2], unfold channelDifferenceDone_def Let_def s1_def s0_def) (rule refl)
qed

lemma main_once_channel_done: "main_once s (channelDifferenceDone now ch diff isFinal timeout s)"
proof -
  obtain s1 where s1: "asks_once s s1" "ud_failTimeout s1 = ud_failTimeout s"
    and r: "channelDifferenceDone now ch diff isFinal timeout s
     = (let s2 = s1\<lparr>ud_channels := (ud_channels s1)(ch := map_option (setRequesting False) (ud_channels s1 ch))\<rparr>
      in if \<not> isFinal then getChannelDifference ch FromUnknown s2
         else if ch \<in> ud_activeChats s2
         then with_channel now ch (setWaitingForShortPoll (Some ch) (if timeout \<noteq> 0 then timeout * 1000 else kWaitForChannelGetDifference)) s2
         else s2)"
    by (rule channel_done_shape)
  let ?s2 = "s1\<lparr>ud_channels := (ud_channels s1)(ch := map_option (setRequesting False) (ud_channels s1 ch))\<rparr>"
  have "main_once s s1" by (rule asks_once_main[OF s1])
  moreover have "main_once s1 ?s2" by (rule main_once_cong) simp_all
  ultimately have 2: "main_once s ?s2" by (rule main_once_trans)
  have "main_once ?s2 (getChannelDifference ch FromUnknown ?s2)" by (rule asks_once_main[OF asks_once_channel]) simp
  then show ?thesis
    unfolding r Let_def using 2 main_once_trans main_once_with_channel by (simp split: if_split) blast
qed

lemma kept_channel_done: "c \<noteq> ch \<Longrightarrow> channel_kept c s (channelDifferenceDone now ch diff isFinal timeout s)"
proof -
  assume ne: "c \<noteq> ch"
  obtain s1 where s1: "asks_once s s1" "ud_failTimeout s1 = ud_failTimeout s"
    and r: "channelDifferenceDone now ch diff isFinal timeout s
     = (let s2 = s1\<lparr>ud_channels := (ud_channels s1)(ch := map_option (setRequesting False) (ud_channels s1 ch))\<rparr>
      in if \<not> isFinal then getChannelDifference ch FromUnknown s2
         else if ch \<in> ud_activeChats s2
         then with_channel now ch (setWaitingForShortPoll (Some ch) (if timeout \<noteq> 0 then timeout * 1000 else kWaitForChannelGetDifference)) s2
         else s2)"
    by (rule channel_done_shape)
  let ?s2 = "s1\<lparr>ud_channels := (ud_channels s1)(ch := map_option (setRequesting False) (ud_channels s1 ch))\<rparr>"
  have "channel_kept c s s1" by (rule asks_once_kept[OF s1(1)])
  moreover have "channel_kept c s1 ?s2" using ne by (intro channel_kept_cong) simp_all
  ultimately have 2: "channel_kept c s ?s2" by (rule channel_kept_trans)
  have "asks_once ?s2 (with_channel now ch (setWaitingForShortPoll (Some ch) ms) ?s2)" for ms
    by (rule asks_once_with_channel) (simp_all add: waiter_step_effects(2)[OF waiter_step_waiting(2)])
  then have "channel_kept c ?s2 (with_channel now ch (setWaitingForShortPoll (Some ch) ms) ?s2)" for ms by (rule asks_once_kept)
  moreover have "channel_kept c ?s2 (getChannelDifference ch FromUnknown ?s2)" by (rule asks_once_kept[OF asks_once_channel])
  ultimately show ?thesis
    unfolding r Let_def using 2 channel_kept_trans[OF 2] by (simp split: if_split)
qed

lemma cycle_ok_cong:
  "ud_waiter s1 = ud_waiter s \<Longrightarrow> ud_requests s1 = ud_requests s \<Longrightarrow> ud_failTimeout s1 = ud_failTimeout s
    \<Longrightarrow> ud_failTimer s1 = ud_failTimer s \<Longrightarrow> ud_timeAfterFail s1 = ud_timeAfterFail s \<Longrightarrow> cycle_ok p a s1 = cycle_ok p a s"
  by (cases p) (simp_all add: cycle_ok_def mains_def requestingDifference_def)

text \<open>What follows the failure of a channel: its time to ask again is set, and what is due is asked for.\<close>

lemma cycle_channel_fail:
  assumes "cycle_ok p a s"
  shows "\<exists>p1. cycle_ok p1 a (channelDifferenceFail now ch s) \<and> (p1 = p \<or> p = Failed \<and> p1 = Asked)"
proof -
  define timeout where "timeout = (case fm_lookup (ud_channelFailTimeout s) ch of None \<Rightarrow> 1 | Some t \<Rightarrow> t)"
  define s0 where "s0 = s\<lparr>ud_channelFailTimeout := fm_set ch timeout (ud_channelFailTimeout s)\<rparr>"
  define s1 where "s1 = (case when_changed now ch (timeout * 1000) (ud_whenAfterFail s0) of
                None \<Rightarrow> s0 | Some m \<Rightarrow> getDifferenceAfterFail now (s0\<lparr>ud_whenAfterFail := m\<rparr>))"
  have r: "channelDifferenceFail now ch s
      = (if timeout < 64 then s1\<lparr>ud_channelFailTimeout := fm_set ch (timeout * 2) (ud_channelFailTimeout s1)\<rparr> else s1)"
    unfolding channelDifferenceFail_def failDifferenceStartTimerFor_def Let_def option.case timeout_def s0_def s1_def by (rule refl)
  have 0: "cycle_ok p a s0" using assms by (subst cycle_ok_cong[of _ s]) (simp_all add: s0_def)
  have "cycle_ok p a ((s0\<lparr>ud_whenAfterFail := m\<rparr>)\<lparr>ud_failTimer := ud_failTimer s0\<rparr>)" for m
    using 0 by (subst cycle_ok_cong[of _ s0]) simp_all
  then have "\<exists>p1. cycle_ok p1 a (getDifferenceAfterFail now (s0\<lparr>ud_whenAfterFail := m\<rparr>)) \<and> (p1 = p \<or> p = Failed \<and> p1 = Asked)" for m
    by (rule cycle_afterFail(1))
  then have "\<exists>p1. cycle_ok p1 a s1 \<and> (p1 = p \<or> p = Failed \<and> p1 = Asked)"
    using 0 unfolding s1_def by (cases "when_changed now ch (timeout * 1000) (ud_whenAfterFail s0)") (simp, blast, simp)
  then obtain p1 where p1: "cycle_ok p1 a s1" "p1 = p \<or> p = Failed \<and> p1 = Asked" by blast
  have "cycle_ok p1 a (channelDifferenceFail now ch s)"
    unfolding r using p1(1) by (simp add: cycle_ok_cong[of "s1\<lparr>ud_channelFailTimeout := _\<rparr>" s1])
  then show ?thesis using p1(2) by blast
qed

lemma kept_channel_fail: "channel_kept c s (channelDifferenceFail now ch s)"
proof -
  define timeout where "timeout = (case fm_lookup (ud_channelFailTimeout s) ch of None \<Rightarrow> 1 | Some t \<Rightarrow> t)"
  define s0 where "s0 = s\<lparr>ud_channelFailTimeout := fm_set ch timeout (ud_channelFailTimeout s)\<rparr>"
  define s1 where "s1 = (case when_changed now ch (timeout * 1000) (ud_whenAfterFail s0) of
                None \<Rightarrow> s0 | Some m \<Rightarrow> getDifferenceAfterFail now (s0\<lparr>ud_whenAfterFail := m\<rparr>))"
  have r: "channelDifferenceFail now ch s
      = (if timeout < 64 then s1\<lparr>ud_channelFailTimeout := fm_set ch (timeout * 2) (ud_channelFailTimeout s1)\<rparr> else s1)"
    unfolding channelDifferenceFail_def failDifferenceStartTimerFor_def Let_def option.case timeout_def s0_def s1_def by (rule refl)
  have 0: "channel_kept c s s0" by (rule channel_kept_cong) (simp_all add: s0_def)
  have "channel_kept c s0 (getDifferenceAfterFail now (s0\<lparr>ud_whenAfterFail := m\<rparr>))" for m
    by (rule channel_kept_trans[OF _ kept_afterFail]) (rule channel_kept_cong, simp_all)
  then have "channel_kept c s0 s1" unfolding s1_def by (auto simp: channel_kept_def split: option.split)
  then have 1: "channel_kept c s s1" by (rule channel_kept_trans[OF 0])
  have "channel_kept c s1 (channelDifferenceFail now ch s)" unfolding r by (rule channel_kept_cong) simp_all
  then show ?thesis by (rule channel_kept_trans[OF 1])
qed

lemma kept_account_fail: "channel_kept c s (differenceFail now s)"
proof -
  define s1 where "s1 = (case time_changed now (ud_failTimeout s * 1000) (ud_timeAfterFail s) of
              None \<Rightarrow> s | Some t \<Rightarrow> getDifferenceAfterFail now (s\<lparr>ud_timeAfterFail := t\<rparr>))"
  have r: "differenceFail now s = (if ud_failTimeout s1 < 64 then s1\<lparr>ud_failTimeout := ud_failTimeout s1 * 2\<rparr> else s1)"
    unfolding differenceFail_def failDifferenceStartTimerFor_def Let_def option.case s1_def by (rule refl)
  have "channel_kept c s (getDifferenceAfterFail now (s\<lparr>ud_timeAfterFail := t\<rparr>))" for t
    by (rule channel_kept_trans[OF _ kept_afterFail]) (rule channel_kept_cong, simp_all)
  then have 1: "channel_kept c s s1" unfolding s1_def by (auto simp: channel_kept_def split: option.split)
  have "channel_kept c s1 (differenceFail now s)" unfolding r by (rule channel_kept_cong) simp_all
  then show ?thesis by (rule channel_kept_trans[OF 1])
qed

text \<open>The replies to the account.\<close>

lemma cycle_fail:
  assumes "cycle_ok Asked a s" and "0 \<le> now"
  shows "\<exists>p1. cycle_ok p1 (Suc a) (differenceFail now s) \<and> p1 \<noteq> Lost"
proof -
  have ok: "length (mains s) = Suc a" "requestingDifference s" "ud_timeAfterFail s = 0" "ud_failTimeout s \<in> {1, 2, 4, 8, 16, 32, 64}"
    using assms(1) unfolding cycle_ok_def by auto
  define t where "t = now + ud_failTimeout s * 1000"
  have t: "t \<noteq> 0" "time_changed now (ud_failTimeout s * 1000) (ud_timeAfterFail s) = Some t"
    using ok assms(2) by (auto simp: t_def time_changed_def)
  let ?s1 = "getDifferenceAfterFail now (s\<lparr>ud_timeAfterFail := t\<rparr>)"
  have "cycle_ok Failed (Suc a) ((s\<lparr>ud_timeAfterFail := t\<rparr>)\<lparr>ud_failTimer := Some t\<rparr>)"
    using ok t(1) by (simp add: cycle_ok_def mains_def requestingDifference_def)
  from cycle_afterFail(1)[OF this, of now] obtain p1 where p1: "cycle_ok p1 (Suc a) ?s1" "p1 \<noteq> Lost" by auto
  have "differenceFail now s = (if ud_failTimeout ?s1 < 64 then ?s1\<lparr>ud_failTimeout := ud_failTimeout ?s1 * 2\<rparr> else ?s1)"
    unfolding differenceFail_def failDifferenceStartTimerFor_def Let_def option.case t(2) by (rule refl)
  moreover have "cycle_ok p1 (Suc a) (?s1\<lparr>ud_failTimeout := ud_failTimeout ?s1 * 2\<rparr>)" if "ud_failTimeout ?s1 < 64"
    using p1(1) that by (cases p1) (auto simp: cycle_ok_def mains_def requestingDifference_def)
  ultimately show ?thesis using p1 by (auto split: if_split)
qed

lemma fail_doubles:
  assumes "cycle_ok Asked a s" and "0 \<le> now"
  shows "ud_timeAfterFail (differenceFail now s) = now + ud_failTimeout s * 1000"
    and "ud_failTimeout (differenceFail now s) = min 64 (2 * ud_failTimeout s)"
    and "mains (differenceFail now s) = mains s"
proof -
  have ok: "ud_timeAfterFail s = 0" "ud_failTimeout s \<in> {1, 2, 4, 8, 16, 32, 64}"
    using assms(1) unfolding cycle_ok_def by auto
  define t where "t = now + ud_failTimeout s * 1000"
  have t: "t \<noteq> 0" "now < t" "time_changed now (ud_failTimeout s * 1000) (ud_timeAfterFail s) = Some t"
    using ok assms(2) by (auto simp: t_def time_changed_def)
  define s0 where "s0 = s\<lparr>ud_timeAfterFail := t\<rparr>"
  obtain s1 w m s2 where s1: "s1 = (if asked_again now s0 then getDifference (s0\<lparr>ud_waiter := setRequesting False (ud_waiter s0)\<rparr>) else s0)"
    and d: "channels_due now AfterFail (ud_whenAfterFail s1)
      (if ud_timeAfterFail s0 \<noteq> 0 \<and> ud_timeAfterFail s0 > now then ud_timeAfterFail s0 - now else 0) s1 = (w, m, s2)"
    and g: "getDifferenceAfterFail now s0 = s2\<lparr>ud_whenAfterFail := m, ud_failTimer := (if w \<noteq> 0 then Some (now + w) else None)\<rparr>"
    by (rule afterFail_shape)
  let ?s1 = "getDifferenceAfterFail now s0"
  have "s1 = s0" using s1 t(2) by (simp add: asked_again_def s0_def)
  then have "ud_timeAfterFail ?s1 = ud_timeAfterFail s0" "ud_failTimeout ?s1 = ud_failTimeout s0" "mains ?s1 = mains s0"
    using main_same_due[OF d] by (simp_all add: g mains_def)
  moreover have "ud_timeAfterFail s0 = t" "ud_failTimeout s0 = ud_failTimeout s" "mains s0 = mains s"
    by (simp_all add: s0_def mains_def)
  ultimately have same: "ud_timeAfterFail ?s1 = t" "ud_failTimeout ?s1 = ud_failTimeout s" "mains ?s1 = mains s" by simp_all
  have r: "differenceFail now s = (if ud_failTimeout ?s1 < 64 then ?s1\<lparr>ud_failTimeout := ud_failTimeout ?s1 * 2\<rparr> else ?s1)"
    unfolding differenceFail_def failDifferenceStartTimerFor_def Let_def option.case t(3) s0_def by (rule refl)
  show "ud_timeAfterFail (differenceFail now s) = now + ud_failTimeout s * 1000" unfolding r by (simp add: same t_def)
  show "ud_failTimeout (differenceFail now s) = min 64 (2 * ud_failTimeout s)" unfolding r same(2) using ok(2) same(2) by auto
  show "mains (differenceFail now s) = mains s" unfolding r using same(3) by (simp add: mains_def)
qed

lemma done_resets: "ud_failTimeout (differenceDone now d s) = 1"
  by (cases d) (simp_all add: stateDone_def upd_request_def Let_def)

lemma cycle_answered:
  assumes "main_once (s\<lparr>ud_failTimeout := f\<rparr>) s1" and "cycle_ok Asked a s" and "f \<in> {1, 2, 4, 8, 16, 32, 64}"
  shows "cycle_ok Idle (Suc a) (s1\<lparr>ud_waiter := setRequesting False (ud_waiter s1)\<rparr>)"
proof -
  have "cycle_ok Asked a (s\<lparr>ud_failTimeout := f\<rparr>)"
    using assms(2,3) by (simp add: cycle_ok_def mains_def requestingDifference_def)
  with main_once_cycle[OF assms(1) this] have "cycle_ok Asked a s1" by auto
  then show ?thesis unfolding cycle_ok_def by (simp add: main_once_waiter_off, auto)
qed

lemma cycle_done:
  assumes "cycle_ok Asked a s"
  shows "\<exists>p1. cycle_ok p1 (Suc a) (differenceDone now d s) \<and> (p1 = Lost \<longleftrightarrow> d = DifferenceTooLong)"
proof (cases d)
  case (DifferenceEmpty date seq)
  let ?s = "s\<lparr>ud_failTimeout := 1\<rparr>"
  let ?s1 = "setState now (pw_good (ud_waiter ?s)) date (ud_qts ?s) seq ?s"
  have "cycle_ok Idle (Suc a) (?s1\<lparr>ud_waiter := setRequesting False (ud_waiter ?s1)\<rparr>)"
    by (rule cycle_answered[OF main_once_setState assms]) simp
  then have "cycle_ok Idle (Suc a) (differenceDone now d s)"
    unfolding DifferenceEmpty differenceDone.simps Let_def by (simp add: cycle_ok_def mains_def requestingDifference_def)
  then show ?thesis using DifferenceEmpty by blast
next
  case (DifferenceSlice msgs other pts date qts seq)
  let ?s = "s\<lparr>ud_failTimeout := 1\<rparr>"
  let ?s1 = "setState now pts date qts seq (feedDifference now msgs other ?s)"
  have "cycle_ok Idle (Suc a) (?s1\<lparr>ud_waiter := setRequesting False (ud_waiter ?s1)\<rparr>)"
    by (rule cycle_answered[OF main_once_trans[OF main_once_feedDifference main_once_setState] assms]) simp
  from main_once_cycle[OF main_once_getDifference this] show ?thesis
    unfolding DifferenceSlice differenceDone.simps Let_def by auto
next
  case (DifferenceFull msgs other pts date qts seq)
  let ?s = "s\<lparr>ud_failTimeout := 1\<rparr>"
  let ?s1 = "setState now pts date qts seq (feedDifference now msgs other ?s)"
  have "cycle_ok Idle (Suc a) (?s1\<lparr>ud_waiter := setRequesting False (ud_waiter ?s1)\<rparr>)"
    by (rule cycle_answered[OF main_once_trans[OF main_once_feedDifference main_once_setState] assms]) simp
  then have "cycle_ok Idle (Suc a) (differenceDone now d s)"
    unfolding DifferenceFull differenceDone.simps stateDone_def Let_def upd_request_def
    by (simp add: cycle_ok_def mains_def requestingDifference_def)
  then show ?thesis using DifferenceFull by blast
next
  case DifferenceTooLong
  have "cycle_ok Lost (Suc a) (differenceDone now d s)"
    using assms unfolding DifferenceTooLong by (auto simp: cycle_ok_def mains_def requestingDifference_def)
  then show ?thesis using DifferenceTooLong by blast
qed

text \<open>The reply to the request for the state is \<open>stateDone\<close>; it has no failure handler.\<close>

lemma cycle_state_done:
  assumes "cycle_ok Asked a s"
  shows "cycle_ok Idle (Suc a) (stateDone now pts date qts seq s)"
proof -
  let ?s1 = "setState now pts date qts seq s"
  have f: "ud_failTimeout s \<in> {1, 2, 4, 8, 16, 32, 64}" using assms by (simp add: cycle_ok_def)
  have "main_once (s\<lparr>ud_failTimeout := ud_failTimeout s\<rparr>) ?s1" using main_once_setState by simp
  from cycle_answered[OF this assms f]
  have "cycle_ok Idle (Suc a) (?s1\<lparr>ud_waiter := setRequesting False (ud_waiter ?s1)\<rparr>)" .
  then show ?thesis
    unfolding stateDone_def Let_def upd_request_def by (simp add: cycle_ok_def mains_def requestingDifference_def)
qed

lemma cycle_event:
  assumes "cycle_ok p a s" and "\<not> is_reply e"
  shows "\<exists>p1. cycle_ok p1 a (upd_step (now, e) s) \<and> (p1 = Lost \<longleftrightarrow> p = Lost)"
proof -
  have c: "main_once s s1 \<Longrightarrow> \<exists>p1. cycle_ok p1 a s1 \<and> (p1 = Lost \<longleftrightarrow> p = Lost)" for s1
    using main_once_cycle[OF _ assms(1)] by auto
  consider "\<not> of_channel e" "e \<noteq> UpdFailTimer" | "e = UpdFailTimer" | ch d f t where "e = UpdChannelDone ch d f t"
    | ch where "e = UpdChannelFail ch"
    by (cases e) auto
  then show ?thesis
  proof cases
    case 1
    then have "main_once s (upd_step (now, e) s)" using asks_once_step[of e] assms(2) asks_once_main by blast
    then show ?thesis by (rule c)
  next
    case 2
    have "cycle_ok p a (s\<lparr>ud_failTimer := None, ud_failTimer := ud_failTimer s\<rparr>)" using assms(1) by simp
    then have "\<exists>p1. cycle_ok p1 a (getDifferenceAfterFail now (s\<lparr>ud_failTimer := None\<rparr>)) \<and> (p1 = p \<or> p = Failed \<and> p1 = Asked)"
      by (intro cycle_afterFail(1)[of p a "ud_failTimer s" "s\<lparr>ud_failTimer := None\<rparr>"])
    then show ?thesis using 2 assms(1) by (cases "ud_failTimer s") auto
  next
    case 3
    then show ?thesis using c[OF main_once_channel_done] by simp
  next
    case 4
    then show ?thesis using cycle_channel_fail[OF assms(1), of now ch] by auto
  qed
qed

fun replies_to :: "upd_request \<Rightarrow> 'a upd_event \<Rightarrow> bool" where
  "replies_to GetState (UpdStateDone pts date qts seq) \<longleftrightarrow> True"
| "replies_to (GetDifference p d q) (UpdDifferenceDone diff) \<longleftrightarrow> True"
| "replies_to (GetDifference p d q) UpdDifferenceFail \<longleftrightarrow> True"
| "replies_to r e \<longleftrightarrow> False"

text \<open>
  The states of an account with the replies it got: the requests for the state and for differences are answered in
  their order, anything else happens at any time.
\<close>

inductive upd_reachable :: "'a upd_event list \<Rightarrow> 'a updates_state \<Rightarrow> bool" where
  upd_start: "upd_reachable [] (new_updates_state channels)"
| upd_other: "upd_reachable rs s \<Longrightarrow> \<not> is_reply e \<Longrightarrow> upd_reachable rs (upd_step (now, e) s)"
| upd_reply: "upd_reachable rs s \<Longrightarrow> length rs < length (mains s) \<Longrightarrow> replies_to (mains s ! length rs) e \<Longrightarrow> 0 \<le> now
    \<Longrightarrow> upd_reachable (rs @ [e]) (upd_step (now, e) s)"

lemma upd_reachable_cycle:
  "upd_reachable rs s \<Longrightarrow> \<exists>p. cycle_ok p (length rs) s \<and> (p = Lost \<longleftrightarrow> UpdDifferenceDone DifferenceTooLong \<in> set rs)"
proof (induction rule: upd_reachable.induct)
  case (upd_start channels)
  have "cycle_ok Asked 0 (new_updates_state channels)"
    by (simp add: cycle_ok_def new_updates_state_def mains_def requestingDifference_def setRequesting_def clearSkippedUpdates_def)
  then show ?case by auto
next
  case (upd_other rs s e now)
  then show ?case using cycle_event[of _ "length rs" s e now] by metis
next
  case (upd_reply rs s e now)
  then obtain p where p: "cycle_ok p (length rs) s" "p = Lost \<longleftrightarrow> UpdDifferenceDone DifferenceTooLong \<in> set rs" by blast
  then have a: "p = Asked" using upd_reply(2) by (cases p) (auto simp: cycle_ok_def)
  have nl: "UpdDifferenceDone DifferenceTooLong \<notin> set rs" using p(2) a by simp
  consider pts date qts seq where "e = UpdStateDone pts date qts seq" | d where "e = UpdDifferenceDone d" | "e = UpdDifferenceFail"
    using upd_reply(3) by (cases e; cases "mains s ! length rs") auto
  then show ?case
  proof cases
    case 1
    then show ?thesis using cycle_state_done[of "length rs" s now] p(1) a nl by (auto intro!: exI[of _ Idle])
  next
    case 2
    then show ?thesis using cycle_done[of "length rs" s now d] p(1) a nl by auto
  next
    case 3
    then show ?thesis using cycle_fail[of "length rs" s now] p(1) a nl upd_reply(4) by auto
  qed
qed

subsection \<open>A channel that is being asked for\<close>

lemma kept_setState: "channel_kept ch s (setState now pts date qts seq s)"
  by (rule asks_once_kept[OF asks_once_setState])

lemma kept_stateDone: "channel_kept ch s (stateDone now pts date qts seq s)"
  by (rule channel_kept_trans[OF kept_setState[of ch s now pts date qts seq]])
    (simp add: stateDone_def Let_def upd_request_def channel_kept_def channel_asks_def channel_requesting_def)

lemma kept_differenceDone: "channel_kept ch s (differenceDone now d s)"
proof -
  let ?s = "s\<lparr>ud_failTimeout := 1\<rparr>"
  have 0: "channel_kept ch s ?s" by (rule channel_kept_cong) simp_all
  have fed: "channel_kept ch s (feedDifference now msgs other ?s)" for msgs other
    by (rule channel_kept_trans[OF 0 asks_once_kept[OF asks_once_feedDifference]])
  show ?thesis
  proof (cases d)
    case (DifferenceEmpty date seq)
    then show ?thesis unfolding DifferenceEmpty differenceDone.simps Let_def
      by (intro channel_kept_trans[OF channel_kept_trans[OF 0 kept_setState] channel_kept_cong]) simp_all
  next
    case (DifferenceSlice msgs other pts date qts seq)
    let ?s1 = "setState now pts date qts seq (feedDifference now msgs other ?s)"
    have "channel_kept ch s (?s1\<lparr>ud_waiter := setRequesting False (ud_waiter ?s1)\<rparr>)"
      by (rule channel_kept_trans[OF channel_kept_trans[OF fed kept_setState] channel_kept_cong]) simp_all
    then show ?thesis unfolding DifferenceSlice differenceDone.simps Let_def
      by (rule channel_kept_trans[OF _ asks_once_kept[OF asks_once_getDifference]])
  next
    case (DifferenceFull msgs other pts date qts seq)
    then show ?thesis using channel_kept_trans[OF fed kept_stateDone] by simp
  next
    case DifferenceTooLong
    then show ?thesis using 0 by simp
  qed
qed

fun answers_channel :: "nat \<Rightarrow> 'a upd_event \<Rightarrow> bool" where
  "answers_channel ch (UpdChannelDone c diff isFinal timeout) \<longleftrightarrow> c = ch"
| "answers_channel ch e \<longleftrightarrow> False"

lemma kept_step:
  assumes "\<not> answers_channel ch e"
  shows "channel_kept ch s (upd_step (now, e) s)"
proof (cases "is_reply e \<or> of_channel e \<or> e = UpdFailTimer")
  case False
  then show ?thesis using asks_once_step[of e] asks_once_kept by blast
next
  case True
  have "channel_kept ch s (getDifferenceAfterFail now (s\<lparr>ud_failTimer := None\<rparr>))"
    by (rule channel_kept_trans[OF channel_kept_cong kept_afterFail]) simp_all
  then show ?thesis using True assms
    by (cases e) (simp_all add: kept_stateDone kept_differenceDone kept_account_fail kept_channel_fail kept_channel_done
        channel_kept_cong split: option.split)
qed

lemma kept_steps:
  "\<forall>e \<in> snd ` set evs. \<not> answers_channel ch e \<Longrightarrow> channel_kept ch s (fold upd_step evs s)"
proof (induction evs arbitrary: s)
  case Nil
  then show ?case by (simp add: channel_kept_cong)
next
  case (Cons ev evs)
  obtain now e where ev: "ev = (now, e)" by (cases ev)
  have "\<not> answers_channel ch e" using Cons.prems by (simp add: ev)
  then have "channel_kept ch s (upd_step ev s)" unfolding ev by (rule kept_step)
  moreover have "channel_kept ch (upd_step ev s) (fold upd_step evs (upd_step ev s))" using Cons by simp
  ultimately show ?case using channel_kept_trans by simp
qed

subsection \<open>Properties\<close>

text \<open>
  C8: An account never waits for two replies, and it takes no updates exactly while it waits for one, waits for the
  time to ask again after a failure (a timer is set for no later than that time, and when it fires then the
  request is sent), or after a difference that was too long. The wait after a failure is 1 to 64 seconds: when the
  reply that is waited for is a failure, nothing is sent, the request is due after the wait and the next wait is
  twice as long, at most 64 seconds; any difference makes it 1 second again.
\<close>

theorem difference_cycle:
  assumes "upd_reachable rs s"
  shows "length rs \<le> length (mains s) \<and> length (mains s) \<le> Suc (length rs)
    \<and> (requestingDifference s \<longleftrightarrow> length (mains s) = Suc (length rs)
        \<or> (ud_timeAfterFail s \<noteq> 0 \<and> (\<exists>t. ud_failTimer s = Some t \<and> t \<le> ud_timeAfterFail s))
        \<or> UpdDifferenceDone DifferenceTooLong \<in> set rs)
    \<and> (\<forall>now. ud_timeAfterFail s \<noteq> 0 \<and> ud_timeAfterFail s \<le> now
        \<longrightarrow> length (mains (upd_step (now, UpdFailTimer) s)) = Suc (length (mains s)))
    \<and> ud_failTimeout s \<in> {1, 2, 4, 8, 16, 32, 64}
    \<and> (\<forall>now. length (mains s) = Suc (length rs) \<and> 0 \<le> now
        \<longrightarrow> (let s1 = upd_step (now, UpdDifferenceFail) s
             in ud_timeAfterFail s1 = now + ud_failTimeout s * 1000 \<and> ud_failTimeout s1 = min 64 (2 * ud_failTimeout s)
                \<and> mains s1 = mains s))
    \<and> (\<forall>now d. ud_failTimeout (upd_step (now, UpdDifferenceDone d) s) = 1)"
proof -
  obtain p where p: "cycle_ok p (length rs) s" "p = Lost \<longleftrightarrow> UpdDifferenceDone DifferenceTooLong \<in> set rs"
    using upd_reachable_cycle[OF assms] by blast
  have again: "length (mains (upd_step (now, UpdFailTimer) s)) = Suc (length (mains s))"
    if "ud_timeAfterFail s \<noteq> 0" "ud_timeAfterFail s \<le> now" for now
  proof -
    have f: "p = Failed" using p(1) that by (cases p) (simp_all add: cycle_ok_def)
    obtain t where t: "ud_failTimer s = Some t" "t \<le> ud_timeAfterFail s" using p(1) f by (auto simp: cycle_ok_def)
    have "cycle_ok Failed (length rs) (s\<lparr>ud_failTimer := None, ud_failTimer := ud_failTimer s\<rparr>)" using p(1) f by simp
    from cycle_afterFail(2)[OF this] have "length (mains (getDifferenceAfterFail now (s\<lparr>ud_failTimer := None\<rparr>))) = Suc (length (mains s))"
      using that by (simp add: asked_again_def main_once_waiter_off)
    then show ?thesis using t that by simp
  qed
  have fail: "let s1 = upd_step (now, UpdDifferenceFail) s
      in ud_timeAfterFail s1 = now + ud_failTimeout s * 1000 \<and> ud_failTimeout s1 = min 64 (2 * ud_failTimeout s) \<and> mains s1 = mains s"
    if "length (mains s) = Suc (length rs)" "0 \<le> now" for now
  proof -
    have "p = Asked" using p(1) that(1) by (cases p) (simp_all add: cycle_ok_def)
    then show ?thesis using fail_doubles[of "length rs" s now] p(1) that(2) by (simp add: Let_def)
  qed
  have "length rs \<le> length (mains s) \<and> length (mains s) \<le> Suc (length rs)
    \<and> (requestingDifference s \<longleftrightarrow> length (mains s) = Suc (length rs)
        \<or> (ud_timeAfterFail s \<noteq> 0 \<and> (\<exists>t. ud_failTimer s = Some t \<and> t \<le> ud_timeAfterFail s))
        \<or> UpdDifferenceDone DifferenceTooLong \<in> set rs)
    \<and> ud_failTimeout s \<in> {1, 2, 4, 8, 16, 32, 64}"
    using p unfolding cycle_ok_def by (cases p) auto
  then show ?thesis using again fail by (simp add: done_resets)
qed

lemma failed_reachable:
  "upd_reachable [UpdStateDone 5 6 7 8, UpdDifferenceFail]
     (fold upd_step [(10, UpdStateDone 5 6 7 8), (20, UpdNewSession), (30, UpdDifferenceFail)]
       (new_updates_state (\<lambda>_. None) :: nat updates_state))"
proof -
  let ?s0 = "new_updates_state (\<lambda>_. None) :: nat updates_state"
  let ?s1 = "upd_step (10, UpdStateDone 5 6 7 8) ?s0" and ?s2 = "upd_step (20, UpdNewSession) (upd_step (10, UpdStateDone 5 6 7 8) ?s0)"
  have "length ([] :: nat upd_event list) < length (mains ?s0)" "replies_to (mains ?s0 ! 0) (UpdStateDone 5 6 7 8 :: nat upd_event)"
    by code_simp+
  then have "upd_reachable [UpdStateDone 5 6 7 8] ?s1" using upd_reply[OF upd_start, of "\<lambda>_. None"] by fastforce
  then have 2: "upd_reachable [UpdStateDone 5 6 7 8] ?s2" by (rule upd_other) simp
  have "length [UpdStateDone 5 6 7 8 :: nat upd_event] < length (mains ?s2)"
    "replies_to (mains ?s2 ! length [UpdStateDone 5 6 7 8 :: nat upd_event]) (UpdDifferenceFail :: nat upd_event)"
    by code_simp+
  from upd_reply[OF 2 this, of 30] show ?thesis by simp
qed

lemma difference_cycle_witness:
  "let s = fold upd_step [(10, UpdStateDone 5 6 7 8), (20, UpdNewSession), (30, UpdDifferenceFail)]
       (new_updates_state (\<lambda>_. None) :: nat updates_state)
   in mains s = [GetState, GetDifference 5 6 7] \<and> ud_timeAfterFail s = 1030 \<and> ud_failTimeout s = 2
     \<and> length (mains (upd_step (1030, UpdFailTimer) s)) = Suc (length (mains s))"
proof -
  let ?s = "fold upd_step [(10, UpdStateDone 5 6 7 8), (20, UpdNewSession), (30, UpdDifferenceFail)]
       (new_updates_state (\<lambda>_. None) :: nat updates_state)"
  have v: "mains ?s = [GetState, GetDifference 5 6 7]" "ud_timeAfterFail ?s = 1030" "ud_failTimeout ?s = 2" by code_simp+
  have "length (mains (upd_step (1030, UpdFailTimer) ?s)) = Suc (length (mains ?s))"
    using difference_cycle[OF failed_reachable] v(2) by (metis order_refl zero_neq_numeral)
  then show ?thesis using v unfolding Let_def by blast
qed

text \<open>The packets that come while a difference is asked for.\<close>

lemma received_calls_only:
  assumes "requestingDifference s"
  shows "\<exists>us. (\<forall>u \<in> set us. is_call u) \<and> ud_applied (mtpUpdateReceived now False p s) = ud_applied s @ map (\<lambda>u. AppliedUpdate (Some u)) us"
proof -
  let ?s = "s\<lparr>ud_lastUpdateTime := now, ud_noUpdatesTimer := True\<rparr>"
  let ?none = "\<lambda>s1 :: 'a updates_state. \<exists>us. (\<forall>u \<in> set us. is_call u) \<and> ud_applied s1 = ud_applied s @ map (\<lambda>u. AppliedUpdate (Some u)) us"
  have one: "ud_applied (feedUpdate now u s1) = ud_applied s1 @ [AppliedUpdate (Some u)]" if "is_call u" for u and s1 :: "'a updates_state"
    using that by (cases u) (simp_all add: Let_def upd_apply_def)
  have fed: "ud_applied (fold (feedUpdate now) us s1) = ud_applied s1 @ map (\<lambda>u. AppliedUpdate (Some u)) us"
    if "\<forall>u \<in> set us. is_call u" for us and s1 :: "'a updates_state"
    using that by (induction us arbitrary: s1) (simp_all add: one del: feedUpdate.simps)
  have vector: "?none (feedUpdateVector now us SkipExceptGroupCallParticipants ?s)" for us
  proof (cases "\<exists>u \<in> set us. is_call u")
    case True
    let ?us = "filter (\<lambda>u. is_call u) (filter is_call us @ filter (\<lambda>u. \<not> is_call u) us)"
    have "feedUpdateVector now us SkipExceptGroupCallParticipants ?s = fold (feedUpdate now) ?us ?s"
      using True by (simp add: feedUpdateVector_def Let_def)
    then show ?thesis using fed[of ?us ?s] by (intro exI[of _ ?us]) simp
  next
    case False
    then show ?thesis by (intro exI[of _ "[]"]) (simp add: feedUpdateVector_def Let_def)
  qed
  have "?none (applyGroupCallParticipantUpdates now p ?s)"
  proof (cases p)
    case (PacketShort date u)
    show ?thesis
    proof (cases "is_call u")
      case True
      then show ?thesis using one[OF True, of ?s] PacketShort by (intro exI[of _ "[u]"]) simp
    next
      case False
      then show ?thesis using PacketShort by (intro exI[of _ "[]"]) simp
    qed
  next
    case (PacketUpdates seq date us)
    then show ?thesis using vector by simp
  next
    case (PacketCombined start seq date us)
    then show ?thesis using vector by simp
  next
    case (ShortPacket pts cnt date loaded a)
    then show ?thesis by (intro exI[of _ "[]"]) simp
  next
    case PacketTooLong
    then show ?thesis by (intro exI[of _ "[]"]) simp
  qed
  moreover have "requestingDifference ?s" using assms by (simp add: requestingDifference_def)
  ultimately show ?thesis by (simp add: mtpUpdateReceived_def Let_def)
qed

text \<open>
  C33: After a difference that is too long the account stays as it is: it waits for no reply, and yet counts as asking
  for a difference. Whatever else than the reply of a request for a difference happens (there is none), whichever
  timer fires, no request for a difference is sent and it goes on so; and of any packet that comes, if it does not
  force a logout, only updates of group calls are applied.
\<close>

theorem difference_too_long_stuck:
  assumes "upd_reachable rs s" and "UpdDifferenceDone DifferenceTooLong \<in> set rs" and "\<not> is_reply e"
  shows "length (mains s) = length rs \<and> requestingDifference s
    \<and> length (mains (upd_step (now, e) s)) = length (mains s) \<and> requestingDifference (upd_step (now, e) s)
    \<and> ((\<forall>u \<in> set us. \<not> is_call u) \<longrightarrow>
        ud_applied (upd_step (now, UpdReceived False (PacketUpdates seq date us)) s) = ud_applied s)
    \<and> (\<exists>calls. (\<forall>u \<in> set calls. is_call u)
        \<and> ud_applied (upd_step (now, UpdReceived False packet) s) = ud_applied s @ map (\<lambda>u. AppliedUpdate (Some u)) calls)"
proof -
  obtain p where p: "cycle_ok p (length rs) s" "p = Lost"
    using upd_reachable_cycle[OF assms(1)] assms(2) by blast
  obtain p1 where p1: "cycle_ok p1 (length rs) (upd_step (now, e) s)" "p1 = Lost"
    using cycle_event[OF p(1) assms(3), of now] p(2) by blast
  have s: "length (mains s) = length rs" "requestingDifference s" using p by (auto simp: cycle_ok_def)
  have s1: "length (mains (upd_step (now, e) s)) = length rs" "requestingDifference (upd_step (now, e) s)"
    using p1 by (auto simp: cycle_ok_def)
  have "requestingDifference (s\<lparr>ud_lastUpdateTime := now, ud_noUpdatesTimer := True\<rparr>)" using s(2) by (simp add: requestingDifference_def)
  then have "ud_applied (upd_step (now, UpdReceived False (PacketUpdates seq date us)) s) = ud_applied s"
    if "\<forall>u \<in> set us. \<not> is_call u"
    using that by (simp add: mtpUpdateReceived_def Let_def feedUpdateVector_def)
  moreover note received_calls_only[OF s(2), of now packet]
  ultimately show ?thesis using s s1 by (simp del: applyGroupCallParticipantUpdates.simps)
qed

lemma too_long_reachable:
  "upd_reachable [UpdStateDone 5 6 7 8, UpdDifferenceDone DifferenceTooLong]
     (fold upd_step [(10, UpdStateDone 5 6 7 8), (20, UpdNewSession), (30, UpdDifferenceDone DifferenceTooLong)]
       (new_updates_state (\<lambda>_. None) :: nat updates_state))"
proof -
  let ?s0 = "new_updates_state (\<lambda>_. None) :: nat updates_state"
  let ?s1 = "upd_step (10, UpdStateDone 5 6 7 8) ?s0" and ?s2 = "upd_step (20, UpdNewSession) (upd_step (10, UpdStateDone 5 6 7 8) ?s0)"
  have "length ([] :: nat upd_event list) < length (mains ?s0)" "replies_to (mains ?s0 ! 0) (UpdStateDone 5 6 7 8 :: nat upd_event)"
    by code_simp+
  then have "upd_reachable [UpdStateDone 5 6 7 8] ?s1" using upd_reply[OF upd_start, of "\<lambda>_. None"] by fastforce
  then have 2: "upd_reachable [UpdStateDone 5 6 7 8] ?s2" by (rule upd_other) simp
  have "length [UpdStateDone 5 6 7 8 :: nat upd_event] < length (mains ?s2)"
    "replies_to (mains ?s2 ! length [UpdStateDone 5 6 7 8 :: nat upd_event]) (UpdDifferenceDone DifferenceTooLong :: nat upd_event)"
    by code_simp+
  from upd_reply[OF 2 this, of 30] show ?thesis by simp
qed

lemma difference_too_long_stuck_witness:
  "let s = fold upd_step [(10, UpdStateDone 5 6 7 8), (20, UpdNewSession), (30, UpdDifferenceDone DifferenceTooLong)]
       (new_updates_state (\<lambda>_. None) :: nat updates_state)
   in length (mains (upd_step (100000, UpdNewSession) s)) = 2
     \<and> ud_applied (upd_step (100000, UpdReceived False (PacketUpdates 9 6 [PlainUpdate 1])) s) = ud_applied s"
proof -
  let ?s = "fold upd_step [(10, UpdStateDone 5 6 7 8), (20, UpdNewSession), (30, UpdDifferenceDone DifferenceTooLong)]
       (new_updates_state (\<lambda>_. None) :: nat updates_state)"
  from difference_too_long_stuck[OF too_long_reachable, of UpdNewSession 100000 "[PlainUpdate 1]" 9 6]
  show ?thesis unfolding Let_def by simp
qed

text \<open>
  C32: A channel whose difference could not be got is never asked for again: it stays marked as being asked for, so
  the request after the timeout is not sent, and its updates are left out.
\<close>

theorem channel_fail_stuck:
  assumes "channel_requesting ch s" and "\<forall>e \<in> snd ` set evs. \<not> answers_channel ch e"
  shows "let s1 = fold upd_step evs (upd_step (now, UpdChannelFail ch) s)
    in channel_requesting ch s1 \<and> channel_asks ch s1 = channel_asks ch s
      \<and> (\<not> ud_handlingChannelDifference s1 \<longrightarrow>
          ud_applied (feedUpdate now' (NewChannelMessage ch pts cnt True a) s1) = ud_applied s1)"
proof -
  let ?s1 = "fold upd_step evs (upd_step (now, UpdChannelFail ch) s)"
  have "channel_kept ch s ?s1"
    by (rule channel_kept_trans[OF kept_step kept_steps[OF assms(2)]]) simp
  then have k: "channel_requesting ch ?s1" "channel_asks ch ?s1 = channel_asks ch s"
    using assms(1) by (simp_all add: channel_kept_def)
  obtain w where w: "ud_channels ?s1 ch = Some w" "pw_requesting w" using k(1) by (auto simp: channel_requesting_def)
  have "ud_applied (feedUpdate now' (NewChannelMessage ch pts cnt True a) ?s1) = ud_applied ?s1"
    if "\<not> ud_handlingChannelDifference ?s1"
    using that w by (simp add: Let_def feed_channel_def)
  then show ?thesis using k unfolding Let_def by blast
qed

text \<open>The channel 1 with the pts 5 is being asked for; the timer after the failure sends nothing.\<close>

definition failing_channel :: "nat updates_state" where
  "failing_channel = getChannelDifference 1 FromUnknown (stateDone 10 5 6 7 8 (new_updates_state [1 \<mapsto> pts_init 5 new_pts_waiter]))"

lemma channel_fail_stuck_witness:
  "channel_asks 1 (fold upd_step [(2000, UpdFailTimer), (4000, UpdByPtsTimer)] (upd_step (20, UpdChannelFail 1) failing_channel))
     = [GetChannelDifference 1 5 False]
   \<and> ud_failTimer (upd_step (20, UpdChannelFail 1) failing_channel) = Some 1020"
proof -
  have v: "channel_asks 1 failing_channel = [GetChannelDifference 1 5 False]"
    "ud_failTimer (upd_step (20, UpdChannelFail 1) failing_channel) = Some 1020"
    by code_simp+
  have "map_option pw_requesting (ud_channels failing_channel 1) = Some True" by code_simp
  then have r: "channel_requesting 1 failing_channel" by (auto simp: channel_requesting_def)
  have e: "\<forall>e \<in> snd ` set [(2000, UpdFailTimer), (4000, UpdByPtsTimer :: nat upd_event)]. \<not> answers_channel 1 e" by simp
  from channel_fail_stuck[OF r e, of 20] show ?thesis unfolding Let_def v(1) using v(2) by blast
qed

end
