(* ===== verification/ChatFilters.thy ===== *)
theory ChatFilters
  imports PeerIds DialogsUnread
begin

text \<open>
  The chat folders of an account, from \<open>data/data_chat_filters.{h,cpp}\<close>: what a folder contains, the folders in
  their order, the list of chats kept for each of them, and what changes these lists: the replies and updates of the
  server and the changes of a chat (\<open>refreshChatListEntry\<close> of \<open>data/data_session.cpp\<close> and the places of
  \<open>history/history.cpp\<close> and \<open>dialogs/dialogs_entry.cpp\<close> that call it). A chat is named by the id of its peer. What
  is fired and requested is recorded in order. A failing \<open>Expects\<close> or \<open>Assert\<close> is \<open>None\<close>.
\<close>

subsection \<open>Chats\<close>

datatype peer_kind = BotUser | ContactUser | OtherUser | BasicGroup | BroadcastChannel | Megagroup

record chat_state =
  ch_kind :: peer_kind
  ch_history :: history_unread
  ch_forum :: "main_list option"
  ch_folderKnown :: bool
  ch_fakeUnread :: bool

definition chat_unread :: "chat_state \<Rightarrow> UnreadState" where
  "chat_unread c = (case ch_forum c of None \<Rightarrow> computeUnreadState (ch_history c) | Some topics \<Rightarrow> unreadState topics)"

definition chat_badges :: "chat_state \<Rightarrow> BadgesState" where
  "chat_badges c = history_badges (ch_history c) (ch_forum c)"

definition no_badges :: BadgesState where
  "no_badges = \<lparr>bs_unreadCounter = 0, bs_unread = False, bs_unreadMuted = False, bs_mention = False, bs_mentionMuted = False,
     bs_reaction = False, bs_reactionMuted = False\<rparr>"

subsection \<open>A folder\<close>

type_synonym filter_flags = "16 word"

definition FlagContacts :: filter_flags where "FlagContacts = push_bit 0 1"
definition FlagNonContacts :: filter_flags where "FlagNonContacts = push_bit 1 1"
definition FlagGroups :: filter_flags where "FlagGroups = push_bit 2 1"
definition FlagChannels :: filter_flags where "FlagChannels = push_bit 3 1"
definition FlagBots :: filter_flags where "FlagBots = push_bit 4 1"
definition FlagNoMuted :: filter_flags where "FlagNoMuted = push_bit 5 1"
definition FlagNoRead :: filter_flags where "FlagNoRead = push_bit 6 1"
definition FlagNoArchived :: filter_flags where "FlagNoArchived = push_bit 7 1"
definition RulesMask :: filter_flags where "RulesMask = push_bit 8 1 - 1"
definition FlagChatlist :: filter_flags where "FlagChatlist = push_bit 8 1"
definition FlagHasMyLinks :: filter_flags where "FlagHasMyLinks = push_bit 9 1"

text \<open>\<open>always\<close> and \<open>never\<close> are flat sets.\<close>

record chat_filter =
  cf_id :: int
  cf_title :: string
  cf_icon :: string
  cf_flags :: filter_flags
  cf_always :: "peer_id list"
  cf_pinned :: "peer_id list"
  cf_never :: "peer_id list"

definition ChatFilter :: "int \<Rightarrow> string \<Rightarrow> string \<Rightarrow> filter_flags \<Rightarrow> peer_id list \<Rightarrow> peer_id list \<Rightarrow> peer_id list \<Rightarrow> chat_filter" where
  "ChatFilter fid title icon flags always pinned never =
     \<lparr>cf_id = fid, cf_title = title, cf_icon = icon, cf_flags = flags, cf_always = always, cf_pinned = pinned, cf_never = never\<rparr>"

definition default_filter :: chat_filter where
  "default_filter = ChatFilter 0 [] [] 0 [] [] []"

definition withId :: "int \<Rightarrow> chat_filter \<Rightarrow> chat_filter" where
  "withId fid f = f\<lparr>cf_id := fid\<rparr>"

definition withTitle :: "string \<Rightarrow> chat_filter \<Rightarrow> chat_filter" where
  "withTitle title f = f\<lparr>cf_title := title\<rparr>"

definition withChatlist :: "bool \<Rightarrow> bool \<Rightarrow> chat_filter \<Rightarrow> chat_filter" where
  "withChatlist chatlist hasMyLinks f =
     (let rules = cf_flags f AND RulesMask;
          flags = (if chatlist then (if hasMyLinks then (rules OR FlagChatlist) OR FlagHasMyLinks
              else (rules OR FlagChatlist) AND NOT FlagHasMyLinks) else rules)
      in f\<lparr>cf_flags := flags\<rparr>)"

definition has_flag :: "chat_filter \<Rightarrow> filter_flags \<Rightarrow> bool" where
  "has_flag f flag \<longleftrightarrow> cf_flags f AND flag \<noteq> 0"

abbreviation is_chatlist :: "chat_filter \<Rightarrow> bool" where "is_chatlist f \<equiv> has_flag f FlagChatlist"

abbreviation hasMyLinks :: "chat_filter \<Rightarrow> bool" where "hasMyLinks f \<equiv> has_flag f FlagHasMyLinks"

fun kind_flag :: "peer_kind \<Rightarrow> filter_flags" where
  "kind_flag BotUser = FlagBots"
| "kind_flag ContactUser = FlagContacts"
| "kind_flag OtherUser = FlagNonContacts"
| "kind_flag BasicGroup = FlagGroups"
| "kind_flag BroadcastChannel = FlagChannels"
| "kind_flag Megagroup = FlagGroups"

definition filter_contains :: "chat_filter \<Rightarrow> peer_id \<Rightarrow> chat_state \<Rightarrow> bool" where
  "filter_contains f h c \<longleftrightarrow>
     (if h \<in> set (cf_never f) then False
      else let state = (if cf_flags f AND (FlagNoMuted OR FlagNoRead) \<noteq> 0 then chat_badges c else no_badges);
               folder = hu_folder (ch_history c)
           in has_flag f (kind_flag (ch_kind c))
                \<and> (\<not> has_flag f FlagNoMuted \<or> \<not> hu_muted (ch_history c) \<or> bs_mention state \<and> ch_folderKnown c \<and> \<not> folder)
                \<and> (\<not> has_flag f FlagNoRead \<or> bs_unread state \<or> bs_mention state \<or> ch_fakeUnread c)
                \<and> (\<not> has_flag f FlagNoArchived \<or> ch_folderKnown c \<and> \<not> folder)
              \<or> h \<in> set (cf_always f))"

subsection \<open>Folders as the server has them\<close>

text \<open>Input peers, and the chats they stand for (\<open>PeerFromInputMTP\<close> of \<open>data/data_peer.cpp\<close>); \<open>self\<close> is the user.\<close>

datatype input_peer = InputPeerUser bare_id | InputPeerChat bare_id | InputPeerChannel bare_id | InputPeerSelf | InputPeerEmpty

fun PeerFromInputMTP :: "peer_id \<Rightarrow> input_peer \<Rightarrow> peer_id option" where
  "PeerFromInputMTP self (InputPeerUser i) = Some (peerFromUser i)"
| "PeerFromInputMTP self (InputPeerChat i) = Some (peerFromChat i)"
| "PeerFromInputMTP self (InputPeerChannel i) = Some (peerFromChannel i)"
| "PeerFromInputMTP self InputPeerSelf = Some self"
| "PeerFromInputMTP self InputPeerEmpty = None"

record rule_flags =
  rf_contacts :: bool
  rf_non_contacts :: bool
  rf_groups :: bool
  rf_broadcasts :: bool
  rf_bots :: bool
  rf_exclude_muted :: bool
  rf_exclude_read :: bool
  rf_exclude_archived :: bool

text \<open>Rules, id, title, emoticon, pinned, included, excluded; a shared folder has the flag of its own links instead of rules.\<close>

datatype mtp_dialog_filter =
    MTP_dialogFilter rule_flags int string "string option" "input_peer list" "input_peer list" "input_peer list"
  | MTP_dialogFilterDefault
  | MTP_dialogFilterChatlist bool int string "string option" "input_peer list" "input_peer list"

definition to_histories :: "peer_id \<Rightarrow> input_peer list \<Rightarrow> peer_id list" where
  "to_histories self ps = List.map_filter (PeerFromInputMTP self) ps"

definition flag_if :: "bool \<Rightarrow> filter_flags \<Rightarrow> filter_flags" where
  "flag_if b flag = (if b then flag else 0)"

fun FromTL :: "peer_id \<Rightarrow> mtp_dialog_filter \<Rightarrow> chat_filter" where
  "FromTL self (MTP_dialogFilter r fid title emoticon pinnedPeers includePeers excludePeers) =
     (let flags = flag_if (rf_contacts r) FlagContacts OR flag_if (rf_non_contacts r) FlagNonContacts
            OR flag_if (rf_groups r) FlagGroups OR flag_if (rf_broadcasts r) FlagChannels OR flag_if (rf_bots r) FlagBots
            OR flag_if (rf_exclude_muted r) FlagNoMuted OR flag_if (rf_exclude_read r) FlagNoRead
            OR flag_if (rf_exclude_archived r) FlagNoArchived;
          always = to_histories self includePeers; pinned = to_histories self pinnedPeers; never = to_histories self excludePeers
      in ChatFilter fid title (case emoticon of None \<Rightarrow> [] | Some e \<Rightarrow> e) flags (fs_of_list (always @ pinned)) pinned (fs_of_list never))"
| "FromTL self MTP_dialogFilterDefault = default_filter"
| "FromTL self (MTP_dialogFilterChatlist hasMyInvites fid title emoticon pinnedPeers includePeers) =
     (let always = to_histories self includePeers; pinned = to_histories self pinnedPeers
      in ChatFilter fid title (case emoticon of None \<Rightarrow> [] | Some e \<Rightarrow> e) (FlagChatlist OR flag_if hasMyInvites FlagHasMyLinks)
           (fs_of_list (always @ pinned)) pinned [])"

text \<open>\<open>inputs\<close> gives the input peer kept with a chat.\<close>

definition filter_tl :: "(peer_id \<Rightarrow> input_peer) \<Rightarrow> int \<Rightarrow> chat_filter \<Rightarrow> mtp_dialog_filter" where
  "filter_tl inputs replaceId f =
     (let pinned = map inputs (cf_pinned f);
          always = fold fs_remove (cf_pinned f) (cf_always f);
          includes = map inputs always;
          fid = (if replaceId \<noteq> 0 then replaceId else cf_id f)
      in if has_flag f FlagChatlist
         then MTP_dialogFilterChatlist False fid (cf_title f) (Some (cf_icon f)) pinned includes
         else MTP_dialogFilter
           \<lparr>rf_contacts = has_flag f FlagContacts, rf_non_contacts = has_flag f FlagNonContacts, rf_groups = has_flag f FlagGroups,
            rf_broadcasts = has_flag f FlagChannels, rf_bots = has_flag f FlagBots, rf_exclude_muted = has_flag f FlagNoMuted,
            rf_exclude_read = has_flag f FlagNoRead, rf_exclude_archived = has_flag f FlagNoArchived\<rparr>
           fid (cf_title f) (Some (cf_icon f)) pinned includes (map inputs (cf_never f)))"

subsection \<open>The folders of an account\<close>

datatype load_request = NoRequest | PreloadedRequest | LoadRequest

record filter_link =
  fl_id :: int
  fl_url :: string
  fl_title :: string
  fl_chats :: "peer_id list"

datatype filters_event =
    ListChanged
  | IsChatlistChanged int
  | LinksUpdated int
  | EntryRefresh peer_id int bool
  | RequestFilters
  | PostponedMoreDialogs
  | RequestPeerDialogs "peer_id list"
  | RequestMoreDialogs
  | SaveOrder "int list"
  | EditInvite int string string
  | DeleteInvite int string

text \<open>
  The chats in the main list and in the archive, the chats in the list of each folder and those pinned there. The
  positions of the chats are modelled in \<open>DialogsList\<close> and \<open>DialogsPinned\<close>. \<open>cs_migratedFrom\<close> is the group a supergroup
  was made from, if it is loaded.
\<close>

record filters_state =
  cs_list :: "chat_filter list"
  cs_chat :: "peer_id \<Rightarrow> chat_state"
  cs_migratedFrom :: "peer_id \<Rightarrow> peer_id option"
  cs_main :: "peer_id list"
  cs_archive :: "peer_id list"
  cs_entries :: "int \<Rightarrow> peer_id list"
  cs_pinned :: "int \<Rightarrow> peer_id list"
  cs_loadRequest :: load_request
  cs_loaded :: bool
  cs_reloading :: bool
  cs_exceptions :: "int list"
  cs_exceptionsRequest :: bool
  cs_links :: "int \<Rightarrow> filter_link list"
  cs_events :: "filters_event list"

definition new_filters :: "(peer_id \<Rightarrow> chat_state) \<Rightarrow> (peer_id \<Rightarrow> peer_id option) \<Rightarrow> filters_state" where
  "new_filters chats migratedFrom =
     \<lparr>cs_list = [default_filter], cs_chat = chats, cs_migratedFrom = migratedFrom, cs_main = [], cs_archive = [],
      cs_entries = (\<lambda>_. []), cs_pinned = (\<lambda>_. []), cs_loadRequest = NoRequest, cs_loaded = False, cs_reloading = False,
      cs_exceptions = [], cs_exceptionsRequest = False, cs_links = (\<lambda>_. []), cs_events = []\<rparr>"

definition fire :: "filters_event \<Rightarrow> filters_state \<Rightarrow> filters_state" where
  "fire e s = s\<lparr>cs_events := cs_events s @ [e]\<rparr>"

abbreviation chats_shown :: "filters_state \<Rightarrow> peer_id list" where
  "chats_shown s \<equiv> cs_main s @ cs_archive s"

definition inChatList :: "peer_id \<Rightarrow> filters_state \<Rightarrow> bool" where
  "inChatList h s \<longleftrightarrow> h \<in> set (chats_shown s)"

definition inFilterList :: "int \<Rightarrow> peer_id \<Rightarrow> filters_state \<Rightarrow> bool" where
  "inFilterList fid h s \<longleftrightarrow> h \<in> set (cs_entries s fid)"

text \<open>\<open>addToChatList\<close> and \<open>removeFromChatList\<close> of a folder; a pinned chat is unpinned when it leaves.\<close>

definition add_entry :: "int \<Rightarrow> peer_id \<Rightarrow> filters_state \<Rightarrow> filters_state" where
  "add_entry fid h s =
     (if inFilterList fid h s then s else s\<lparr>cs_entries := (cs_entries s)(fid := cs_entries s fid @ [h])\<rparr>)"

definition remove_entry :: "int \<Rightarrow> peer_id \<Rightarrow> filters_state \<Rightarrow> filters_state" where
  "remove_entry fid h s =
     (let s1 = (if h \<in> set (cs_pinned s fid) then s\<lparr>cs_pinned := (cs_pinned s)(fid := remove1 h (cs_pinned s fid))\<rparr> else s)
      in if inFilterList fid h s1 then s1\<lparr>cs_entries := (cs_entries s1)(fid := removeAll h (cs_entries s1 fid))\<rparr> else s1)"

subsection \<open>Changes of a folder\<close>

definition feedHistory :: "chat_filter \<Rightarrow> chat_filter \<Rightarrow> peer_id \<Rightarrow> filters_state \<Rightarrow> filters_state" where
  "feedHistory f updated h s =
     (let now = filter_contains updated h (cs_chat s h); was = filter_contains f h (cs_chat s h)
      in if now \<noteq> was then (if now then add_entry (cf_id f) h s else remove_entry (cf_id f) h s) else s)"

definition exceptions_changed :: "chat_filter \<Rightarrow> chat_filter \<Rightarrow> bool" where
  "exceptions_changed f updated \<longleftrightarrow> cf_always f \<noteq> cf_always updated"

definition rules_changed :: "chat_filter \<Rightarrow> chat_filter \<Rightarrow> bool" where
  "rules_changed f updated \<longleftrightarrow> exceptions_changed f updated
     \<or> cf_flags f AND RulesMask \<noteq> cf_flags updated AND RulesMask \<or> cf_never f \<noteq> cf_never updated"

text \<open>What \<open>applyChange\<close> does with the chats when the rules of a folder change.\<close>

definition apply_rules :: "chat_filter \<Rightarrow> chat_filter \<Rightarrow> filters_state \<Rightarrow> filters_state" where
  "apply_rules f updated s =
     (let s1 = fold (feedHistory f updated) (chats_shown s) s
      in if exceptions_changed f updated \<and> cf_always updated \<noteq> []
         then fire PostponedMoreDialogs (s1\<lparr>cs_exceptions := cs_exceptions s1 @ [cf_id f]\<rparr>) else s1)"

definition pinned_changed :: "chat_filter \<Rightarrow> chat_filter \<Rightarrow> bool" where
  "pinned_changed f updated \<longleftrightarrow> cf_pinned f \<noteq> cf_pinned updated"

definition chatlist_changed :: "chat_filter \<Rightarrow> chat_filter \<Rightarrow> bool" where
  "chatlist_changed f updated \<longleftrightarrow> is_chatlist f \<noteq> is_chatlist updated \<or> hasMyLinks f \<noteq> hasMyLinks updated"

definition list_updated :: "chat_filter \<Rightarrow> chat_filter \<Rightarrow> bool" where
  "list_updated f updated \<longleftrightarrow> rules_changed f updated \<or> pinned_changed f updated
     \<or> cf_title f \<noteq> cf_title updated \<or> cf_icon f \<noteq> cf_icon updated"

definition applyChange :: "nat \<Rightarrow> chat_filter \<Rightarrow> filters_state \<Rightarrow> (bool \<times> filters_state) option" where
  "applyChange i updated s =
     (let f = cs_list s ! i in
      if cf_id f \<noteq> cf_id updated then None
      else if \<not> list_updated f updated \<and> \<not> chatlist_changed f updated then Some (False, s)
      else let s1 = (if rules_changed f updated then apply_rules f updated s else s);
               s2 = s1\<lparr>cs_list := (cs_list s1)[i := updated]\<rparr>;
               s3 = (if pinned_changed f updated
                 then s2\<lparr>cs_pinned := (cs_pinned s2)(cf_id updated := cf_pinned updated)\<rparr> else s2);
               s4 = (if chatlist_changed f updated then fire (IsChatlistChanged (cf_id updated)) s3 else s3)
           in Some (list_updated f updated, s4))"

definition empty_filter :: "int \<Rightarrow> chat_filter" where
  "empty_filter fid = ChatFilter fid [] [] 0 [] [] []"

definition applyInsert :: "chat_filter \<Rightarrow> nat \<Rightarrow> filters_state \<Rightarrow> filters_state option" where
  "applyInsert f i s =
     (if i > length (cs_list s) then None
      else map_option snd (applyChange i f (s\<lparr>cs_list := take i (cs_list s) @ empty_filter (cf_id f) # drop i (cs_list s)\<rparr>)))"

definition applyRemove :: "nat \<Rightarrow> filters_state \<Rightarrow> filters_state option" where
  "applyRemove i s =
     (if i \<ge> length (cs_list s) then None
      else map_option (\<lambda>r. (snd r)\<lparr>cs_list := take i (cs_list (snd r)) @ drop (Suc i) (cs_list (snd r))\<rparr>)
        (applyChange i (empty_filter (cf_id (cs_list s ! i))) s))"

text \<open>The place of the first folder with an id.\<close>

fun find_filter :: "int \<Rightarrow> chat_filter list \<Rightarrow> nat option" where
  "find_filter fid [] = None"
| "find_filter fid (f # fs) = (if cf_id f = fid then Some 0 else map_option Suc (find_filter fid fs))"

definition filters_set :: "chat_filter \<Rightarrow> filters_state \<Rightarrow> filters_state option" where
  "filters_set f s =
     (if cf_id f = 0 then Some s
      else case find_filter (cf_id f) (cs_list s) of
        None \<Rightarrow> map_option (fire ListChanged) (applyInsert f (length (cs_list s)) s)
      | Some i \<Rightarrow> map_option (\<lambda>(changed, s1). if changed then fire ListChanged s1 else s1) (applyChange i f s))"

definition filters_remove :: "int \<Rightarrow> filters_state \<Rightarrow> filters_state option" where
  "filters_remove fid s =
     (case find_filter fid (cs_list s) of
        None \<Rightarrow> Some s
      | Some i \<Rightarrow> map_option (fire ListChanged) (applyRemove i s))"

definition moveAllToFront :: "filters_state \<Rightarrow> filters_state" where
  "moveAllToFront s =
     (case find_filter 0 (cs_list s) of
        None \<Rightarrow> s\<lparr>cs_list := default_filter # cs_list s\<rparr>
      | Some 0 \<Rightarrow> s
      | Some (Suc i) \<Rightarrow> s\<lparr>cs_list := default_filter # take (Suc i) (cs_list s) @ drop (Suc (Suc i)) (cs_list s)\<rparr>)"

subsection \<open>The list the server sends\<close>

definition swap_filters :: "nat \<Rightarrow> nat \<Rightarrow> filters_state \<Rightarrow> filters_state" where
  "swap_filters i b s = s\<lparr>cs_list := (cs_list s)[i := cs_list s ! b, b := cs_list s ! i]\<rparr>"

fun received_loop :: "chat_filter list \<Rightarrow> nat \<Rightarrow> bool \<Rightarrow> filters_state \<Rightarrow> (nat \<times> bool \<times> filters_state) option" where
  "received_loop [] place changed s = Some (place, changed, s)"
| "received_loop (parsed # rest) place changed s =
     (case find_filter (cf_id parsed) (drop place (cs_list s)) of
        None \<Rightarrow> Option.bind (applyInsert parsed place s) (received_loop rest (Suc place) True)
      | Some 0 \<Rightarrow> Option.bind (applyChange place parsed s) (\<lambda>(r, s1). received_loop rest (Suc place) (changed \<or> r) s1)
      | Some (Suc i) \<Rightarrow> Option.bind (applyChange place parsed (swap_filters (place + Suc i) place s))
          (\<lambda>(r, s1). received_loop rest (Suc place) True s1))"

primrec remove_from :: "nat \<Rightarrow> nat \<Rightarrow> filters_state \<Rightarrow> filters_state option" where
  "remove_from 0 place s = Some s"
| "remove_from (Suc n) place s = Option.bind (applyRemove place s) (remove_from n place)"

definition received :: "peer_id \<Rightarrow> mtp_dialog_filter list \<Rightarrow> filters_state \<Rightarrow> filters_state option" where
  "received self list s =
     (case received_loop (map (FromTL self) list) 0 False s of
        None \<Rightarrow> None
      | Some (place, changed, s1) \<Rightarrow>
          let n = length (cs_list s1) - place in
          map_option (\<lambda>s2.
            let s3 = (if find_filter 0 (cs_list s2) = None then s2\<lparr>cs_list := default_filter # cs_list s2\<rparr> else s2)
            in if changed \<or> n > 0 \<or> \<not> cs_loaded s3 \<or> cs_reloading s3
               then fire ListChanged (s3\<lparr>cs_loaded := True, cs_reloading := False\<rparr>) else s3)
            (remove_from n place s1))"

definition setPreloaded :: "peer_id \<Rightarrow> mtp_dialog_filter list \<Rightarrow> filters_state \<Rightarrow> filters_state option" where
  "setPreloaded self list s = received self list (s\<lparr>cs_loadRequest := PreloadedRequest\<rparr>)"

text \<open>What is posted by \<open>setPreloaded\<close>.\<close>

definition preloadedDone :: "filters_state \<Rightarrow> filters_state" where
  "preloadedDone s = (if cs_loadRequest s = PreloadedRequest then s\<lparr>cs_loadRequest := NoRequest\<rparr> else s)"

definition filters_load :: "bool \<Rightarrow> filters_state \<Rightarrow> filters_state" where
  "filters_load force s =
     (if cs_loadRequest s \<noteq> NoRequest \<and> \<not> force then s else fire RequestFilters (s\<lparr>cs_loadRequest := LoadRequest\<rparr>))"

definition filters_reload :: "filters_state \<Rightarrow> filters_state" where
  "filters_reload s = filters_load False (s\<lparr>cs_reloading := True\<rparr>)"

definition loadDone :: "peer_id \<Rightarrow> mtp_dialog_filter list \<Rightarrow> filters_state \<Rightarrow> filters_state option" where
  "loadDone self list s = map_option (\<lambda>s1. s1\<lparr>cs_loadRequest := NoRequest\<rparr>) (received self list s)"

definition loadFail :: "filters_state \<Rightarrow> filters_state" where
  "loadFail s =
     (let s1 = s\<lparr>cs_loadRequest := NoRequest\<rparr>
      in if cs_reloading s1 then fire ListChanged (s1\<lparr>cs_reloading := False\<rparr>) else s1)"

subsection \<open>The order of the folders\<close>

fun find_id :: "int \<Rightarrow> int list \<Rightarrow> nat option" where
  "find_id fid [] = None"
| "find_id fid (x # xs) = (if x = fid then Some 0 else map_option Suc (find_id fid xs))"

text \<open>Each id is looked for in what is left and swapped to the front of it.\<close>

fun order_ids :: "int list \<Rightarrow> int list \<Rightarrow> bool" where
  "order_ids [] xs \<longleftrightarrow> True"
| "order_ids (fid # order) xs \<longleftrightarrow>
     (case find_id fid xs of None \<Rightarrow> False | Some i \<Rightarrow> order_ids order (tl (xs[i := hd xs])))"

fun order_filters :: "int list \<Rightarrow> chat_filter list \<Rightarrow> (bool \<times> chat_filter list) option" where
  "order_filters [] fs = Some (False, fs)"
| "order_filters (fid # order) fs =
     (case find_filter fid fs of
        None \<Rightarrow> None
      | Some i \<Rightarrow> map_option (\<lambda>(changed, gs). (i \<noteq> 0 \<or> changed, fs ! i # gs)) (order_filters order (tl (fs[i := hd fs]))))"

definition applyOrder :: "int list \<Rightarrow> filters_state \<Rightarrow> (bool \<times> filters_state) option" where
  "applyOrder order s =
     (if length order \<noteq> length (cs_list s) then Some (False, s)
      else if cs_list s = [] then Some (True, s)
      else if \<not> order_ids order (map cf_id (cs_list s)) then Some (False, s)
      else map_option (\<lambda>(changed, fs). (True, if changed then fire ListChanged (s\<lparr>cs_list := fs\<rparr>) else s\<lparr>cs_list := fs\<rparr>))
        (order_filters order (cs_list s)))"

datatype filters_update =
    UpdateDialogFilter int "mtp_dialog_filter option"
  | UpdateDialogFilters
  | UpdateDialogFilterOrder "int list"

fun filters_apply :: "peer_id \<Rightarrow> filters_update \<Rightarrow> filters_state \<Rightarrow> filters_state option" where
  "filters_apply self (UpdateDialogFilter fid (Some f)) s = filters_set (FromTL self f) s"
| "filters_apply self (UpdateDialogFilter fid None) s = filters_remove fid s"
| "filters_apply self UpdateDialogFilters s = Some (filters_load True s)"
| "filters_apply self (UpdateDialogFilterOrder order) s =
     map_option (\<lambda>(ok, s1). if ok then fire ListChanged s1 else filters_load True s1) (applyOrder order s)"

text \<open>The order is applied here and sent.\<close>

definition saveOrder :: "peer_id \<Rightarrow> int list \<Rightarrow> filters_state \<Rightarrow> filters_state option" where
  "saveOrder self order s = map_option (fire (SaveOrder order)) (filters_apply self (UpdateDialogFilterOrder order) s)"

text \<open>Without premium all chats come first, wherever they are in the list.\<close>

definition lookupId :: "bool \<Rightarrow> nat \<Rightarrow> filters_state \<Rightarrow> int option" where
  "lookupId premium index s =
     (let fs = cs_list s; front = (case find_filter 0 fs of None \<Rightarrow> length fs | Some i \<Rightarrow> i) in
      if index \<ge> length fs then None
      else if premium \<or> cf_id (hd fs) = 0 then Some (cf_id (fs ! index))
      else if index = 0 then Some 0
      else if index \<le> front then Some (cf_id (fs ! (index - 1)))
      else Some (cf_id (fs ! index)))"

definition defaultId :: "bool \<Rightarrow> filters_state \<Rightarrow> int option" where
  "defaultId premium s = lookupId premium 0 s"

definition filters_has :: "filters_state \<Rightarrow> bool" where
  "filters_has s \<longleftrightarrow> length (cs_list s) > 1"

definition archiveNeeded :: "filters_state \<Rightarrow> bool" where
  "archiveNeeded s \<longleftrightarrow> (\<exists>f \<in> set (cs_list s). \<not> has_flag f FlagNoArchived)"

subsection \<open>The chats pinned in a folder\<close>

fun pinned_rows :: "nat \<Rightarrow> peer_id option list \<Rightarrow> peer_id list \<Rightarrow> peer_id list \<Rightarrow> peer_id list \<times> peer_id list" where
  "pinned_rows limit [] always pinned = (always, pinned)"
| "pinned_rows limit (None # rows) always pinned = pinned_rows limit rows always pinned"
| "pinned_rows limit (Some h # rows) always pinned =
     (if h \<in> set always then pinned_rows limit rows always (pinned @ [h])
      else if length always < limit then pinned_rows limit rows (fs_insert h always) (pinned @ [h])
      else pinned_rows limit rows always pinned)"

definition applyUpdatedPinned :: "nat \<Rightarrow> int \<Rightarrow> peer_id option list \<Rightarrow> filters_state \<Rightarrow> filters_state option" where
  "applyUpdatedPinned limit fid dialogs s =
     (case find_filter fid (cs_list s) of
        None \<Rightarrow> None
      | Some i \<Rightarrow> let f = cs_list s ! i in
          case pinned_rows limit dialogs (cf_always f) [] of
            (always, pinned) \<Rightarrow> filters_set (ChatFilter fid (cf_title f) (cf_icon f) (cf_flags f) always pinned (cf_never f)) s)"

subsection \<open>Asking for the chats of the exceptions\<close>

definition kLoadExceptionsAfter :: int where
  "kLoadExceptionsAfter = 100"

definition kLoadExceptionsPerRequest :: nat where
  "kLoadExceptionsPerRequest = 100"

definition unknown_exceptions :: "filters_state \<Rightarrow> int \<Rightarrow> peer_id list" where
  "unknown_exceptions s fid =
     (case find_filter fid (cs_list s) of
        None \<Rightarrow> []
      | Some i \<Rightarrow> filter (\<lambda>h. \<not> ch_folderKnown (cs_chat s h)) (cf_always (cs_list s ! i)))"

text \<open>
  \<open>collectExceptions\<close> adds to the chats of the request itself and returns an empty list, which is what is
  counted and added then.
\<close>

fun exceptions_loop :: "filters_state \<Rightarrow> int list \<Rightarrow> peer_id list \<Rightarrow> peer_id list \<times> int list" where
  "exceptions_loop s [] inputs = (inputs, [])"
| "exceptions_loop s (fid # queue) inputs =
     (let inputs1 = inputs @ unknown_exceptions s fid; exceptions = ([] :: peer_id list)
      in if length inputs1 + length exceptions > kLoadExceptionsPerRequest then (inputs1, fid # queue)
         else exceptions_loop s queue (inputs1 @ exceptions))"

text \<open>\<open>fullSize\<close> is the size of the main list.\<close>

definition loadNextExceptions :: "bool \<Rightarrow> int \<Rightarrow> filters_state \<Rightarrow> bool \<times> filters_state" where
  "loadNextExceptions chatsListLoaded fullSize s =
     (if cs_exceptionsRequest s then (True, s)
      else if \<not> chatsListLoaded \<and> fullSize < kLoadExceptionsAfter then (False, s)
      else case exceptions_loop s (cs_exceptions s) [] of
        (inputs, queue) \<Rightarrow>
          let s1 = s\<lparr>cs_exceptions := queue\<rparr>
          in if inputs = [] then (False, s1)
             else (True, fire (RequestPeerDialogs inputs) (s1\<lparr>cs_exceptionsRequest := True\<rparr>)))"

text \<open>The reply or the failure of the request; the dialogs of a reply are applied by the histories.\<close>

definition exceptionsReplied :: "filters_state \<Rightarrow> filters_state" where
  "exceptionsReplied s = fire RequestMoreDialogs (s\<lparr>cs_exceptionsRequest := False\<rparr>)"

subsection \<open>Links to shared folders\<close>

fun link_at :: "string \<Rightarrow> filter_link list \<Rightarrow> nat option" where
  "link_at url [] = None"
| "link_at url (l # ls) = (if fl_url l = url then Some 0 else map_option Suc (link_at url ls))"

definition put_links :: "int \<Rightarrow> filter_link list \<Rightarrow> filters_state \<Rightarrow> filters_state" where
  "put_links fid ls s = s\<lparr>cs_links := (cs_links s)(fid := ls)\<rparr>"

definition link_add :: "int \<Rightarrow> string \<Rightarrow> string \<Rightarrow> peer_id list \<Rightarrow> filters_state \<Rightarrow> filter_link option \<times> filters_state" where
  "link_add fid url title chats s =
     (case find_filter fid (cs_list s) of
        None \<Rightarrow> (None, s)
      | Some i \<Rightarrow>
          if \<not> is_chatlist (cs_list s ! i) then (None, s)
          else let links = cs_links s fid; new = \<lparr>fl_id = fid, fl_url = url, fl_title = title, fl_chats = chats\<rparr> in
            case link_at url links of
              Some j \<Rightarrow>
                if fl_title (links ! j) \<noteq> title \<or> fl_chats (links ! j) \<noteq> chats
                then let l = (links ! j)\<lparr>fl_title := title, fl_chats := chats\<rparr>
                     in (Some l, fire (LinksUpdated fid) (put_links fid (links[j := l]) s))
                else (Some (links ! j), s)
            | None \<Rightarrow> (Some new, fire (LinksUpdated fid) (put_links fid (links @ [new]) s)))"

definition link_edit :: "int \<Rightarrow> string \<Rightarrow> string \<Rightarrow> filters_state \<Rightarrow> filters_state" where
  "link_edit fid url title s =
     (let links = cs_links s fid in
      case link_at url links of
        None \<Rightarrow> s
      | Some j \<Rightarrow> fire (EditInvite fid url title)
          (fire (LinksUpdated fid) (put_links fid (links[j := (links ! j)\<lparr>fl_title := title\<rparr>]) s)))"

definition link_destroy :: "int \<Rightarrow> string \<Rightarrow> filters_state \<Rightarrow> filters_state" where
  "link_destroy fid url s =
     (let links = cs_links s fid in
      case link_at url links of
        None \<Rightarrow> s
      | Some j \<Rightarrow> fire (DeleteInvite fid url) (fire (LinksUpdated fid) (put_links fid (take j links @ drop (Suc j) links) s)))"

text \<open>The reply to \<open>reloadChatlistLinks\<close>: all links of a folder.\<close>

definition links_reloaded :: "int \<Rightarrow> (string \<times> string \<times> peer_id list) list \<Rightarrow> filters_state \<Rightarrow> filters_state" where
  "links_reloaded fid invites s =
     fire (LinksUpdated fid) (fold (\<lambda>(url, title, chats) s. snd (link_add fid url title chats s)) invites (put_links fid [] s))"

subsection \<open>Chats in the lists\<close>

definition put_chat :: "peer_id \<Rightarrow> chat_state \<Rightarrow> filters_state \<Rightarrow> filters_state" where
  "put_chat h c s = s\<lparr>cs_chat := (cs_chat s)(h := c)\<rparr>"

definition main_add :: "peer_id \<Rightarrow> filters_state \<Rightarrow> filters_state" where
  "main_add h s =
     (if hu_folder (ch_history (cs_chat s h)) then s\<lparr>cs_archive := cs_archive s @ [h]\<rparr> else s\<lparr>cs_main := cs_main s @ [h]\<rparr>)"

definition main_remove :: "peer_id \<Rightarrow> filters_state \<Rightarrow> filters_state" where
  "main_remove h s = s\<lparr>cs_main := removeAll h (cs_main s), cs_archive := removeAll h (cs_archive s)\<rparr>"

definition leave_filter :: "peer_id \<Rightarrow> chat_filter \<Rightarrow> filters_state \<Rightarrow> filters_state" where
  "leave_filter h f s =
     (if cf_id f \<noteq> 0 \<and> inFilterList (cf_id f) h s
      then fire (EntryRefresh h (cf_id f) True) (remove_entry (cf_id f) h s) else s)"

definition removeChatListEntry :: "peer_id \<Rightarrow> filters_state \<Rightarrow> filters_state option" where
  "removeChatListEntry h s =
     (if \<not> inChatList h s then Some s
      else if \<not> ch_folderKnown (cs_chat s h) then None
      else Some (fire (EntryRefresh h 0 True) (main_remove h (fold (leave_filter h) (cs_list s) s))))"

definition refresh_filter :: "peer_id \<Rightarrow> chat_filter \<Rightarrow> filters_state \<Rightarrow> filters_state" where
  "refresh_filter h f s =
     (if cf_id f = 0 then s
      else if filter_contains f h (cs_chat s h)
      then (if inFilterList (cf_id f) h s then s else fire (EntryRefresh h (cf_id f) True) (add_entry (cf_id f) h s))
      else if inFilterList (cf_id f) h s then fire (EntryRefresh h (cf_id f) True) (remove_entry (cf_id f) h s)
      else s)"

text \<open>Changes of the place of a chat in its lists are not recorded.\<close>

definition refreshChatListEntry :: "peer_id \<Rightarrow> filters_state \<Rightarrow> filters_state option" where
  "refreshChatListEntry h s =
     (if \<not> ch_folderKnown (cs_chat s h) then None
      else let creating = (\<not> inChatList h s);
               s1 = (if creating then fire (EntryRefresh h 0 True) (main_add h s) else s);
               s2 = fold (refresh_filter h) (cs_list s1) s1
           in if creating then (case cs_migratedFrom s2 h of None \<Rightarrow> Some s2 | Some g \<Rightarrow> removeChatListEntry g s2) else Some s2)"

definition refreshHistory :: "peer_id \<Rightarrow> filters_state \<Rightarrow> filters_state option" where
  "refreshHistory h s = (if inChatList h s \<and> cs_list s \<noteq> [] then refreshChatListEntry h s else Some s)"

subsection \<open>Changes of a chat\<close>

definition isForFilters :: "UnreadState \<Rightarrow> bool" where
  "isForFilters st \<longleftrightarrow> us_messages st \<noteq> 0 \<or> us_marks st \<noteq> 0 \<or> us_mentions st \<noteq> 0"

text \<open>What \<open>notifyUnreadStateChange\<close> does for the folders; the totals of the lists are modelled in \<open>DialogsUnread\<close>.\<close>

definition chat_notify :: "peer_id \<Rightarrow> UnreadState \<Rightarrow> filters_state \<Rightarrow> filters_state option" where
  "chat_notify h wasState s =
     (if \<not> ch_folderKnown (cs_chat s h) \<or> \<not> inChatList h s then None
      else if isForFilters wasState \<noteq> isForFilters (chat_unread (cs_chat s h)) then refreshHistory h s else Some s)"

definition with_chat_notifier :: "bool \<Rightarrow> peer_id \<Rightarrow> chat_state \<Rightarrow> filters_state \<Rightarrow> filters_state option" where
  "with_chat_notifier required h c s =
     (if required \<and> inChatList h s then chat_notify h (chat_unread (cs_chat s h)) (put_chat h c s) else Some (put_chat h c s))"

definition isForum :: "chat_state \<Rightarrow> bool" where
  "isForum c \<longleftrightarrow> ch_forum c \<noteq> None"

definition put_history :: "history_unread \<Rightarrow> chat_state \<Rightarrow> chat_state" where
  "put_history u c = c\<lparr>ch_history := u\<rparr>"

definition setUnreadCount :: "peer_id \<Rightarrow> int \<Rightarrow> filters_state \<Rightarrow> filters_state option" where
  "setUnreadCount h n s =
     (let c = cs_chat s h; u = ch_history c in
      if \<not> ch_folderKnown c then None
      else if hu_unreadCount u = Some n then Some s
      else with_chat_notifier (\<not> isForum c) h (put_history (u\<lparr>hu_unreadCount := Some n\<rparr>) c) s)"

text \<open>\<open>clearUnreadOnClientSide\<close> is asked of the chat.\<close>

definition setUnreadMark :: "peer_id \<Rightarrow> bool \<Rightarrow> bool \<Rightarrow> filters_state \<Rightarrow> filters_state option" where
  "setUnreadMark h clearUnreadOnClientSide mark s =
     (let unread = (if clearUnreadOnClientSide then False else mark); c = cs_chat s h; u = ch_history c; cnt = (case hu_unreadCount u of None \<Rightarrow> 0 | Some n \<Rightarrow> n) in
      if hu_unreadMark u = unread then Some s
      else with_chat_notifier (cnt = 0 \<and> \<not> isForum c) h (put_history (u\<lparr>hu_unreadMark := unread\<rparr>) c) s)"

definition setMuted :: "peer_id \<Rightarrow> bool \<Rightarrow> filters_state \<Rightarrow> filters_state option" where
  "setMuted h muted s =
     (let c = cs_chat s h; u = ch_history c;
          state = (if isForum c then no_badges else computeBadgesState u) in
      if hu_muted u = muted then Some s
      else Option.bind (with_chat_notifier (bs_unread state \<or> bs_reaction state) h (put_history (u\<lparr>hu_muted := muted\<rparr>) c) s)
        (refreshHistory h))"

definition setFakeUnreadWhileOpened :: "peer_id \<Rightarrow> bool \<Rightarrow> filters_state \<Rightarrow> filters_state option" where
  "setFakeUnreadWhileOpened h enabled s =
     (let c = cs_chat s h in
      if ch_fakeUnread c = enabled then Some s
      else if enabled \<and> (\<not> inChatList h s \<or> \<not> bs_unread (chat_badges c) \<and> \<not> bs_mention (chat_badges c)) then Some s
      else refreshHistory h (put_chat h (c\<lparr>ch_fakeUnread := enabled\<rparr>) s))"

text \<open>The unread mentions and reactions of the chat itself change, \<open>hasUnreadMentionChanged\<close> tells of it.\<close>

definition thingsChanged :: "peer_id \<Rightarrow> things \<Rightarrow> filters_state \<Rightarrow> filters_state option" where
  "thingsChanged h t s =
     (let c = cs_chat s h; u = ch_history c; has = proxy_has Mentions t;
          s1 = put_chat h (put_history (u\<lparr>hu_things := t\<rparr>) c) s in
      if has = proxy_has Mentions (hu_things u) \<or> \<not> inChatList h s \<or> isForum c then Some s1
      else chat_notify h ((chat_unread (cs_chat s1 h))\<lparr>us_mentions := (if has then 0 else 1)\<rparr>) s1)"

text \<open>The topics of a forum change, or the chat becomes a forum or stops being one.\<close>

definition topicsChanged :: "peer_id \<Rightarrow> main_list option \<Rightarrow> filters_state \<Rightarrow> filters_state option" where
  "topicsChanged h topics s = with_chat_notifier True h ((cs_chat s h)\<lparr>ch_forum := topics\<rparr>) s"

definition setFolderPointer :: "peer_id \<Rightarrow> bool \<Rightarrow> filters_state \<Rightarrow> filters_state option" where
  "setFolderPointer h folder s =
     (let c = cs_chat s h; u = ch_history c in
      if ch_folderKnown c \<and> hu_folder u = folder then Some s
      else let wasInList = inChatList h s;
               s1 = (if wasInList then main_remove h s else s);
               s2 = put_chat h (put_history (u\<lparr>hu_folder := folder\<rparr>) (c\<lparr>ch_folderKnown := True\<rparr>)) s1
           in if wasInList then refreshHistory h (main_add h s2) else Some s2)"

definition userIsBotChanged :: "peer_id \<Rightarrow> filters_state \<Rightarrow> filters_state option" where
  "userIsBotChanged h s =
     (if ch_kind (cs_chat s h) \<in> {ContactUser, OtherUser}
      then refreshHistory h (put_chat h ((cs_chat s h)\<lparr>ch_kind := BotUser\<rparr>) s) else Some s)"

text \<open>\<open>setIsContact\<close> of \<open>data/data_user.cpp\<close> tells the peer's watchers only.\<close>

definition setIsContact :: "peer_id \<Rightarrow> bool \<Rightarrow> filters_state \<Rightarrow> filters_state" where
  "setIsContact h contact s =
     (if ch_kind (cs_chat s h) \<in> {ContactUser, OtherUser}
      then put_chat h ((cs_chat s h)\<lparr>ch_kind := (if contact then ContactUser else OtherUser)\<rparr>) s else s)"

subsection \<open>Calls\<close>

datatype filters_call =
    CallLoad
  | CallReload
  | CallLoadDone peer_id "mtp_dialog_filter list"
  | CallLoadFail
  | CallPreloaded peer_id "mtp_dialog_filter list"
  | CallPreloadedDone
  | CallApply peer_id filters_update
  | CallSet chat_filter
  | CallRemove int
  | CallMoveAllToFront
  | CallSaveOrder peer_id "int list"
  | CallUpdatedPinned nat int "peer_id option list"
  | CallLoadExceptions bool int
  | CallExceptionsReplied
  | CallRefreshEntry peer_id
  | CallRemoveEntry peer_id
  | CallUnreadCount peer_id int
  | CallUnreadMark peer_id bool bool
  | CallMuted peer_id bool
  | CallFakeUnread peer_id bool
  | CallThings peer_id things
  | CallTopics peer_id "main_list option"
  | CallFolder peer_id bool
  | CallIsBot peer_id
  | CallIsContact peer_id bool

fun filters_step :: "filters_call \<Rightarrow> filters_state \<Rightarrow> filters_state option" where
  "filters_step CallLoad s = Some (filters_load False s)"
| "filters_step CallReload s = Some (filters_reload s)"
| "filters_step (CallLoadDone self list) s = loadDone self list s"
| "filters_step CallLoadFail s = Some (loadFail s)"
| "filters_step (CallPreloaded self list) s = setPreloaded self list s"
| "filters_step CallPreloadedDone s = Some (preloadedDone s)"
| "filters_step (CallApply self u) s = filters_apply self u s"
| "filters_step (CallSet f) s = filters_set f s"
| "filters_step (CallRemove fid) s = filters_remove fid s"
| "filters_step CallMoveAllToFront s = Some (moveAllToFront s)"
| "filters_step (CallSaveOrder self order) s = saveOrder self order s"
| "filters_step (CallUpdatedPinned limit fid rows) s = applyUpdatedPinned limit fid rows s"
| "filters_step (CallLoadExceptions loaded n) s = Some (snd (loadNextExceptions loaded n s))"
| "filters_step CallExceptionsReplied s = Some (exceptionsReplied s)"
| "filters_step (CallRefreshEntry h) s = refreshChatListEntry h s"
| "filters_step (CallRemoveEntry h) s = removeChatListEntry h s"
| "filters_step (CallUnreadCount h n) s = setUnreadCount h n s"
| "filters_step (CallUnreadMark h clear b) s = setUnreadMark h clear b s"
| "filters_step (CallMuted h b) s = setMuted h b s"
| "filters_step (CallFakeUnread h b) s = setFakeUnreadWhileOpened h b s"
| "filters_step (CallThings h t) s = thingsChanged h t s"
| "filters_step (CallTopics h topics) s = topicsChanged h topics s"
| "filters_step (CallFolder h b) s = setFolderPointer h b s"
| "filters_step (CallIsBot h) s = userIsBotChanged h s"
| "filters_step (CallIsContact h b) s = Some (setIsContact h b s)"

fun filters_run :: "filters_call list \<Rightarrow> filters_state \<Rightarrow> filters_state option" where
  "filters_run [] s = Some s"
| "filters_run (c # cs) s = Option.bind (filters_step c s) (filters_run cs)"

subsection \<open>What a folder shows\<close>

definition folder_exact :: "chat_filter \<Rightarrow> filters_state \<Rightarrow> bool" where
  "folder_exact f s \<longleftrightarrow> (\<forall>h. inFilterList (cf_id f) h s \<longleftrightarrow> inChatList h s \<and> filter_contains f h (cs_chat s h))"

definition count_ok :: "chat_state \<Rightarrow> bool" where
  "count_ok c \<longleftrightarrow> (case hu_unreadCount (ch_history c) of None \<Rightarrow> True | Some n \<Rightarrow> 0 \<le> n)"

text \<open>
  The folders have different ids, each shows exactly the chats it contains, nothing is kept for ids without a folder.
\<close>

definition filters_ok :: "filters_state \<Rightarrow> bool" where
  "filters_ok s \<longleftrightarrow> distinct (map cf_id (cs_list s))
     \<and> (\<forall>f \<in> set (cs_list s). cf_id f \<noteq> 0 \<longrightarrow> folder_exact f s)
     \<and> (\<forall>fid. fid \<noteq> 0 \<and> fid \<notin> cf_id ` set (cs_list s) \<longrightarrow> cs_entries s fid = [])
     \<and> (\<forall>h. inChatList h s \<longrightarrow> ch_folderKnown (cs_chat s h)) \<and> (\<forall>h. count_ok (cs_chat s h))"

text \<open>Nothing but the lists of folders changes.\<close>

definition same_chats :: "filters_state \<Rightarrow> filters_state \<Rightarrow> bool" where
  "same_chats s s1 \<longleftrightarrow> cs_list s1 = cs_list s \<and> cs_chat s1 = cs_chat s \<and> cs_main s1 = cs_main s \<and> cs_archive s1 = cs_archive s
     \<and> cs_migratedFrom s1 = cs_migratedFrom s"

lemma same_chats_refl [simp]: "same_chats s s"
  by (simp add: same_chats_def)

lemma same_chats_trans: "same_chats s s1 \<Longrightarrow> same_chats s1 s2 \<Longrightarrow> same_chats s s2"
  by (simp add: same_chats_def)

lemma same_chats_inChatList: "same_chats s s1 \<Longrightarrow> inChatList h s1 = inChatList h s"
  by (simp add: same_chats_def inChatList_def)

lemma fire_simps [simp]:
  "cs_list (fire e s) = cs_list s" "cs_chat (fire e s) = cs_chat s" "cs_main (fire e s) = cs_main s"
  "cs_archive (fire e s) = cs_archive s" "cs_entries (fire e s) = cs_entries s" "cs_pinned (fire e s) = cs_pinned s"
  "cs_migratedFrom (fire e s) = cs_migratedFrom s" "inChatList h (fire e s) = inChatList h s"
  "inFilterList fid h (fire e s) = inFilterList fid h s" "same_chats s0 (fire e s) = same_chats s0 s"
  by (simp_all add: fire_def inChatList_def inFilterList_def same_chats_def)

lemma add_entry_simps [simp]:
  "same_chats s0 (add_entry fid h s) = same_chats s0 s"
  "inFilterList fid' h' (add_entry fid h s) \<longleftrightarrow> (fid' = fid \<and> h' = h) \<or> inFilterList fid' h' s"
  by (auto simp: add_entry_def same_chats_def inFilterList_def)

lemma remove_entry_simps [simp]:
  "same_chats s0 (remove_entry fid h s) = same_chats s0 s"
  "inFilterList fid' h' (remove_entry fid h s) \<longleftrightarrow> \<not> (fid' = fid \<and> h' = h) \<and> inFilterList fid' h' s"
  by (auto simp: remove_entry_def same_chats_def inFilterList_def Let_def)

lemma entries_other: "fid' \<noteq> fid \<Longrightarrow> cs_entries (add_entry fid h s) fid' = cs_entries s fid'"
  "fid' \<noteq> fid \<Longrightarrow> cs_entries (remove_entry fid h s) fid' = cs_entries s fid'"
  by (simp_all add: add_entry_def remove_entry_def Let_def)

lemma entries_empty: "cs_entries s fid = [] \<longleftrightarrow> (\<forall>h. \<not> inFilterList fid h s)"
  by (simp add: inFilterList_def)

text \<open>Feeding the chats after a change of the rules.\<close>

lemma feedHistory_simps:
  "same_chats s0 (feedHistory f u h s) = same_chats s0 s"
  "inFilterList fid h' (feedHistory f u h s) \<longleftrightarrow>
     (if fid = cf_id f \<and> h' = h \<and> filter_contains u h (cs_chat s h) \<noteq> filter_contains f h (cs_chat s h)
      then filter_contains u h (cs_chat s h) else inFilterList fid h' s)"
  by (auto simp: feedHistory_def Let_def)

lemma feed_fold:
  "same_chats s (fold (feedHistory f u) hs s) \<and>
   (inFilterList fid h (fold (feedHistory f u) hs s) \<longleftrightarrow>
     (if fid = cf_id f \<and> h \<in> set hs \<and> filter_contains u h (cs_chat s h) \<noteq> filter_contains f h (cs_chat s h)
      then filter_contains u h (cs_chat s h) else inFilterList fid h s))"
proof (induction hs arbitrary: s)
  case (Cons a hs)
  let ?s = "feedHistory f u a s"
  have s: "same_chats s ?s" using feedHistory_simps(1)[of s f u a s] by simp
  then have c: "cs_chat ?s = cs_chat s" by (simp add: same_chats_def)
  have "same_chats s (fold (feedHistory f u) hs ?s)" using same_chats_trans[OF s] Cons by blast
  then show ?case using Cons[of ?s] by (auto simp: c feedHistory_simps(2))
qed simp

lemma rules_mask:
  "FlagContacts AND RulesMask = FlagContacts" "FlagNonContacts AND RulesMask = FlagNonContacts" "FlagGroups AND RulesMask = FlagGroups"
  "FlagChannels AND RulesMask = FlagChannels" "FlagBots AND RulesMask = FlagBots" "FlagNoMuted AND RulesMask = FlagNoMuted"
  "FlagNoRead AND RulesMask = FlagNoRead" "FlagNoArchived AND RulesMask = FlagNoArchived"
  "(FlagNoMuted OR FlagNoRead) AND RulesMask = FlagNoMuted OR FlagNoRead"
  by (simp_all add: FlagContacts_def FlagNonContacts_def FlagGroups_def FlagChannels_def FlagBots_def FlagNoMuted_def
      FlagNoRead_def FlagNoArchived_def RulesMask_def)

lemma masked_flag:
  assumes "cf_flags f AND RulesMask = cf_flags u AND RulesMask" and "m AND RulesMask = m"
  shows "cf_flags f AND m = cf_flags u AND m"
proof -
  have "x AND m = (x AND RulesMask) AND m" for x :: filter_flags using assms(2) by (metis and.assoc and.commute)
  then show ?thesis using assms(1) by metis
qed

lemma contains_rules:
  assumes "\<not> rules_changed f u"
  shows "filter_contains f h c = filter_contains u h c"
proof -
  have m: "cf_flags f AND RulesMask = cf_flags u AND RulesMask" using assms by (simp add: rules_changed_def)
  have k: "kind_flag k AND RulesMask = kind_flag k" for k by (cases k) (simp_all add: rules_mask)
  note masked_flag[OF m k] masked_flag[OF m rules_mask(6)] masked_flag[OF m rules_mask(7)] masked_flag[OF m rules_mask(8)]
    masked_flag[OF m rules_mask(9)]
  then show ?thesis using assms
    by (simp add: filter_contains_def has_flag_def rules_changed_def exceptions_changed_def)
qed

definition chats_kept :: "filters_state \<Rightarrow> filters_state \<Rightarrow> bool" where
  "chats_kept s s1 \<longleftrightarrow> cs_chat s1 = cs_chat s \<and> cs_main s1 = cs_main s \<and> cs_archive s1 = cs_archive s
     \<and> cs_migratedFrom s1 = cs_migratedFrom s"

lemma chats_kept_refl [simp]: "chats_kept s s"
  by (simp add: chats_kept_def)

lemma chats_kept_trans: "chats_kept s s1 \<Longrightarrow> chats_kept s1 s2 \<Longrightarrow> chats_kept s s2"
  by (simp add: chats_kept_def)

lemma chats_kept_in: "chats_kept s s1 \<Longrightarrow> inChatList h s1 = inChatList h s"
  by (simp add: chats_kept_def inChatList_def)

lemma apply_rules_spec:
  assumes "folder_exact f s"
  shows "same_chats s (apply_rules f u s)" and "cf_id u = cf_id f \<Longrightarrow> folder_exact u (apply_rules f u s)"
    and "fid \<noteq> cf_id f \<Longrightarrow> inFilterList fid h (apply_rules f u s) = inFilterList fid h s"
proof -
  let ?s1 = "fold (feedHistory f u) (chats_shown s) s"
  have a: "same_chats s (apply_rules f u s) = same_chats s ?s1" "inFilterList g h (apply_rules f u s) = inFilterList g h ?s1" for g h
    by (auto simp: apply_rules_def Let_def same_chats_def inFilterList_def)
  have k: "same_chats s ?s1" using feed_fold[of s f u "chats_shown s"] by blast
  then show "same_chats s (apply_rules f u s)" using a(1) by simp
  show "inFilterList fid h (apply_rules f u s) = inFilterList fid h s" if "fid \<noteq> cf_id f"
    using feed_fold[of s f u "chats_shown s" fid h] that a(2) by auto
  have "inFilterList (cf_id f) h ?s1 \<longleftrightarrow> inChatList h s \<and> filter_contains u h (cs_chat s h)" for h
    using feed_fold[of s f u "chats_shown s" "cf_id f" h] assms by (auto simp: folder_exact_def inChatList_def)
  then show "cf_id u = cf_id f \<Longrightarrow> folder_exact u (apply_rules f u s)"
    using a k same_chats_inChatList[OF k] by (auto simp: folder_exact_def same_chats_def inChatList_def)
qed

lemma applyChange_spec:
  assumes "i < length (cs_list s)" and "cf_id (cs_list s ! i) = cf_id u" and "cf_id u \<noteq> 0 \<Longrightarrow> folder_exact (cs_list s ! i) s"
  obtains r s1 g where "applyChange i u s = Some (r, s1)" "cs_list s1 = (cs_list s)[i := g]" "cf_id g = cf_id u"
    "\<forall>h c. filter_contains g h c = filter_contains u h c" "chats_kept s s1"
    "cf_id u \<noteq> 0 \<longrightarrow> folder_exact g s1" "\<forall>fid h. fid \<noteq> cf_id u \<longrightarrow> inFilterList fid h s1 = inFilterList fid h s"
proof -
  define f where "f = cs_list s ! i"
  have fi: "cf_id f = cf_id u" "cf_id u \<noteq> 0 \<Longrightarrow> folder_exact f s" using assms by (simp_all add: f_def)
  show ?thesis
  proof (cases "list_updated f u \<or> chatlist_changed f u")
    case False
    then have "applyChange i u s = Some (False, s)"
      using fi(1) by (simp add: applyChange_def Let_def f_def[symmetric])
    moreover have "filter_contains f h c = filter_contains u h c" for h c
      using False contains_rules by (simp add: list_updated_def)
    ultimately show ?thesis using that[of False s f] fi assms(1) by (simp add: f_def)
  next
    case True
    define s1 where "s1 = (if rules_changed f u then apply_rules f u s else s)"
    define s2 where "s2 = s1\<lparr>cs_list := (cs_list s1)[i := u]\<rparr>"
    define s3 where "s3 = (if pinned_changed f u then s2\<lparr>cs_pinned := (cs_pinned s2)(cf_id u := cf_pinned u)\<rparr> else s2)"
    define s4 where "s4 = (if chatlist_changed f u then fire (IsChatlistChanged (cf_id u)) s3 else s3)"
    have r: "applyChange i u s = Some (list_updated f u, s4)"
      using True fi(1) unfolding applyChange_def Let_def f_def[symmetric] s1_def s2_def s3_def s4_def by auto
    have zero: "same_chats s (apply_rules f u s)" for s :: filters_state
      using feed_fold[of s f u "chats_shown s"] by (auto simp: apply_rules_def Let_def same_chats_def)
    have other: "inFilterList fid h (apply_rules f u s) = inFilterList fid h s" if "fid \<noteq> cf_id f" for fid h
      using feed_fold[of s f u "chats_shown s" fid h] that by (auto simp: apply_rules_def Let_def inFilterList_def)
    have k1: "same_chats s s1" using zero by (simp add: s1_def)
    have e1: "cf_id u \<noteq> 0 \<Longrightarrow> folder_exact u s1"
    proof (cases "rules_changed f u")
      case True
      assume "cf_id u \<noteq> 0"
      then show ?thesis using True apply_rules_spec(2)[OF fi(2)] fi(1) by (simp add: s1_def)
    next
      case False
      assume "cf_id u \<noteq> 0"
      then show ?thesis using False fi contains_rules[OF False] by (simp add: s1_def folder_exact_def)
    qed
    have same: "cs_entries s4 = cs_entries s1" "cs_chat s4 = cs_chat s1" "cs_main s4 = cs_main s1" "cs_archive s4 = cs_archive s1"
      "cs_migratedFrom s4 = cs_migratedFrom s1" "cs_list s4 = (cs_list s1)[i := u]"
      by (simp_all add: s4_def s3_def s2_def)
    have 1: "cs_list s4 = (cs_list s)[i := u]" "chats_kept s s4" using k1 same by (simp_all add: same_chats_def chats_kept_def)
    have 2: "cf_id u \<noteq> 0 \<Longrightarrow> folder_exact u s4" using e1 same by (simp add: folder_exact_def inFilterList_def inChatList_def)
    have 3: "inFilterList fid h s4 = inFilterList fid h s" if "fid \<noteq> cf_id u" for fid h
      using other[of fid h] that fi(1) same(1) by (simp add: inFilterList_def s1_def)
    show ?thesis using that[of "list_updated f u" s4 u] r 1 2 3 by blast
  qed
qed

text \<open>In a list of folders that is right, a change of one keeps it right.\<close>

lemma applyChange_ok:
  assumes ok: "filters_ok s" and i: "i < length (cs_list s)" and u: "cf_id (cs_list s ! i) = cf_id u"
  obtains r s1 g where "applyChange i u s = Some (r, s1)" "filters_ok s1" "cs_list s1 = (cs_list s)[i := g]" "cf_id g = cf_id u"
    "\<forall>h c. filter_contains g h c = filter_contains u h c" "chats_kept s s1"
proof -
  have f: "cs_list s ! i \<in> set (cs_list s)" using i by simp
  then have e: "cf_id u \<noteq> 0 \<Longrightarrow> folder_exact (cs_list s ! i) s" using ok u by (simp add: filters_ok_def)
  obtain r s1 g where r: "applyChange i u s = Some (r, s1)" "cs_list s1 = (cs_list s)[i := g]" "cf_id g = cf_id u"
    "\<forall>h c. filter_contains g h c = filter_contains u h c" "chats_kept s s1"
    "cf_id u \<noteq> 0 \<longrightarrow> folder_exact g s1" "\<forall>fid h. fid \<noteq> cf_id u \<longrightarrow> inFilterList fid h s1 = inFilterList fid h s"
    using applyChange_spec[OF i u e] by blast
  have ids: "map cf_id (cs_list s1) = map cf_id (cs_list s)"
    using r(2,3) u i by (metis list_update_id map_update)
  have d: "distinct (map cf_id (cs_list s))" using ok by (simp add: filters_ok_def)
  have "folder_exact f s1" if "f \<in> set (cs_list s1)" "cf_id f \<noteq> 0" for f
  proof (cases "cf_id f = cf_id u")
    case True
    have "g \<in> set (cs_list s1)" using r(2) i by (simp add: set_update_memI)
    moreover have "inj_on cf_id (set (cs_list s1))" using d ids by (metis distinct_map)
    ultimately have "f = g" using that(1) True r(3) by (metis inj_onD)
    then show ?thesis using r(6) that(2) True by simp
  next
    case False
    then have "f \<in> set (cs_list s)" using that(1) r(2,3) set_update_subset_insert[of "cs_list s" i g] by auto
    then have "folder_exact f s" using ok that(2) by (simp add: filters_ok_def)
    moreover have "\<forall>h. inFilterList (cf_id f) h s1 = inFilterList (cf_id f) h s" using r(7) False by blast
    moreover have "cs_chat s1 = cs_chat s" using r(5) by (simp add: chats_kept_def)
    ultimately show ?thesis using chats_kept_in[OF r(5)] by (simp add: folder_exact_def)
  qed
  moreover have "cs_entries s1 fid = []" if "fid \<noteq> 0" "fid \<notin> cf_id ` set (cs_list s1)" for fid
  proof -
    have a: "cf_id ` set (cs_list s1) = cf_id ` set (cs_list s)" using ids by (metis image_set)
    then have "cs_entries s fid = []" using ok that by (simp add: filters_ok_def)
    moreover have "cf_id u \<in> cf_id ` set (cs_list s)" using f u by (metis image_eqI)
    then have "fid \<noteq> cf_id u" using that(2) a by auto
    ultimately have "\<forall>h. inFilterList fid h s1 = inFilterList fid h s" using r(7) by blast
    then show ?thesis using \<open>cs_entries s fid = []\<close> by (simp add: entries_empty)
  qed
  ultimately have "filters_ok s1"
    using ok ids d r(5) chats_kept_in[OF r(5)] by (simp add: filters_ok_def chats_kept_def)
  then show ?thesis using that r(1-5) by blast
qed

lemma empty_contains [simp]: "\<not> filter_contains (empty_filter fid) h c"
  by (simp add: filter_contains_def empty_filter_def ChatFilter_def has_flag_def)

lemma empty_filter_id [simp]: "cf_id (empty_filter fid) = fid"
  by (simp add: empty_filter_def ChatFilter_def)

lemma filters_okD:
  assumes "filters_ok s"
  shows "distinct (map cf_id (cs_list s))" "f \<in> set (cs_list s) \<Longrightarrow> cf_id f \<noteq> 0 \<Longrightarrow> folder_exact f s"
    "fid \<noteq> 0 \<Longrightarrow> fid \<notin> cf_id ` set (cs_list s) \<Longrightarrow> cs_entries s fid = []"
    "inChatList h s \<Longrightarrow> ch_folderKnown (cs_chat s h)" "count_ok (cs_chat s h)"
  using assms unfolding filters_ok_def by blast+

text \<open>The same folders in another list.\<close>

lemma filters_ok_relist:
  assumes "filters_ok s" and "distinct (map cf_id fs)" and "\<forall>f \<in> set fs. cf_id f \<noteq> 0 \<longrightarrow> folder_exact f s"
    and "\<forall>f \<in> set (cs_list s). cf_id f \<noteq> 0 \<longrightarrow> cf_id f \<in> cf_id ` set fs \<or> cs_entries s (cf_id f) = []"
  shows "filters_ok (s\<lparr>cs_list := fs\<rparr>)"
proof -
  have "cs_entries s fid = []" if "fid \<noteq> 0" "fid \<notin> cf_id ` set fs" for fid
    using filters_okD(3)[OF assms(1) that(1)] assms(4) that by (cases "fid \<in> cf_id ` set (cs_list s)") auto
  then show ?thesis using assms unfolding filters_ok_def folder_exact_def inFilterList_def inChatList_def by simp
qed

lemma filters_ok_events:
  "cs_list s1 = cs_list s \<Longrightarrow> cs_chat s1 = cs_chat s \<Longrightarrow> cs_main s1 = cs_main s \<Longrightarrow> cs_archive s1 = cs_archive s
    \<Longrightarrow> cs_entries s1 = cs_entries s \<Longrightarrow> filters_ok s1 = filters_ok s"
  by (simp add: filters_ok_def folder_exact_def inFilterList_def inChatList_def)

lemma filters_ok_fire [simp]: "filters_ok (fire e s) = filters_ok s"
  by (rule filters_ok_events) simp_all

lemma distinct_insert_at: "distinct xs \<Longrightarrow> x \<notin> set xs \<Longrightarrow> distinct (take i xs @ x # drop i xs)"
  using set_take_disj_set_drop_if_distinct[of xs i i] by (auto dest: in_set_takeD in_set_dropD)

lemma applyInsert_ok:
  assumes ok: "filters_ok s" and i: "i \<le> length (cs_list s)" and new: "cf_id u \<notin> cf_id ` set (cs_list s)"
  obtains s1 g where "applyInsert u i s = Some s1" "filters_ok s1" "cs_list s1 = take i (cs_list s) @ g # drop i (cs_list s)" "cf_id g = cf_id u"
    "\<forall>h c. filter_contains g h c = filter_contains u h c" "chats_kept s s1"
proof -
  let ?fs = "take i (cs_list s) @ empty_filter (cf_id u) # drop i (cs_list s)"
  let ?s = "s\<lparr>cs_list := ?fs\<rparr>"
  have m: "set ?fs = insert (empty_filter (cf_id u)) (set (cs_list s))"
    by (metis append_take_drop_id list.simps(15) set_append Un_insert_right)
  have "map cf_id ?fs = take i (map cf_id (cs_list s)) @ cf_id u # drop i (map cf_id (cs_list s))" by (simp add: take_map drop_map)
  then have d: "distinct (map cf_id ?fs)" using distinct_insert_at[OF filters_okD(1)[OF ok]] new by (metis set_map)
  have e: "cf_id u \<noteq> 0 \<Longrightarrow> folder_exact (empty_filter (cf_id u)) s"
    using filters_okD(3)[OF ok _ new] by (simp add: folder_exact_def entries_empty)
  have k: "filters_ok ?s"
    by (rule filters_ok_relist[OF ok d]) (use m e filters_okD(2)[OF ok] in auto)
  have l: "i < length (cs_list ?s)" "cs_list ?s ! i = empty_filter (cf_id u)" using i by (simp_all add: nth_append)
  obtain r s1 g where r: "applyChange i u ?s = Some (r, s1)" "filters_ok s1" "cs_list s1 = (cs_list ?s)[i := g]" "cf_id g = cf_id u"
    "\<forall>h c. filter_contains g h c = filter_contains u h c" "chats_kept ?s s1"
    using applyChange_ok[OF k l(1), of u] l(2) empty_filter_id[of "cf_id u"] by metis
  have "(cs_list ?s)[i := g] = take i (cs_list s) @ g # drop i (cs_list s)"
    using i by (simp add: list_update_append)
  moreover have "applyInsert u i s = Some s1" using r(1) i by (simp add: applyInsert_def)
  moreover have "chats_kept s s1" using r(6) by (simp add: chats_kept_def)
  ultimately show ?thesis using that[of s1 g] r(2,3,4,5) by simp
qed

lemma applyRemove_ok:
  assumes ok: "filters_ok s" and i: "i < length (cs_list s)"
  obtains s1 where "applyRemove i s = Some s1" "filters_ok s1" "cs_list s1 = take i (cs_list s) @ drop (Suc i) (cs_list s)" "chats_kept s s1"
proof -
  let ?u = "empty_filter (cf_id (cs_list s ! i))"
  obtain r s1 g where r: "applyChange i ?u s = Some (r, s1)" "filters_ok s1" "cs_list s1 = (cs_list s)[i := g]" "cf_id g = cf_id (cs_list s ! i)"
    "\<forall>h c. filter_contains g h c = filter_contains ?u h c" "chats_kept s s1"
    using applyChange_ok[OF ok i, of ?u] by (metis empty_filter_id)
  let ?fs = "take i (cs_list s) @ drop (Suc i) (cs_list s)"
  have l: "cs_list s1 = take i (cs_list s) @ g # drop (Suc i) (cs_list s)" using r(3) i by (simp add: upd_conv_take_nth_drop)
  have d: "distinct (map cf_id (cs_list s1))" using filters_okD(1)[OF r(2)] .
  have "g \<in> set (cs_list s1)" by (simp add: l)
  then have "cf_id g \<noteq> 0 \<Longrightarrow> cs_entries s1 (cf_id g) = []"
    using filters_okD(2)[OF r(2), of g] r(5) by (simp add: folder_exact_def entries_empty)
  moreover have "set ?fs \<subseteq> set (cs_list s1)" using l by auto
  ultimately have "filters_ok (s1\<lparr>cs_list := ?fs\<rparr>)"
    by (intro filters_ok_relist[OF r(2)]) (use d l filters_okD(2)[OF r(2)] in auto)
  moreover have "applyRemove i s = Some (s1\<lparr>cs_list := ?fs\<rparr>)"
    using r(1) i l by (simp add: applyRemove_def)
  ultimately show ?thesis using that[of "s1\<lparr>cs_list := ?fs\<rparr>"] r(6) by (simp add: chats_kept_def)
qed

lemma find_filter_Some: "find_filter fid fs = Some i \<Longrightarrow> i < length fs \<and> cf_id (fs ! i) = fid"
  by (induction fs arbitrary: i) (auto split: if_splits)

lemma find_filter_None: "find_filter fid fs = None \<longleftrightarrow> fid \<notin> cf_id ` set fs"
  by (induction fs) auto

lemma swap_filters_ok:
  assumes ok: "filters_ok s" and i: "i < length (cs_list s)" "b < length (cs_list s)"
  shows "filters_ok (swap_filters i b s)"
  unfolding swap_filters_def
proof (rule filters_ok_relist[OF ok])
  let ?l = "cs_list s"
  have "map cf_id (?l[i := ?l ! b, b := ?l ! i]) = (map cf_id ?l)[i := map cf_id ?l ! b, b := map cf_id ?l ! i]"
    using i by (simp add: map_update)
  moreover have "distinct ((map cf_id ?l)[i := map cf_id ?l ! b, b := map cf_id ?l ! i])"
    using distinct_swap[of i "map cf_id ?l" b] filters_okD(1)[OF ok] i by (simp del: nth_map)
  ultimately show "distinct (map cf_id (?l[i := ?l ! b, b := ?l ! i]))" by metis
  have m: "set (?l[i := ?l ! b, b := ?l ! i]) = set ?l" using i by (simp add: set_swap)
  show "\<forall>f \<in> set (?l[i := ?l ! b, b := ?l ! i]). cf_id f \<noteq> 0 \<longrightarrow> folder_exact f s" using m filters_okD(2)[OF ok] by blast
  show "\<forall>f \<in> set ?l. cf_id f \<noteq> 0 \<longrightarrow> cf_id f \<in> cf_id ` set (?l[i := ?l ! b, b := ?l ! i]) \<or> cs_entries s (cf_id f) = []"
    using m by simp
qed

text \<open>A folder of the list does what the one received says.\<close>

definition same_rules :: "chat_filter \<Rightarrow> chat_filter \<Rightarrow> bool" where
  "same_rules g u \<longleftrightarrow> cf_id g = cf_id u \<and> (\<forall>h c. filter_contains g h c = filter_contains u h c)"

lemma received_put:
  assumes ok: "filters_ok s" and i: "find_filter (cf_id u) (drop p (cs_list s)) = Some i"
  obtains r s1 g where "applyChange p u (if i = 0 then s else swap_filters (p + i) p s) = Some (r, s1)" "filters_ok s1"
    "take p (cs_list s1) = take p (cs_list s)" "p < length (cs_list s1)" "cs_list s1 ! p = g" "same_rules g u" "chats_kept s s1"
proof -
  have f: "p + i < length (cs_list s)" "cf_id (cs_list s ! (p + i)) = cf_id u"
    using find_filter_Some[OF i] by auto
  let ?s = "if i = 0 then s else swap_filters (p + i) p s"
  have k: "filters_ok ?s" using ok swap_filters_ok[OF ok f(1), of p] f(1) by simp
  have l: "p < length (cs_list ?s)" "cf_id (cs_list ?s ! p) = cf_id u" "take p (cs_list ?s) = take p (cs_list s)"
    using f by (auto simp: swap_filters_def)
  obtain r s1 g where r: "applyChange p u ?s = Some (r, s1)" "filters_ok s1" "cs_list s1 = (cs_list ?s)[p := g]" "cf_id g = cf_id u"
    "\<forall>h c. filter_contains g h c = filter_contains u h c" "chats_kept ?s s1"
    by (rule applyChange_ok[OF k l(1,2)])
  have "chats_kept s ?s" by (simp add: swap_filters_def chats_kept_def)
  then have "chats_kept s s1" using r(6) by (rule chats_kept_trans)
  moreover have "same_rules g u" using r(4,5) by (simp add: same_rules_def)
  moreover have "take p (cs_list s1) = take p (cs_list s)" "p < length (cs_list s1)" "cs_list s1 ! p = g"
    using r(3) l by simp_all
  ultimately show ?thesis using that[OF r(1,2), of g] by blast
qed

lemma received_loop_ok:
  "filters_ok s \<Longrightarrow> p \<le> length (cs_list s) \<Longrightarrow> distinct (map cf_id us) \<Longrightarrow> \<forall>u \<in> set us. cf_id u \<notin> cf_id ` set (take p (cs_list s))
    \<Longrightarrow> \<exists>c s1. received_loop us p ch s = Some (p + length us, c, s1) \<and> filters_ok s1 \<and> chats_kept s s1
      \<and> p + length us \<le> length (cs_list s1) \<and> take p (cs_list s1) = take p (cs_list s)
      \<and> list_all2 same_rules (take (length us) (drop p (cs_list s1))) us"
proof (induction us arbitrary: p ch s)
  case (Cons u us)
  have step: "\<exists>c s2. received_loop us (Suc p) ch1 s1 = Some (p + length (u # us), c, s2) \<and> filters_ok s2 \<and> chats_kept s s2
      \<and> p + length (u # us) \<le> length (cs_list s2) \<and> take p (cs_list s2) = take p (cs_list s)
      \<and> list_all2 same_rules (take (length (u # us)) (drop p (cs_list s2))) (u # us)"
    if "filters_ok s1" "take p (cs_list s1) = take p (cs_list s)" "p < length (cs_list s1)" "same_rules (cs_list s1 ! p) u" "chats_kept s s1" for s1 ch1
  proof -
    note a = that
    have t: "take (Suc p) (cs_list s1) = take p (cs_list s) @ [cs_list s1 ! p]" using a(2,3) by (simp add: take_Suc_conv_app_nth)
    have "\<forall>v \<in> set us. cf_id v \<noteq> cf_id (cs_list s1 ! p)"
      using Cons.prems(3) a(4) by (auto simp: same_rules_def intro: rev_image_eqI)
    then have "\<forall>v \<in> set us. cf_id v \<notin> cf_id ` set (take (Suc p) (cs_list s1))"
      using Cons.prems(4) unfolding t by auto
    then obtain c s2 where s2: "received_loop us (Suc p) ch1 s1 = Some (Suc p + length us, c, s2)" "filters_ok s2" "chats_kept s1 s2"
      "Suc p + length us \<le> length (cs_list s2)" "take (Suc p) (cs_list s2) = take (Suc p) (cs_list s1)"
      "list_all2 same_rules (take (length us) (drop (Suc p) (cs_list s2))) us"
      using Cons.IH[of s1 "Suc p" ch1] a(1,3) Cons.prems(3) by auto
    have n: "cs_list s2 ! p = cs_list s1 ! p" using s2(5) by (metis lessI nth_take)
    have p: "p < length (cs_list s2)" using s2(4) by simp
    have "drop p (cs_list s2) = cs_list s1 ! p # drop (Suc p) (cs_list s2)" using n p by (metis Cons_nth_drop_Suc)
    then have "list_all2 same_rules (take (length (u # us)) (drop p (cs_list s2))) (u # us)" using s2(6) a(4) by simp
    moreover have "take p (cs_list s2) = take p (cs_list s)" using s2(5) a(2) by (metis lessI less_imp_le_nat min.absorb1 take_take)
    ultimately show ?thesis using s2(1-4) chats_kept_trans[OF a(5) s2(3)] by simp
  qed
  show ?case
  proof (cases "find_filter (cf_id u) (drop p (cs_list s))")
    case None
    then have "cf_id u \<notin> cf_id ` set (take p (cs_list s) @ drop p (cs_list s))"
      using Cons.prems(4) find_filter_None by (simp add: image_Un del: append_take_drop_id)
    then have new: "cf_id u \<notin> cf_id ` set (cs_list s)" by (simp only: append_take_drop_id) simp
    obtain s1 g where s1: "applyInsert u p s = Some s1" "filters_ok s1" "cs_list s1 = take p (cs_list s) @ g # drop p (cs_list s)" "cf_id g = cf_id u"
      "\<forall>h c. filter_contains g h c = filter_contains u h c" "chats_kept s s1"
      by (rule applyInsert_ok[OF Cons.prems(1,2) new])
    have "same_rules (cs_list s1 ! p) u" "take p (cs_list s1) = take p (cs_list s)" "p < length (cs_list s1)"
      using s1(3,4,5) Cons.prems(2) by (simp_all add: nth_append same_rules_def)
    then show ?thesis using step[OF s1(2) _ _ _ s1(6), of True] s1(1) None by simp
  next
    case (Some i)
    obtain r s1 g where r: "applyChange p u (if i = 0 then s else swap_filters (p + i) p s) = Some (r, s1)" "filters_ok s1"
      "take p (cs_list s1) = take p (cs_list s)" "p < length (cs_list s1)" "cs_list s1 ! p = g" "same_rules g u" "chats_kept s s1"
      by (rule received_put[OF Cons.prems(1) Some])
    then show ?thesis using step[OF r(2,3,4) _ r(7), of "ch \<or> r"] step[OF r(2,3,4) _ r(7), of True] Some
      by (cases i) simp_all
  qed
qed simp

lemma remove_from_ok:
  "filters_ok s \<Longrightarrow> p \<le> length (cs_list s) \<Longrightarrow> n = length (cs_list s) - p
    \<Longrightarrow> \<exists>s1. remove_from n p s = Some s1 \<and> filters_ok s1 \<and> chats_kept s s1 \<and> cs_list s1 = take p (cs_list s)"
proof (induction n arbitrary: s)
  case (Suc n)
  then have p: "p < length (cs_list s)" by simp
  obtain s1 where s1: "applyRemove p s = Some s1" "filters_ok s1" "cs_list s1 = take p (cs_list s) @ drop (Suc p) (cs_list s)" "chats_kept s s1"
    by (rule applyRemove_ok[OF Suc.prems(1) p])
  have "p \<le> length (cs_list s1)" "n = length (cs_list s1) - p" using s1(3) p Suc.prems(3) by auto
  from Suc.IH[OF s1(2) this] obtain s2 where "remove_from n p s1 = Some s2" "filters_ok s2" "chats_kept s1 s2" "cs_list s2 = take p (cs_list s1)"
    by blast
  then show ?case using s1 p chats_kept_trans[OF s1(4)] by auto
qed auto


text \<open>The list received from the server.\<close>

lemma loaded_ok:
  assumes "filters_ok s" and "distinct (map cf_id us)"
  obtains p c s1 s2 where "received_loop us 0 False s = Some (p, c, s1)" "remove_from (length (cs_list s1) - p) p s1 = Some s2"
    "filters_ok s2" "chats_kept s s2" "list_all2 same_rules (cs_list s2) us"
proof -
  obtain c s1 where s1: "received_loop us 0 False s = Some (length us, c, s1)" "filters_ok s1" "chats_kept s s1"
    "length us \<le> length (cs_list s1)" "list_all2 same_rules (take (length us) (cs_list s1)) us"
    using received_loop_ok[OF assms(1) _ assms(2), of 0 False] by auto
  obtain s2 where "remove_from (length (cs_list s1) - length us) (length us) s1 = Some s2" "filters_ok s2" "chats_kept s1 s2"
    "cs_list s2 = take (length us) (cs_list s1)"
    using remove_from_ok[OF s1(2,4) refl] by blast
  then show ?thesis using that[OF s1(1)] s1(5) chats_kept_trans[OF s1(3)] by simp
qed

lemma add_default_ok:
  assumes ok: "filters_ok s" and none: "find_filter 0 (cs_list s) = None"
  shows "filters_ok (s\<lparr>cs_list := default_filter # cs_list s\<rparr>)"
proof (rule filters_ok_relist[OF ok])
  show "distinct (map cf_id (default_filter # cs_list s))"
    using filters_okD(1)[OF ok] none by (simp add: find_filter_None default_filter_def ChatFilter_def)
qed (use filters_okD(2)[OF ok] in \<open>auto simp: default_filter_def ChatFilter_def\<close>)

lemma received_ok:
  assumes ok: "filters_ok s" and d: "distinct (map (cf_id \<circ> FromTL self) list)"
  obtains s1 fs where "received self list s = Some s1" "filters_ok s1" "chats_kept s s1"
    "list_all2 same_rules fs (map (FromTL self) list)" "cs_list s1 = (if 0 \<in> cf_id ` set fs then fs else default_filter # fs)"
proof -
  from d have "distinct (map cf_id (map (FromTL self) list))" by simp
  from loaded_ok[OF ok this] obtain p c s1 s2 where
    r: "received_loop (map (FromTL self) list) 0 False s = Some (p, c, s1)" "remove_from (length (cs_list s1) - p) p s1 = Some s2"
      "filters_ok s2" "chats_kept s s2" "list_all2 same_rules (cs_list s2) (map (FromTL self) list)" by blast
  define s3 where "s3 = (if find_filter 0 (cs_list s2) = None then s2\<lparr>cs_list := default_filter # cs_list s2\<rparr> else s2)"
  define s4 where "s4 = (if c \<or> length (cs_list s1) - p > 0 \<or> \<not> cs_loaded s3 \<or> cs_reloading s3
               then fire ListChanged (s3\<lparr>cs_loaded := True, cs_reloading := False\<rparr>) else s3)"
  have "filters_ok s3" using r(3) add_default_ok[OF r(3)] by (simp add: s3_def)
  then have "filters_ok s4" using filters_ok_events[of s4 s3] by (simp add: s4_def)
  moreover have "received self list s = Some s4" by (simp add: received_def r(1,2) Let_def s3_def s4_def)
  moreover have "chats_kept s s4" using r(4) by (simp add: chats_kept_def s4_def s3_def)
  moreover have "cs_list s4 = (if 0 \<in> cf_id ` set (cs_list s2) then cs_list s2 else default_filter # cs_list s2)"
    by (simp add: s4_def s3_def find_filter_None)
  ultimately show ?thesis using that r(5) by blast
qed

text \<open>One folder set, removed or moved.\<close>

lemma filters_set_ok:
  assumes ok: "filters_ok s"
  obtains s1 where "filters_set f s = Some s1" "filters_ok s1" "chats_kept s s1"
proof (cases "cf_id f = 0")
  case True
  then show ?thesis using that ok by (simp add: filters_set_def)
next
  case False
  show ?thesis
  proof (cases "find_filter (cf_id f) (cs_list s)")
    case None
    from None have new: "cf_id f \<notin> cf_id ` set (cs_list s)" by (simp add: find_filter_None)
    obtain s1 g where "applyInsert f (length (cs_list s)) s = Some s1" "filters_ok s1" "chats_kept s s1"
      by (rule applyInsert_ok[OF ok order_refl new])
    then show ?thesis using that[of "fire ListChanged s1"] None False by (simp add: filters_set_def chats_kept_def)
  next
    case (Some i)
    then have i: "i < length (cs_list s)" "cf_id (cs_list s ! i) = cf_id f" using find_filter_Some by blast+
    obtain r s1 g where "applyChange i f s = Some (r, s1)" "filters_ok s1" "chats_kept s s1" by (rule applyChange_ok[OF ok i])
    then show ?thesis using that[of "if r then fire ListChanged s1 else s1"] Some False
      by (simp add: filters_set_def chats_kept_def)
  qed
qed

lemma filters_remove_ok:
  assumes ok: "filters_ok s"
  obtains s1 where "filters_remove fid s = Some s1" "filters_ok s1" "chats_kept s s1"
proof (cases "find_filter fid (cs_list s)")
  case None
  then show ?thesis using that ok by (simp add: filters_remove_def)
next
  case (Some i)
  then have i: "i < length (cs_list s)" using find_filter_Some by blast
  obtain s1 where "applyRemove i s = Some s1" "filters_ok s1" "chats_kept s s1" by (rule applyRemove_ok[OF ok i])
  then show ?thesis using that[of "fire ListChanged s1"] Some by (simp add: filters_remove_def chats_kept_def)
qed

lemma filters_ok_mset:
  assumes ok: "filters_ok s" and m: "mset fs = mset (cs_list s)"
  shows "filters_ok (s\<lparr>cs_list := fs\<rparr>)"
proof (rule filters_ok_relist[OF ok])
  have "mset (map cf_id fs) = mset (map cf_id (cs_list s))" using m by simp
  then show "distinct (map cf_id fs)" using filters_okD(1)[OF ok] mset_eq_imp_distinct_iff by blast
  have s: "set fs = set (cs_list s)" using m by (rule mset_eq_setD)
  show "\<forall>f \<in> set fs. cf_id f \<noteq> 0 \<longrightarrow> folder_exact f s" using s filters_okD(2)[OF ok] by blast
  show "\<forall>f \<in> set (cs_list s). cf_id f \<noteq> 0 \<longrightarrow> cf_id f \<in> cf_id ` set fs \<or> cs_entries s (cf_id f) = []" using s by simp
qed


lemma moveAllToFront_ok:
  assumes ok: "filters_ok s"
  shows "filters_ok (moveAllToFront s)" "chats_kept s (moveAllToFront s)"
proof -
  show "chats_kept s (moveAllToFront s)" by (simp add: moveAllToFront_def chats_kept_def split: option.split nat.split)
  have d: "cf_id default_filter = 0" by (simp add: default_filter_def ChatFilter_def)
  show "filters_ok (moveAllToFront s)"
  proof (cases "find_filter 0 (cs_list s)")
    case None
    then show ?thesis using add_default_ok[OF ok] by (simp add: moveAllToFront_def)
  next
    case (Some i)
    have i: "i < length (cs_list s)" "cf_id (cs_list s ! i) = 0" using find_filter_Some[OF Some] by blast+
    let ?fs = "take i (cs_list s) @ drop (Suc i) (cs_list s)"
    have l: "cs_list s = take i (cs_list s) @ cs_list s ! i # drop (Suc i) (cs_list s)" using i(1) by (rule id_take_nth_drop)
    then have m: "map cf_id (cs_list s) = map cf_id (take i (cs_list s)) @ 0 # map cf_id (drop (Suc i) (cs_list s))"
      using i(2) by (metis list.simps(9) map_append)
    have "distinct (map cf_id (default_filter # ?fs))" using filters_okD(1)[OF ok] unfolding m by (auto simp: d)
    moreover have "\<forall>f \<in> set (default_filter # ?fs). cf_id f \<noteq> 0 \<longrightarrow> folder_exact f s"
      using filters_okD(2)[OF ok] d by (auto dest: in_set_takeD in_set_dropD)
    moreover have "f \<in> set ?fs" if "f \<in> set (cs_list s)" "cf_id f \<noteq> 0" for f
    proof -
      from that(1) have "f \<in> set (take i (cs_list s) @ cs_list s ! i # drop (Suc i) (cs_list s))" using l by simp
      then show ?thesis using that(2) i(2) by auto
    qed
    then have "\<forall>f \<in> set (cs_list s). cf_id f \<noteq> 0 \<longrightarrow> cf_id f \<in> cf_id ` set (default_filter # ?fs) \<or> cs_entries s (cf_id f) = []"
      by auto
    ultimately have "filters_ok (s\<lparr>cs_list := default_filter # ?fs\<rparr>)" by (rule filters_ok_relist[OF ok])
    then show ?thesis using Some ok by (cases i) (simp_all add: moveAllToFront_def)
  qed
qed

text \<open>An order is applied exactly when it is one of the ids of the folders.\<close>

lemma find_id_find_filter: "find_id fid (map cf_id fs) = find_filter fid fs"
  by (induction fs) auto

lemma find_id_Some: "find_id fid xs = Some i \<Longrightarrow> i < length xs \<and> xs ! i = fid"
  by (induction xs arbitrary: i) (auto split: if_splits)

lemma find_id_None: "find_id fid xs = None \<longleftrightarrow> fid \<notin> set xs"
  by (induction xs) auto

lemma mset_swap_tl:
  assumes "i < length xs"
  shows "mset xs = add_mset (xs ! i) (mset (tl (xs[i := hd xs])))"
proof -
  have "mset (xs[i := xs ! 0, 0 := xs ! i]) = mset xs" using assms mset_swap[of 0 xs i] by fastforce
  moreover have "xs[i := xs ! 0, 0 := xs ! i] = xs ! i # tl (xs[i := hd xs])"
    using assms by (cases xs; cases i) auto
  ultimately show ?thesis by (metis mset.simps(2))
qed

lemma map_swap_tl: "fs \<noteq> [] \<Longrightarrow> map f (tl (fs[i := hd fs])) = tl ((map f fs)[i := hd (map f fs)])"
  by (simp add: map_tl map_update hd_map)

lemma order_ids_iff: "length order = length xs \<Longrightarrow> order_ids order xs \<longleftrightarrow> mset order = mset xs"
proof (induction order arbitrary: xs)
  case (Cons fid order)
  show ?case
  proof (cases "find_id fid xs")
    case None
    then have "fid \<notin># mset xs" by (simp add: find_id_None)
    then show ?thesis using None by (metis mset.simps(2) order_ids.simps(2) option.simps(4) union_single_eq_member)
  next
    case (Some i)
    then have i: "i < length xs" "xs ! i = fid" using find_id_Some by blast+
    have "length order = length (tl (xs[i := hd xs]))" using Cons.prems by simp
    from Cons.IH[OF this] show ?thesis using Some mset_swap_tl[OF i(1)] i(2) by simp
  qed
qed auto

lemma order_filters_ok:
  "length order = length fs \<Longrightarrow> order_ids order (map cf_id fs)
    \<Longrightarrow> \<exists>c gs. order_filters order fs = Some (c, gs) \<and> mset gs = mset fs \<and> map cf_id gs = order"
proof (induction order arbitrary: fs)
  case (Cons fid order)
  then obtain i where i: "find_filter fid fs = Some i"
    by (auto simp: find_id_find_filter split: option.splits)
  then have f: "i < length fs" "cf_id (fs ! i) = fid" using find_filter_Some by blast+
  let ?r = "tl (fs[i := hd fs])"
  have n: "fs \<noteq> []" using f(1) by auto
  have "length order = length ?r" using Cons.prems(1) by simp
  moreover have "order_ids order (map cf_id ?r)"
    using Cons.prems(2) i unfolding map_swap_tl[OF n] by (simp add: find_id_find_filter)
  ultimately obtain c gs where "order_filters order ?r = Some (c, gs)" "mset gs = mset ?r" "map cf_id gs = order"
    using Cons.IH by blast
  then show ?case using i f mset_swap_tl[OF f(1)] by simp
qed (simp, blast)

lemma applyOrder_spec:
  assumes ok: "filters_ok s"
  obtains s1 where "applyOrder order s = Some (mset order = mset (map cf_id (cs_list s)), s1)" "filters_ok s1" "chats_kept s s1"
    "mset (cs_list s1) = mset (cs_list s)"
    "mset order = mset (map cf_id (cs_list s)) \<longrightarrow> map cf_id (cs_list s1) = order"
    "mset order \<noteq> mset (map cf_id (cs_list s)) \<longrightarrow> s1 = s"
proof (cases "mset order = mset (map cf_id (cs_list s))")
  case False
  then have "applyOrder order s = Some (False, s)"
    using order_ids_iff[of order "map cf_id (cs_list s)"] by (auto simp: applyOrder_def)
  then show ?thesis using that[of s] False ok by simp
next
  case True
  then have l: "length order = length (cs_list s)" by (metis length_map size_mset)
  show ?thesis
  proof (cases "cs_list s = []")
    case e: True
    then have "applyOrder order s = Some (True, s)" using l by (simp add: applyOrder_def)
    then show ?thesis using that[of s] True ok e by simp
  next
    case False
    have o: "order_ids order (map cf_id (cs_list s))" using order_ids_iff[of order "map cf_id (cs_list s)"] True l by simp
    obtain c gs where g: "order_filters order (cs_list s) = Some (c, gs)" "mset gs = mset (cs_list s)" "map cf_id gs = order"
      using order_filters_ok[OF l o] by blast
    have k: "filters_ok (s\<lparr>cs_list := gs\<rparr>)" by (rule filters_ok_mset[OF ok g(2)])
    have a: "applyOrder order s = Some (True, if c then fire ListChanged (s\<lparr>cs_list := gs\<rparr>) else s\<lparr>cs_list := gs\<rparr>)"
      using l False o g(1) by (simp add: applyOrder_def)
    show ?thesis
      by (rule that[of "if c then fire ListChanged (s\<lparr>cs_list := gs\<rparr>) else s\<lparr>cs_list := gs\<rparr>"])
        (use a True k g in \<open>simp_all add: chats_kept_def\<close>)
  qed
qed

lemma filters_load_ok [simp]: "filters_ok (filters_load force s) = filters_ok s"
proof -
  have "filters_ok (s\<lparr>cs_loadRequest := r\<rparr>) = filters_ok s" for r by (rule filters_ok_events) simp_all
  then show ?thesis by (simp add: filters_load_def)
qed

lemma filters_apply_ok:
  assumes ok: "filters_ok s"
  obtains s1 where "filters_apply self u s = Some s1" "filters_ok s1"
proof (cases u)
  case (UpdateDialogFilter fid f)
  then show ?thesis
    by (cases f) (use that filters_set_ok[OF ok] filters_remove_ok[OF ok] in \<open>auto, metis+\<close>)
next
  case UpdateDialogFilters
  then show ?thesis using that ok by simp
next
  case (UpdateDialogFilterOrder order)
  obtain s1 where "applyOrder order s = Some (mset order = mset (map cf_id (cs_list s)), s1)" "filters_ok s1"
    by (rule applyOrder_spec[OF ok])
  then show ?thesis using that UpdateDialogFilterOrder by simp
qed


lemma applyUpdatedPinned_ok:
  assumes ok: "filters_ok s" and "fid \<in> cf_id ` set (cs_list s)"
  obtains s1 where "applyUpdatedPinned limit fid rows s = Some s1" "filters_ok s1"
proof -
  obtain i where i: "find_filter fid (cs_list s) = Some i" using assms(2) find_filter_None by (metis not_None_eq)
  obtain always pinned where p: "pinned_rows limit rows (cf_always (cs_list s ! i)) [] = (always, pinned)" by (metis surj_pair)
  let ?f = "cs_list s ! i"
  obtain s1 where "filters_set (ChatFilter fid (cf_title ?f) (cf_icon ?f) (cf_flags ?f) always pinned (cf_never ?f)) s = Some s1" "filters_ok s1"
    by (rule filters_set_ok[OF ok])
  then show ?thesis using that i p by (simp add: applyUpdatedPinned_def Let_def)
qed

text \<open>A chat in the lists of the folders.\<close>

lemma refresh_filter_simps:
  "same_chats s0 (refresh_filter h f s) = same_chats s0 s"
  "inFilterList fid h' (refresh_filter h f s) \<longleftrightarrow>
     (if fid = cf_id f \<and> fid \<noteq> 0 \<and> h' = h then filter_contains f h (cs_chat s h) else inFilterList fid h' s)"
  by (auto simp: refresh_filter_def)

lemma refresh_fold:
  "distinct (map cf_id fs) \<Longrightarrow> same_chats s (fold (refresh_filter h) fs s)
    \<and> (\<forall>f \<in> set fs. cf_id f \<noteq> 0 \<longrightarrow> inFilterList (cf_id f) h (fold (refresh_filter h) fs s) = filter_contains f h (cs_chat s h))
    \<and> (\<forall>fid h'. h' \<noteq> h \<or> fid \<notin> cf_id ` set fs \<or> fid = 0 \<longrightarrow> inFilterList fid h' (fold (refresh_filter h) fs s) = inFilterList fid h' s)"
proof (induction fs arbitrary: s)
  case (Cons a fs)
  let ?s = "refresh_filter h a s"
  have s: "same_chats s ?s" by (simp add: refresh_filter_simps)
  then have c: "cs_chat ?s = cs_chat s" by (simp add: same_chats_def)
  have d: "distinct (map cf_id fs)" "cf_id a \<notin> cf_id ` set fs" using Cons.prems by auto
  note IH = Cons.IH[OF d(1), of ?s]
  have "same_chats s (fold (refresh_filter h) fs ?s)" using same_chats_trans[OF s] IH by blast
  moreover have "inFilterList (cf_id a) h (fold (refresh_filter h) fs ?s) = filter_contains a h (cs_chat s h)" if "cf_id a \<noteq> 0"
  proof -
    have "inFilterList (cf_id a) h (fold (refresh_filter h) fs ?s) = inFilterList (cf_id a) h ?s" using IH d(2) by blast
    then show ?thesis using that by (simp add: refresh_filter_simps)
  qed
  moreover have "inFilterList fid h' (fold (refresh_filter h) fs ?s) = inFilterList fid h' s"
    if "h' \<noteq> h \<or> fid \<notin> cf_id ` set (a # fs) \<or> fid = 0" for fid h'
  proof -
    have "inFilterList fid h' (fold (refresh_filter h) fs ?s) = inFilterList fid h' ?s" using IH that by auto
    then show ?thesis using that by (auto simp: refresh_filter_simps)
  qed
  ultimately show ?case using IH c by simp
qed simp

lemma leave_filter_simps:
  "same_chats s0 (leave_filter h f s) = same_chats s0 s"
  "inFilterList fid h' (leave_filter h f s) \<longleftrightarrow> \<not> (fid = cf_id f \<and> fid \<noteq> 0 \<and> h' = h) \<and> inFilterList fid h' s"
  by (auto simp: leave_filter_def)

lemma leave_fold:
  "same_chats s (fold (leave_filter h) fs s)
    \<and> (inFilterList fid h' (fold (leave_filter h) fs s) \<longleftrightarrow> \<not> (fid \<in> cf_id ` set fs \<and> fid \<noteq> 0 \<and> h' = h) \<and> inFilterList fid h' s)"
proof (induction fs arbitrary: s)
  case (Cons a fs)
  have s: "same_chats s (leave_filter h a s)" by (simp add: leave_filter_simps)
  show ?case using Cons[of "leave_filter h a s"] same_chats_trans[OF s] by (auto simp: leave_filter_simps)
qed simp

text \<open>The folders are right for all chats but one.\<close>

definition filters_ok_but :: "peer_id \<Rightarrow> filters_state \<Rightarrow> bool" where
  "filters_ok_but h s \<longleftrightarrow> distinct (map cf_id (cs_list s))
     \<and> (\<forall>f \<in> set (cs_list s). cf_id f \<noteq> 0 \<longrightarrow>
         (\<forall>h'. h' \<noteq> h \<longrightarrow> inFilterList (cf_id f) h' s = (inChatList h' s \<and> filter_contains f h' (cs_chat s h'))))
     \<and> (\<forall>fid. fid \<noteq> 0 \<and> fid \<notin> cf_id ` set (cs_list s) \<longrightarrow> cs_entries s fid = [])
     \<and> (\<forall>h. inChatList h s \<longrightarrow> ch_folderKnown (cs_chat s h)) \<and> (\<forall>h. count_ok (cs_chat s h))"

definition chat_exact :: "peer_id \<Rightarrow> filters_state \<Rightarrow> bool" where
  "chat_exact h s \<longleftrightarrow> (\<forall>f \<in> set (cs_list s). cf_id f \<noteq> 0 \<longrightarrow>
     inFilterList (cf_id f) h s = (inChatList h s \<and> filter_contains f h (cs_chat s h)))"

lemma filters_ok_split: "filters_ok s \<longleftrightarrow> filters_ok_but h s \<and> chat_exact h s"
proof
  show "filters_ok s \<Longrightarrow> filters_ok_but h s \<and> chat_exact h s"
    unfolding filters_ok_def filters_ok_but_def chat_exact_def folder_exact_def by blast
  show "filters_ok_but h s \<and> chat_exact h s \<Longrightarrow> filters_ok s"
    unfolding filters_ok_def filters_ok_but_def chat_exact_def folder_exact_def by metis
qed

lemma put_chat_simps [simp]:
  "cs_list (put_chat h c s) = cs_list s" "cs_chat (put_chat h c s) h' = (if h' = h then c else cs_chat s h')"
  "inChatList h' (put_chat h c s) = inChatList h' s" "inFilterList fid h' (put_chat h c s) = inFilterList fid h' s"
  "cs_entries (put_chat h c s) = cs_entries s" "cs_migratedFrom (put_chat h c s) = cs_migratedFrom s"
  by (simp_all add: put_chat_def inChatList_def inFilterList_def)

lemma put_chat_but:
  "filters_ok_but h s \<Longrightarrow> count_ok c \<Longrightarrow> inChatList h s \<longrightarrow> ch_folderKnown c \<Longrightarrow> filters_ok_but h (put_chat h c s)"
  by (auto simp: filters_ok_but_def)

lemma put_chat_same:
  assumes ok: "filters_ok s" and c: "count_ok c" "inChatList h s \<longrightarrow> ch_folderKnown c"
    and same: "inChatList h s \<longrightarrow> (\<forall>f \<in> set (cs_list s). filter_contains f h c = filter_contains f h (cs_chat s h))"
  shows "filters_ok (put_chat h c s)"
proof -
  have "filters_ok_but h (put_chat h c s)" using put_chat_but[OF _ c] ok filters_ok_split by blast
  moreover have "chat_exact h (put_chat h c s)"
    using ok same filters_ok_split[of s h] by (auto simp: chat_exact_def)
  ultimately show ?thesis using filters_ok_split by blast
qed


lemma removeChatListEntry_ok:
  assumes ok: "filters_ok s"
  obtains s1 where "removeChatListEntry h s = Some s1" "filters_ok s1" "\<not> inChatList h s1"
proof (cases "inChatList h s")
  case False
  then show ?thesis using that[of s] ok by (simp add: removeChatListEntry_def)
next
  case True
  let ?s1 = "fold (leave_filter h) (cs_list s) s"
  let ?s2 = "main_remove h ?s1"
  have k: "cs_list ?s1 = cs_list s" "cs_chat ?s1 = cs_chat s" "cs_main ?s1 = cs_main s" "cs_archive ?s1 = cs_archive s"
    using leave_fold[of s h "cs_list s"] by (auto simp: same_chats_def)
  have m: "cs_list ?s2 = cs_list s" "cs_chat ?s2 = cs_chat s" "inChatList h' ?s2 \<longleftrightarrow> h' \<noteq> h \<and> inChatList h' s"
    "inFilterList fid h' ?s2 = inFilterList fid h' ?s1" for fid h'
    using k by (auto simp: main_remove_def inChatList_def inFilterList_def)
  have e: "inFilterList fid h' ?s2 \<longleftrightarrow> \<not> (fid \<in> cf_id ` set (cs_list s) \<and> fid \<noteq> 0 \<and> h' = h) \<and> inFilterList fid h' s" for fid h'
    using leave_fold[of s h "cs_list s" fid h'] m(4) by blast
  have "filters_ok ?s2"
    unfolding filters_ok_def folder_exact_def m(1,2,3)
    using e filters_okD[OF ok] by (auto simp: folder_exact_def entries_empty)
  moreover have "removeChatListEntry h s = Some (fire (EntryRefresh h 0 True) ?s2)"
    using True filters_okD(4)[OF ok True] by (simp add: removeChatListEntry_def)
  ultimately show ?thesis using that m(3) by simp
qed

lemma refresh_fold_ok:
  assumes but: "filters_ok_but h s" and "in": "inChatList h s"
  shows "filters_ok (fold (refresh_filter h) (cs_list s) s)" "same_chats s (fold (refresh_filter h) (cs_list s) s)"
proof -
  let ?s1 = "fold (refresh_filter h) (cs_list s) s"
  have d: "distinct (map cf_id (cs_list s))" using but by (simp add: filters_ok_but_def)
  note r = refresh_fold[OF d, of s h]
  then show k: "same_chats s ?s1" by blast
  have l: "cs_list ?s1 = cs_list s" "cs_chat ?s1 = cs_chat s" using k by (simp_all add: same_chats_def)
  have i: "inChatList h' ?s1 = inChatList h' s" for h' by (rule same_chats_inChatList[OF k])
  have "chat_exact h ?s1" using r "in" unfolding chat_exact_def l i by blast
  moreover have o: "inFilterList fid h' ?s1 = inFilterList fid h' s" if "h' \<noteq> h \<or> fid \<notin> cf_id ` set (cs_list s)" for fid h'
    using r that by blast
  have "filters_ok_but h ?s1" using but o unfolding filters_ok_but_def l i by (simp add: entries_empty)
  ultimately show "filters_ok ?s1" using filters_ok_split by blast
qed

lemma main_add_simps:
  "cs_list (main_add h s) = cs_list s" "cs_chat (main_add h s) = cs_chat s" "cs_entries (main_add h s) = cs_entries s"
  "inFilterList fid h' (main_add h s) = inFilterList fid h' s"
  "inChatList h' (main_add h s) \<longleftrightarrow> h' = h \<or> inChatList h' s"
  by (auto simp: main_add_def inChatList_def inFilterList_def)

lemma filters_ok_but_fire [simp]: "filters_ok_but h (fire e s) = filters_ok_but h s"
  by (simp add: filters_ok_but_def)

lemma main_add_but: "filters_ok_but h s \<Longrightarrow> ch_folderKnown (cs_chat s h) \<Longrightarrow> filters_ok_but h (main_add h s)"
  unfolding filters_ok_but_def main_add_simps by auto

lemma refreshChatListEntry_ok:
  assumes but: "filters_ok_but h s" and known: "ch_folderKnown (cs_chat s h)"
  obtains s1 where "refreshChatListEntry h s = Some s1" "filters_ok s1"
proof (cases "inChatList h s")
  case True
  then have "refreshChatListEntry h s = Some (fold (refresh_filter h) (cs_list s) s)"
    using known by (simp add: refreshChatListEntry_def)
  then show ?thesis using that refresh_fold_ok[OF but True] by blast
next
  case False
  let ?s1 = "fire (EntryRefresh h 0 True) (main_add h s)"
  let ?s2 = "fold (refresh_filter h) (cs_list ?s1) ?s1"
  have "filters_ok_but h ?s1" using main_add_but[OF but known] by simp
  moreover have "inChatList h ?s1" by (simp add: main_add_simps)
  ultimately have ok: "filters_ok ?s2" by (rule refresh_fold_ok)
  have r: "refreshChatListEntry h s = (case cs_migratedFrom ?s2 h of None \<Rightarrow> Some ?s2 | Some g \<Rightarrow> removeChatListEntry g ?s2)"
    using False known by (simp add: refreshChatListEntry_def Let_def)
  show ?thesis
  proof (cases "cs_migratedFrom ?s2 h")
    case None
    then show ?thesis using that r ok by simp
  next
    case (Some g)
    obtain s3 where "removeChatListEntry g ?s2 = Some s3" "filters_ok s3" by (rule removeChatListEntry_ok[OF ok])
    then show ?thesis using that r Some by simp
  qed
qed

lemma refreshHistory_ok:
  assumes but: "filters_ok_but h s" and "in": "inChatList h s"
  obtains s1 where "refreshHistory h s = Some s1" "filters_ok s1"
proof (cases "cs_list s = []")
  case True
  then have "filters_ok s" using but filters_ok_split[of s h] by (simp add: chat_exact_def)
  then show ?thesis using that True by (simp add: refreshHistory_def)
next
  case False
  have "ch_folderKnown (cs_chat s h)" using but "in" by (simp add: filters_ok_but_def)
  from refreshChatListEntry_ok[OF but this] that show ?thesis using False "in" by (auto simp: refreshHistory_def)
qed

text \<open>A change of a chat after which its folders are asked again.\<close>

lemma put_refreshed:
  assumes ok: "filters_ok s" and c: "count_ok c" "inChatList h s \<longrightarrow> ch_folderKnown c"
  obtains s1 where "refreshHistory h (put_chat h c s) = Some s1" "filters_ok s1"
proof (cases "inChatList h s")
  case True
  have "filters_ok_but h (put_chat h c s)" using put_chat_but[OF _ c] ok filters_ok_split by blast
  from refreshHistory_ok[OF this] that True show ?thesis by auto
next
  case False
  then have "filters_ok (put_chat h c s)" using put_chat_same[OF ok c] by blast
  then show ?thesis using that False by (simp add: refreshHistory_def)
qed

lemma refreshHistory_again:
  assumes "filters_ok s" obtains s1 where "refreshHistory h s = Some s1" "filters_ok s1"
  using put_refreshed[OF assms, of "cs_chat s h" h] that filters_okD(4,5)[OF assms] by (auto simp: put_chat_def)

text \<open>A change of a chat inside a notifier.\<close>

lemma with_chat_notifier_ok:
  assumes ok: "filters_ok s" and c: "count_ok c" "inChatList h s \<longrightarrow> ch_folderKnown c"
    and same: "inChatList h s \<and> \<not> (required \<and> isForFilters (chat_unread (cs_chat s h)) \<noteq> isForFilters (chat_unread c))
      \<longrightarrow> (\<forall>f \<in> set (cs_list s). filter_contains f h c = filter_contains f h (cs_chat s h))"
  obtains s1 where "with_chat_notifier required h c s = Some s1" "filters_ok s1"
proof (cases "inChatList h s \<and> required \<and> isForFilters (chat_unread (cs_chat s h)) \<noteq> isForFilters (chat_unread c)")
  case True
  obtain s1 where "refreshHistory h (put_chat h c s) = Some s1" "filters_ok s1" by (rule put_refreshed[OF ok c])
  then show ?thesis using that True c by (simp add: with_chat_notifier_def chat_notify_def)
next
  case False
  have "filters_ok (put_chat h c s)" by (rule put_chat_same[OF ok c]) (use False same in blast)
  moreover have "with_chat_notifier required h c s = Some (put_chat h c s)"
    using False c by (auto simp: with_chat_notifier_def chat_notify_def)
  ultimately show ?thesis using that by blast
qed


text \<open>What a folder asks of the unread state of a chat.\<close>

lemma contains_same:
  assumes "ch_kind c' = ch_kind c" "hu_muted (ch_history c') = hu_muted (ch_history c)"
    "hu_folder (ch_history c') = hu_folder (ch_history c)" "ch_folderKnown c' = ch_folderKnown c" "ch_fakeUnread c' = ch_fakeUnread c"
    "hu_muted (ch_history c) \<longrightarrow> bs_mention (chat_badges c') = bs_mention (chat_badges c)"
    "(bs_unread (chat_badges c') \<or> bs_mention (chat_badges c')) = (bs_unread (chat_badges c) \<or> bs_mention (chat_badges c))"
  shows "filter_contains f h c' = filter_contains f h c"
proof -
  have n: "cf_flags f AND (FlagNoMuted OR FlagNoRead) = 0 \<Longrightarrow> \<not> has_flag f FlagNoMuted"
    "cf_flags f AND (FlagNoMuted OR FlagNoRead) = 0 \<Longrightarrow> \<not> has_flag f FlagNoRead"
    by (simp_all add: has_flag_def bit.conj_disj_distrib or_eq_0_iff)
  show ?thesis
  proof (cases "cf_flags f AND (FlagNoMuted OR FlagNoRead) = 0")
    case True
    then show ?thesis using n assms by (simp add: filter_contains_def)
  next
    case False
    then show ?thesis using assms by (auto simp: filter_contains_def)
  qed
qed

definition chat_count :: "chat_state \<Rightarrow> int" where
  "chat_count c = (case hu_unreadCount (ch_history c) of None \<Rightarrow> 0 | Some n \<Rightarrow> n)"

abbreviation chat_mention :: "chat_state \<Rightarrow> bool" where
  "chat_mention c \<equiv> proxy_has Mentions (hu_things (ch_history c))"

lemma history_chat:
  assumes "ch_forum c = None" "count_ok c"
  shows "bs_unread (chat_badges c) \<longleftrightarrow> chat_count c \<noteq> 0 \<or> hu_unreadMark (ch_history c)"
    and "bs_mention (chat_badges c) \<longleftrightarrow> chat_mention c"
    and "isForFilters (chat_unread c) \<longleftrightarrow> chat_count c \<noteq> 0 \<or> hu_unreadMark (ch_history c) \<or> chat_mention c"
proof -
  have "0 \<le> chat_count c" using assms(2) by (simp add: count_ok_def chat_count_def split: option.splits)
  then show "bs_unread (chat_badges c) \<longleftrightarrow> chat_count c \<noteq> 0 \<or> hu_unreadMark (ch_history c)"
    using assms(1) by (auto simp: chat_badges_def history_badges_def computeBadgesState_def adjustBadgesStateByFolder_def
        BadgesForUnread_def computeUnreadState_def Let_def chat_count_def)
  show "bs_mention (chat_badges c) \<longleftrightarrow> chat_mention c"
    using assms(1) by (simp add: chat_badges_def history_badges_def computeBadgesState_def adjustBadgesStateByFolder_def
        BadgesForUnread_def computeUnreadState_def Let_def)
  show "isForFilters (chat_unread c) \<longleftrightarrow> chat_count c \<noteq> 0 \<or> hu_unreadMark (ch_history c) \<or> chat_mention c"
    using assms(1) by (auto simp: isForFilters_def chat_unread_def computeUnreadState_def Let_def chat_count_def)
qed

text \<open>In a forum only the topics count.\<close>

lemma forum_badges:
  "ch_forum c = Some m \<Longrightarrow> ch_forum c' = Some m
    \<Longrightarrow> bs_unread (chat_badges c') = bs_unread (chat_badges c) \<and> bs_mention (chat_badges c') = bs_mention (chat_badges c)"
  by (simp add: chat_badges_def history_badges_def adjustBadgesStateByFolder_def)

lemma count_ok_simps [simp]:
  "count_ok (c\<lparr>ch_forum := topics\<rparr>) = count_ok c" "count_ok (c\<lparr>ch_kind := kind\<rparr>) = count_ok c"
  "count_ok (c\<lparr>ch_fakeUnread := enabled\<rparr>) = count_ok c" "count_ok (c\<lparr>ch_folderKnown := known\<rparr>) = count_ok c"
  by (simp_all add: count_ok_def)

lemma setUnreadCount_ok:
  assumes ok: "filters_ok s" and "ch_folderKnown (cs_chat s h)" and n: "0 \<le> n"
  obtains s1 where "setUnreadCount h n s = Some s1" "filters_ok s1"
proof (cases "hu_unreadCount (ch_history (cs_chat s h)) = Some n")
  case True
  then show ?thesis using that[of s] assms by (simp add: setUnreadCount_def)
next
  case False
  define c where "c = cs_chat s h"
  define c1 where "c1 = put_history ((ch_history c)\<lparr>hu_unreadCount := Some n\<rparr>) c"
  have r: "setUnreadCount h n s = with_chat_notifier (\<not> isForum c) h c1 s"
    using False assms(2) by (simp add: setUnreadCount_def Let_def c1_def c_def)
  have k: "count_ok c1" "count_ok c" using n filters_okD(5)[OF ok] by (simp_all add: c1_def put_history_def count_ok_def c_def)
  have s: "ch_kind c1 = ch_kind c" "hu_muted (ch_history c1) = hu_muted (ch_history c)" "hu_folder (ch_history c1) = hu_folder (ch_history c)"
    "ch_folderKnown c1 = ch_folderKnown c" "ch_fakeUnread c1 = ch_fakeUnread c" "ch_forum c1 = ch_forum c" "chat_mention c1 = chat_mention c"
    by (simp_all add: c1_def put_history_def)
  have "filter_contains f h c1 = filter_contains f h c"
    if "\<not> (\<not> isForum c \<and> isForFilters (chat_unread c) \<noteq> isForFilters (chat_unread c1))" for f
  proof (cases "ch_forum c")
    case None
    then show ?thesis using that s k history_chat[of c] history_chat[of c1]
      by (intro contains_same) (auto simp: isForum_def)
  next
    case (Some m)
    then show ?thesis using forum_badges[of c m c1] s by (intro contains_same) auto
  qed
  then show ?thesis
    using with_chat_notifier_ok[OF ok k(1), of h "\<not> isForum c"] that r s(4) assms(2) by (metis c_def)
qed

lemma setUnreadMark_ok:
  assumes ok: "filters_ok s"
  obtains s1 where "setUnreadMark h clear mark s = Some s1" "filters_ok s1"
proof (cases "hu_unreadMark (ch_history (cs_chat s h)) = (if clear then False else mark)")
  case True
  then show ?thesis using that[of s] ok by (simp add: setUnreadMark_def)
next
  case False
  define c where "c = cs_chat s h"
  define c1 where "c1 = put_history ((ch_history c)\<lparr>hu_unreadMark := (if clear then False else mark)\<rparr>) c"
  have r: "setUnreadMark h clear mark s = with_chat_notifier (chat_count c = 0 \<and> \<not> isForum c) h c1 s"
    using False by (simp add: setUnreadMark_def Let_def c1_def c_def chat_count_def)
  have k: "count_ok c1" "count_ok c" using filters_okD(5)[OF ok] by (simp_all add: c1_def put_history_def count_ok_def c_def)
  have s: "ch_kind c1 = ch_kind c" "hu_muted (ch_history c1) = hu_muted (ch_history c)" "hu_folder (ch_history c1) = hu_folder (ch_history c)"
    "ch_folderKnown c1 = ch_folderKnown c" "ch_fakeUnread c1 = ch_fakeUnread c" "ch_forum c1 = ch_forum c" "chat_mention c1 = chat_mention c"
    "chat_count c1 = chat_count c"
    by (simp_all add: c1_def put_history_def chat_count_def)
  have "filter_contains f h c1 = filter_contains f h c"
    if "\<not> ((chat_count c = 0 \<and> \<not> isForum c) \<and> isForFilters (chat_unread c) \<noteq> isForFilters (chat_unread c1))" for f
  proof (cases "ch_forum c")
    case None
    then show ?thesis using that s k history_chat[of c] history_chat[of c1]
      by (intro contains_same) (auto simp: isForum_def)
  next
    case (Some m)
    then show ?thesis using forum_badges[of c m c1] s by (intro contains_same) auto
  qed
  moreover have "inChatList h s \<longrightarrow> ch_folderKnown c1" using s(4) filters_okD(4)[OF ok] by (simp add: c_def)
  ultimately show ?thesis
    using with_chat_notifier_ok[OF ok k(1), of h "chat_count c = 0 \<and> \<not> isForum c"] that r by (metis c_def)
qed


lemma setMuted_ok:
  assumes ok: "filters_ok s"
  obtains s1 where "setMuted h muted s = Some s1" "filters_ok s1"
proof (cases "hu_muted (ch_history (cs_chat s h)) = muted")
  case True
  then show ?thesis using that[of s] ok by (simp add: setMuted_def)
next
  case False
  define c where "c = cs_chat s h"
  define c1 where "c1 = put_history ((ch_history c)\<lparr>hu_muted := muted\<rparr>) c"
  define req where "req = (let state = (if isForum c then no_badges else computeBadgesState (ch_history c)) in bs_unread state \<or> bs_reaction state)"
  have r: "setMuted h muted s = Option.bind (with_chat_notifier req h c1 s) (refreshHistory h)"
    using False by (simp add: setMuted_def Let_def c1_def c_def req_def)
  have k: "count_ok c1" "inChatList h s \<longrightarrow> ch_folderKnown c1"
    using filters_okD(4,5)[OF ok] by (simp_all add: c1_def put_history_def count_ok_def c_def)
  obtain s1 where s1: "refreshHistory h (put_chat h c1 s) = Some s1" "filters_ok s1" by (rule put_refreshed[OF ok k])
  obtain s2 where s2: "refreshHistory h s1 = Some s2" "filters_ok s2" by (rule refreshHistory_again[OF s1(2)])
  have "with_chat_notifier req h c1 s = Some (put_chat h c1 s) \<or> with_chat_notifier req h c1 s = Some s1"
    using k s1(1) by (auto simp: with_chat_notifier_def chat_notify_def)
  then show ?thesis using that r s1 s2 by auto
qed

lemma setFakeUnread_ok:
  assumes ok: "filters_ok s"
  obtains s1 where "setFakeUnreadWhileOpened h enabled s = Some s1" "filters_ok s1"
proof -
  let ?c = "(cs_chat s h)\<lparr>ch_fakeUnread := enabled\<rparr>"
  have "count_ok ?c" "inChatList h s \<longrightarrow> ch_folderKnown ?c" using filters_okD(4)[OF ok, of h] filters_okD(5)[OF ok, of h] by simp_all
  then obtain s1 where s1: "refreshHistory h (put_chat h ?c s) = Some s1" "filters_ok s1" by (rule put_refreshed[OF ok])
  have "setFakeUnreadWhileOpened h enabled s = Some s \<or> setFakeUnreadWhileOpened h enabled s = Some s1"
    using s1(1) by (simp add: setFakeUnreadWhileOpened_def Let_def)
  then show ?thesis using that ok s1(2) by blast
qed

text \<open>A change of the unread mentions is seen unless the chat is muted and unread anyway.\<close>

definition things_seen :: "peer_id \<Rightarrow> things \<Rightarrow> filters_state \<Rightarrow> bool" where
  "things_seen h t s \<longleftrightarrow> (let c = cs_chat s h in
     proxy_has Mentions t = chat_mention c \<or> \<not> inChatList h s \<or> isForum c
       \<or> \<not> hu_muted (ch_history c) \<or> chat_count c = 0 \<and> \<not> hu_unreadMark (ch_history c))"

lemma thingsChanged_ok:
  assumes ok: "filters_ok s" and seen: "things_seen h t s"
  obtains s1 where "thingsChanged h t s = Some s1" "filters_ok s1"
proof -
  define c where "c = cs_chat s h"
  define c1 where "c1 = put_history ((ch_history c)\<lparr>hu_things := t\<rparr>) c"
  let ?has = "proxy_has Mentions t"
  define was where "was = (chat_unread c1)\<lparr>us_mentions := (if ?has then 0 else 1)\<rparr>"
  have r: "thingsChanged h t s =
     (if ?has = chat_mention c \<or> \<not> inChatList h s \<or> isForum c then Some (put_chat h c1 s) else chat_notify h was (put_chat h c1 s))"
    by (simp add: thingsChanged_def Let_def c1_def c_def was_def)
  have k: "count_ok c1" "count_ok c" "inChatList h s \<longrightarrow> ch_folderKnown c1"
    using filters_okD(4,5)[OF ok] by (simp_all add: c1_def put_history_def count_ok_def c_def)
  have s: "ch_kind c1 = ch_kind c" "hu_muted (ch_history c1) = hu_muted (ch_history c)" "hu_folder (ch_history c1) = hu_folder (ch_history c)"
    "ch_folderKnown c1 = ch_folderKnown c" "ch_fakeUnread c1 = ch_fakeUnread c" "ch_forum c1 = ch_forum c" "chat_mention c1 = ?has"
    "chat_count c1 = chat_count c" "hu_unreadMark (ch_history c1) = hu_unreadMark (ch_history c)"
    by (simp_all add: c1_def put_history_def chat_count_def)
  have same: "filter_contains f h c1 = filter_contains f h c"
    if "isForum c \<or> ?has = chat_mention c \<or> \<not> hu_muted (ch_history c) \<and> (chat_count c \<noteq> 0 \<or> hu_unreadMark (ch_history c))" for f
  proof (cases "ch_forum c")
    case None
    then show ?thesis using that s k history_chat[of c] history_chat[of c1]
      by (intro contains_same) (auto simp: isForum_def)
  next
    case (Some m)
    then show ?thesis using forum_badges[of c m c1] s by (intro contains_same) auto
  qed
  show ?thesis
  proof (cases "?has = chat_mention c \<or> \<not> inChatList h s \<or> isForum c")
    case True
    have "filters_ok (put_chat h c1 s)" by (rule put_chat_same[OF ok k(1,3)]) (use True same in \<open>auto simp: c_def\<close>)
    then show ?thesis using that r True by simp
  next
    case False
    then have f: "ch_forum c1 = None" using s by (simp add: isForum_def)
    have w: "isForFilters was \<longleftrightarrow> chat_count c \<noteq> 0 \<or> hu_unreadMark (ch_history c) \<or> \<not> ?has"
      using f s by (auto simp: was_def isForFilters_def chat_unread_def computeUnreadState_def Let_def chat_count_def)
    have n: "isForFilters (chat_unread c1) \<longleftrightarrow> chat_count c \<noteq> 0 \<or> hu_unreadMark (ch_history c) \<or> ?has"
      using history_chat(3)[OF f k(1)] s by simp
    show ?thesis
    proof (cases "chat_count c \<noteq> 0 \<or> hu_unreadMark (ch_history c)")
      case True
      then have "\<not> hu_muted (ch_history c)" using seen False by (auto simp: things_seen_def Let_def c_def)
      then have "filters_ok (put_chat h c1 s)" by (intro put_chat_same[OF ok k(1,3)]) (use True same in \<open>auto simp: c_def\<close>)
      moreover have "chat_notify h was (put_chat h c1 s) = Some (put_chat h c1 s)" using True False k w n by (simp add: chat_notify_def)
      ultimately show ?thesis using that r False by simp
    next
      case quiet: False
      obtain s1 where "refreshHistory h (put_chat h c1 s) = Some s1" "filters_ok s1" by (rule put_refreshed[OF ok k(1,3)])
      moreover have "isForFilters was \<noteq> isForFilters (chat_unread c1)" using quiet w n by blast
      ultimately have "chat_notify h was (put_chat h c1 s) = Some s1" using False k by (simp add: chat_notify_def)
      then show ?thesis using that r False \<open>filters_ok s1\<close> by simp
    qed
  qed
qed

text \<open>A change of the topics is seen when they become read or unread, or when nothing a folder asks for changes.\<close>

definition topics_seen :: "peer_id \<Rightarrow> main_list option \<Rightarrow> filters_state \<Rightarrow> bool" where
  "topics_seen h topics s \<longleftrightarrow> (let c = cs_chat s h; c1 = c\<lparr>ch_forum := topics\<rparr> in
     isForFilters (chat_unread c) \<noteq> isForFilters (chat_unread c1)
       \<or> bs_unread (chat_badges c1) = bs_unread (chat_badges c) \<and> bs_mention (chat_badges c1) = bs_mention (chat_badges c))"

lemma topicsChanged_ok:
  assumes ok: "filters_ok s" and seen: "topics_seen h topics s"
  obtains s1 where "topicsChanged h topics s = Some s1" "filters_ok s1"
proof -
  define c1 where "c1 = (cs_chat s h)\<lparr>ch_forum := topics\<rparr>"
  have k: "count_ok c1" "inChatList h s \<longrightarrow> ch_folderKnown c1" using filters_okD(4)[OF ok, of h] filters_okD(5)[OF ok, of h] by (simp_all add: c1_def)
  have same: "filter_contains f h c1 = filter_contains f h (cs_chat s h)"
    if "\<not> (True \<and> isForFilters (chat_unread (cs_chat s h)) \<noteq> isForFilters (chat_unread c1))" for f
  proof (rule contains_same)
    show "hu_muted (ch_history (cs_chat s h)) \<longrightarrow> bs_mention (chat_badges c1) = bs_mention (chat_badges (cs_chat s h))"
      "(bs_unread (chat_badges c1) \<or> bs_mention (chat_badges c1)) = (bs_unread (chat_badges (cs_chat s h)) \<or> bs_mention (chat_badges (cs_chat s h)))"
      using seen that by (simp_all add: topics_seen_def c1_def Let_def)
  qed (simp_all add: c1_def)
  obtain s1 where "with_chat_notifier True h c1 s = Some s1" "filters_ok s1"
    by (rule with_chat_notifier_ok[OF ok k, of True]) (use same in blast)
  then show ?thesis using that by (simp add: topicsChanged_def c1_def)
qed

lemma main_remove_but:
  assumes "filters_ok_but h s"
  shows "filters_ok_but h (main_remove h s)"
proof -
  have m: "cs_list (main_remove h s) = cs_list s" "cs_chat (main_remove h s) = cs_chat s" "cs_entries (main_remove h s) = cs_entries s"
    "inChatList h' (main_remove h s) \<longleftrightarrow> h' \<noteq> h \<and> inChatList h' s" "inFilterList fid h' (main_remove h s) = inFilterList fid h' s" for fid h'
    by (auto simp: main_remove_def inChatList_def inFilterList_def)
  show ?thesis using assms unfolding filters_ok_but_def m by blast
qed

lemma setFolderPointer_ok:
  assumes ok: "filters_ok s"
  obtains s1 where "setFolderPointer h folder s = Some s1" "filters_ok s1"
proof (cases "ch_folderKnown (cs_chat s h) \<and> hu_folder (ch_history (cs_chat s h)) = folder")
  case True
  then show ?thesis using that[of s] ok by (simp add: setFolderPointer_def)
next
  case False
  define c where "c = put_history ((ch_history (cs_chat s h))\<lparr>hu_folder := folder\<rparr>) ((cs_chat s h)\<lparr>ch_folderKnown := True\<rparr>)"
  have k: "count_ok c" "ch_folderKnown c"
    using filters_okD(5)[OF ok] by (simp_all add: c_def put_history_def count_ok_def)
  have but: "filters_ok_but h s" using ok filters_ok_split by blast
  show ?thesis
  proof (cases "inChatList h s")
    case True
    let ?s = "main_add h (put_chat h c (main_remove h s))"
    have "filters_ok_but h ?s"
      by (rule main_add_but[OF put_chat_but[OF main_remove_but[OF but] k(1)]]) (simp_all add: k)
    moreover have "inChatList h ?s" by (simp add: main_add_simps)
    ultimately obtain s1 where s1: "refreshHistory h ?s = Some s1" "filters_ok s1" by (rule refreshHistory_ok)
    have c: "cs_chat (main_remove h s) = cs_chat s" by (simp add: main_remove_def)
    have "setFolderPointer h folder s = refreshHistory h ?s"
      unfolding setFolderPointer_def Let_def if_not_P[OF False] if_P[OF True] c_def ..
    then show ?thesis using that s1 by simp
  next
    case out: False
    have "filters_ok (put_chat h c s)" by (rule put_chat_same[OF ok k(1)]) (use out in auto)
    then show ?thesis using that False out by (simp add: setFolderPointer_def Let_def c_def)
  qed
qed

lemma userIsBotChanged_ok:
  assumes ok: "filters_ok s"
  obtains s1 where "userIsBotChanged h s = Some s1" "filters_ok s1"
proof -
  let ?c = "(cs_chat s h)\<lparr>ch_kind := BotUser\<rparr>"
  have "count_ok ?c" "inChatList h s \<longrightarrow> ch_folderKnown ?c" using filters_okD(4)[OF ok, of h] filters_okD(5)[OF ok, of h] by simp_all
  then obtain s1 where s1: "refreshHistory h (put_chat h ?c s) = Some s1" "filters_ok s1" by (rule put_refreshed[OF ok])
  have "userIsBotChanged h s = Some s \<or> userIsBotChanged h s = Some s1" using s1(1) by (simp add: userIsBotChanged_def)
  then show ?thesis using that ok s1(2) by blast
qed

text \<open>Folders that make no difference between contacts and others.\<close>

definition contacts_alike :: "filters_state \<Rightarrow> bool" where
  "contacts_alike s \<longleftrightarrow> (\<forall>f \<in> set (cs_list s). has_flag f FlagContacts = has_flag f FlagNonContacts)"

lemma contains_kind:
  assumes "has_flag f (kind_flag kind) = has_flag f (kind_flag (ch_kind c))"
  shows "filter_contains f h (c\<lparr>ch_kind := kind\<rparr>) = filter_contains f h c"
proof -
  have "chat_badges (c\<lparr>ch_kind := kind\<rparr>) = chat_badges c" by (simp add: chat_badges_def)
  then show ?thesis using assms by (simp add: filter_contains_def Let_def)
qed

lemma setIsContact_ok:
  assumes ok: "filters_ok s" and alike: "contacts_alike s"
  shows "filters_ok (setIsContact h contact s)"
proof (cases "ch_kind (cs_chat s h) \<in> {ContactUser, OtherUser}")
  case True
  define kind where "kind = (if contact then ContactUser else OtherUser)"
  let ?c = "(cs_chat s h)\<lparr>ch_kind := kind\<rparr>"
  have k: "count_ok ?c" "inChatList h s \<longrightarrow> ch_folderKnown ?c" using filters_okD(4)[OF ok, of h] filters_okD(5)[OF ok, of h] by simp_all
  have "has_flag f (kind_flag kind) = has_flag f (kind_flag (ch_kind (cs_chat s h)))" if "f \<in> set (cs_list s)" for f
  proof -
    have "has_flag f FlagContacts = has_flag f FlagNonContacts" using alike that by (simp add: contacts_alike_def)
    then show ?thesis using True by (cases "ch_kind (cs_chat s h)") (simp_all add: kind_def)
  qed
  then have "\<forall>f \<in> set (cs_list s). filter_contains f h ?c = filter_contains f h (cs_chat s h)"
    using contains_kind by blast
  then have "filters_ok (put_chat h ?c s)" using put_chat_same[OF ok k] by blast
  then show ?thesis using True by (simp add: setIsContact_def kind_def)
qed (simp add: setIsContact_def ok)

text \<open>
  The calls after which every folder is still right. Only the folder of all chats has the id 0, and it has no rules:
  the code would feed its chats into the list that \<open>DialogsList\<close> models. Nothing is expected after a call that
  fails; that none does is proved.
\<close>

definition received_fine :: "peer_id \<Rightarrow> mtp_dialog_filter list \<Rightarrow> bool" where
  "received_fine self list \<longleftrightarrow> distinct (map (cf_id \<circ> FromTL self) list)
     \<and> (\<forall>f \<in> set list. cf_id (FromTL self f) = 0 \<longrightarrow> f = MTP_dialogFilterDefault)"

fun call_fine :: "filters_call \<Rightarrow> filters_state \<Rightarrow> bool" where
  "call_fine (CallLoadDone self list) s \<longleftrightarrow> received_fine self list"
| "call_fine (CallPreloaded self list) s \<longleftrightarrow> received_fine self list"
| "call_fine (CallUpdatedPinned limit fid rows) s \<longleftrightarrow> fid \<in> cf_id ` set (cs_list s)"
| "call_fine (CallRefreshEntry h) s \<longleftrightarrow> ch_folderKnown (cs_chat s h)"
| "call_fine (CallUnreadCount h n) s \<longleftrightarrow> ch_folderKnown (cs_chat s h) \<and> 0 \<le> n"
| "call_fine (CallThings h t) s \<longleftrightarrow> things_seen h t s"
| "call_fine (CallTopics h topics) s \<longleftrightarrow> topics_seen h topics s"
| "call_fine (CallIsContact h contact) s \<longleftrightarrow> contacts_alike s"
| "call_fine _ s \<longleftrightarrow> True"

fun calls_fine :: "filters_call list \<Rightarrow> filters_state \<Rightarrow> bool" where
  "calls_fine [] s \<longleftrightarrow> True"
| "calls_fine (c # cs) s \<longleftrightarrow> call_fine c s \<and> (case filters_step c s of None \<Rightarrow> True | Some s1 \<Rightarrow> calls_fine cs s1)"


lemma load_calls_ok:
  assumes ok: "filters_ok s"
  shows "filters_ok (filters_reload s)" "filters_ok (loadFail s)" "filters_ok (preloadedDone s)"
    "filters_ok (snd (loadNextExceptions loaded n s))" "filters_ok (exceptionsReplied s)"
proof -
  have e: "filters_ok (s\<lparr>cs_reloading := b\<rparr>) = filters_ok s" "filters_ok (s\<lparr>cs_loadRequest := r\<rparr>) = filters_ok s"
    "filters_ok (s\<lparr>cs_exceptionsRequest := b\<rparr>) = filters_ok s" "filters_ok (s\<lparr>cs_exceptions := q\<rparr>) = filters_ok s"
    "filters_ok (s\<lparr>cs_exceptions := q, cs_exceptionsRequest := b\<rparr>) = filters_ok s"
    "filters_ok (s\<lparr>cs_loadRequest := r, cs_reloading := b\<rparr>) = filters_ok s" for b r q
    by (rule filters_ok_events; simp)+
  show "filters_ok (filters_reload s)" "filters_ok (preloadedDone s)" "filters_ok (exceptionsReplied s)"
    by (simp_all add: filters_reload_def preloadedDone_def exceptionsReplied_def e ok)
  show "filters_ok (loadFail s)" by (simp add: loadFail_def Let_def e ok)
  show "filters_ok (snd (loadNextExceptions loaded n s))"
    by (simp add: loadNextExceptions_def Let_def e ok split: prod.split)
qed

lemma step_ok:
  assumes ok: "filters_ok s" and fine: "call_fine c s"
  obtains s1 where "filters_step c s = Some s1" "filters_ok s1"
proof -
  have received: "\<exists>s1. received self list s0 = Some s1 \<and> filters_ok s1"
    if "filters_ok s0" "received_fine self list" for s0 self list
    using that(2) received_ok[OF that(1)] unfolding received_fine_def by metis
  have "\<exists>s1. filters_step c s = Some s1 \<and> filters_ok s1"
  proof (cases c)
    case (CallLoadDone self list)
    then obtain s1 where s1: "received self list s = Some s1" "filters_ok s1" using received[OF ok] fine by auto
    have "filters_ok (s1\<lparr>cs_loadRequest := NoRequest\<rparr>) = filters_ok s1" by (rule filters_ok_events) simp_all
    then show ?thesis using CallLoadDone s1 by (simp add: loadDone_def)
  next
    case (CallPreloaded self list)
    have "filters_ok (s\<lparr>cs_loadRequest := PreloadedRequest\<rparr>) = filters_ok s" by (rule filters_ok_events) simp_all
    then show ?thesis using CallPreloaded received fine ok by (simp add: setPreloaded_def)
  next
    case (CallApply self u)
    then show ?thesis using filters_apply_ok[OF ok] by (metis filters_step.simps(7))
  next
    case (CallSet f)
    then show ?thesis using filters_set_ok[OF ok] by (metis filters_step.simps(8))
  next
    case (CallRemove fid)
    then show ?thesis using filters_remove_ok[OF ok] by (metis filters_step.simps(9))
  next
    case (CallSaveOrder self order)
    obtain s1 where "filters_apply self (UpdateDialogFilterOrder order) s = Some s1" "filters_ok s1" by (rule filters_apply_ok[OF ok])
    then show ?thesis using CallSaveOrder by (simp add: saveOrder_def del: filters_apply.simps)
  next
    case (CallUpdatedPinned limit fid rows)
    then have "fid \<in> cf_id ` set (cs_list s)" using fine by simp
    then obtain s1 where "applyUpdatedPinned limit fid rows s = Some s1" "filters_ok s1" by (rule applyUpdatedPinned_ok[OF ok])
    then show ?thesis using CallUpdatedPinned by simp
  next
    case (CallRefreshEntry h)
    have "filters_ok_but h s" using ok filters_ok_split by blast
    moreover have "ch_folderKnown (cs_chat s h)" using CallRefreshEntry fine by simp
    ultimately obtain s1 where "refreshChatListEntry h s = Some s1" "filters_ok s1" by (rule refreshChatListEntry_ok)
    then show ?thesis using CallRefreshEntry by simp
  next
    case (CallRemoveEntry h)
    obtain s1 where "removeChatListEntry h s = Some s1" "filters_ok s1" by (rule removeChatListEntry_ok[OF ok])
    then show ?thesis using CallRemoveEntry by simp
  next
    case (CallUnreadCount h n)
    then have "ch_folderKnown (cs_chat s h)" "0 \<le> n" using fine by simp_all
    then obtain s1 where "setUnreadCount h n s = Some s1" "filters_ok s1" by (rule setUnreadCount_ok[OF ok])
    then show ?thesis using CallUnreadCount by simp
  next
    case (CallUnreadMark h clear b)
    obtain s1 where "setUnreadMark h clear b s = Some s1" "filters_ok s1" by (rule setUnreadMark_ok[OF ok])
    then show ?thesis using CallUnreadMark by simp
  next
    case (CallMuted h b)
    obtain s1 where "setMuted h b s = Some s1" "filters_ok s1" by (rule setMuted_ok[OF ok])
    then show ?thesis using CallMuted by simp
  next
    case (CallFakeUnread h b)
    obtain s1 where "setFakeUnreadWhileOpened h b s = Some s1" "filters_ok s1" by (rule setFakeUnread_ok[OF ok])
    then show ?thesis using CallFakeUnread by simp
  next
    case (CallThings h t)
    then have "things_seen h t s" using fine by simp
    then obtain s1 where "thingsChanged h t s = Some s1" "filters_ok s1" by (rule thingsChanged_ok[OF ok])
    then show ?thesis using CallThings by simp
  next
    case (CallTopics h topics)
    then have "topics_seen h topics s" using fine by simp
    then obtain s1 where "topicsChanged h topics s = Some s1" "filters_ok s1" by (rule topicsChanged_ok[OF ok])
    then show ?thesis using CallTopics by simp
  next
    case (CallFolder h b)
    obtain s1 where "setFolderPointer h b s = Some s1" "filters_ok s1" by (rule setFolderPointer_ok[OF ok])
    then show ?thesis using CallFolder by simp
  next
    case (CallIsBot h)
    obtain s1 where "userIsBotChanged h s = Some s1" "filters_ok s1" by (rule userIsBotChanged_ok[OF ok])
    then show ?thesis using CallIsBot by simp
  qed (use ok fine load_calls_ok[OF ok] moveAllToFront_ok(1)[OF ok] setIsContact_ok[OF ok] in simp_all)
  then show ?thesis using that by blast
qed

lemma run_ok: "filters_ok s \<Longrightarrow> calls_fine cs s \<Longrightarrow> \<exists>s1. filters_run cs s = Some s1 \<and> filters_ok s1"
proof (induction cs arbitrary: s)
  case (Cons c cs)
  from Cons.prems obtain s1 where "filters_step c s = Some s1" "filters_ok s1" by (auto elim: step_ok)
  then show ?case using Cons by simp
qed simp

lemma new_filters_ok: "\<forall>h. count_ok (chats h) \<Longrightarrow> filters_ok (new_filters chats migratedFrom)"
  by (simp add: filters_ok_def new_filters_def inChatList_def default_filter_def ChatFilter_def)


subsection \<open>Folders sent and received\<close>

lemma bit_flag_if: "bit (flag_if b (push_bit k 1)) n \<longleftrightarrow> b \<and> n = k \<and> n < 16"
  by (auto simp: flag_if_def bit_exp_iff)

lemma and_single_bit: "(w :: filter_flags) AND push_bit k 1 \<noteq> 0 \<longleftrightarrow> k < 16 \<and> bit w k"
  by (auto simp: bit_eq_iff[where 'a = filter_flags] bit_and_iff bit_exp_iff)

lemma rules_of_flags:
  "flag_if (has_flag f FlagContacts) FlagContacts OR flag_if (has_flag f FlagNonContacts) FlagNonContacts
     OR flag_if (has_flag f FlagGroups) FlagGroups OR flag_if (has_flag f FlagChannels) FlagChannels OR flag_if (has_flag f FlagBots) FlagBots
     OR flag_if (has_flag f FlagNoMuted) FlagNoMuted OR flag_if (has_flag f FlagNoRead) FlagNoRead
     OR flag_if (has_flag f FlagNoArchived) FlagNoArchived = cf_flags f AND RulesMask"
proof (rule bit_word_eqI)
  fix n assume n: "n < LENGTH(16)"
  have m: "RulesMask = mask 8" by (simp add: RulesMask_def mask_eq_exp_minus_1 push_bit_eq_mult)
  have "n < 8 \<longleftrightarrow> n = 0 \<or> n = 1 \<or> n = 2 \<or> n = 3 \<or> n = 4 \<or> n = 5 \<or> n = 6 \<or> n = 7" by arith
  then show "bit (flag_if (has_flag f FlagContacts) FlagContacts OR flag_if (has_flag f FlagNonContacts) FlagNonContacts
     OR flag_if (has_flag f FlagGroups) FlagGroups OR flag_if (has_flag f FlagChannels) FlagChannels OR flag_if (has_flag f FlagBots) FlagBots
     OR flag_if (has_flag f FlagNoMuted) FlagNoMuted OR flag_if (has_flag f FlagNoRead) FlagNoRead
     OR flag_if (has_flag f FlagNoArchived) FlagNoArchived) n = bit (cf_flags f AND RulesMask) n"
    using n unfolding m bit_or_iff bit_and_iff bit_mask_iff has_flag_def FlagContacts_def FlagNonContacts_def FlagGroups_def FlagChannels_def
      FlagBots_def FlagNoMuted_def FlagNoRead_def FlagNoArchived_def bit_flag_if and_single_bit
    by (auto simp del: push_bit_of_1)
qed

lemma to_histories_inputs:
  "\<forall>h \<in> set hs. PeerFromInputMTP self (inputs h) = Some h \<Longrightarrow> to_histories self (map inputs hs) = hs"
  by (induction hs) (simp_all add: to_histories_def)

lemma fold_fs_remove: "fold fs_remove ps xs = filter (\<lambda>x. x \<notin> set ps) xs"
  by (induction ps arbitrary: xs) (auto simp: fs_remove_def intro: filter_cong)

lemma always_again:
  assumes "sorted_wrt (<) always" "set pinned \<subseteq> set always"
  shows "fs_of_list (fold fs_remove pinned always @ pinned) = (always :: peer_id list)"
  using assms by (intro sorted_set_unique) (auto simp: fold_fs_remove)

definition peers_known :: "peer_id \<Rightarrow> (peer_id \<Rightarrow> input_peer) \<Rightarrow> chat_filter \<Rightarrow> bool" where
  "peers_known self inputs f \<longleftrightarrow> (\<forall>h \<in> set (cf_always f @ cf_pinned f @ cf_never f). PeerFromInputMTP self (inputs h) = Some h)"

definition folder_fine :: "chat_filter \<Rightarrow> bool" where
  "folder_fine f \<longleftrightarrow> sorted_wrt (<) (cf_always f) \<and> sorted_wrt (<) (cf_never f) \<and> set (cf_pinned f) \<subseteq> set (cf_always f)"

text \<open>
  C23: a folder sent and received again is the same up to what is not sent: the flag of own links, and of a shared
  folder its rules and the chats left out.
\<close>

theorem folder_roundtrip:
  assumes "folder_fine f" and "peers_known self inputs f"
  shows "FromTL self (filter_tl inputs replaceId f) =
    (let g = withId (if replaceId \<noteq> 0 then replaceId else cf_id f) f
     in if is_chatlist f then g\<lparr>cf_flags := FlagChatlist, cf_never := []\<rparr> else g\<lparr>cf_flags := cf_flags f AND RulesMask\<rparr>)"
proof -
  let ?rest = "fold fs_remove (cf_pinned f) (cf_always f)"
  have k: "to_histories self (map inputs (cf_pinned f)) = cf_pinned f" "to_histories self (map inputs ?rest) = ?rest"
    "to_histories self (map inputs (cf_never f)) = cf_never f"
    using assms(2) by (auto simp: peers_known_def fold_fs_remove intro!: to_histories_inputs)
  have a: "fs_of_list (?rest @ cf_pinned f) = cf_always f" using assms(1) by (intro always_again) (simp_all add: folder_fine_def)
  have n: "fs_of_list (cf_never f) = cf_never f" using assms(1) by (intro sorted_set_unique) (simp_all add: folder_fine_def)
  show ?thesis
  proof (cases "is_chatlist f")
    case True
    then show ?thesis by (simp add: filter_tl_def Let_def k a ChatFilter_def withId_def flag_if_def)
  next
    case False
    have "cf_flags f AND RulesMask = flag_if (has_flag f FlagContacts) FlagContacts OR flag_if (has_flag f FlagNonContacts) FlagNonContacts
     OR flag_if (has_flag f FlagGroups) FlagGroups OR flag_if (has_flag f FlagChannels) FlagChannels OR flag_if (has_flag f FlagBots) FlagBots
     OR flag_if (has_flag f FlagNoMuted) FlagNoMuted OR flag_if (has_flag f FlagNoRead) FlagNoRead
     OR flag_if (has_flag f FlagNoArchived) FlagNoArchived" by (rule rules_of_flags[symmetric])
    then show ?thesis using False by (simp add: filter_tl_def Let_def k a n ChatFilter_def withId_def)
  qed
qed

definition some_folder :: chat_filter where
  "some_folder = ChatFilter 5 ''work'' [] (FlagGroups OR FlagNoMuted) [1, 2, 3] [3, 1] [7]"

theorem folder_roundtrip_witness:
  "FromTL 9 (filter_tl InputPeerUser 0 some_folder) = some_folder"
proof -
  have "folder_fine some_folder" by code_simp
  moreover have "peers_known 9 InputPeerUser some_folder"
    by (simp add: peers_known_def some_folder_def ChatFilter_def peerFromUser_def peer_from_def kUserShift_def)
  ultimately have "FromTL 9 (filter_tl InputPeerUser 0 some_folder) = (let g = withId (if (0::int) \<noteq> 0 then 0 else cf_id some_folder) some_folder
     in if is_chatlist some_folder then g\<lparr>cf_flags := FlagChatlist, cf_never := []\<rparr> else g\<lparr>cf_flags := cf_flags some_folder AND RulesMask\<rparr>)"
    by (rule folder_roundtrip)
  also have "\<dots> = some_folder" by code_simp
  finally show ?thesis .
qed


subsection \<open>Properties\<close>

text \<open>
  C9: through the replies and updates of the server and those changes of the chats that the code refreshes the folders
  for, no call fails, the folders have different ids and each shows exactly those chats of the account that it
  contains. What is expected of the calls (\<open>call_fine\<close>): a list received has different ids and only the folder of
  all chats has the id 0; pinned chats are received for a folder there is; of a chat that enters the list or gets a
  number of unread messages it is known whether it is archived, and the number is not negative. Three changes of
  chats are left out, because the code leaves folders wrong after them: unread mentions that come or go in a muted
  chat which is unread anyway (C34), topics of a forum that change what folders ask for without the forum becoming
  read or unread, and a user that becomes a contact or stops being one while a folder tells contacts from others
  (the theorem on contacts at the end).
\<close>

theorem folders_show_their_chats:
  assumes "\<forall>h. count_ok (chats h)" and "calls_fine cs (new_filters chats migratedFrom)"
  shows "\<exists>s. filters_run cs (new_filters chats migratedFrom) = Some s \<and> distinct (map cf_id (cs_list s))
    \<and> (\<forall>f \<in> set (cs_list s). cf_id f \<noteq> 0 \<longrightarrow>
         (\<forall>h. inFilterList (cf_id f) h s \<longleftrightarrow> inChatList h s \<and> filter_contains f h (cs_chat s h)))"
proof -
  obtain s where "filters_run cs (new_filters chats migratedFrom) = Some s" "filters_ok s"
    using run_ok[OF new_filters_ok[OF assms(1)] assms(2)] by blast
  then show ?thesis using filters_okD(1,2) by (auto simp: folder_exact_def)
qed

definition some_chat :: "peer_kind \<Rightarrow> chat_state" where
  "some_chat kind = \<lparr>ch_kind = kind,
     ch_history = \<lparr>hu_unreadCount = Some 2, hu_unreadMark = False, hu_muted = False, hu_folder = False, hu_things = new_things\<rparr>,
     ch_forum = None, ch_folderKnown = True, ch_fakeUnread = False\<rparr>"

definition mentioned :: things where
  "mentioned = new_things\<lparr>th_data := Some \<lparr>ta_mentions = \<lparr>tl_count = Some 1, tl_messages = []\<rparr>, ta_reactions = new_things_list\<rparr>\<rparr>"

definition no_rules :: rule_flags where
  "no_rules = \<lparr>rf_contacts = False, rf_non_contacts = False, rf_groups = False, rf_broadcasts = False, rf_bots = False,
     rf_exclude_muted = False, rf_exclude_read = False, rf_exclude_archived = False\<rparr>"

definition some_folders :: "mtp_dialog_filter list" where
  "some_folders = [MTP_dialogFilterDefault,
     MTP_dialogFilter (no_rules\<lparr>rf_groups := True, rf_exclude_muted := True\<rparr>) 2 ''groups'' None [] [] [],
     MTP_dialogFilter (no_rules\<lparr>rf_groups := True, rf_exclude_read := True\<rparr>) 3 ''unread'' None [] [] [InputPeerUser 8]]"

definition some_filter_calls :: "filters_call list" where
  "some_filter_calls = [CallRefreshEntry 5, CallLoadDone 1 some_folders, CallRefreshEntry 6, CallMuted 5 True, CallUnreadCount 6 0,
     CallThings 6 mentioned, CallFolder 6 True, CallSaveOrder 1 [3, 0, 2], CallRemove 2]"

theorem folders_show_their_chats_witness:
  "\<exists>s. filters_run some_filter_calls (new_filters (\<lambda>_. some_chat BasicGroup) (\<lambda>_. None)) = Some s \<and> distinct (map cf_id (cs_list s))
    \<and> (\<forall>f \<in> set (cs_list s). cf_id f \<noteq> 0 \<longrightarrow>
         (\<forall>h. inFilterList (cf_id f) h s \<longleftrightarrow> inChatList h s \<and> filter_contains f h (cs_chat s h)))"
proof (rule folders_show_their_chats)
  show "\<forall>h. count_ok (some_chat BasicGroup)" by (simp add: count_ok_def some_chat_def)
  show "calls_fine some_filter_calls (new_filters (\<lambda>_. some_chat BasicGroup) (\<lambda>_. None))" by code_simp
qed

text \<open>
  C16: a list of folders with different ids received from the server is the list kept: the same folders in the same
  order with the same chats, after one of all chats when the server sends none.
\<close>

theorem received_folders:
  assumes "filters_ok s" and "received_fine self list"
  shows "\<exists>s1 fs. received self list s = Some s1 \<and> filters_ok s1 \<and> list_all2 same_rules fs (map (FromTL self) list)
    \<and> cs_list s1 = (if 0 \<in> cf_id ` set fs then fs else default_filter # fs)"
proof -
  have d: "distinct (map (cf_id \<circ> FromTL self) list)" using assms(2) by (simp add: received_fine_def)
  show ?thesis by (rule received_ok[OF assms(1) d]) blast
qed

theorem received_folders_witness:
  "\<exists>s1 fs. received 1 (tl some_folders) (new_filters (\<lambda>_. some_chat BasicGroup) (\<lambda>_. None)) = Some s1 \<and> filters_ok s1
    \<and> list_all2 same_rules fs (map (FromTL 1) (tl some_folders))
    \<and> cs_list s1 = (if 0 \<in> cf_id ` set fs then fs else default_filter # fs)"
proof (rule received_folders)
  show "filters_ok (new_filters (\<lambda>_. some_chat BasicGroup) (\<lambda>_. None))"
    by (rule new_filters_ok) (simp add: count_ok_def some_chat_def)
  show "received_fine 1 (tl some_folders)" by code_simp
qed

text \<open>
  an order of the folders is taken exactly when it is one of the ids of the folders there are; otherwise nothing
  changes and it is refused.
\<close>

theorem order_applied:
  assumes "filters_ok s"
  shows "\<exists>s1. applyOrder order s = Some (mset order = mset (map cf_id (cs_list s)), s1) \<and> filters_ok s1
    \<and> (if mset order = mset (map cf_id (cs_list s)) then map cf_id (cs_list s1) = order \<and> mset (cs_list s1) = mset (cs_list s) else s1 = s)"
  by (rule applyOrder_spec[OF assms, of order]) auto

theorem order_applied_witness:
  "\<exists>s1. applyOrder [1] (new_filters (\<lambda>_. some_chat BasicGroup) (\<lambda>_. None)) = Some (False, s1)"
proof -
  have "filters_ok (new_filters (\<lambda>_. some_chat BasicGroup) (\<lambda>_. None))"
    by (rule new_filters_ok) (simp add: count_ok_def some_chat_def)
  from order_applied[OF this, of "[1]"] show ?thesis by (auto simp: new_filters_def default_filter_def ChatFilter_def)
qed

text \<open>
  C34: a muted chat shown in a folder without muted chats for its unread mention stays there when the mention is read
  but messages are still unread, although the folder does not contain it any more.
\<close>

theorem folder_left_stale:
  assumes "filters_ok s" "f \<in> set (cs_list s)" "cf_id f \<noteq> 0" "inFilterList (cf_id f) h s" "h \<notin> set (cf_always f)" "has_flag f FlagNoMuted"
    and "\<not> isForum (cs_chat s h)" "hu_muted (ch_history (cs_chat s h))" "chat_count (cs_chat s h) \<noteq> 0" "\<not> proxy_has Mentions t"
  shows "\<exists>s1. thingsChanged h t s = Some s1 \<and> inFilterList (cf_id f) h s1 \<and> \<not> filter_contains f h (cs_chat s1 h)"
proof -
  define c where "c = cs_chat s h"
  define c1 where "c1 = put_history ((ch_history c)\<lparr>hu_things := t\<rparr>) c"
  have c: "inChatList h s" "filter_contains f h c" "ch_folderKnown c" "count_ok c"
    using filters_okD[OF assms(1)] assms(2-4) by (auto simp: folder_exact_def c_def)
  have forum: "ch_forum c = None" "ch_forum c1 = None" using assms(7) by (simp_all add: isForum_def c_def c1_def put_history_def)
  have k: "count_ok c1" "hu_muted (ch_history c1)" "chat_count c1 \<noteq> 0" "\<not> chat_mention c1"
    using c(4) assms(8-10) by (simp_all add: c1_def put_history_def count_ok_def chat_count_def c_def)
  have n: "cf_flags f AND (FlagNoMuted OR FlagNoRead) \<noteq> 0"
    using assms(6) by (simp add: has_flag_def bit.conj_disj_distrib or_eq_0_iff)
  have "chat_mention c" using c(2) n assms(5,6,8) history_chat(2)[OF forum(1) c(4)] by (auto simp: filter_contains_def c_def Let_def split: if_splits)
  moreover have "isForFilters ((chat_unread c1)\<lparr>us_mentions := 1\<rparr>)" by (simp add: isForFilters_def)
  moreover have "isForFilters (chat_unread c1)" using history_chat(3)[OF forum(2) k(1)] k(3) by simp
  ultimately have "thingsChanged h t s = Some (put_chat h c1 s)"
    using c(1,3) assms(7,10) by (simp add: thingsChanged_def Let_def chat_notify_def c_def[symmetric] c1_def[symmetric]) (simp add: c1_def put_history_def)
  moreover have "\<not> filter_contains f h c1"
    using n assms(5,6) k(2,4) history_chat(2)[OF forum(2) k(1)] by (simp add: filter_contains_def Let_def)
  ultimately show ?thesis using assms(4) by auto
qed


definition stale_state :: "peer_kind \<Rightarrow> mtp_dialog_filter \<Rightarrow> filters_call list \<Rightarrow> filters_state" where
  "stale_state kind f cs =
     the (filters_run (CallLoadDone 1 [MTP_dialogFilterDefault, f] # CallRefreshEntry 5 # cs) (new_filters (\<lambda>_. some_chat kind) (\<lambda>_. None)))"

lemma stale_state_ok:
  assumes "calls_fine (CallLoadDone 1 [MTP_dialogFilterDefault, f] # CallRefreshEntry 5 # cs) (new_filters (\<lambda>_. some_chat kind) (\<lambda>_. None))"
  shows "filters_ok (stale_state kind f cs)"
proof -
  have "filters_ok (new_filters (\<lambda>_. some_chat kind) (\<lambda>_. None))" by (rule new_filters_ok) (simp add: count_ok_def some_chat_def)
  from run_ok[OF this assms] show ?thesis by (auto simp: stale_state_def simp del: filters_run.simps)
qed

definition unmuted_groups :: mtp_dialog_filter where
  "unmuted_groups = MTP_dialogFilter (no_rules\<lparr>rf_groups := True, rf_exclude_muted := True\<rparr>) 2 ''groups'' None [] [] []"

definition mention_calls :: "filters_call list" where
  "mention_calls = [CallThings 5 mentioned, CallMuted 5 True]"

theorem folder_left_stale_witness:
  "\<exists>s1. thingsChanged 5 new_things (stale_state Megagroup unmuted_groups mention_calls) = Some s1 \<and> inFilterList 2 5 s1
    \<and> \<not> filter_contains (FromTL 1 unmuted_groups) 5 (cs_chat s1 5)"
proof -
  let ?s = "stale_state Megagroup unmuted_groups mention_calls"
  let ?f = "FromTL 1 unmuted_groups"
  have ok: "filters_ok ?s" by (rule stale_state_ok) code_simp
  have f: "cf_id ?f = 2" by code_simp
  have "\<exists>s1. thingsChanged 5 new_things ?s = Some s1 \<and> inFilterList (cf_id ?f) 5 s1 \<and> \<not> filter_contains ?f 5 (cs_chat s1 5)"
  proof (rule folder_left_stale[OF ok])
    show "?f \<in> set (cs_list ?s)" by code_simp
    show "cf_id ?f \<noteq> 0" by code_simp
    show "inFilterList (cf_id ?f) 5 ?s" by code_simp
    show "5 \<notin> set (cf_always ?f)" by code_simp
    show "has_flag ?f FlagNoMuted" by code_simp
    show "\<not> isForum (cs_chat ?s 5)" by code_simp
    show "hu_muted (ch_history (cs_chat ?s 5))" by code_simp
    show "chat_count (cs_chat ?s 5) \<noteq> 0" by code_simp
    show "\<not> proxy_has Mentions new_things" by code_simp
  qed
  then show ?thesis unfolding f .
qed

text \<open>
  a contact shown in a folder of contacts stays there when it is removed from the contacts, although the folder
  does not contain it any more.
\<close>

theorem contact_left_stale:
  assumes "inFilterList (cf_id f) h s" "h \<notin> set (cf_always f)" "\<not> has_flag f FlagNonContacts" "ch_kind (cs_chat s h) = ContactUser"
  shows "inFilterList (cf_id f) h (setIsContact h False s) \<and> \<not> filter_contains f h (cs_chat (setIsContact h False s) h)"
  using assms by (simp add: setIsContact_def filter_contains_def Let_def)

definition contacts_folder :: mtp_dialog_filter where
  "contacts_folder = MTP_dialogFilter (no_rules\<lparr>rf_contacts := True\<rparr>) 2 ''contacts'' None [] [] []"

theorem contact_left_stale_witness:
  "inFilterList (cf_id (FromTL 1 contacts_folder)) 5 (setIsContact 5 False (stale_state ContactUser contacts_folder []))
    \<and> \<not> filter_contains (FromTL 1 contacts_folder) 5 (cs_chat (setIsContact 5 False (stale_state ContactUser contacts_folder [])) 5)"
proof (rule contact_left_stale)
  show "inFilterList (cf_id (FromTL 1 contacts_folder)) 5 (stale_state ContactUser contacts_folder [])" by code_simp
  show "5 \<notin> set (cf_always (FromTL 1 contacts_folder))" by code_simp
  show "\<not> has_flag (FromTL 1 contacts_folder) FlagNonContacts" by code_simp
  show "ch_kind (cs_chat (stale_state ContactUser contacts_folder []) 5) = ContactUser" by code_simp
qed

text \<open>
  the chats asked for at once are not bounded by \<open>kLoadExceptionsPerRequest\<close>: those of a folder with more of them
  than that are all asked for, and the folder stays the next one in the queue, asked for again after the reply.
\<close>

theorem exceptions_asked_again:
  assumes "cs_exceptions s = fid # queue" and "length (unknown_exceptions s fid) > kLoadExceptionsPerRequest" and "\<not> cs_exceptionsRequest s"
  shows "loadNextExceptions True n s = (True, fire (RequestPeerDialogs (unknown_exceptions s fid)) (s\<lparr>cs_exceptionsRequest := True\<rparr>))
    \<and> cs_exceptions (snd (loadNextExceptions True n s)) = cs_exceptions s"
proof -
  have same: "s\<lparr>cs_exceptions := fid # queue, cs_exceptionsRequest := True\<rparr> = s\<lparr>cs_exceptionsRequest := True\<rparr>"
    by (rule filters_state.equality) (use assms(1) in simp_all)
  have "unknown_exceptions s fid \<noteq> []" using assms(2) by auto
  moreover have "cs_exceptions (fire e s1) = cs_exceptions s1" for e s1 by (simp add: fire_def)
  ultimately show ?thesis using assms by (simp add: loadNextExceptions_def same)
qed

definition big_folder :: filters_state where
  "big_folder = (new_filters (\<lambda>_. (some_chat OtherUser)\<lparr>ch_folderKnown := False\<rparr>) (\<lambda>_. None))
     \<lparr>cs_list := [default_filter, ChatFilter 2 [] [] 0 (map (\<lambda>i. word_of_nat (Suc i)) [0..<101]) [] []], cs_exceptions := [2]\<rparr>"

theorem exceptions_asked_again_witness:
  "\<exists>s1 chats. loadNextExceptions True 0 big_folder = (True, s1) \<and> cs_events s1 = [RequestPeerDialogs chats] \<and> length chats = 101
    \<and> cs_exceptions s1 = [2]"
proof -
  have u: "unknown_exceptions big_folder 2 = map (\<lambda>i. word_of_nat (Suc i)) [0..<101]"
    by (simp add: unknown_exceptions_def big_folder_def default_filter_def ChatFilter_def some_chat_def new_filters_def del: upt_rec_numeral)
  have "cs_exceptions big_folder = [2]" "\<not> cs_exceptionsRequest big_folder" by (simp_all add: big_folder_def new_filters_def)
  moreover have "length (unknown_exceptions big_folder 2) > kLoadExceptionsPerRequest" unfolding u by (simp add: kLoadExceptionsPerRequest_def)
  ultimately have "loadNextExceptions True 0 big_folder
      = (True, fire (RequestPeerDialogs (unknown_exceptions big_folder 2)) (big_folder\<lparr>cs_exceptionsRequest := True\<rparr>))
    \<and> cs_exceptions (snd (loadNextExceptions True 0 big_folder)) = cs_exceptions big_folder"
    by (intro exceptions_asked_again)
  moreover have "cs_events (fire e (big_folder\<lparr>cs_exceptionsRequest := True\<rparr>)) = [e]" for e by (simp add: fire_def big_folder_def new_filters_def)
  ultimately show ?thesis using u \<open>cs_exceptions big_folder = [2]\<close> by auto
qed

text \<open>
  without premium the first folder shown is the one of all chats, wherever it is in the list, and the others keep their order.\<close>

theorem folders_without_premium:
  assumes "distinct (map cf_id (cs_list s))" and "0 \<in> cf_id ` set (cs_list s)"
  shows "map (\<lambda>i. lookupId False i s) [0..<length (cs_list s)]
    = Some 0 # map Some (filter (\<lambda>fid. fid \<noteq> 0) (map cf_id (cs_list s)))"
proof -
  obtain p where p: "find_filter 0 (cs_list s) = Some p" using assms(2) find_filter_None by (metis not_None_eq)
  then have l: "p < length (cs_list s)" "cf_id (cs_list s ! p) = 0" using find_filter_Some by blast+
  have m: "map cf_id (cs_list s) = take p (map cf_id (cs_list s)) @ 0 # drop (Suc p) (map cf_id (cs_list s))"
    using id_take_nth_drop[of p "map cf_id (cs_list s)"] l by simp
  have "distinct (take p (map cf_id (cs_list s)) @ 0 # drop (Suc p) (map cf_id (cs_list s)))" using assms(1) m by simp
  then have z: "0 \<notin> set (take p (map cf_id (cs_list s)))" "0 \<notin> set (drop (Suc p) (map cf_id (cs_list s)))" by auto
  have rest: "filter (\<lambda>fid. fid \<noteq> 0) xs = xs" if "0 \<notin> set xs" for xs :: "int list" using that by (induction xs) auto
  have "filter (\<lambda>fid. fid \<noteq> 0) (map cf_id (cs_list s)) = take p (map cf_id (cs_list s)) @ drop (Suc p) (map cf_id (cs_list s))"
    using z by (subst m) (simp add: rest)
  moreover have "map (\<lambda>i. lookupId False i s) [0..<length (cs_list s)]
      = map Some (0 # take p (map cf_id (cs_list s)) @ drop (Suc p) (map cf_id (cs_list s)))"
  proof (rule nth_equalityI)
    fix i assume "i < length (map (\<lambda>i. lookupId False i s) [0..<length (cs_list s)])"
    then have i: "i < length (cs_list s)" by simp
    have h: "cf_id (hd (cs_list s)) = 0 \<longleftrightarrow> p = 0" using p l by (cases "cs_list s") (auto split: if_splits)
    show "map (\<lambda>i. lookupId False i s) [0..<length (cs_list s)] ! i
      = map Some (0 # take p (map cf_id (cs_list s)) @ drop (Suc p) (map cf_id (cs_list s))) ! i"
      using i l h p by (cases i) (auto simp: lookupId_def Let_def nth_append min_def)
  qed (use l in simp)
  ultimately show ?thesis by simp
qed

theorem folders_without_premium_witness:
  "map (\<lambda>i. lookupId False i ((new_filters (\<lambda>_. some_chat BasicGroup) (\<lambda>_. None))\<lparr>cs_list := [some_folder, default_filter]\<rparr>)) [0, 1] = [Some 0, Some 5]"
proof -
  let ?s = "(new_filters (\<lambda>_. some_chat BasicGroup) (\<lambda>_. None))\<lparr>cs_list := [some_folder, default_filter]\<rparr>"
  have "distinct (map cf_id (cs_list ?s))" "0 \<in> cf_id ` set (cs_list ?s)" by (simp_all add: some_folder_def default_filter_def ChatFilter_def)
  from folders_without_premium[OF this] show ?thesis by (simp add: some_folder_def default_filter_def ChatFilter_def numeral_2_eq_2)
qed

end
