(* ===== verification/Spec2Isabelle.thy ===== *)
theory Spec2Isabelle
  imports Prelude PtsWaiter PeerIds Lastseen Drafts Slices SliceBuilder SparseIdsList MessagesList SparseIds LangTag CardValidator BusinessHours
    TcpProtocol TcpConnection TcpStart DcKeyCreator SegmentTree ReceivedIds DialogsList DialogsPinned DialogsIndexed UnreadThings DialogsUnread UpdatesState UpdatesSeq UpdatesCycle
    ChatFilters
begin

text \<open>
  \<^bold>\<open>The program.\<close> The repository is the source of a desktop client of the Telegram messenger. All paths
  below are under \<open>src/Telegram/SourceFiles\<close>. The client talks to the servers through MTProto
  (\<open>mtproto/\<close>), keeps what it knows of chats, users and messages in memory (\<open>data/\<close>, \<open>history/\<close>,
  \<open>storage/\<close>), shows lists of chats (\<open>dialogs/\<close>) and messages, and draws all of it with widgets. This
  development models parts of the client that decide something on their own, without a screen, a
  database or a server: the transport below, the bookkeeping of what was loaded above, and
  self-contained algorithms beside them.

  \<^bold>\<open>Transport.\<close> Theories \<open>TcpProtocol\<close>, \<open>TcpConnection\<close> and \<open>TcpStart\<close> model
  \<open>mtproto/connection_tcp.{h,cpp}\<close> with the parts of \<open>mtproto/connection_abstract.cpp\<close>,
  \<open>mtproto/mtproto_auth_key.h\<close> and \<open>mtproto/details/mtproto_tcp_socket.cpp\<close> they call. \<open>TcpProtocol\<close>
  has the classes \<open>Version0\<close>, \<open>Version1\<close> and \<open>VersionD\<close> (framing of packets), \<open>parsePacket\<close> and
  \<open>parseNotSecureResponse\<close>; what the connection needs of a framing is the locale \<open>packet_protocol\<close>,
  interpreted on these versions. \<open>TcpConnection\<close> has \<open>socketRead\<close> with its two buffers, its loop
  and the handling of packets by the state of the connection; the main result compares it with
  a connection that takes its packets from one stream of bytes. \<open>TcpStart\<close> has what is sent first
  (\<open>prepareConnectionStartPrefix\<close>, \<open>sendData\<close>). \<open>DcKeyCreator\<close> models the arithmetic of
  \<open>mtproto/details/mtproto_dc_key_creator.cpp\<close>: the greatest common divisor, the factorisation of
  the server's number and the encryption of the factors. \<open>ReceivedIds\<close> models
  \<open>mtproto/details/mtproto_received_ids_manager.{h,cpp}\<close>, which keeps a message from being handled
  twice.

  \<^bold>\<open>Updates.\<close> \<open>PtsWaiter\<close> models \<open>data/data_pts_waiter.{h,cpp}\<close>: updates that come out of order are
  kept until the ones before them have come. Its record holds the fields of the class and, as a
  list, the calls it makes to \<open>Api::Updates\<close>. \<open>UpdatesState\<close> is that class (\<open>api/api_updates.{h,cpp}\<close>)
  with the waiters of the account and of its channels: packets in the order of their seq, feeding of
  updates, the requests for what was missed (\<open>getDifference\<close>, \<open>getChannelDifference\<close>), their replies and
  failures and the timers, as steps on one record. \<open>UpdatesSeq\<close> shows the order of packets,
  \<open>UpdatesCycle\<close> what the reachable states of the requests satisfy; it also proves two ways in which the code stops
  for good: after \<open>differenceTooLong\<close>, and for a channel whose difference failed.

  \<^bold>\<open>Loaded messages.\<close> What was loaded of a chat is a set of slices, ranges in which everything is
  known. \<open>Slices\<close> has the algorithm that \<open>storage/storage_sparse_ids_list.{h,cpp}\<close> (ids of shared
  media; theory \<open>SparseIdsList\<close>) and \<open>data/data_messages.{h,cpp}\<close> (positions of messages; theory
  \<open>MessagesList\<close>) both contain, over any linear order. \<open>SliceBuilder\<close> has the window a viewer shows and
  how it follows the updates a list fires (\<open>MessagesSliceBuilder\<close>, \<open>SparseIdsSliceBuilder\<close>);
  \<open>SparseIds\<close> the merge of a supergroup's window with the window of the group it was
  (\<open>data/data_sparse_ids.{h,cpp}\<close>, \<open>data/data_abstract_sparse_ids.h\<close>). The results compose: a list is right
  about the messages that exist, and a builder fed by a list that is right shows what the list
  knows.

  \<^bold>\<open>Lists of chats.\<close> \<open>DialogsList\<close> models \<open>dialogs/dialogs_list.{h,cpp}\<close> and the rows: a sorted list whose rows
  know their positions and heights. \<open>DialogsPinned\<close> has the pinned chats (\<open>dialogs/dialogs_pinned_list.{h,cpp}\<close>) and the
  sort keys of entries (\<open>dialogs/dialogs_entry.cpp\<close>), \<open>DialogsIndexed\<close> the list with its lists by letter and the
  search (\<open>dialogs/dialogs_indexed_list.{h,cpp}\<close>), \<open>UnreadThings\<close> the unread mentions and reactions of a thread
  (\<open>history/history_unread_things.{h,cpp}\<close>), and \<open>DialogsUnread\<close> the totals of a list
  (\<open>dialogs/dialogs_main_list.{h,cpp}\<close>) with the states that histories, topics (with their read positions and counts in
  \<open>data/data_replies_list.cpp\<close>), forums and folders announce to it. Each
  of these is a machine whose steps are the calls of the code, and the later ones run the earlier ones.
  \<open>ChatFilters\<close> models the chat folders (\<open>data/data_chat_filters.{h,cpp}\<close>): what a folder contains, the list of
  folders as the server sends and changes it, and the chats each folder shows, with the changes of a chat in
  \<open>data/data_session.cpp\<close>, \<open>history/history.cpp\<close> and \<open>dialogs/dialogs_entry.cpp\<close> that move it in and out of them.

  \<^bold>\<open>Values.\<close> \<open>PeerIds\<close> (\<open>data/data_peer_id.{h,cpp}\<close>, \<open>data/data_msg_id.h\<close>), \<open>Lastseen\<close>
  (\<open>data/data_lastseen_status.h\<close>) and \<open>Drafts\<close> (\<open>data/data_drafts.{h,cpp}\<close> with the drafts of
  \<open>history/history.cpp\<close>) model the packed numbers and keys that other parts store, and what drafts
  a chat keeps when its server sends others. \<open>LangTag\<close> (\<open>lang/lang_tag.{h,cpp}\<close>) has plural rules,
  tags in strings and shortened numbers, \<open>Decimal\<close> the decimal numbers it reads and writes;
  \<open>BusinessHours\<close> (\<open>data/business/data_business_common.{h,cpp}\<close>) opening hours and recipients;
  \<open>CardValidator\<close> (\<open>payments/stripe/stripe_card_validator.{h,cpp}\<close>) the checks of bank cards;
  \<open>SegmentTree\<close> (\<open>statistics/segment_tree.{h,cpp}\<close>) range queries of the charts.

  \<^bold>\<open>How the code is read.\<close>
  Objects are records with the fields of the class, methods are functions from the state to the
  state, and what a method tells others (signals, requests, updates fired) is recorded in the
  state as a list, in order. \<open>base::flat_map\<close> and \<open>base::flat_set\<close> are sorted lists (theory
  \<open>Prelude\<close>, with the laws of their interfaces as the locales \<open>ordered_map\<close> and \<open>ordered_set\<close> and
  their interpretations). Integers are \<open>int\<close> where the code only compares, adds and subtracts numbers
  that the model bounds, and words of their width where bits, wrap-around or sign matter
  (peer ids, keys of the update queue, received ids, all of the transport, statuses that are
  packed). A failing \<open>Expects\<close>, \<open>Assert\<close> or \<open>Unexpected\<close>, an access outside of a container and a loop
  that does not end are the value \<open>None\<close>; that a call gives \<open>Some\<close> is part of the theorems, under
  conditions on the call itself that they name. Loops are recursive functions with proved termination (measures: the bytes left, the
  sum of two numbers, the rest of a list); the search for a good random number, which need not
  end, runs over the finite list of the random numbers drawn, and the results say what holds when
  the list contains a good one. The factorisation needs no fuel: its loops are bounded by
  constants of the code.

  Code that is not in the repository is a parameter with documented laws as named hypotheses:
  \<open>std::sort\<close> and \<open>ranges::sort\<close> (theory \<open>StdSort\<close>: a sorted permutation, not stable), OpenSSL's counter mode
  (\<open>counter_mode\<close>, \<open>stream_cipher\<close>: encrypting in parts is encrypting at once), SHA-256, RSA, AES-IGE,
  big numbers, Qt's printing of doubles, the generated parsers of the API schema, and the
  slots connected to a signal (\<open>slots_close\<close>). Each hypothesis has an instance in a witness.

  \<^bold>\<open>The results.\<close>
  Refinement: reading packets is independent of how their bytes are cut (\<open>tcp_stream_refined\<close>), a
  viewer shows what the list knows at its start and after pages (\<open>viewer_starts_right\<close>,
  \<open>viewer_follows_pages\<close>), the pinned list and the index by letter do what their calls mean
  (\<open>pinned_list_refined\<close>, \<open>chat_index_follows_names\<close>). Invariants: \<open>unread_totals_exact\<close>, \<open>dialogs_list_ordered\<close>,
  \<open>messages_list_truth\<close>, \<open>folders_show_their_chats\<close>, \<open>difference_cycle\<close>, \<open>sparse_invariant\<close>. Order: \<open>pts_delivery_any_order\<close>,
  \<open>updates_in_seq_order\<close>, \<open>sparse_pages_any_order\<close>. Safety: \<open>received_once\<close>, \<open>unread_things_told\<close>,
  \<open>luhn_detects_errors\<close>, \<open>viewer_follows_removal\<close>, \<open>saving_draft_skips_updates\<close>. Liveness and termination:
  \<open>tcp_packets_delivered\<close>, \<open>factorize_pq\<close>. Round trips: packets, peer ids, recipients, folders, the encrypted factors.
  Equivalence with a reference: segment tree, plural rules, the search of chats (\<open>chat_search_exact\<close>). Behaviour the
  code does not mean: \<open>folder_mark_not_announced\<close>, \<open>dialogs_row_at\<close>, \<open>difference_too_long_stuck\<close>, \<open>channel_fail_stuck\<close>,
  \<open>folder_left_stale\<close>, \<open>contact_left_stale\<close>, \<open>exceptions_asked_again\<close>, \<open>topic_read_not_announced\<close>,
  \<open>merged_index_outside\<close>. Four of these are the complement of an invariant whose conditions leave them out: the
  totals of \<open>unread_totals_exact\<close> are wrong after \<open>folder_mark_not_announced\<close> and \<open>topic_read_not_announced\<close>, the
  folders of \<open>folders_show_their_chats\<close> after \<open>folder_left_stale\<close> and \<open>contact_left_stale\<close>. The other properties state what the operations
  return on every branch.

  \<^bold>\<open>Not modelled.\<close> Widgets, painting and layout; the window and platform layers; the requests to the server
  (\<open>apiwrap\<close>, \<open>api/\<close>) but those for updates and folders, their replies change the modelled state only through the
  operations modelled here; the session of MTProto beyond its received ids; the encrypted local storage; audio and
  video; calls; the export and import formats. They are glue between libraries and widgets, or rest on
  libraries (Qt, OpenSSL, FFmpeg, WebRTC) and generated code that are not in the repository.
\<close>

end
